(* ===== verification/Base.thy ===== *)
theory Base
  imports Main "HOL-Library.Word"
begin

text \<open>
  Vocabulary and automation shared by every component: the machine integer types of the C
  sources, SQLite's result codes, the scripted allocator that stands for
  \<open>sqlite3Malloc\<close> and its kin, and generic lemmas on lists and words.
\<close>

unbundle bit_operations_syntax

subsection \<open>Machine integers of the sources\<close>

type_synonym u8 = "8 word"
type_synonym u16 = "16 word"
type_synonym u32 = "32 word"
type_synonym u64 = "64 word"

subsection \<open>Result codes\<close>

abbreviation (input) SQLITE_OK :: int where "SQLITE_OK \<equiv> 0"
abbreviation (input) SQLITE_NOMEM :: int where "SQLITE_NOMEM \<equiv> 7"

subsection \<open>The allocator\<close>

text \<open>
  An allocation either succeeds or fails; which one is scripted by a list of outcomes.
  After the script every allocation succeeds. A property that quantifies over the
  script holds for every pattern of allocation failures.
\<close>

type_synonym oom = "bool list"

fun malloc_step :: "oom \<Rightarrow> bool \<times> oom" where
  "malloc_step [] = (True, [])"
| "malloc_step (b # bs) = (b, bs)"

subsection \<open>Lists and words\<close>

lemma nth_list_update_if:
  "k < length xs \<Longrightarrow> xs[k := v] ! j = (if j = k then v else xs ! j)"
  by simp

lemma unat_add_nowrap:
  "unat a + unat b < 2 ^ LENGTH('a) \<Longrightarrow> unat (a + b :: 'a::len word) = unat a + unat b"
  by (rule unat_add_lem[THEN iffD1])

lemma unat_lt2p_aux: "unat w < 2 ^ LENGTH('a)" for w :: "'a::len word"
  by simp

lemma unat_Suc_less:
  "unat i < unat s \<Longrightarrow> unat (i + 1) = unat i + 1" for i s :: "'a::len word"
  by (subst unat_add_nowrap)
    (auto simp: Suc_le_eq intro: le_less_trans[OF _ unat_lt2p_aux[of s]])

lemma and_7: "i AND 7 = take_bit 3 (i :: 'a::len word)"
  by (simp add: take_bit_eq_mask mask_eq_exp_minus_1)

lemma unat_and_7: "unat (i AND 7 :: u32) = unat i mod 8"
  unfolding and_7 unsigned_take_bit_eq by (simp add: take_bit_eq_mod)

lemma unat_drop_bit: "unat (drop_bit k v) = unat v div 2 ^ k" for v :: "'a::len word"
  by (simp only: unsigned_drop_bit_eq)
    (simp only: drop_bit_eq_div, simp add: take_bit_nat_eq_self)

text \<open>Two words are equal when their bits are; the bits are listed for the simplifier.\<close>

lemma bit_listed:
  assumes "bit a 0 = bit b 0 \<and> bit a 1 = bit b 1 \<and> list_all (\<lambda>n. bit a n = bit b n) [2 ..< m]"
    and "n < m"
  shows "bit a n = bit b n"
proof -
  from assms(2) have "n = 0 \<or> n = 1 \<or> n \<in> set [2 ..< m]" by (simp only: set_upt atLeastLessThan_iff) auto
  with assms(1) show ?thesis unfolding list_all_iff by blast
qed

lemma u64_eqI:
  "bit a 0 = bit b 0 \<and> bit a 1 = bit b 1 \<and> list_all (\<lambda>n. bit a n = bit b n) [2 ..< 64] \<Longrightarrow> a = b"
  for a b :: u64
  by (rule bit_word_eqI, rule bit_listed[where m = 64]) simp_all

lemma u32_eqI:
  "bit a 0 = bit b 0 \<and> bit a 1 = bit b 1 \<and> list_all (\<lambda>n. bit a n = bit b n) [2 ..< 32] \<Longrightarrow> a = b"
  for a b :: u32
  by (rule bit_word_eqI, rule bit_listed[where m = 32]) simp_all

lemma u8_eqI:
  "bit a 0 = bit b 0 \<and> bit a 1 = bit b 1 \<and> list_all (\<lambda>n. bit a n = bit b n) [2 ..< 8] \<Longrightarrow> a = b"
  for a b :: u8
  by (rule bit_word_eqI, rule bit_listed[where m = 8]) simp_all

lemma bit8: "8 \<le> n \<Longrightarrow> \<not> bit (b :: u8) n"
  by (auto dest: bit_imp_le_length)

lemma bit64: "64 \<le> n \<Longrightarrow> \<not> bit (v :: u64) n"
  by (auto dest: bit_imp_le_length)

lemma and_0x80: "x AND 0x80 = 0 \<longleftrightarrow> \<not> bit x 7" for x :: "'a::len word"
  using bit_iff_and_push_bit_not_eq_0[of x 7] by (simp add: push_bit_of_1)

lemma and_0x7f: "w AND 0x7f = take_bit 7 w" for w :: "'a::len word"
  by (simp add: take_bit_eq_mask mask_eq_exp_minus_1)

lemma unat_u8_less: "unat (b :: u8) < 256"
  using unat_lt2p_aux[of b] by simp

lemma unat_ucast_u8: "unat (ucast b :: u32) = unat b" for b :: u8
  by (simp add: unsigned_ucast_eq take_bit_nat_eq_self less_trans[OF unat_u8_less])

lemma bit7_iff: "bit b 7 \<longleftrightarrow> 128 \<le> unat b" for b :: u8
proof -
  have "bit (unat b) 7 = bit b 7" by (simp add: bit_unsigned_iff)
  then have "bit b 7 \<longleftrightarrow> odd (unat b div 2 ^ 7)" by (simp only: bit_iff_odd)
  moreover have "unat b div 128 = 0 \<or> unat b div 128 = 1" using unat_u8_less[of b] by linarith
  ultimately show ?thesis by (auto simp: div_eq_0_iff)
qed

text \<open>A statement on all bytes is a finite list of instances.\<close>

lemma byte_cases:
  fixes c :: u8
  assumes "list_all (\<lambda>n. P (of_nat n)) [0 ..< 256]"
  shows "P c"
proof -
  have "unat c \<in> set [0 ..< 256]" using unat_u8_less[of c] by (simp del: upt_rec_numeral)
  with assms have "P (of_nat (unat c))" unfolding list_all_iff by blast
  then show ?thesis by simp
qed

text \<open>Appending a byte to a 32-bit value that has room for it.\<close>

lemma unat_push_byte:
  fixes x :: u32 and b :: u8
  assumes "unat x < 2 ^ 24"
  shows "unat (push_bit 8 x OR ucast b) = unat x * 256 + unat b"
proof -
  have "push_bit 8 x OR ucast b = push_bit 8 x + ucast b"
    by (rule disjunctive_add [symmetric]) (auto simp: bit_simps dest: bit_imp_le_length)
  moreover have "unat (ucast b :: u32) = unat b" by (rule unat_ucast_u8)
  moreover have "unat x * 256 + unat b < 2 ^ 32" using assms unat_u8_less[of b] by simp
  moreover have "unat (x * 256) = unat x * unat (256 :: u32)"
    using assms by (intro unat_mult_lem[THEN iffD1]) simp
  then have "unat (push_bit 8 x) = unat x * 256" by (simp add: push_bit_eq_mult)
  ultimately show ?thesis by (simp add: unat_add_nowrap)
qed

end
