(* ===== verification/Probing.thy ===== *)
theory Probing
  imports Base
begin

text \<open>
  Linear probing over an array in which a zero entry is a free slot, as \<open>bitvec.c\<close>
  and \<open>wal.c\<close> use it: the two search loops, the invariant that keeps every entry
  reachable from its hash, and what a search and an insertion then guarantee.
\<close>

definition next_slot :: "'a list \<Rightarrow> nat \<Rightarrow> nat" where
  "next_slot t h = (if h + 1 \<ge> length t then 0 else h + 1)"

text \<open>The loop that looks for a free slot. No slot left after a full turn: \<open>None\<close>.\<close>

fun probe_free :: "nat \<Rightarrow> 'a::zero list \<Rightarrow> nat \<Rightarrow> nat option" where
  "probe_free 0 t h = None"
| "probe_free (Suc f) t h =
     (if t ! h = 0 then Some h else probe_free f t (next_slot t h))"

text \<open>
  The loop that looks for the entry \<open>x\<close>: \<open>(True, s)\<close> when slot \<open>s\<close> holds it,
  \<open>(False, s)\<close> when the free slot \<open>s\<close> ends the search.
\<close>

fun probe_find :: "nat \<Rightarrow> 'a::zero list \<Rightarrow> nat \<Rightarrow> 'a \<Rightarrow> (bool \<times> nat) option" where
  "probe_find 0 t h x = None"
| "probe_find (Suc f) t h x =
     (if t ! h = 0 then Some (False, h)
      else if t ! h = x then Some (True, h)
      else probe_find f t (next_slot t h) x)"

definition used :: "'a::zero list \<Rightarrow> nat" where
  "used t = length (filter (\<lambda>x. x \<noteq> 0) t)"

definition entries :: "'a::zero list \<Rightarrow> 'a set" where
  "entries t = set t - {0}"

text \<open>Slot \<open>s\<close> is reached from \<open>h\<close> over occupied slots only.\<close>

definition reach :: "'a::zero list \<Rightarrow> nat \<Rightarrow> nat \<Rightarrow> bool" where
  "reach t h s \<longleftrightarrow> (\<exists>k < length t. s = (h + k) mod length t \<and>
     (\<forall>j < k. t ! ((h + j) mod length t) \<noteq> 0))"

definition probe_ok :: "('a::zero \<Rightarrow> nat) \<Rightarrow> 'a list \<Rightarrow> bool" where
  "probe_ok hash t \<longleftrightarrow>
     (\<forall>s < length t. t ! s \<noteq> 0 \<longrightarrow> reach t (hash (t ! s)) s)"

lemma next_slot_mod: "h < length t \<Longrightarrow> next_slot t h = (h + 1) mod length t"
  by (auto simp: next_slot_def mod_if)

lemma next_slot_less [simp]: "h < length t \<Longrightarrow> next_slot t h < length t"
  by (auto simp: next_slot_def)

lemma mod_len_less [simp]: "h < length t \<Longrightarrow> (h + k) mod length t < length t"
  by (rule mod_less_divisor) auto

lemma slot_shift:
  assumes "h < length t"
  shows "(h + Suc k) mod length t = (next_slot t h + k) mod length t"
  unfolding next_slot_mod[OF assms] by (simp add: mod_simps)

lemma slot_exists:
  assumes "z < n" "h < n"
  shows "\<exists>k < n. z = (h + k) mod (n::nat)"
proof (cases "h \<le> z")
  case True
  with assms show ?thesis by (intro exI[of _ "z - h"]) auto
next
  case False
  with assms show ?thesis by (intro exI[of _ "z + n - h"]) (auto simp: mod_if)
qed

lemma used_free_slot:
  assumes "used t < length t" shows "\<exists>s < length t. t ! s = 0"
proof (rule ccontr)
  assume "\<not> ?thesis"
  then have "filter (\<lambda>x. x \<noteq> 0) t = t"
    by (intro filter_True) (auto simp: in_set_conv_nth)
  with assms show False by (simp add: used_def)
qed

text \<open>A search that meets a free slot within its fuel returns, and says where it went.\<close>

lemma probe_find_returns:
  assumes "h < length t" "k < f" "t ! ((h + k) mod length t) = 0" "x \<noteq> 0"
  shows "\<exists>b s. probe_find f t h x = Some (b, s)"
  using assms
proof (induction f arbitrary: h k)
  case (Suc f)
  show ?case
  proof (cases "t ! h = 0 \<or> t ! h = x")
    case False
    with Suc.prems obtain k' where k: "k = Suc k'" by (cases k) auto
    with Suc.prems have "t ! ((next_slot t h + k') mod length t) = 0"
      by (simp only: slot_shift)
    with Suc.IH[of "next_slot t h" k'] Suc.prems k False show ?thesis by simp
  qed auto
qed simp

lemma probe_find_Some:
  assumes "probe_find f t h x = Some (b, s)" "h < length t"
  shows "\<exists>k < f. s = (h + k) mod length t \<and> t ! s = (if b then x else 0) \<and>
    (\<forall>j < k. t ! ((h + j) mod length t) \<noteq> 0 \<and> t ! ((h + j) mod length t) \<noteq> x)"
  using assms
proof (induction f arbitrary: h)
  case (Suc f)
  show ?case
  proof (cases "t ! h = 0 \<or> t ! h = x")
    case True
    with Suc.prems show ?thesis by (intro exI[of _ 0]) (auto split: if_splits)
  next
    case False
    with Suc.prems have "probe_find f t (next_slot t h) x = Some (b, s)" by simp
    from Suc.IH[OF this] Suc.prems obtain k where k: "k < f"
      "s = (next_slot t h + k) mod length t" "t ! s = (if b then x else 0)"
      "\<forall>j < k. t ! ((next_slot t h + j) mod length t) \<noteq> 0 \<and> t ! ((next_slot t h + j) mod length t) \<noteq> x"
      by auto
    show ?thesis
    proof (intro exI[of _ "Suc k"] conjI allI impI)
      show "s = (h + Suc k) mod length t" using k Suc.prems by (simp only: slot_shift)
      fix j assume "j < Suc k"
      then show "t ! ((h + j) mod length t) \<noteq> 0" and "t ! ((h + j) mod length t) \<noteq> x"
        using k False Suc.prems by (cases j; simp only: slot_shift; auto)+
    qed (use k in auto)
  qed
qed simp

lemma probe_free_returns:
  assumes "h < length t" "k < f" "t ! ((h + k) mod length t) = 0"
  shows "\<exists>s. probe_free f t h = Some s"
  using assms
proof (induction f arbitrary: h k)
  case (Suc f)
  show ?case
  proof (cases "t ! h = 0")
    case False
    with Suc.prems obtain k' where k: "k = Suc k'" by (cases k) auto
    with Suc.prems have "t ! ((next_slot t h + k') mod length t) = 0"
      by (simp only: slot_shift)
    with Suc.IH[of "next_slot t h" k'] Suc.prems k False show ?thesis by simp
  qed auto
qed simp

lemma probe_free_Some:
  assumes "probe_free f t h = Some s" "h < length t"
  shows "\<exists>k < f. s = (h + k) mod length t \<and> t ! s = 0 \<and>
    (\<forall>j < k. t ! ((h + j) mod length t) \<noteq> 0)"
  using assms
proof (induction f arbitrary: h)
  case (Suc f)
  show ?case
  proof (cases "t ! h = 0")
    case True
    with Suc.prems show ?thesis by (intro exI[of _ 0]) auto
  next
    case False
    with Suc.prems have "probe_free f t (next_slot t h) = Some s" by simp
    from Suc.IH[OF this] Suc.prems obtain k where k: "k < f"
      "s = (next_slot t h + k) mod length t" "t ! s = 0"
      "\<forall>j < k. t ! ((next_slot t h + j) mod length t) \<noteq> 0"
      by auto
    show ?thesis
    proof (intro exI[of _ "Suc k"] conjI allI impI)
      show "s = (h + Suc k) mod length t" using k Suc.prems by (simp only: slot_shift)
      fix j assume "j < Suc k"
      then show "t ! ((h + j) mod length t) \<noteq> 0"
        using k False Suc.prems by (cases j; simp only: slot_shift; auto)
    qed (use k in auto)
  qed
qed simp

text \<open>The searches of a table with a free slot, from any starting slot.\<close>

lemma probe_free_total:
  assumes "used t < length t" "h < length t"
  obtains s where "probe_free (length t) t h = Some s" "s < length t" "t ! s = 0" "reach t h s"
proof -
  from used_free_slot[OF assms(1)] obtain z where "z < length t" "t ! z = 0" by auto
  with slot_exists[OF _ assms(2)] obtain k where k: "k < length t" "t ! ((h + k) mod length t) = 0"
    by metis
  from probe_free_returns[OF assms(2) k] obtain s where s: "probe_free (length t) t h = Some s" ..
  from probe_free_Some[OF s assms(2)] assms(2) show ?thesis
    by (intro that[OF s]) (auto simp: reach_def)
qed

lemma probe_find_total:
  assumes "used t < length t" "h < length t" "x \<noteq> 0"
  obtains b s where "probe_find (length t) t h x = Some (b, s)" "s < length t" "reach t h s"
    "t ! s = (if b then x else 0)"
proof -
  from used_free_slot[OF assms(1)] obtain z where "z < length t" "t ! z = 0" by auto
  with slot_exists[OF _ assms(2)] obtain k where k: "k < length t" "t ! ((h + k) mod length t) = 0"
    by metis
  from probe_find_returns[OF assms(2) k assms(3)] obtain b s
    where s: "probe_find (length t) t h x = Some (b, s)" by blast
  from probe_find_Some[OF s assms(2)] assms(2) show ?thesis
    by (intro that[OF s]) (auto simp: reach_def)
qed

text \<open>The search from an entry's own hash decides membership.\<close>

lemma probe_find_mem:
  assumes ok: "probe_ok hash t" and "hash x < length t" "x \<noteq> 0"
    and find: "probe_find f t (hash x) x = Some (b, s)"
  shows "b \<longleftrightarrow> x \<in> entries t"
proof
  assume b
  with probe_find_Some[OF find assms(2)] assms(2) have "t ! s = x" "s < length t" by auto
  with assms(3) show "x \<in> entries t" by (auto simp: entries_def)
next
  assume "x \<in> entries t"
  then obtain i where i: "i < length t" "t ! i = x" by (auto simp: entries_def in_set_conv_nth)
  with ok assms(3) have "reach t (hash x) i" by (auto simp: probe_ok_def)
  then obtain m where m: "m < length t" "i = (hash x + m) mod length t"
    "\<forall>j < m. t ! ((hash x + j) mod length t) \<noteq> 0" by (auto simp: reach_def)
  from probe_find_Some[OF find assms(2)] obtain k where k:
    "s = (hash x + k) mod length t" "t ! s = (if b then x else 0)"
    "\<forall>j < k. t ! ((hash x + j) mod length t) \<noteq> x" by auto
  show b
  proof (rule ccontr)
    assume "\<not> b"
    with k have "t ! s = 0" by simp
    with m k i assms(3) have "\<not> k < m" "k \<noteq> m" by auto
    then have "m < k" by simp
    with k(3) m(2) i(2) show False by auto
  qed
qed

lemma probe_ok_insert:
  assumes ok: "probe_ok hash t" and s: "s < length t" "t ! s = 0" "reach t (hash x) s" "x \<noteq> 0"
  shows "probe_ok hash (t[s := x])"
    "entries (t[s := x]) = insert x (entries t)"
    "used (t[s := x]) = Suc (used t)"
proof -
  have mono: "reach (t[s := x]) h i" if r: "reach t h i" for h i
  proof -
    from r obtain k where k: "k < length t" "i = (h + k) mod length t"
      "\<forall>j < k. t ! ((h + j) mod length t) \<noteq> 0" by (auto simp: reach_def)
    then have "\<forall>j < k. t[s := x] ! ((h + j) mod length t) \<noteq> 0"
      using s by (auto simp: nth_list_update_if)
    with k show ?thesis by (auto simp: reach_def)
  qed
  show "probe_ok hash (t[s := x])"
    unfolding probe_ok_def length_list_update
  proof (intro allI impI)
    fix i assume i: "i < length t" "t[s := x] ! i \<noteq> 0"
    show "reach (t[s := x]) (hash (t[s := x] ! i)) i"
    proof (cases "i = s")
      case True with s mono show ?thesis by simp
    next
      case False with i ok mono show ?thesis by (simp add: probe_ok_def)
    qed
  qed
  have upd: "t[s := x] = take s t @ x # drop (Suc s) t" "t = take s t @ 0 # drop (Suc s) t"
    using s by (simp_all add: upd_conv_take_nth_drop id_take_nth_drop[symmetric])
       (metis id_take_nth_drop)
  have "set t = set (take s t) \<union> {0} \<union> set (drop (Suc s) t)"
    by (subst upd(2)) auto
  moreover have "set (t[s := x]) = set (take s t) \<union> {x} \<union> set (drop (Suc s) t)"
    by (subst upd(1)) auto
  ultimately show "entries (t[s := x]) = insert x (entries t)"
    using s(4) by (auto simp: entries_def)
  have "used t = length (filter (\<lambda>x. x \<noteq> 0) (take s t)) + length (filter (\<lambda>x. x \<noteq> 0) (drop (Suc s) t))"
    unfolding used_def by (subst upd(2)) simp
  moreover have "used (t[s := x]) = Suc (length (filter (\<lambda>x. x \<noteq> 0) (take s t)) + length (filter (\<lambda>x. x \<noteq> 0) (drop (Suc s) t)))"
    unfolding used_def by (subst upd(1)) (simp add: s(4))
  ultimately show "used (t[s := x]) = Suc (used t)" by simp
qed

lemma probe_ok_empty [simp]:
  "probe_ok hash (replicate n 0)" "entries (replicate n 0) = {}" "used (replicate n 0) = 0"
  by (auto simp: probe_ok_def entries_def used_def)

end
