(* ===== verification/Page_Set.thy ===== *)
theory Page_Set
  imports Base
begin

text \<open>
  The contract of a set of page numbers, as the pager relies on it for the pages it has
  journalled: a membership test, an insertion that may run out of memory, a removal.
  The provider is \<open>bitvec.c\<close>. The lemmas of the locale are what a client may conclude
  about a whole sequence of operations.
\<close>

datatype page_op = AddPage u32 | DelPage u32

fun page_of :: "page_op \<Rightarrow> u32" where
  "page_of (AddPage i) = i"
| "page_of (DelPage i) = i"

fun apply_page_op :: "nat set \<Rightarrow> page_op \<Rightarrow> nat set" where
  "apply_page_op S (AddPage i) = insert (unat i) S"
| "apply_page_op S (DelPage i) = S - {unat i}"

text \<open>A client's run: it stops at the first insertion that reports an error.\<close>

fun run_page_ops :: "(oom \<Rightarrow> 's \<Rightarrow> u32 \<Rightarrow> (int \<times> 's \<times> oom) option) \<Rightarrow> ('s \<Rightarrow> u32 \<Rightarrow> 's option) \<Rightarrow>
    oom \<Rightarrow> 's \<Rightarrow> page_op list \<Rightarrow> (int \<times> 's \<times> oom) option" where
  "run_page_ops add del m s [] = Some (SQLITE_OK, s, m)"
| "run_page_ops add del m s (AddPage i # ops) = (case add m s i of
     None \<Rightarrow> None
   | Some (rc, s', m') \<Rightarrow>
       if rc \<noteq> SQLITE_OK then Some (rc, s', m') else run_page_ops add del m' s' ops)"
| "run_page_ops add del m s (DelPage i # ops) = (case del s i of
     None \<Rightarrow> None | Some s' \<Rightarrow> run_page_ops add del m s' ops)"

locale page_set =
  fixes test :: "'s \<Rightarrow> u32 \<Rightarrow> bool option"
    and add :: "oom \<Rightarrow> 's \<Rightarrow> u32 \<Rightarrow> (int \<times> 's \<times> oom) option"
    and del :: "'s \<Rightarrow> u32 \<Rightarrow> 's option"
    and bound :: "'s \<Rightarrow> u32"
    and pages :: "'s \<Rightarrow> nat set"
    and ok :: "'s \<Rightarrow> bool"
  assumes test_law: "ok s \<Longrightarrow> test s i = Some (unat i \<in> pages s)"
    and add_law: "ok s \<Longrightarrow> i \<noteq> 0 \<Longrightarrow> i \<le> bound s \<Longrightarrow>
      \<exists>rc s' m'. add m s i = Some (rc, s', m') \<and> ok s' \<and> bound s' = bound s \<and>
        (rc = SQLITE_OK \<and> pages s' = insert (unat i) (pages s) \<or>
         rc = SQLITE_NOMEM \<and> pages s' \<subseteq> insert (unat i) (pages s))"
    and del_law: "ok s \<Longrightarrow> i \<noteq> 0 \<Longrightarrow> i \<le> bound s \<Longrightarrow>
      \<exists>s'. del s i = Some s' \<and> ok s' \<and> bound s' = bound s \<and> pages s' = pages s - {unat i}"
begin

lemma run_page_ops_law:
  assumes "ok s" "\<forall>x \<in> set ops. page_of x \<noteq> 0 \<and> page_of x \<le> bound s"
  shows "\<exists>rc s' m'. run_page_ops add del m s ops = Some (rc, s', m') \<and> ok s' \<and>
    bound s' = bound s \<and> (rc = SQLITE_OK \<and> pages s' = foldl apply_page_op (pages s) ops \<or> rc = SQLITE_NOMEM)"
  using assms
proof (induction ops arbitrary: s m)
  case (Cons x ops)
  show ?case
  proof (cases x)
    case (AddPage i)
    with Cons.prems add_law[of s i m] obtain rc s1 m1 where
      1: "add m s i = Some (rc, s1, m1)" "ok s1" "bound s1 = bound s"
      "rc = SQLITE_OK \<and> pages s1 = insert (unat i) (pages s) \<or> rc = SQLITE_NOMEM" by auto
    show ?thesis
    proof (cases "rc = SQLITE_OK")
      case True
      with Cons.IH[of s1 m1] Cons.prems 1 AddPage show ?thesis by auto
    next
      case False
      with 1 AddPage show ?thesis by auto
    qed
  next
    case (DelPage i)
    with Cons.prems del_law[of s i] obtain s1 where
      "del s i = Some s1" "ok s1" "bound s1 = bound s" "pages s1 = pages s - {unat i}" by auto
    with Cons.IH[of s1 m] Cons.prems DelPage show ?thesis by auto
  qed
qed simp

lemma run_then_test:
  assumes "ok s" "\<forall>x \<in> set ops. page_of x \<noteq> 0 \<and> page_of x \<le> bound s"
    "run_page_ops add del m s ops = Some (SQLITE_OK, s', m')"
  shows "test s' i = Some (unat i \<in> foldl apply_page_op (pages s) ops)"
  using run_page_ops_law[OF assms(1,2), of m] assms(3) test_law by auto

end

end
