(* ===== verification/Bitvec.thy ===== *)
theory Bitvec
  imports Probing Page_Set
begin

text \<open>
  \<open>src/bitvec.c\<close>: a set of page numbers between 1 and \<open>iSize\<close>, kept as a
  bitmap, as a hash table of at most 123 values, or as 62 sub-bitmaps. The sizes are
  those of a 64-bit build (pointers of 8 bytes). A result \<open>None\<close> is a loop that
  never ends or a read of the union in a representation it does not hold; the
  theorems show that neither happens on a well-formed object.
\<close>

subsection \<open>The structure\<close>

abbreviation BITVEC_SZELEM :: nat where "BITVEC_SZELEM \<equiv> 8"
abbreviation BITVEC_NELEM :: nat where "BITVEC_NELEM \<equiv> 496"
abbreviation BITVEC_NBIT :: nat where "BITVEC_NBIT \<equiv> 3968"
abbreviation BITVEC_NINT :: nat where "BITVEC_NINT \<equiv> 124"
abbreviation BITVEC_MXHASH :: nat where "BITVEC_MXHASH \<equiv> 62"
abbreviation BITVEC_NPTR :: nat where "BITVEC_NPTR \<equiv> 62"

definition BITVEC_HASH :: "u32 \<Rightarrow> nat" where
  "BITVEC_HASH x = unat x mod BITVEC_NINT"

datatype bitvec = Bitvec (iSize: u32) (nSet: u32) (iDivisor: u32) (bv_u: bv_union)
and bv_union = ABitmap "u8 list" | AHash "u32 list" | ApSub "bitvec option list"

text \<open>Zeroed memory reads as the empty bitmap or the empty hash table, by \<open>iSize\<close>.\<close>

definition sqlite3BitvecCreate :: "oom \<Rightarrow> u32 \<Rightarrow> bitvec option \<times> oom" where
  "sqlite3BitvecCreate m sz = (case malloc_step m of
     (False, m') \<Rightarrow> (None, m')
   | (True, m') \<Rightarrow> (Some (Bitvec sz 0 0
        (if unat sz \<le> BITVEC_NBIT then ABitmap (replicate BITVEC_NELEM 0)
         else AHash (replicate BITVEC_NINT 0))), m'))"

definition sub_at :: "bitvec option list \<Rightarrow> nat \<Rightarrow> bitvec option" where
  "sub_at subs bin = (if bin < length subs then subs ! bin else None)"

lemma sub_at_Some: "sub_at subs bin = Some q \<Longrightarrow> Some q \<in> set subs"
  by (auto simp: sub_at_def split: if_splits intro: nth_mem dest: sym)

lemma sub_at_size [termination_simp]:
  "sub_at subs bin = Some q \<Longrightarrow> size q < size_list (size_option size) subs"
  by (drule sub_at_Some) (force dest: size_list_estimation'[of _ _ _ "size_option size"])

subsection \<open>Membership test\<close>

text \<open>The descent of \<open>sqlite3BitvecTestNotNull\<close>, after the range check.\<close>

fun bitvec_test_at :: "bitvec \<Rightarrow> u32 \<Rightarrow> bool option" where
  "bitvec_test_at (Bitvec s n d U) i =
    (if d \<noteq> 0 then (case U of
        ApSub subs \<Rightarrow> (case sub_at subs (unat (i div d)) of
            None \<Rightarrow> Some False
          | Some q \<Rightarrow> bitvec_test_at q (i mod d))
      | _ \<Rightarrow> None)
     else if unat s \<le> BITVEC_NBIT then (case U of
        ABitmap b \<Rightarrow> Some (b ! unat (i div 8) AND push_bit (unat (i AND 7)) 1 \<noteq> 0)
      | _ \<Rightarrow> None)
     else (case U of
        AHash t \<Rightarrow> map_option fst (probe_find BITVEC_NINT t (BITVEC_HASH i) (i + 1))
      | _ \<Rightarrow> None))"

definition sqlite3BitvecTestNotNull :: "bitvec \<Rightarrow> u32 \<Rightarrow> bool option" where
  "sqlite3BitvecTestNotNull p i =
    (let i = i - 1 in if i \<ge> iSize p then Some False else bitvec_test_at p i)"

definition sqlite3BitvecTest :: "bitvec option \<Rightarrow> u32 \<Rightarrow> bool option" where
  "sqlite3BitvecTest p i = (case p of
     None \<Rightarrow> Some False | Some p \<Rightarrow> sqlite3BitvecTestNotNull p i)"

subsection \<open>Insertion\<close>

text \<open>
  The rehash loop: the values saved in \<open>aiValues\<close> are inserted again one by one, the
  result codes joined with \<open>|=\<close>. \<open>g\<close> is the recursive call.
\<close>

fun rehash_values :: "(oom \<Rightarrow> bitvec \<Rightarrow> u32 \<Rightarrow> (int \<times> bitvec \<times> oom) option) \<Rightarrow>
    u32 list \<Rightarrow> int \<Rightarrow> bitvec \<Rightarrow> oom \<Rightarrow> (int \<times> bitvec \<times> oom) option" where
  "rehash_values g [] rc p m = Some (rc, p, m)"
| "rehash_values g (x # xs) rc p m =
     (if x = 0 then rehash_values g xs rc p m
      else case g m p (x - 1) of
        None \<Rightarrow> None
      | Some (rc', p', m') \<Rightarrow> rehash_values g xs (rc OR rc') p' m')"

definition set_end :: "bitvec \<Rightarrow> u32 list \<Rightarrow> nat \<Rightarrow> u32 \<Rightarrow> bitvec" where
  "set_end p t h x = Bitvec (iSize p) (nSet p + 1) (iDivisor p) (AHash (t[h := x]))"

text \<open>\<open>BITVEC_NPTR\<close> is a \<open>size_t\<close>, so the sum is computed in 64 bits.\<close>

definition sub_divisor :: "u32 \<Rightarrow> u32" where
  "sub_divisor s = ucast ((ucast s + 62 - 1 :: u64) div 62)"

text \<open>
  \<open>sqlite3BitvecSet\<close> after \<open>i--\<close>: the descent that creates missing sub-bitmaps, then
  the bitmap or the hash table with its labels \<open>bitvec_set_rehash\<close> and
  \<open>bitvec_set_end\<close>. The first argument bounds the depth of the recursion.
\<close>

fun bitvec_set_at :: "nat \<Rightarrow> oom \<Rightarrow> bitvec \<Rightarrow> u32 \<Rightarrow> (int \<times> bitvec \<times> oom) option" where
  "bitvec_set_at 0 m p i = None"
| "bitvec_set_at (Suc f) m (Bitvec s n d U) i =
    (if unat s > BITVEC_NBIT \<and> d \<noteq> 0 then (case U of
        ApSub subs \<Rightarrow>
          (let bin = unat (i div d);
               (q, m) = (case subs ! bin of
                   Some q \<Rightarrow> (Some q, m) | None \<Rightarrow> sqlite3BitvecCreate m d)
           in case q of
               None \<Rightarrow> Some (SQLITE_NOMEM, Bitvec s n d U, m)
             | Some q \<Rightarrow> (case bitvec_set_at f m q (i mod d) of
                   None \<Rightarrow> None
                 | Some (rc, q', m') \<Rightarrow>
                     Some (rc, Bitvec s n d (ApSub (subs[bin := Some q'])), m')))
      | _ \<Rightarrow> None)
     else if unat s \<le> BITVEC_NBIT then (case U of
        ABitmap b \<Rightarrow> Some (SQLITE_OK, Bitvec s n d (ABitmap
          (b[unat (i div 8) := b ! unat (i div 8) OR push_bit (unat (i AND 7)) 1])), m)
      | _ \<Rightarrow> None)
     else (case U of
        AHash t \<Rightarrow>
          (let p = Bitvec s n d U; h = BITVEC_HASH i; x = i + 1
           in if t ! h = 0 \<and> unat n < BITVEC_NINT - 1
              then Some (SQLITE_OK, set_end p t h x, m)
              else case probe_find BITVEC_NINT t h x of
                None \<Rightarrow> None
              | Some (True, _) \<Rightarrow> Some (SQLITE_OK, p, m)
              | Some (False, h) \<Rightarrow>
                  if unat n \<ge> BITVEC_MXHASH
                  then (case malloc_step m of
                      (False, m) \<Rightarrow> Some (SQLITE_NOMEM, p, m)
                    | (True, m) \<Rightarrow> rehash_values (bitvec_set_at f) (x # t) SQLITE_OK
                        (Bitvec s n (sub_divisor s) (ApSub (replicate BITVEC_NPTR None))) m)
                  else Some (SQLITE_OK, set_end p t h x, m))
      | _ \<Rightarrow> None))"

declare bitvec_set_at.simps [simp del]

definition sqlite3BitvecSet ::
    "oom \<Rightarrow> bitvec option \<Rightarrow> u32 \<Rightarrow> (int \<times> bitvec option \<times> oom) option" where
  "sqlite3BitvecSet m p i = (case p of
     None \<Rightarrow> Some (SQLITE_OK, None, m)
   | Some p \<Rightarrow> map_option (\<lambda>(rc, p, m). (rc, Some p, m)) (bitvec_set_at 10 m p (i - 1)))"

subsection \<open>Removal\<close>

text \<open>The loop that rebuilds the hash table from its saved copy without the value \<open>x\<close>.\<close>

fun rebuild_hash :: "u32 list \<Rightarrow> u32 \<Rightarrow> u32 list \<Rightarrow> u32 \<Rightarrow> (u32 list \<times> u32) option" where
  "rebuild_hash [] x t n = Some (t, n)"
| "rebuild_hash (v # vs) x t n =
     (if v \<noteq> 0 \<and> v \<noteq> x
      then (case probe_free BITVEC_NINT t (BITVEC_HASH (v - 1)) of
          None \<Rightarrow> None
        | Some h \<Rightarrow> rebuild_hash vs x (t[h := v]) (n + 1))
      else rebuild_hash vs x t n)"

fun bitvec_clear_at :: "bitvec \<Rightarrow> u32 \<Rightarrow> bitvec option" where
  "bitvec_clear_at (Bitvec s n d U) i =
    (if d \<noteq> 0 then (case U of
        ApSub subs \<Rightarrow> (case sub_at subs (unat (i div d)) of
            None \<Rightarrow> Some (Bitvec s n d U)
          | Some q \<Rightarrow> map_option
              (\<lambda>q'. Bitvec s n d (ApSub (subs[unat (i div d) := Some q'])))
              (bitvec_clear_at q (i mod d)))
      | _ \<Rightarrow> None)
     else if unat s \<le> BITVEC_NBIT then (case U of
        ABitmap b \<Rightarrow> Some (Bitvec s n d (ABitmap
          (b[unat (i div 8) := b ! unat (i div 8) AND NOT (push_bit (unat (i AND 7)) 1)])))
      | _ \<Rightarrow> None)
     else (case U of
        AHash t \<Rightarrow> map_option (\<lambda>(t', n'). Bitvec s n' d (AHash t'))
          (rebuild_hash t (i + 1) (replicate BITVEC_NINT 0) 0)
      | _ \<Rightarrow> None))"

definition sqlite3BitvecClear :: "bitvec option \<Rightarrow> u32 \<Rightarrow> bitvec option option" where
  "sqlite3BitvecClear p i = (case p of
     None \<Rightarrow> Some None | Some p \<Rightarrow> map_option Some (bitvec_clear_at p (i - 1)))"

text \<open>\<open>sqlite3BitvecDestroy\<close>, as the number of blocks it gives back.\<close>

fun bitvec_free :: "bitvec \<Rightarrow> nat" where
  "bitvec_free (Bitvec s n d U) =
     1 + (if d \<noteq> 0 then (case U of
            ApSub subs \<Rightarrow> sum_list (map (\<lambda>q. case q of None \<Rightarrow> 0 | Some q \<Rightarrow> bitvec_free q) subs)
          | _ \<Rightarrow> 0) else 0)"

definition sqlite3BitvecDestroy :: "bitvec option \<Rightarrow> nat" where
  "sqlite3BitvecDestroy p = (case p of None \<Rightarrow> 0 | Some p \<Rightarrow> bitvec_free p)"

definition sqlite3BitvecSize :: "bitvec \<Rightarrow> u32" where
  "sqlite3BitvecSize p = iSize p"

subsection \<open>The set a bit vector stands for, and its well-formedness\<close>

text \<open>Membership of the zero-based number \<open>i\<close>, on natural numbers.\<close>

fun bv_mem :: "bitvec \<Rightarrow> nat \<Rightarrow> bool" where
  "bv_mem (Bitvec s n d U) i = (i < unat s \<and> (case U of
      ABitmap b \<Rightarrow> bit (b ! (i div 8)) (i mod 8)
    | AHash t \<Rightarrow> i + 1 \<in> unat ` entries t
    | ApSub subs \<Rightarrow> (case sub_at subs (i div unat d) of
          None \<Rightarrow> False | Some q \<Rightarrow> bv_mem q (i mod unat d))))"

definition bv_bits :: "bitvec \<Rightarrow> nat set" where
  "bv_bits p = {i. bv_mem p i}"

text \<open>The set of page numbers, which are one-based.\<close>

definition bv_set :: "bitvec \<Rightarrow> nat set" where
  "bv_set p = Suc ` bv_bits p"

abbreviation val_hash :: "u32 \<Rightarrow> nat" where
  "val_hash x \<equiv> BITVEC_HASH (x - 1)"

inductive bv_ok :: "bitvec \<Rightarrow> bool" where
  bitmap: "unat s \<le> BITVEC_NBIT \<Longrightarrow> length b = BITVEC_NELEM \<Longrightarrow>
    bv_ok (Bitvec s n 0 (ABitmap b))"
| hash: "BITVEC_NBIT < unat s \<Longrightarrow> length t = BITVEC_NINT \<Longrightarrow>
    probe_ok val_hash t \<Longrightarrow> unat n = used t \<Longrightarrow> used t < BITVEC_NINT \<Longrightarrow>
    \<forall>x \<in> entries t. unat x \<le> unat s \<Longrightarrow> bv_ok (Bitvec s n 0 (AHash t))"
| sub: "BITVEC_NBIT < unat s \<Longrightarrow> length subs = BITVEC_NPTR \<Longrightarrow>
    unat d = (unat s + 61) div 62 \<Longrightarrow>
    (\<And>q. Some q \<in> set subs \<Longrightarrow> bv_ok q \<and> iSize q = d) \<Longrightarrow>
    bv_ok (Bitvec s n d (ApSub subs))"

inductive_cases bv_ok_cases: "bv_ok (Bitvec s n d U)"

lemma bv_bits_bitmap: "bv_bits (Bitvec s n d (ABitmap b)) = {i. i < unat s \<and> bit (b ! (i div 8)) (i mod 8)}"
  by (auto simp: bv_bits_def)

lemma bv_bits_hash: "bv_bits (Bitvec s n d (AHash t)) = {i. i < unat s \<and> Suc i \<in> unat ` entries t}"
  by (auto simp: bv_bits_def)

lemma unat_image_diff: "unat ` (A - {x :: u32}) = unat ` A - {unat x}"
  by (auto simp: word_unat_eq_iff)

lemma unat_image_mem: "(x :: u32) \<in> A \<longleftrightarrow> unat x \<in> unat ` A"
  by (auto simp flip: word_unat_eq_iff)

lemma bv_bits_sub: "i \<in> bv_bits (Bitvec s n d (ApSub subs)) \<longleftrightarrow> i < unat s \<and>
    (\<exists>q. sub_at subs (i div unat d) = Some q \<and> i mod unat d \<in> bv_bits q)"
  by (auto simp: bv_bits_def split: option.splits)

lemma bv_bits_less: "i \<in> bv_bits p \<Longrightarrow> i < unat (iSize p)"
  by (cases p) (auto simp: bv_bits_def)

lemma BITVEC_HASH_less [simp]: "BITVEC_HASH x < BITVEC_NINT"
  by (simp add: BITVEC_HASH_def)

lemma sub_divisor: "unat (sub_divisor s) = (unat s + 61) div 62"
proof -
  have s: "unat s < 2 ^ 32" using unat_lt2p_aux[of s] by simp
  have c: "unat (ucast s :: u64) = unat s" using s by (simp add: unsigned_ucast_eq take_bit_nat_eq_self)
  have "(ucast s + 62 - 1 :: u64) = ucast s + 61" by simp
  then have "unat ((ucast s + 62 - 1 :: u64) div 62) = (unat s + 61) div 62"
    using s c by (simp add: unat_div_distrib unat_add_nowrap)
  moreover have "(unat s + 61) div 62 < 2 ^ 32" using s by linarith
  ultimately show ?thesis by (simp add: sub_divisor_def unsigned_ucast_eq take_bit_nat_eq_self)
qed

text \<open>An index below \<open>s\<close> falls into one of the 62 sub-bitmaps.\<close>

lemma bin_bounds:
  assumes "i < s" "d = (s + 61) div (62::nat)"
  shows "0 < d" "i div d < 62" "i mod d < d"
proof -
  show "0 < d" using assms by simp
  have "s \<le> 62 * d" using assms by simp
  with assms(1) have "i < 62 * d" by simp
  then show "i div d < 62" using \<open>0 < d\<close> by (simp add: less_mult_imp_div_less)
  show "i mod d < d" using \<open>0 < d\<close> by simp
qed

lemma byte_bit: "b AND 2 ^ k \<noteq> 0 \<longleftrightarrow> bit (b :: u8) k"
  by (simp add: bit_iff_and_push_bit_not_eq_0 push_bit_of_1)

subsection \<open>Test\<close>

lemma bitvec_test_at_correct:
  assumes "bv_ok p" "unat i < unat (iSize p)"
  shows "bitvec_test_at p i = Some (unat i \<in> bv_bits p)"
  using assms
proof (induction arbitrary: i rule: bv_ok.induct)
  case (bitmap s b n)
  then show ?case
    by (simp add: bv_bits_bitmap byte_bit unat_and_7 unat_div_distrib)
next
  case (hash s t n)
  from hash.prems have i: "unat (i + 1) = unat i + 1"
    by (intro unat_Suc_less[of i s]) simp
  then have nz: "i + 1 \<noteq> 0" by (metis Suc_eq_plus1 nat.distinct(1) unat_0)
  have "used t < length t" "val_hash (i + 1) < length t" using hash.hyps by simp_all
  then obtain b sl where "probe_find (length t) t (val_hash (i + 1)) (i + 1) = Some (b, sl)"
    by (rule probe_find_total[OF _ _ nz])
  then have f: "probe_find BITVEC_NINT t (val_hash (i + 1)) (i + 1) = Some (b, sl)"
    by (simp only: hash.hyps(2))
  have "b = (i + 1 \<in> entries t)"
    using probe_find_mem[OF hash.hyps(3) _ nz f] hash.hyps(2) by simp
  also have "\<dots> = (unat i + 1 \<in> unat ` entries t)"
    by (simp only: unat_image_mem i)
  finally show ?case using hash f i by (simp add: bv_bits_def)
next
  case (sub s subs d n)
  have d: "0 < unat d" "unat i div unat d < 62" "unat i mod unat d < unat d"
    using bin_bounds[OF _ sub.hyps(3)] sub.prems by auto
  then have "d \<noteq> 0" by auto
  with sub d show ?case
    by (auto simp: bv_bits_sub unat_div_distrib unat_mod_distrib split: option.splits
        dest!: sub_at_Some)
qed

subsection \<open>Removal\<close>

lemma rebuild_hash_correct:
  assumes "length t = BITVEC_NINT" "probe_ok val_hash t" "unat n = used t"
    "used t + used vs < BITVEC_NINT"
  shows "\<exists>t' n'. rebuild_hash vs x t n = Some (t', n') \<and> length t' = BITVEC_NINT \<and>
    probe_ok val_hash t' \<and> unat n' = used t' \<and> used t' \<le> used t + used vs \<and>
    entries t' = entries t \<union> (entries vs - {x})"
  using assms
proof (induction vs arbitrary: t n)
  case Nil
  then show ?case by (simp add: entries_def)
next
  case (Cons v vs)
  show ?case
  proof (cases "v \<noteq> 0 \<and> v \<noteq> x")
    case True
    then have used: "used (v # vs) = Suc (used vs)" by (simp add: used_def)
    with Cons.prems have "used t < length t" by simp
    then obtain h where h: "probe_free (length t) t (val_hash v) = Some h"
      "h < length t" "t ! h = 0" "reach t (val_hash v) h"
      using probe_free_total[of t "val_hash v"] Cons.prems(1) by auto
    note ins = probe_ok_insert[OF Cons.prems(2) h(2,3,4)]
    have n: "unat (n + 1) = used (t[h := v])"
      using Cons.prems True used by (simp add: ins unat_add_nowrap)
    from Cons.IH[of "t[h := v]" "n + 1"] Cons.prems True used n ins obtain t' n' where
      IH: "rebuild_hash vs x (t[h := v]) (n + 1) = Some (t', n')" "length t' = BITVEC_NINT"
      "probe_ok val_hash t'" "unat n' = used t'" "used t' \<le> used (t[h := v]) + used vs"
      "entries t' = entries (t[h := v]) \<union> (entries vs - {x})" by auto
    have "rebuild_hash (v # vs) x t n = Some (t', n')"
      using True h Cons.prems(1) IH(1) by simp
    moreover have "entries t' = entries t \<union> (entries (v # vs) - {x})"
      using IH(6) ins(2) True by (auto simp: entries_def)
    ultimately show ?thesis using IH used ins True by auto
  next
    case False
    with Cons.IH[OF Cons.prems(1,2,3)] Cons.prems(4) obtain t' n' where
      IH: "rebuild_hash vs x t n = Some (t', n')" "length t' = BITVEC_NINT"
      "probe_ok val_hash t'" "unat n' = used t'" "used t' \<le> used t + used vs"
      "entries t' = entries t \<union> (entries vs - {x})" by (fastforce simp: used_def split: if_splits)
    moreover have "used vs \<le> used (v # vs)" by (simp add: used_def)
    moreover have "entries (v # vs) - {x} = entries vs - {x}" using False by (auto simp: entries_def)
    ultimately show ?thesis using False by auto
  qed
qed

lemma bit_clear_mask: "bit (b AND NOT (2 ^ k)) j \<longleftrightarrow> bit (b :: u8) j \<and> j \<noteq> k"
  by (auto simp: bit_simps dest: bit_imp_le_length)

lemma bit_set_mask: "k < 8 \<Longrightarrow> bit (b OR 2 ^ k) j \<longleftrightarrow> bit (b :: u8) j \<or> j = k"
  by (auto simp: bit_simps dest: bit_imp_le_length)

lemma same_byte_bit: "i div 8 = j div 8 \<Longrightarrow> i mod 8 = j mod 8 \<Longrightarrow> i = (j :: nat)"
  by (metis div_mult_mod_eq)

lemma bitmap_clear_nth:
  assumes "i div 8 < length b"
  shows "bit (b[i div 8 := b ! (i div 8) AND NOT (2 ^ (i mod 8))] ! (j div 8)) (j mod 8) \<longleftrightarrow>
    bit (b ! (j div 8) :: u8) (j mod 8) \<and> j \<noteq> i"
  using assms same_byte_bit[of i j] by (cases "i div 8 = j div 8") (auto simp: bit_clear_mask)

lemma bitmap_set_nth:
  assumes "i div 8 < length b"
  shows "bit (b[i div 8 := b ! (i div 8) OR 2 ^ (i mod 8)] ! (j div 8)) (j mod 8) \<longleftrightarrow>
    bit (b ! (j div 8) :: u8) (j mod 8) \<or> j = i"
  using assms same_byte_bit[of i j] by (cases "i div 8 = j div 8") (auto simp: bit_set_mask)

text \<open>Replacing one sub-bitmap changes the set within one bin only.\<close>

lemma bv_bits_sub_update:
  assumes "length subs = BITVEC_NPTR" "unat d = (unat s + 61) div 62" "i < unat s"
  shows "j \<in> bv_bits (Bitvec s n d (ApSub (subs[i div unat d := Some q']))) \<longleftrightarrow>
    (if j div unat d = i div unat d then j < unat s \<and> j mod unat d \<in> bv_bits q'
     else j \<in> bv_bits (Bitvec s n d (ApSub subs)))"
  using bin_bounds[OF assms(3,2)] assms(1)
  by (auto simp: bv_bits_sub sub_at_def nth_list_update split: if_splits)

lemma same_bin: "i div d = j div d \<Longrightarrow> i mod d = j mod d \<Longrightarrow> i = (j :: nat)"
  by (metis div_mult_mod_eq)

lemma bv_ok_sub_update:
  assumes "bv_ok (Bitvec s n d (ApSub subs))" "bv_ok q'" "iSize q' = d"
  shows "bv_ok (Bitvec s n d (ApSub (subs[k := Some q'])))"
  using assms by (auto elim!: bv_ok_cases intro!: bv_ok.sub dest: set_update_subset_insert[THEN subsetD])

lemma bitvec_clear_at_correct:
  assumes "bv_ok p" "unat i < unat (iSize p)"
  shows "\<exists>p'. bitvec_clear_at p i = Some p' \<and> bv_ok p' \<and> iSize p' = iSize p \<and>
    bv_bits p' = bv_bits p - {unat i}"
  using assms
proof (induction arbitrary: i rule: bv_ok.induct)
  case (bitmap s b n)
  let ?b = "b[unat i div 8 := b ! (unat i div 8) AND NOT (2 ^ (unat i mod 8))]"
  have "bv_bits (Bitvec s n 0 (ABitmap ?b)) = bv_bits (Bitvec s n 0 (ABitmap b)) - {unat i}"
    using bitmap by (auto simp: bv_bits_bitmap bitmap_clear_nth)
  moreover have "bitvec_clear_at (Bitvec s n 0 (ABitmap b)) i = Some (Bitvec s n 0 (ABitmap ?b))"
    using bitmap by (simp add: unat_and_7 unat_div_distrib)
  moreover have "bv_ok (Bitvec s n 0 (ABitmap ?b))"
    using bitmap by (intro bv_ok.bitmap) simp_all
  ultimately show ?case by simp
next
  case (hash s t n)
  from hash.prems have i: "unat (i + 1) = unat i + 1"
    by (intro unat_Suc_less[of i s]) simp
  from hash.hyps rebuild_hash_correct[of "replicate BITVEC_NINT 0" 0 t "i + 1"] obtain t' n' where
    r: "rebuild_hash t (i + 1) (replicate BITVEC_NINT 0) 0 = Some (t', n')"
    "length t' = BITVEC_NINT" "probe_ok val_hash t'" "unat n' = used t'" "used t' \<le> used t"
    "entries t' = entries t - {i + 1}" by auto
  have "bv_bits (Bitvec s n' 0 (AHash t')) = bv_bits (Bitvec s n 0 (AHash t)) - {unat i}"
    using r(6) i by (auto simp: bv_bits_hash unat_image_diff)
  moreover have "bv_ok (Bitvec s n' 0 (AHash t'))"
    using hash.hyps r by (intro bv_ok.hash) auto
  ultimately show ?case using hash.hyps r by auto
next
  case (sub s subs d n)
  have d: "0 < unat d" "unat i div unat d < 62" "unat i mod unat d < unat d"
    using bin_bounds[OF _ sub.hyps(3)] sub.prems by auto
  then have "d \<noteq> 0" by auto
  let ?p = "Bitvec s n d (ApSub subs)"
  have ok: "bv_ok ?p" using sub by (intro bv_ok.sub) auto
  show ?case
  proof (cases "sub_at subs (unat i div unat d)")
    case None
    with \<open>d \<noteq> 0\<close> ok show ?thesis by (auto simp: unat_div_distrib bv_bits_sub)
  next
    case (Some q)
    with sub.IH[OF sub_at_Some[OF Some]] have "iSize q = d"
      "unat (i mod d) < unat (iSize q) \<longrightarrow> (\<exists>q'. bitvec_clear_at q (i mod d) = Some q' \<and>
        bv_ok q' \<and> iSize q' = iSize q \<and> bv_bits q' = bv_bits q - {unat (i mod d)})" by blast+
    with d obtain q' where
      q: "bitvec_clear_at q (i mod d) = Some q'" "bv_ok q'" "iSize q' = d"
      "bv_bits q' = bv_bits q - {unat i mod unat d}" by (auto simp: unat_mod_distrib)
    let ?p' = "Bitvec s n d (ApSub (subs[unat i div unat d := Some q']))"
    have "j \<in> bv_bits ?p' \<longleftrightarrow> j \<in> bv_bits ?p - {unat i}" for j
      using same_bin[of j "unat d" "unat i"] sub.prems
      by (subst bv_bits_sub_update[OF sub.hyps(2,3)]) (auto simp: q(4) bv_bits_sub Some)
    then have "bv_bits ?p' = bv_bits ?p - {unat i}" by blast
    with \<open>d \<noteq> 0\<close> Some q ok show ?thesis
      by (auto simp: unat_div_distrib intro: bv_ok_sub_update)
  qed
qed

subsection \<open>Insertion\<close>

text \<open>
  The recursion goes down at most one level of sub-bitmaps per division of the size by
  62, with one more call at each level whose hash table is split.
\<close>

fun bv_levels :: "nat \<Rightarrow> nat" where
  "bv_levels s = (if s \<le> BITVEC_NBIT then 0 else Suc (bv_levels ((s + 61) div 62)))"

declare bv_levels.simps [simp del]

definition is_sub :: "bitvec \<Rightarrow> bool" where
  "is_sub p = (case bv_u p of ApSub _ \<Rightarrow> True | _ \<Rightarrow> False)"

definition set_fuel :: "bitvec \<Rightarrow> nat" where
  "set_fuel p = 2 * bv_levels (unat (iSize p)) + (if is_sub p then 0 else 1)"

lemma is_sub_simps [simp]:
  "is_sub (Bitvec s n d (ApSub subs))" "\<not> is_sub (Bitvec s n d (AHash t))"
  "\<not> is_sub (Bitvec s n d (ABitmap b))"
  by (simp_all add: is_sub_def)

text \<open>What an insertion of \<open>i\<close> into \<open>p\<close> may return.\<close>

definition set_post :: "bitvec \<Rightarrow> nat \<Rightarrow> (int \<times> bitvec \<times> oom) option \<Rightarrow> bool" where
  "set_post p i r \<longleftrightarrow> (\<exists>rc p' m'. r = Some (rc, p', m') \<and> bv_ok p' \<and> iSize p' = iSize p \<and>
     (is_sub p \<longrightarrow> is_sub p') \<and> rc \<in> {SQLITE_OK, SQLITE_NOMEM} \<and>
     (rc = SQLITE_OK \<longrightarrow> bv_bits p' = insert i (bv_bits p)) \<and>
     bv_bits p' \<subseteq> insert i (bv_bits p))"

lemma set_post_intro:
  "r = Some (rc, p', m') \<Longrightarrow> bv_ok p' \<Longrightarrow> iSize p' = iSize p \<Longrightarrow> (is_sub p \<Longrightarrow> is_sub p') \<Longrightarrow>
   rc \<in> {SQLITE_OK, SQLITE_NOMEM} \<Longrightarrow> (rc = SQLITE_OK \<Longrightarrow> bv_bits p' = insert i (bv_bits p)) \<Longrightarrow>
   bv_bits p' \<subseteq> insert i (bv_bits p) \<Longrightarrow> set_post p i r"
  by (auto simp: set_post_def)

lemma set_post_ok:
  "r = Some (SQLITE_OK, p', m') \<Longrightarrow> bv_ok p' \<Longrightarrow> iSize p' = iSize p \<Longrightarrow> (is_sub p \<Longrightarrow> is_sub p') \<Longrightarrow>
   bv_bits p' = insert i (bv_bits p) \<Longrightarrow> set_post p i r"
  by (rule set_post_intro) auto

lemma create_cases:
  obtains (nomem) m' where "sqlite3BitvecCreate m sz = (None, m')"
  | (ok) p m' where "sqlite3BitvecCreate m sz = (Some p, m')" "bv_ok p" "iSize p = sz"
      "bv_bits p = {}" "\<not> is_sub p"
proof (cases "malloc_step m")
  case (Pair b m')
  show ?thesis
  proof (cases b)
    case False
    with Pair show ?thesis by (intro nomem[of m']) (simp add: sqlite3BitvecCreate_def)
  next
    case True
    let ?U = "if unat sz \<le> BITVEC_NBIT then ABitmap (replicate BITVEC_NELEM 0)
         else AHash (replicate BITVEC_NINT 0)"
    have "i < unat sz \<Longrightarrow> unat sz \<le> BITVEC_NBIT \<Longrightarrow> i div 8 < BITVEC_NELEM" for i by simp
    with True Pair show ?thesis
      by (intro ok[of "Bitvec sz 0 0 ?U" m'])
        (auto simp: sqlite3BitvecCreate_def bv_bits_bitmap bv_bits_hash intro!: bv_ok.bitmap bv_ok.hash)
  qed
qed

lemma rc_or [simp]: "rc \<in> {SQLITE_OK, SQLITE_NOMEM} \<Longrightarrow> rc' \<in> {SQLITE_OK, SQLITE_NOMEM} \<Longrightarrow>
   rc OR rc' = (if rc = SQLITE_OK then rc' else SQLITE_NOMEM)"
  by auto

lemma rehash_values_correct:
  assumes g: "\<forall>m p i. bv_ok p \<and> is_sub p \<and> iSize p = s \<and> unat i < unat s \<longrightarrow>
      set_post p (unat i) (g m p i)"
    and "bv_ok p" "is_sub p" "iSize p = s" "rc \<in> {SQLITE_OK, SQLITE_NOMEM}"
    and "\<forall>x \<in> entries xs. unat x \<le> unat s"
  shows "\<exists>rc' p' m'. rehash_values g xs rc p m = Some (rc', p', m') \<and> bv_ok p' \<and> is_sub p' \<and>
    iSize p' = s \<and> rc' \<in> {SQLITE_OK, SQLITE_NOMEM} \<and>
    (rc' = SQLITE_OK \<longrightarrow> rc = SQLITE_OK \<and> bv_bits p' = bv_bits p \<union> (\<lambda>x. unat x - 1) ` entries xs) \<and>
    bv_bits p' \<subseteq> bv_bits p \<union> (\<lambda>x. unat x - 1) ` entries xs"
  using assms(2-)
proof (induction xs arbitrary: rc p m)
  case Nil
  then show ?case by (auto simp: entries_def)
next
  case (Cons x xs)
  show ?case
  proof (cases "x = 0")
    case True
    then have "entries (x # xs) = entries xs" by (auto simp: entries_def)
    with Cons True show ?thesis by simp
  next
    case False
    then have ent: "entries (x # xs) = insert x (entries xs)" by (auto simp: entries_def)
    have u: "unat (x - 1) = unat x - 1" using False by (rule unat_minus_one)
    moreover have "0 < unat x" using False by (simp add: unat_gt_0)
    ultimately have "unat (x - 1) < unat s" using Cons.prems(5) ent by force
    with g Cons.prems(1,2,3) have "set_post p (unat (x - 1)) (g m p (x - 1))" by blast
    then obtain rc1 p1 m1 where
      1: "g m p (x - 1) = Some (rc1, p1, m1)" "bv_ok p1" "iSize p1 = s" "is_sub p1"
      "rc1 \<in> {SQLITE_OK, SQLITE_NOMEM}"
      "rc1 = SQLITE_OK \<longrightarrow> bv_bits p1 = insert (unat x - 1) (bv_bits p)"
      "bv_bits p1 \<subseteq> insert (unat x - 1) (bv_bits p)"
      using Cons.prems by (auto simp: set_post_def u)
    have "rc OR rc1 \<in> {SQLITE_OK, SQLITE_NOMEM}" using Cons.prems(4) 1(5) by auto
    from Cons.IH[OF 1(2,4,3) this, of m1] Cons.prems(5) ent obtain rc2 p2 m2 where
      2: "rehash_values g xs (rc OR rc1) p1 m1 = Some (rc2, p2, m2)" "bv_ok p2" "is_sub p2"
      "iSize p2 = s" "rc2 \<in> {SQLITE_OK, SQLITE_NOMEM}"
      "rc2 = SQLITE_OK \<longrightarrow> rc OR rc1 = SQLITE_OK \<and> bv_bits p2 = bv_bits p1 \<union> (\<lambda>x. unat x - 1) ` entries xs"
      "bv_bits p2 \<subseteq> bv_bits p1 \<union> (\<lambda>x. unat x - 1) ` entries xs" by auto
    have "rehash_values g (x # xs) rc p m = Some (rc2, p2, m2)" using False 1(1) 2(1) by simp
    with 1 2 show ?thesis using Cons.prems(4) by (auto simp: ent split: if_splits)
  qed
qed

lemma bv_bits_hash_image:
  assumes "\<forall>x \<in> entries t. unat x \<le> unat s"
  shows "bv_bits (Bitvec s n d (AHash t)) = (\<lambda>x. unat x - 1) ` entries t"
proof -
  have "0 < unat x" if "x \<in> entries t" for x
    using that by (auto simp: entries_def unat_gt_0)
  with assms show ?thesis by (force simp: bv_bits_hash)
qed

lemma split_ok:
  assumes "BITVEC_NBIT < unat s"
  shows "bv_ok (Bitvec s n (sub_divisor s) (ApSub (replicate BITVEC_NPTR None)))"
    "bv_bits (Bitvec s n d (ApSub (replicate BITVEC_NPTR None))) = {}"
  using assms by (auto intro!: bv_ok.sub simp: sub_divisor bv_bits_sub sub_at_def split: if_splits)

lemma set_bitmap_correct:
  assumes "unat s \<le> BITVEC_NBIT" "length b = BITVEC_NELEM" "unat i < unat s"
  shows "set_post (Bitvec s n 0 (ABitmap b)) (unat i)
    (bitvec_set_at (Suc f) m (Bitvec s n 0 (ABitmap b)) i)"
proof -
  let ?b = "b[unat i div 8 := b ! (unat i div 8) OR 2 ^ (unat i mod 8)]"
  have "bv_bits (Bitvec s n 0 (ABitmap ?b)) = insert (unat i) (bv_bits (Bitvec s n 0 (ABitmap b)))"
    using assms by (auto simp: bv_bits_bitmap bitmap_set_nth)
  moreover have "bitvec_set_at (Suc f) m (Bitvec s n 0 (ABitmap b)) i =
      Some (SQLITE_OK, Bitvec s n 0 (ABitmap ?b), m)"
    using assms by (simp add: bitvec_set_at.simps unat_and_7 unat_div_distrib)
  moreover have "bv_ok (Bitvec s n 0 (ABitmap ?b))"
    using assms by (intro bv_ok.bitmap) simp_all
  ultimately show ?thesis by (intro set_post_ok) simp_all
qed

lemma set_end_correct:
  assumes ok: "bv_ok (Bitvec s n 0 (AHash t))" and i: "unat i < unat s"
    and free: "h < BITVEC_NINT" "t ! h = 0" "reach t (BITVEC_HASH i) h" "unat n < BITVEC_NINT - 1"
    and r: "r = Some (SQLITE_OK, set_end (Bitvec s n 0 (AHash t)) t h (i + 1), m)"
  shows "set_post (Bitvec s n 0 (AHash t)) (unat i) r"
proof -
  from ok have t: "BITVEC_NBIT < unat s" "length t = BITVEC_NINT"
    "probe_ok val_hash t" "unat n = used t" "\<forall>x \<in> entries t. unat x \<le> unat s"
    by (auto elim: bv_ok_cases)
  have x: "unat (i + 1) = unat i + 1" by (rule unat_Suc_less[OF i])
  then have "i + 1 \<noteq> 0" by (metis Suc_eq_plus1 nat.distinct(1) unat_0)
  note ins = probe_ok_insert[OF t(3), of h "i + 1", unfolded t(2)]
  have ins: "probe_ok val_hash (t[h := i + 1])" "entries (t[h := i + 1]) = insert (i + 1) (entries t)"
    "used (t[h := i + 1]) = Suc (used t)"
    using ins free \<open>i + 1 \<noteq> 0\<close> by auto
  have "bv_bits (Bitvec s (n + 1) 0 (AHash (t[h := i + 1]))) =
      insert (unat i) (bv_bits (Bitvec s n 0 (AHash t)))"
    using i x by (auto simp: bv_bits_hash ins(2))
  moreover have "unat (n + 1) = used (t[h := i + 1])"
    using t(4) free(4) by (simp add: ins unat_add_nowrap)
  moreover from this have "bv_ok (Bitvec s (n + 1) 0 (AHash (t[h := i + 1])))"
    using t free ins x i by (intro bv_ok.hash) auto
  ultimately show ?thesis
    using r by (intro set_post_ok) (auto simp: set_end_def)
qed

lemma set_hash_correct:
  assumes ok: "bv_ok (Bitvec s n 0 (AHash t))" and i: "unat i < unat s"
    and g: "\<forall>m p i. bv_ok p \<and> is_sub p \<and> iSize p = s \<and> unat i < unat s \<longrightarrow>
      set_post p (unat i) (bitvec_set_at f m p i)"
  shows "set_post (Bitvec s n 0 (AHash t)) (unat i)
    (bitvec_set_at (Suc f) m (Bitvec s n 0 (AHash t)) i)"
proof -
  let ?p = "Bitvec s n 0 (AHash t)"
  from ok have t: "BITVEC_NBIT < unat s" "length t = BITVEC_NINT"
    "probe_ok val_hash t" "unat n = used t" "used t < BITVEC_NINT" "\<forall>x \<in> entries t. unat x \<le> unat s"
    by (auto elim: bv_ok_cases)
  have x: "unat (i + 1) = unat i + 1" by (rule unat_Suc_less[OF i])
  then have nz: "i + 1 \<noteq> 0" by (metis Suc_eq_plus1 nat.distinct(1) unat_0)
  have "used t < length t" "val_hash (i + 1) < length t" using t by simp_all
  then obtain b sl where "probe_find (length t) t (val_hash (i + 1)) (i + 1) = Some (b, sl)"
    "sl < length t" "reach t (val_hash (i + 1)) sl" "t ! sl = (if b then i + 1 else 0)"
    by (rule probe_find_total[OF _ _ nz])
  then have f: "probe_find BITVEC_NINT t (BITVEC_HASH i) (i + 1) = Some (b, sl)" "sl < BITVEC_NINT"
    "reach t (BITVEC_HASH i) sl" "t ! sl = (if b then i + 1 else 0)" by (simp_all add: t(2))
  have reach0: "reach t (BITVEC_HASH i) (BITVEC_HASH i)"
    unfolding reach_def using t(2) by (intro exI[of _ 0]) simp
  let ?r = "bitvec_set_at (Suc f) m ?p i"
  let ?q = "Bitvec s n (sub_divisor s) (ApSub (replicate BITVEC_NPTR None))"
  have step: "?r = (if t ! BITVEC_HASH i = 0 \<and> unat n < BITVEC_NINT - 1
      then Some (SQLITE_OK, set_end ?p t (BITVEC_HASH i) (i + 1), m)
      else if b then Some (SQLITE_OK, ?p, m)
      else if unat n \<ge> BITVEC_MXHASH then (case malloc_step m of
           (False, m) \<Rightarrow> Some (SQLITE_NOMEM, ?p, m)
         | (True, m) \<Rightarrow> rehash_values (bitvec_set_at f) ((i + 1) # t) SQLITE_OK ?q m)
      else Some (SQLITE_OK, set_end ?p t sl (i + 1), m))"
    using f(1) t(1) by (simp add: bitvec_set_at.simps Let_def del: rehash_values.simps)
  consider (fast) "t ! BITVEC_HASH i = 0 \<and> unat n < BITVEC_NINT - 1"
    | (found) "\<not> (t ! BITVEC_HASH i = 0 \<and> unat n < BITVEC_NINT - 1)" b
    | (rehash) "\<not> (t ! BITVEC_HASH i = 0 \<and> unat n < BITVEC_NINT - 1)" "\<not> b" "unat n \<ge> BITVEC_MXHASH"
    | (slow) "\<not> (t ! BITVEC_HASH i = 0 \<and> unat n < BITVEC_NINT - 1)" "\<not> b" "unat n < BITVEC_MXHASH"
    by linarith
  then show ?thesis
  proof cases
    case fast
    with step have "?r = Some (SQLITE_OK, set_end ?p t (BITVEC_HASH i) (i + 1), m)"
      by (simp only: if_P if_True if_False)
    with fast show ?thesis by (intro set_end_correct[OF ok i _ _ reach0]) auto
  next
    case found
    with step have r: "?r = Some (SQLITE_OK, ?p, m)" by (simp only: if_not_P if_P if_True if_False)
    have "t ! sl \<in> set t" using f(2) t(2) by simp
    then have "i + 1 \<in> entries t" using f(4) found(2) nz by (simp add: entries_def)
    then have "Suc (unat i) \<in> unat ` entries t" unfolding unat_image_mem x by simp
    then have "unat i \<in> bv_bits ?p" using i by (simp add: bv_bits_hash)
    with r ok show ?thesis by (intro set_post_ok) auto
  next
    case slow
    then have "\<not> BITVEC_MXHASH \<le> unat n" by simp
    with slow step have "?r = Some (SQLITE_OK, set_end ?p t sl (i + 1), m)" by (simp only: if_not_P if_True if_False)
    with slow f show ?thesis by (intro set_end_correct[OF ok i]) auto
  next
    case rehash
    then have r: "?r = (case malloc_step m of (False, m) \<Rightarrow> Some (SQLITE_NOMEM, ?p, m)
       | (True, m) \<Rightarrow> rehash_values (bitvec_set_at f) ((i + 1) # t) SQLITE_OK ?q m)"
      using step by (simp only: if_not_P if_P if_True if_False)
    obtain b' m' where m: "malloc_step m = (b', m')" by (cases "malloc_step m")
    show ?thesis
    proof (cases b')
      case False
      with r m ok show ?thesis by (intro set_post_intro) auto
    next
      case True
      have ent: "entries ((i + 1) # t) = insert (i + 1) (entries t)" using nz by (auto simp: entries_def)
      then have "\<forall>x \<in> entries ((i + 1) # t). unat x \<le> unat s" using t(6) i x by auto
      have "is_sub ?q" "iSize ?q = s" "SQLITE_OK \<in> {SQLITE_OK, SQLITE_NOMEM}" by simp_all
      note vals = rehash_values_correct[where rc = SQLITE_OK and m = m',
          OF g split_ok(1)[OF t(1)] this \<open>\<forall>x \<in> entries ((i + 1) # t). _ x\<close>]
      from vals obtain rc p' m'' where p': "rehash_values (bitvec_set_at f) ((i + 1) # t) SQLITE_OK ?q m' = Some (rc, p', m'')"
        "bv_ok p'" "is_sub p'" "iSize p' = s" "rc \<in> {SQLITE_OK, SQLITE_NOMEM}"
        "rc = SQLITE_OK \<longrightarrow> SQLITE_OK = SQLITE_OK \<and> bv_bits p' = bv_bits ?q \<union> (\<lambda>x. unat x - 1) ` entries ((i + 1) # t)"
        "bv_bits p' \<subseteq> bv_bits ?q \<union> (\<lambda>x. unat x - 1) ` entries ((i + 1) # t)"
        by (elim exE conjE) (rule that)
      have r': "?r = Some (rc, p', m'')" using r m True p'(1) by (simp only: prod.case bool.case)
      have "(\<lambda>x. unat x - 1) ` entries ((i + 1) # t) = insert (unat i) (bv_bits ?p)"
        using t(6) x by (simp add: ent bv_bits_hash_image)
      with p'(2-) t r' show ?thesis
        by (intro set_post_intro) (simp add: split_ok; blast?)+
    qed
  qed
qed

text \<open>Storing a new or changed sub-bitmap.\<close>

lemma set_sub_step:
  assumes ok: "bv_ok (Bitvec s n d (ApSub subs))" and i: "unat i < unat s"
    and q: "bv_bits q = (case subs ! (unat i div unat d) of None \<Rightarrow> {} | Some q \<Rightarrow> bv_bits q)" "iSize q = d"
    and post: "set_post q (unat i mod unat d) (Some (rc, q', m'))"
  shows "set_post (Bitvec s n d (ApSub subs)) (unat i)
    (Some (rc, Bitvec s n d (ApSub (subs[unat i div unat d := Some q'])), m'))"
proof -
  from ok have p: "length subs = BITVEC_NPTR" "unat d = (unat s + 61) div 62"
    by (auto elim: bv_ok_cases)
  note bin = bin_bounds[OF i p(2)]
  from post have q': "bv_ok q'" "iSize q' = d" "rc \<in> {SQLITE_OK, SQLITE_NOMEM}"
    "rc = SQLITE_OK \<longrightarrow> bv_bits q' = insert (unat i mod unat d) (bv_bits q)"
    "bv_bits q' \<subseteq> insert (unat i mod unat d) (bv_bits q)"
    using q(2) by (auto simp: set_post_def)
  let ?p = "Bitvec s n d (ApSub subs)"
  let ?p' = "Bitvec s n d (ApSub (subs[unat i div unat d := Some q']))"
  have mem: "j \<in> bv_bits ?p' \<longleftrightarrow> (if j div unat d = unat i div unat d
      then j < unat s \<and> j mod unat d \<in> bv_bits q' else j \<in> bv_bits ?p)" for j
    by (rule bv_bits_sub_update[OF p i])
  have old: "j \<in> bv_bits ?p \<longleftrightarrow> j < unat s \<and> j mod unat d \<in> bv_bits q"
    if "j div unat d = unat i div unat d" for j
    using that p bin(2) q(1) by (auto simp: bv_bits_sub sub_at_def split: option.splits)
  show ?thesis
  proof (rule set_post_intro[OF refl])
    show "bv_ok ?p'" using ok q' by (intro bv_ok_sub_update) auto
    show "bv_bits ?p' = insert (unat i) (bv_bits ?p)" if "rc = SQLITE_OK"
    proof (rule set_eqI)
      fix j show "j \<in> bv_bits ?p' \<longleftrightarrow> j \<in> insert (unat i) (bv_bits ?p)"
        using q'(4) that old[of j] same_bin[of j "unat d" "unat i"] i by (auto simp: mem)
    qed
    show "bv_bits ?p' \<subseteq> insert (unat i) (bv_bits ?p)"
    proof
      fix j assume "j \<in> bv_bits ?p'"
      then show "j \<in> insert (unat i) (bv_bits ?p)"
        using q'(5) old[of j] same_bin[of j "unat d" "unat i"] i
        by (auto simp: mem split: if_splits)
    qed
  qed (use q' in auto)
qed

lemma bv_levels_pos: "BITVEC_NBIT < s \<Longrightarrow> bv_levels s = Suc (bv_levels ((s + 61) div 62))"
  by (simp add: bv_levels.simps[of s])

lemma bitvec_set_at_correct:
  assumes "bv_ok p" "unat i < unat (iSize p)" "set_fuel p \<le> f" "0 < f"
  shows "set_post p (unat i) (bitvec_set_at f m p i)"
  using assms
proof (induction f arbitrary: m p i)
  case (Suc f)
  from Suc.prems(1) show ?case
  proof cases
    case (bitmap s b n)
    with Suc.prems show ?thesis by (auto intro: set_bitmap_correct)
  next
    case (hash s t n)
    show ?thesis unfolding hash(1)
    proof (rule set_hash_correct; (intro allI impI; elim conjE)?)
      show "bv_ok (Bitvec s n 0 (AHash t))" using Suc.prems hash by simp
      show "unat i < unat s" using Suc.prems hash by simp
      fix m' p' and i' :: u32
      assume p': "bv_ok p'" "is_sub p'" "iSize p' = s" "unat i' < unat (s :: u32)"
      have "bv_levels (unat s) = Suc (bv_levels ((unat s + 61) div 62))"
        using hash by (intro bv_levels_pos) auto
      then have "set_fuel p' \<le> f" "0 < f" using p' hash Suc.prems(3) by (simp_all add: set_fuel_def)
      with p' show "set_post p' (unat i') (bitvec_set_at f m' p' i')" by (intro Suc.IH) auto
    qed
  next
    case (sub s subs d n)
    have i: "unat i < unat s" using Suc.prems sub by simp
    note bin = bin_bounds[OF i sub(4)]
    then have d: "d \<noteq> 0" by auto
    let ?bin = "unat i div unat d"
    have lev: "bv_levels (unat s) = Suc (bv_levels (unat d))"
      using bv_levels_pos[OF sub(2)] sub(4) by simp
    have rec: "set_post q (unat i mod unat d) (bitvec_set_at f m' q (i mod d))"
      if "bv_ok q" "iSize q = d" for q m'
      using Suc.IH[of q "i mod d" m'] that bin lev Suc.prems(3) sub(1)
      by (auto simp: set_fuel_def unat_mod_distrib)
    have ok: "bv_ok (Bitvec s n d (ApSub subs))" using Suc.prems(1) sub(1) by simp
    show ?thesis
    proof (cases "subs ! ?bin")
      case (Some q)
      have "Some q \<in> set subs" using Some bin(2) sub(3) by (metis nth_mem)
      then have q: "bv_ok q" "iSize q = d" using sub(5) by auto
      from rec[OF q, of m] obtain rc q' m' where
        r: "bitvec_set_at f m q (i mod d) = Some (rc, q', m')" by (auto simp: set_post_def)
      have "bitvec_set_at (Suc f) m p i =
          Some (rc, Bitvec s n d (ApSub (subs[?bin := Some q'])), m')"
        using sub(1,2) d Some r by (simp add: bitvec_set_at.simps unat_div_distrib)
      with set_sub_step[OF ok i _ q(2)] rec[OF q, of m] r Some show ?thesis
        by (simp add: sub(1))
    next
      case None
      show ?thesis
      proof (cases rule: create_cases[where sz = d and m = m])
        case (nomem m')
        then have "bitvec_set_at (Suc f) m p i = Some (SQLITE_NOMEM, p, m')"
          using sub(1,2) d None by (simp add: bitvec_set_at.simps unat_div_distrib)
        with Suc.prems(1) show ?thesis by (intro set_post_intro) auto
      next
        case (ok q m')
        from rec[OF ok(2,3), of m'] obtain rc q' m'' where
          r: "bitvec_set_at f m' q (i mod d) = Some (rc, q', m'')" by (auto simp: set_post_def)
        have "bitvec_set_at (Suc f) m p i =
            Some (rc, Bitvec s n d (ApSub (subs[?bin := Some q'])), m'')"
          using sub(1,2) d None r ok(1) by (simp add: bitvec_set_at.simps unat_div_distrib)
        with set_sub_step[OF \<open>bv_ok (Bitvec s n d (ApSub subs))\<close> i _ ok(3)]
          rec[OF ok(2,3), of m'] r None ok(4) show ?thesis
          by (simp add: sub(1))
      qed
    qed
  qed
qed simp

text \<open>At most four levels of 62-way division fit below \<open>2\<^sup>3\<^sup>2\<close>, so a depth of 10 is enough.\<close>

lemma bv_levels_bound: "s \<le> BITVEC_NBIT * 62 ^ k \<Longrightarrow> bv_levels s \<le> k"
proof (induction k arbitrary: s)
  case (Suc k)
  have "(s + 61) div 62 \<le> BITVEC_NBIT * 62 ^ k" using Suc.prems by simp
  with Suc.IH show ?case by (simp add: bv_levels.simps[of s])
qed (simp add: bv_levels.simps)

lemma bv_levels_u32: "bv_levels (unat (s :: u32)) \<le> 4"
  by (rule bv_levels_bound) (rule order_trans[OF less_imp_le[OF unat_lt2p_aux]], simp)

lemma set_fuel_10: "set_fuel p \<le> 10"
  using bv_levels_u32[of "iSize p"] by (simp add: set_fuel_def)

subsection \<open>The contract of a page set\<close>

lemma bv_set_mem: "i \<in> bv_set p \<longleftrightarrow> 0 < i \<and> i - 1 \<in> bv_bits p"
  unfolding bv_set_def by (cases i) auto

lemma bv_set_le: "i \<in> bv_set p \<Longrightarrow> 0 < i \<and> i \<le> unat (iSize p)"
  by (auto simp: bv_set_def dest: bv_bits_less)

lemma pred_less: "i \<noteq> 0 \<Longrightarrow> i \<le> s \<Longrightarrow> unat (i - 1) = unat i - 1 \<and> unat (i - 1) < unat s" for i :: u32
  using unat_minus_one[of i] unat_gt_0[of i] by (auto simp: word_le_nat_alt)

lemma test_not_null_correct:
  assumes "bv_ok p" shows "sqlite3BitvecTestNotNull p i = Some (unat i \<in> bv_set p)"
proof (cases "i = 0")
  case True
  have "i - 1 \<ge> iSize p" unfolding True by simp
  with True show ?thesis by (simp add: sqlite3BitvecTestNotNull_def bv_set_mem)
next
  case False
  then have i: "unat (i - 1) = unat i - 1" "0 < unat i"
    by (simp_all add: unat_minus_one unat_gt_0)
  show ?thesis
  proof (cases "i - 1 \<ge> iSize p")
    case True
    with i show ?thesis
      by (auto simp: sqlite3BitvecTestNotNull_def bv_set_mem word_le_nat_alt dest: bv_bits_less)
  next
    case range: False
    then have "unat (i - 1) < unat (iSize p)" by (simp add: word_le_nat_alt)
    from bitvec_test_at_correct[OF assms this] range i show ?thesis
      by (simp add: sqlite3BitvecTestNotNull_def bv_set_mem)
  qed
qed

definition bv_add :: "oom \<Rightarrow> bitvec \<Rightarrow> u32 \<Rightarrow> (int \<times> bitvec \<times> oom) option" where
  "bv_add m p i = bitvec_set_at 10 m p (i - 1)"

definition bv_del :: "bitvec \<Rightarrow> u32 \<Rightarrow> bitvec option" where
  "bv_del p i = bitvec_clear_at p (i - 1)"

lemma bv_add_correct:
  assumes "bv_ok p" "i \<noteq> 0" "i \<le> iSize p"
  shows "\<exists>rc p' m'. bv_add m p i = Some (rc, p', m') \<and> bv_ok p' \<and> iSize p' = iSize p \<and>
    (rc = SQLITE_OK \<and> bv_set p' = insert (unat i) (bv_set p) \<or>
     rc = SQLITE_NOMEM \<and> bv_set p' \<subseteq> insert (unat i) (bv_set p))"
proof -
  note pr = pred_less[OF assms(2,3)]
  have "set_post p (unat (i - 1)) (bitvec_set_at 10 m p (i - 1))"
    using assms pr set_fuel_10 by (intro bitvec_set_at_correct) auto
  then obtain rc p' m' where r: "bv_add m p i = Some (rc, p', m')" "bv_ok p'" "iSize p' = iSize p"
    "rc \<in> {SQLITE_OK, SQLITE_NOMEM}" "rc = SQLITE_OK \<longrightarrow> bv_bits p' = insert (unat i - 1) (bv_bits p)"
    "bv_bits p' \<subseteq> insert (unat i - 1) (bv_bits p)"
    unfolding set_post_def bv_add_def using pr by auto
  have "Suc (unat i - 1) = unat i" using assms(2) by (simp add: unat_gt_0)
  with r show ?thesis unfolding bv_set_def by auto
qed

lemma bv_del_correct:
  assumes "bv_ok p" "i \<noteq> 0" "i \<le> iSize p"
  shows "\<exists>p'. bv_del p i = Some p' \<and> bv_ok p' \<and> iSize p' = iSize p \<and>
    bv_set p' = bv_set p - {unat i}"
proof -
  note pr = pred_less[OF assms(2,3)]
  from bitvec_clear_at_correct[OF assms(1), of "i - 1"] pr obtain p' where
    p': "bv_del p i = Some p'" "bv_ok p'" "iSize p' = iSize p" "bv_bits p' = bv_bits p - {unat i - 1}"
    unfolding bv_del_def by auto
  have "Suc (unat i - 1) = unat i" using assms(2) by (simp add: unat_gt_0)
  then have "bv_set p' = bv_set p - {unat i}"
    unfolding bv_set_def p'(4) by (simp add: image_set_diff)
  with p' show ?thesis by blast
qed

interpretation bv: page_set sqlite3BitvecTestNotNull bv_add bv_del iSize bv_set bv_ok
proof (unfold_locales, goal_cases)
  case (1 s i) then show ?case by (rule test_not_null_correct)
next
  case (2 s i m) then show ?case by (rule bv_add_correct)
next
  case (3 s i) then show ?case by (rule bv_del_correct)
qed

text \<open>Without an allocation failure an insertion succeeds.\<close>

lemma rehash_values_no_oom:
  assumes "\<And>p i rc p' m'. g [] p i = Some (rc, p', m') \<Longrightarrow> rc = 0 \<and> m' = []"
  shows "rehash_values g xs 0 p [] = Some (rc, p', m') \<Longrightarrow> rc = 0 \<and> m' = []"
proof (induction xs arbitrary: p)
  case (Cons x xs)
  then show ?case by (auto split: if_splits option.splits dest!: assms)
qed simp

lemma bitvec_set_at_no_oom:
  "bitvec_set_at f [] p i = Some (rc, p', m') \<Longrightarrow> rc = 0 \<and> m' = []"
proof (induction f arbitrary: p i rc p' m')
  case (Suc f)
  obtain s n d U where p: "p = Bitvec s n d U" by (cases p)
  have rehash: "rc = 0 \<and> m' = []"
    if "rehash_values (bitvec_set_at f) xs 0 p [] = Some (rc, p', m')" for xs p rc p' m'
    by (rule rehash_values_no_oom[OF _ that]) (rule Suc.IH)
  from Suc.prems show ?case
    unfolding p bitvec_set_at.simps Let_def sqlite3BitvecCreate_def malloc_step.simps prod.case bool.case
    by (auto split: if_splits option.splits bv_union.splits bool.splits
        dest: Suc.IH rehash simp del: rehash_values.simps)
qed (simp add: bitvec_set_at.simps)

subsection \<open>Properties\<close>

text \<open>
  An insertion into a well-formed bit vector returns, keeps it well formed and of the
  same size, whatever allocations fail; with \<open>SQLITE_OK\<close> the set has gained exactly the
  page \<open>i\<close>, and with \<open>SQLITE_NOMEM\<close>, the only other code, it has gained nothing else.
  In particular the recursion and every probe loop end.
\<close>

theorem bitvec_set_correct:
  assumes "bv_ok p" "i \<noteq> 0" "i \<le> iSize p"
  shows "\<exists>rc p' m'. sqlite3BitvecSet m (Some p) i = Some (rc, Some p', m') \<and> bv_ok p' \<and>
    iSize p' = iSize p \<and>
    (rc = SQLITE_OK \<and> bv_set p' = insert (unat i) (bv_set p) \<or>
     rc = SQLITE_NOMEM \<and> bv_set p' \<subseteq> insert (unat i) (bv_set p))"
  using bv.add_law[OF assms, of m] by (auto simp: sqlite3BitvecSet_def bv_add_def)

lemma bv_ok_sample: "bv_ok (Bitvec 10 0 0 (ABitmap (replicate 496 0)))"
  by (rule bv_ok.bitmap) simp_all

theorem bitvec_set_correct_witness:
  "\<exists>rc p' m'. sqlite3BitvecSet [] (Some (Bitvec 10 0 0 (ABitmap (replicate 496 0)))) 7 =
     Some (rc, Some p', m') \<and> bv_ok p' \<and> iSize p' = 10"
proof -
  have "(7 :: u32) \<noteq> 0" "(7 :: u32) \<le> iSize (Bitvec 10 0 0 (ABitmap (replicate 496 0)))" by simp_all
  from bitvec_set_correct[OF bv_ok_sample this, of "[]"] show ?thesis by auto
qed

text \<open>
  A removal returns, keeps the bit vector well formed and of the same size, and takes
  exactly the page \<open>i\<close> out of the set, in each of the three representations.
\<close>

theorem bitvec_clear_correct:
  assumes "bv_ok p" "i \<noteq> 0" "i \<le> iSize p"
  shows "\<exists>p'. sqlite3BitvecClear (Some p) i = Some (Some p') \<and> bv_ok p' \<and> iSize p' = iSize p \<and>
    bv_set p' = bv_set p - {unat i}"
  using bv.del_law[OF assms] by (auto simp: sqlite3BitvecClear_def bv_del_def)

theorem bitvec_clear_correct_witness:
  "\<exists>p'. sqlite3BitvecClear (Some (Bitvec 10 0 0 (ABitmap (replicate 496 0)))) 7 = Some (Some p') \<and> bv_ok p'"
proof -
  have "(7 :: u32) \<noteq> 0" "(7 :: u32) \<le> iSize (Bitvec 10 0 0 (ABitmap (replicate 496 0)))" by simp_all
  from bitvec_clear_correct[OF bv_ok_sample this] show ?thesis by auto
qed

text \<open>
  C3: after any sequence of insertions and removals of numbers between 1 and the size on a
  new bit vector of any size that reports no error, the membership test answers for every 32-bit argument, 0 and arguments above
  the size included, as the mathematical set built by the same sequence does.
\<close>

theorem bitvec_history:
  assumes "sqlite3BitvecCreate m sz = (Some p, m')"
    "\<forall>x \<in> set ops. page_of x \<noteq> 0 \<and> page_of x \<le> sz"
    "run_page_ops bv_add bv_del m' p ops = Some (SQLITE_OK, p', m'')"
  shows "sqlite3BitvecTest (Some p') i = Some (unat i \<in> foldl apply_page_op {} ops)"
proof -
  have p: "bv_ok p" "iSize p = sz" "bv_bits p = {}"
    by (rule create_cases[where sz = sz and m = m]; use assms(1) in simp)+
  with bv.run_then_test[OF p(1) _ assms(3), of i] assms(2) show ?thesis
    by (simp add: sqlite3BitvecTest_def bv_set_def)
qed

lemma run_page_ops_no_oom:
  "run_page_ops bv_add bv_del [] p ops = Some (rc, p', m') \<Longrightarrow> rc = 0 \<and> m' = []"
proof (induction ops arbitrary: p)
  case (Cons x ops)
  then show ?case
    by (cases x) (auto simp: bv_add_def split: option.splits if_splits dest!: bitvec_set_at_no_oom)
qed simp

theorem bitvec_history_witness:
  "\<exists>p'. sqlite3BitvecTest (Some p') 3 = Some (unat (3 :: u32) \<in> foldl apply_page_op {} [AddPage 3, AddPage 7, DelPage 7])"
proof -
  let ?p = "Bitvec 100 0 0 (ABitmap (replicate 496 0))"
  have c: "sqlite3BitvecCreate [] 100 = (Some ?p, [])" by (simp add: sqlite3BitvecCreate_def)
  have ops: "\<forall>x \<in> set [AddPage 3, AddPage 7, DelPage 7]. page_of x \<noteq> 0 \<and> page_of x \<le> (100 :: u32)" by simp
  have ok: "bv_ok ?p" by (rule bv_ok.bitmap) simp_all
  obtain rc p' m' where r: "run_page_ops bv_add bv_del [] ?p [AddPage 3, AddPage 7, DelPage 7] = Some (rc, p', m')"
    using bv.run_page_ops_law[OF ok, of "[AddPage 3, AddPage 7, DelPage 7]" "[]"] ops by auto
  have "rc = SQLITE_OK"
    using run_page_ops_no_oom[OF r] by simp
  with r bitvec_history[OF c ops, of p' m' 3] show ?thesis by auto
qed

end
