(* ===== verification/Bitvec_Selftest.thy ===== *)
theory Bitvec_Selftest
  imports Bitvec
begin

text \<open>
  \<open>sqlite3BitvecBuiltinTest\<close> of \<open>src/bitvec.c\<close>: an interpreter of small test programs
  that drives a bit vector and a linear array of bits side by side and compares them.
  Its programs terminate, and for every program of the opcodes 0 to 4 it finds no
  difference.
\<close>

definition SETBIT :: "u8 list \<Rightarrow> nat \<Rightarrow> u8 list" where
  "SETBIT V i = V[i div 8 := V ! (i div 8) OR push_bit (i mod 8) 1]"

definition CLEARBIT :: "u8 list \<Rightarrow> nat \<Rightarrow> u8 list" where
  "CLEARBIT V i = V[i div 8 := V ! (i div 8) AND NOT (push_bit (i mod 8) 1)]"

definition TESTBIT :: "u8 list \<Rightarrow> nat \<Rightarrow> bool" where
  "TESTBIT V i \<longleftrightarrow> V ! (i div 8) AND push_bit (i mod 8) 1 \<noteq> 0"

text \<open>
  One fetch: the instruction at \<open>pc\<close> with its counter and start updated in place, and
  what is left of the program. \<open>rnd\<close> stands for the bytes of \<open>sqlite3_randomness\<close>.
\<close>

definition builtin_fetch :: "(nat \<Rightarrow> int) \<Rightarrow> nat \<Rightarrow> int \<Rightarrow> int list \<Rightarrow> (int \<times> int list \<times> nat) option" where
  "builtin_fetch rnd k opc ops =
    (if opc = 1 \<or> opc = 2 \<or> opc = 5
     then (case ops of
         n # s # x # rest \<Rightarrow>
           Some (s - 1, if n - 1 > 0 then opc # (n - 1) # (s + x) # x # rest else rest, k)
       | _ \<Rightarrow> None)
     else (case ops of
         n # rest \<Rightarrow> Some (rnd k, if n - 1 > 0 then opc # (n - 1) # rest else rest, k + 1)
       | _ \<Rightarrow> None))"

definition prog_size :: "int list \<Rightarrow> nat \<times> nat" where
  "prog_size ops = (length ops, nat (ops ! 1))"

lemma fetch_smaller:
  "builtin_fetch rnd k opc ops = Some (i, ops', k') \<Longrightarrow>
   (prog_size ops', prog_size (opc # ops)) \<in> less_than <*lex*> less_than"
  by (auto simp: builtin_fetch_def prog_size_def split: list.splits if_splits)

text \<open>
  The \<open>while\<close> loop. \<open>Some None\<close> is the jump to \<open>bitvec_end\<close> after a failed insertion;
  \<open>None\<close> a program that runs past the end of its array.
\<close>

function builtin_loop :: "int \<Rightarrow> (nat \<Rightarrow> int) \<Rightarrow> nat \<Rightarrow> oom \<Rightarrow> bitvec \<Rightarrow> u8 list \<Rightarrow> int list \<Rightarrow>
    (bitvec \<times> u8 list) option option" where
  "builtin_loop sz rnd k m p V [] = None"
| "builtin_loop sz rnd k m p V (opc # ops) =
    (if opc = 0 then Some (Some (p, V))
     else case builtin_fetch rnd k opc ops of
       None \<Rightarrow> None
     | Some (i, ops', k') \<Rightarrow>
         let j = (i AND 0x7fffffff) mod sz + 1
         in if odd opc then
              (let V' = SETBIT V (nat j)
               in if opc \<noteq> 5
                  then (case sqlite3BitvecSet m (Some p) (word_of_int j) of
                      Some (rc, Some p', m') \<Rightarrow>
                        if rc \<noteq> 0 then Some None else builtin_loop sz rnd k' m' p' V' ops'
                    | _ \<Rightarrow> None)
                  else builtin_loop sz rnd k' m p V' ops')
            else (case sqlite3BitvecClear (Some p) (word_of_int j) of
                Some (Some p') \<Rightarrow> builtin_loop sz rnd k' m p' (CLEARBIT V (nat j)) ops'
              | _ \<Rightarrow> None))"
  by pat_completeness auto

termination
  by (relation "inv_image (less_than <*lex*> less_than) (\<lambda>(sz, rnd, k, m, p, V, ops). prog_size ops)")
    (use fetch_smaller in \<open>force simp: prog_size_def\<close>)+

text \<open>The final comparison, from bit 1 up: the first difference is the result.\<close>

fun builtin_compare :: "u8 list \<Rightarrow> bitvec \<Rightarrow> nat list \<Rightarrow> int \<Rightarrow> int option" where
  "builtin_compare V p [] rc = Some rc"
| "builtin_compare V p (i # is) rc = (case sqlite3BitvecTest (Some p) (of_nat i) of
     None \<Rightarrow> None
   | Some b \<Rightarrow> if TESTBIT V i \<noteq> b then Some (int i) else builtin_compare V p is rc)"

definition sqlite3BitvecBuiltinTest :: "oom \<Rightarrow> (nat \<Rightarrow> int) \<Rightarrow> int \<Rightarrow> int list \<Rightarrow> int option" where
  "sqlite3BitvecBuiltinTest m rnd sz aOp =
    (let (pBitvec, m) = sqlite3BitvecCreate m (word_of_int sz);
         (okV, m) = malloc_step m;
         (okT, m) = malloc_step m
     in case pBitvec of
       None \<Rightarrow> Some (-1)
     | Some p \<Rightarrow>
         if \<not> okV \<or> \<not> okT then Some (-1)
         else (case builtin_loop sz rnd 0 m p (replicate (nat ((sz + 7) div 8 + 1)) 0) aOp of
             None \<Rightarrow> None
           | Some None \<Rightarrow> Some (-1)
           | Some (Some (p, V)) \<Rightarrow>
               (case (sqlite3BitvecTest None 0, sqlite3BitvecTest (Some p) (word_of_int (sz + 1)),
                      sqlite3BitvecTest (Some p) 0) of
                   (Some a, Some b, Some c) \<Rightarrow>
                     builtin_compare V p [1 ..< nat sz + 1]
                       (of_bool a + of_bool b + of_bool c + (uint (sqlite3BitvecSize p) - sz))
                 | _ \<Rightarrow> None)))"

text \<open>A program of the opcodes 0 to 4 (and the others that behave like 3 and 4) that ends with a halt.\<close>

fun prog_wf :: "int list \<Rightarrow> bool" where
  "prog_wf [] = False"
| "prog_wf (opc # ops) = (opc = 0 \<or> opc \<noteq> 5 \<and>
    (if opc = 1 \<or> opc = 2 then (case ops of n # s # x # rest \<Rightarrow> prog_wf rest | _ \<Rightarrow> False)
     else (case ops of n # rest \<Rightarrow> prog_wf rest | _ \<Rightarrow> False)))"

subsection \<open>The self-test finds no difference\<close>

lemma prog_wf_fetch:
  assumes "prog_wf (opc # ops)" "opc \<noteq> 0"
  shows "\<exists>i ops' k'. builtin_fetch rnd k opc ops = Some (i, ops', k') \<and> prog_wf ops' \<and> opc \<noteq> 5"
proof (cases "opc = 1 \<or> opc = 2")
  case True
  with assms obtain n s x rest where "ops = n # s # x # rest" "prog_wf rest"
    by (auto split: list.splits)
  with True show ?thesis by (auto simp: builtin_fetch_def)
next
  case False
  with assms obtain n rest where "ops = n # rest" "prog_wf rest" "opc \<noteq> 5"
    by (auto split: list.splits)
  with False show ?thesis by (auto simp: builtin_fetch_def)
qed

lemma testbit_setbit:
  "i div 8 < length V \<Longrightarrow> TESTBIT (SETBIT V i) j \<longleftrightarrow> j = i \<or> TESTBIT V j"
  using bitmap_set_nth[of i V j] by (auto simp: TESTBIT_def SETBIT_def byte_bit push_bit_of_1)

lemma testbit_clearbit:
  "i div 8 < length V \<Longrightarrow> TESTBIT (CLEARBIT V i) j \<longleftrightarrow> j \<noteq> i \<and> TESTBIT V j"
  using bitmap_clear_nth[of i V j] by (auto simp: TESTBIT_def CLEARBIT_def byte_bit push_bit_of_1)

lemma length_setbit [simp]: "length (SETBIT V i) = length V" "length (CLEARBIT V i) = length V"
  by (simp_all add: SETBIT_def CLEARBIT_def)

text \<open>The bit vector and the linear array hold the same numbers.\<close>

definition agree :: "int \<Rightarrow> bitvec \<Rightarrow> u8 list \<Rightarrow> bool" where
  "agree sz p V \<longleftrightarrow> bv_ok p \<and> uint (iSize p) = sz \<and> length V = nat ((sz + 7) div 8 + 1) \<and>
     (\<forall>i. 1 \<le> i \<longrightarrow> int i \<le> sz \<longrightarrow> (TESTBIT V i \<longleftrightarrow> i \<in> bv_set p))"

lemma agree_index:
  fixes i :: int
  assumes "agree sz p V" "0 < sz"
  defines "j \<equiv> (i AND 0x7fffffff) mod sz + 1"
  shows "1 \<le> j" "j \<le> sz" "(word_of_int j :: u32) \<noteq> 0" "(word_of_int j :: u32) \<le> iSize p"
    "unat (word_of_int j :: u32) = nat j" "nat j div 8 < length V"
proof -
  show j: "1 \<le> j" "j \<le> sz" using assms(2) by (auto simp: j_def add1_zle_eq)
  have sz: "sz < 2 ^ 32" using assms(1) by (auto simp: agree_def uint_lt2p[of "iSize p", simplified] dest: sym)
  then have u: "uint (word_of_int j :: u32) = j" using j by (simp add: uint_word_of_int)
  then show "unat (word_of_int j :: u32) = nat j" by (metis nat_uint_eq)
  show "(word_of_int j :: u32) \<le> iSize p" using u j assms(1) by (simp add: word_le_def agree_def)
  show "(word_of_int j :: u32) \<noteq> 0" using u j by auto
  have "nat j div 8 \<le> nat sz div 8" using j by (intro div_le_mono) auto
  then show "nat j div 8 < length V" using assms(1,2) by (simp add: agree_def nat_add_distrib nat_div_distrib)
qed

lemma agree_set:
  assumes "agree sz p V" "0 < sz" "sqlite3BitvecSet m (Some p) (word_of_int ((i AND 0x7fffffff) mod sz + 1)) = r"
  shows "\<exists>rc p' m'. r = Some (rc, Some p', m') \<and> (m = [] \<longrightarrow> rc = 0 \<and> m' = []) \<and>
    (rc = 0 \<longrightarrow> agree sz p' (SETBIT V (nat ((i AND 0x7fffffff) mod sz + 1))))"
proof -
  let ?j = "(i AND 0x7fffffff) mod sz + 1" and ?w = "word_of_int ((i AND 0x7fffffff) mod sz + 1) :: u32"
  note ix = agree_index[OF assms(1,2), of i]
  from assms(1) have "bv_ok p" by (simp add: agree_def)
  from bv.add_law[OF this ix(3,4), of m] obtain rc p' m' where a: "bv_add m p ?w = Some (rc, p', m')"
    "bv_ok p'" "iSize p' = iSize p" "rc = 0 \<longrightarrow> bv_set p' = insert (nat ?j) (bv_set p)"
    unfolding ix(5) by auto
  have "m = [] \<longrightarrow> rc = 0 \<and> m' = []" using a(1) bitvec_set_at_no_oom by (auto simp: bv_add_def)
  moreover have "rc = 0 \<longrightarrow> agree sz p' (SETBIT V (nat ?j))"
    using assms(1) a(2-4) ix(6) by (auto simp: agree_def testbit_setbit)
  moreover have "r = Some (rc, Some p', m')"
    using a(1) assms(3) by (auto simp: sqlite3BitvecSet_def bv_add_def)
  ultimately show ?thesis by blast
qed

lemma agree_clear:
  assumes "agree sz p V" "0 < sz"
  shows "\<exists>p'. sqlite3BitvecClear (Some p) (word_of_int ((i AND 0x7fffffff) mod sz + 1)) = Some (Some p') \<and>
    agree sz p' (CLEARBIT V (nat ((i AND 0x7fffffff) mod sz + 1)))"
proof -
  note ix = agree_index[OF assms, of i]
  from assms(1) have "bv_ok p" by (simp add: agree_def)
  from bv.del_law[OF this ix(3,4)] obtain p' where
    a: "bv_del p (word_of_int ((i AND 0x7fffffff) mod sz + 1)) = Some p'"
    "bv_ok p'" "iSize p' = iSize p" "bv_set p' = bv_set p - {nat ((i AND 0x7fffffff) mod sz + 1)}"
    unfolding ix(5) by auto
  moreover have "agree sz p' (CLEARBIT V (nat ((i AND 0x7fffffff) mod sz + 1)))"
    using assms(1) a(2-4) ix(6) by (auto simp: agree_def testbit_clearbit)
  ultimately show ?thesis by (auto simp: sqlite3BitvecClear_def bv_del_def)
qed

lemma builtin_loop_agrees:
  assumes "prog_wf ops" "agree sz p V" "0 < sz"
  shows "\<exists>r. builtin_loop sz rnd k m p V ops = Some r \<and> (m = [] \<longrightarrow> r \<noteq> None) \<and>
    (\<forall>p' V'. r = Some (p', V') \<longrightarrow> agree sz p' V')"
  using assms
proof (induction sz rnd k m p V ops rule: builtin_loop.induct)
  case (2 sz rnd k m p V opc ops)
  show ?case
  proof (cases "opc = 0")
    case True
    with "2.prems" show ?thesis by simp
  next
    case False
    from prog_wf_fetch[OF "2.prems"(1) False, of rnd k] obtain i ops' k' where
      f: "builtin_fetch rnd k opc ops = Some (i, ops', k')" "prog_wf ops'" "opc \<noteq> 5" by blast
    let ?j = "(i AND 0x7fffffff) mod sz + 1"
    show ?thesis
    proof (cases "odd opc")
      case odd: True
      from agree_set[OF "2.prems"(2,3) refl, of m i] obtain rc p' m' where
        a: "sqlite3BitvecSet m (Some p) (word_of_int ?j) = Some (rc, Some p', m')"
        "m = [] \<longrightarrow> rc = 0 \<and> m' = []" "rc = 0 \<longrightarrow> agree sz p' (SETBIT V (nat ?j))" by auto
      have "builtin_loop sz rnd k m p V (opc # ops) =
          (if rc \<noteq> 0 then Some None else builtin_loop sz rnd k' m' p' (SETBIT V (nat ?j)) ops')"
        using False odd f a(1) by (simp add: Let_def)
      with "2.IH"(1)[OF False f(1) refl refl refl odd refl f(3) a(1) refl refl refl _ f(2) _ "2.prems"(3)] a
      show ?thesis by (cases "rc = 0") auto
    next
      case even: False
      from agree_clear[OF "2.prems"(2,3), of i] obtain p' where
        a: "sqlite3BitvecClear (Some p) (word_of_int ?j) = Some (Some p')"
        "agree sz p' (CLEARBIT V (nat ?j))" by auto
      have "builtin_loop sz rnd k m p V (opc # ops) = builtin_loop sz rnd k' m p' (CLEARBIT V (nat ?j)) ops'"
        using False even f a(1) by (simp add: Let_def)
      with "2.IH"(3)[OF False f(1) refl refl refl even a(1) refl f(2) a(2) "2.prems"(3)]
      show ?thesis by auto
    qed
  qed
qed simp

lemma builtin_compare_agree:
  assumes "agree sz p V" "\<forall>i \<in> set is. 1 \<le> i \<and> int i \<le> sz"
  shows "builtin_compare V p is rc = Some rc"
  using assms
proof (induction "is")
  case (Cons i "is")
  have "uint (iSize p) < 2 ^ 32" using uint_lt2p[of "iSize p"] by simp
  then have "int i < 2 ^ 32" using Cons.prems by (auto simp: agree_def)
  then have "unat (of_nat i :: u32) = i" by (simp add: unat_of_nat)
  with Cons show ?case
    by (simp add: sqlite3BitvecTest_def test_not_null_correct agree_def)
qed simp

lemma agree_create:
  assumes "0 < sz" "sz < 2 ^ 31" "sqlite3BitvecCreate m (word_of_int sz) = (Some p, m')"
  shows "agree sz p (replicate (nat ((sz + 7) div 8 + 1)) 0)"
proof -
  have u: "uint (word_of_int sz :: u32) = sz" using assms by (simp add: uint_word_of_int)
  then have n: "unat (word_of_int sz :: u32) = nat sz" by (metis nat_uint_eq)
  have p: "bv_ok p" "iSize p = word_of_int sz" "bv_bits p = {}"
    by (rule create_cases[where sz = "word_of_int sz" and m = m]; use assms(3) in simp)+
  have "\<not> TESTBIT (replicate (nat ((sz + 7) div 8 + 1)) 0) i" if "int i \<le> sz" for i
  proof -
    have "i div 8 < nat ((sz + 7) div 8 + 1)" using that by linarith
    then show ?thesis by (simp add: TESTBIT_def)
  qed
  with p u show ?thesis by (simp add: agree_def bv_set_def)
qed

text \<open>
  The self-test of \<open>bitvec.c\<close> ends and reports no difference: for every program of
  the opcodes 0 to 4 (opcode 5 plants a difference on purpose), every random source and
  every pattern of allocation failures it returns 0 or, when an allocation failed, -1.
\<close>

theorem builtin_test_passes:
  assumes "0 < sz" "sz < 2 ^ 31" "prog_wf ops"
  shows "\<exists>rc. sqlite3BitvecBuiltinTest m rnd sz ops = Some rc \<and> rc \<in> {0, -1} \<and> (m = [] \<longrightarrow> rc = 0)"
proof (cases "sqlite3BitvecCreate m (word_of_int sz)")
  case (Pair q m1)
  obtain okV m2 okT m3 where ms: "malloc_step m1 = (okV, m2)" "malloc_step m2 = (okT, m3)"
    by (metis surj_pair)
  have no_oom: "m = [] \<Longrightarrow> (\<exists>p. q = Some p) \<and> okV \<and> okT \<and> m3 = []"
    using Pair ms by (auto simp: sqlite3BitvecCreate_def)
  show ?thesis
  proof (cases "q = None \<or> \<not> okV \<or> \<not> okT")
    case True
    then show ?thesis using Pair ms no_oom
      by (cases q) (auto simp: sqlite3BitvecBuiltinTest_def)
  next
    case False
    then obtain p where q: "q = Some p" okV okT by auto
    let ?V = "replicate (nat ((sz + 7) div 8 + 1)) (0 :: u8)"
    from agree_create[OF assms(1,2)] Pair q have ag: "agree sz p ?V" by simp
    from builtin_loop_agrees[OF assms(3) ag assms(1), of rnd 0 m3] obtain r where
      r: "builtin_loop sz rnd 0 m3 p ?V ops = Some r" "m3 = [] \<longrightarrow> r \<noteq> None"
      "\<forall>p' V'. r = Some (p', V') \<longrightarrow> agree sz p' V'" by blast
    note start = sqlite3BitvecBuiltinTest_def[of m rnd sz ops] Pair ms q r(1)
    show ?thesis
    proof (cases r)
      case None
      with start have "sqlite3BitvecBuiltinTest m rnd sz ops = Some (-1)" by simp
      with None r(2) no_oom show ?thesis by auto
    next
      case (Some pv)
      then obtain p' V' where pv: "r = Some (p', V')" by (cases pv) auto
      with r(3) have ag': "agree sz p' V'" by blast
      then have ok: "bv_ok p'" and size: "uint (iSize p') = sz" by (auto simp: agree_def)
      have "uint (word_of_int (sz + 1) :: u32) = sz + 1"
        unfolding uint_word_of_int using assms by simp
      then have "unat (word_of_int (sz + 1) :: u32) = nat (sz + 1)" by (metis nat_uint_eq)
      moreover have "unat (iSize p') = nat sz" using size by (metis nat_uint_eq)
      ultimately have "unat (word_of_int (sz + 1) :: u32) \<notin> bv_set p'" "unat (0 :: u32) \<notin> bv_set p'"
        using assms(1) bv_set_le[of _ p'] by fastforce+
      moreover have "builtin_compare V' p' [1 ..< nat sz + 1] 0 = Some 0"
        using ag' by (rule builtin_compare_agree) auto
      ultimately have "sqlite3BitvecBuiltinTest m rnd sz ops = Some 0"
        using start pv size by (simp add: sqlite3BitvecTest_def test_not_null_correct[OF ok] sqlite3BitvecSize_def)
      then show ?thesis by simp
    qed
  qed
qed

theorem builtin_test_passes_witness:
  "(0::int) < 4000 \<and> (4000::int) < 2 ^ 31 \<and> prog_wf [1, 100, 1, 37, 2, 3, 1, 37, 0] \<and>
   sqlite3BitvecBuiltinTest [] (\<lambda>_. 0) 4000 [1, 100, 1, 37, 2, 3, 1, 37, 0] = Some 0"
  using builtin_test_passes[of 4000 "[1, 100, 1, 37, 2, 3, 1, 37, 0]" "[]" "\<lambda>_. 0"] by simp

end
