(* ===== verification/Varint.thy ===== *)
theory Varint
  imports Base
begin

text \<open>
  The variable-length integers of the database file (\<open>src/util.c\<close>): the writer, the
  unrolled 64-bit reader, the 32-bit reader with its macro, and the length function. A
  buffer is the list of the bytes from the pointer on; a read past its end is \<open>None\<close>.
\<close>

subsection \<open>Writing\<close>

text \<open>The loop \<open>for(i=7; i>=0; i--)\<close> of the nine-byte form, low byte first.\<close>

fun put_high_bytes :: "nat \<Rightarrow> u64 \<Rightarrow> u8 list \<Rightarrow> u8 list" where
  "put_high_bytes 0 v acc = acc"
| "put_high_bytes (Suc i) v acc =
     put_high_bytes i (drop_bit 7 v) ((ucast (v AND 0x7f) OR 0x80) # acc)"

lemma drop_7_less: "drop_bit 7 v \<noteq> 0 \<Longrightarrow> unat (drop_bit 7 v) < unat v" for v :: u64
proof -
  assume nz: "drop_bit 7 v \<noteq> 0"
  then have "unat v \<noteq> 0" by (auto simp: unat_eq_0)
  then show ?thesis by (simp add: drop_bit_eq_div unat_div_distrib)
qed

text \<open>The \<open>do ... while( v!=0 )\<close> loop that fills \<open>buf\<close>, low digit first.\<close>

function varint_digits :: "u64 \<Rightarrow> u8 list" where
  "varint_digits v = (ucast (v AND 0x7f) OR 0x80) #
     (if drop_bit 7 v \<noteq> 0 then varint_digits (drop_bit 7 v) else [])"
  by pat_completeness auto
termination
  by (relation "measure unat") (auto simp: drop_7_less)

declare varint_digits.simps [simp del]

definition putVarint64 :: "u64 \<Rightarrow> u8 list" where
  "putVarint64 v =
    (if v AND push_bit 32 0xff000000 \<noteq> 0
     then put_high_bytes 8 (drop_bit 8 v) [ucast v]
     else let buf = varint_digits v in rev (buf[0 := buf ! 0 AND 0x7f]))"

definition sqlite3PutVarint :: "u64 \<Rightarrow> u8 list" where
  "sqlite3PutVarint v =
    (if v \<le> 0x7f then [ucast (v AND 0x7f)]
     else if v \<le> 0x3fff then [ucast ((drop_bit 7 v AND 0x7f) OR 0x80), ucast (v AND 0x7f)]
     else putVarint64 v)"

function varint_len_loop :: "u64 \<Rightarrow> nat \<Rightarrow> nat" where
  "varint_len_loop v i = (if drop_bit 7 v \<noteq> 0 then varint_len_loop (drop_bit 7 v) (i + 1) else i)"
  by pat_completeness auto
termination
  by (relation "measure (\<lambda>(v, i). unat v)") (auto simp: drop_7_less)

declare varint_len_loop.simps [simp del]

definition sqlite3VarintLen :: "u64 \<Rightarrow> nat" where
  "sqlite3VarintLen v = varint_len_loop v 1"

subsection \<open>Reading\<close>

definition rd :: "u8 list \<Rightarrow> nat \<Rightarrow> (u32 \<Rightarrow> 'a option) \<Rightarrow> 'a option" where
  "rd p k f = (if k < length p then f (ucast (p ! k)) else None)"

abbreviation SLOT_2_0 :: u32 where "SLOT_2_0 \<equiv> 0x001fc07f"
abbreviation SLOT_4_2_0 :: u32 where "SLOT_4_2_0 \<equiv> 0xf01fc07f"

definition join64 :: "u32 \<Rightarrow> u32 \<Rightarrow> u64" where
  "join64 s a = push_bit 32 (ucast s) OR ucast a"

definition sqlite3GetVarint :: "u8 list \<Rightarrow> (nat \<times> u64) option" where
  "sqlite3GetVarint p =
    rd p 0 (\<lambda>a. if a AND 0x80 = 0 then Some (1, ucast a) else
    rd p 1 (\<lambda>b. if b AND 0x80 = 0 then
        (let a = a AND 0x7f; a = push_bit 7 a; a = a OR b in Some (2, ucast a)) else
    rd p 2 (\<lambda>p2. let a = push_bit 14 a OR p2 in
      if a AND 0x80 = 0 then
        (let a = a AND SLOT_2_0; b = b AND 0x7f; b = push_bit 7 b; a = a OR b in Some (3, ucast a)) else
      let a = a AND SLOT_2_0 in
    rd p 3 (\<lambda>p3. let b = push_bit 14 b OR p3 in
      if b AND 0x80 = 0 then
        (let b = b AND SLOT_2_0; a = push_bit 7 a; a = a OR b in Some (4, ucast a)) else
      let b = b AND SLOT_2_0; s = a in
    rd p 4 (\<lambda>p4. let a = push_bit 14 a OR p4 in
      if a AND 0x80 = 0 then
        (let b = push_bit 7 b; a = a OR b; s = drop_bit 18 s in Some (5, join64 s a)) else
      let s = push_bit 7 s; s = s OR b in
    rd p 5 (\<lambda>p5. let b = push_bit 14 b OR p5 in
      if b AND 0x80 = 0 then
        (let a = a AND SLOT_2_0; a = push_bit 7 a; a = a OR b; s = drop_bit 18 s
         in Some (6, join64 s a)) else
    rd p 6 (\<lambda>p6. let a = push_bit 14 a OR p6 in
      if a AND 0x80 = 0 then
        (let a = a AND SLOT_4_2_0; b = b AND SLOT_2_0; b = push_bit 7 b; a = a OR b; s = drop_bit 11 s
         in Some (7, join64 s a)) else
      let a = a AND SLOT_2_0 in
    rd p 7 (\<lambda>p7. let b = push_bit 14 b OR p7 in
      if b AND 0x80 = 0 then
        (let b = b AND SLOT_4_2_0; a = push_bit 7 a; a = a OR b; s = drop_bit 4 s
         in Some (8, join64 s a)) else
    rd p 8 (\<lambda>p8. let a = push_bit 15 a; a = a OR p8; b = b AND SLOT_2_0; b = push_bit 8 b; a = a OR b;
        s = push_bit 4 s in
    rd p 4 (\<lambda>b. let b = b AND 0x7f; b = drop_bit 3 b; s = s OR b
      in Some (9, join64 s a)))))))))))"

text \<open>
  \<open>sqlite3GetVarint32\<close> as compiled: the one-byte case belongs to the macro
  \<open>getVarint32\<close> of \<open>sqliteInt.h\<close>.
\<close>

definition sqlite3GetVarint32 :: "u8 list \<Rightarrow> (nat \<times> u32) option" where
  "sqlite3GetVarint32 p =
    rd p 0 (\<lambda>a.
    rd p 1 (\<lambda>b. if b AND 0x80 = 0 then
        (let a = a AND 0x7f; a = push_bit 7 a in Some (2, a OR b)) else
    rd p 2 (\<lambda>p2. let a = push_bit 14 a; a = a OR p2 in
      if a AND 0x80 = 0 then
        (let a = a AND SLOT_2_0; b = b AND 0x7f; b = push_bit 7 b in Some (3, a OR b)) else
      case sqlite3GetVarint p of
        None \<Rightarrow> None
      | Some (n, v64) \<Rightarrow>
          if v64 AND 0xffffffff \<noteq> v64 then Some (n, 0xffffffff) else Some (n, ucast v64))))"

definition getVarint32 :: "u8 list \<Rightarrow> (nat \<times> u32) option" where
  "getVarint32 p = rd p 0 (\<lambda>a. if a < 0x80 then Some (1, a) else sqlite3GetVarint32 p)"

subsection \<open>The encoding, as documented\<close>

text \<open>
  The reference reader: seven bits from each byte with the high bit set and from the
  first byte without it, all eight bits of a ninth byte.
\<close>

fun varint_ref :: "nat \<Rightarrow> u64 \<Rightarrow> u8 list \<Rightarrow> (nat \<times> u64) option" where
  "varint_ref i acc [] = None"
| "varint_ref i acc (b # bs) =
    (if i = 8 then Some (9, push_bit 8 acc OR ucast b)
     else if b AND 0x80 = 0 then Some (i + 1, push_bit 7 acc OR ucast b)
     else varint_ref (i + 1) (push_bit 7 acc OR ucast (b AND 0x7f)) bs)"

subsection \<open>The unrolled reader computes the reference\<close>

lemma high_bit_simps:
  "bit (ucast b :: u32) 7 = bit b 7" "bit (push_bit 14 a OR ucast b :: u32) 7 = bit b 7"
  for b :: u8
  by (simp_all add: bit_simps)

lemma byte_top_cases:
  obtains (eob) "p = []" | (low) b r where "p = b # r" "\<not> bit (b :: u8) 7"
  | (high) b r where "p = b # r" "bit b 7"
  by (cases p) auto

lemmas getvarint_unfold = sqlite3GetVarint_def rd_def Let_def and_0x80 high_bit_simps

text \<open>One lemma per length of the encoding.\<close>

lemma getvarint_1:
  "\<not> bit p0 7 \<Longrightarrow>
    sqlite3GetVarint (p0 # r) =
    varint_ref 0 0 (p0 # r)"
  by (simp add: getvarint_unfold join64_def bit_simps)
    (rule u64_eqI, simp add: bit_simps, simp add: bit8)

lemma getvarint_2:
  "bit p0 7 \<Longrightarrow> \<not> bit p1 7 \<Longrightarrow>
    sqlite3GetVarint (p0 # p1 # r) =
    varint_ref 0 0 (p0 # p1 # r)"
  by (simp add: getvarint_unfold join64_def bit_simps)
    (rule u64_eqI, simp add: bit_simps, simp add: bit8)

lemma getvarint_3:
  "bit p0 7 \<Longrightarrow> bit p1 7 \<Longrightarrow> \<not> bit p2 7 \<Longrightarrow>
    sqlite3GetVarint (p0 # p1 # p2 # r) =
    varint_ref 0 0 (p0 # p1 # p2 # r)"
  by (simp add: getvarint_unfold join64_def bit_simps)
    (rule u64_eqI, simp add: bit_simps, simp add: bit8)

lemma getvarint_4:
  "bit p0 7 \<Longrightarrow> bit p1 7 \<Longrightarrow> bit p2 7 \<Longrightarrow> \<not> bit p3 7 \<Longrightarrow>
    sqlite3GetVarint (p0 # p1 # p2 # p3 # r) =
    varint_ref 0 0 (p0 # p1 # p2 # p3 # r)"
  by (simp add: getvarint_unfold join64_def bit_simps)
    (rule u64_eqI, simp add: bit_simps, simp add: bit8)

lemma getvarint_5:
  "bit p0 7 \<Longrightarrow> bit p1 7 \<Longrightarrow> bit p2 7 \<Longrightarrow> bit p3 7 \<Longrightarrow> \<not> bit p4 7 \<Longrightarrow>
    sqlite3GetVarint (p0 # p1 # p2 # p3 # p4 # r) =
    varint_ref 0 0 (p0 # p1 # p2 # p3 # p4 # r)"
  by (simp add: getvarint_unfold join64_def bit_simps)
    (rule u64_eqI, simp add: bit_simps, simp add: bit8)

lemma getvarint_6:
  "bit p0 7 \<Longrightarrow> bit p1 7 \<Longrightarrow> bit p2 7 \<Longrightarrow> bit p3 7 \<Longrightarrow> bit p4 7 \<Longrightarrow> \<not> bit p5 7 \<Longrightarrow>
    sqlite3GetVarint (p0 # p1 # p2 # p3 # p4 # p5 # r) =
    varint_ref 0 0 (p0 # p1 # p2 # p3 # p4 # p5 # r)"
  by (simp add: getvarint_unfold join64_def bit_simps)
    (rule u64_eqI, simp add: bit_simps, simp add: bit8)

lemma getvarint_7:
  "bit p0 7 \<Longrightarrow> bit p1 7 \<Longrightarrow> bit p2 7 \<Longrightarrow> bit p3 7 \<Longrightarrow> bit p4 7 \<Longrightarrow> bit p5 7 \<Longrightarrow> \<not> bit p6 7 \<Longrightarrow>
    sqlite3GetVarint (p0 # p1 # p2 # p3 # p4 # p5 # p6 # r) =
    varint_ref 0 0 (p0 # p1 # p2 # p3 # p4 # p5 # p6 # r)"
  by (simp add: getvarint_unfold join64_def bit_simps)
    (rule u64_eqI, simp add: bit_simps, simp add: bit8)

lemma getvarint_8:
  "bit p0 7 \<Longrightarrow> bit p1 7 \<Longrightarrow> bit p2 7 \<Longrightarrow> bit p3 7 \<Longrightarrow> bit p4 7 \<Longrightarrow> bit p5 7 \<Longrightarrow> bit p6 7 \<Longrightarrow> \<not> bit p7 7 \<Longrightarrow>
    sqlite3GetVarint (p0 # p1 # p2 # p3 # p4 # p5 # p6 # p7 # r) =
    varint_ref 0 0 (p0 # p1 # p2 # p3 # p4 # p5 # p6 # p7 # r)"
  by (simp add: getvarint_unfold join64_def bit_simps)
    (rule u64_eqI, simp add: bit_simps, simp add: bit8)

lemma getvarint_9:
  "bit p0 7 \<Longrightarrow> bit p1 7 \<Longrightarrow> bit p2 7 \<Longrightarrow> bit p3 7 \<Longrightarrow> bit p4 7 \<Longrightarrow> bit p5 7 \<Longrightarrow> bit p6 7 \<Longrightarrow> bit p7 7 \<Longrightarrow>
    sqlite3GetVarint (p0 # p1 # p2 # p3 # p4 # p5 # p6 # p7 # p8 # r) =
    varint_ref 0 0 (p0 # p1 # p2 # p3 # p4 # p5 # p6 # p7 # p8 # r)"
  by (simp add: getvarint_unfold join64_def bit_simps)
    (rule u64_eqI, simp add: bit_simps, simp add: bit8)

text \<open>No end within the buffer: both readers run off it.\<close>

lemma getvarint_end_0: "
    sqlite3GetVarint ([]) = varint_ref 0 0 ([])"
  by (simp add: getvarint_unfold bit_simps)

lemma getvarint_end_1: "bit p0 7 \<Longrightarrow> 
    sqlite3GetVarint (p0 # []) = varint_ref 0 0 (p0 # [])"
  by (simp add: getvarint_unfold bit_simps)

lemma getvarint_end_2: "bit p0 7 \<Longrightarrow> bit p1 7 \<Longrightarrow> 
    sqlite3GetVarint (p0 # p1 # []) = varint_ref 0 0 (p0 # p1 # [])"
  by (simp add: getvarint_unfold bit_simps)

lemma getvarint_end_3: "bit p0 7 \<Longrightarrow> bit p1 7 \<Longrightarrow> bit p2 7 \<Longrightarrow> 
    sqlite3GetVarint (p0 # p1 # p2 # []) = varint_ref 0 0 (p0 # p1 # p2 # [])"
  by (simp add: getvarint_unfold bit_simps)

lemma getvarint_end_4: "bit p0 7 \<Longrightarrow> bit p1 7 \<Longrightarrow> bit p2 7 \<Longrightarrow> bit p3 7 \<Longrightarrow> 
    sqlite3GetVarint (p0 # p1 # p2 # p3 # []) = varint_ref 0 0 (p0 # p1 # p2 # p3 # [])"
  by (simp add: getvarint_unfold bit_simps)

lemma getvarint_end_5: "bit p0 7 \<Longrightarrow> bit p1 7 \<Longrightarrow> bit p2 7 \<Longrightarrow> bit p3 7 \<Longrightarrow> bit p4 7 \<Longrightarrow> 
    sqlite3GetVarint (p0 # p1 # p2 # p3 # p4 # []) = varint_ref 0 0 (p0 # p1 # p2 # p3 # p4 # [])"
  by (simp add: getvarint_unfold bit_simps)

lemma getvarint_end_6: "bit p0 7 \<Longrightarrow> bit p1 7 \<Longrightarrow> bit p2 7 \<Longrightarrow> bit p3 7 \<Longrightarrow> bit p4 7 \<Longrightarrow> bit p5 7 \<Longrightarrow> 
    sqlite3GetVarint (p0 # p1 # p2 # p3 # p4 # p5 # []) = varint_ref 0 0 (p0 # p1 # p2 # p3 # p4 # p5 # [])"
  by (simp add: getvarint_unfold bit_simps)

lemma getvarint_end_7: "bit p0 7 \<Longrightarrow> bit p1 7 \<Longrightarrow> bit p2 7 \<Longrightarrow> bit p3 7 \<Longrightarrow> bit p4 7 \<Longrightarrow> bit p5 7 \<Longrightarrow> bit p6 7 \<Longrightarrow> 
    sqlite3GetVarint (p0 # p1 # p2 # p3 # p4 # p5 # p6 # []) = varint_ref 0 0 (p0 # p1 # p2 # p3 # p4 # p5 # p6 # [])"
  by (simp add: getvarint_unfold bit_simps)

lemma getvarint_end_8: "bit p0 7 \<Longrightarrow> bit p1 7 \<Longrightarrow> bit p2 7 \<Longrightarrow> bit p3 7 \<Longrightarrow> bit p4 7 \<Longrightarrow> bit p5 7 \<Longrightarrow> bit p6 7 \<Longrightarrow> bit p7 7 \<Longrightarrow> 
    sqlite3GetVarint (p0 # p1 # p2 # p3 # p4 # p5 # p6 # p7 # []) = varint_ref 0 0 (p0 # p1 # p2 # p3 # p4 # p5 # p6 # p7 # [])"
  by (simp add: getvarint_unfold bit_simps)

theorem sqlite3GetVarint_ref: "sqlite3GetVarint p = varint_ref 0 0 p"
proof (cases p rule: byte_top_cases)
  case (high p0 r0) note h0 = this
  show ?thesis
  proof (cases r0 rule: byte_top_cases)
    case (high p1 r1) note h1 = this
    show ?thesis
    proof (cases r1 rule: byte_top_cases)
      case (high p2 r2) note h2 = this
      show ?thesis
      proof (cases r2 rule: byte_top_cases)
        case (high p3 r3) note h3 = this
        show ?thesis
        proof (cases r3 rule: byte_top_cases)
          case (high p4 r4) note h4 = this
          show ?thesis
          proof (cases r4 rule: byte_top_cases)
            case (high p5 r5) note h5 = this
            show ?thesis
            proof (cases r5 rule: byte_top_cases)
              case (high p6 r6) note h6 = this
              show ?thesis
              proof (cases r6 rule: byte_top_cases)
                case (high p7 r7) note h7 = this
                show ?thesis
                by (cases r7) (use h0 h1 h2 h3 h4 h5 h6 h7 getvarint_end_8 getvarint_9 in simp_all)
              qed (use h0 h1 h2 h3 h4 h5 h6 getvarint_end_7 getvarint_8 in simp_all)
            qed (use h0 h1 h2 h3 h4 h5 getvarint_end_6 getvarint_7 in simp_all)
          qed (use h0 h1 h2 h3 h4 getvarint_end_5 getvarint_6 in simp_all)
        qed (use h0 h1 h2 h3 getvarint_end_4 getvarint_5 in simp_all)
      qed (use h0 h1 h2 getvarint_end_3 getvarint_4 in simp_all)
    qed (use h0 h1 getvarint_end_2 getvarint_3 in simp_all)
  qed (use h0 getvarint_end_1 getvarint_2 in simp_all)
qed (use  getvarint_end_0 getvarint_1 in simp_all)

subsection \<open>The writer against the reference\<close>

text \<open>All digits of a value but the last carry the high bit.\<close>

definition hi_digits :: "u64 \<Rightarrow> u8 list" where
  "hi_digits v = rev (varint_digits v)"

lemma hi_digits_rec:
  "hi_digits v = (if drop_bit 7 v = 0 then [] else hi_digits (drop_bit 7 v)) @ [ucast (v AND 0x7f) OR 0x80]"
  by (subst (1) hi_digits_def, subst varint_digits.simps) (simp add: hi_digits_def)

lemma digit_join: "push_bit 7 (drop_bit 7 v) OR ucast (ucast (v AND 0x7f) :: u8) = v" for v :: u64
  by (rule u64_eqI, simp add: bit_simps)

lemma digit_low: "ucast ((ucast (v AND 0x7f) OR 0x80) AND 0x7f :: u8) = (ucast (ucast (v AND 0x7f) :: u8) :: u64)"
  "(ucast (v AND 0x7f) OR 0x80) AND 0x7f = (ucast (v AND 0x7f) :: u8)" for v :: u64
proof -
  show "(ucast (v AND 0x7f) OR 0x80) AND 0x7f = (ucast (v AND 0x7f) :: u8)"
    by (rule bit_word_eqI) (auto simp: bit_simps less_Suc_eq numeral_eq_Suc[of "num.Bit0 _"])
  then show "ucast ((ucast (v AND 0x7f) OR 0x80) AND 0x7f :: u8) = (ucast (ucast (v AND 0x7f) :: u8) :: u64)"
    by simp
qed

lemma digit_bit7: "bit (ucast (v AND 0x7f) OR 0x80 :: u8) 7" "\<not> bit (ucast (v AND 0x7f) :: u8) 7" for v :: u64
  by (simp_all add: bit_simps)

lemma varint_ref_high:
  "i \<noteq> 8 \<Longrightarrow> varint_ref i (drop_bit 7 v) ((ucast (v AND 0x7f) OR 0x80) # rest) = varint_ref (i + 1) v rest"
  for v :: u64
  by (simp add: and_0x80 digit_bit7 digit_low digit_join)

lemma varint_ref_last:
  "i \<noteq> 8 \<Longrightarrow> varint_ref i (drop_bit 7 v) (ucast (v AND 0x7f) # rest) = Some (i + 1, v)" for v :: u64
  by (simp add: and_0x80 digit_bit7 digit_join)

lemma varint_ref_hi_digits:
  "length (hi_digits w) \<le> 8 \<Longrightarrow>
   varint_ref 0 0 (hi_digits w @ rest) = varint_ref (length (hi_digits w)) w rest"
proof (induction w arbitrary: rest rule: varint_digits.induct)
  case (1 w)
  let ?d = "ucast (w AND 0x7f) OR 0x80 :: u8"
  show ?case
  proof (cases "drop_bit 7 w = 0")
    case True
    with varint_ref_high[of 0 w rest] show ?thesis by (simp add: hi_digits_rec[of w])
  next
    case False
    with "1.prems" have len: "length (hi_digits (drop_bit 7 w)) < 8" by (simp add: hi_digits_rec[of w])
    with "1.IH"[OF False, of "?d # rest"]
    have "varint_ref 0 0 (hi_digits (drop_bit 7 w) @ ?d # rest) =
        varint_ref (length (hi_digits (drop_bit 7 w))) (drop_bit 7 w) (?d # rest)" by simp
    also have "\<dots> = varint_ref (length (hi_digits (drop_bit 7 w)) + 1) w rest"
      using len by (intro varint_ref_high) simp
    finally show ?thesis using False by (simp add: hi_digits_rec[of w])
  qed
qed

lemma length_hi_digits: "drop_bit (7 * k) w = 0 \<Longrightarrow> 0 < k \<Longrightarrow> length (hi_digits w) \<le> k"
proof (induction k arbitrary: w)
  case (Suc k)
  show ?case
  proof (cases "drop_bit 7 w = 0")
    case True
    then show ?thesis by (simp add: hi_digits_rec[of w])
  next
    case False
    have "drop_bit (7 * k) (drop_bit 7 w) = 0" using Suc.prems(1) by (simp add: drop_bit_drop_bit add.commute)
    moreover from this False have "0 < k" by (cases k) auto
    ultimately have "length (hi_digits (drop_bit 7 w)) \<le> k" by (rule Suc.IH)
    with False show ?thesis by (simp add: hi_digits_rec[of w])
  qed
qed simp

lemma put_low_form:
  assumes "v AND push_bit 32 0xff000000 = 0"
  shows "putVarint64 v =
    (if drop_bit 7 v = 0 then [] else hi_digits (drop_bit 7 v)) @ [ucast (v AND 0x7f)]"
  using assms by (simp add: putVarint64_def Let_def hi_digits_def varint_digits.simps[of v] digit_low)

lemma top_byte_clear: "drop_bit 56 (v AND push_bit 32 0xff000000) = drop_bit 56 v" for v :: u64
  by (rule u64_eqI, simp add: bit_simps bit64)

lemma put_high_append: "put_high_bytes i w acc = put_high_bytes i w [] @ acc"
proof (induction i arbitrary: w acc)
  case (Suc i)
  show ?case by (simp add: Suc.IH[of _ "_ # acc"] Suc.IH[of _ "[_]"])
qed simp

lemma take_digit:
  "push_bit 7 (take_bit (7 * i) (drop_bit 7 w)) OR ucast (ucast (w AND 0x7f) :: u8) = take_bit (7 * Suc i) w"
  for w :: u64
  unfolding and_0x7f by (rule bit_word_eqI) (auto simp: bit_simps)

lemma varint_ref_put_high:
  "i \<le> 8 \<Longrightarrow> varint_ref 0 0 (put_high_bytes i w [] @ rest) = varint_ref i (take_bit (7 * i) w) rest"
proof (induction i arbitrary: w rest)
  case (Suc i)
  let ?d = "ucast (w AND 0x7f) OR 0x80 :: u8"
  have "put_high_bytes (Suc i) w [] @ rest = put_high_bytes i (drop_bit 7 w) [] @ (?d # rest)"
    by (simp add: put_high_append[of _ _ "[_]"])
  also have "varint_ref 0 0 \<dots> = varint_ref i (take_bit (7 * i) (drop_bit 7 w)) (?d # rest)"
    using Suc.prems by (intro Suc.IH) simp
  also have "\<dots> = varint_ref (Suc i) (push_bit 7 (take_bit (7 * i) (drop_bit 7 w)) OR ucast (ucast (w AND 0x7f) :: u8)) rest"
    using Suc.prems by (simp add: and_0x80 digit_bit7 digit_low)
  finally show ?case by (simp only: take_digit)
qed simp

lemma length_put_high: "length (put_high_bytes i w acc) = i + length acc"
  by (induction i arbitrary: w acc) auto

lemma nine_bytes_join: "push_bit 8 (take_bit 56 (drop_bit 8 v)) OR ucast (ucast v :: u8) = v" for v :: u64
  by (rule u64_eqI, simp add: bit_simps)

lemma putVarint64_ref: "varint_ref 0 0 (putVarint64 v @ rest) = Some (length (putVarint64 v), v)"
proof (cases "v AND push_bit 32 0xff000000 = 0")
  case False
  then have "putVarint64 v = put_high_bytes 8 (drop_bit 8 v) [] @ [ucast v]"
    by (simp only: putVarint64_def put_high_append[of _ _ "[_]"] not_False_eq_True if_True)
  with varint_ref_put_high[of 8 "drop_bit 8 v" "ucast v # rest"] show ?thesis
    by (simp add: nine_bytes_join length_put_high)
next
  case True
  have d56: "drop_bit 56 v = 0" using top_byte_clear[of v, unfolded True] by simp
  show ?thesis
  proof (cases "drop_bit 7 v = 0")
    case True
    with put_low_form[OF \<open>v AND _ = 0\<close>] varint_ref_last[of 0 v rest] show ?thesis by simp
  next
    case False
    have "drop_bit (7 * 7) (drop_bit 7 v) = 0" using d56 by (simp add: drop_bit_drop_bit)
    then have len: "length (hi_digits (drop_bit 7 v)) \<le> 7" by (rule length_hi_digits) simp
    have "varint_ref 0 0 (hi_digits (drop_bit 7 v) @ ucast (v AND 0x7f) # rest) =
        varint_ref (length (hi_digits (drop_bit 7 v))) (drop_bit 7 v) (ucast (v AND 0x7f) # rest)"
      using len by (intro varint_ref_hi_digits) simp
    also have "\<dots> = Some (length (hi_digits (drop_bit 7 v)) + 1, v)"
      using len by (intro varint_ref_last) simp
    finally show ?thesis using put_low_form[OF \<open>v AND _ = 0\<close>] False by simp
  qed
qed

subsection \<open>Properties of the writer\<close>

lemma drop_bit_zero_bit: "drop_bit k v = 0 \<Longrightarrow> k \<le> n \<Longrightarrow> \<not> bit v n" for v :: u64
proof
  assume v: "drop_bit k v = 0" "k \<le> n" "bit v n"
  from v(2) have "bit (drop_bit k v) (n - k) = bit v n" by (simp add: bit_drop_bit_eq)
  with v(1,3) show False by simp
qed

lemma small_top_clear: "drop_bit k v = 0 \<Longrightarrow> k \<le> 56 \<Longrightarrow> v AND push_bit 32 0xff000000 = 0" for v :: u64
proof (rule bit_word_eqI)
  fix n assume v: "drop_bit k v = 0" "k \<le> 56"
  have "\<not> bit (push_bit 32 0xff000000 :: u64) n" if "n < 56"
  proof -
    have "push_bit 32 0xff000000 = (push_bit 56 0xff :: u64)" by simp
    then show ?thesis using that by (simp only: bit_push_bit_iff) auto
  qed
  then show "bit (v AND push_bit 32 0xff000000) n = bit 0 n"
    using drop_bit_zero_bit[OF v(1), of n] v(2) by (cases "n < 56") (auto simp: bit_and_iff)
qed

lemma top_byte_iff: "v AND push_bit 32 0xff000000 = 0 \<longleftrightarrow> drop_bit 56 v = 0" for v :: u64
proof
  assume "v AND push_bit 32 0xff000000 = 0"
  then show "drop_bit 56 v = 0" unfolding top_byte_clear[of v, symmetric] by (simp only: drop_bit_of_0)
qed (rule small_top_clear[of 56]; simp)

lemma le_drop_bit: "unat v < 2 ^ k \<Longrightarrow> drop_bit k v = 0" for v :: u64
proof -
  assume "unat v < 2 ^ k"
  then have "unat (drop_bit k v) = 0" unfolding unat_drop_bit by simp
  then show ?thesis by (simp add: unat_eq_0)
qed

lemma put_fast_path: "sqlite3PutVarint v = putVarint64 v"
proof -
  consider (one) "v \<le> 0x7f" | (two) "\<not> v \<le> 0x7f" "v \<le> 0x3fff" | (more) "\<not> v \<le> 0x7f" "\<not> v \<le> 0x3fff"
    by blast
  then show ?thesis
  proof cases
    case one
    then have "drop_bit 7 v = 0" by (intro le_drop_bit) (simp add: word_le_nat_alt)
    then show ?thesis using one small_top_clear[of 7 v] by (simp add: sqlite3PutVarint_def put_low_form)
  next
    case two
    then have d: "drop_bit 14 v = 0" by (intro le_drop_bit) (simp add: word_le_nat_alt)
    then have "drop_bit 7 (drop_bit 7 v) = 0" by (simp add: drop_bit_drop_bit)
    then have "hi_digits (drop_bit 7 v) = [ucast (drop_bit 7 v AND 0x7f) OR 0x80]"
      by (subst hi_digits_rec) simp
    moreover have "(ucast ((drop_bit 7 v AND 0x7f) OR 0x80) :: u8) = ucast (drop_bit 7 v AND 0x7f) OR 0x80"
      by (rule bit_word_eqI) (auto simp: bit_simps)
    moreover have "drop_bit 7 v \<noteq> 0"
    proof
      assume "drop_bit 7 v = 0"
      then have "unat v div 128 = 0" using unat_drop_bit[of 7 v] by simp
      with two(1) show False by (simp add: word_le_nat_alt)
    qed
    ultimately show ?thesis using two put_low_form[OF small_top_clear[OF d]]
      by (simp add: sqlite3PutVarint_def)
  next
    case more
    then show ?thesis by (simp add: sqlite3PutVarint_def)
  qed
qed

lemma length_hi_digits_gt: "drop_bit (7 * k) w \<noteq> 0 \<Longrightarrow> k < length (hi_digits w)"
proof (induction k arbitrary: w)
  case 0
  then show ?case by (simp add: hi_digits_rec[of w])
next
  case (Suc k)
  have e: "drop_bit (7 * k) (drop_bit 7 w) = drop_bit (7 * Suc k) w"
    by (simp add: drop_bit_drop_bit add.commute)
  have "k < length (hi_digits (drop_bit 7 w))" using Suc.IH[of "drop_bit 7 w"] Suc.prems e by argo
  moreover have "drop_bit 7 w \<noteq> 0" using Suc.prems e by (metis drop_bit_of_0)
  ultimately show ?case by (simp add: hi_digits_rec[of w])
qed

lemma varint_len_loop: "varint_len_loop v i + 1 = i + length (hi_digits v)"
proof (induction v i rule: varint_len_loop.induct)
  case (1 v i)
  then show ?case by (subst varint_len_loop.simps, subst hi_digits_rec) auto
qed

lemma sqlite3VarintLen_digits: "sqlite3VarintLen v = length (hi_digits v)"
  using varint_len_loop[of v 1] by (simp add: sqlite3VarintLen_def)

lemma length_put: "length (putVarint64 v) = min 9 (length (hi_digits v))"
proof (cases "drop_bit 56 v = 0")
  case True
  then have "length (hi_digits v) \<le> 8" using length_hi_digits[of 8 v] by simp
  moreover have "putVarint64 v = (if drop_bit 7 v = 0 then [] else hi_digits (drop_bit 7 v)) @ [ucast (v AND 0x7f)]"
    using True by (intro put_low_form small_top_clear[of 56]) simp_all
  ultimately show ?thesis by (auto simp: hi_digits_rec[of v])
next
  case False
  then have "8 < length (hi_digits v)" using length_hi_digits_gt[of 8 v] by simp
  moreover have "v AND push_bit 32 0xff000000 \<noteq> 0" using False unfolding top_byte_iff .
  then have "putVarint64 v = put_high_bytes 8 (drop_bit 8 v) [ucast v]"
    by (simp only: putVarint64_def not_False_eq_True if_True)
  ultimately show ?thesis by (simp add: length_put_high del: put_high_bytes.simps)
qed

subsection \<open>The 32-bit reader\<close>

definition clamp32 :: "u64 \<Rightarrow> u32" where
  "clamp32 v = (if v AND 0xffffffff \<noteq> v then 0xffffffff else ucast v)"

lemma mask_ucast: "ucast (a :: u32) AND 0xffffffff = (ucast a :: u64)"
proof -
  have m: "(0xffffffff :: u64) = mask 32" by (simp add: mask_eq_exp_minus_1)
  show ?thesis unfolding m by (rule bit_word_eqI) (auto simp: bit_simps dest: bit_imp_le_length)
qed

lemma clamp32_ucast [simp]: "clamp32 (ucast a) = a"
proof -
  have "ucast (ucast a :: u64) = a" by (rule bit_word_eqI) (auto simp: bit_simps)
  then show ?thesis by (simp add: clamp32_def mask_ucast)
qed

lemma byte_less_0x80: "(ucast b :: u32) < 0x80 \<longleftrightarrow> \<not> bit b 7" for b :: u8
  by (auto simp: word_less_nat_alt unat_ucast_u8 bit7_iff)

lemma getVarint32_ref: "getVarint32 p = map_option (\<lambda>(n, v). (n, clamp32 v)) (sqlite3GetVarint p)"
proof (cases p rule: byte_top_cases)
  case (high p0 r0) note h0 = this
  show ?thesis
  proof (cases r0 rule: byte_top_cases)
    case (high p1 r1) note h1 = this
    show ?thesis
    proof (cases r1 rule: byte_top_cases)
      case (high p2 r2)
      have "sqlite3GetVarint32 p = (case sqlite3GetVarint p of None \<Rightarrow> None | Some (n, v) \<Rightarrow> Some (n, clamp32 v))"
        using h0 h1 high
        by (simp add: sqlite3GetVarint32_def rd_def and_0x80 high_bit_simps clamp32_def split: option.split)
      then show ?thesis using h0
        by (simp add: getVarint32_def rd_def byte_less_0x80 split: option.split)
    qed (use h0 h1 in \<open>simp_all add: getVarint32_def sqlite3GetVarint32_def byte_less_0x80 getvarint_unfold\<close>)
  qed (use h0 in \<open>simp_all add: getVarint32_def sqlite3GetVarint32_def byte_less_0x80 getvarint_unfold\<close>)
qed (simp_all add: getVarint32_def byte_less_0x80 getvarint_unfold)

subsection \<open>Four-byte big-endian integers\<close>

definition sqlite3Get4byte :: "u8 list \<Rightarrow> u32" where
  "sqlite3Get4byte p = push_bit 24 (ucast (p ! 0)) OR push_bit 16 (ucast (p ! 1)) OR
     push_bit 8 (ucast (p ! 2)) OR ucast (p ! 3)"

definition sqlite3Put4byte :: "u32 \<Rightarrow> u8 list" where
  "sqlite3Put4byte v = [ucast (drop_bit 24 v), ucast (drop_bit 16 v), ucast (drop_bit 8 v), ucast v]"

subsection \<open>Properties\<close>

text \<open>
  C17: the unrolled 64-bit varint reader, with its three partial accumulators and combined
  masks, computes the documented encoding for every byte sequence: seven bits per byte
  and eight from a ninth; and it reads past the buffer only when the reference does.
\<close>

theorem varint_reader_equiv: "sqlite3GetVarint p = varint_ref 0 0 p"
  by (rule sqlite3GetVarint_ref)

text \<open>
  C20: whatever 64-bit value is written with \<open>sqlite3PutVarint\<close>, reading it back, followed
  by any other bytes, returns the value and the number of bytes written, which is 1 to 9.
\<close>

theorem varint_roundtrip:
  "sqlite3GetVarint (sqlite3PutVarint v @ rest) = Some (length (sqlite3PutVarint v), v) \<and>
   1 \<le> length (sqlite3PutVarint v) \<and> length (sqlite3PutVarint v) \<le> 9"
proof -
  have "length (hi_digits v) \<ge> 1" by (simp add: hi_digits_rec[of v])
  then show ?thesis by (simp add: put_fast_path sqlite3GetVarint_ref putVarint64_ref length_put)
qed

text \<open>
  The 32-bit reader, its macro included, returns what the 64-bit reader returns with
  every value above \<open>2\<^sup>3\<^sup>2 - 1\<close> replaced by \<open>0xffffffff\<close>; so a varint of at most
  \<open>2\<^sup>3\<^sup>2 - 1\<close> is read back unchanged.
\<close>

theorem varint32_reader:
  "getVarint32 p = map_option (\<lambda>(n, v). (n, clamp32 v)) (sqlite3GetVarint p) \<and>
   getVarint32 (sqlite3PutVarint (ucast w) @ rest) = Some (length (sqlite3PutVarint (ucast w)), w)"
  by (simp add: getVarint32_ref sqlite3GetVarint_ref put_fast_path putVarint64_ref)

text \<open>
  \<open>sqlite3VarintLen\<close> is the number of bytes \<open>sqlite3PutVarint\<close> writes for every value
  below \<open>2\<^sup>6\<^sup>3\<close>, and 10 instead of the 9 bytes written from \<open>2\<^sup>6\<^sup>3\<close> on.
\<close>

theorem varint_length:
  "sqlite3VarintLen v = (if drop_bit 63 v = 0 then length (sqlite3PutVarint v) else 10) \<and>
   (drop_bit 63 v \<noteq> 0 \<longrightarrow> length (sqlite3PutVarint v) = 9)"
proof -
  have "drop_bit 70 v = 0" by (rule bit_word_eqI) (simp add: bit_simps bit64)
  then have "length (hi_digits v) \<le> 10" using length_hi_digits[of 10 v] by simp
  moreover have "drop_bit 63 v = 0 \<Longrightarrow> length (hi_digits v) \<le> 9" using length_hi_digits[of 9 v] by simp
  moreover have "drop_bit 63 v \<noteq> 0 \<Longrightarrow> 9 < length (hi_digits v)" using length_hi_digits_gt[of 9 v] by simp
  ultimately show ?thesis by (auto simp: sqlite3VarintLen_digits put_fast_path length_put)
qed

theorem varint_length_witness:
  "drop_bit 63 (2 ^ 63 :: u64) \<noteq> 0 \<and> sqlite3VarintLen (2 ^ 63) = 10 \<and> length (sqlite3PutVarint (2 ^ 63)) = 9"
  using varint_length[of "2 ^ 63"] by simp

text \<open>
  Four-byte integers are stored big-endian, most significant byte first, and read
  back unchanged in both directions.
\<close>

theorem fourbyte_roundtrip:
  "sqlite3Get4byte (sqlite3Put4byte v @ rest) = v \<and>
   sqlite3Put4byte (sqlite3Get4byte [a, b, c, d]) = [a, b, c, d] \<and>
   unat (sqlite3Get4byte [a, b, c, d]) = ((unat a * 256 + unat b) * 256 + unat c) * 256 + unat d"
proof (intro conjI)
  have get: "sqlite3Get4byte [a, b, c, d] =
      push_bit 8 (push_bit 8 (push_bit 8 (ucast a) OR ucast b) OR ucast c) OR ucast d" for a b c d
    unfolding sqlite3Get4byte_def by (simp, rule bit_word_eqI, auto simp: bit_simps)
  show "sqlite3Get4byte (sqlite3Put4byte v @ rest) = v"
    by (rule u32_eqI) (simp add: sqlite3Get4byte_def sqlite3Put4byte_def bit_simps)
  show "sqlite3Put4byte (sqlite3Get4byte [a, b, c, d]) = [a, b, c, d]"
    by (simp add: sqlite3Get4byte_def sqlite3Put4byte_def) (intro conjI u8_eqI; simp add: bit_simps bit8)
  let ?x = "push_bit 8 (ucast a) OR ucast b :: u32" and ?y = "\<lambda>x. push_bit 8 x OR ucast c :: u32"
  have bounds: "unat a < 256" "unat b < 256" "unat c < 256" by (rule unat_u8_less)+
  then have x: "unat ?x = unat a * 256 + unat b"
    by (subst unat_push_byte) (simp_all add: unat_ucast_u8)
  with bounds have y: "unat (?y ?x) = (unat a * 256 + unat b) * 256 + unat c"
    by (subst unat_push_byte) simp_all
  with bounds show "unat (sqlite3Get4byte [a, b, c, d]) = ((unat a * 256 + unat b) * 256 + unat c) * 256 + unat d"
    unfolding get by (subst unat_push_byte) simp_all
qed

end
