(* ===== verification/Rowset.thy ===== *)
theory Rowset
  imports Base "HOL-Library.Tree"
begin

text \<open>
  The set of row identifiers of rowset.c. A \<open>RowSet\<close> collects 64-bit identifiers into
  a linked list; either it hands them out in increasing order (\<open>sqlite3RowSetNext\<close>) or it
  answers membership queries against earlier batches (\<open>sqlite3RowSetTest\<close>), in which case
  each finished batch is turned into a balanced tree of a forest. The list of entries is a
  HOL list, a tree of entries a \<^typ>\<open>'a tree\<close>, the forest the list of its trees; row
  identifiers are only compared, so they are the integers they denote.
\<close>

type_synonym rowid = int

subsection \<open>The data of a RowSet\<close>

text \<open>
  The flag \<open>mallocFailed\<close> of the connection is sticky: once set, every later allocation of
  \<open>sqlite3DbMallocRawNN\<close> fails too. The chunks are counted, not linked.
\<close>

record rowset =
  mallocFailed :: bool
  allocs :: oom
  nChunk :: nat
  pEntry :: "rowid list"
  pLast :: "rowid option"
  pForest :: "rowid tree list"
  nFresh :: u16
  rsFlags :: u16
  iBatch :: int

definition ROWSET_SORTED :: u16 where "ROWSET_SORTED = 1"
definition ROWSET_NEXT :: u16 where "ROWSET_NEXT = 2"

definition sizeof_RowSet :: nat where "sizeof_RowSet = 56"
definition sizeof_RowSetEntry :: nat where "sizeof_RowSetEntry = 24"
definition ROWSET_ENTRY_PER_CHUNK :: u16 where
  "ROWSET_ENTRY_PER_CHUNK = of_nat ((1024 - 8) div sizeof_RowSetEntry)"

text \<open>\<open>N\<close> is the size of the caller's buffer; the surplus holds the first entries.\<close>

definition sqlite3RowSetInit :: "bool \<Rightarrow> oom \<Rightarrow> nat \<Rightarrow> rowset" where
  "sqlite3RowSetInit failed orc N =
     \<lparr>mallocFailed = failed, allocs = orc, nChunk = 0, pEntry = [], pLast = None, pForest = [],
      nFresh = of_nat ((N - sizeof_RowSet) div sizeof_RowSetEntry),
      rsFlags = ROWSET_SORTED, iBatch = 0\<rparr>"

definition sqlite3RowSetClear :: "rowset \<Rightarrow> rowset" where
  "sqlite3RowSetClear p = p\<lparr>nChunk := 0, nFresh := 0, pEntry := [], pLast := None,
     pForest := [], rsFlags := ROWSET_SORTED\<rparr>"

definition sqlite3DbMallocRawNN :: "rowset \<Rightarrow> bool \<times> rowset" where
  "sqlite3DbMallocRawNN p =
     (if mallocFailed p then (False, p)
      else case malloc_step (allocs p) of
        (ok, orc) \<Rightarrow> (ok, p\<lparr>allocs := orc, mallocFailed := \<not> ok\<rparr>))"

definition rowSetEntryAlloc :: "rowset \<Rightarrow> bool \<times> rowset" where
  "rowSetEntryAlloc p =
     (if nFresh p = 0 then
        (case sqlite3DbMallocRawNN p of
           (False, p) \<Rightarrow> (False, p)
         | (True, p) \<Rightarrow>
             (True, p\<lparr>nChunk := nChunk p + 1, nFresh := ROWSET_ENTRY_PER_CHUNK - 1\<rparr>))
      else (True, p\<lparr>nFresh := nFresh p - 1\<rparr>))"

definition sqlite3RowSetInsert :: "rowset \<Rightarrow> rowid \<Rightarrow> rowset" where
  "sqlite3RowSetInsert p rowid =
     (case rowSetEntryAlloc p of
        (False, p) \<Rightarrow> p
      | (True, p) \<Rightarrow>
         (let p = (case pLast p of
             Some lst \<Rightarrow>
               p\<lparr>rsFlags := (if rowid \<le> lst then rsFlags p AND NOT ROWSET_SORTED else rsFlags p),
                 pEntry := pEntry p @ [rowid]\<rparr>
           | None \<Rightarrow> p\<lparr>pEntry := [rowid]\<rparr>)
          in p\<lparr>pLast := Some rowid\<rparr>))"

subsection \<open>Sorting\<close>

text \<open>An exhausted list is the null pointer \<open>[]\<close>; the other list is then appended whole.\<close>

fun rowSetEntryMerge :: "rowid list \<Rightarrow> rowid list \<Rightarrow> rowid list" where
  "rowSetEntryMerge [] pB = pB"
| "rowSetEntryMerge pA [] = pA"
| "rowSetEntryMerge (a # pA) (b # pB) =
     (if a \<le> b then
        (if a < b then a # rowSetEntryMerge pA (b # pB) else rowSetEntryMerge pA (b # pB))
      else b # rowSetEntryMerge (a # pA) pB)"

text \<open>
  The carry loop of the sort, over the remaining buckets; running past the last bucket
  would write outside \<open>aBucket\<close> and is \<^const>\<open>None\<close>.
\<close>

fun bucket_put :: "rowid list list \<Rightarrow> rowid list \<Rightarrow> rowid list list option" where
  "bucket_put [] pIn = None"
| "bucket_put ([] # bs) pIn = Some (pIn # bs)"
| "bucket_put (b # bs) pIn =
     (case bucket_put bs (rowSetEntryMerge b pIn) of
        None \<Rightarrow> None
      | Some bs \<Rightarrow> Some ([] # bs))"

fun bucket_fill :: "rowid list list \<Rightarrow> rowid list \<Rightarrow> rowid list list option" where
  "bucket_fill bs [] = Some bs"
| "bucket_fill bs (v # pIn) =
     (case bucket_put bs [v] of None \<Rightarrow> None | Some bs \<Rightarrow> bucket_fill bs pIn)"

fun bucket_collect :: "rowid list \<Rightarrow> rowid list list \<Rightarrow> rowid list" where
  "bucket_collect pIn [] = pIn"
| "bucket_collect pIn (b # bs) =
     bucket_collect
       (if b = [] then pIn else if pIn = [] then b else rowSetEntryMerge pIn b) bs"

definition rowSetEntrySort :: "rowid list \<Rightarrow> rowid list option" where
  "rowSetEntrySort pIn =
     (case bucket_fill (replicate 40 []) pIn of
        None \<Rightarrow> None
      | Some bs \<Rightarrow> Some (bucket_collect (hd bs) (tl bs)))"

subsection \<open>Trees\<close>

fun rowSetTreeToList :: "rowid tree \<Rightarrow> rowid list" where
  "rowSetTreeToList Leaf = []"
| "rowSetTreeToList (Node l v r) =
     (if l = Leaf then [v] else rowSetTreeToList l @ [v])
     @ (if r = Leaf then [] else rowSetTreeToList r)"

fun rowSetNDeepTree :: "rowid list \<Rightarrow> nat \<Rightarrow> rowid tree \<times> rowid list" where
  "rowSetNDeepTree ppList iDepth =
     (if ppList = [] then (Leaf, [])
      else if 1 < iDepth then
        (case rowSetNDeepTree ppList (iDepth - 1) of
           (pLeft, []) \<Rightarrow> (pLeft, [])
         | (pLeft, v # ppList) \<Rightarrow>
             (case rowSetNDeepTree ppList (iDepth - 1) of
                (pRight, ppList) \<Rightarrow> (Node pLeft v pRight, ppList)))
      else (Node Leaf (hd ppList) Leaf, tl ppList))"

declare rowSetNDeepTree.simps [simp del]

lemma n_deep_tree_length:
  "length (snd (rowSetNDeepTree ppList iDepth)) \<le> length ppList"
proof (induction ppList iDepth rule: rowSetNDeepTree.induct)
  case (1 ppList iDepth)
  show ?case
  proof (cases "ppList = [] \<or> \<not> 1 < iDepth")
    case True then show ?thesis by (subst rowSetNDeepTree.simps) auto
  next
    case False
    obtain l rest where l: "rowSetNDeepTree ppList (iDepth - 1) = (l, rest)" by fastforce
    have le: "length rest \<le> length ppList" using 1(1) False l by simp
    show ?thesis
    proof (cases rest)
      case Nil
      then show ?thesis using False l by (subst rowSetNDeepTree.simps) simp
    next
      case (Cons v vs)
      then show ?thesis using False l le 1(2)[OF _ _ l[symmetric] Cons]
        by (subst rowSetNDeepTree.simps) (auto split: prod.split)
    qed
  qed
qed

function list_to_tree_loop :: "nat \<Rightarrow> rowid tree \<Rightarrow> rowid list \<Rightarrow> rowid tree" where
  "list_to_tree_loop iDepth p [] = p"
| "list_to_tree_loop iDepth p (v # pList) =
     list_to_tree_loop (iDepth + 1) (Node p v (fst (rowSetNDeepTree pList iDepth)))
       (snd (rowSetNDeepTree pList iDepth))"
  by pat_completeness auto
termination
  by (relation "measure (\<lambda>(d, p, xs). length xs)")
    (auto simp: le_imp_less_Suc n_deep_tree_length)

definition rowSetListToTree :: "rowid list \<Rightarrow> rowid tree" where
  "rowSetListToTree pList = list_to_tree_loop 1 (Node Leaf (hd pList) Leaf) (tl pList)"

subsection \<open>Reading a RowSet\<close>

text \<open>
  \<open>None\<close> in the third component of the result is the row identifier not written because the
  set is empty (return code 0). The outer \<^const>\<open>None\<close> is a sort that overran its buckets.
\<close>

definition sqlite3RowSetNext :: "rowset \<Rightarrow> (rowset \<times> rowid option) option" where
  "sqlite3RowSetNext p =
     (case (if rsFlags p AND ROWSET_NEXT = 0 then
              (case (if rsFlags p AND ROWSET_SORTED = 0 then rowSetEntrySort (pEntry p)
                     else Some (pEntry p)) of
                 None \<Rightarrow> None
               | Some es \<Rightarrow>
                   Some (p\<lparr>pEntry := es,
                     rsFlags := rsFlags p OR (ROWSET_SORTED OR ROWSET_NEXT)\<rparr>))
            else Some p) of
        None \<Rightarrow> None
      | Some p \<Rightarrow>
          (case pEntry p of
             [] \<Rightarrow> Some (p, None)
           | v # es \<Rightarrow>
               (let p = p\<lparr>pEntry := es\<rparr>
                in Some (if es = [] then sqlite3RowSetClear p else p, Some v))))"

text \<open>
  Placing a sorted batch in the forest: the first empty slot receives the tree, every tree
  before it is flattened and merged into the batch; the batch comes back when no slot is free.
\<close>

fun forest_insert :: "rowid list \<Rightarrow> rowid tree list \<Rightarrow> rowid tree list \<times> rowid list option" where
  "forest_insert p [] = ([], Some p)"
| "forest_insert p (t # ts) =
     (if t = Leaf then (rowSetListToTree p # ts, None)
      else (case forest_insert (rowSetEntryMerge (rowSetTreeToList t) p) ts of
              (ts, r) \<Rightarrow> (Leaf # ts, r)))"

fun tree_probe :: "rowid \<Rightarrow> rowid tree \<Rightarrow> bool" where
  "tree_probe iRowid Leaf = False"
| "tree_probe iRowid (Node l v r) =
     (if v < iRowid then tree_probe iRowid r
      else if v > iRowid then tree_probe iRowid l
      else True)"

definition rowset_new_batch :: "rowset \<Rightarrow> rowset option" where
  "rowset_new_batch p =
     (if pEntry p = [] then Some p
      else (case (if rsFlags p AND ROWSET_SORTED = 0 then rowSetEntrySort (pEntry p)
                  else Some (pEntry p)) of
              None \<Rightarrow> None
            | Some es \<Rightarrow>
               (case forest_insert es (pForest p) of
                  (ts, r) \<Rightarrow>
                    (let p = p\<lparr>pForest := ts\<rparr>;
                         p = (case r of
                                None \<Rightarrow> p
                              | Some es \<Rightarrow>
                                  (case rowSetEntryAlloc p of
                                     (False, p) \<Rightarrow> p
                                   | (True, p) \<Rightarrow>
                                       p\<lparr>pForest := pForest p @ [rowSetListToTree es]\<rparr>))
                     in Some (p\<lparr>pEntry := [], pLast := None,
                                rsFlags := rsFlags p OR ROWSET_SORTED\<rparr>)))))"

definition sqlite3RowSetTest :: "rowset \<Rightarrow> int \<Rightarrow> rowid \<Rightarrow> (rowset \<times> bool) option" where
  "sqlite3RowSetTest p batch iRowid =
     (case (if batch \<noteq> iBatch p then
              (case rowset_new_batch p of
                 None \<Rightarrow> None
               | Some p \<Rightarrow> Some (p\<lparr>iBatch := batch\<rparr>))
            else Some p) of
        None \<Rightarrow> None
      | Some p \<Rightarrow> Some (p, \<exists>t \<in> set (pForest p). tree_probe iRowid t))"


subsection \<open>Sorting lemmas\<close>

abbreviation strict :: "rowid list \<Rightarrow> bool" where "strict \<equiv> sorted_wrt (<)"

lemma merge_Nil2 [simp]: "rowSetEntryMerge pA [] = pA"
  by (cases pA) auto

lemma set_merge [simp]: "set (rowSetEntryMerge pA pB) = set pA \<union> set pB"
  by (induction pA pB rule: rowSetEntryMerge.induct) auto

lemma strict_merge: "strict pA \<Longrightarrow> strict pB \<Longrightarrow> strict (rowSetEntryMerge pA pB)"
  by (induction pA pB rule: rowSetEntryMerge.induct) auto

lemma merge_eq_Nil [simp]: "rowSetEntryMerge pA pB = [] \<longleftrightarrow> pA = [] \<and> pB = []"
  using set_merge[of pA pB] by (metis set_empty Un_empty)

text \<open>The buckets count in binary: bucket \<open>i\<close> is occupied when bit \<open>i\<close> of the count is set.\<close>

fun bucket_count :: "rowid list list \<Rightarrow> nat" where
  "bucket_count [] = 0"
| "bucket_count (b # bs) = (if b = [] then 0 else 1) + 2 * bucket_count bs"

definition buckets_ok :: "rowid list list \<Rightarrow> bool" where
  "buckets_ok bs \<longleftrightarrow> (\<forall>b \<in> set bs. strict b)"

lemma bucket_put_spec:
  assumes "buckets_ok bs" "strict pIn" "pIn \<noteq> []" "bucket_count bs + 1 < 2 ^ length bs"
  shows "\<exists>bs'. bucket_put bs pIn = Some bs' \<and> buckets_ok bs' \<and> length bs' = length bs \<and>
    bucket_count bs' = bucket_count bs + 1 \<and> \<Union> (set ` set bs') = set pIn \<union> \<Union> (set ` set bs)"
  using assms
proof (induction bs pIn rule: bucket_put.induct)
  case (3 v va bs pIn)
  then have "bucket_count bs + 1 < 2 ^ length bs" by simp
  with 3 show ?case by (auto simp: buckets_ok_def strict_merge)
qed (auto simp: buckets_ok_def)

lemma bucket_fill_spec:
  assumes "buckets_ok bs" "bucket_count bs + length pIn < 2 ^ length bs"
  shows "\<exists>bs'. bucket_fill bs pIn = Some bs' \<and> buckets_ok bs' \<and> length bs' = length bs \<and>
    \<Union> (set ` set bs') = set pIn \<union> \<Union> (set ` set bs)"
  using assms
proof (induction pIn arbitrary: bs)
  case (Cons v pIn)
  then obtain bs' where b: "bucket_put bs [v] = Some bs'" "buckets_ok bs'" "length bs' = length bs"
      "bucket_count bs' = bucket_count bs + 1" "\<Union> (set ` set bs') = {v} \<union> \<Union> (set ` set bs)"
    using bucket_put_spec[of bs "[v]"] by auto
  with Cons.IH[of bs'] Cons.prems show ?case by auto
qed simp

lemma bucket_collect_spec:
  assumes "strict pIn" "buckets_ok bs"
  shows "strict (bucket_collect pIn bs) \<and> set (bucket_collect pIn bs) = set pIn \<union> \<Union> (set ` set bs)"
  using assms by (induction pIn bs rule: bucket_collect.induct) (auto simp: buckets_ok_def strict_merge)

lemma sort_spec:
  assumes "length pIn < 2 ^ 40"
  shows "\<exists>es. rowSetEntrySort pIn = Some es \<and> strict es \<and> set es = set pIn"
proof -
  have c: "bucket_count (replicate n []) = 0" for n by (induction n) auto
  obtain bs where b: "bucket_fill (replicate 40 []) pIn = Some bs" "buckets_ok bs" "length bs = 40"
      "\<Union> (set ` set bs) = set pIn"
    using bucket_fill_spec[of "replicate 40 []" pIn] assms by (auto simp: buckets_ok_def c)
  then obtain b1 bs1 where "bs = b1 # bs1" by (cases bs) auto
  with b bucket_collect_spec[of b1 bs1] show ?thesis
    by (auto simp: rowSetEntrySort_def buckets_ok_def)
qed

subsection \<open>Tree lemmas\<close>

lemma tree_to_list_inorder [simp]: "rowSetTreeToList t = inorder t"
  by (induction t) auto

lemma tree_probe_iff: "bst t \<Longrightarrow> tree_probe v t \<longleftrightarrow> v \<in> set_tree t"
  by (induction t) auto

text \<open>
  A tree of depth \<open>d\<close> consumes the list in order; when something is left over it is the
  complete tree of that depth.
\<close>

lemma n_deep_tree_spec:
  assumes "rowSetNDeepTree ppList iDepth = (t, rest)" "1 \<le> iDepth"
  shows "inorder t @ rest = ppList \<and> height t \<le> iDepth \<and>
    (rest \<noteq> [] \<longrightarrow> length (inorder t) + 1 = 2 ^ iDepth)"
  using assms
proof (induction ppList iDepth arbitrary: t rest rule: rowSetNDeepTree.induct)
  case (1 ppList iDepth)
  consider "ppList = []" | "ppList \<noteq> []" "iDepth = 1" | "ppList \<noteq> []" "1 < iDepth"
    using "1.prems" by linarith
  then show ?case
  proof cases
    case 1 then show ?thesis using "1.prems" by (simp add: rowSetNDeepTree.simps)
  next
    case 2 then show ?thesis using "1.prems" by (auto simp: rowSetNDeepTree.simps)
  next
    case 3
    obtain l vs where l: "rowSetNDeepTree ppList (iDepth - 1) = (l, vs)" by fastforce
    have L: "inorder l @ vs = ppList \<and> height l \<le> iDepth - 1 \<and>
        (vs \<noteq> [] \<longrightarrow> length (inorder l) + 1 = 2 ^ (iDepth - 1))"
      using "1.IH"(1)[OF 3 l] 3 by simp
    show ?thesis
    proof (cases vs)
      case Nil
      have "rowSetNDeepTree ppList iDepth = (l, [])"
        using 3 l Nil by (subst rowSetNDeepTree.simps) simp
      with "1.prems"(1) L Nil show ?thesis by auto
    next
      case (Cons v ws)
      obtain r us where r: "rowSetNDeepTree ws (iDepth - 1) = (r, us)" by fastforce
      have R: "inorder r @ us = ws \<and> height r \<le> iDepth - 1 \<and>
          (us \<noteq> [] \<longrightarrow> length (inorder r) + 1 = 2 ^ (iDepth - 1))"
        using "1.IH"(2)[OF 3 l[symmetric] Cons r] 3 by simp
      have "rowSetNDeepTree ppList iDepth = (Node l v r, us)"
        using 3 l r Cons by (subst rowSetNDeepTree.simps) simp
      then have t: "t = Node l v r" "rest = us" using "1.prems"(1) by simp_all
      have "(2::nat) ^ iDepth = 2 * 2 ^ (iDepth - 1)" using 3 by (cases iDepth) auto
      moreover have "height t \<le> iDepth" using t L R 3 unfolding t(1) height_tree.simps by linarith
      ultimately show ?thesis using t L R Cons by auto
    qed
  qed
qed

lemma list_to_tree_loop_spec:
  assumes "1 \<le> iDepth" "height p \<le> iDepth" "2 ^ iDepth \<le> length (inorder p) + 1"
  shows "inorder (list_to_tree_loop iDepth p pList) = inorder p @ pList \<and>
    2 ^ height (list_to_tree_loop iDepth p pList) \<le> 2 * (length (inorder p) + length pList)"
  using assms
proof (induction iDepth p pList rule: list_to_tree_loop.induct)
  case (1 iDepth p)
  have "(2::nat) ^ height p \<le> 2 ^ iDepth" by (rule power_increasing) (use 1 in auto)
  moreover have "(2::nat) ^ 1 \<le> 2 ^ iDepth" by (rule power_increasing) (use 1 in auto)
  ultimately have "(2::nat) ^ height p \<le> 2 * length (inorder p)"
    using 1(3) unfolding power_one_right by linarith
  then show ?case by simp
next
  case (2 iDepth p v pList)
  obtain r rest where r: "rowSetNDeepTree pList iDepth = (r, rest)" by fastforce
  from n_deep_tree_spec[OF r 2(2)] have R: "inorder r @ rest = pList" "height r \<le> iDepth"
    "rest \<noteq> [] \<longrightarrow> length (inorder r) + 1 = 2 ^ iDepth" by auto
  show ?case
  proof (cases "rest = []")
    case True
    have "(2::nat) ^ height (Node p v r) \<le> 2 ^ (iDepth + 1)"
      by (rule power_increasing) (use 2 R in auto)
    also have "\<dots> \<le> 2 * (length (inorder p) + length (v # pList))" using 2(4) by simp
    finally show ?thesis using r R True by simp
  next
    case False
    then have "2 ^ (iDepth + 1) \<le> length (inorder (Node p v r)) + 1"
      using R 2(4) by simp
    with 2 r R show ?thesis by auto
  qed
qed

lemma list_to_tree_spec:
  assumes "pList \<noteq> []"
  shows "inorder (rowSetListToTree pList) = pList \<and>
    2 ^ height (rowSetListToTree pList) \<le> 2 * length pList"
  using list_to_tree_loop_spec[of 1 "Node Leaf (hd pList) Leaf" "tl pList"] assms
  by (cases pList) (auto simp: rowSetListToTree_def)

lemma list_to_tree_bst: "pList \<noteq> [] \<Longrightarrow> strict pList \<Longrightarrow> bst (rowSetListToTree pList)"
  by (simp add: bst_iff_sorted_wrt_less list_to_tree_spec)

lemma list_to_tree_set: "pList \<noteq> [] \<Longrightarrow> set_tree (rowSetListToTree pList) = set pList"
  by (metis list_to_tree_spec set_inorder)

definition forest_set :: "rowid tree list \<Rightarrow> rowid set" where
  "forest_set ts = \<Union> (set_tree ` set ts)"

lemma forest_insert_spec:
  assumes "strict p" "p \<noteq> []" "\<forall>t \<in> set ts. bst t" "forest_insert p ts = (ts', r)"
  shows "(\<forall>t \<in> set ts'. bst t) \<and> (case r of None \<Rightarrow> forest_set ts' = set p \<union> forest_set ts
    | Some es \<Rightarrow> es \<noteq> [] \<and> strict es \<and> forest_set ts' = {} \<and> set es = set p \<union> forest_set ts)"
  using assms
proof (induction p ts arbitrary: ts' r rule: forest_insert.induct)
  case (2 p t ts)
  show ?case
  proof (cases "t = Leaf")
    case True
    then show ?thesis using 2 by (auto simp: list_to_tree_bst list_to_tree_set forest_set_def)
  next
    case False
    obtain us where u: "forest_insert (rowSetEntryMerge (inorder t) p) ts = (us, r)" "ts' = Leaf # us"
      using 2 False by (auto split: prod.splits)
    have "strict (inorder t)" using 2 by (simp add: bst_iff_sorted_wrt_less)
    then have "strict (rowSetEntryMerge (inorder t) p)" by (rule strict_merge) (use 2 in simp)
    from 2(1)[OF False _ _ _ u(1)[folded tree_to_list_inorder]] this 2 u show ?thesis
      by (auto simp: forest_set_def split: option.splits)
  qed
qed (auto simp: forest_set_def)

subsection \<open>The contract of batched membership\<close>

text \<open>
  What the code generator relies on: insertions collect into the pending batch, a test with a
  new batch number first makes the pending batch visible, and answers from the visible batches.
  After an allocation failure answers may miss elements but never invent one.
\<close>

datatype rowset_op = RInsert rowid | RTest int rowid

fun rowset_spec :: "rowid set \<Rightarrow> rowid set \<Rightarrow> int \<Rightarrow> rowset_op list \<Rightarrow> bool list" where
  "rowset_spec P T b [] = []"
| "rowset_spec P T b (RInsert v # ops) = rowset_spec (insert v P) T b ops"
| "rowset_spec P T b (RTest i v # ops) =
     (if i = b then (v \<in> T) # rowset_spec P T b ops
      else (v \<in> T \<union> P) # rowset_spec {} (T \<union> P) i ops)"

fun run_rowset :: "('s \<Rightarrow> rowid \<Rightarrow> 's) \<Rightarrow> ('s \<Rightarrow> int \<Rightarrow> rowid \<Rightarrow> ('s \<times> bool) option) \<Rightarrow>
    's \<Rightarrow> rowset_op list \<Rightarrow> ('s \<times> bool list) option" where
  "run_rowset ins test s [] = Some (s, [])"
| "run_rowset ins test s (RInsert v # ops) = run_rowset ins test (ins s v) ops"
| "run_rowset ins test s (RTest i v # ops) =
     (case test s i v of None \<Rightarrow> None
      | Some (s, b) \<Rightarrow>
          (case run_rowset ins test s ops of None \<Rightarrow> None | Some (s, bs) \<Rightarrow> Some (s, b # bs)))"

locale batch_set =
  fixes ins :: "'s \<Rightarrow> rowid \<Rightarrow> 's"
    and test :: "'s \<Rightarrow> int \<Rightarrow> rowid \<Rightarrow> ('s \<times> bool) option"
    and pending tested :: "'s \<Rightarrow> rowid set"
    and batch :: "'s \<Rightarrow> int"
    and failed :: "'s \<Rightarrow> bool"
    and ok :: "nat \<Rightarrow> 's \<Rightarrow> bool"
    and cap :: nat
  assumes ins_law: "ok n s \<Longrightarrow> n < cap \<Longrightarrow> ok (Suc n) (ins s v) \<and> batch (ins s v) = batch s \<and>
      tested (ins s v) = tested s \<and> pending (ins s v) \<subseteq> insert v (pending s) \<and>
      (\<not> failed (ins s v) \<longrightarrow> \<not> failed s \<and> pending (ins s v) = insert v (pending s))"
    and test_same: "ok n s \<Longrightarrow> test s (batch s) v = Some (s, v \<in> tested s)"
    and test_new: "ok n s \<Longrightarrow> n \<le> cap \<Longrightarrow> i \<noteq> batch s \<Longrightarrow>
      \<exists>s'. test s i v = Some (s', v \<in> tested s') \<and> ok n s' \<and> batch s' = i \<and> pending s' = {} \<and>
        tested s' \<subseteq> tested s \<union> pending s \<and>
        (\<not> failed s' \<longrightarrow> \<not> failed s \<and> tested s' = tested s \<union> pending s)"
begin

lemma run_rowset_law:
  assumes "ok n s" "n + length ops \<le> cap" "pending s \<subseteq> P" "tested s \<subseteq> T"
    "\<not> failed s \<longrightarrow> pending s = P \<and> tested s = T"
  shows "\<exists>s' bs. run_rowset ins test s ops = Some (s', bs) \<and> (\<exists>m. ok m s') \<and>
    list_all2 (\<longrightarrow>) bs (rowset_spec P T (batch s) ops) \<and>
    (\<not> failed s' \<longrightarrow> \<not> failed s \<and> bs = rowset_spec P T (batch s) ops)"
  using assms
proof (induction ops arbitrary: s n P T)
  case (Cons x ops)
  show ?case
  proof (cases x)
    case (RInsert v)
    have "ok (Suc n) (ins s v) \<and> batch (ins s v) = batch s \<and>
      tested (ins s v) = tested s \<and> pending (ins s v) \<subseteq> insert v (pending s) \<and>
      (\<not> failed (ins s v) \<longrightarrow> \<not> failed s \<and> pending (ins s v) = insert v (pending s))"
      using ins_law Cons.prems by simp
    with Cons.IH[of "Suc n" "ins s v" "insert v P" T] Cons.prems RInsert show ?thesis by fastforce
  next
    case (RTest i v)
    show ?thesis
    proof (cases "i = batch s")
      case True
      with Cons.IH[of n s P T] Cons.prems RTest test_same[of n s v] show ?thesis by fastforce
    next
      case False
      obtain s1 where 1: "test s i v = Some (s1, v \<in> tested s1)" "ok n s1" "batch s1 = i"
        "pending s1 = {}" "tested s1 \<subseteq> tested s \<union> pending s"
        "\<not> failed s1 \<longrightarrow> \<not> failed s \<and> tested s1 = tested s \<union> pending s"
        using test_new[of n s i v] False Cons.prems by auto
      then obtain s2 bs where "run_rowset ins test s1 ops = Some (s2, bs)" "\<exists>m. ok m s2"
        "list_all2 (\<longrightarrow>) bs (rowset_spec {} (T \<union> P) i ops)"
        "\<not> failed s2 \<longrightarrow> \<not> failed s1 \<and> bs = rowset_spec {} (T \<union> P) i ops"
        using Cons.IH[of n s1 "{}" "T \<union> P"] Cons.prems by fastforce
      with 1 Cons.prems RTest False show ?thesis by auto
    qed
  qed
qed auto

end

subsection \<open>The RowSet implements the contract\<close>

definition rowset_ok :: "nat \<Rightarrow> rowset \<Rightarrow> bool" where
  "rowset_ok n p \<longleftrightarrow> rsFlags p \<in> {0, ROWSET_SORTED} \<and>
     (rsFlags p = ROWSET_SORTED \<longrightarrow> strict (pEntry p)) \<and>
     pLast p = (if pEntry p = [] then None else Some (last (pEntry p))) \<and>
     length (pEntry p) \<le> n \<and> (\<forall>t \<in> set (pForest p). bst t)"

lemmas rowset_flags = ROWSET_SORTED_def ROWSET_NEXT_def

lemma entry_alloc_spec:
  assumes "rowSetEntryAlloc p = (b, q)"
  shows "pEntry q = pEntry p \<and> pLast q = pLast p \<and> pForest q = pForest p \<and>
    rsFlags q = rsFlags p \<and> iBatch q = iBatch p \<and>
    (\<not> mallocFailed q \<longrightarrow> \<not> mallocFailed p \<and> b)"
  using assms unfolding rowSetEntryAlloc_def sqlite3DbMallocRawNN_def
  by (auto split: if_splits prod.splits bool.splits)

lemma strict_snoc: "strict xs \<Longrightarrow> xs = [] \<or> last xs < v \<Longrightarrow> strict (xs @ [v])"
  by (cases xs rule: rev_cases) (auto simp: sorted_wrt_append intro: less_trans)

lemma rowset_insert_spec:
  assumes "rowset_ok n p"
  shows "rowset_ok (Suc n) (sqlite3RowSetInsert p v) \<and>
    iBatch (sqlite3RowSetInsert p v) = iBatch p \<and> pForest (sqlite3RowSetInsert p v) = pForest p \<and>
    set (pEntry (sqlite3RowSetInsert p v)) \<subseteq> insert v (set (pEntry p)) \<and>
    (\<not> mallocFailed (sqlite3RowSetInsert p v) \<longrightarrow> \<not> mallocFailed p \<and>
       set (pEntry (sqlite3RowSetInsert p v)) = insert v (set (pEntry p)))"
proof -
  obtain b q where q: "rowSetEntryAlloc p = (b, q)" by fastforce
  note e = entry_alloc_spec[OF q]
  from assms have ok: "rsFlags p = 0 \<or> rsFlags p = 1" "rsFlags p = 1 \<Longrightarrow> strict (pEntry p)"
    "pLast p = (if pEntry p = [] then None else Some (last (pEntry p)))"
    "length (pEntry p) \<le> n" "\<forall>t \<in> set (pForest p). bst t"
    by (auto simp: rowset_ok_def rowset_flags)
  show ?thesis
  proof (cases "b \<and> pEntry p \<noteq> []")
    case False
    then show ?thesis using ok q e
      by (auto simp: sqlite3RowSetInsert_def rowset_ok_def rowset_flags split: bool.splits)
  next
    case True
    then have s: "sqlite3RowSetInsert p v = q\<lparr>
        rsFlags := (if v \<le> last (pEntry p) then rsFlags p AND NOT 1 else rsFlags p),
        pEntry := pEntry p @ [v], pLast := Some v\<rparr>"
      using ok(3) q e by (simp add: sqlite3RowSetInsert_def rowset_flags)
    have "rsFlags p AND NOT 1 = 0" using ok(1) by auto
    then show ?thesis using ok e True
      by (auto simp: s rowset_ok_def rowset_flags intro: strict_snoc)
  qed
qed

lemma rowset_new_batch_spec:
  assumes "rowset_ok n p" "n < 2 ^ 40"
  shows "\<exists>q. rowset_new_batch p = Some q \<and> rowset_ok n q \<and> pEntry q = [] \<and>
    forest_set (pForest q) \<subseteq> forest_set (pForest p) \<union> set (pEntry p) \<and>
    (\<not> mallocFailed q \<longrightarrow> \<not> mallocFailed p \<and>
       forest_set (pForest q) = forest_set (pForest p) \<union> set (pEntry p))"
proof (cases "pEntry p = []")
  case True
  then show ?thesis using assms by (auto simp: rowset_new_batch_def)
next
  case False
  from assms have ok: "rsFlags p = 0 \<or> rsFlags p = 1" "rsFlags p = 1 \<Longrightarrow> strict (pEntry p)"
    "length (pEntry p) < 2 ^ 40" "\<forall>t \<in> set (pForest p). bst t"
    by (auto simp: rowset_ok_def rowset_flags)
  obtain es where es: "(if rsFlags p AND ROWSET_SORTED = 0 then rowSetEntrySort (pEntry p)
      else Some (pEntry p)) = Some es" "strict es" "set es = set (pEntry p)"
    using sort_spec[OF ok(3)] ok(1,2) by (auto simp: rowset_flags)
  then have ne: "es \<noteq> []" using False by auto
  obtain ts r where f: "forest_insert es (pForest p) = (ts, r)" by fastforce
  note F = forest_insert_spec[OF es(2) ne ok(4) f]
  have fl: "rsFlags p OR 1 = 1" using ok(1) by auto
  show ?thesis
  proof (cases r)
    case None
    then show ?thesis using es(1,3) False f F ok fl
      by (auto simp: rowset_new_batch_def rowset_ok_def rowset_flags)
  next
    case (Some us)
    obtain b q where q: "rowSetEntryAlloc (p\<lparr>pForest := ts\<rparr>) = (b, q)" by fastforce
    have u: "bst (rowSetListToTree us)" "set_tree (rowSetListToTree us) = set us"
      using F Some by (auto simp: list_to_tree_bst list_to_tree_set)
    have "forest_set (ts @ [rowSetListToTree us]) = forest_set (pForest p) \<union> set (pEntry p)"
      using F Some u es(3) by (auto simp: forest_set_def)
    with es(1) False f F ok fl Some q entry_alloc_spec[OF q] u show ?thesis
      by (cases b) (auto simp: rowset_new_batch_def rowset_ok_def rowset_flags)
  qed
qed

lemma rowset_probe: "rowset_ok n p \<Longrightarrow>
    (\<exists>t \<in> set (pForest p). tree_probe v t) \<longleftrightarrow> v \<in> forest_set (pForest p)"
  by (auto simp: rowset_ok_def forest_set_def tree_probe_iff)

interpretation rs: batch_set sqlite3RowSetInsert sqlite3RowSetTest "\<lambda>p. set (pEntry p)"
  "\<lambda>p. forest_set (pForest p)" iBatch mallocFailed rowset_ok "2 ^ 40 - 1"
proof (unfold_locales, goal_cases)
  case (1 n s v)
  then show ?case using rowset_insert_spec[of n s v] by simp
next
  case (2 n s v)
  then show ?case by (simp add: sqlite3RowSetTest_def rowset_probe)
next
  case (3 n s i v)
  have "n < 2 ^ 40" using 3 by simp
  from rowset_new_batch_spec[OF 3(1) this] obtain q where
    q: "rowset_new_batch s = Some q" "rowset_ok n q" "pEntry q = []"
    "forest_set (pForest q) \<subseteq> forest_set (pForest s) \<union> set (pEntry s)"
    "\<not> mallocFailed q \<longrightarrow> \<not> mallocFailed s \<and>
       forest_set (pForest q) = forest_set (pForest s) \<union> set (pEntry s)" by blast
  then have "rowset_ok n (q\<lparr>iBatch := i\<rparr>)" by (simp add: rowset_ok_def)
  with q 3 rowset_probe[OF q(2), of v] show ?case
    by (intro exI[of _ "q\<lparr>iBatch := i\<rparr>"]) (simp add: sqlite3RowSetTest_def)
qed

lemma rowset_init_ok: "rowset_ok 0 (sqlite3RowSetInit f orc N)"
  by (simp add: sqlite3RowSetInit_def rowset_ok_def)

text \<open>
  C16: From a fresh RowSet, every sequence of fewer than 2^40 insertions and batched tests runs
  to its end without overrunning the sort buckets. Its answers never claim an element that the
  batch semantics does not have, and they are exactly those of the batch semantics when no
  allocation failed.
\<close>

theorem rowset_history:
  assumes "length ops < 2 ^ 40"
  shows "\<exists>p bs. run_rowset sqlite3RowSetInsert sqlite3RowSetTest (sqlite3RowSetInit f orc N) ops
      = Some (p, bs) \<and>
    list_all2 (\<longrightarrow>) bs (rowset_spec {} {} 0 ops) \<and>
    (\<not> mallocFailed p \<longrightarrow> bs = rowset_spec {} {} 0 ops)"
proof -
  have "pEntry (sqlite3RowSetInit f orc N) = []" "pForest (sqlite3RowSetInit f orc N) = []"
    "iBatch (sqlite3RowSetInit f orc N) = 0" by (simp_all add: sqlite3RowSetInit_def)
  with rs.run_rowset_law[where ops = ops and P = "{}" and T = "{}", OF rowset_init_ok[of f orc N]] assms
  show ?thesis by (fastforce simp: forest_set_def)
qed

lemma rowset_history_witness:
  "(3::nat) < 2 ^ 40 \<and>
   (\<exists>p. run_rowset sqlite3RowSetInsert sqlite3RowSetTest (sqlite3RowSetInit False [] 56)
      [RInsert 7, RTest 1 7, RTest 2 5] = Some (p, [True, False]))"
  using rowset_history[of "[RInsert 7, RTest 1 7, RTest 2 5]" False "[]" 56]
  by (auto simp: sqlite3RowSetInsert_def rowSetEntryAlloc_def sqlite3RowSetInit_def
      sqlite3RowSetTest_def sqlite3DbMallocRawNN_def sizeof_RowSet_def sizeof_RowSetEntry_def
      rowset_new_batch_def rowset_flags rowSetListToTree_def ROWSET_ENTRY_PER_CHUNK_def)

text \<open>
  The tree built from a batch holds the batch in order, is a search tree when the batch is
  strictly increasing, answers the membership search, and its depth is at most one more than
  the binary logarithm of the number of entries.
\<close>

theorem list_to_tree_balanced:
  assumes "pList \<noteq> []" "sorted_wrt (<) pList"
  shows "rowSetTreeToList (rowSetListToTree pList) = pList \<and>
    (tree_probe v (rowSetListToTree pList) \<longleftrightarrow> v \<in> set pList) \<and>
    2 ^ height (rowSetListToTree pList) \<le> 2 * length pList"
  using assms list_to_tree_spec[OF assms(1)] tree_probe_iff[OF list_to_tree_bst[OF assms]]
  by (simp_all add: list_to_tree_set)

lemma list_to_tree_balanced_witness:
  "rowSetTreeToList (rowSetListToTree [1, 2, 3, 4, 5]) = [1, 2, 3, 4, 5] \<and>
   tree_probe 4 (rowSetListToTree [1, 2, 3, 4, 5])"
  using list_to_tree_balanced[of "[1, 2, 3, 4, 5]" 4] by simp

subsection \<open>Reading in increasing order\<close>

text \<open>The client's loop over \<open>sqlite3RowSetNext\<close>; it needs one step more than there are elements.\<close>

fun rowset_drain :: "nat \<Rightarrow> rowset \<Rightarrow> rowid list option" where
  "rowset_drain 0 p = None"
| "rowset_drain (Suc fuel) p =
     (case sqlite3RowSetNext p of
        None \<Rightarrow> None
      | Some (p, None) \<Rightarrow> Some []
      | Some (p, Some v) \<Rightarrow> map_option ((#) v) (rowset_drain fuel p))"

lemma drain_started:
  assumes "rsFlags p = 3" "length (pEntry p) < fuel"
  shows "rowset_drain fuel p = Some (pEntry p)"
  using assms
proof (induction fuel arbitrary: p)
  case (Suc fuel)
  show ?case
  proof (cases "pEntry p")
    case Nil
    then show ?thesis using Suc.prems by (simp add: sqlite3RowSetNext_def rowset_flags)
  next
    case (Cons v es)
    show ?thesis
    proof (cases "es = []")
      case True
      then obtain k where "fuel = Suc k" using Suc.prems Cons by (cases fuel) auto
      then show ?thesis using Suc.prems Cons True
        by (simp add: sqlite3RowSetNext_def rowset_flags sqlite3RowSetClear_def)
    next
      case False
      then show ?thesis using Suc.prems Cons Suc.IH[of "p\<lparr>pEntry := es\<rparr>"]
        by (simp add: sqlite3RowSetNext_def rowset_flags)
    qed
  qed
qed simp

lemma drain_fresh:
  assumes "rowset_ok n p" "n < 2 ^ 40" "card (set (pEntry p)) < fuel"
  shows "rowset_drain fuel p = Some (sorted_list_of_set (set (pEntry p)))"
proof -
  from assms have fl: "rsFlags p = 0 \<or> rsFlags p = 1" "rsFlags p = 1 \<Longrightarrow> strict (pEntry p)"
    "length (pEntry p) < 2 ^ 40" by (auto simp: rowset_ok_def rowset_flags)
  obtain es where es: "(if rsFlags p AND ROWSET_SORTED = 0 then rowSetEntrySort (pEntry p)
      else Some (pEntry p)) = Some es" "strict es" "set es = set (pEntry p)"
    using sort_spec[OF fl(3)] fl(1,2) by (auto simp: rowset_flags)
  define q where "q = p\<lparr>pEntry := es, rsFlags := 3\<rparr>"
  have or3: "rsFlags p OR 3 = 3" using fl(1) by auto
  have "sqlite3RowSetNext p = sqlite3RowSetNext q"
    using es(1) fl(1) or3 by (auto simp: q_def sqlite3RowSetNext_def rowset_flags)
  then have "rowset_drain fuel p = rowset_drain fuel q" using assms(3) by (cases fuel) simp_all
  moreover have e: "es = sorted_list_of_set (set (pEntry p))"
    using es(2,3) by (metis strict_sorted_equal set_sorted_list_of_set List.finite_set
        strict_sorted_list_of_set)
  moreover have "length es < fuel" using assms(3) e by simp
  ultimately show ?thesis using drain_started[of q fuel] by (simp add: q_def)
qed

lemma insert_all_ok:
  assumes "rowset_ok n p" "\<not> mallocFailed (foldl sqlite3RowSetInsert p vs)"
  shows "rowset_ok (n + length vs) (foldl sqlite3RowSetInsert p vs) \<and> \<not> mallocFailed p \<and>
    set (pEntry (foldl sqlite3RowSetInsert p vs)) = set vs \<union> set (pEntry p)"
  using assms
proof (induction vs arbitrary: n p)
  case (Cons v vs)
  from rowset_insert_spec[OF Cons.prems(1), of v] Cons.IH[of "Suc n" "sqlite3RowSetInsert p v"]
    Cons.prems(2) show ?case by auto
qed simp

text \<open>
  C31: After any insertions into a fresh RowSet, in any order and with duplicates, reading it with
  \<open>sqlite3RowSetNext\<close> gives every inserted identifier once, in increasing order, and then stops.
\<close>

theorem rowset_drain_sorted:
  assumes "length vs < 2 ^ 40"
    and "\<not> mallocFailed (foldl sqlite3RowSetInsert (sqlite3RowSetInit f orc N) vs)"
    and "length vs < fuel"
  shows "rowset_drain fuel (foldl sqlite3RowSetInsert (sqlite3RowSetInit f orc N) vs)
    = Some (sorted_list_of_set (set vs))"
proof -
  have "pEntry (sqlite3RowSetInit f orc N) = []" by (simp add: sqlite3RowSetInit_def)
  with insert_all_ok[OF rowset_init_ok assms(2)] drain_fresh[of "length vs" _ fuel]
    card_length[of vs] assms show ?thesis by simp
qed

lemma rowset_drain_sorted_witness:
  "rowset_drain 5 (foldl sqlite3RowSetInsert (sqlite3RowSetInit False [] 1024) [9, 2, 9, 4])
    = Some [2, 4, 9]"
proof -
  have "\<not> mallocFailed (foldl sqlite3RowSetInsert (sqlite3RowSetInit False [] 1024) [9, 2, 9, 4])"
    by (simp add: sqlite3RowSetInsert_def rowSetEntryAlloc_def sqlite3RowSetInit_def
        sqlite3DbMallocRawNN_def sizeof_RowSet_def sizeof_RowSetEntry_def rowset_flags
        ROWSET_ENTRY_PER_CHUNK_def)
  moreover have s: "sorted_list_of_set (set [9, 2, 9, 4 :: int]) = [2, 4, 9]"
    unfolding sorted_list_of_set_sort_remdups by simp
  ultimately show ?thesis
    using rowset_drain_sorted[of "[9, 2, 9, 4]" False "[]" 1024 5, unfolded s] by simp
qed

end
