(* ===== verification/Ctype.thy ===== *)
theory Ctype
  imports Base
begin

text \<open>
  Characters: the case-folding and character-class tables of global.c and the class macros of
  sqliteInt.h and complete.c, in the ASCII configuration.
\<close>

subsection \<open>Tables\<close>

definition sqlite3UpperToLower :: "u8 list" where
  "sqlite3UpperToLower =
    [0, 1, 2, 3, 4, 5, 6, 7, 8, 9, 10, 11, 12, 13, 14, 15, 16, 17,
     18, 19, 20, 21, 22, 23, 24, 25, 26, 27, 28, 29, 30, 31, 32, 33, 34, 35,
     36, 37, 38, 39, 40, 41, 42, 43, 44, 45, 46, 47, 48, 49, 50, 51, 52, 53,
     54, 55, 56, 57, 58, 59, 60, 61, 62, 63, 64, 97, 98, 99, 100, 101, 102, 103,
     104, 105, 106, 107, 108, 109, 110, 111, 112, 113, 114, 115, 116, 117, 118, 119, 120, 121,
     122, 91, 92, 93, 94, 95, 96, 97, 98, 99, 100, 101, 102, 103, 104, 105, 106, 107,
     108, 109, 110, 111, 112, 113, 114, 115, 116, 117, 118, 119, 120, 121, 122, 123, 124, 125,
     126, 127, 128, 129, 130, 131, 132, 133, 134, 135, 136, 137, 138, 139, 140, 141, 142, 143,
     144, 145, 146, 147, 148, 149, 150, 151, 152, 153, 154, 155, 156, 157, 158, 159, 160, 161,
     162, 163, 164, 165, 166, 167, 168, 169, 170, 171, 172, 173, 174, 175, 176, 177, 178, 179,
     180, 181, 182, 183, 184, 185, 186, 187, 188, 189, 190, 191, 192, 193, 194, 195, 196, 197,
     198, 199, 200, 201, 202, 203, 204, 205, 206, 207, 208, 209, 210, 211, 212, 213, 214, 215,
     216, 217, 218, 219, 220, 221, 222, 223, 224, 225, 226, 227, 228, 229, 230, 231, 232, 233,
     234, 235, 236, 237, 238, 239, 240, 241, 242, 243, 244, 245, 246, 247, 248, 249, 250, 251,
     252, 253, 254, 255]"

definition sqlite3CtypeMap :: "u8 list" where
  "sqlite3CtypeMap =
    [0x00, 0x00, 0x00, 0x00, 0x00, 0x00, 0x00, 0x00,
     0x00, 0x01, 0x01, 0x01, 0x01, 0x01, 0x00, 0x00,
     0x00, 0x00, 0x00, 0x00, 0x00, 0x00, 0x00, 0x00,
     0x00, 0x00, 0x00, 0x00, 0x00, 0x00, 0x00, 0x00,
     0x01, 0x00, 0x80, 0x00, 0x40, 0x00, 0x00, 0x80,
     0x00, 0x00, 0x00, 0x00, 0x00, 0x00, 0x00, 0x00,
     0x0c, 0x0c, 0x0c, 0x0c, 0x0c, 0x0c, 0x0c, 0x0c,
     0x0c, 0x0c, 0x00, 0x00, 0x00, 0x00, 0x00, 0x00,
     0x00, 0x0a, 0x0a, 0x0a, 0x0a, 0x0a, 0x0a, 0x02,
     0x02, 0x02, 0x02, 0x02, 0x02, 0x02, 0x02, 0x02,
     0x02, 0x02, 0x02, 0x02, 0x02, 0x02, 0x02, 0x02,
     0x02, 0x02, 0x02, 0x80, 0x00, 0x00, 0x00, 0x40,
     0x80, 0x2a, 0x2a, 0x2a, 0x2a, 0x2a, 0x2a, 0x22,
     0x22, 0x22, 0x22, 0x22, 0x22, 0x22, 0x22, 0x22,
     0x22, 0x22, 0x22, 0x22, 0x22, 0x22, 0x22, 0x22,
     0x22, 0x22, 0x22, 0x00, 0x00, 0x00, 0x00, 0x00,
     0x40, 0x40, 0x40, 0x40, 0x40, 0x40, 0x40, 0x40,
     0x40, 0x40, 0x40, 0x40, 0x40, 0x40, 0x40, 0x40,
     0x40, 0x40, 0x40, 0x40, 0x40, 0x40, 0x40, 0x40,
     0x40, 0x40, 0x40, 0x40, 0x40, 0x40, 0x40, 0x40,
     0x40, 0x40, 0x40, 0x40, 0x40, 0x40, 0x40, 0x40,
     0x40, 0x40, 0x40, 0x40, 0x40, 0x40, 0x40, 0x40,
     0x40, 0x40, 0x40, 0x40, 0x40, 0x40, 0x40, 0x40,
     0x40, 0x40, 0x40, 0x40, 0x40, 0x40, 0x40, 0x40,
     0x40, 0x40, 0x40, 0x40, 0x40, 0x40, 0x40, 0x40,
     0x40, 0x40, 0x40, 0x40, 0x40, 0x40, 0x40, 0x40,
     0x40, 0x40, 0x40, 0x40, 0x40, 0x40, 0x40, 0x40,
     0x40, 0x40, 0x40, 0x40, 0x40, 0x40, 0x40, 0x40,
     0x40, 0x40, 0x40, 0x40, 0x40, 0x40, 0x40, 0x40,
     0x40, 0x40, 0x40, 0x40, 0x40, 0x40, 0x40, 0x40,
     0x40, 0x40, 0x40, 0x40, 0x40, 0x40, 0x40, 0x40,
     0x40, 0x40, 0x40, 0x40, 0x40, 0x40, 0x40, 0x40]"

definition UpperToLower :: "u8 \<Rightarrow> u8" where
  "UpperToLower c = sqlite3UpperToLower ! unat c"

definition ctype :: "u8 \<Rightarrow> u8" where
  "ctype c = sqlite3CtypeMap ! unat c"

definition sqlite3Isspace :: "u8 \<Rightarrow> bool" where "sqlite3Isspace x \<longleftrightarrow> ctype x AND 0x01 \<noteq> 0"
definition sqlite3Isalnum :: "u8 \<Rightarrow> bool" where "sqlite3Isalnum x \<longleftrightarrow> ctype x AND 0x06 \<noteq> 0"
definition sqlite3Isalpha :: "u8 \<Rightarrow> bool" where "sqlite3Isalpha x \<longleftrightarrow> ctype x AND 0x02 \<noteq> 0"
definition sqlite3Isdigit :: "u8 \<Rightarrow> bool" where "sqlite3Isdigit x \<longleftrightarrow> ctype x AND 0x04 \<noteq> 0"
definition sqlite3Isxdigit :: "u8 \<Rightarrow> bool" where "sqlite3Isxdigit x \<longleftrightarrow> ctype x AND 0x08 \<noteq> 0"
definition sqlite3Isquote :: "u8 \<Rightarrow> bool" where "sqlite3Isquote x \<longleftrightarrow> ctype x AND 0x80 \<noteq> 0"
definition sqlite3Toupper :: "u8 \<Rightarrow> u8" where "sqlite3Toupper x = x AND NOT (ctype x AND 0x20)"
definition IdChar :: "u8 \<Rightarrow> bool" where "IdChar c \<longleftrightarrow> ctype c AND 0x46 \<noteq> 0"

subsection \<open>The tables are what their comments say\<close>

lemma upt_from_0: "2 \<le> n \<Longrightarrow> [0 ..< n] = 0 # 1 # [2 ..< n]"
  by (simp add: upt_conv_Cons numeral_2_eq_2)

lemma UpperToLower_table:
  "sqlite3UpperToLower = map of_nat ([0 ..< 65] @ [97 ..< 123] @ [91 ..< 256])"
  by (simp add: sqlite3UpperToLower_def upt_from_0)

lemma UpperToLower_eq: "UpperToLower c = (if 0x41 \<le> c \<and> c \<le> 0x5a then c + 0x20 else c)"
proof -
  have "of_nat (unat c) = c" "unat c < 256" using unat_u8_less[of c] by simp_all
  moreover have "of_nat (97 + (unat c - 65)) = c + 0x20" if "65 \<le> unat c"
  proof -
    have "97 + (unat c - 65) = unat c + 32" using that by simp
    then show ?thesis by (simp only: of_nat_add) simp
  qed
  ultimately show ?thesis
    by (auto simp: UpperToLower_def UpperToLower_table nth_append word_le_nat_alt
        simp del: upt_rec_numeral)
qed

definition ctype_of :: "nat \<Rightarrow> u8" where
  "ctype_of n =
     (if 9 \<le> n \<and> n \<le> 13 \<or> n = 32 then 0x01
      else if n = 34 \<or> n = 39 \<or> n = 91 \<or> n = 96 then 0x80
      else if n = 36 \<or> n = 95 \<or> 128 \<le> n then 0x40
      else if 48 \<le> n \<and> n \<le> 57 then 0x0c
      else if 65 \<le> n \<and> n \<le> 70 then 0x0a
      else if 71 \<le> n \<and> n \<le> 90 then 0x02
      else if 97 \<le> n \<and> n \<le> 102 then 0x2a
      else if 103 \<le> n \<and> n \<le> 122 then 0x22 else 0)"

lemma ctype_table: "sqlite3CtypeMap = map ctype_of [0 ..< 256]"
  by (simp add: sqlite3CtypeMap_def upt_from_0 ctype_of_def)

lemma ctype_eq: "ctype c = ctype_of (unat c)"
  using unat_u8_less[of c] by (simp add: ctype_def ctype_table del: upt_rec_numeral)

definition ctype_spec :: "u8 \<Rightarrow> bool" where
  "ctype_spec c \<longleftrightarrow>
     (sqlite3Isspace c \<longleftrightarrow> c \<in> {0x09, 0x0a, 0x0b, 0x0c, 0x0d, 0x20}) \<and>
     (sqlite3Isdigit c \<longleftrightarrow> 0x30 \<le> c \<and> c \<le> 0x39) \<and>
     (sqlite3Isalpha c \<longleftrightarrow> 0x41 \<le> c \<and> c \<le> 0x5a \<or> 0x61 \<le> c \<and> c \<le> 0x7a) \<and>
     (sqlite3Isalnum c \<longleftrightarrow> sqlite3Isalpha c \<or> sqlite3Isdigit c) \<and>
     (sqlite3Isxdigit c \<longleftrightarrow> sqlite3Isdigit c \<or> 0x41 \<le> c \<and> c \<le> 0x46 \<or> 0x61 \<le> c \<and> c \<le> 0x66) \<and>
     (sqlite3Isquote c \<longleftrightarrow> c \<in> {0x22, 0x27, 0x5b, 0x60}) \<and>
     (IdChar c \<longleftrightarrow> sqlite3Isalnum c \<or> c = 0x24 \<or> c = 0x5f \<or> 0x80 \<le> c) \<and>
     sqlite3Toupper c = (if 0x61 \<le> c \<and> c \<le> 0x7a then c - 0x20 else c)"

lemma capital: "97 \<le> unat c \<Longrightarrow> unat c \<le> 122 \<Longrightarrow> c AND - 33 = c - 32" for c :: u8
proof -
  assume "97 \<le> unat c" "unat c \<le> 122"
  then have "unat c \<in> set [97 ..< 123]" by (simp del: upt_rec_numeral)
  moreover have "list_all (\<lambda>n. (of_nat n AND - 33 :: u8) = of_nat n - 32) [97 ..< 123]" by simp
  ultimately have "(of_nat (unat c) AND - 33 :: u8) = of_nat (unat c) - 32"
    unfolding list_all_iff by blast
  then show ?thesis by simp
qed

lemma sqlite3Toupper_eq: "sqlite3Toupper c = (if 0x61 \<le> c \<and> c \<le> 0x7a then c - 0x20 else c)"
  unfolding sqlite3Toupper_def ctype_eq ctype_of_def by (simp add: word_le_nat_alt capital)

lemma isspace_iff: "sqlite3Isspace c \<longleftrightarrow> c \<in> {0x09, 0x0a, 0x0b, 0x0c, 0x0d, 0x20}"
  unfolding sqlite3Isspace_def ctype_eq ctype_of_def by (simp add: word_unat_eq_iff) presburger

lemma isdigit_iff: "sqlite3Isdigit c \<longleftrightarrow> 0x30 \<le> c \<and> c \<le> 0x39"
  unfolding sqlite3Isdigit_def ctype_eq ctype_of_def by (simp add: word_le_nat_alt)

lemma isalpha_iff: "sqlite3Isalpha c \<longleftrightarrow> 0x41 \<le> c \<and> c \<le> 0x5a \<or> 0x61 \<le> c \<and> c \<le> 0x7a"
  unfolding sqlite3Isalpha_def ctype_eq ctype_of_def by (simp add: word_le_nat_alt) linarith

lemma isalnum_iff: "sqlite3Isalnum c \<longleftrightarrow> sqlite3Isalpha c \<or> sqlite3Isdigit c"
  unfolding sqlite3Isalnum_def sqlite3Isalpha_def sqlite3Isdigit_def ctype_eq ctype_of_def by simp

lemma isxdigit_iff:
  "sqlite3Isxdigit c \<longleftrightarrow> sqlite3Isdigit c \<or> 0x41 \<le> c \<and> c \<le> 0x46 \<or> 0x61 \<le> c \<and> c \<le> 0x66"
  unfolding sqlite3Isxdigit_def isdigit_iff ctype_eq ctype_of_def by (simp add: word_le_nat_alt)

lemma isquote_iff: "sqlite3Isquote c \<longleftrightarrow> c \<in> {0x22, 0x27, 0x5b, 0x60}"
  unfolding sqlite3Isquote_def ctype_eq ctype_of_def by (simp add: word_unat_eq_iff)

lemma IdChar_iff: "IdChar c \<longleftrightarrow> sqlite3Isalnum c \<or> c = 0x24 \<or> c = 0x5f \<or> 0x80 \<le> c"
  unfolding isalnum_iff isalpha_iff isdigit_iff IdChar_def ctype_eq ctype_of_def
  by (simp add: word_le_nat_alt word_unat_eq_iff) linarith

text \<open>
  For every byte, the class macros over the table \<open>sqlite3CtypeMap\<close> are the ASCII classes
  they stand for, identifier characters are the alphanumerics, \<open>$\<close>, \<open>_\<close> and all non-ASCII
  bytes, the two case conversions are the ASCII ones, and folding undoes capitalising.
\<close>

theorem ctype_tables:
  "ctype_spec c \<and> UpperToLower c = (if 0x41 \<le> c \<and> c \<le> 0x5a then c + 0x20 else c) \<and>
   UpperToLower (sqlite3Toupper c) = UpperToLower c"
proof -
  have "UpperToLower (sqlite3Toupper c) = UpperToLower c"
    unfolding sqlite3Toupper_eq UpperToLower_eq by (auto simp: word_le_nat_alt unat_sub)
  then show ?thesis
    unfolding ctype_spec_def UpperToLower_eq
    by (simp only: isspace_iff isdigit_iff isalpha_iff isalnum_iff isxdigit_iff isquote_iff
        IdChar_iff sqlite3Toupper_eq simp_thms)
qed


end
