(* ===== verification/Cstring.thy ===== *)
theory Cstring
  imports Ctype
begin

text \<open>
  The string helpers of util.c: comparison that ignores case, removal of SQL quotes,
  hexadecimal literals. A C string is the list of its bytes without the terminating NUL;
  reading at the end of the list gives the NUL.
\<close>

subsection \<open>Reading a string\<close>

text \<open>The character at the head of a string, the NUL when the string is exhausted.\<close>

fun ch :: "u8 list \<Rightarrow> u8" where
  "ch [] = 0"
| "ch (c # z) = c"

lemma ch_tl: "ch (drop n z) = (if n < length z then z ! n else 0)"
  by (cases "drop n z") (auto simp: hd_drop_conv_nth[symmetric])

definition sqlite3Strlen30 :: "u8 list option \<Rightarrow> int" where
  "sqlite3Strlen30 z = (case z of None \<Rightarrow> 0 | Some z \<Rightarrow> 0x3fffffff AND int (length z))"

subsection \<open>Comparison that ignores case\<close>

text \<open>The loop stops on the NUL of the left string or on the first difference.\<close>

function sqlite3StrICmp :: "u8 list \<Rightarrow> u8 list \<Rightarrow> int" where
  "sqlite3StrICmp a b =
     (let c = uint (UpperToLower (ch a)) - uint (UpperToLower (ch b))
      in if c \<noteq> 0 \<or> ch a = 0 then c else sqlite3StrICmp (tl a) (tl b))"
  by pat_completeness auto
termination
proof (relation "measure (\<lambda>(a, b). length a)", simp, goal_cases)
  case (1 a b c) then show ?case by (cases a) auto
qed

declare sqlite3StrICmp.simps [simp del]

definition sqlite3_stricmp :: "u8 list option \<Rightarrow> u8 list option \<Rightarrow> int" where
  "sqlite3_stricmp zLeft zRight =
     (case zLeft of
        None \<Rightarrow> (if zRight \<noteq> None then - 1 else 0)
      | Some a \<Rightarrow> (case zRight of None \<Rightarrow> 1 | Some b \<Rightarrow> sqlite3StrICmp a b))"

text \<open>\<open>N\<close> is decremented by the loop test even when it fails; the result reads it afterwards.\<close>

function strnicmp_loop :: "u8 list \<Rightarrow> u8 list \<Rightarrow> int \<Rightarrow> int" where
  "strnicmp_loop a b N =
     (if N > 0 \<and> ch a \<noteq> 0 \<and> UpperToLower (ch a) = UpperToLower (ch b)
      then strnicmp_loop (tl a) (tl b) (N - 1)
      else if N - 1 < 0 then 0
      else uint (UpperToLower (ch a)) - uint (UpperToLower (ch b)))"
  by pat_completeness auto
termination
proof (relation "measure (\<lambda>(a, b, N). length a)", simp, goal_cases)
  case (1 a b N) then show ?case by (cases a) auto
qed

declare strnicmp_loop.simps [simp del]

definition sqlite3_strnicmp :: "u8 list option \<Rightarrow> u8 list option \<Rightarrow> int \<Rightarrow> int" where
  "sqlite3_strnicmp zLeft zRight N =
     (case zLeft of
        None \<Rightarrow> (if zRight \<noteq> None then - 1 else 0)
      | Some a \<Rightarrow> (case zRight of None \<Rightarrow> 1 | Some b \<Rightarrow> strnicmp_loop a b N))"

subsection \<open>Removing quotes\<close>

text \<open>
  The copying loop of \<open>sqlite3Dequote\<close>, from the character after the opening quote; it
  returns what is written before the final NUL. Reaching the NUL of the input is the failing
  assertion \<open>assert( z[i] )\<close> and is \<^const>\<open>None\<close>.
\<close>

fun dequote_loop :: "u8 \<Rightarrow> u8 list \<Rightarrow> u8 list option" where
  "dequote_loop quote [] = None"
| "dequote_loop quote (c # z) =
     (if c = quote then
        (case z of
           c' # z' \<Rightarrow> if c' = quote then map_option ((#) quote) (dequote_loop quote z') else Some []
         | [] \<Rightarrow> Some [])
      else map_option ((#) c) (dequote_loop quote z))"

definition sqlite3Dequote :: "u8 list \<Rightarrow> u8 list option" where
  "sqlite3Dequote z =
     (let quote = ch z
      in if \<not> sqlite3Isquote quote then Some z
         else dequote_loop (if quote = 0x5b then 0x5d else quote) (tl z))"

subsection \<open>Hexadecimal literals\<close>

text \<open>\<open>h\<close> is the character code as an \<open>int\<close>; the assertion is a precondition.\<close>

definition sqlite3HexToInt :: "u8 \<Rightarrow> u8" where
  "sqlite3HexToInt c =
     (let h = sint c; h = h + 9 * (1 AND drop_bit 6 h) in word_of_int (h AND 0xf))"

text \<open>
  The blob without its terminating NUL; \<^const>\<open>None\<close> when the allocation fails. The loop
  writes byte \<open>i/2\<close> for the even \<open>i\<close> below \<open>n-1\<close>.
\<close>

fun hex_loop :: "u8 list \<Rightarrow> int \<Rightarrow> u8 list" where
  "hex_loop (a # b # z) n =
     (if 0 < n then (push_bit 4 (sqlite3HexToInt a) OR sqlite3HexToInt b) # hex_loop z (n - 2) else [])"
| "hex_loop z n = []"

definition sqlite3HexToBlob :: "oom \<Rightarrow> u8 list \<Rightarrow> int \<Rightarrow> u8 list option \<times> oom" where
  "sqlite3HexToBlob m z n =
     (case malloc_step m of
        (False, m) \<Rightarrow> (None, m)
      | (True, m) \<Rightarrow> (Some (hex_loop z (n - 1)), m))"

subsection \<open>Comparison is a linear order on folded strings\<close>

lemma fold_0 [simp]: "UpperToLower c = 0 \<longleftrightarrow> c = 0" "UpperToLower 0 = 0"
  by (auto simp: UpperToLower_eq word_unat_eq_iff word_le_nat_alt unat_word_ariths)

definition fold_less :: "(u8 \<times> u8) set" where "fold_less = {(x, y). x < y}"

lemma int_unat_sub_0: "uint x - uint y = 0 \<longleftrightarrow> x = y" for x y :: u8
  by (simp add: word_uint_eq_iff)

lemma uint_inj: "uint x = uint y \<longleftrightarrow> x = y" for x y :: u8
  by (simp add: word_uint_eq_iff)

lemma uint_pos: "0 < uint x \<longleftrightarrow> x \<noteq> 0" for x :: u8
  by (metis uint_0_iff uint_lt_0 linorder_neqE)

lemma StrICmp_Nil: "sqlite3StrICmp [] b = - uint (UpperToLower (ch b))"
  by (simp add: sqlite3StrICmp.simps[of "[]"])

lemma StrICmp_Cons:
  assumes "c \<noteq> 0"
  shows "sqlite3StrICmp (c # a) b =
    (if UpperToLower c = UpperToLower (ch b) then sqlite3StrICmp a (tl b)
     else uint (UpperToLower c) - uint (UpperToLower (ch b)))"
  using assms by (simp add: sqlite3StrICmp.simps[of "c # a"] uint_inj Let_def)

lemma ch_eq_0: "0 \<notin> set b \<Longrightarrow> ch b = 0 \<longleftrightarrow> b = []"
  by (cases b) auto

lemma StrICmp_spec:
  assumes "0 \<notin> set a" "0 \<notin> set b"
  shows "(sqlite3StrICmp a b = 0 \<longleftrightarrow> map UpperToLower a = map UpperToLower b) \<and>
    (sqlite3StrICmp a b < 0 \<longleftrightarrow> (map UpperToLower a, map UpperToLower b) \<in> lexord fold_less)"
  using assms
proof (induction a arbitrary: b)
  case Nil
  then show ?case by (cases b) (auto simp: StrICmp_Nil uint_0_iff uint_pos)
next
  case (Cons c a)
  show ?case
  proof (cases b)
    case Nil
    then show ?thesis using Cons.prems
      by (auto simp: StrICmp_Cons uint_0_iff uint_pos)
  next
    case (Cons d b')
    with Cons.IH[of b'] Cons.prems show ?thesis
      by (auto simp: StrICmp_Cons fold_less_def uint_inj word_less_def)
  qed
qed

lemma strnicmp_take:
  assumes "0 \<notin> set a" "0 \<notin> set b"
  shows "strnicmp_loop a b (int n) = sqlite3StrICmp (take n a) (take n b)"
  using assms
proof (induction a arbitrary: b n)
  case Nil
  then show ?case
    by (cases n; cases b) (simp_all add: strnicmp_loop.simps[of "[]"] StrICmp_Nil)
next
  case (Cons c a)
  show ?case
  proof (cases n)
    case 0
    then show ?thesis by (simp add: strnicmp_loop.simps[of "c # a"] StrICmp_Nil)
  next
    case (Suc m)
    have "strnicmp_loop (c # a) b (int n) = (if UpperToLower c = UpperToLower (ch b)
        then strnicmp_loop a (tl b) (int m)
        else uint (UpperToLower c) - uint (UpperToLower (ch b)))"
      using Cons.prems Suc by (simp add: strnicmp_loop.simps[of "c # a"])
    moreover have "sqlite3StrICmp (take n (c # a)) (take n b) =
        (if UpperToLower c = UpperToLower (ch b) then sqlite3StrICmp (take m a) (take m (tl b))
         else uint (UpperToLower c) - uint (UpperToLower (ch b)))"
      using Cons.prems Suc by (cases b) (simp_all add: StrICmp_Cons)
    moreover have "0 \<notin> set (tl b)" using Cons.prems by (cases b) auto
    ultimately show ?thesis using Cons.IH[of "tl b" m] Cons.prems by simp
  qed
qed

text \<open>
  On NUL-terminated strings \<open>sqlite3StrICmp\<close> is zero exactly when the case-folded strings
  are equal and negative exactly when the left one comes first in the lexicographic order of
  folded bytes; \<open>sqlite3_strnicmp\<close> with bound \<open>n\<close> compares the first \<open>n\<close> bytes the same way.
\<close>

theorem stricmp_order:
  assumes "0 \<notin> set a" "0 \<notin> set b"
  shows "(sqlite3StrICmp a b = 0 \<longleftrightarrow> map UpperToLower a = map UpperToLower b) \<and>
    (sqlite3StrICmp a b < 0 \<longleftrightarrow> (map UpperToLower a, map UpperToLower b) \<in> lexord fold_less) \<and>
    sqlite3_strnicmp (Some a) (Some b) (int n) = sqlite3StrICmp (take n a) (take n b)"
  using StrICmp_spec[OF assms] strnicmp_take[OF assms] by (simp add: sqlite3_strnicmp_def)

lemma stricmp_order_witness:
  "sqlite3StrICmp [0x45, 0x6e, 0x44] [0x65, 0x4e, 0x64] = 0 \<and>
   sqlite3_strnicmp (Some [0x45, 0x6e, 0x44]) (Some [0x65, 0x4e, 0x64]) 2 = 0"
  using stricmp_order[of "[0x45, 0x6e, 0x44]" "[0x65, 0x4e, 0x64]" 2]
    stricmp_order[of "[0x45, 0x6e]" "[0x65, 0x4e]" 2]
  by (simp add: UpperToLower_eq)

subsection \<open>Quoting and unquoting\<close>

text \<open>An SQL-quoted string: the closing quote is doubled inside.\<close>

definition close_quote :: "u8 \<Rightarrow> u8" where
  "close_quote q = (if q = 0x5b then 0x5d else q)"

definition sql_quote :: "u8 \<Rightarrow> u8 list \<Rightarrow> u8 list" where
  "sql_quote q s =
     q # concat (map (\<lambda>c. if c = close_quote q then [c, c] else [c]) s) @ [close_quote q]"

lemma dequote_quoted:
  "ch rest \<noteq> q \<or> rest = [] \<Longrightarrow>
   dequote_loop q (concat (map (\<lambda>c. if c = q then [c, c] else [c]) s) @ q # rest) = Some s"
  by (induction s) (auto split: list.splits)

text \<open>
  C32: Quoting any string with any of the four quote characters and then calling
  \<open>sqlite3Dequote\<close> gives the string back, whatever follows the closing quote; a string that
  does not start with a quote is left alone.
\<close>

theorem dequote_quote:
  "(sqlite3Isquote q \<and> (rest = [] \<or> ch rest \<noteq> close_quote q) \<longrightarrow>
      sqlite3Dequote (sql_quote q s @ rest) = Some s) \<and>
   (\<not> sqlite3Isquote (ch s) \<longrightarrow> sqlite3Dequote s = Some s)"
  using dequote_quoted[of rest "close_quote q" s]
  by (auto simp: sqlite3Dequote_def sql_quote_def close_quote_def)

lemma dequote_quote_witness: "sqlite3Dequote [0x5b, 0x61, 0x5d, 0x5d, 0x62, 0x5d, 0x20] = Some [0x61, 0x5d, 0x62]"
  using dequote_quote[of "0x5b" "[0x20]" "[0x61, 0x5d, 0x62]"]
  by (simp add: sql_quote_def close_quote_def isquote_iff)

subsection \<open>Hexadecimal\<close>

definition hex_value :: "u8 \<Rightarrow> nat" where
  "hex_value c = (if c \<le> 0x39 then unat c - 48 else if c \<le> 0x46 then unat c - 55 else unat c - 87)"

lemma HexToInt_value: "sqlite3Isxdigit c \<Longrightarrow> unat (sqlite3HexToInt c) = hex_value c \<and> hex_value c < 16"
proof -
  assume "sqlite3Isxdigit c"
  then have "unat c \<in> set ([48 ..< 58] @ [65 ..< 71] @ [97 ..< 103])"
    by (simp add: isxdigit_iff isdigit_iff word_le_nat_alt del: upt_rec_numeral) linarith
  moreover have "list_all (\<lambda>n. unat (sqlite3HexToInt (of_nat n)) = hex_value (of_nat n) \<and>
      hex_value (of_nat n) < 16) ([48 ..< 58] @ [65 ..< 71] @ [97 ..< 103])"
    by (simp add: sqlite3HexToInt_def hex_value_def)
  ultimately have "unat (sqlite3HexToInt (of_nat (unat c))) = hex_value (of_nat (unat c)) \<and>
      hex_value (of_nat (unat c)) < 16"
    unfolding list_all_iff by blast
  then show ?thesis by simp
qed

lemma unat_eq_of_nat: "unat w = n \<Longrightarrow> w = of_nat n" for w :: "'a::len word"
  by auto

lemma hex_byte:
  fixes a b :: u8
  assumes "unat a < 16" "unat b < 16"
  shows "unat (push_bit 4 a OR b) = unat a * 16 + unat b"
proof -
  have "\<not> bit b n" if "4 \<le> n" for n
  proof -
    have "unat b < 2 ^ 4" using assms(2) by simp
    then have "take_bit 4 (unat b) = unat b" by (simp add: take_bit_nat_eq_self_iff)
    moreover have "bit b n = bit (unat b) n" by (simp add: bit_unsigned_iff)
    ultimately show ?thesis using that by (metis bit_take_bit_iff not_le)
  qed
  then have "push_bit 4 a OR b = push_bit 4 a + b"
    by (intro disjunctive_add [symmetric]) (auto simp: bit_simps)
  moreover have "unat (push_bit 4 a) = unat a * 16"
    using assms(1) by (simp add: push_bit_eq_mult unat_mult_lem[THEN iffD1])
  ultimately show ?thesis using assms by (simp add: unat_add_nowrap)
qed

fun hex_bytes :: "u8 list \<Rightarrow> u8 list" where
  "hex_bytes (a # b # z) = of_nat (16 * hex_value a + hex_value b) # hex_bytes z"
| "hex_bytes _ = []"

lemma hex_loop_spec:
  assumes "list_all sqlite3Isxdigit (take (2 * k) z)" "2 * k \<le> length z"
  shows "hex_loop z (2 * int k - 1) = hex_bytes (take (2 * k) z)"
  using assms
proof (induction k arbitrary: z)
  case 0
  then show ?case by (cases z rule: hex_bytes.cases) auto
next
  case (Suc k)
  then obtain a b z' where z: "z = a # b # z'"
    by (cases z rule: hex_bytes.cases) auto
  with Suc have "sqlite3Isxdigit a" "sqlite3Isxdigit b" by simp_all
  from HexToInt_value[OF this(1)] HexToInt_value[OF this(2)]
  have "unat (push_bit 4 (sqlite3HexToInt a) OR sqlite3HexToInt b) = 16 * hex_value a + hex_value b"
    by (simp add: hex_byte)
  then have "push_bit 4 (sqlite3HexToInt a) OR sqlite3HexToInt b = of_nat (16 * hex_value a + hex_value b)"
    by (rule unat_eq_of_nat)
  moreover have "2 * int (Suc k) - 1 - 2 = 2 * int k - 1" by simp
  ultimately show ?case using Suc.IH[of z'] Suc.prems z by simp
qed

text \<open>
  For a blob literal with \<open>2k\<close> hexadecimal digits, \<open>sqlite3HexToBlob\<close> returns the \<open>k\<close>
  bytes whose high and low nibbles the digit pairs denote (either case), or fails only because
  the allocation failed.
\<close>

theorem hex_to_blob:
  assumes "list_all sqlite3Isxdigit (take (2 * k) z)" "2 * k \<le> length z"
  shows "fst (sqlite3HexToBlob m z (2 * int k)) =
    (if fst (malloc_step m) then Some (hex_bytes (take (2 * k) z)) else None)"
  using hex_loop_spec[OF assms]
  by (auto simp: sqlite3HexToBlob_def split: prod.splits bool.splits)

lemma hex_to_blob_witness:
  "fst (sqlite3HexToBlob [] [0x63, 0x41, 0x66, 0x45, 0x27] 4) = Some [0xca, 0xfe]"
  using hex_to_blob[of 2 "[0x63, 0x41, 0x66, 0x45, 0x27]" "[]"]
  by (simp add: isxdigit_iff isdigit_iff hex_value_def)

end
