(* ===== verification/Complete.thy ===== *)
theory Complete
  imports Cstring
begin

text \<open>
  The statement detector \<open>sqlite3_complete\<close> of complete.c, which decides whether an SQL text
  ends in a finished statement. The lexer and the table-driven automaton are modelled as they
  are written; the automaton is then shown to recognise the grammar of finished scripts,
  including the rule that a trigger definition ends in \<open>;END;\<close>.
\<close>

subsection \<open>Tokens\<close>

datatype tk = tkSEMI | tkWS | tkOTHER | tkEXPLAIN | tkCREATE | tkTEMP | tkTRIGGER | tkEND

fun tk_code :: "tk \<Rightarrow> nat" where
  "tk_code tkSEMI = 0"
| "tk_code tkWS = 1"
| "tk_code tkOTHER = 2"
| "tk_code tkEXPLAIN = 3"
| "tk_code tkCREATE = 4"
| "tk_code tkTEMP = 5"
| "tk_code tkTRIGGER = 6"
| "tk_code tkEND = 7"

definition trans :: "nat list list" where
  "trans =
    [[1, 0, 2, 3, 4, 2, 2, 2],
     [1, 1, 2, 3, 4, 2, 2, 2],
     [1, 2, 2, 2, 2, 2, 2, 2],
     [1, 3, 3, 2, 4, 2, 2, 2],
     [1, 4, 2, 2, 2, 4, 5, 2],
     [6, 5, 5, 5, 5, 5, 5, 5],
     [6, 6, 5, 5, 5, 5, 5, 7],
     [1, 7, 5, 5, 5, 5, 5, 5]]"

definition step :: "nat \<Rightarrow> tk \<Rightarrow> nat" where
  "step state token = trans ! state ! tk_code token"

subsection \<open>The lexer\<close>

text \<open>
  One round of the switch: either a token and the text after it, or an early return: with 0
  (an unterminated comment, string or bracket) or with the value of \<open>state==1\<close> (a \<open>--\<close>
  comment that runs to the end of the text).
\<close>

datatype lexed = Token tk "u8 list" | Return0 | ReturnState

fun skip_comment :: "u8 list \<Rightarrow> u8 list" where
  "skip_comment [] = []"
| "skip_comment (c # z) = (if c = 0 \<or> c = 0x2a \<and> ch z = 0x2f then c # z else skip_comment z)"

definition skip_to :: "u8 \<Rightarrow> u8 list \<Rightarrow> u8 list" where
  "skip_to q z = dropWhile (\<lambda>c. c \<noteq> 0 \<and> c \<noteq> q) z"

definition kw_create :: "u8 list" where "kw_create = [0x63, 0x72, 0x65, 0x61, 0x74, 0x65]"
definition kw_trigger :: "u8 list" where "kw_trigger = [0x74, 0x72, 0x69, 0x67, 0x67, 0x65, 0x72]"
definition kw_temp :: "u8 list" where "kw_temp = [0x74, 0x65, 0x6d, 0x70]"
definition kw_temporary :: "u8 list" where
  "kw_temporary = [0x74, 0x65, 0x6d, 0x70, 0x6f, 0x72, 0x61, 0x72, 0x79]"
definition kw_end :: "u8 list" where "kw_end = [0x65, 0x6e, 0x64]"
definition kw_explain :: "u8 list" where "kw_explain = [0x65, 0x78, 0x70, 0x6c, 0x61, 0x69, 0x6e]"

definition is_kw :: "u8 list \<Rightarrow> nat \<Rightarrow> u8 list \<Rightarrow> bool" where
  "is_kw z nId kw \<longleftrightarrow> nId = length kw \<and> sqlite3_strnicmp (Some z) (Some kw) (int (length kw)) = 0"

definition keyword_token :: "u8 list \<Rightarrow> nat \<Rightarrow> tk" where
  "keyword_token z nId =
     (if ch z = 0x63 \<or> ch z = 0x43 then (if is_kw z nId kw_create then tkCREATE else tkOTHER)
      else if ch z = 0x74 \<or> ch z = 0x54 then
        (if is_kw z nId kw_trigger then tkTRIGGER
         else if is_kw z nId kw_temp then tkTEMP
         else if is_kw z nId kw_temporary then tkTEMP else tkOTHER)
      else if ch z = 0x65 \<or> ch z = 0x45 then
        (if is_kw z nId kw_end then tkEND
         else if is_kw z nId kw_explain then tkEXPLAIN else tkOTHER)
      else tkOTHER)"

text \<open>The length of the identifier at the head of the text, its first character included.\<close>

definition id_length :: "u8 list \<Rightarrow> nat" where
  "id_length z = 1 + length (takeWhile IdChar (tl z))"

definition complete_token :: "u8 list \<Rightarrow> lexed" where
  "complete_token z =
     (if ch z = 0x3b then Token tkSEMI (tl z)
      else if ch z \<in> {0x20, 0x0d, 0x09, 0x0a, 0x0c} then Token tkWS (tl z)
      else if ch z = 0x2f then
        (if ch (tl z) \<noteq> 0x2a then Token tkOTHER (tl z)
         else (let r = skip_comment (drop 2 z)
               in if ch r = 0 then Return0 else Token tkWS (drop 2 r)))
      else if ch z = 0x2d then
        (if ch (tl z) \<noteq> 0x2d then Token tkOTHER (tl z)
         else (let r = skip_to 0x0a z in if ch r = 0 then ReturnState else Token tkWS (tl r)))
      else if ch z = 0x5b then
        (let r = skip_to 0x5d (tl z) in if ch r = 0 then Return0 else Token tkOTHER (tl r))
      else if ch z \<in> {0x60, 0x22, 0x27} then
        (let r = skip_to (ch z) (tl z) in if ch r = 0 then Return0 else Token tkOTHER (tl r))
      else if IdChar (ch z) then Token (keyword_token z (id_length z)) (drop (id_length z) z)
      else Token tkOTHER (tl z))"

lemma length_skip_comment: "length (skip_comment z) \<le> length z"
  by (induction z) auto

lemma length_skip_to: "length (skip_to q z) \<le> length z"
  by (simp add: skip_to_def length_dropWhile_le)

lemma complete_token_shorter:
  assumes "complete_token z = Token t r" "z \<noteq> []"
  shows "length r < length z"
proof -
  obtain c y where z: "z = c # y" using assms(2) by (cases z) auto
  have "length (skip_comment (tl y)) \<le> length y"
    using length_skip_comment[of "tl y"] by simp
  moreover have "length (skip_to q y) - Suc 0 \<le> length y" for q
    using length_skip_to[of q y] by simp
  moreover have "length (tl (skip_to 0x0a z)) < length z"
    using length_skip_to[of "0x0a" z] z by simp
  ultimately show ?thesis using assms(1) z
    by (auto simp: complete_token_def Let_def drop_Suc id_length_def le_imp_less_Suc less_Suc_eq_le
        split: if_splits)
qed

subsection \<open>The detector\<close>

function complete_loop :: "nat \<Rightarrow> u8 list \<Rightarrow> bool" where
  "complete_loop state z =
     (if ch z = 0 then state = 1
      else (case complete_token z of
              Token t r \<Rightarrow> complete_loop (step state t) r
            | Return0 \<Rightarrow> False
            | ReturnState \<Rightarrow> state = 1))"
  by pat_completeness auto
termination
proof (relation "measure (\<lambda>(s, z). length z)", simp, goal_cases)
  case (1 state z t r)
  then have "z \<noteq> []" by auto
  with complete_token_shorter[of z t r] 1 show ?case by simp
qed

declare complete_loop.simps [simp del]

definition sqlite3_complete :: "u8 list \<Rightarrow> bool" where
  "sqlite3_complete zSql = complete_loop 0 zSql"

subsection \<open>The token sequence of a text\<close>

text \<open>\<^const>\<open>None\<close> when a comment, string or bracket is not closed.\<close>

function sql_tokens :: "u8 list \<Rightarrow> tk list option" where
  "sql_tokens z =
     (if ch z = 0 then Some []
      else (case complete_token z of
              Token t r \<Rightarrow> map_option ((#) t) (sql_tokens r)
            | Return0 \<Rightarrow> None
            | ReturnState \<Rightarrow> Some []))"
  by pat_completeness auto
termination
proof (relation "measure length", simp, goal_cases)
  case (1 z t r)
  then have "z \<noteq> []" by auto
  with complete_token_shorter[of z t r] 1 show ?case by simp
qed

declare sql_tokens.simps [simp del]

lemma complete_loop_tokens:
  "complete_loop state z =
     (case sql_tokens z of None \<Rightarrow> False | Some ts \<Rightarrow> foldl step state ts = 1)"
proof (induction state z rule: complete_loop.induct)
  case (1 state z)
  show ?case
  proof (cases "complete_token z")
    case (Token t r)
    with 1 show ?thesis
      by (auto simp: complete_loop.simps[of state z] sql_tokens.simps[of z] split: option.splits)
  qed (simp_all add: complete_loop.simps[of state z] sql_tokens.simps[of z])
qed

subsection \<open>The grammar of finished scripts\<close>

definition trigger_head :: "tk list \<Rightarrow> bool" where
  "trigger_head h \<longleftrightarrow> (\<exists>p m n. h = p @ [tkCREATE] @ replicate n tkTEMP @ [tkTRIGGER] \<and>
     (p = [] \<or> p = tkEXPLAIN # replicate m tkOTHER))"

definition unended :: "tk list \<Rightarrow> bool" where
  "unended b \<longleftrightarrow> (\<nexists>p q. b = p @ [tkSEMI, tkEND, tkSEMI] @ q)"

text \<open>
  A plain statement runs to its first semicolon; one that begins like a trigger definition runs
  to the first \<open>; END ;\<close> after the keyword \<open>TRIGGER\<close>.
\<close>

inductive stmt :: "tk list \<Rightarrow> bool" where
  plain: "tkSEMI \<notin> set h \<Longrightarrow> \<nexists>p q. h = p @ q \<and> trigger_head p \<Longrightarrow> stmt (h @ [tkSEMI])"
| trigger: "trigger_head h \<Longrightarrow> unended (b @ [tkSEMI, tkEND]) \<Longrightarrow>
    stmt (h @ b @ [tkSEMI, tkEND, tkSEMI])"

inductive script :: "tk list \<Rightarrow> bool" where
  one: "stmt s \<Longrightarrow> script s"
| more: "script ss \<Longrightarrow> stmt s \<Longrightarrow> script (ss @ s)"


abbreviation run :: "nat \<Rightarrow> tk list \<Rightarrow> nat" where "run \<equiv> foldl step"

text \<open>The table, row by row.\<close>

lemma step_row [simp]:
  "step 0 t = (if t = tkSEMI then 1 else if t = tkWS then 0 else if t = tkEXPLAIN then 3 else if t = tkCREATE then 4 else 2)"
  "step (Suc 0) t = (if t = tkSEMI then 1 else if t = tkWS then 1 else if t = tkEXPLAIN then 3 else if t = tkCREATE then 4 else 2)"
  "step 2 t = (if t = tkSEMI then 1 else 2)"
  "step 3 t = (if t = tkSEMI then 1 else if t = tkWS then 3 else if t = tkOTHER then 3 else if t = tkCREATE then 4 else 2)"
  "step 4 t = (if t = tkSEMI then 1 else if t = tkWS then 4 else if t = tkTEMP then 4 else if t = tkTRIGGER then 5 else 2)"
  "step 5 t = (if t = tkSEMI then 6 else 5)"
  "step 6 t = (if t = tkSEMI then 6 else if t = tkWS then 6 else if t = tkEND then 7 else 5)"
  "step 7 t = (if t = tkSEMI then 1 else if t = tkWS then 7 else 5)"
  by (cases t; simp add: step_def trans_def)+

lemma less_8: "s < 8 \<longleftrightarrow> s \<in> {0, 1, 2, 3, 4, 5, 6, 7}" for s :: nat
  by auto

lemma step_lt: "s < 8 \<Longrightarrow> step s t < 8"
  unfolding less_8 by (cases t) auto

lemma run_lt: "s < 8 \<Longrightarrow> run s ts < 8"
  by (induction ts arbitrary: s) (auto simp: step_lt)

lemma run_ws: "s < 8 \<Longrightarrow> run s ts = run s (filter (\<lambda>t. t \<noteq> tkWS) ts)"
proof (induction ts arbitrary: s)
  case (Cons t ts)
  have "step s tkWS = s" using Cons.prems unfolding less_8 by auto
  with Cons step_lt show ?case by auto
qed simp

lemma run_replicate [simp]:
  "run 3 (replicate m tkOTHER) = 3" "run 4 (replicate n tkTEMP) = 4"
  by (induction m, simp_all) (induction n, simp_all)

lemma unended_snoc:
  "unended (b @ [t]) \<longleftrightarrow> unended b \<and> (\<nexists>p. b @ [t] = p @ [tkSEMI, tkEND, tkSEMI])"
proof -
  have "(\<exists>p q. b @ [t] = p @ [tkSEMI, tkEND, tkSEMI] @ q) \<longleftrightarrow>
      (\<exists>p q. b = p @ [tkSEMI, tkEND, tkSEMI] @ q) \<or> (\<exists>p. b @ [t] = p @ [tkSEMI, tkEND, tkSEMI])"
  proof (intro iffI; elim exE disjE)
    fix p q assume e: "b @ [t] = p @ [tkSEMI, tkEND, tkSEMI] @ q"
    show "(\<exists>p q. b = p @ [tkSEMI, tkEND, tkSEMI] @ q) \<or> (\<exists>p. b @ [t] = p @ [tkSEMI, tkEND, tkSEMI])"
    proof (cases q rule: rev_cases)
      case Nil then show ?thesis using e by auto
    next
      case (snoc q' x) 
      then have "b = p @ [tkSEMI, tkEND, tkSEMI] @ q'" using e by (simp flip: append_assoc)
      then show ?thesis by blast
    qed
  qed auto
  then show ?thesis by (auto simp: unended_def)
qed

text \<open>Inside a trigger body the state remembers how far \<open>; END\<close> has been matched.\<close>

lemma run_body:
  assumes "unended b" "tkWS \<notin> set b"
  shows "run 5 b = (if \<exists>p. b = p @ [tkSEMI] then 6 else if \<exists>p. b = p @ [tkSEMI, tkEND] then 7 else 5)"
  using assms
proof (induction b rule: rev_induct)
  case (snoc t b)
  then have u: "unended b" "\<nexists>p. b @ [t] = p @ [tkSEMI, tkEND, tkSEMI]" by (simp_all add: unended_snoc)
  note IH = snoc.IH[OF u(1)]
  consider p where "b = p @ [tkSEMI]" | p where "b = p @ [tkSEMI, tkEND]"
    | "\<nexists>p. b = p @ [tkSEMI]" "\<nexists>p. b = p @ [tkSEMI, tkEND]" by blast
  then show ?case
    using IH snoc.prems u(2) by cases auto
qed simp

lemma run_trigger_head: "s = 0 \<or> s = 1 \<Longrightarrow> trigger_head h \<Longrightarrow> run s h = 5"
  by (auto simp: trigger_head_def)

lemma run_5_plain: "tkSEMI \<notin> set q \<Longrightarrow> run 5 q = 5"
  by (induction q) auto

text \<open>What the states of a statement that has not reached a semicolon mean.\<close>

lemma run_plain:
  assumes "tkSEMI \<notin> set h" "tkWS \<notin> set h" "h \<noteq> []" "run 1 h = k"
  shows "k \<in> {2, 3, 4, 5} \<and>
    (k = 3 \<longrightarrow> (\<exists>m. h = tkEXPLAIN # replicate m tkOTHER)) \<and>
    (k = 4 \<longrightarrow> (\<exists>p m n. h = p @ [tkCREATE] @ replicate n tkTEMP \<and>
       (p = [] \<or> p = tkEXPLAIN # replicate m tkOTHER))) \<and>
    (k = 5 \<longrightarrow> (\<exists>p q. h = p @ q \<and> trigger_head p))"
  using assms
proof (induction h arbitrary: k rule: rev_induct)
  case (snoc t h)
  show ?case
  proof (cases "h = []")
    case True
    have "\<exists>p n m. [tkCREATE] = p @ [tkCREATE] @ replicate n tkTEMP \<and>
        (p = [] \<or> p = tkEXPLAIN # replicate m tkOTHER)" by (rule exI[of _ "[]"]) auto
    then show ?thesis using snoc.prems True by (auto split: if_splits)
  next
    case False
    define j where "j = run 1 h"
    have k: "k = step j t" using snoc.prems by (simp add: j_def)
    from snoc False have IH: "j \<in> {2, 3, 4, 5}"
      "j = 3 \<longrightarrow> (\<exists>m. h = tkEXPLAIN # replicate m tkOTHER)"
      "j = 4 \<longrightarrow> (\<exists>p m n. h = p @ [tkCREATE] @ replicate n tkTEMP \<and>
         (p = [] \<or> p = tkEXPLAIN # replicate m tkOTHER))"
      "j = 5 \<longrightarrow> (\<exists>p q. h = p @ q \<and> trigger_head p)" by (simp_all add: j_def)
    have app: "replicate m x @ [x] = x # replicate m x" for m and x :: tk
      by (simp add: replicate_append_same)
    show ?thesis
    proof (intro conjI impI)
      show "k \<in> {2, 3, 4, 5}"
        using IH(1) snoc.prems k by (auto split: if_splits)
    next
      assume "k = 3"
      then have j: "j = 3 \<and> t = tkOTHER"
        using IH(1) snoc.prems k by (auto split: if_splits)
      with IH(2) obtain m where "h = tkEXPLAIN # replicate m tkOTHER" by blast
      then have "h @ [t] = tkEXPLAIN # replicate (Suc m) tkOTHER" using j by (simp add: app)
      then show "\<exists>m. h @ [t] = tkEXPLAIN # replicate m tkOTHER" by blast
    next
      assume "k = 4"
      then consider "j = 3" "t = tkCREATE" | "j = 4" "t = tkTEMP"
        using IH(1) snoc.prems k by (auto split: if_splits)
      then show "\<exists>p m n. h @ [t] = p @ [tkCREATE] @ replicate n tkTEMP \<and>
         (p = [] \<or> p = tkEXPLAIN # replicate m tkOTHER)"
      proof cases
        case 1
        with IH(2) obtain m where "h = tkEXPLAIN # replicate m tkOTHER" by blast
        then have "h @ [t] = h @ [tkCREATE] @ replicate 0 tkTEMP" using 1 by simp
        then show ?thesis using \<open>h = _\<close> by blast
      next
        case 2
        with IH(3) obtain p m n where p: "h = p @ [tkCREATE] @ replicate n tkTEMP"
          "p = [] \<or> p = tkEXPLAIN # replicate m tkOTHER" by blast
        then have "h @ [t] = p @ [tkCREATE] @ replicate (Suc n) tkTEMP" using 2 by (simp add: app)
        then show ?thesis using p(2) by blast
      qed
    next
      assume "k = 5"
      then consider "j = 4" "t = tkTRIGGER" | "j = 5"
        using IH(1) snoc.prems k by (auto split: if_splits)
      then show "\<exists>p q. h @ [t] = p @ q \<and> trigger_head p"
      proof cases
        case 1
        with IH(3) obtain p m n where "h = p @ [tkCREATE] @ replicate n tkTEMP"
          "p = [] \<or> p = tkEXPLAIN # replicate m tkOTHER" by blast
        then have "trigger_head (h @ [t])" using 1
          unfolding trigger_head_def by (intro exI[of _ p] exI[of _ m] exI[of _ n]) simp
        then show ?thesis by (metis append.right_neutral)
      next
        case 2
        with IH(4) obtain p q where "h = p @ q" "trigger_head p" by blast
        then have "h @ [t] = p @ (q @ [t])" by simp
        then show ?thesis using \<open>trigger_head p\<close> by blast
      qed
    qed
  qed
qed simp


lemma run_stmt: "stmt s \<Longrightarrow> tkWS \<notin> set s \<Longrightarrow> k = 0 \<or> k = 1 \<Longrightarrow> run k s = 1"
proof (induction rule: stmt.induct)
  case (plain h)
  show ?case
  proof (cases "h = []")
    case False
    then obtain t h' where h: "h = t # h'" by (cases h) auto
    with plain have "run k h = run 1 h" by auto
    moreover have "run 1 h \<noteq> 5" "run 1 h \<in> {2, 3, 4, 5}"
      using run_plain[of h "run 1 h"] plain False by auto
    ultimately show ?thesis by auto
  qed (use plain in auto)
next
  case (trigger h b)
  have "run k h = 5" using run_trigger_head trigger by blast
  moreover have "run 5 (b @ [tkSEMI, tkEND]) = 7"
    using run_body[of "b @ [tkSEMI, tkEND]"] trigger by auto
  ultimately show ?case by simp
qed

lemma run_script: "script ss \<Longrightarrow> tkWS \<notin> set ss \<Longrightarrow> run 0 ss = 1"
proof (induction rule: script.induct)
  case (more ss s)
  then show ?case using run_stmt[of s 1] by simp
qed (simp add: run_stmt)

text \<open>What a text read so far consists of, by state: finished statements and a remainder.\<close>

definition progress :: "nat \<Rightarrow> tk list \<Rightarrow> tk list \<Rightarrow> bool" where
  "progress k c r \<longleftrightarrow> (c = [] \<or> script c) \<and>
     (k = 0 \<longrightarrow> c = [] \<and> r = []) \<and> (k = 1 \<longrightarrow> r = [] \<and> script c) \<and>
     (k \<in> {2, 3, 4} \<longrightarrow> tkSEMI \<notin> set r \<and> r \<noteq> [] \<and> run 1 r = k) \<and>
     (k \<in> {5, 6, 7} \<longrightarrow> (\<exists>h b. r = h @ b \<and> trigger_head h \<and> unended b \<and> run 5 b = k))"

lemma script_snoc: "c = [] \<or> script c \<Longrightarrow> stmt s \<Longrightarrow> script (c @ s)"
  using script.intros by fastforce

lemma progress_finished: "script c \<Longrightarrow> progress (Suc 0) c []"
  by (simp add: progress_def)

lemma progress_body:
  assumes "k \<in> {5, 6, 7}" "c = [] \<or> script c" "trigger_head h" "unended b" "run 5 b = k"
  shows "progress k c (h @ b)"
proof -
  have "\<exists>h' b'. h @ b = h' @ b' \<and> trigger_head h' \<and> unended b' \<and> run 5 b' = k"
    using assms by blast
  moreover have "k \<noteq> 0" "k \<noteq> 1" "k \<notin> {2, 3, 4}" using assms(1) by auto
  ultimately show ?thesis using assms(2) unfolding progress_def by blast
qed

abbreviation advances :: "nat \<Rightarrow> tk list \<Rightarrow> bool" where
  "advances k ts \<equiv> \<exists>c r. ts = c @ r \<and> progress k c r"

lemma advancesI: "progress k c r \<Longrightarrow> ts = c @ r \<Longrightarrow> advances k ts"
  by blast

lemma progress_between:
  assumes "progress k c r" "k = 0 \<or> k = 1" "t \<noteq> tkWS"
  shows "advances (step k t) (c @ r @ [t])"
proof (cases "t = tkSEMI")
  case True
  have "stmt ([] @ [tkSEMI])" by (rule stmt.plain) (auto simp: trigger_head_def)
  then have "script (c @ [tkSEMI])"
    using script_snoc[of c "[tkSEMI]"] assms(1) by (simp add: progress_def)
  moreover have "step k t = 1" "r = []" using assms True by (auto simp: progress_def)
  ultimately show ?thesis using True by (intro advancesI[of _ "c @ [t]" "[]"]) (simp_all add: progress_finished)
next
  case False
  then have "step k t \<in> {2, 3, 4}" "step 1 t = step k t" using assms(2,3) by (cases t; auto)+
  moreover have "r = []" "c = [] \<or> script c" using assms(1,2) by (auto simp: progress_def)
  ultimately have "progress (step k t) c [t]" "r = []"
    using False by (simp_all add: progress_def) auto
  then show ?thesis by (intro advancesI[of _ c "[t]"]) simp_all
qed

lemma progress_plain:
  assumes "progress k c r" "k \<in> {2, 3, 4}" "tkWS \<notin> set (r @ [t])"
  shows "advances (step k t) (c @ r @ [t])"
proof -
  have c: "c = [] \<or> script c" and r: "tkSEMI \<notin> set r" "r \<noteq> []" "run 1 r = k"
    using assms by (auto simp: progress_def)
  have "step k t \<in> {2, 3, 4}" if "t \<noteq> tkSEMI" "\<not> (k = 4 \<and> t = tkTRIGGER)"
    using assms(2,3) that by (cases t) auto
  then consider "t = tkSEMI" | "k = 4" "t = tkTRIGGER" | "t \<noteq> tkSEMI" "step k t \<in> {2, 3, 4}"
    by blast
  then show ?thesis
  proof cases
    case 1
    have False if "r = p @ q" "trigger_head p" for p q
      using that r run_trigger_head[of 1 p] run_5_plain[of q] assms(2) by auto
    then have "\<nexists>p q. r = p @ q \<and> trigger_head p" by blast
    then have "stmt (r @ [tkSEMI])" by (rule stmt.plain[OF r(1)])
    from script_snoc[OF c this] have "script (c @ r @ [t])" using 1 by simp
    moreover have "step k t = 1" using 1 assms(2) by auto
    ultimately show ?thesis
      by (intro advancesI[of _ "c @ r @ [t]" "[]"]) (simp_all add: progress_finished)
  next
    case 2
    with run_plain[of r k] r assms(3) obtain p m n where "r = p @ [tkCREATE] @ replicate n tkTEMP"
      "p = [] \<or> p = tkEXPLAIN # replicate m tkOTHER" by auto
    then have "trigger_head (r @ [t])" using 2
      unfolding trigger_head_def by (intro exI[of _ p] exI[of _ m] exI[of _ n]) simp
    then have "progress 5 c ((r @ [t]) @ [])" using c by (intro progress_body) (simp_all add: unended_def)
    then show ?thesis using 2 by (intro advancesI[of _ c "r @ [t]"]) simp_all
  next
    case 3
    moreover have "run 1 (r @ [t]) = step k t" using r by simp
    ultimately have "progress (step k t) c (r @ [t])" using c r by (auto simp: progress_def)
    then show ?thesis by (rule advancesI) simp
  qed
qed

lemma progress_trigger:
  assumes "progress k c r" "k \<in> {5, 6, 7}" "tkWS \<notin> set (r @ [t])"
  shows "advances (step k t) (c @ r @ [t])"
proof -
  have c: "c = [] \<or> script c"
    and "\<exists>h b. r = h @ b \<and> trigger_head h \<and> unended b \<and> run 5 b = k"
    using assms(1,2) unfolding progress_def by blast+
  then obtain h b where r: "r = h @ b" "trigger_head h" "unended b" "run 5 b = k" by blast
  have b: "k = (if \<exists>p. b = p @ [tkSEMI] then 6 else if \<exists>p. b = p @ [tkSEMI, tkEND] then 7 else 5)"
    using run_body[of b] r assms(3) by simp
  show ?thesis
  proof (cases "k = 7 \<and> t = tkSEMI")
    case True
    then obtain p where p: "b = p @ [tkSEMI, tkEND]" using b by (auto split: if_splits)
    then have "stmt (h @ p @ [tkSEMI, tkEND, tkSEMI])" using r by (intro stmt.trigger) auto
    from script_snoc[OF c this] have "script (c @ r @ [t])" using True r p by simp
    then show ?thesis using True
      by (intro advancesI[of _ "c @ r @ [t]" "[]"]) (simp_all add: progress_finished)
  next
    case False
    have "unended (b @ [t])" using r(3) b False by (auto simp: unended_snoc)
    moreover have "step k t \<in> {5, 6, 7}" using assms(2,3) False by (cases t) auto
    moreover have "run 5 (b @ [t]) = step k t" using r(4) by simp
    ultimately have "progress (step k t) c (h @ b @ [t])" using r(2) c by (intro progress_body)
    then show ?thesis using r(1) by (intro advancesI[of _ c "h @ b @ [t]"]) simp_all
  qed
qed

lemma progress_step:
  assumes "progress k c r" "k < 8" "tkWS \<notin> set (r @ [t])"
  shows "advances (step k t) (c @ r @ [t])"
proof -
  have "k = 0 \<or> k = 1 \<or> k \<in> {2, 3, 4} \<or> k \<in> {5, 6, 7}" using assms(2) by auto
  moreover have "t \<noteq> tkWS" using assms(3) by auto
  ultimately show ?thesis
    using progress_between[OF assms(1)] progress_plain[OF assms(1) _ assms(3)]
      progress_trigger[OF assms(1) _ assms(3)] by blast
qed

lemma run_progress: "tkWS \<notin> set ts \<Longrightarrow> \<exists>c r. ts = c @ r \<and> progress (run 0 ts) c r"
proof (induction ts rule: rev_induct)
  case (snoc t ts)
  then obtain c r where "ts = c @ r" "progress (run 0 ts) c r" by auto
  with progress_step[of "run 0 ts" c r t] run_lt[of 0 ts] snoc.prems show ?case by auto
qed (simp add: progress_def)

lemma run_iff_script:
  assumes "tkWS \<notin> set ts"
  shows "run 0 ts = 1 \<longleftrightarrow> script ts"
proof
  assume "run 0 ts = 1"
  with run_progress[OF assms] obtain c r where "ts = c @ r" "progress 1 c r" by auto
  then show "script ts" by (simp add: progress_def)
qed (rule run_script[OF _ assms])

text \<open>
  C24: \<open>sqlite3_complete\<close> accepts a text exactly when every comment, string and bracket in it is
  closed and its tokens, white space and comments left out, form a non-empty sequence of
  finished statements, where a statement that starts like a trigger definition is finished
  only by \<open>; END ;\<close>.
\<close>

theorem complete_recognises:
  "sqlite3_complete z \<longleftrightarrow>
     (\<exists>ts. sql_tokens z = Some ts \<and> script (filter (\<lambda>t. t \<noteq> tkWS) ts))"
proof (cases "sql_tokens z")
  case (Some ts)
  have "run 0 ts = 1 \<longleftrightarrow> script (filter (\<lambda>t. t \<noteq> tkWS) ts)"
    using run_iff_script[of "filter (\<lambda>t. t \<noteq> tkWS) ts"] run_ws[of 0 ts] by simp
  then show ?thesis using Some by (simp add: sqlite3_complete_def complete_loop_tokens)
qed (simp add: sqlite3_complete_def complete_loop_tokens)

end
