(* ===== verification/Hash.thy ===== *)
theory Hash
  imports Cstring "HOL-Library.Multiset"
begin

text \<open>
  The hash table of hash.c, which maps names without regard to case to pointers. All elements
  are on one list; a bucket of the optional table holds the address of its first element and
  the number of elements, which lie next to each other on the list. An element has an address
  that is never reused; a null data pointer is \<^const>\<open>None\<close>.
\<close>

subsection \<open>Data\<close>

record 'd helem =
  addr :: nat
  pKey :: "u8 list"
  data :: 'd

record 'd hash =
  htsize :: nat
  hcount :: nat
  elems :: "'d helem list"
  ht :: "(nat \<times> nat option) list option"
  next_addr :: nat

definition sizeof_ht :: nat where "sizeof_ht = 16"
definition SQLITE_MALLOC_SOFT_LIMIT :: nat where "SQLITE_MALLOC_SOFT_LIMIT = 1024"

definition sqlite3HashInit :: "'d hash" where
  "sqlite3HashInit = \<lparr>htsize = 0, hcount = 0, elems = [], ht = None, next_addr = 0\<rparr>"

definition sqlite3HashClear :: "'d hash \<Rightarrow> 'd hash" where
  "sqlite3HashClear pH = pH\<lparr>elems := [], ht := None, htsize := 0, hcount := 0\<rparr>"

definition strHash :: "u8 list \<Rightarrow> u32" where
  "strHash z = foldl (\<lambda>h c. (h + ucast (UpperToLower c)) * 0x9e3779b1) 0 (takeWhile (\<lambda>c. c \<noteq> 0) z)"

subsection \<open>Operations\<close>

fun insert_before :: "nat \<Rightarrow> 'd helem \<Rightarrow> 'd helem list \<Rightarrow> 'd helem list" where
  "insert_before a new [] = []"
| "insert_before a new (e # es) = (if addr e = a then new # e # es else e # insert_before a new es)"

text \<open>\<open>pEntry\<close> is the index of a bucket, \<^const>\<open>None\<close> when there is no table.\<close>

definition insertElement :: "'d hash \<Rightarrow> nat option \<Rightarrow> 'd helem \<Rightarrow> 'd hash" where
  "insertElement pH pEntry pNew =
     (case (pEntry, ht pH) of
        (Some h, Some t) \<Rightarrow>
          (let (cnt, chain) = t ! h;
               pHead = (if cnt \<noteq> 0 then chain else None);
               pH = pH\<lparr>ht := Some (t[h := (cnt + 1, Some (addr pNew))])\<rparr>
           in (case pHead of
                 Some a \<Rightarrow> pH\<lparr>elems := insert_before a pNew (elems pH)\<rparr>
               | None \<Rightarrow> pH\<lparr>elems := pNew # elems pH\<rparr>))
      | _ \<Rightarrow> pH\<lparr>elems := pNew # elems pH\<rparr>)"

definition bucket_of :: "nat \<Rightarrow> u8 list \<Rightarrow> nat" where
  "bucket_of n z = unat (strHash z) mod n"

text \<open>
  \<open>slack n\<close> is the number of bytes by which \<open>sqlite3MallocSize\<close> exceeds a request of \<open>n\<close> bytes.
\<close>

definition rehash :: "(nat \<Rightarrow> nat) \<Rightarrow> oom \<Rightarrow> 'd hash \<Rightarrow> nat \<Rightarrow> bool \<times> 'd hash \<times> oom" where
  "rehash slack m pH new_size =
     (let new_size = (if new_size * sizeof_ht > SQLITE_MALLOC_SOFT_LIMIT
                      then SQLITE_MALLOC_SOFT_LIMIT div sizeof_ht else new_size)
      in if new_size = htsize pH then (False, pH, m)
         else (case malloc_step m of
                 (False, m) \<Rightarrow> (False, pH, m)
               | (True, m) \<Rightarrow>
                   (let n = (new_size * sizeof_ht + slack (new_size * sizeof_ht)) div sizeof_ht;
                        old = elems pH;
                        pH = pH\<lparr>ht := Some (replicate n (0, None)), htsize := n, elems := []\<rparr>
                    in (True, foldl (\<lambda>pH e. insertElement pH (Some (bucket_of n (pKey e))) e) pH old, m))))"

text \<open>
  The search loop over \<open>count\<close> elements; the outer \<^const>\<open>None\<close> is the failing \<open>assert( elem!=0 )\<close>.
\<close>

fun find_loop :: "nat \<Rightarrow> 'd helem list \<Rightarrow> u8 list \<Rightarrow> 'd helem option option" where
  "find_loop 0 es z = Some None"
| "find_loop (Suc cnt) [] z = None"
| "find_loop (Suc cnt) (e # es) z =
     (if sqlite3StrICmp (pKey e) z = 0 then Some (Some e) else find_loop cnt es z)"

definition from_addr :: "nat option \<Rightarrow> 'd helem list \<Rightarrow> 'd helem list" where
  "from_addr chain es = (case chain of None \<Rightarrow> [] | Some a \<Rightarrow> dropWhile (\<lambda>e. addr e \<noteq> a) es)"

definition findElementWithHash :: "'d hash \<Rightarrow> u8 list \<Rightarrow> ('d helem option \<times> nat) option" where
  "findElementWithHash pH z =
     (let (h, cnt, start) =
        (case ht pH of
           Some t \<Rightarrow> (let h = bucket_of (htsize pH) z
                      in (h, fst (t ! h), from_addr (snd (t ! h)) (elems pH)))
         | None \<Rightarrow> (0, hcount pH, elems pH))
      in map_option (\<lambda>e. (e, h)) (find_loop cnt start z))"

definition removeElementGivenHash :: "'d hash \<Rightarrow> 'd helem \<Rightarrow> nat \<Rightarrow> 'd hash" where
  "removeElementGivenHash pH elem h =
     (let nxt = (case tl (from_addr (Some (addr elem)) (elems pH)) of [] \<Rightarrow> None | e # _ \<Rightarrow> Some (addr e));
          pH = pH\<lparr>elems := filter (\<lambda>e. addr e \<noteq> addr elem) (elems pH),
                  ht := (case ht pH of
                           None \<Rightarrow> None
                         | Some t \<Rightarrow>
                             Some (t[h := (fst (t ! h) - 1,
                               if snd (t ! h) = Some (addr elem) then nxt else snd (t ! h))])),
                  hcount := hcount pH - 1\<rparr>
      in if hcount pH = 0 then sqlite3HashClear pH else pH)"

definition sqlite3HashFind :: "'d hash \<Rightarrow> u8 list \<Rightarrow> 'd option option" where
  "sqlite3HashFind pH z = map_option (\<lambda>r. map_option data (fst r)) (findElementWithHash pH z)"

text \<open>The result is the returned pointer, the table and the allocator script.\<close>

definition sqlite3HashInsert ::
    "(nat \<Rightarrow> nat) \<Rightarrow> oom \<Rightarrow> 'd hash \<Rightarrow> u8 list \<Rightarrow> 'd option \<Rightarrow> ('d option \<times> 'd hash \<times> oom) option" where
  "sqlite3HashInsert slack m pH z d =
     (case findElementWithHash pH z of
        None \<Rightarrow> None
      | Some (Some elem, h) \<Rightarrow>
          Some (Some (data elem),
            (case d of
               None \<Rightarrow> removeElementGivenHash pH elem h
             | Some v \<Rightarrow> pH\<lparr>elems := map (\<lambda>e. if addr e = addr elem then e\<lparr>data := v, pKey := z\<rparr> else e)
                              (elems pH)\<rparr>), m)
      | Some (None, h) \<Rightarrow>
          (case d of
             None \<Rightarrow> Some (None, pH, m)
           | Some v \<Rightarrow>
               (case malloc_step m of
                  (False, m) \<Rightarrow> Some (Some v, pH, m)
                | (True, m) \<Rightarrow>
                    (let new_elem = \<lparr>addr = next_addr pH, pKey = z, data = v\<rparr>;
                         pH = pH\<lparr>next_addr := next_addr pH + 1, hcount := hcount pH + 1\<rparr>;
                         (h, pH, m) =
                           (if hcount pH \<ge> 10 \<and> hcount pH > 2 * htsize pH then
                              (case rehash slack m pH (hcount pH * 2) of
                                 (True, pH, m) \<Rightarrow> (bucket_of (htsize pH) z, pH, m)
                               | (False, pH, m) \<Rightarrow> (h, pH, m))
                            else (h, pH, m))
                     in Some (None,
                          insertElement pH (if ht pH \<noteq> None then Some h else None) new_elem, m)))))"


subsection \<open>Adjacent elements\<close>

text \<open>All elements that satisfy \<open>P\<close> lie next to each other.\<close>

fun together :: "('a \<Rightarrow> bool) \<Rightarrow> 'a list \<Rightarrow> bool" where
  "together P [] = True"
| "together P (x # xs) = (if P x then (\<forall>y \<in> set (dropWhile P xs). \<not> P y) else together P xs)"

lemma together_none: "\<forall>y \<in> set xs. \<not> P y \<Longrightarrow> together P xs"
  by (induction xs) auto

lemma set_dropWhile_filter: "set (dropWhile P (filter Q xs)) \<subseteq> set (dropWhile P xs)"
proof (induction xs)
  case (Cons x xs)
  have "set (dropWhile P xs) \<subseteq> set xs" by (auto dest: set_dropWhileD)
  with Cons show ?case by auto
qed simp

lemma together_run: "\<forall>y \<in> set (dropWhile P xs). \<not> P y \<Longrightarrow> together P xs"
proof (cases xs)
  case (Cons x ys)
  assume a: "\<forall>y \<in> set (dropWhile P xs). \<not> P y"
  show ?thesis
  proof (cases "P x")
    case True then show ?thesis using a unfolding Cons dropWhile.simps together.simps by metis
  next
    case False
    then have "\<forall>y \<in> set xs. \<not> P y" using a unfolding Cons dropWhile.simps by metis
    then show ?thesis by (rule together_none)
  qed
qed simp

lemma take_run: "\<forall>y \<in> set (dropWhile P xs). \<not> P y \<Longrightarrow> take (length (filter P xs)) xs = filter P xs"
proof (induction xs)
  case (Cons x xs)
  show ?case
  proof (cases "P x")
    case True
    then have "take (length (filter P xs)) xs = filter P xs"
      using Cons unfolding dropWhile.simps by metis
    then show ?thesis using True by simp
  next
    case False
    then have "filter P (x # xs) = []"
      using Cons.prems unfolding dropWhile.simps filter_empty_conv by metis
    then show ?thesis by simp
  qed
qed simp

lemma together_filter: "together P xs \<Longrightarrow> together P (filter Q xs)"
proof (induction xs)
  case (Cons x xs)
  show ?case
  proof (cases "P x")
    case True
    then have n: "\<forall>y \<in> set (dropWhile P xs). \<not> P y" using Cons.prems by simp
    then have "\<forall>y \<in> set (dropWhile P (filter Q xs)). \<not> P y"
      using set_dropWhile_filter[of P Q xs] by blast
    then show ?thesis using True together_run[of P "filter Q xs"] by simp
  next
    case False
    then show ?thesis using Cons by simp
  qed
qed simp

lemma together_take:
  "together P xs \<Longrightarrow> take (length (filter P xs)) (dropWhile (\<lambda>x. \<not> P x) xs) = filter P xs"
proof (induction xs)
  case (Cons x xs)
  then show ?case using take_run[of P xs] by (cases "P x") simp_all
qed simp

lemma filter_head: "filter P xs = y # ys \<Longrightarrow> y \<in> set xs \<and> P y"
  by (metis filter_eq_ConsD in_set_conv_decomp)

lemma set_insert_before: "set (insert_before a e es) \<subseteq> insert e (set es)"
  by (induction es) auto

lemma set_dropWhile_insert_before:
  "set (dropWhile P (insert_before a e es)) \<subseteq> insert e (set (dropWhile P es)) \<or>
   (\<exists>x \<in> set es. addr x = a \<and> P x)"
proof (induction es)
  case (Cons x es)
  have "set (insert_before a e es) \<subseteq> insert e (set es)" by (rule set_insert_before)
  with Cons show ?case by auto
qed simp

lemma together_insert_other:
  assumes "together P es" "\<not> P e" "\<forall>x \<in> set es. addr x = a \<longrightarrow> \<not> P x"
  shows "together P (insert_before a e es)"
  using assms
proof (induction es)
  case (Cons x es)
  with set_dropWhile_insert_before[of P a e es] show ?case by auto
qed simp

lemma insert_before_same:
  assumes "together P es" "P e" "distinct (map addr es)" "filter P es = x # xs"
  shows "together P (insert_before (addr x) e es) \<and> filter P (insert_before (addr x) e es) = e # filter P es"
  using assms
proof (induction es)
  case (Cons y es)
  show ?case
  proof (cases "P y")
    case True with Cons show ?thesis by simp
  next
    case False
    then have "filter P es = x # xs" using Cons.prems by simp
    moreover from filter_head[OF this] have "addr y \<noteq> addr x" using Cons.prems(3) by auto
    ultimately show ?thesis using False Cons.IH Cons.prems by simp
  qed
qed simp

lemma filter_insert_other: "\<not> P e \<Longrightarrow> filter P (insert_before a e es) = filter P es"
  by (induction es) auto

lemma insert_before_perm:
  "a \<in> addr ` set es \<Longrightarrow> mset (insert_before a e es) = add_mset e (mset es)"
  by (induction es) auto

subsection \<open>The invariant\<close>

definition in_bucket :: "nat \<Rightarrow> nat \<Rightarrow> 'd helem \<Rightarrow> bool" where
  "in_bucket n h e \<longleftrightarrow> bucket_of n (pKey e) = h"

definition bucket_ok :: "(nat \<times> nat option) list \<Rightarrow> nat \<Rightarrow> 'd helem list \<Rightarrow> bool" where
  "bucket_ok t h es \<longleftrightarrow> together (in_bucket (length t) h) es \<and>
     fst (t ! h) = length (filter (in_bucket (length t) h) es) \<and>
     (case filter (in_bucket (length t) h) es of [] \<Rightarrow> True | e # _ \<Rightarrow> snd (t ! h) = Some (addr e))"

definition table_ok :: "nat \<Rightarrow> (nat \<times> nat option) list option \<Rightarrow> 'd helem list \<Rightarrow> bool" where
  "table_ok n tab es \<longleftrightarrow>
     (case tab of None \<Rightarrow> n = 0 | Some t \<Rightarrow> n = length t \<and> 0 < n \<and> (\<forall>h < n. bucket_ok t h es))"

definition fold_key :: "u8 list \<Rightarrow> u8 list" where "fold_key z = map UpperToLower z"

definition hash_ok :: "'d hash \<Rightarrow> bool" where
  "hash_ok pH \<longleftrightarrow> distinct (map (fold_key \<circ> pKey) (elems pH)) \<and> distinct (map addr (elems pH)) \<and>
     (\<forall>e \<in> set (elems pH). addr e < next_addr pH \<and> 0 \<notin> set (pKey e)) \<and>
     hcount pH = length (elems pH) \<and> table_ok (htsize pH) (ht pH) (elems pH)"

text \<open>Linking one element.\<close>

lemma insertElement_table:
  fixes pH :: "'d hash"
  assumes t: "ht pH = Some t" "\<forall>h < length t. bucket_ok t h (elems pH)"
    and d: "distinct (map addr (elems pH))" and h: "bucket_of (length t) (pKey e) = h" "h < length t"
  shows "\<exists>es t'. insertElement pH (Some h) e = pH\<lparr>ht := Some t', elems := es\<rparr> \<and>
    length t' = length t \<and> mset es = add_mset e (mset (elems pH)) \<and> (\<forall>h < length t'. bucket_ok t' h es)"
proof -
  define P :: "nat \<Rightarrow> 'd helem \<Rightarrow> bool" where "P = in_bucket (length t)"
  define t' where "t' = t[h := (length (filter (P h) (elems pH)) + 1, Some (addr e))]"
  have Pe: "P h e" "k \<noteq> h \<Longrightarrow> \<not> P k e" for k using h by (auto simp: P_def in_bucket_def)
  have b: "together (P k) (elems pH)" "fst (t ! k) = length (filter (P k) (elems pH))"
    "\<And>x xs. filter (P k) (elems pH) = x # xs \<Longrightarrow> snd (t ! k) = Some (addr x)" if "k < length t" for k
    using t(2) that by (auto simp: bucket_ok_def P_def split: list.splits)
  have ok: "bucket_ok t' k es'" if "k < length t"
    "together (P h) es'" "filter (P h) es' = e # filter (P h) (elems pH)"
    "k \<noteq> h \<Longrightarrow> together (P k) es'" "k \<noteq> h \<Longrightarrow> filter (P k) es' = filter (P k) (elems pH)" for k es'
    using that b[OF that(1)] h(2)
    by (cases "k = h") (auto simp: bucket_ok_def t'_def P_def split: list.splits)
  show ?thesis
  proof (cases "filter (P h) (elems pH)")
    case Nil
    then have i: "insertElement pH (Some h) e = pH\<lparr>ht := Some t', elems := e # elems pH\<rparr>"
      using t(1) b[OF h(2)] by (auto simp: insertElement_def t'_def split: prod.splits)
    have none: "\<forall>y \<in> set (elems pH). \<not> P h y" using Nil by (simp add: filter_empty_conv)
    have "bucket_ok t' k (e # elems pH)" if "k < length t" for k
      using ok[OF that, of "e # elems pH"] Pe b[OF that] Nil none
      by (auto dest: set_dropWhileD)
    then show ?thesis using i by (intro exI[of _ "e # elems pH"] exI[of _ t']) (simp add: t'_def)
  next
    case (Cons x xs)
    define es' where "es' = insert_before (addr x) e (elems pH)"
    have x: "x \<in> set (elems pH)" "P h x" using filter_head[OF Cons] by simp_all
    have i: "insertElement pH (Some h) e = pH\<lparr>ht := Some t', elems := es'\<rparr>"
      using t(1) b[OF h(2)] Cons by (auto simp: insertElement_def t'_def es'_def split: prod.splits)
    have same: "together (P h) es' \<and> filter (P h) es' = e # filter (P h) (elems pH)"
      unfolding es'_def using insert_before_same[OF b(1)[OF h(2)] Pe(1) d Cons] by simp
    have px: "\<not> P k x" if "k \<noteq> h" for k using x(2) that by (auto simp: P_def in_bucket_def)
    have "\<forall>y \<in> set (elems pH). addr y = addr x \<longrightarrow> y = x" using d x(1) by (auto simp: distinct_map inj_on_def)
    then have "bucket_ok t' k es'" if "k < length t" for k
      using ok[OF that, of es'] same Pe px b(1)[OF that] filter_insert_other[of "P k" e "addr x" "elems pH"]
        together_insert_other[of "P k" "elems pH" e "addr x"] unfolding es'_def by metis
    moreover have "mset es' = add_mset e (mset (elems pH))"
      unfolding es'_def using x(1) by (intro insert_before_perm) simp
    ultimately show ?thesis using i by (intro exI[of _ es'] exI[of _ t']) (simp add: t'_def)
  qed
qed

text \<open>Relinking all elements into a larger table.\<close>

lemma relink:
  assumes "ht pH = Some t" "length t = n" "0 < n" "\<forall>h < n. bucket_ok t h (elems pH)"
    "distinct (map addr (elems pH @ old))"
  shows "\<exists>es t'. foldl (\<lambda>pH e. insertElement pH (Some (bucket_of n (pKey e))) e) pH old =
      pH\<lparr>ht := Some t', elems := es\<rparr> \<and> length t' = n \<and> mset es = mset (elems pH) + mset old \<and>
      (\<forall>h < n. bucket_ok t' h es)"
  using assms
proof (induction old arbitrary: pH t)
  case Nil
  then show ?case by (intro exI[of _ "elems pH"] exI[of _ t]) simp
next
  case (Cons e old)
  have "bucket_of n (pKey e) < n" using Cons.prems(3) by (simp add: bucket_of_def)
  then obtain es t' where 1: "insertElement pH (Some (bucket_of n (pKey e))) e = pH\<lparr>ht := Some t', elems := es\<rparr>"
      "length t' = n" "mset es = add_mset e (mset (elems pH))" "\<forall>h < n. bucket_ok t' h es"
    using insertElement_table[of pH t e] Cons.prems by auto
  have "mset (map addr (es @ old)) = mset (map addr (elems pH @ e # old))" using 1(3) by simp
  then have "distinct (map addr (es @ old))" using Cons.prems(5) by (metis mset_eq_imp_distinct_iff)
  with Cons.IH[of "pH\<lparr>ht := Some t', elems := es\<rparr>" t'] 1 Cons.prems(3) show ?case by auto
qed

lemma rehash_spec:
  assumes "rehash slack m pH new_size = (b, pH', m')" "0 < new_size" "distinct (map addr (elems pH))"
    "table_ok (htsize pH) (ht pH) (elems pH)"
  shows "\<exists>n t es. pH' = pH\<lparr>htsize := n, ht := t, elems := es\<rparr> \<and> table_ok n t es \<and>
    mset es = mset (elems pH) \<and> (b \<longrightarrow> t \<noteq> None) \<and> (\<not> b \<longrightarrow> pH' = pH)"
proof -
  define k where "k = (if new_size * sizeof_ht > SQLITE_MALLOC_SOFT_LIMIT
    then SQLITE_MALLOC_SOFT_LIMIT div sizeof_ht else new_size)"
  define n where "n = (k * sizeof_ht + slack (k * sizeof_ht)) div sizeof_ht"
  have "0 < k" using assms(2) by (simp add: k_def sizeof_ht_def SQLITE_MALLOC_SOFT_LIMIT_def)
  moreover have "k * sizeof_ht div sizeof_ht \<le> n" unfolding n_def by (rule div_le_mono) simp
  ultimately have n: "0 < n" by (simp add: sizeof_ht_def)
  show ?thesis
  proof (cases "k = htsize pH \<or> \<not> fst (malloc_step m)")
    case True
    then have "\<not> b \<and> pH' = pH"
      using assms(1) by (auto simp: rehash_def k_def[symmetric] Let_def split: prod.splits bool.splits if_splits)
    then show ?thesis using assms(4)
      by (intro exI[of _ "htsize pH"] exI[of _ "ht pH"] exI[of _ "elems pH"]) simp
  next
    case False
    let ?p = "pH\<lparr>ht := Some (replicate n (0, None)), htsize := n, elems := []\<rparr>"
    have "distinct (map addr (elems ?p @ elems pH))" using assms(3) by simp
    then obtain es t' where
      "foldl (\<lambda>pH e. insertElement pH (Some (bucket_of n (pKey e))) e) ?p (elems pH) =
        ?p\<lparr>ht := Some t', elems := es\<rparr>" "length t' = n" "mset es = mset (elems pH)"
      "\<forall>h < n. bucket_ok t' h es"
      using relink[of ?p "replicate n (0, None)" n "elems pH"] n by (auto simp: bucket_ok_def)
    moreover from this have "pH' = ?p\<lparr>ht := Some t', elems := es\<rparr> \<and> b"
      using assms(1) False
      by (auto simp: rehash_def k_def[symmetric] n_def[symmetric] Let_def split: prod.splits bool.splits)
    ultimately show ?thesis using n
      by (intro exI[of _ n] exI[of _ "Some t'"] exI[of _ es]) (simp add: table_ok_def)
  qed
qed

subsection \<open>Searching\<close>

lemma find_loop_take:
  "n \<le> length es \<Longrightarrow> find_loop n es z = Some (find (\<lambda>e. sqlite3StrICmp (pKey e) z = 0) (take n es))"
  by (induction n es z rule: find_loop.induct) auto

lemma dropWhile_addr:
  assumes "distinct (map addr es)" "filter P es = x # xs"
  shows "dropWhile (\<lambda>e. addr e \<noteq> addr x) es = dropWhile (\<lambda>e. \<not> P e) es"
  using assms
proof (induction es)
  case (Cons y es)
  show ?case
  proof (cases "P y")
    case False
    then have f: "filter P es = x # xs" using Cons.prems by simp
    from filter_head[OF this] have "addr y \<noteq> addr x" using Cons.prems(1) by auto
    then show ?thesis using False Cons.IH f Cons.prems by simp
  qed (use Cons in simp)
qed simp

lemma strHash_fold:
  assumes "0 \<notin> set z"
  shows "strHash z = foldl (\<lambda>h c. (h + ucast c) * 0x9e3779b1) 0 (fold_key z)"
proof -
  have "\<forall>c \<in> set z. c \<noteq> 0" using assms by auto
  then have "takeWhile (\<lambda>c. c \<noteq> 0) z = z" by (rule takeWhile_eq_all_conv[THEN iffD2])
  moreover have "foldl (\<lambda>h c. (h + ucast (UpperToLower c)) * 0x9e3779b1) h z =
      foldl (\<lambda>h c. (h + ucast c) * 0x9e3779b1) h (map UpperToLower z)" for h :: u32
    by (induction z arbitrary: h) auto
  ultimately show ?thesis unfolding strHash_def fold_key_def by (simp only:)
qed

lemma find_spec:
  assumes "hash_ok pH" "0 \<notin> set z"
  shows "\<exists>r h. findElementWithHash pH z = Some (r, h) \<and>
    (ht pH \<noteq> None \<longrightarrow> h = bucket_of (htsize pH) z) \<and>
    (case r of None \<Rightarrow> \<forall>e \<in> set (elems pH). fold_key (pKey e) \<noteq> fold_key z
     | Some e \<Rightarrow> e \<in> set (elems pH) \<and> fold_key (pKey e) = fold_key z)"
proof -
  let ?M = "\<lambda>e. sqlite3StrICmp (pKey e) z = 0"
  have M: "?M e \<longleftrightarrow> fold_key (pKey e) = fold_key z" if "e \<in> set (elems pH)" for e
    using StrICmp_spec[of "pKey e" z] assms that by (auto simp: hash_ok_def fold_key_def)
  have res: "case find ?M xs of None \<Rightarrow> \<forall>e \<in> set (elems pH). fold_key (pKey e) \<noteq> fold_key z
      | Some e \<Rightarrow> e \<in> set (elems pH) \<and> fold_key (pKey e) = fold_key z"
    if "set xs \<subseteq> set (elems pH)" "\<And>e. e \<in> set (elems pH) \<Longrightarrow> fold_key (pKey e) = fold_key z \<Longrightarrow> e \<in> set xs" for xs
  proof (cases "find ?M xs")
    case None
    then have "\<forall>e \<in> set xs. \<not> ?M e" by (simp add: find_None_iff)
    with M that(2) show ?thesis unfolding None by simp blast
  next
    case (Some e)
    then have "e \<in> set xs \<and> ?M e" by (auto simp: find_Some_iff)
    then show ?thesis using Some M that(1) by auto
  qed
  show ?thesis
  proof (cases "ht pH")
    case None
    then have "findElementWithHash pH z = Some (find ?M (elems pH), 0)"
      using assms(1) by (simp add: findElementWithHash_def hash_ok_def find_loop_take)
    then show ?thesis using res[of "elems pH"] None by simp
  next
    case (Some t)
    define h where "h = bucket_of (htsize pH) z"
    define P where "P = (in_bucket (length t) h :: 'a helem \<Rightarrow> bool)"
    have n: "htsize pH = length t" "h < length t" and b: "bucket_ok t h (elems pH)"
      using assms(1) Some by (auto simp: hash_ok_def table_ok_def h_def bucket_of_def)
    have d: "distinct (map addr (elems pH))" using assms(1) by (simp add: hash_ok_def)
    have same: "P e" if "e \<in> set (elems pH)" "fold_key (pKey e) = fold_key z" for e
      using that assms n strHash_fold[of "pKey e"] strHash_fold[of z]
      by (auto simp: P_def in_bucket_def h_def bucket_of_def hash_ok_def)
    have "find_loop (fst (t ! h)) (from_addr (snd (t ! h)) (elems pH)) z = Some (find ?M (filter P (elems pH)))"
    proof (cases "filter P (elems pH)")
      case Nil
      then show ?thesis using b by (simp add: bucket_ok_def P_def[symmetric])
    next
      case (Cons x xs)
      have f: "from_addr (snd (t ! h)) (elems pH) = dropWhile (\<lambda>e. \<not> P e) (elems pH)"
        using b Cons dropWhile_addr[OF d Cons] by (simp add: bucket_ok_def P_def[symmetric] from_addr_def)
      have "take (length (filter P (elems pH))) (dropWhile (\<lambda>e. \<not> P e) (elems pH)) = filter P (elems pH)"
        using b together_take by (auto simp: bucket_ok_def P_def)
      moreover from this have "length (filter P (elems pH)) \<le> length (dropWhile (\<lambda>e. \<not> P e) (elems pH))"
        by (metis length_take min.cobounded1)
      ultimately show ?thesis using b f
        by (simp add: bucket_ok_def P_def[symmetric] find_loop_take)
    qed
    then have "findElementWithHash pH z = Some (find ?M (filter P (elems pH)), h)"
      using Some by (simp add: findElementWithHash_def h_def Let_def)
    then show ?thesis using res[of "filter P (elems pH)"] same h_def by auto
  qed
qed

subsection \<open>The table as a map\<close>

definition hash_map :: "'d hash \<Rightarrow> u8 list \<Rightarrow> 'd option" where
  "hash_map pH = map_of (map (\<lambda>e. (fold_key (pKey e), data e)) (elems pH))"

lemma hash_map_Some:
  assumes "distinct (map (fold_key \<circ> pKey) (elems pH))"
  shows "hash_map pH k = Some v \<longleftrightarrow> (\<exists>e \<in> set (elems pH). fold_key (pKey e) = k \<and> data e = v)"
proof -
  have "distinct (map fst (map (\<lambda>e. (fold_key (pKey e), data e)) (elems pH)))"
    using assms by (simp add: comp_def)
  from map_of_eq_Some_iff[OF this] show ?thesis unfolding hash_map_def by auto
qed

lemma map_eqI: "(\<And>k v. f k = Some v \<longleftrightarrow> g k = Some v) \<Longrightarrow> f = g"
  by (metis ext option.exhaust)

lemma hash_map_None: "hash_map pH k = None \<longleftrightarrow> (\<forall>e \<in> set (elems pH). fold_key (pKey e) \<noteq> k)"
  unfolding hash_map_def map_of_eq_None_iff by (simp add: image_image) blast

lemma hash_map_mset:
  assumes "distinct (map (fold_key \<circ> pKey) (elems pH))" "mset (elems pH') = mset (elems pH)"
  shows "hash_map pH' = hash_map pH"
proof -
  have "mset (map (fold_key \<circ> pKey) (elems pH')) = mset (map (fold_key \<circ> pKey) (elems pH))"
    using assms(2) by simp
  then have d: "distinct (map (fold_key \<circ> pKey) (elems pH'))" using assms(1) by (metis mset_eq_imp_distinct_iff)
  have s: "set (elems pH') = set (elems pH)" using assms(2) by (rule mset_eq_setD)
  have "hash_map pH' k = Some v \<longleftrightarrow> hash_map pH k = Some v" for k v
    by (simp only: hash_map_Some[OF d] hash_map_Some[OF assms(1)] s)
  then show ?thesis by (rule map_eqI)
qed

lemma hash_find:
  assumes "hash_ok pH" "0 \<notin> set z"
  shows "sqlite3HashFind pH z = Some (hash_map pH (fold_key z))"
proof -
  obtain r h where f: "findElementWithHash pH z = Some (r, h)"
    "case r of None \<Rightarrow> \<forall>e \<in> set (elems pH). fold_key (pKey e) \<noteq> fold_key z
     | Some e \<Rightarrow> e \<in> set (elems pH) \<and> fold_key (pKey e) = fold_key z"
    using find_spec[OF assms] by blast
  have d: "distinct (map (fold_key \<circ> pKey) (elems pH))" using assms(1) by (simp add: hash_ok_def)
  have "map_option data r = hash_map pH (fold_key z)"
  proof (cases r)
    case None
    then have "hash_map pH (fold_key z) = None" using f(2) by (simp add: hash_map_None)
    then show ?thesis using None by simp
  next
    case (Some e)
    then have "hash_map pH (fold_key z) = Some (data e)" using f(2) by (auto simp: hash_map_Some[OF d])
    then show ?thesis using Some by simp
  qed
  then show ?thesis using f(1) by (simp add: sqlite3HashFind_def)
qed

subsection \<open>Insertion, replacement, removal\<close>

text \<open>The table only looks at the addresses and the buckets of the elements.\<close>

definition alike :: "'d helem \<Rightarrow> 'd helem \<Rightarrow> bool" where
  "alike x y \<longleftrightarrow> addr x = addr y \<and> (\<forall>n. bucket_of n (pKey x) = bucket_of n (pKey y))"

lemma together_alike:
  assumes "list_all2 alike xs ys"
  shows "together (in_bucket n h) xs = together (in_bucket n h) ys \<and>
    map addr (filter (in_bucket n h) xs) = map addr (filter (in_bucket n h) ys)"
  using assms
proof (induction rule: list_all2_induct)
  case (Cons x xs y ys)
  have "(\<forall>z \<in> set (dropWhile (in_bucket n h) us). \<not> in_bucket n h z) \<longleftrightarrow>
      (\<forall>z \<in> set (dropWhile (in_bucket n h) vs). \<not> in_bucket n h z)" if "list_all2 alike us vs" for us vs
    using that
  proof (induction rule: list_all2_induct)
    case (Cons u us v vs)
    have "(\<forall>z \<in> set us. \<not> in_bucket n h z) \<longleftrightarrow> (\<forall>z \<in> set vs. \<not> in_bucket n h z)"
      using Cons(2) by (induction rule: list_all2_induct) (auto simp: alike_def in_bucket_def)
    then show ?case using Cons by (simp add: alike_def in_bucket_def)
  qed simp
  from this[OF Cons(2)] have "(\<forall>z \<in> set (dropWhile (in_bucket n h) xs). \<not> in_bucket n h z) \<longleftrightarrow>
      (\<forall>z \<in> set (dropWhile (in_bucket n h) ys). \<not> in_bucket n h z)" .
  moreover have "in_bucket n h x = in_bucket n h y" "addr x = addr y"
    using Cons(1) by (simp_all add: alike_def in_bucket_def)
  ultimately show ?case using Cons(3) by simp
qed simp

lemma table_ok_alike:
  assumes "list_all2 alike xs ys"
  shows "table_ok n t xs = table_ok n t ys"
proof -
  have "bucket_ok u h xs = bucket_ok u h ys" for u h
  proof -
    have m: "map addr (filter (in_bucket (length u) h) xs) = map addr (filter (in_bucket (length u) h) ys)"
      using together_alike[OF assms] by blast
    from arg_cong[where f = length, OF m] have
      "length (filter (in_bucket (length u) h) xs) = length (filter (in_bucket (length u) h) ys)" by simp
    then show ?thesis using m together_alike[OF assms, of "length u" h]
      by (auto simp: bucket_ok_def split: list.splits)
  qed
  then show ?thesis by (simp add: table_ok_def split: option.split)
qed

lemma hash_replace:
  assumes ok: "hash_ok pH" and z: "0 \<notin> set z" and e: "e \<in> set (elems pH)" "fold_key (pKey e) = fold_key z"
    and pH': "pH' = pH\<lparr>elems := map (\<lambda>x. if addr x = addr e then x\<lparr>data := v, pKey := z\<rparr> else x) (elems pH)\<rparr>"
  shows "hash_ok pH' \<and> hash_map pH' = (hash_map pH)(fold_key z \<mapsto> v)"
proof -
  let ?f = "\<lambda>x. if addr x = addr e then x\<lparr>data := v, pKey := z\<rparr> else x"
  have d: "distinct (map (fold_key \<circ> pKey) (elems pH))" "distinct (map addr (elems pH))"
    using ok by (simp_all add: hash_ok_def)
  have u: "addr x = addr e \<longleftrightarrow> x = e" "fold_key (pKey x) = fold_key z \<longleftrightarrow> x = e" if "x \<in> set (elems pH)" for x
    using d that e by (auto simp: distinct_map inj_on_def)
  have k: "fold_key (pKey (?f x)) = fold_key (pKey x)" if "x \<in> set (elems pH)" for x
    using u[OF that] e(2) by auto
  have nz: "0 \<notin> set (pKey x)" "0 \<notin> set (pKey (?f x))" if "x \<in> set (elems pH)" for x
    using ok that z by (auto simp: hash_ok_def)
  have "alike x (?f x)" if "x \<in> set (elems pH)" for x
    using strHash_fold[OF nz(1)[OF that]] strHash_fold[OF nz(2)[OF that]] k[OF that]
    by (simp add: alike_def bucket_of_def)
  then have "list_all2 alike (elems pH) (map ?f (elems pH))" by (simp add: list_all2_conv_all_nth)
  from table_ok_alike[OF this] have t: "table_ok (htsize pH') (ht pH') (elems pH')"
    using ok by (simp add: hash_ok_def pH')
  have "map (fold_key \<circ> pKey) (elems pH') = map (fold_key \<circ> pKey) (elems pH)"
    "map addr (elems pH') = map addr (elems pH)" using k by (simp_all add: pH')
  with d have d': "distinct (map (fold_key \<circ> pKey) (elems pH'))" "distinct (map addr (elems pH'))" by simp_all
  have "\<forall>x \<in> set (elems pH'). addr x < next_addr pH' \<and> 0 \<notin> set (pKey x)"
    using z ok by (auto simp: pH' hash_ok_def)
  then have "hash_ok pH'" using d' t ok by (simp add: hash_ok_def pH')
  moreover have "hash_map pH' q = Some w \<longleftrightarrow> ((hash_map pH)(fold_key z \<mapsto> v)) q = Some w" for q w
  proof -
    have "hash_map pH' q = Some w \<longleftrightarrow> (\<exists>x \<in> set (elems pH). fold_key (pKey (?f x)) = q \<and> data (?f x) = w)"
      unfolding hash_map_Some[OF d'(1)] by (simp add: pH' del: if_image_distrib)
    also have "\<dots> \<longleftrightarrow> (\<exists>x \<in> set (elems pH). fold_key (pKey x) = q \<and> (if x = e then v else data x) = w)"
      using k u(1) by auto
    finally show ?thesis using u(2) e by (auto simp: hash_map_Some[OF d(1)])
  qed
  ultimately show ?thesis by (intro conjI map_eqI)
qed


lemma filter_distinct_one:
  assumes "distinct (map addr es)" "e \<in> set es"
  shows "length (filter (\<lambda>x. addr x \<noteq> addr e) es) = length es - 1"
  using assms
proof (induction es)
  case (Cons x es)
  show ?case
  proof (cases "x = e")
    case True
    then have "filter (\<lambda>y. addr y \<noteq> addr e) es = es"
      using Cons.prems(1) by (intro filter_True) (auto simp: image_iff)
    then show ?thesis using True by simp
  next
    case False
    then have "e \<in> set es" "addr x \<noteq> addr e" using Cons.prems by auto
    moreover from this have "0 < length es" by (cases es) auto
    ultimately show ?thesis using Cons by simp
  qed
qed simp

lemma remove_bucket:
  fixes es :: "'d helem list"
  assumes b: "bucket_ok t k es" and d: "distinct (map addr es)" and e: "e \<in> set es"
    and h: "bucket_of (length t) (pKey e) = h" "h < length t" "k < length t"
    and nxt: "nxt = (case tl (from_addr (Some (addr e)) es) of [] \<Rightarrow> None | y # _ \<Rightarrow> Some (addr y))"
  shows "bucket_ok (t[h := (fst (t ! h) - 1, if snd (t ! h) = Some (addr e) then nxt else snd (t ! h))]) k
    (filter (\<lambda>x. addr x \<noteq> addr e) es)"
proof -
  define P where "P = (in_bucket (length t) k :: 'd helem \<Rightarrow> bool)"
  let ?Q = "\<lambda>x. addr x \<noteq> addr e"
  from b have B: "together P es" "fst (t ! k) = length (filter P es)"
    "\<And>x xs. filter P es = x # xs \<Longrightarrow> snd (t ! k) = Some (addr x)"
    by (auto simp: bucket_ok_def P_def split: list.splits)
  have comm: "filter P (filter ?Q es) = filter ?Q (filter P es)" by (simp add: conj_commute)
  have tg: "together P (filter ?Q es)" using B(1) by (rule together_filter)
  show ?thesis
  proof (cases "k = h")
    case False
    then have "\<not> P e" using h(1) by (simp add: P_def in_bucket_def)
    then have "\<forall>x \<in> set (filter P es). ?Q x" using d e by (auto simp: distinct_map inj_on_def)
    then have "filter ?Q (filter P es) = filter P es" by (rule filter_True)
    then show ?thesis using False B tg comm by (auto simp: bucket_ok_def P_def split: list.splits)
  next
    case True
    then have pe: "e \<in> set (filter P es)" using h(1) e by (simp add: P_def in_bucket_def)
    have df: "distinct (map addr (filter P es))" using d by (rule distinct_map_filter)
    note len = filter_distinct_one[OF df pe]
    obtain x xs where x: "filter P es = x # xs" using pe by (cases "filter P es") auto
    have "(if snd (t ! h) = Some (addr e) then nxt else snd (t ! h)) = Some (addr y)"
      if y: "filter ?Q (filter P es) = y # ys" for y ys
    proof (cases "addr x = addr e")
      case False
      then show ?thesis using y x B(3)[OF x] True by auto
    next
      case same: True
      have "\<forall>z \<in> set xs. ?Q z" using df x same by (auto simp: image_iff)
      then have xs: "xs = y # ys" using y x same by (simp add: filter_True)
      have "take (length (filter P es)) (dropWhile (\<lambda>z. \<not> P z) es) = x # y # ys"
        using together_take[OF B(1)] x xs by simp
      then have "hd (tl (dropWhile (\<lambda>z. \<not> P z) es)) = y" "tl (dropWhile (\<lambda>z. \<not> P z) es) \<noteq> []"
        by (cases "dropWhile (\<lambda>z. \<not> P z) es"; cases "tl (dropWhile (\<lambda>z. \<not> P z) es)"; auto simp: x xs)+
      then have "nxt = Some (addr y)"
        using dropWhile_addr[OF d x] same unfolding nxt from_addr_def by (auto split: list.splits)
      then show ?thesis using B(3)[OF x] True same by simp
    qed
    then show ?thesis using True B tg comm len h unfolding P_def
      by (auto simp: bucket_ok_def simp del: filter_filter split: list.splits)
  qed
qed

lemma hash_remove:
  assumes ok: "hash_ok pH" and e: "e \<in> set (elems pH)"
    and h: "ht pH \<noteq> None \<longrightarrow> h = bucket_of (htsize pH) (pKey e)"
  shows "hash_ok (removeElementGivenHash pH e h) \<and>
    hash_map (removeElementGivenHash pH e h) = (hash_map pH)(fold_key (pKey e) := None)"
proof -
  define nxt where "nxt = (case tl (from_addr (Some (addr e)) (elems pH)) of [] \<Rightarrow> None | y # _ \<Rightarrow> Some (addr y))"
  define q where "q = pH\<lparr>elems := filter (\<lambda>x. addr x \<noteq> addr e) (elems pH),
    ht := (case ht pH of None \<Rightarrow> None | Some t \<Rightarrow> Some (t[h := (fst (t ! h) - 1,
      if snd (t ! h) = Some (addr e) then nxt else snd (t ! h))])), hcount := hcount pH - 1\<rparr>"
  have r: "removeElementGivenHash pH e h = (if hcount q = 0 then sqlite3HashClear q else q)"
    unfolding removeElementGivenHash_def q_def nxt_def Let_def by simp
  have d: "distinct (map (fold_key \<circ> pKey) (elems pH))" "distinct (map addr (elems pH))"
    using ok by (simp_all add: hash_ok_def)
  have "table_ok (htsize q) (ht q) (elems q)"
  proof (cases "ht pH")
    case None then show ?thesis using ok by (simp add: hash_ok_def table_ok_def q_def)
  next
    case (Some t)
    then have n: "htsize pH = length t" "0 < length t" "\<forall>k < length t. bucket_ok t k (elems pH)"
      using ok by (auto simp: hash_ok_def table_ok_def)
    then have "h < length t" "bucket_of (length t) (pKey e) = h" using h Some by (auto simp: bucket_of_def)
    with n Some remove_bucket[OF _ d(2) e _ _ _ nxt_def] show ?thesis by (simp add: table_ok_def q_def)
  qed
  then have q: "hash_ok q"
    using ok filter_distinct_one[OF d(2) e] by (auto simp: hash_ok_def q_def distinct_map_filter)
  have u: "addr x = addr e \<longleftrightarrow> x = e" "fold_key (pKey x) = fold_key (pKey e) \<longleftrightarrow> x = e" if "x \<in> set (elems pH)" for x
    using d that e by (auto simp: distinct_map inj_on_def)
  have dq: "distinct (map (fold_key \<circ> pKey) (elems q))" using q by (simp add: hash_ok_def)
  have sq: "set (elems q) = {x \<in> set (elems pH). addr x \<noteq> addr e}" by (simp add: q_def)
  have "hash_map q k = Some w \<longleftrightarrow> ((hash_map pH)(fold_key (pKey e) := None)) k = Some w" for k w
    unfolding fun_upd_apply using u by (auto simp: hash_map_Some[OF dq] hash_map_Some[OF d(1)] sq)
  then have m: "hash_map q = (hash_map pH)(fold_key (pKey e) := None)" by (intro map_eqI)
  show ?thesis
  proof (cases "hcount q = 0")
    case True
    then have "elems q = []" using q by (simp add: hash_ok_def)
    then have "hash_map q = hash_map (sqlite3HashClear q)" by (simp add: hash_map_def sqlite3HashClear_def)
    then show ?thesis using r True m by (simp add: hash_ok_def table_ok_def sqlite3HashClear_def)
  qed (use r q m in simp)
qed


lemma hash_link:
  assumes ok: "hash_ok pH" and new: "\<forall>e \<in> set (elems pH). fold_key (pKey e) \<noteq> fold_key z" "0 \<notin> set z"
    and q: "q = pH\<lparr>next_addr := next_addr pH + 1, hcount := hcount pH + 1, htsize := n, ht := t, elems := es\<rparr>"
    and t: "table_ok n t es" "mset es = mset (elems pH)" and h: "t \<noteq> None \<longrightarrow> h = bucket_of n z"
  shows "hash_ok (insertElement q (if t \<noteq> None then Some h else None) \<lparr>addr = next_addr pH, pKey = z, data = v\<rparr>) \<and>
    hash_map (insertElement q (if t \<noteq> None then Some h else None) \<lparr>addr = next_addr pH, pKey = z, data = v\<rparr>) =
      (hash_map pH)(fold_key z \<mapsto> v)"
proof -
  define e where "e = \<lparr>addr = next_addr pH, pKey = z, data = v\<rparr>"
  define r where "r = insertElement q (if t \<noteq> None then Some h else None) e"
  from mset_eq_setD[OF t(2)] have s: "set es = set (elems pH)" .
  have "mset (map addr es) = mset (map addr (elems pH))" using t(2) by simp
  then have d: "distinct (map addr es)" using ok by (metis hash_ok_def mset_eq_imp_distinct_iff)
  have "\<exists>us t'. r = q\<lparr>ht := t', elems := us\<rparr> \<and> mset us = add_mset e (mset es) \<and> table_ok n t' us"
  proof (cases t)
    case None
    then show ?thesis using t(1)
      by (intro exI[of _ "e # es"] exI[of _ None])
        (simp add: r_def insertElement_def q table_ok_def)
  next
    case (Some u)
    then have n: "n = length u" "0 < n" "\<forall>k < length u. bucket_ok u k (elems q)" and u: "ht q = Some u"
      using t(1) by (auto simp: table_ok_def q)
    then have "bucket_of (length u) (pKey e) = h" "h < length u" using h Some by (auto simp: e_def bucket_of_def)
    from insertElement_table[OF u n(3) _ this] d obtain us t' where
      "insertElement q (Some h) e = q\<lparr>ht := Some t', elems := us\<rparr>" "length t' = length u"
      "mset us = add_mset e (mset (elems q))" "\<forall>k < length t'. bucket_ok t' k us" by (auto simp: q)
    then show ?thesis using Some n(1,2)
      by (intro exI[of _ us] exI[of _ "Some t'"]) (simp add: r_def q table_ok_def)
  qed
  then obtain us t' where r: "r = q\<lparr>ht := t', elems := us\<rparr>" "mset us = add_mset e (mset (elems pH))"
    "table_ok n t' us" using t(2) by auto
  have su: "set us = insert e (set (elems pH))" using r(2) mset_eq_setD[of us "e # elems pH"] by simp
  have len: "length us = Suc (length (elems pH))" using r(2) by (metis size_mset size_add_mset)
  have p: "distinct (map (fold_key \<circ> pKey) us) = distinct (map (fold_key \<circ> pKey) (e # elems pH))"
    "distinct (map addr us) = distinct (map addr (e # elems pH))"
    by (rule mset_eq_imp_distinct_iff, simp add: r(2))+
  have "addr e \<notin> addr ` set (elems pH)" "\<forall>x \<in> set us. addr x < next_addr pH + 1 \<and> 0 \<notin> set (pKey x)"
    using ok new(2) by (auto simp: hash_ok_def su e_def less_Suc_eq)
  moreover have "fold_key (pKey e) \<notin> (fold_key \<circ> pKey) ` set (elems pH)" using new(1) by (auto simp: e_def)
  ultimately have "hash_ok r" using ok r(1,3) len p by (simp add: hash_ok_def q)
  moreover have "hash_map r k = Some w \<longleftrightarrow> ((hash_map pH)(fold_key z \<mapsto> v)) k = Some w" for k w
  proof -
    have dr: "distinct (map (fold_key \<circ> pKey) (elems r))" using \<open>hash_ok r\<close> by (simp add: hash_ok_def)
    have dp: "distinct (map (fold_key \<circ> pKey) (elems pH))" using ok by (simp add: hash_ok_def)
    have sr: "set (elems r) = insert e (set (elems pH))" using r(1) su by simp
    show ?thesis using new(1) unfolding fun_upd_apply
      by (auto simp: hash_map_Some[OF dr] hash_map_Some[OF dp] sr e_def)
  qed
  ultimately show ?thesis unfolding r_def e_def by (intro conjI map_eqI)
qed

lemma hash_insert:
  assumes ok: "hash_ok pH" and z: "0 \<notin> set z"
  shows "\<exists>r q m'. sqlite3HashInsert slack m pH z d = Some (r, q, m') \<and> hash_ok q \<and>
    (r = hash_map pH (fold_key z) \<and> hash_map q = (hash_map pH)(fold_key z := d) \<or>
     hash_map pH (fold_key z) = None \<and> d \<noteq> None \<and> r = d \<and> q = pH)"
proof -
  obtain f h where f: "findElementWithHash pH z = Some (f, h)" "ht pH \<noteq> None \<longrightarrow> h = bucket_of (htsize pH) z"
    "case f of None \<Rightarrow> \<forall>e \<in> set (elems pH). fold_key (pKey e) \<noteq> fold_key z
     | Some e \<Rightarrow> e \<in> set (elems pH) \<and> fold_key (pKey e) = fold_key z"
    using find_spec[OF assms] by blast
  show ?thesis
  proof (cases f)
    case (Some e)
    then have e: "e \<in> set (elems pH)" "fold_key (pKey e) = fold_key z" using f(3) by simp_all
    have "sqlite3HashFind pH z = Some (Some (data e))" using f(1) Some by (simp add: sqlite3HashFind_def)
    then have m: "hash_map pH (fold_key z) = Some (data e)" using hash_find[OF assms] by simp
    have "0 \<notin> set (pKey e)" using ok e(1) by (simp add: hash_ok_def)
    then have "bucket_of n (pKey e) = bucket_of n z" for n
      using strHash_fold[of "pKey e"] strHash_fold[OF z] e(2) by (simp add: bucket_of_def)
    with hash_remove[OF ok e(1), of h] hash_replace[OF ok z e refl] f(1,2) m Some e(2) show ?thesis
      by (cases d) (auto simp: sqlite3HashInsert_def)
  next
    case None
    then have n: "\<forall>e \<in> set (elems pH). fold_key (pKey e) \<noteq> fold_key z" using f(3) by simp
    then have m: "hash_map pH (fold_key z) = None" by (simp add: hash_map_None)
    show ?thesis
    proof (cases "d = None \<or> \<not> fst (malloc_step m)")
      case True
      then show ?thesis using f(1) None ok m
        by (auto simp: sqlite3HashInsert_def split: prod.splits bool.splits option.splits)
    next
      case False
      then obtain v m1 where v: "d = Some v" "malloc_step m = (True, m1)" by (cases "malloc_step m") auto
      define p where "p = pH\<lparr>next_addr := next_addr pH + 1, hcount := hcount pH + 1\<rparr>"
      define e where "e = \<lparr>addr = next_addr pH, pKey = z, data = v\<rparr>"
      obtain b p' m2 where rh: "rehash slack m1 p (hcount p * 2) = (b, p', m2)" by (metis prod_cases3)
      have tp: "table_ok (htsize p) (ht p) (elems p)" and dp: "distinct (map addr (elems p))"
        using ok by (simp_all add: hash_ok_def p_def)
      from rehash_spec[OF rh _ dp tp] obtain n t es where p': "p' = p\<lparr>htsize := n, ht := t, elems := es\<rparr>"
        "table_ok n t es" "mset es = mset (elems pH)" "b \<longrightarrow> t \<noteq> None" "\<not> b \<longrightarrow> p' = p"
        by (auto simp: p_def)
      have "htsize p' = n" "ht p' = t" using p'(1) by simp_all
      moreover have "htsize p = htsize pH" "ht p = ht pH" by (simp_all add: p_def)
      ultimately have keep: "\<not> b \<longrightarrow> n = htsize pH \<and> t = ht pH" using p'(5) by metis
      define h' where "h' = (if b then bucket_of n z else h)"
      have h': "t \<noteq> None \<longrightarrow> h' = bucket_of n z" using keep f(2) by (auto simp: h'_def)
      have p1: "p' = pH\<lparr>next_addr := next_addr pH + 1, hcount := hcount pH + 1, htsize := n, ht := t, elems := es\<rparr>"
        using p'(1) by (simp add: p_def)
      have p0: "p = pH\<lparr>next_addr := next_addr pH + 1, hcount := hcount pH + 1, htsize := htsize pH,
          ht := ht pH, elems := elems pH\<rparr>" by (simp add: p_def)
      note L1 = hash_link[OF ok n z p1 p'(2,3) h', of v]
      note L0 = hash_link[OF ok n z p0 _ refl f(2), of v]
      have t0: "table_ok (htsize pH) (ht pH) (elems pH)" using ok by (simp add: hash_ok_def)
      have ins: "sqlite3HashInsert slack m pH z d =
          (let (h, pH, m) = (if hcount p \<ge> 10 \<and> hcount p > 2 * htsize p then
              (case rehash slack m1 p (hcount p * 2) of
                 (True, pH, m) \<Rightarrow> (bucket_of (htsize pH) z, pH, m)
               | (False, pH, m) \<Rightarrow> (h, pH, m)) else (h, p, m1))
           in Some (None, insertElement pH (if ht pH \<noteq> None then Some h else None) e, m))"
        using f(1) None v unfolding p_def e_def by (simp add: sqlite3HashInsert_def Let_def)
      show ?thesis
      proof (cases "hcount p \<ge> 10 \<and> hcount p > 2 * htsize p")
        case True
        then have "sqlite3HashInsert slack m pH z d = Some (None,
            insertElement p' (if t \<noteq> None then Some h' else None) e, m2)"
          using ins rh \<open>htsize p' = n\<close> \<open>ht p' = t\<close> unfolding h'_def by (cases b) auto
        then show ?thesis using L1 m v(1) by (simp add: e_def)
      next
        case False
        then have "sqlite3HashInsert slack m pH z d = Some (None,
            insertElement p (if ht pH \<noteq> None then Some h else None) e, m1)"
          using ins \<open>ht p = ht pH\<close> by auto
        then show ?thesis using L0[OF t0] m v(1) by (simp add: e_def)
      qed
    qed
  qed
qed

subsection \<open>The contract of a dictionary\<close>

text \<open>
  What the schema code expects of a name table: looking up a key, and an insertion that returns
  the previous data, deletes when the data is null, and hands the new data back when it ran out
  of memory. Keys count up to \<open>norm\<close>.
\<close>

fun run_puts :: "(oom \<Rightarrow> 's \<Rightarrow> 'k \<Rightarrow> 'v option \<Rightarrow> ('v option \<times> 's \<times> oom) option) \<Rightarrow>
    oom \<Rightarrow> 's \<Rightarrow> ('k \<times> 'v option) list \<Rightarrow> ('v option list \<times> 's \<times> oom) option" where
  "run_puts put m s [] = Some ([], s, m)"
| "run_puts put m s ((k, d) # ops) =
     (case put m s k d of None \<Rightarrow> None
      | Some (r, s, m) \<Rightarrow>
          (case run_puts put m s ops of None \<Rightarrow> None | Some (rs, s, m) \<Rightarrow> Some (r # rs, s, m)))"

text \<open>
  The map semantics of a run: each operation returns the old value of the key and stores the
  new one, or, when memory ran out for a new key, returns the new value and stores nothing.
\<close>

fun spec_puts :: "('k \<Rightarrow> 'n) \<Rightarrow> ('n \<Rightarrow> 'v option) \<Rightarrow> ('k \<times> 'v option) list \<Rightarrow> 'v option list \<Rightarrow>
    ('n \<Rightarrow> 'v option) \<Rightarrow> bool" where
  "spec_puts norm M [] rs M' = (rs = [] \<and> M' = M)"
| "spec_puts norm M ((k, d) # ops) rs M' =
     (\<exists>r rs'. rs = r # rs' \<and>
        (r = M (norm k) \<and> spec_puts norm (M(norm k := d)) ops rs' M' \<or>
         M (norm k) = None \<and> d \<noteq> None \<and> r = d \<and> spec_puts norm M ops rs' M'))"

locale dictionary =
  fixes look :: "'s \<Rightarrow> 'k \<Rightarrow> 'v option option"
    and put :: "oom \<Rightarrow> 's \<Rightarrow> 'k \<Rightarrow> 'v option \<Rightarrow> ('v option \<times> 's \<times> oom) option"
    and norm :: "'k \<Rightarrow> 'n"
    and key_ok :: "'k \<Rightarrow> bool"
    and ok :: "'s \<Rightarrow> bool"
    and entries :: "'s \<Rightarrow> 'n \<Rightarrow> 'v option"
  assumes look_law: "ok s \<Longrightarrow> key_ok k \<Longrightarrow> look s k = Some (entries s (norm k))"
    and put_law: "ok s \<Longrightarrow> key_ok k \<Longrightarrow> \<exists>r s' m'. put m s k d = Some (r, s', m') \<and> ok s' \<and>
      (r = entries s (norm k) \<and> entries s' = (entries s)(norm k := d) \<or>
       entries s (norm k) = None \<and> d \<noteq> None \<and> r = d \<and> s' = s)"
begin

lemma run_puts_law:
  assumes "ok s" "\<forall>(k, d) \<in> set ops. key_ok k"
  shows "\<exists>rs s' m'. run_puts put m s ops = Some (rs, s', m') \<and> ok s' \<and>
    spec_puts norm (entries s) ops rs (entries s')"
  using assms
proof (induction ops arbitrary: s m)
  case (Cons x ops)
  obtain k d where x: "x = (k, d)" by fastforce
  with Cons.prems put_law[of s k m d] obtain r s1 m1 where
    1: "put m s k d = Some (r, s1, m1)" "ok s1"
    "r = entries s (norm k) \<and> entries s1 = (entries s)(norm k := d) \<or>
     entries s (norm k) = None \<and> d \<noteq> None \<and> r = d \<and> s1 = s" by auto
  from Cons.IH[OF 1(2), of m1] Cons.prems(2) obtain rs s2 m2 where
    "run_puts put m1 s1 ops = Some (rs, s2, m2)" "ok s2" "spec_puts norm (entries s1) ops rs (entries s2)"
    by auto
  with 1 x show ?case by auto
qed simp

lemma run_then_look:
  assumes "ok s" "\<forall>(k, d) \<in> set ops. key_ok k" "key_ok key"
  shows "\<exists>rs s' m' M. run_puts put m s ops = Some (rs, s', m') \<and>
    spec_puts norm (entries s) ops rs M \<and> look s' key = Some (M (norm key))"
  using run_puts_law[OF assms(1,2), of m] look_law[OF _ assms(3)] by blast

end

interpretation hm: dictionary sqlite3HashFind "sqlite3HashInsert slack" fold_key "\<lambda>z. 0 \<notin> set z" hash_ok hash_map
  for slack
  by unfold_locales (use hash_find hash_insert in auto)

text \<open>
  C4: Any sequence of insertions, replacements and deletions from an empty table, whatever the
  allocation failures and block sizes, runs without a failed assertion, and the returned
  pointers and the final lookups are those of a map on case-folded names.
\<close>

theorem hash_refines_map:
  fixes ops :: "(u8 list \<times> 'd option) list"
  assumes "\<forall>(z, d) \<in> set ops. 0 \<notin> set z" "0 \<notin> set key"
  shows "\<exists>rs pH m' M. run_puts (sqlite3HashInsert slack) m sqlite3HashInit ops = Some (rs, pH, m') \<and>
    spec_puts fold_key (\<lambda>_. None) ops rs M \<and> sqlite3HashFind pH key = Some (M (fold_key key))"
proof -
  have i: "hash_ok (sqlite3HashInit :: 'd hash)" by (simp add: hash_ok_def sqlite3HashInit_def table_ok_def)
  have "hash_map (sqlite3HashInit :: 'd hash) = (\<lambda>_. None)"
    by (simp add: sqlite3HashInit_def hash_map_def fun_eq_iff)
  with hm.run_then_look[OF i assms, of slack m] show ?thesis by simp
qed

lemma hash_refines_map_witness:
  "\<exists>rs pH m' M. run_puts (sqlite3HashInsert (\<lambda>n. 8)) [] sqlite3HashInit
      [([0x61], Some 1), ([0x41], Some 2), ([0x62], Some (3::nat))] = Some (rs, pH, m') \<and>
    spec_puts fold_key (\<lambda>_. None) [([0x61], Some 1), ([0x41], Some 2), ([0x62], Some 3)] rs M \<and>
    sqlite3HashFind pH [0x61] = Some (M (fold_key [0x61]))"
  by (rule hash_refines_map) simp_all

end
