(* ===== verification/Arith.thy ===== *)
theory Arith
  imports Base "HOL-Library.Signed_Division"
begin

text \<open>
  The overflow-checked arithmetic of util.c and its logarithmic estimates. A signed C value is
  the integer it denotes; an operation whose exact result does not fit its type is undefined
  behaviour and is \<^const>\<open>None\<close>, so that the theorems also show its absence. Division is C's
  truncating division.
\<close>

subsection \<open>Signed 64-bit arithmetic\<close>

definition LARGEST_INT64 :: int where "LARGEST_INT64 = 0x7fffffffffffffff"
definition SMALLEST_INT64 :: int where "SMALLEST_INT64 = - 0x8000000000000000"

definition fits64 :: "int \<Rightarrow> bool" where
  "fits64 x \<longleftrightarrow> SMALLEST_INT64 \<le> x \<and> x \<le> LARGEST_INT64"

definition i64 :: "int \<Rightarrow> int option" where
  "i64 x = (if fits64 x then Some x else None)"

text \<open>The result code and the value left in \<open>*pA\<close>.\<close>

definition sqlite3AddInt64 :: "int \<Rightarrow> int \<Rightarrow> (int \<times> int) option" where
  "sqlite3AddInt64 iA iB =
     (if iB \<ge> 0 then
        (if iA > 0 then
           (case i64 (LARGEST_INT64 - iA) of None \<Rightarrow> None
            | Some d \<Rightarrow> if d < iB then Some (1, iA) else map_option (Pair 0) (i64 (iA + iB)))
         else map_option (Pair 0) (i64 (iA + iB)))
      else
        (if iA < 0 then
           (case (i64 (iA + LARGEST_INT64), i64 (- (iA + LARGEST_INT64)), i64 (iB + 1)) of
              (Some _, Some n, Some b) \<Rightarrow>
                if n > b then Some (1, iA) else map_option (Pair 0) (i64 (iA + iB))
            | _ \<Rightarrow> None)
         else map_option (Pair 0) (i64 (iA + iB))))"

definition sqlite3SubInt64 :: "int \<Rightarrow> int \<Rightarrow> (int \<times> int) option" where
  "sqlite3SubInt64 iA iB =
     (if iB = SMALLEST_INT64 then
        (if iA \<ge> 0 then Some (1, iA) else map_option (Pair 0) (i64 (iA - iB)))
      else (case i64 (- iB) of None \<Rightarrow> None | Some nB \<Rightarrow> sqlite3AddInt64 iA nB))"

text \<open>Truncating division; the divisor zero and the one overflowing quotient are undefined.\<close>

definition c_div :: "int \<Rightarrow> int \<Rightarrow> int option" where
  "c_div a b = (if b = 0 then None else i64 (a sdiv b))"

definition sqlite3MulInt64 :: "int \<Rightarrow> int \<Rightarrow> (int \<times> int) option" where
  "sqlite3MulInt64 iA iB =
     (let ok = map_option (Pair 0) (i64 (iA * iB))
      in if iB > 0 then
           (case c_div LARGEST_INT64 iB of None \<Rightarrow> None
            | Some q \<Rightarrow> if iA > q then Some (1, iA) else
                (case c_div SMALLEST_INT64 iB of None \<Rightarrow> None
                 | Some q \<Rightarrow> if iA < q then Some (1, iA) else ok))
         else if iB < 0 then
           (if iA > 0 then
              (case c_div SMALLEST_INT64 iA of None \<Rightarrow> None
               | Some q \<Rightarrow> if iB < q then Some (1, iA) else ok)
            else if iA < 0 then
              (if iB = SMALLEST_INT64 then Some (1, iA)
               else if iA = SMALLEST_INT64 then Some (1, iA)
               else (case (i64 (- iA), i64 (- iB)) of
                       (Some nA, Some nB) \<Rightarrow>
                         (case c_div LARGEST_INT64 nB of None \<Rightarrow> None
                          | Some q \<Rightarrow> if nA > q then Some (1, iA) else ok)
                     | _ \<Rightarrow> None))
            else ok)
         else ok)"

definition sqlite3AbsInt32 :: "int \<Rightarrow> int" where
  "sqlite3AbsInt32 x = (if x \<ge> 0 then x else if x = - 0x80000000 then 0x7fffffff else - x)"

lemmas int64_defs = LARGEST_INT64_def SMALLEST_INT64_def fits64_def i64_def

lemma add_int64: "fits64 a \<Longrightarrow> fits64 b \<Longrightarrow>
    sqlite3AddInt64 a b = Some (if fits64 (a + b) then (0, a + b) else (1, a))"
  unfolding sqlite3AddInt64_def int64_defs by auto

lemma sub_int64: "fits64 a \<Longrightarrow> fits64 b \<Longrightarrow>
    sqlite3SubInt64 a b = Some (if fits64 (a - b) then (0, a - b) else (1, a))"
proof (cases "b = SMALLEST_INT64")
  case False
  assume "fits64 a" "fits64 b"
  with False have "fits64 (- b)" "i64 (- b) = Some (- b)" by (auto simp: int64_defs)
  with add_int64[of a "- b"] False \<open>fits64 a\<close> show ?thesis by (simp add: sqlite3SubInt64_def)
qed (auto simp: sqlite3SubInt64_def int64_defs)

text \<open>Comparing with a truncated quotient is comparing with the exact one.\<close>

lemma sdiv_pos: "0 \<le> m \<Longrightarrow> 0 < b \<Longrightarrow> m sdiv b = m div b" for m b :: int
  by (simp add: signed_divide_int_def sgn_if)

lemma sdiv_neg: "m < 0 \<Longrightarrow> 0 < b \<Longrightarrow> m sdiv b = - ((- m) div b)" for m b :: int
  by (simp add: signed_divide_int_def sgn_if)

lemma gt_div:
  fixes a b m :: int
  assumes "0 < b"
  shows "a > m div b \<longleftrightarrow> a * b > m"
proof
  assume "a > m div b"
  then have "(m div b + 1) * b \<le> a * b" using assms by (intro mult_right_mono) auto
  moreover have "m < (m div b + 1) * b"
    using pos_mod_bound[OF assms, of m] div_mult_mod_eq[of m b] unfolding distrib_right by linarith
  ultimately show "a * b > m" by linarith
next
  assume l: "a * b > m"
  show "a > m div b"
  proof (rule ccontr)
    assume "\<not> a > m div b"
    then have "a * b \<le> (m div b) * b" using assms by (intro mult_right_mono) auto
    also have "\<dots> \<le> m" using pos_mod_sign[OF assms, of m] div_mult_mod_eq[of m b] by linarith
    finally show False using l by simp
  qed
qed

lemma div_le_self: "0 < b \<Longrightarrow> 0 \<le> m \<Longrightarrow> m div b \<le> m" for b m :: int
proof -
  assume b: "0 < b" and m: "0 \<le> m"
  have "(m + 1) * 1 \<le> (m + 1) * b" using b m by (intro mult_left_mono) auto
  then show ?thesis using gt_div[OF b, of m "m + 1"] by simp
qed

lemma i64_quotient: "0 < b \<Longrightarrow> 0 \<le> m \<Longrightarrow> m \<le> LARGEST_INT64 + 1 \<Longrightarrow>
    SMALLEST_INT64 \<le> - (m div b) \<and> (m \<le> LARGEST_INT64 \<longrightarrow> m div b \<le> LARGEST_INT64) \<and> 0 \<le> m div b" for m b :: int
  using div_le_self[of b m] by (auto simp: int64_defs pos_imp_zdiv_nonneg_iff)

lemma div_large: "0 < b \<Longrightarrow> c_div LARGEST_INT64 b = Some (LARGEST_INT64 div b)"
  using i64_quotient[of b LARGEST_INT64]
  by (auto simp: c_div_def i64_def fits64_def sdiv_pos LARGEST_INT64_def SMALLEST_INT64_def)

lemma div_small: "0 < b \<Longrightarrow> c_div SMALLEST_INT64 b = Some (- ((LARGEST_INT64 + 1) div b))"
  using i64_quotient[of b "LARGEST_INT64 + 1"]
  by (auto simp: c_div_def i64_def fits64_def sdiv_pos LARGEST_INT64_def SMALLEST_INT64_def)

lemma mul_int64:
  assumes a: "fits64 a" and b: "fits64 b"
  shows "sqlite3MulInt64 a b = Some (if fits64 (a * b) then (0, a * b) else (1, a))"
proof -
  consider "b > 0" | "b < 0" "a > 0" | "b < 0" "a < 0" | "b \<le> 0" "b = 0 \<or> a = 0"
    by linarith
  then show ?thesis
  proof cases
    case 1
    have "a > LARGEST_INT64 div b \<longleftrightarrow> a * b > LARGEST_INT64" using 1 by (rule gt_div)
    moreover have "a < - ((LARGEST_INT64 + 1) div b) \<longleftrightarrow> a * b < SMALLEST_INT64"
      using gt_div[OF 1, of "LARGEST_INT64 + 1" "- a"] by (auto simp: LARGEST_INT64_def SMALLEST_INT64_def)
    ultimately show ?thesis using 1
      by (simp add: sqlite3MulInt64_def div_large div_small Let_def) (auto simp: fits64_def i64_def)
  next
    case 2
    have "b < - ((LARGEST_INT64 + 1) div a) \<longleftrightarrow> a * b < SMALLEST_INT64"
      using gt_div[OF 2(2), of "LARGEST_INT64 + 1" "- b"]
      by (auto simp: LARGEST_INT64_def SMALLEST_INT64_def mult.commute)
    moreover have "a * b < 0" using 2 by (simp add: mult_pos_neg)
    ultimately show ?thesis using 2
      by (simp add: sqlite3MulInt64_def div_small Let_def) (auto simp: fits64_def i64_def LARGEST_INT64_def)
  next
    case 3
    have pos: "0 < a * b" using 3 by (simp add: mult_neg_neg)
    show ?thesis
    proof (cases "a = SMALLEST_INT64 \<or> b = SMALLEST_INT64")
      case True
      have "- a \<le> a * b" "- b \<le> a * b"
        using mult_left_mono_neg[of b "-1" a] mult_right_mono_neg[of a "-1" b] 3 by simp_all
      then have "\<not> fits64 (a * b)" using True by (auto simp: fits64_def SMALLEST_INT64_def LARGEST_INT64_def)
      then show ?thesis using 3 True by (auto simp: sqlite3MulInt64_def Let_def)
    next
      case False
      then have "i64 (- a) = Some (- a)" "i64 (- b) = Some (- b)" using a b by (auto simp: int64_defs)
      moreover have "- a > LARGEST_INT64 div (- b) \<longleftrightarrow> a * b > LARGEST_INT64"
        using gt_div[of "- b" LARGEST_INT64 "- a"] 3 by simp
      ultimately show ?thesis using 3 False pos
        by (simp add: sqlite3MulInt64_def div_large Let_def)
          (auto simp: fits64_def i64_def SMALLEST_INT64_def)
    qed
  next
    case 4
    then show ?thesis
      by (auto simp: sqlite3MulInt64_def Let_def int64_defs)
  qed
qed

text \<open>
  C34: On all 64-bit operands the checked addition, subtraction and multiplication give the exact
  result with code 0 when it fits, and leave the first operand with code 1 when it does not; no
  intermediate computation overflows or divides by zero. \<open>sqlite3AbsInt32\<close> is the absolute
  value clipped to the 32-bit range.
\<close>

theorem checked_arithmetic:
  assumes "fits64 a" "fits64 b"
  shows "sqlite3AddInt64 a b = Some (if fits64 (a + b) then (0, a + b) else (1, a)) \<and>
    sqlite3SubInt64 a b = Some (if fits64 (a - b) then (0, a - b) else (1, a)) \<and>
    sqlite3MulInt64 a b = Some (if fits64 (a * b) then (0, a * b) else (1, a)) \<and>
    sqlite3AbsInt32 x = (if x = - 0x80000000 then 0x7fffffff else \<bar>x\<bar>)"
  using add_int64 sub_int64 mul_int64 assms by (auto simp: sqlite3AbsInt32_def)

lemma checked_arithmetic_witness:
  "sqlite3MulInt64 0x4000000000000000 (- 2) = Some (0, - 0x8000000000000000) \<and>
   sqlite3AddInt64 0x4000000000000000 (- 2) = Some (0, 0x3ffffffffffffffe) \<and> sqlite3AbsInt32 (- 5) = 5"
  using checked_arithmetic[of "0x4000000000000000" "- 2" "- 5"] by (simp add: int64_defs)

subsection \<open>Logarithmic estimates\<close>

text \<open>A \<open>LogEst\<close> is a 16-bit number, ten times a binary logarithm; the sums stay in range.\<close>

definition logest_table :: "int list" where
  "logest_table = [10, 10, 9, 9, 8, 8, 7, 7, 7, 6, 6, 6, 5, 5, 5, 4, 4, 4, 4,
     3, 3, 3, 3, 3, 3, 2, 2, 2, 2, 2, 2, 2]"

definition sqlite3LogEstAdd :: "int \<Rightarrow> int \<Rightarrow> int" where
  "sqlite3LogEstAdd a b =
     (if a \<ge> b then
        (if a > b + 49 then a else if a > b + 31 then a + 1 else a + logest_table ! nat (a - b))
      else
        (if b > a + 49 then b else if b > a + 31 then b + 1 else b + logest_table ! nat (b - a)))"

function logest_up :: "u64 \<Rightarrow> int \<Rightarrow> u64 \<times> int" where
  "logest_up x y = (if x < 8 \<and> x \<noteq> 0 then logest_up (push_bit 1 x) (y - 10) else (x, y))"
  by pat_completeness auto
termination
proof (relation "measure (\<lambda>(x, y). 8 - unat x)", simp, goal_cases)
  case (1 x y)
  then have "0 < unat x" "unat x < 8" by (simp_all add: word_less_nat_alt unat_gt_0)
  then show ?case by (simp add: push_bit_eq_mult unat_word_ariths)
qed

text \<open>The right-shifting loops \<open>while( x>lim ){ y+=d; x>>=s; }\<close>.\<close>

function logest_down :: "u64 \<Rightarrow> nat \<Rightarrow> int \<Rightarrow> u64 \<Rightarrow> int \<Rightarrow> u64 \<times> int" where
  "logest_down lim s d x y =
     (if x > lim \<and> 0 < s then logest_down lim s d (drop_bit s x) (y + d) else (x, y))"
  by pat_completeness auto
termination
proof (relation "measure (\<lambda>(lim, s, d, x, y). unat x)", simp, goal_cases)
  case (1 lim s d x y)
  then have "0 < unat x" by (simp add: word_less_nat_alt)
  moreover have "(1::nat) < 2 ^ s" using 1 by (intro one_less_power) auto
  ultimately have "unat x div 2 ^ s < unat x" by (intro div_less_dividend)
  then show ?case by (simp only: in_measure split unat_drop_bit)
qed

definition sqlite3LogEst :: "u64 \<Rightarrow> int" where
  "sqlite3LogEst x =
     (let a = [0, 2, 3, 5, 6, 7, 8, 9]; y = 40
      in if x < 2 then 0
         else (let (x, y) = (if x < 8 then logest_up x y
                             else (case logest_down 255 4 40 x y of
                                     (x, y) \<Rightarrow> logest_down 15 1 10 x y))
               in a ! unat (x AND 7) + y - 10))"

declare logest_up.simps [simp del] logest_down.simps [simp del]


lemma logest_down_spec:
  assumes "logest_down lim s d x y = (x', y')" "0 < s" "L \<le> unat x"
    "\<forall>z :: u64. unat lim < unat z \<longrightarrow> L \<le> unat z div 2 ^ s"
  shows "\<exists>n. unat x' = unat x div 2 ^ (s * n) \<and> y' = y + d * int n \<and> x' \<le> lim \<and> L \<le> unat x'"
  using assms
proof (induction lim s d x y rule: logest_down.induct)
  case (1 lim s d x y)
  show ?case
  proof (cases "x > lim")
    case False
    then have "x' = x" "y' = y" using "1.prems"(1) by (simp_all add: logest_down.simps[of lim s d x y])
    then show ?thesis using False "1.prems"(3) by (intro exI[of _ 0]) simp
  next
    case True
    then have "logest_down lim s d (drop_bit s x) (y + d) = (x', y')"
      using "1.prems"(1,2) by (simp add: logest_down.simps[of lim s d x y])
    moreover have "L \<le> unat (drop_bit s x)"
      using "1.prems"(4) True by (simp add: unat_drop_bit word_less_nat_alt)
    ultimately obtain n where n: "unat x' = unat (drop_bit s x) div 2 ^ (s * n)" "y' = y + d + d * int n"
        "x' \<le> lim" "L \<le> unat x'"
      using "1.IH" True "1.prems"(2,4) by blast
    moreover have "unat (drop_bit s x) div 2 ^ (s * n) = unat x div 2 ^ (s * Suc n)"
      by (simp add: unat_drop_bit div_mult2_eq power_add mult.commute)
    ultimately show ?thesis by (intro exI[of _ "Suc n"]) (simp add: algebra_simps)
  qed
qed

lemma logest_small:
  assumes "2 \<le> unat x" "unat x < 8"
  shows "let e = nat (sqlite3LogEst x) in
    0 \<le> sqlite3LogEst x \<and> 2 ^ (2 * e) \<le> 2 * unat x ^ 20 \<and> unat x ^ 40 < 2 ^ (4 * e + 7)"
proof -
  have "x = 2 \<or> x = 3 \<or> x = 4 \<or> x = 5 \<or> x = 6 \<or> x = 7"
    using assms by (auto simp: word_unat_eq_iff)
  moreover have "sqlite3LogEst 2 = 10" "sqlite3LogEst 3 = 16" "sqlite3LogEst 4 = 20" "sqlite3LogEst 5 = 23"
    "sqlite3LogEst 6 = 26" "sqlite3LogEst 7 = 28"
    by (simp_all add: sqlite3LogEst_def logest_up.simps)
  ultimately show ?thesis by (elim disjE) (simp_all add: Let_def)
qed

text \<open>The table entry for the leading four bits of the number.\<close>

lemma logest_entry:
  assumes "8 \<le> u" "u < 16"
  shows "\<exists>t. [0, 2, 3, 5, 6, 7, 8, 9 :: int] ! (u mod 8) = int t \<and> 2 ^ (2 * (t + 30)) \<le> 2 * u ^ 20 \<and>
    (u + 1) ^ 40 \<le> (2 :: nat) ^ (4 * (t + 30) + 7)"
proof -
  have "u = 8 \<or> u = 9 \<or> u = 10 \<or> u = 11 \<or> u = 12 \<or> u = 13 \<or> u = 14 \<or> u = 15"
    using assms by linarith
  then show ?thesis
    by (elim disjE) (rule exI[of _ 0] exI[of _ 2] exI[of _ 3] exI[of _ 5] exI[of _ 6] exI[of _ 7] exI[of _ 8] exI[of _ 9], simp; fail)+
qed

text \<open>
  C35: for every 64-bit \<open>x\<close> of at least 2, the estimate lies at most 1/2 above and less than 7/4
  below ten times the binary logarithm of \<open>x\<close>; below 2 it is 0. (The bounds are written with powers
  of two and of \<open>x\<close>.)
\<close>

theorem logest_is_log2:
  "if unat x < 2 then sqlite3LogEst x = 0
   else let e = nat (sqlite3LogEst x) in
     0 \<le> sqlite3LogEst x \<and> 2 ^ (2 * e) \<le> 2 * unat x ^ 20 \<and> unat x ^ 40 < 2 ^ (4 * e + 7)"
proof (cases "unat x < 8")
  case True
  then show ?thesis using logest_small[of x] by (simp add: sqlite3LogEst_def word_less_nat_alt)
next
  case False
  obtain x1 y1 where 1: "logest_down 255 4 40 x 40 = (x1, y1)" by fastforce
  obtain x2 y2 where 2: "logest_down 15 1 10 x1 y1 = (x2, y2)" by fastforce
  have d: "255 < v \<Longrightarrow> 8 \<le> v div 16" "15 < v \<Longrightarrow> 8 \<le> v div 2" for v :: nat by linarith+
  from logest_down_spec[OF 1, of 8] False d(1) obtain n where
    n: "unat x1 = unat x div 2 ^ (4 * n)" "y1 = 40 + 40 * int n" "8 \<le> unat x1" by auto
  from logest_down_spec[OF 2, of 8] n(3) d(2) obtain m where
    m: "unat x2 = unat x1 div 2 ^ m" "y2 = y1 + 10 * int m" "x2 \<le> 15" "8 \<le> unat x2" by auto
  define k where "k = 4 * n + m"
  let ?u = "unat x2"
  have u: "?u = unat x div 2 ^ k"
    using m(1) n(1) by (simp add: k_def power_add div_mult2_eq)
  have "unat (x2 AND 7) = ?u mod 8"
    unfolding and_7 unsigned_take_bit_eq by (simp add: take_bit_eq_mod)
  moreover from logest_entry[of ?u] m(3,4) obtain t where
    t: "[0, 2, 3, 5, 6, 7, 8, 9 :: int] ! (?u mod 8) = int t" "2 ^ (2 * (t + 30)) \<le> 2 * ?u ^ 20"
      "(?u + 1) ^ 40 \<le> (2 :: nat) ^ (4 * (t + 30) + 7)" by (auto simp: word_le_nat_alt)
  ultimately have e: "sqlite3LogEst x = int (t + 30 + 10 * k)"
    using False 1 2 n(2) m(2) by (simp add: sqlite3LogEst_def word_less_nat_alt k_def)
  have below: "?u * 2 ^ k \<le> unat x" by (simp add: u)
  have above: "unat x < (?u + 1) * 2 ^ k" using dividend_less_div_times[of "2 ^ k" "unat x"] by (simp add: u)
  have "(2 :: nat) ^ (2 * (t + 30 + 10 * k)) = 2 ^ (2 * (t + 30) + k * 20)" by simp
  also have "\<dots> = 2 ^ (2 * (t + 30)) * (2 ^ k) ^ 20" by (simp only: power_add power_mult)
  also have "\<dots> \<le> 2 * ?u ^ 20 * (2 ^ k) ^ 20" using t(2) by (rule mult_le_mono1)
  also have "\<dots> = 2 * (?u * 2 ^ k) ^ 20" by (simp only: power_mult_distrib mult.assoc)
  also have "\<dots> \<le> 2 * unat x ^ 20" using below by (intro mult_le_mono2 power_mono) simp_all
  finally have lower: "2 ^ (2 * (t + 30 + 10 * k)) \<le> 2 * unat x ^ 20" .
  have "unat x ^ 40 < ((?u + 1) * 2 ^ k) ^ 40" using above by (intro power_strict_mono) simp_all
  also have "\<dots> = (?u + 1) ^ 40 * (2 ^ k) ^ 40" by (rule power_mult_distrib)
  also have "\<dots> \<le> 2 ^ (4 * (t + 30) + 7) * (2 ^ k) ^ 40" using t(3) by (rule mult_le_mono1)
  also have "\<dots> = 2 ^ (4 * (t + 30) + 7 + k * 40)" by (simp only: power_add power_mult)
  also have "\<dots> = 2 ^ (4 * (t + 30 + 10 * k) + 7)" by simp
  finally show ?thesis using lower False by (simp add: e nat_add_distrib del: of_nat_add)
qed

lemma logest_is_log2_witness:
  "sqlite3LogEst 1000 = 99 \<and> (2 :: nat) ^ 198 \<le> 2 * 1000 ^ 20 \<and> (1000 :: nat) ^ 40 < 2 ^ 403"
proof -
  have e: "sqlite3LogEst 1000 = 99" by (simp add: sqlite3LogEst_def logest_down.simps)
  with logest_is_log2[of 1000] show ?thesis by (simp add: Let_def)
qed

text \<open>
  \<open>sqlite3LogEstAdd\<close> is commutative, at least the larger operand and at most ten more, and
  doubles a value by adding exactly ten.
\<close>

theorem logest_add_bounds:
  "sqlite3LogEstAdd a b = sqlite3LogEstAdd b a \<and> max a b \<le> sqlite3LogEstAdd a b \<and>
   sqlite3LogEstAdd a b \<le> max a b + 10 \<and> sqlite3LogEstAdd a a = a + 10"
proof -
  have t: "2 \<le> logest_table ! n \<and> logest_table ! n \<le> 10" if "n < 32" for n
  proof -
    have "list_all (\<lambda>v. 2 \<le> v \<and> v \<le> 10) logest_table" by (simp add: logest_table_def)
    moreover have "length logest_table = 32" by (simp add: logest_table_def)
    ultimately show ?thesis using that by (simp add: list_all_length)
  qed
  have "nat (a - b) < 32" if "\<not> a > b + 31" using that by simp
  moreover have "nat (b - a) < 32" if "\<not> b > a + 31" using that by simp
  moreover have "logest_table ! 0 = 10" by (simp add: logest_table_def)
  ultimately show ?thesis
    using t[of "nat (a - b)"] t[of "nat (b - a)"] by (auto simp: sqlite3LogEstAdd_def max_def)
qed

end
