(* ===== verification/Int_Text.thy ===== *)
theory Int_Text
  imports Cstring Arith
begin

text \<open>
  The integer parsers of util.c. A character is read as the signed \<open>char\<close> it is in C. The text
  of \<open>sqlite3Atoi64\<close> is first cut into the characters its pointer visits, which depends on the
  encoding, and then parsed.
\<close>

subsection \<open>Decimal and hexadecimal digits\<close>

definition dig :: "u8 \<Rightarrow> bool" where "dig c \<longleftrightarrow> 48 \<le> sint c \<and> sint c \<le> 57"

definition pow63 :: "u8 list" where
  "pow63 = [0x39, 0x32, 0x32, 0x33, 0x33, 0x37, 0x32, 0x30, 0x33, 0x36, 0x38, 0x35, 0x34, 0x37, 0x37, 0x35, 0x38, 0x30]"

fun compare_loop :: "int \<Rightarrow> u8 list \<Rightarrow> u8 list \<Rightarrow> int" where
  "compare_loop c (z # zs) (p # ps) = (if c \<noteq> 0 then c else compare_loop ((sint z - sint p) * 10) zs ps)"
| "compare_loop c zs ps = c"

definition compare2pow63 :: "u8 list \<Rightarrow> int" where
  "compare2pow63 zNum =
     (let c = compare_loop 0 zNum pow63 in if c = 0 then sint (zNum ! 18) - 56 else c)"

text \<open>The digit loop: the wrapping value, the number of digits and the rest of the text.\<close>

fun digit_loop :: "u64 \<Rightarrow> nat \<Rightarrow> u8 list \<Rightarrow> u64 \<times> nat \<times> u8 list" where
  "digit_loop u i [] = (u, i, [])"
| "digit_loop u i (c # s) =
     (if dig c then digit_loop (u * 10 + word_of_int (sint c) - 48) (i + 1) s else (u, i, c # s))"

definition take_sign :: "u8 list \<Rightarrow> bool \<times> u8 list" where
  "take_sign s = (if s \<noteq> [] \<and> ch s = 0x2d then (True, tl s)
                  else if s \<noteq> [] \<and> ch s = 0x2b then (False, tl s) else (False, s))"

definition atoi64_chars :: "bool \<Rightarrow> u8 list \<Rightarrow> int \<times> int" where
  "atoi64_chars nonNum zNum =
     (let (neg, zStart) = take_sign (dropWhile sqlite3Isspace zNum);
          z = dropWhile (\<lambda>c. c = 0x30) zStart;
          (u, i, rest) = digit_loop 0 0 z;
          num = (if uint u > LARGEST_INT64 then (if neg then SMALLEST_INT64 else LARGEST_INT64)
                 else if neg then - uint u else uint u);
          rc = (if rest \<noteq> [] \<or> i = 0 \<and> length z = length zStart \<or> i > 19 \<or> nonNum then 1
                else if i < 19 then 0
                else (let c = compare2pow63 z in if c < 0 then 0 else if c > 0 then 1
                      else if neg then 0 else 2))
      in (rc, num))"

text \<open>
  The scan over the high bytes of UTF-16 text: the first odd (even) offset that is past the end
  or not zero.
\<close>

function high_scan :: "u8 list \<Rightarrow> nat \<Rightarrow> nat \<Rightarrow> nat" where
  "high_scan z len i = (if i < len \<and> z ! i = 0 then high_scan z len (i + 2) else i)"
  by pat_completeness auto
termination
  by (relation "measure (\<lambda>(z, len, i). len - i)") auto

declare high_scan.simps [simp del]

text \<open>Encodings: 1 is UTF-8, 2 little-endian and 3 big-endian UTF-16.\<close>

definition sqlite3Atoi64 :: "u8 list \<Rightarrow> nat \<Rightarrow> nat \<Rightarrow> int \<times> int" where
  "sqlite3Atoi64 zNum len enc =
     (if enc = 1 then atoi64_chars False (take len zNum)
      else (let i = high_scan zNum len (3 - enc);
                zEnd = (i XOR 1)
            in atoi64_chars (i < len)
                 (map (\<lambda>k. zNum ! (2 * k + enc mod 2)) [0 ..< (zEnd - enc mod 2 + 1) div 2])))"

definition hex_scan :: "u8 list \<Rightarrow> u64" where
  "hex_scan s = foldl (\<lambda>u c. u * 16 + ucast (sqlite3HexToInt c)) 0 s"

text \<open>Results: the return code and the value stored through the pointer.\<close>

definition sqlite3DecOrHexToI64 :: "u8 list \<Rightarrow> int \<times> int" where
  "sqlite3DecOrHexToI64 z =
     (if ch z = 0x30 \<and> (ch (tl z) = 0x78 \<or> ch (tl z) = 0x58) then
        (let s = dropWhile (\<lambda>c. c = 0x30) (drop 2 z);
             hs = takeWhile sqlite3Isxdigit s;
             rest = dropWhile sqlite3Isxdigit s
         in (if ch rest = 0 \<and> length hs \<le> 16 then 0 else 1, sint (hex_scan hs)))
      else sqlite3Atoi64 z (nat (sqlite3Strlen30 (Some z))) 1)"

fun hex32_loop :: "u32 \<Rightarrow> nat \<Rightarrow> u8 list \<Rightarrow> u32 \<times> u8 list" where
  "hex32_loop u i [] = (u, [])"
| "hex32_loop u i (c # s) =
     (if sqlite3Isxdigit c \<and> i < 8 then hex32_loop (u * 16 + ucast (sqlite3HexToInt c)) (i + 1) s
      else (u, c # s))"

fun int32_loop :: "int \<Rightarrow> nat \<Rightarrow> u8 list \<Rightarrow> int \<times> nat" where
  "int32_loop v i [] = (v, i)"
| "int32_loop v i (c # s) =
     (if i < 11 \<and> 0 \<le> sint c - 48 \<and> sint c - 48 \<le> 9 then int32_loop (v * 10 + (sint c - 48)) (i + 1) s
      else (v, i))"

definition int32_decimal :: "bool \<Rightarrow> u8 list \<Rightarrow> int option" where
  "int32_decimal neg zNum =
     (case int32_loop 0 0 (dropWhile (\<lambda>c. c = 0x30) zNum) of
        (v, i) \<Rightarrow> if i > 10 then None
                  else if v - (if neg then 1 else 0) > 2147483647 then None
                  else Some (if neg then - v else v))"

text \<open>\<^const>\<open>None\<close> is the return value 0, \<open>Some v\<close> the return value 1 with \<open>*pValue = v\<close>.\<close>

definition sqlite3GetInt32 :: "u8 list \<Rightarrow> int option" where
  "sqlite3GetInt32 zNum =
     (if ch zNum = 0x2d then int32_decimal True (tl zNum)
      else if ch zNum = 0x2b then int32_decimal False (tl zNum)
      else if ch zNum = 0x30 \<and> (ch (tl zNum) = 0x78 \<or> ch (tl zNum) = 0x58) \<and>
        sqlite3Isxdigit (ch (drop 2 zNum)) then
        (case hex32_loop 0 0 (dropWhile (\<lambda>c. c = 0x30) (drop 2 zNum)) of
           (u, rest) \<Rightarrow> if u AND 0x80000000 = 0 \<and> \<not> sqlite3Isxdigit (ch rest) then Some (sint u) else None)
      else int32_decimal False zNum)"

definition sqlite3Atoi :: "u8 list option \<Rightarrow> int" where
  "sqlite3Atoi z = (case z of None \<Rightarrow> 0 | Some z \<Rightarrow> (case sqlite3GetInt32 z of None \<Rightarrow> 0 | Some x \<Rightarrow> x))"

subsection \<open>Values of digit strings\<close>

definition dval :: "u8 list \<Rightarrow> nat" where
  "dval ds = foldl (\<lambda>v c. v * 10 + nat (sint c - 48)) 0 ds"

lemma dval_acc: "foldl (\<lambda>v c. v * 10 + nat (sint c - 48)) a ds = a * 10 ^ length ds + dval ds"
proof (induction ds arbitrary: a)
  case (Cons c ds)
  show ?case unfolding dval_def
    by (simp add: Cons.IH[of "a * 10 + nat (sint c - 48)"] Cons.IH[of "nat (sint c - 48)"] algebra_simps)
qed (simp add: dval_def)

lemma dval_simps [simp]:
  "dval [] = 0" "dval (c # ds) = nat (sint c - 48) * 10 ^ length ds + dval ds"
  using dval_acc[of "nat (sint c - 48)" ds] by (simp_all add: dval_def)

lemma dval_snoc: "dval (ds @ [c]) = 10 * dval ds + nat (sint c - 48)"
  by (simp add: dval_def)

lemma dval_bound: "list_all dig ds \<Longrightarrow> dval ds < 10 ^ length ds"
proof (induction ds)
  case (Cons c ds)
  then have "nat (sint c - 48) \<le> 9" "dval ds < 10 ^ length ds" by (auto simp: dig_def)
  then have "nat (sint c - 48) * 10 ^ length ds + dval ds < 9 * 10 ^ length ds + 10 ^ length ds"
    by (intro add_le_less_mono mult_right_mono) auto
  then show ?case by simp
qed simp

lemma dval_zeros: "dval (replicate n 0x30 @ ds) = dval ds"
  by (induction n) simp_all

lemma compare_loop_done: "c \<noteq> 0 \<Longrightarrow> compare_loop c zs ps = c"
  by (cases "(c, zs, ps)" rule: compare_loop.cases) auto

lemma compare_loop_sgn:
  assumes "length zs = length ps" "list_all dig zs" "list_all dig ps"
  shows "sgn (compare_loop 0 zs ps) = sgn (int (dval zs) - int (dval ps))"
  using assms
proof (induction zs ps rule: list_induct2)
  case (Cons z zs p ps)
  have d: "48 \<le> sint z" "48 \<le> sint p" using Cons.prems by (auto simp: dig_def)
  have b: "dval zs < 10 ^ length ps" "dval ps < 10 ^ length ps"
    using dval_bound[of zs] dval_bound[of ps] Cons by simp_all
  define a e where "a = nat (sint z - 48)" and "e = nat (sint p - 48)"
  have ae: "sint z - sint p = int a - int e" using d by (simp add: a_def e_def)
  consider "a = e" | "a < e" | "e < a" by linarith
  then show ?case
  proof cases
    case 1
    then show ?thesis using Cons ae by (simp add: a_def e_def)
  next
    case 2
    then have "(a + 1) * 10 ^ length ps \<le> e * 10 ^ length ps" by (intro mult_right_mono) auto
    then have "dval (z # zs) < dval (p # ps)" using b Cons.hyps by (simp add: a_def e_def)
    then have "sgn (int (dval (z # zs)) - int (dval (p # ps))) = - 1" by (simp add: sgn_if del: dval_simps)
    then show ?thesis using 2 ae by (simp add: compare_loop_done del: dval_simps)
  next
    case 3
    then have "(e + 1) * 10 ^ length ps \<le> a * 10 ^ length ps" by (intro mult_right_mono) auto
    then have "dval (p # ps) < dval (z # zs)" using b Cons.hyps by (simp add: a_def e_def)
    then have "sgn (int (dval (z # zs)) - int (dval (p # ps))) = 1" by (simp add: sgn_if del: dval_simps)
    then show ?thesis using 3 ae by (simp add: compare_loop_done del: dval_simps)
  qed
qed simp

lemma compare2pow63_sgn:
  assumes "length z = 19" "list_all dig z"
  shows "sgn (compare2pow63 z) = sgn (int (dval z) - 2 ^ 63)"
proof -
  obtain y c where z: "z = y @ [c]" using assms(1) by (cases z rule: rev_cases) auto
  have y: "length y = 18" "list_all dig y" "dig c" using assms z by auto
  have p: "list_all dig pow63" "length pow63 = 18" "dval pow63 = 922337203685477580"
    by (simp_all add: pow63_def dig_def)
  have "compare_loop 0 (y @ [c]) ps = compare_loop 0 y ps" if "length y = length ps" for ps
  proof -
    have "compare_loop a (y @ [c]) ps = compare_loop a y ps" for a using that
      by (induction y ps arbitrary: a rule: list_induct2) auto
    then show ?thesis .
  qed
  then have l: "compare_loop 0 z pow63 = compare_loop 0 y pow63" using z y(1) p(2) by simp
  have s: "sgn (compare_loop 0 y pow63) = sgn (int (dval y) - 922337203685477580)"
    using compare_loop_sgn[of y pow63] y p by simp
  have v: "int (dval z) = 10 * int (dval y) + (sint c - 48)" using z y(3) by (simp add: dval_snoc dig_def)
  have c: "48 \<le> sint c" "sint c \<le> 57" using y(3) by (simp_all add: dig_def)
  have n: "z ! 18 = c" using z y(1) by (simp add: nth_append)
  show ?thesis
  proof (cases "compare_loop 0 y pow63 = 0")
    case True
    then have "int (dval y) = 922337203685477580" using s by (simp add: sgn_eq_0_iff)
    then show ?thesis using True v l n by (simp add: compare2pow63_def)
  next
    case False
    then have "compare2pow63 z = compare_loop 0 y pow63" using l by (simp add: compare2pow63_def)
    moreover have "sgn (int (dval y) - 922337203685477580) = sgn (int (dval z) - 2 ^ 63)"
      using False s v c by (auto simp: sgn_if split: if_splits)
    ultimately show ?thesis using s by simp
  qed
qed


lemma dig_char: "(dig c \<longleftrightarrow> 48 \<le> unat c \<and> unat c \<le> 57) \<and> (dig c \<longrightarrow> sint c = int (unat c)) \<and>
    (dig c \<longleftrightarrow> sqlite3Isdigit c)"
proof -
  have "uint c = sint c mod 256" using uint_sint[of c] by (simp add: take_bit_eq_mod)
  moreover have r: "- 128 \<le> sint c" "sint c < 128" using sint_ge[of c] sint_lt[of c] by simp_all
  ultimately have "uint c = sint c + (if sint c < 0 then 256 else 0)"
    using mod_pos_pos_trivial[of "sint c" 256] mod_add_self2[of "sint c" 256]
      mod_pos_pos_trivial[of "sint c + 256" 256] by auto
  then have "48 \<le> sint c \<and> sint c \<le> 57 \<longleftrightarrow> 48 \<le> uint c \<and> uint c \<le> 57"
    "0 \<le> sint c \<Longrightarrow> sint c = uint c" using r(1) by (auto split: if_splits)
  moreover have i: "uint c = int (unat c)" by simp
  have "(48 \<le> unat c) = (48 \<le> uint c)" "(unat c \<le> 57) = (uint c \<le> 57)" using i by linarith+
  ultimately show ?thesis
    unfolding dig_def isdigit_iff word_le_nat_alt by auto
qed

lemma digit_loop_digits:
  assumes "list_all dig ds"
  shows "digit_loop u i (ds @ rest) = digit_loop (u * 10 ^ length ds + of_nat (dval ds)) (i + length ds) rest"
  using assms
proof (induction ds arbitrary: u i)
  case (Cons c ds)
  have "word_of_int (sint c) - 48 = (of_nat (nat (sint c - 48)) :: u64)"
    using Cons.prems by (simp add: dig_def)
  then have "u * 10 + word_of_int (sint c) - 48 = u * 10 + of_nat (nat (sint c - 48))"
    by (metis add_diff_eq)
  with Cons show ?case by (simp add: algebra_simps)
qed simp

lemma digit_loop_stop: "rest = [] \<or> \<not> dig (ch rest) \<Longrightarrow> digit_loop u i rest = (u, i, rest)"
  by (cases rest) auto

lemma digit_loop_total:
  "digit_loop 0 0 s = (of_nat (dval (takeWhile dig s)), length (takeWhile dig s), dropWhile dig s)"
proof -
  have dw: "list_all dig (takeWhile dig s)" by (auto simp: list_all_iff dest: set_takeWhileD)
  have "digit_loop 0 0 (takeWhile dig s @ dropWhile dig s) =
      digit_loop (of_nat (dval (takeWhile dig s))) (length (takeWhile dig s)) (dropWhile dig s)"
    using digit_loop_digits[OF dw, of 0 0 "dropWhile dig s"] by simp
  moreover have "dropWhile dig s = [] \<or> \<not> dig (ch (dropWhile dig s))"
  proof (cases "dropWhile dig s")
    case (Cons c r)
    then have "\<not> dig c" by (metis dropWhile_eq_Cons_conv)
    then show ?thesis unfolding Cons by simp
  qed simp
  ultimately show ?thesis by (simp add: digit_loop_stop)
qed

subsection \<open>Sixty-four bit integers\<close>

text \<open>A well-formed decimal text: white space, a sign, at least one digit.\<close>

definition decimal_text :: "u8 list \<Rightarrow> bool \<Rightarrow> u8 list \<Rightarrow> bool" where
  "decimal_text s neg ds \<longleftrightarrow> (\<exists>ws sign. s = ws @ sign @ ds \<and> list_all sqlite3Isspace ws \<and>
     (sign = [0x2d] \<and> neg \<or> sign \<in> {[], [0x2b]} \<and> \<not> neg) \<and> ds \<noteq> [] \<and> list_all dig ds)"

text \<open>The result required for the value \<open>V\<close> with sign \<open>neg\<close>; the stored number is only specified
  when the code is not 1.\<close>

definition int64_result :: "bool \<Rightarrow> nat \<Rightarrow> int \<times> int \<Rightarrow> bool" where
  "int64_result neg V r \<longleftrightarrow>
     (if V < 2 ^ 63 then r = (0, if neg then - int V else int V)
      else if V = 2 ^ 63 then r = (if neg then (0, SMALLEST_INT64) else (2, LARGEST_INT64))
      else fst r = 1)"

lemma zeros_split: "\<exists>n. ds = replicate n 0x30 @ dropWhile (\<lambda>c. c = 0x30) ds" for ds :: "u8 list"
proof -
  have "takeWhile (\<lambda>c. c = 0x30) ds = replicate (length (takeWhile (\<lambda>c. c = 0x30) ds)) (0x30 :: u8)"
    by (rule replicate_eqI) (auto dest: set_takeWhileD)
  then show ?thesis by (metis takeWhile_dropWhile_id)
qed

text \<open>A number without leading zeros is at least a power of ten.\<close>

lemma leading_digit:
  assumes "z = dropWhile (\<lambda>c. c = 0x30) ds" "list_all dig z" "n < length z"
  shows "10 ^ n \<le> dval z"
proof -
  obtain c y where c: "z = c # y" using assms(3) by (cases z) auto
  have "dropWhile (\<lambda>c. c = 0x30) ds = c # y" using c assms(1) by (simp only:)
  from iffD1[OF dropWhile_eq_Cons_conv this] have "c \<noteq> 0x30" by (rule conjunct2)
  moreover have "dig c" using assms(2) c by simp
  moreover from this have "48 \<le> sint c" by (simp add: dig_def)
  moreover have "sint c = uint c" using dig_char[of c] \<open>dig c\<close> by simp
  moreover have "uint c \<noteq> 48" using \<open>c \<noteq> 0x30\<close> by (simp add: word_uint_eq_iff)
  ultimately have "1 \<le> nat (sint c - 48)" by linarith
  then have "1 * 10 ^ n \<le> nat (sint c - 48) * 10 ^ length y"
    using assms(3) c by (intro mult_mono power_increasing) auto
  then show ?thesis using c by simp
qed

lemma atoi_digits:
  assumes ds: "list_all dig ds" "ds \<noteq> []" and z: "z = dropWhile (\<lambda>c. c = 0x30) ds"
  shows "int64_result neg (dval ds)
    (if length z = 0 \<and> length z = length ds \<or> length z > 19 then 1
     else if length z < 19 then 0
     else (let c = compare2pow63 z in if c < 0 then 0 else if c > 0 then 1 else if neg then 0 else 2),
     if uint (of_nat (dval z) :: u64) > LARGEST_INT64 then (if neg then SMALLEST_INT64 else LARGEST_INT64)
     else if neg then - uint (of_nat (dval z) :: u64) else uint (of_nat (dval z) :: u64))"
proof -
  obtain n where n: "ds = replicate n 0x30 @ z" using zeros_split[of ds] z by blast
  have v: "dval ds = dval z" using n dval_zeros by metis
  have dz: "list_all dig z" using ds(1) n by (metis list_all_append)
  have ne: "\<not> (length z = 0 \<and> length z = length ds)" using ds(2) by auto
  have u: "dval z < 2 ^ 64 \<Longrightarrow> uint (of_nat (dval z) :: u64) = int (dval z)"
    by (simp add: unsigned_of_nat take_bit_nat_eq_self)
  consider "length z < 19" | "length z = 19" | "length z > 19" by linarith
  then show ?thesis
  proof cases
    case 1
    have "dval z < 10 ^ length z" using dz by (rule dval_bound)
    also have "(10::nat) ^ length z \<le> 10 ^ 18" using 1 by (intro power_increasing) auto
    finally have "dval z < 10 ^ 18" .
    then show ?thesis using 1 ne u v by (simp add: int64_result_def LARGEST_INT64_def)
  next
    case 2
    have b: "dval z < 10 ^ 19" using dval_bound[OF dz] 2 by simp
    have "sgn (compare2pow63 z) = sgn (int (dval z) - 2 ^ 63)" using 2 dz by (rule compare2pow63_sgn)
    then have "compare2pow63 z < 0 \<longleftrightarrow> dval z < 2 ^ 63" "compare2pow63 z > 0 \<longleftrightarrow> dval z > 2 ^ 63"
      by (auto simp: sgn_if split: if_splits)
    then show ?thesis using 2 ne u v b
      by (auto simp: int64_result_def LARGEST_INT64_def SMALLEST_INT64_def Let_def)
  next
    case 3
    then have "10 ^ 19 \<le> dval z" by (intro leading_digit[OF z dz]) simp
    then show ?thesis using 3 v by (simp add: int64_result_def)
  qed
qed


lemma dig_not: "dig c \<Longrightarrow> c \<noteq> 0x2d \<and> c \<noteq> 0x2b \<and> \<not> sqlite3Isspace c"
  using dig_char[of c] by (auto simp: isspace_iff)

lemma atoi64_wellformed:
  assumes "decimal_text s neg ds"
  shows "int64_result neg (dval ds) (atoi64_chars False s)"
proof -
  from assms obtain ws sign where s: "s = ws @ sign @ ds" "list_all sqlite3Isspace ws"
    "sign = [0x2d] \<and> neg \<or> sign \<in> {[], [0x2b]} \<and> \<not> neg" "ds \<noteq> []" "list_all dig ds"
    unfolding decimal_text_def by blast
  obtain d ds' where d: "ds = d # ds'" "dig d" using s(4,5) by (cases ds) auto
  have "dropWhile sqlite3Isspace s = dropWhile sqlite3Isspace (sign @ ds)"
    using s(1,2) by (simp add: list_all_iff dropWhile_append2)
  also have "\<dots> = sign @ ds" using s(3) d dig_not[OF d(2)] by (auto simp: isspace_iff)
  finally have "take_sign (dropWhile sqlite3Isspace s) = (neg, ds)"
    using s(3) d dig_not[OF d(2)] by (auto simp: take_sign_def)
  moreover define z where "z = dropWhile (\<lambda>c. c = 0x30) ds"
  have "list_all dig z" using s(5) unfolding z_def list_all_iff by (blast dest: set_dropWhileD)
  then have "takeWhile dig z = z" "dropWhile dig z = []" by (auto simp: list_all_iff)
  with digit_loop_total[of z] have "digit_loop 0 0 z = (of_nat (dval z), length z, [])" by (simp only:)
  ultimately have "atoi64_chars False s =
    (if length z = 0 \<and> length z = length ds \<or> length z > 19 then 1
     else if length z < 19 then 0
     else (let c = compare2pow63 z in if c < 0 then 0 else if c > 0 then 1 else if neg then 0 else 2),
     if uint (of_nat (dval z) :: u64) > LARGEST_INT64 then (if neg then SMALLEST_INT64 else LARGEST_INT64)
     else if neg then - uint (of_nat (dval z) :: u64) else uint (of_nat (dval z) :: u64))"
    by (simp add: atoi64_chars_def z_def[symmetric] Let_def) auto
  then show ?thesis using atoi_digits[OF s(5,4) z_def, of neg] by (simp only:)
qed

lemma atoi64_malformed:
  assumes "fst (atoi64_chars nonNum s) \<noteq> 1"
  shows "\<not> nonNum \<and> (\<exists>neg ds. decimal_text s neg ds)"
proof -
  define t where "t = dropWhile sqlite3Isspace s"
  obtain neg ds where sg: "take_sign t = (neg, ds)" by fastforce
  define z where "z = dropWhile (\<lambda>c. c = 0x30) ds"
  have a: "dropWhile dig z = []" "\<not> (takeWhile dig z = [] \<and> length z = length ds)" "\<not> nonNum"
    using assms unfolding atoi64_chars_def t_def[symmetric] sg
    by (auto simp: z_def[symmetric] digit_loop_total Let_def split: if_splits)
  then have "list_all dig z" by (simp add: list_all_iff)
  moreover obtain n where n: "ds = replicate n 0x30 @ z" using zeros_split[of ds] z_def by blast
  ultimately have d: "list_all dig ds" using dig_char[of "0x30"]
    by (simp add: list_all_iff ball_Un set_replicate_conv_if)
  have ne: "ds \<noteq> []" using a(2) z_def by auto
  obtain sign where sign: "t = sign @ ds" "sign = [0x2d] \<and> neg \<or> sign \<in> {[], [0x2b]} \<and> \<not> neg"
  proof (cases t)
    case Nil
    with sg ne show ?thesis by (simp add: take_sign_def)
  next
    case (Cons c r)
    then show ?thesis using sg that[of "[c]"] that[of "[]"] by (auto simp: take_sign_def split: if_splits)
  qed
  have "s = takeWhile sqlite3Isspace s @ sign @ ds" using sign(1) t_def by (metis takeWhile_dropWhile_id)
  moreover have "list_all sqlite3Isspace (takeWhile sqlite3Isspace s)"
    unfolding list_all_iff by (blast dest: set_takeWhileD)
  ultimately have "decimal_text s neg ds" unfolding decimal_text_def using sign(2) ne d by blast
  then show ?thesis using a(3) by blast
qed

text \<open>UTF-16 text as its code units, each a pair of a high and a low byte.\<close>

definition utf16 :: "nat \<Rightarrow> (u8 \<times> u8) list \<Rightarrow> u8 list" where
  "utf16 enc us = concat (map (\<lambda>(hi, lo). if enc = 2 then [lo, hi] else [hi, lo]) us)"

lemma utf16_nth:
  assumes "k < length us" "enc = 2 \<or> enc = 3"
  shows "utf16 enc us ! (2 * k + enc mod 2) = snd (us ! k) \<and> utf16 enc us ! (2 * k + (3 - enc)) = fst (us ! k)"
  using assms
proof (induction us arbitrary: k)
  case (Cons c us)
  then show ?case by (cases k; cases c) (auto simp: utf16_def)
qed simp

lemma high_scan_zero:
  assumes "\<forall>k < n. z ! (2 * k + p) = 0" "len = 2 * n" "p \<le> 1" "j \<le> n"
  shows "high_scan z len (2 * j + p) = 2 * n + p"
  using assms
proof (induction "n - j" arbitrary: j)
  case 0
  then show ?case by (subst high_scan.simps) simp
next
  case (Suc m)
  then have "j < n" "2 * Suc j + p = Suc (Suc (2 * j + p))" by simp_all
  moreover have "m = n - Suc j" using Suc(2) by simp
  ultimately show ?case using Suc(1)[of "Suc j"] Suc.prems by (subst high_scan.simps) simp
qed

lemma xor_one_nat: "2 * n XOR 1 = 2 * n + (1::nat)" "(2 * n + 1) XOR 1 = 2 * (n::nat)"
proof -
  show x: "2 * n XOR 1 = 2 * n + (1::nat)" by (simp add: xor_nat_rec[of "2 * n"])
  have "(2 * n XOR 1) XOR 1 = 2 * n" by (simp only: xor.assoc xor_self_eq xor.right_neutral)
  then show "(2 * n + 1) XOR 1 = 2 * (n::nat)" by (simp only: x)
qed

text \<open>The scan stops at the first high byte that is not zero.\<close>

lemma high_scan_stops:
  assumes "j \<le> k" "k < n" "z ! (2 * k + p) \<noteq> 0" "len = 2 * n" "p \<le> 1"
  shows "high_scan z len (2 * j + p) < len"
  using assms
proof (induction "k - j" arbitrary: j)
  case 0
  then show ?case by (subst high_scan.simps) simp
next
  case (Suc m)
  then have "2 * Suc j + p = Suc (Suc (2 * j + p))" "2 * j + p < len" "Suc j \<le> k" by simp_all
  moreover have "m = k - Suc j" using Suc(2) by simp
  ultimately show ?case using Suc(1)[of "Suc j"] Suc.prems by (subst high_scan.simps) simp
qed

lemma utf16_atoi:
  assumes enc: "enc = 2 \<or> enc = 3"
  shows "if list_all (\<lambda>u. fst u = 0) us
         then sqlite3Atoi64 (utf16 enc us) (2 * length us) enc = atoi64_chars False (map snd us)
         else fst (sqlite3Atoi64 (utf16 enc us) (2 * length us) enc) = 1"
proof (cases "list_all (\<lambda>u. fst u = 0) us")
  case True
  then have "high_scan (utf16 enc us) (2 * length us) (3 - enc) = 2 * length us + (3 - enc)"
    using high_scan_zero[of "length us" "utf16 enc us" "3 - enc" "2 * length us" 0] utf16_nth[OF _ enc] enc
    by (auto simp: list_all_length)
  moreover have "map (\<lambda>k. utf16 enc us ! (2 * k + enc mod 2)) [0 ..< length us] = map snd us"
    using utf16_nth[OF _ enc] by (intro nth_equalityI) auto
  ultimately show ?thesis using enc True xor_one_nat[of "length us"] by (auto simp: sqlite3Atoi64_def Let_def)
next
  case False
  then obtain k where k: "k < length us" "fst (us ! k) \<noteq> 0" by (auto simp: list_all_length)
  then have "high_scan (utf16 enc us) (2 * length us) (3 - enc) < 2 * length us"
    using high_scan_stops[of 0 k "length us" "utf16 enc us" "3 - enc"] utf16_nth[OF k(1) enc] enc by auto
  moreover have "fst (atoi64_chars True t) = 1" for t using atoi64_malformed[of True t] by auto
  ultimately have "fst (sqlite3Atoi64 (utf16 enc us) (2 * length us) enc) = 1"
    using enc by (auto simp: sqlite3Atoi64_def Let_def)
  with False show ?thesis by simp
qed

text \<open>
  C33: \<open>sqlite3Atoi64\<close> returns 0 and the exact value for every single-byte decimal text in the
  64-bit range (including the smallest integer), 2 for exactly 2^63 without a minus sign, 1 for
  anything larger, and 1 for every text that is not white space, an optional sign and digits.
  UTF-16 text of either byte order, any sequence of whole code units, is read like the text of its
  low bytes when every high byte is zero, and gives 1 as soon as one high byte is not zero.
\<close>

theorem atoi64_correct:
  "(decimal_text s neg ds \<longrightarrow> int64_result neg (dval ds) (sqlite3Atoi64 s (length s) 1)) \<and>
   ((\<nexists>neg ds. decimal_text s neg ds) \<longrightarrow> fst (sqlite3Atoi64 s (length s) 1) = 1) \<and>
   (if list_all (\<lambda>u. fst u = 0) us
    then sqlite3Atoi64 (utf16 2 us) (2 * length us) 2 = sqlite3Atoi64 (map snd us) (length us) 1 \<and>
         sqlite3Atoi64 (utf16 3 us) (2 * length us) 3 = sqlite3Atoi64 (map snd us) (length us) 1
    else fst (sqlite3Atoi64 (utf16 2 us) (2 * length us) 2) = 1 \<and>
         fst (sqlite3Atoi64 (utf16 3 us) (2 * length us) 3) = 1)"
proof -
  have one: "sqlite3Atoi64 t (length t) 1 = atoi64_chars False t" for t by (simp add: sqlite3Atoi64_def)
  note one' = one[unfolded One_nat_def]
  have "length us = length (map snd us)" by simp
  then have "sqlite3Atoi64 (map snd us) (length us) 1 = atoi64_chars False (map snd us)" using one by metis
  then show ?thesis
    using atoi64_wellformed[of s neg ds] atoi64_malformed[of False s] utf16_atoi[of 2 us] utf16_atoi[of 3 us]
    by (auto simp: one')
qed

lemma atoi64_correct_witness:
  "int64_result True 42 (sqlite3Atoi64 [0x20, 0x2d, 0x30, 0x34, 0x32] (length [0x20, 0x2d, 0x30, 0x34, 0x32]) 1)"
proof -
  have "decimal_text [0x20, 0x2d, 0x30, 0x34, 0x32] True [0x30, 0x34, 0x32]"
    unfolding decimal_text_def by (intro exI[of _ "[0x20]"] exI[of _ "[0x2d]"]) (simp add: isspace_iff dig_def)
  then show ?thesis using atoi64_correct[of "[0x20, 0x2d, 0x30, 0x34, 0x32]" True "[0x30, 0x34, 0x32]"] by simp
qed


subsection \<open>Thirty-two bit integers\<close>

lemma int32_loop_digits:
  assumes "list_all dig ds" "i + length ds \<le> 11"
  shows "int32_loop v i (ds @ rest) = int32_loop (v * 10 ^ length ds + int (dval ds)) (i + length ds) rest"
  using assms
proof (induction ds arbitrary: v i)
  case (Cons c ds)
  then have "0 \<le> sint c - 48" "sint c - 48 \<le> 9" by (simp_all add: dig_def)
  then show ?case using Cons.prems Cons.IH[of "i + 1" "v * 10 + (sint c - 48)"]
    by (simp add: algebra_simps)
qed simp

lemma int32_loop_stop: "rest = [] \<or> \<not> dig (ch rest) \<or> 11 \<le> i \<Longrightarrow> int32_loop v i rest = (v, i)"
  by (cases rest) (auto simp: dig_def)

lemma int32_decimal_spec:
  assumes ds: "list_all dig ds" and rest: "rest = [] \<or> \<not> dig (ch rest)"
  shows "int32_decimal neg (ds @ rest) =
    (if dval ds < 2 ^ 31 \<or> neg \<and> dval ds = 2 ^ 31 then Some (if neg then - int (dval ds) else int (dval ds))
     else None)"
proof -
  define z where "z = dropWhile (\<lambda>c. c = 0x30) ds"
  obtain n where n: "ds = replicate n 0x30 @ z" using zeros_split[of ds] z_def by blast
  have v: "dval ds = dval z" using n dval_zeros by metis
  have dz: "list_all dig z" using ds n by (metis list_all_append)
  have "rest = [] \<or> ch rest \<noteq> 0x30" using rest dig_char[of "0x30"] by auto
  then have "dropWhile (\<lambda>c. c = 0x30) rest = rest" by (cases rest) auto
  then have "dropWhile (\<lambda>c. c = 0x30) (xs @ rest) = dropWhile (\<lambda>c. c = 0x30) xs @ rest" for xs
    by (induction xs) auto
  then have d: "dropWhile (\<lambda>c. c = 0x30) (ds @ rest) = z @ rest" by (simp only: z_def)
  show ?thesis
  proof (cases "length z \<le> 10")
    case True
    then have "int32_loop 0 0 (z @ rest) = (int (dval z), length z)"
      using int32_loop_digits[OF dz, of 0 0 rest] rest by (simp add: int32_loop_stop)
    then show ?thesis using True v by (auto simp: int32_decimal_def d)
  next
    case False
    then have z: "z = take 11 z @ drop 11 z" "length (take 11 z) = 11" by simp_all
    have "list_all dig (take 11 z)" using dz z(1) by (metis list_all_append)
    then have "snd (int32_loop 0 0 (z @ rest)) = 11"
      using int32_loop_digits[of "take 11 z" 0 0 "drop 11 z @ rest"] z by (simp add: int32_loop_stop flip: append_assoc)
    moreover have "10 ^ 10 \<le> dval z"
      using False by (intro leading_digit[OF z_def dz]) simp
    ultimately show ?thesis using v by (auto simp: int32_decimal_def d split: prod.split)
  qed
qed


definition hval :: "u8 list \<Rightarrow> nat" where
  "hval hs = foldl (\<lambda>v c. v * 16 + hex_value c) 0 hs"

lemma hval_acc: "foldl (\<lambda>v c. v * 16 + hex_value c) a hs = a * 16 ^ length hs + hval hs"
proof (induction hs arbitrary: a)
  case (Cons c hs)
  have "hval (c # hs) = hex_value c * 16 ^ length hs + hval hs"
    using Cons.IH[of "hex_value c"] by (simp add: hval_def)
  then show ?case using Cons.IH[of "a * 16 + hex_value c"] by (simp add: distrib_right)
qed (simp add: hval_def)

lemma hval_simps [simp]: "hval [] = 0" "hval (c # hs) = hex_value c * 16 ^ length hs + hval hs"
  using hval_acc[of "hex_value c" hs] by (simp_all add: hval_def)

lemma hval_bound: "list_all sqlite3Isxdigit hs \<Longrightarrow> hval hs < 16 ^ length hs"
proof (induction hs)
  case (Cons c hs)
  then have "hex_value c \<le> 15" "hval hs < 16 ^ length hs" using HexToInt_value[of c] by auto
  then have "hex_value c * 16 ^ length hs + hval hs < 15 * 16 ^ length hs + 16 ^ length hs"
    by (intro add_le_less_mono mult_right_mono) auto
  then show ?case by simp
qed simp

lemma hval_zeros: "hval (replicate n 0x30 @ hs) = hval hs"
  by (induction n) (simp_all add: hex_value_def)

lemma leading_hex_digit:
  assumes "z = dropWhile (\<lambda>c. c = 0x30) hs" "list_all sqlite3Isxdigit z" "n < length z"
  shows "16 ^ n \<le> hval z"
proof -
  obtain c y where c: "z = c # y" using assms(3) by (cases z) auto
  have "dropWhile (\<lambda>c. c = 0x30) hs = c # y" using c assms(1) by (simp only:)
  from iffD1[OF dropWhile_eq_Cons_conv this] have "c \<noteq> 0x30" by (rule conjunct2)
  moreover have "sqlite3Isxdigit c" using assms(2) c by simp
  ultimately have "1 \<le> hex_value c"
    by (auto simp: hex_value_def isxdigit_iff isdigit_iff word_le_nat_alt word_unat_eq_iff)
  then have "1 * 16 ^ n \<le> hex_value c * 16 ^ length y"
    using assms(3) c by (intro mult_mono power_increasing) auto
  then show ?thesis using c by simp
qed

lemma hex32_loop_digits:
  assumes "list_all sqlite3Isxdigit hs" "i + length hs \<le> 8"
  shows "hex32_loop u i (hs @ rest) = hex32_loop (u * 16 ^ length hs + of_nat (hval hs)) (i + length hs) rest"
  using assms
proof (induction hs arbitrary: u i)
  case (Cons c hs)
  have "unat (sqlite3HexToInt c) = hex_value c" using HexToInt_value Cons.prems by simp
  then have "ucast (sqlite3HexToInt c) = (of_nat (hex_value c) :: u32)" by (metis of_nat_unat)
  then show ?case using Cons.prems Cons.IH[of "i + 1" "u * 16 + of_nat (hex_value c)"]
    by (simp add: algebra_simps)
qed simp

lemma hex32_loop_stop: "rest = [] \<or> \<not> sqlite3Isxdigit (ch rest) \<or> 8 \<le> i \<Longrightarrow> hex32_loop u i rest = (u, rest)"
  by (cases rest) auto

lemma top_bit_clear: "u AND 0x80000000 = 0 \<longleftrightarrow> unat u < 2 ^ 31" for u :: u32
proof -
  have "u AND 0x80000000 = 0 \<longleftrightarrow> \<not> bit u 31"
    using bit_iff_and_push_bit_not_eq_0[of u 31] by (simp add: push_bit_of_1)
  also have "\<dots> \<longleftrightarrow> \<not> bit (unat u) 31" by (simp add: bit_unsigned_iff)
  also have "\<dots> \<longleftrightarrow> unat u < 2 ^ 31"
  proof -
    have "unat u < 2 ^ 32" using unat_lt2p_aux[of u] by simp
    then have "unat u div 2 ^ 31 < 2" by (simp add: div_less_iff_less_mult)
    then have "odd (unat u div 2 ^ 31) \<longleftrightarrow> unat u div 2 ^ 31 \<noteq> 0" by (auto simp: less_2_cases_iff)
    then show ?thesis unfolding bit_iff_odd by (simp add: div_eq_0_iff)
  qed
  finally show ?thesis .
qed

lemma hex32_spec:
  assumes hs: "list_all sqlite3Isxdigit hs" and rest: "rest = [] \<or> \<not> sqlite3Isxdigit (ch rest)"
  shows "(case hex32_loop 0 0 (dropWhile (\<lambda>c. c = 0x30) (hs @ rest)) of
      (u, r) \<Rightarrow> if u AND 0x80000000 = 0 \<and> \<not> sqlite3Isxdigit (ch r) then Some (sint u) else None) =
    (if hval hs < 2 ^ 31 then Some (int (hval hs)) else None)"
proof -
  define z where "z = dropWhile (\<lambda>c. c = 0x30) hs"
  obtain n where n: "hs = replicate n 0x30 @ z" using zeros_split[of hs] z_def by blast
  have v: "hval hs = hval z" using n hval_zeros by metis
  have dz: "list_all sqlite3Isxdigit z" using hs n by (metis list_all_append)
  have x30: "sqlite3Isxdigit 0x30" "\<not> sqlite3Isxdigit 0" by (simp_all add: isxdigit_iff isdigit_iff)
  have "rest = [] \<or> ch rest \<noteq> 0x30" using rest x30 by auto
  then have "dropWhile (\<lambda>c. c = 0x30) rest = rest" by (cases rest) auto
  then have "dropWhile (\<lambda>c. c = 0x30) (xs @ rest) = dropWhile (\<lambda>c. c = 0x30) xs @ rest" for xs
    by (induction xs) auto
  then have d: "dropWhile (\<lambda>c. c = 0x30) (hs @ rest) = z @ rest" by (simp only: z_def)
  show ?thesis
  proof (cases "length z \<le> 8")
    case True
    define u where "u = (of_nat (hval z) :: u32)"
    have l: "hex32_loop 0 0 (z @ rest) = (u, rest)"
    proof -
      have "hex32_loop u (length z) rest = (u, rest)" by (rule hex32_loop_stop) (use rest in blast)
      then show ?thesis using hex32_loop_digits[OF dz, of 0 0 rest] True by (simp add: u_def)
    qed
    have "hval z < 16 ^ length z" using dz by (rule hval_bound)
    also have "(16::nat) ^ length z \<le> 16 ^ 8" using True by (intro power_increasing) auto
    finally have "unat u = hval z" by (simp add: u_def unsigned_of_nat take_bit_nat_eq_self)
    moreover from this have "uint u = int (hval z)" by (metis uint_nat)
    then have "hval z < 2 ^ 31 \<Longrightarrow> sint u = int (hval z)"
      by (simp add: sint_uint signed_take_bit_int_eq_self)
    moreover have "\<not> sqlite3Isxdigit (ch rest)" using rest x30 by auto
    ultimately show ?thesis using v by (simp add: d l top_bit_clear)
  next
    case False
    then have z: "z = take 8 z @ drop 8 z" "length (take 8 z) = 8" "drop 8 z \<noteq> []" by simp_all
    then obtain c y where c: "drop 8 z = c # y" by (cases "drop 8 z") auto
    have "list_all sqlite3Isxdigit (take 8 z)" "sqlite3Isxdigit c"
      using dz c in_set_dropD[of c 8 z] by (auto simp: list_all_iff dest: in_set_takeD)
    moreover have "hex32_loop 0 0 (z @ rest) = hex32_loop 0 0 (take 8 z @ drop 8 z @ rest)"
      by (simp flip: append_assoc)
    ultimately have "sqlite3Isxdigit (ch (snd (hex32_loop 0 0 (z @ rest))))"
      using hex32_loop_digits[of "take 8 z" 0 0 "drop 8 z @ rest"] z(2) c
      by (simp add: hex32_loop_stop)
    moreover have "16 ^ 8 \<le> hval z" using False by (intro leading_hex_digit[OF z_def dz]) simp
    ultimately show ?thesis using v by (auto simp: d split: prod.split)
  qed
qed

text \<open>
  The routine \<open>sqlite3GetInt32\<close> reads an optional sign and all following decimal digits and ignores the
  rest of the text: it succeeds with the signed value exactly when that is in the 32-bit range.
  After \<open>0x\<close> it reads all following hexadecimal digits and succeeds with their value exactly
  when it is below 2^31.
\<close>

theorem getint32_correct:
  "(list_all dig ds \<and> (rest = [] \<or> \<not> dig (ch rest)) \<and>
      (sign = [0x2d] \<and> neg \<or> \<not> neg \<and> (sign = [0x2b] \<or>
        sign = [] \<and> ds @ rest \<noteq> [] \<and> ch (ds @ rest) \<notin> {0x2b, 0x2d} \<and> ch (tl (ds @ rest)) \<notin> {0x78, 0x58})) \<longrightarrow>
    sqlite3GetInt32 (sign @ ds @ rest) =
      (if dval ds < 2 ^ 31 \<or> neg \<and> dval ds = 2 ^ 31 then Some (if neg then - int (dval ds) else int (dval ds))
       else None)) \<and>
   (list_all sqlite3Isxdigit hs \<and> hs \<noteq> [] \<and> (rest = [] \<or> \<not> sqlite3Isxdigit (ch rest)) \<and> x \<in> {0x78, 0x58} \<longrightarrow>
    sqlite3GetInt32 (0x30 # x # hs @ rest) = (if hval hs < 2 ^ 31 then Some (int (hval hs)) else None))"
proof (intro conjI impI, elim conjE disjE)
  assume "list_all sqlite3Isxdigit hs \<and> hs \<noteq> [] \<and> (rest = [] \<or> \<not> sqlite3Isxdigit (ch rest)) \<and> x \<in> {0x78, 0x58}"
  then have h: "list_all sqlite3Isxdigit hs" "hs \<noteq> []" "rest = [] \<or> \<not> sqlite3Isxdigit (ch rest)" "x = 0x78 \<or> x = 0x58"
    by auto
  from h(1,2) have "sqlite3Isxdigit (ch (hs @ rest))" by (cases hs) auto
  then show "sqlite3GetInt32 (0x30 # x # hs @ rest) = (if hval hs < 2 ^ 31 then Some (int (hval hs)) else None)"
    using h(4) hex32_spec[OF h(1,3)] by (auto simp: sqlite3GetInt32_def)
qed (use int32_decimal_spec[of ds rest neg] in \<open>auto simp: sqlite3GetInt32_def\<close>)

lemma getint32_correct_witness:
  "sqlite3GetInt32 [0x2d, 0x34, 0x32, 0x61] = Some (- 42) \<and> sqlite3GetInt32 [0x30, 0x58, 0x66, 0x46] = Some 255"
  using getint32_correct[of "[0x34, 0x32]" "[0x61]" "[0x2d]" True "[0x30]" 0]
    getint32_correct[of "[]" "[]" "[]" True "[0x66, 0x46]" "0x58"]
  by (simp add: dig_def isxdigit_iff isdigit_iff hex_value_def)

text \<open>A text without any digit is accepted as zero.\<close>

lemma getint32_accepts_words: "sqlite3GetInt32 [0x61, 0x62, 0x63] = Some 0"
  by (simp add: sqlite3GetInt32_def int32_decimal_def)

end
