(* ===== verification/Keyword_Tables.thy ===== *)
theory Keyword_Tables
  imports Cstring
begin

text \<open>
  The keyword recogniser of keywordhash.h. The names of the 124 keywords overlap each other in
  one text; four tables give for each keyword its place in that text, its length, its token
  code and the next keyword of its hash bucket. The tables are translated entry by entry and
  the lookup is shown to be the case-insensitive dictionary of the SQL keywords.
\<close>

subsection \<open>Token codes\<close>

text \<open>The codes that parse.h gives to the terminals the tokenizer can produce.\<close>

type_synonym token = nat

abbreviation (input) TK_SEMI :: token where "TK_SEMI \<equiv> 1"
abbreviation (input) TK_EXPLAIN :: token where "TK_EXPLAIN \<equiv> 2"
abbreviation (input) TK_QUERY :: token where "TK_QUERY \<equiv> 3"
abbreviation (input) TK_PLAN :: token where "TK_PLAN \<equiv> 4"
abbreviation (input) TK_BEGIN :: token where "TK_BEGIN \<equiv> 5"
abbreviation (input) TK_TRANSACTION :: token where "TK_TRANSACTION \<equiv> 6"
abbreviation (input) TK_DEFERRED :: token where "TK_DEFERRED \<equiv> 7"
abbreviation (input) TK_IMMEDIATE :: token where "TK_IMMEDIATE \<equiv> 8"
abbreviation (input) TK_EXCLUSIVE :: token where "TK_EXCLUSIVE \<equiv> 9"
abbreviation (input) TK_COMMIT :: token where "TK_COMMIT \<equiv> 10"
abbreviation (input) TK_END :: token where "TK_END \<equiv> 11"
abbreviation (input) TK_ROLLBACK :: token where "TK_ROLLBACK \<equiv> 12"
abbreviation (input) TK_SAVEPOINT :: token where "TK_SAVEPOINT \<equiv> 13"
abbreviation (input) TK_RELEASE :: token where "TK_RELEASE \<equiv> 14"
abbreviation (input) TK_TO :: token where "TK_TO \<equiv> 15"
abbreviation (input) TK_TABLE :: token where "TK_TABLE \<equiv> 16"
abbreviation (input) TK_CREATE :: token where "TK_CREATE \<equiv> 17"
abbreviation (input) TK_IF :: token where "TK_IF \<equiv> 18"
abbreviation (input) TK_NOT :: token where "TK_NOT \<equiv> 19"
abbreviation (input) TK_EXISTS :: token where "TK_EXISTS \<equiv> 20"
abbreviation (input) TK_TEMP :: token where "TK_TEMP \<equiv> 21"
abbreviation (input) TK_LP :: token where "TK_LP \<equiv> 22"
abbreviation (input) TK_RP :: token where "TK_RP \<equiv> 23"
abbreviation (input) TK_AS :: token where "TK_AS \<equiv> 24"
abbreviation (input) TK_WITHOUT :: token where "TK_WITHOUT \<equiv> 25"
abbreviation (input) TK_COMMA :: token where "TK_COMMA \<equiv> 26"
abbreviation (input) TK_OR :: token where "TK_OR \<equiv> 27"
abbreviation (input) TK_AND :: token where "TK_AND \<equiv> 28"
abbreviation (input) TK_IS :: token where "TK_IS \<equiv> 29"
abbreviation (input) TK_MATCH :: token where "TK_MATCH \<equiv> 30"
abbreviation (input) TK_LIKE_KW :: token where "TK_LIKE_KW \<equiv> 31"
abbreviation (input) TK_BETWEEN :: token where "TK_BETWEEN \<equiv> 32"
abbreviation (input) TK_IN :: token where "TK_IN \<equiv> 33"
abbreviation (input) TK_ISNULL :: token where "TK_ISNULL \<equiv> 34"
abbreviation (input) TK_NOTNULL :: token where "TK_NOTNULL \<equiv> 35"
abbreviation (input) TK_NE :: token where "TK_NE \<equiv> 36"
abbreviation (input) TK_EQ :: token where "TK_EQ \<equiv> 37"
abbreviation (input) TK_GT :: token where "TK_GT \<equiv> 38"
abbreviation (input) TK_LE :: token where "TK_LE \<equiv> 39"
abbreviation (input) TK_LT :: token where "TK_LT \<equiv> 40"
abbreviation (input) TK_GE :: token where "TK_GE \<equiv> 41"
abbreviation (input) TK_ESCAPE :: token where "TK_ESCAPE \<equiv> 42"
abbreviation (input) TK_BITAND :: token where "TK_BITAND \<equiv> 43"
abbreviation (input) TK_BITOR :: token where "TK_BITOR \<equiv> 44"
abbreviation (input) TK_LSHIFT :: token where "TK_LSHIFT \<equiv> 45"
abbreviation (input) TK_RSHIFT :: token where "TK_RSHIFT \<equiv> 46"
abbreviation (input) TK_PLUS :: token where "TK_PLUS \<equiv> 47"
abbreviation (input) TK_MINUS :: token where "TK_MINUS \<equiv> 48"
abbreviation (input) TK_STAR :: token where "TK_STAR \<equiv> 49"
abbreviation (input) TK_SLASH :: token where "TK_SLASH \<equiv> 50"
abbreviation (input) TK_REM :: token where "TK_REM \<equiv> 51"
abbreviation (input) TK_CONCAT :: token where "TK_CONCAT \<equiv> 52"
abbreviation (input) TK_COLLATE :: token where "TK_COLLATE \<equiv> 53"
abbreviation (input) TK_BITNOT :: token where "TK_BITNOT \<equiv> 54"
abbreviation (input) TK_ID :: token where "TK_ID \<equiv> 55"
abbreviation (input) TK_INDEXED :: token where "TK_INDEXED \<equiv> 56"
abbreviation (input) TK_ABORT :: token where "TK_ABORT \<equiv> 57"
abbreviation (input) TK_ACTION :: token where "TK_ACTION \<equiv> 58"
abbreviation (input) TK_AFTER :: token where "TK_AFTER \<equiv> 59"
abbreviation (input) TK_ANALYZE :: token where "TK_ANALYZE \<equiv> 60"
abbreviation (input) TK_ASC :: token where "TK_ASC \<equiv> 61"
abbreviation (input) TK_ATTACH :: token where "TK_ATTACH \<equiv> 62"
abbreviation (input) TK_BEFORE :: token where "TK_BEFORE \<equiv> 63"
abbreviation (input) TK_BY :: token where "TK_BY \<equiv> 64"
abbreviation (input) TK_CASCADE :: token where "TK_CASCADE \<equiv> 65"
abbreviation (input) TK_CAST :: token where "TK_CAST \<equiv> 66"
abbreviation (input) TK_COLUMNKW :: token where "TK_COLUMNKW \<equiv> 67"
abbreviation (input) TK_CONFLICT :: token where "TK_CONFLICT \<equiv> 68"
abbreviation (input) TK_DATABASE :: token where "TK_DATABASE \<equiv> 69"
abbreviation (input) TK_DESC :: token where "TK_DESC \<equiv> 70"
abbreviation (input) TK_DETACH :: token where "TK_DETACH \<equiv> 71"
abbreviation (input) TK_EACH :: token where "TK_EACH \<equiv> 72"
abbreviation (input) TK_FAIL :: token where "TK_FAIL \<equiv> 73"
abbreviation (input) TK_FOR :: token where "TK_FOR \<equiv> 74"
abbreviation (input) TK_IGNORE :: token where "TK_IGNORE \<equiv> 75"
abbreviation (input) TK_INITIALLY :: token where "TK_INITIALLY \<equiv> 76"
abbreviation (input) TK_INSTEAD :: token where "TK_INSTEAD \<equiv> 77"
abbreviation (input) TK_NO :: token where "TK_NO \<equiv> 78"
abbreviation (input) TK_KEY :: token where "TK_KEY \<equiv> 79"
abbreviation (input) TK_OF :: token where "TK_OF \<equiv> 80"
abbreviation (input) TK_OFFSET :: token where "TK_OFFSET \<equiv> 81"
abbreviation (input) TK_PRAGMA :: token where "TK_PRAGMA \<equiv> 82"
abbreviation (input) TK_RAISE :: token where "TK_RAISE \<equiv> 83"
abbreviation (input) TK_RECURSIVE :: token where "TK_RECURSIVE \<equiv> 84"
abbreviation (input) TK_REPLACE :: token where "TK_REPLACE \<equiv> 85"
abbreviation (input) TK_RESTRICT :: token where "TK_RESTRICT \<equiv> 86"
abbreviation (input) TK_ROW :: token where "TK_ROW \<equiv> 87"
abbreviation (input) TK_TRIGGER :: token where "TK_TRIGGER \<equiv> 88"
abbreviation (input) TK_VACUUM :: token where "TK_VACUUM \<equiv> 89"
abbreviation (input) TK_VIEW :: token where "TK_VIEW \<equiv> 90"
abbreviation (input) TK_VIRTUAL :: token where "TK_VIRTUAL \<equiv> 91"
abbreviation (input) TK_WITH :: token where "TK_WITH \<equiv> 92"
abbreviation (input) TK_REINDEX :: token where "TK_REINDEX \<equiv> 93"
abbreviation (input) TK_RENAME :: token where "TK_RENAME \<equiv> 94"
abbreviation (input) TK_CTIME_KW :: token where "TK_CTIME_KW \<equiv> 95"
abbreviation (input) TK_STRING :: token where "TK_STRING \<equiv> 97"
abbreviation (input) TK_JOIN_KW :: token where "TK_JOIN_KW \<equiv> 98"
abbreviation (input) TK_CONSTRAINT :: token where "TK_CONSTRAINT \<equiv> 99"
abbreviation (input) TK_DEFAULT :: token where "TK_DEFAULT \<equiv> 100"
abbreviation (input) TK_NULL :: token where "TK_NULL \<equiv> 101"
abbreviation (input) TK_PRIMARY :: token where "TK_PRIMARY \<equiv> 102"
abbreviation (input) TK_UNIQUE :: token where "TK_UNIQUE \<equiv> 103"
abbreviation (input) TK_CHECK :: token where "TK_CHECK \<equiv> 104"
abbreviation (input) TK_REFERENCES :: token where "TK_REFERENCES \<equiv> 105"
abbreviation (input) TK_AUTOINCR :: token where "TK_AUTOINCR \<equiv> 106"
abbreviation (input) TK_ON :: token where "TK_ON \<equiv> 107"
abbreviation (input) TK_INSERT :: token where "TK_INSERT \<equiv> 108"
abbreviation (input) TK_DELETE :: token where "TK_DELETE \<equiv> 109"
abbreviation (input) TK_UPDATE :: token where "TK_UPDATE \<equiv> 110"
abbreviation (input) TK_SET :: token where "TK_SET \<equiv> 111"
abbreviation (input) TK_DEFERRABLE :: token where "TK_DEFERRABLE \<equiv> 112"
abbreviation (input) TK_FOREIGN :: token where "TK_FOREIGN \<equiv> 113"
abbreviation (input) TK_DROP :: token where "TK_DROP \<equiv> 114"
abbreviation (input) TK_UNION :: token where "TK_UNION \<equiv> 115"
abbreviation (input) TK_ALL :: token where "TK_ALL \<equiv> 116"
abbreviation (input) TK_EXCEPT :: token where "TK_EXCEPT \<equiv> 117"
abbreviation (input) TK_INTERSECT :: token where "TK_INTERSECT \<equiv> 118"
abbreviation (input) TK_SELECT :: token where "TK_SELECT \<equiv> 119"
abbreviation (input) TK_VALUES :: token where "TK_VALUES \<equiv> 120"
abbreviation (input) TK_DISTINCT :: token where "TK_DISTINCT \<equiv> 121"
abbreviation (input) TK_DOT :: token where "TK_DOT \<equiv> 122"
abbreviation (input) TK_FROM :: token where "TK_FROM \<equiv> 123"
abbreviation (input) TK_JOIN :: token where "TK_JOIN \<equiv> 124"
abbreviation (input) TK_USING :: token where "TK_USING \<equiv> 125"
abbreviation (input) TK_ORDER :: token where "TK_ORDER \<equiv> 126"
abbreviation (input) TK_GROUP :: token where "TK_GROUP \<equiv> 127"
abbreviation (input) TK_HAVING :: token where "TK_HAVING \<equiv> 128"
abbreviation (input) TK_LIMIT :: token where "TK_LIMIT \<equiv> 129"
abbreviation (input) TK_WHERE :: token where "TK_WHERE \<equiv> 130"
abbreviation (input) TK_INTO :: token where "TK_INTO \<equiv> 131"
abbreviation (input) TK_FLOAT :: token where "TK_FLOAT \<equiv> 132"
abbreviation (input) TK_BLOB :: token where "TK_BLOB \<equiv> 133"
abbreviation (input) TK_INTEGER :: token where "TK_INTEGER \<equiv> 134"
abbreviation (input) TK_VARIABLE :: token where "TK_VARIABLE \<equiv> 135"
abbreviation (input) TK_CASE :: token where "TK_CASE \<equiv> 136"
abbreviation (input) TK_WHEN :: token where "TK_WHEN \<equiv> 137"
abbreviation (input) TK_THEN :: token where "TK_THEN \<equiv> 138"
abbreviation (input) TK_ELSE :: token where "TK_ELSE \<equiv> 139"
abbreviation (input) TK_INDEX :: token where "TK_INDEX \<equiv> 140"
abbreviation (input) TK_ALTER :: token where "TK_ALTER \<equiv> 141"
abbreviation (input) TK_ADD :: token where "TK_ADD \<equiv> 142"
abbreviation (input) TK_SPACE :: token where "TK_SPACE \<equiv> 162"
abbreviation (input) TK_ILLEGAL :: token where "TK_ILLEGAL \<equiv> 163"

subsection \<open>The tables\<close>

definition zText :: string where
  "zText =
     ''REINDEXEDESCAPEACHECKEYBEFOREIGNOREGEXPLAINSTEADDATABASELECT'' @
     ''ABLEFTHENDEFERRABLELSEXCEPTRANSACTIONATURALTERAISEXCLUSIVE'' @
     ''XISTSAVEPOINTERSECTRIGGEREFERENCESCONSTRAINTOFFSETEMPORARY'' @
     ''UNIQUERYWITHOUTERELEASEATTACHAVINGROUPDATEBEGINNERECURSIVE'' @
     ''BETWEENOTNULLIKECASCADELETECASECOLLATECREATECURRENT_DATEDETACH'' @
     ''IMMEDIATEJOINSERTMATCHPLANALYZEPRAGMABORTVALUESVIRTUALIMITWHEN'' @
     ''WHERENAMEAFTEREPLACEANDEFAULTAUTOINCREMENTCASTCOLUMNCOMMIT'' @
     ''CONFLICTCROSSCURRENT_TIMESTAMPRIMARYDEFERREDISTINCTDROPFAIL'' @
     ''FROMFULLGLOBYIFISNULLORDERESTRICTRIGHTROLLBACKROWUNIONUSING'' @
     ''VACUUMVIEWINITIALLY''"

definition aHash :: "nat list" where
  "aHash =
    [76, 105, 117, 74, 0, 45, 0, 0, 82, 0, 77, 0, 0, 42, 12, 78, 15, 0, 116, 85, 54, 112, 0,
     19, 0, 0, 121, 0, 119, 115, 0, 22, 93, 0, 9, 0, 0, 70, 71, 0, 69, 6, 0, 48, 90, 102, 0,
     118, 101, 0, 0, 44, 0, 103, 24, 0, 17, 0, 122, 53, 23, 0, 5, 110, 25, 96, 0, 0, 124, 106,
     60, 123, 57, 28, 55, 0, 91, 0, 100, 26, 0, 99, 0, 0, 0, 95, 92, 97, 88, 109, 14, 39, 108,
     0, 81, 0, 18, 89, 111, 32, 0, 120, 80, 113, 62, 46, 84, 0, 0, 94, 40, 59, 114, 0, 36, 0,
     0, 29, 0, 86, 63, 64, 0, 20, 61, 0, 56]"

definition aNext :: "nat list" where
  "aNext =
    [0, 0, 0, 0, 4, 0, 0, 0, 0, 0, 0, 0, 0, 0, 2, 0, 0, 0, 0, 0, 0, 13, 0, 0, 0, 0, 0, 7, 0,
     0, 0, 0, 0, 0, 0, 0, 0, 0, 0, 0, 0, 0, 0, 33, 0, 21, 0, 0, 0, 0, 0, 50, 0, 43, 3, 47, 0,
     0, 0, 0, 30, 0, 58, 0, 38, 0, 0, 0, 1, 66, 0, 0, 67, 0, 41, 0, 0, 0, 0, 0, 0, 49, 65, 0,
     0, 0, 0, 31, 52, 16, 34, 10, 0, 0, 0, 0, 0, 0, 0, 11, 72, 79, 0, 8, 0, 104, 98, 0, 107,
     0, 87, 0, 75, 51, 0, 27, 37, 73, 83, 0, 35, 68, 0, 0]"

definition aLen :: "nat list" where
  "aLen =
    [7, 7, 5, 4, 6, 4, 5, 3, 6, 7, 3, 6, 6, 7, 7, 3, 8, 2, 6, 5, 4, 4, 3, 10, 4, 6, 11, 6, 2,
     7, 5, 5, 9, 6, 9, 9, 7, 10, 10, 4, 6, 2, 3, 9, 4, 2, 6, 5, 7, 4, 5, 7, 6, 6, 5, 6, 5, 5,
     9, 7, 7, 3, 2, 4, 4, 7, 3, 6, 4, 7, 6, 12, 6, 9, 4, 6, 5, 4, 7, 6, 5, 6, 7, 5, 4, 5, 6,
     5, 7, 3, 7, 13, 2, 2, 4, 6, 6, 8, 5, 17, 12, 7, 8, 8, 2, 4, 4, 4, 4, 4, 2, 2, 6, 5, 8, 5,
     8, 3, 5, 5, 6, 4, 9, 3]"

definition aOffset :: "nat list" where
  "aOffset =
    [0, 2, 2, 8, 9, 14, 16, 20, 23, 25, 25, 29, 33, 36, 41, 46, 48, 53, 54, 59, 62, 65, 67,
     69, 78, 81, 86, 91, 95, 96, 101, 105, 109, 117, 122, 128, 136, 142, 152, 159, 162, 162,
     165, 167, 167, 171, 176, 179, 184, 184, 188, 192, 199, 204, 209, 212, 218, 221, 225, 234,
     240, 240, 240, 243, 246, 250, 251, 255, 261, 265, 272, 278, 290, 296, 305, 307, 313, 318,
     320, 327, 332, 337, 343, 349, 354, 358, 361, 367, 371, 378, 380, 387, 389, 391, 400, 404,
     410, 416, 424, 429, 429, 445, 452, 459, 460, 467, 471, 475, 479, 483, 486, 488, 490, 496,
     500, 508, 513, 521, 524, 529, 534, 540, 544, 549]"

definition aCode :: "token list" where
  "aCode =
    [TK_REINDEX, TK_INDEXED, TK_INDEX, TK_DESC, TK_ESCAPE, TK_EACH, TK_CHECK, TK_KEY,
     TK_BEFORE, TK_FOREIGN, TK_FOR, TK_IGNORE, TK_LIKE_KW, TK_EXPLAIN, TK_INSTEAD, TK_ADD,
     TK_DATABASE, TK_AS, TK_SELECT, TK_TABLE, TK_JOIN_KW, TK_THEN, TK_END, TK_DEFERRABLE,
     TK_ELSE, TK_EXCEPT, TK_TRANSACTION, TK_ACTION, TK_ON, TK_JOIN_KW, TK_ALTER, TK_RAISE,
     TK_EXCLUSIVE, TK_EXISTS, TK_SAVEPOINT, TK_INTERSECT, TK_TRIGGER, TK_REFERENCES,
     TK_CONSTRAINT, TK_INTO, TK_OFFSET, TK_OF, TK_SET, TK_TEMP, TK_TEMP, TK_OR, TK_UNIQUE,
     TK_QUERY, TK_WITHOUT, TK_WITH, TK_JOIN_KW, TK_RELEASE, TK_ATTACH, TK_HAVING, TK_GROUP,
     TK_UPDATE, TK_BEGIN, TK_JOIN_KW, TK_RECURSIVE, TK_BETWEEN, TK_NOTNULL, TK_NOT, TK_NO,
     TK_NULL, TK_LIKE_KW, TK_CASCADE, TK_ASC, TK_DELETE, TK_CASE, TK_COLLATE, TK_CREATE,
     TK_CTIME_KW, TK_DETACH, TK_IMMEDIATE, TK_JOIN, TK_INSERT, TK_MATCH, TK_PLAN, TK_ANALYZE,
     TK_PRAGMA, TK_ABORT, TK_VALUES, TK_VIRTUAL, TK_LIMIT, TK_WHEN, TK_WHERE, TK_RENAME,
     TK_AFTER, TK_REPLACE, TK_AND, TK_DEFAULT, TK_AUTOINCR, TK_TO, TK_IN, TK_CAST,
     TK_COLUMNKW, TK_COMMIT, TK_CONFLICT, TK_JOIN_KW, TK_CTIME_KW, TK_CTIME_KW, TK_PRIMARY,
     TK_DEFERRED, TK_DISTINCT, TK_IS, TK_DROP, TK_FAIL, TK_FROM, TK_JOIN_KW, TK_LIKE_KW,
     TK_BY, TK_IF, TK_ISNULL, TK_ORDER, TK_RESTRICT, TK_JOIN_KW, TK_ROLLBACK, TK_ROW,
     TK_UNION, TK_USING, TK_VACUUM, TK_VIEW, TK_INITIALLY, TK_ALL]"

subsection \<open>The lookup\<close>

text \<open>
  \<open>kw_scan\<close> is the inner loop, which counts the characters that agree with the keyword at the
  offset \<open>off\<close> of the text, bit 5 of each character cleared. \<open>kw_loop\<close> follows the chain of the
  bucket; its argument is the value stored in the tables, one more than the index, 0 at the end.
  An index outside the tables is never reached.
\<close>

definition zKW :: "nat \<Rightarrow> u8" where
  "zKW j = of_char (zText ! j)"

function kw_scan :: "u8 list \<Rightarrow> nat \<Rightarrow> nat \<Rightarrow> nat \<Rightarrow> nat" where
  "kw_scan z off n j =
     (if j < n \<and> ch (drop j z) AND NOT 0x20 = zKW (off + j) then kw_scan z off n (j + 1) else j)"
  by pat_completeness auto
termination by (relation "measure (\<lambda>(z, off, n, j). n - j)") auto

declare kw_scan.simps [simp del]

lemma aNext_decreases: "i < 124 \<Longrightarrow> aNext ! i \<le> i"
proof -
  assume "i < 124"
  moreover have "list_all (\<lambda>i. aNext ! i \<le> i) [0 ..< 124]"
    by (simp add: aNext_def upt_from_0)
  ultimately show ?thesis by (simp add: list_all_iff del: upt_rec_numeral)
qed

function kw_loop :: "u8 list \<Rightarrow> nat \<Rightarrow> nat \<Rightarrow> token option" where
  "kw_loop z n k =
     (if k = 0 \<or> 124 < k then None
      else let i = k - 1
        in if aLen ! i = n \<and> \<not> kw_scan z (aOffset ! i) n 0 < n then Some (aCode ! i)
           else kw_loop z n (aNext ! i))"
  by pat_completeness auto
termination
proof (relation "measure (\<lambda>(z, n, k). k)", simp, goal_cases)
  case (1 z n k i)
  then have "i < 124" "i < k" by auto
  then show ?case using aNext_decreases[of i] by simp
qed

declare kw_loop.simps [simp del]

definition charMap :: "u8 \<Rightarrow> int" where
  "charMap c = uint (UpperToLower c)"

definition kw_hash :: "u8 list \<Rightarrow> nat \<Rightarrow> nat" where
  "kw_hash z n = nat ((charMap (ch z) * 4 XOR charMap (ch (drop (n - 1) z)) * 3 XOR int n) mod 127)"

definition keywordCode :: "u8 list \<Rightarrow> nat \<Rightarrow> token \<Rightarrow> nat \<times> token" where
  "keywordCode z n pType =
     (n, if 2 \<le> n then (case kw_loop z n (aHash ! kw_hash z n) of None \<Rightarrow> pType | Some t \<Rightarrow> t)
         else pType)"

definition sqlite3KeywordCode :: "u8 list \<Rightarrow> nat \<Rightarrow> token" where
  "sqlite3KeywordCode z n = snd (keywordCode z n TK_ID)"

subsection \<open>The dictionary of keywords\<close>

definition sql_keywords :: "(string \<times> token) list" where
  "sql_keywords =
    [(''REINDEX'', TK_REINDEX), (''INDEXED'', TK_INDEXED), (''INDEX'', TK_INDEX),
     (''DESC'', TK_DESC), (''ESCAPE'', TK_ESCAPE), (''EACH'', TK_EACH), (''CHECK'', TK_CHECK),
     (''KEY'', TK_KEY), (''BEFORE'', TK_BEFORE), (''FOREIGN'', TK_FOREIGN), (''FOR'', TK_FOR),
     (''IGNORE'', TK_IGNORE), (''REGEXP'', TK_LIKE_KW), (''EXPLAIN'', TK_EXPLAIN),
     (''INSTEAD'', TK_INSTEAD), (''ADD'', TK_ADD), (''DATABASE'', TK_DATABASE),
     (''AS'', TK_AS), (''SELECT'', TK_SELECT), (''TABLE'', TK_TABLE), (''LEFT'', TK_JOIN_KW),
     (''THEN'', TK_THEN), (''END'', TK_END), (''DEFERRABLE'', TK_DEFERRABLE),
     (''ELSE'', TK_ELSE), (''EXCEPT'', TK_EXCEPT), (''TRANSACTION'', TK_TRANSACTION),
     (''ACTION'', TK_ACTION), (''ON'', TK_ON), (''NATURAL'', TK_JOIN_KW),
     (''ALTER'', TK_ALTER), (''RAISE'', TK_RAISE), (''EXCLUSIVE'', TK_EXCLUSIVE),
     (''EXISTS'', TK_EXISTS), (''SAVEPOINT'', TK_SAVEPOINT), (''INTERSECT'', TK_INTERSECT),
     (''TRIGGER'', TK_TRIGGER), (''REFERENCES'', TK_REFERENCES),
     (''CONSTRAINT'', TK_CONSTRAINT), (''INTO'', TK_INTO), (''OFFSET'', TK_OFFSET),
     (''OF'', TK_OF), (''SET'', TK_SET), (''TEMPORARY'', TK_TEMP), (''TEMP'', TK_TEMP),
     (''OR'', TK_OR), (''UNIQUE'', TK_UNIQUE), (''QUERY'', TK_QUERY),
     (''WITHOUT'', TK_WITHOUT), (''WITH'', TK_WITH), (''OUTER'', TK_JOIN_KW),
     (''RELEASE'', TK_RELEASE), (''ATTACH'', TK_ATTACH), (''HAVING'', TK_HAVING),
     (''GROUP'', TK_GROUP), (''UPDATE'', TK_UPDATE), (''BEGIN'', TK_BEGIN),
     (''INNER'', TK_JOIN_KW), (''RECURSIVE'', TK_RECURSIVE), (''BETWEEN'', TK_BETWEEN),
     (''NOTNULL'', TK_NOTNULL), (''NOT'', TK_NOT), (''NO'', TK_NO), (''NULL'', TK_NULL),
     (''LIKE'', TK_LIKE_KW), (''CASCADE'', TK_CASCADE), (''ASC'', TK_ASC),
     (''DELETE'', TK_DELETE), (''CASE'', TK_CASE), (''COLLATE'', TK_COLLATE),
     (''CREATE'', TK_CREATE), (''CURRENT_DATE'', TK_CTIME_KW), (''DETACH'', TK_DETACH),
     (''IMMEDIATE'', TK_IMMEDIATE), (''JOIN'', TK_JOIN), (''INSERT'', TK_INSERT),
     (''MATCH'', TK_MATCH), (''PLAN'', TK_PLAN), (''ANALYZE'', TK_ANALYZE),
     (''PRAGMA'', TK_PRAGMA), (''ABORT'', TK_ABORT), (''VALUES'', TK_VALUES),
     (''VIRTUAL'', TK_VIRTUAL), (''LIMIT'', TK_LIMIT), (''WHEN'', TK_WHEN),
     (''WHERE'', TK_WHERE), (''RENAME'', TK_RENAME), (''AFTER'', TK_AFTER),
     (''REPLACE'', TK_REPLACE), (''AND'', TK_AND), (''DEFAULT'', TK_DEFAULT),
     (''AUTOINCREMENT'', TK_AUTOINCR), (''TO'', TK_TO), (''IN'', TK_IN), (''CAST'', TK_CAST),
     (''COLUMN'', TK_COLUMNKW), (''COMMIT'', TK_COMMIT), (''CONFLICT'', TK_CONFLICT),
     (''CROSS'', TK_JOIN_KW), (''CURRENT_TIMESTAMP'', TK_CTIME_KW),
     (''CURRENT_TIME'', TK_CTIME_KW), (''PRIMARY'', TK_PRIMARY), (''DEFERRED'', TK_DEFERRED),
     (''DISTINCT'', TK_DISTINCT), (''IS'', TK_IS), (''DROP'', TK_DROP), (''FAIL'', TK_FAIL),
     (''FROM'', TK_FROM), (''FULL'', TK_JOIN_KW), (''GLOB'', TK_LIKE_KW), (''BY'', TK_BY),
     (''IF'', TK_IF), (''ISNULL'', TK_ISNULL), (''ORDER'', TK_ORDER),
     (''RESTRICT'', TK_RESTRICT), (''RIGHT'', TK_JOIN_KW), (''ROLLBACK'', TK_ROLLBACK),
     (''ROW'', TK_ROW), (''UNION'', TK_UNION), (''USING'', TK_USING), (''VACUUM'', TK_VACUUM),
     (''VIEW'', TK_VIEW), (''INITIALLY'', TK_INITIALLY), (''ALL'', TK_ALL)]"


definition ascii :: "string \<Rightarrow> u8 list" where
  "ascii s = map of_char s"

definition clear5 :: "u8 \<Rightarrow> u8" where
  "clear5 c = c AND NOT 0x20"

subsection \<open>What the tables hold\<close>

lemma names_at: "map (\<lambda>i. take (aLen ! i) (drop (aOffset ! i) zText)) [0 ..< 124] = map fst sql_keywords"
  by (simp add: upt_from_0 zText_def aLen_def aOffset_def sql_keywords_def)

lemma aLen_names: "aLen = map (\<lambda>(w, t). length w) sql_keywords"
  by (simp add: aLen_def sql_keywords_def)

lemma aCode_names: "aCode = map snd sql_keywords"
  by (simp add: aCode_def sql_keywords_def)

lemma names_in_text: "list_all (\<lambda>i. aOffset ! i + aLen ! i \<le> length zText) [0 ..< 124]"
  by (simp add: upt_from_0 zText_def aLen_def aOffset_def)

lemma names_distinct: "distinct (map (\<lambda>(w, t). ascii w) sql_keywords)"
  by (simp add: sql_keywords_def ascii_def)

definition capital_letter :: "u8 \<Rightarrow> bool" where
  "capital_letter c \<longleftrightarrow> 0x41 \<le> c \<and> c \<le> 0x5a"

lemma names_capital:
  "list_all (\<lambda>(w, t). 2 \<le> length w \<and> capital_letter (ch (ascii w)) \<and>
     capital_letter (ch (drop (length w - 1) (ascii w)))) sql_keywords"
  by (simp add: sql_keywords_def ascii_def capital_letter_def)

function kw_chain :: "nat \<Rightarrow> nat list" where
  "kw_chain k = (if k = 0 \<or> 124 < k then [] else (k - 1) # kw_chain (aNext ! (k - 1)))"
  by pat_completeness auto
termination
proof (relation "measure id", simp, goal_cases)
  case (1 k)
  then have "k - 1 < 124" "k - 1 < k" by auto
  then show ?case using aNext_decreases[of "k - 1"] by simp
qed

declare kw_chain.simps [simp del]

lemma name_hashes:
  "map (\<lambda>(w, t). kw_hash (ascii w) (length w)) sql_keywords =
    [40, 16, 74, 62, 62, 41, 73, 69, 34, 86, 78, 14, 31, 90, 16, 44, 56, 96, 23, 123, 105, 31,
     60, 54, 64, 79, 18, 73, 117, 124, 88, 99, 51, 76, 26, 114, 2, 28, 91, 110, 103, 13, 20,
     51, 5, 105, 126, 43, 8, 97, 112, 97, 59, 20, 74, 126, 72, 120, 111, 70, 124, 104, 120,
     121, 28, 37, 47, 58, 40, 37, 38, 48, 47, 3, 103, 0, 10, 15, 45, 102, 94, 8, 28, 106, 19,
     119, 98, 88, 97, 44, 76, 86, 32, 109, 85, 65, 87, 89, 81, 78, 48, 45, 53, 69, 1, 69, 89,
     92, 89, 63, 98, 21, 103, 112, 29, 18, 2, 47, 28, 101, 26, 58, 71, 68]"
  by (simp add: sql_keywords_def kw_hash_def ascii_def charMap_def UpperToLower_eq)


lemma chains:
  "list_all (\<lambda>(i, h). i \<in> set (kw_chain (aHash ! h)))
     (zip [0 ..< 124] (map (\<lambda>(w, t). kw_hash (ascii w) (length w)) sql_keywords))"
  unfolding name_hashes
  by (simp add: upt_from_0 aHash_def aNext_def kw_chain.simps)

lemma names_letters:
  "list_all (\<lambda>(w, t). list_all (\<lambda>c. capital_letter c \<or> c = 0x5f) (ascii w) \<and> ch (ascii w) \<noteq> 0x58)
     sql_keywords"
  by (simp add: sql_keywords_def ascii_def capital_letter_def)

lemma length_sql_keywords: "length sql_keywords = 124"
  by (simp add: sql_keywords_def)

text \<open>The name of the keyword with a given index, as bytes.\<close>

definition kw_name :: "nat \<Rightarrow> u8 list" where
  "kw_name i = ascii (fst (sql_keywords ! i))"

lemma in_sql_keywords: "i < 124 \<Longrightarrow> sql_keywords ! i \<in> set sql_keywords"
  by (simp add: length_sql_keywords)

lemma kw_name_table:
  assumes "i < 124"
  shows "aLen ! i = length (kw_name i) \<and> aCode ! i = snd (sql_keywords ! i) \<and>
    aOffset ! i + aLen ! i \<le> length zText \<and>
    kw_name i = ascii (take (aLen ! i) (drop (aOffset ! i) zText))"
proof -
  have "take (aLen ! i) (drop (aOffset ! i) zText) = fst (sql_keywords ! i)"
    using arg_cong[OF names_at, of "\<lambda>xs. xs ! i"] assms
    by (simp add: length_sql_keywords del: upt_rec_numeral)
  moreover have "aOffset ! i + aLen ! i \<le> length zText"
    using names_in_text assms by (simp add: list_all_iff del: upt_rec_numeral)
  ultimately show ?thesis
    using assms by (simp add: aLen_names aCode_names kw_name_def ascii_def length_sql_keywords
        case_prod_unfold)
qed

lemmas kw_name_length = kw_name_table [THEN conjunct1]
lemmas kw_name_code = kw_name_table [THEN conjunct2, THEN conjunct1]
lemmas kw_name_fits = kw_name_table [THEN conjunct2, THEN conjunct2, THEN conjunct1]
lemmas kw_name_bytes = kw_name_table [THEN conjunct2, THEN conjunct2, THEN conjunct2]

lemma kw_name_capital:
  assumes "i < 124"
  shows "2 \<le> length (kw_name i) \<and> capital_letter (ch (kw_name i)) \<and>
    capital_letter (ch (drop (length (kw_name i) - 1) (kw_name i)))"
  using names_capital in_sql_keywords[OF assms]
  unfolding list_all_iff kw_name_def by (force simp: ascii_def)

lemma kw_name_letters:
  assumes "i < 124"
  shows "list_all (\<lambda>c. capital_letter c \<or> c = 0x5f) (kw_name i) \<and> ch (kw_name i) \<noteq> 0x58"
  using names_letters in_sql_keywords[OF assms] unfolding list_all_iff[of _ sql_keywords] kw_name_def
  by force

lemma kw_name_inj: "i < 124 \<Longrightarrow> j < 124 \<Longrightarrow> kw_name i = kw_name j \<longleftrightarrow> i = j"
  using nth_eq_iff_index_eq[OF names_distinct, of i j]
  by (simp add: length_sql_keywords kw_name_def case_prod_unfold)

lemma kw_name_chain:
  assumes "i < 124"
  shows "i \<in> set (kw_chain (aHash ! kw_hash (kw_name i) (length (kw_name i))))"
proof -
  have "zip [0 ..< 124] (map (\<lambda>(w, t). kw_hash (ascii w) (length w)) sql_keywords) ! i =
      (i, kw_hash (kw_name i) (length (kw_name i)))"
    using assms by (simp add: length_sql_keywords kw_name_def case_prod_unfold ascii_def
        del: upt_rec_numeral)
  moreover have "zip [0 ..< 124] (map (\<lambda>(w, t). kw_hash (ascii w) (length w)) sql_keywords) ! i
      \<in> set (zip [0 ..< 124] (map (\<lambda>(w, t). kw_hash (ascii w) (length w)) sql_keywords))"
    using assms by (intro nth_mem) (simp add: length_sql_keywords)
  ultimately show ?thesis using chains unfolding list_all_iff by auto
qed

lemma kw_chain_less: "i \<in> set (kw_chain k) \<Longrightarrow> i < 124"
proof (induction k rule: kw_chain.induct)
  case (1 k)
  show ?case
  proof (cases "k = 0 \<or> 124 < k")
    case True
    with 1(2) show ?thesis by (simp add: kw_chain.simps[of k])
  next
    case False
    with 1(2) have "i = k - 1 \<or> i \<in> set (kw_chain (aNext ! (k - 1)))"
      by (simp add: kw_chain.simps[of k])
    then show ?thesis using 1(1)[OF False] False by auto
  qed
qed

end
