(* ===== verification/Keyword.thy ===== *)
theory Keyword
  imports Keyword_Tables
begin

text \<open>
  The keyword lookup of keywordhash.h is the case-insensitive dictionary of the SQL keywords: the
  hash chains are followed to their ends, every keyword is found, and nothing else is.
\<close>

subsection \<open>The lookup finds the keyword\<close>

lemma all_from:
  fixes j :: nat
  shows "j < n \<Longrightarrow> (\<forall>i. j \<le> i \<and> i < n \<longrightarrow> P i) \<longleftrightarrow> P j \<and> (\<forall>i. j + 1 \<le> i \<and> i < n \<longrightarrow> P i)"
proof -
  assume "j < n"
  have "j \<le> i \<longleftrightarrow> i = j \<or> j + 1 \<le> i" for i by auto
  with \<open>j < n\<close> show ?thesis by auto
qed

lemma kw_scan_le: "j \<le> n \<Longrightarrow> kw_scan z off n j \<le> n"
proof (induction z off n j rule: kw_scan.induct)
  case (1 z off n j)
  then show ?case by (subst kw_scan.simps) auto
qed

lemma kw_scan_end:
  assumes "j \<le> n"
  shows "kw_scan z off n j = n \<longleftrightarrow> (\<forall>i. j \<le> i \<and> i < n \<longrightarrow> clear5 (ch (drop i z)) = zKW (off + i))"
  using assms
proof (induction z off n j rule: kw_scan.induct)
  case (1 z off n j)
  show ?case
  proof (cases "j < n \<and> ch (drop j z) AND NOT 0x20 = zKW (off + j)")
    case True
    then have "kw_scan z off n j = kw_scan z off n (j + 1)" by (subst kw_scan.simps) simp
    moreover have "(\<forall>i. j \<le> i \<and> i < n \<longrightarrow> clear5 (ch (drop i z)) = zKW (off + i)) \<longleftrightarrow>
        (\<forall>i. j + 1 \<le> i \<and> i < n \<longrightarrow> clear5 (ch (drop i z)) = zKW (off + i))"
      using True all_from[of j n "\<lambda>i. clear5 (ch (drop i z)) = zKW (off + i)"]
      unfolding clear5_def by blast
    ultimately show ?thesis using 1(1)[OF True] True by simp
  next
    case False
    then have "kw_scan z off n j = j" by (subst kw_scan.simps) auto
    with False 1(2) show ?thesis unfolding clear5_def by (cases "j = n") auto
  qed
qed

lemma kw_match:
  assumes "n \<le> length z" "i < 124"
  shows "aLen ! i = n \<and> \<not> kw_scan z (aOffset ! i) n 0 < n \<longleftrightarrow> map clear5 (take n z) = kw_name i"
proof (cases "aLen ! i = n")
  case True
  have "\<not> kw_scan z (aOffset ! i) n 0 < n \<longleftrightarrow> kw_scan z (aOffset ! i) n 0 = n"
    using kw_scan_le[of 0 n z "aOffset ! i"] by linarith
  also have "\<dots> \<longleftrightarrow> (\<forall>j < n. clear5 (ch (drop j z)) = zKW (aOffset ! i + j))"
    using kw_scan_end[of 0 n z "aOffset ! i"] by simp
  also have "\<dots> \<longleftrightarrow> (\<forall>j < n. map clear5 (take n z) ! j = kw_name i ! j)"
  proof -
    have "ascii (take n (drop (aOffset ! i) zText)) ! j = zKW (aOffset ! i + j)" if "j < n" for j
      using kw_name_fits[OF assms(2)] that unfolding True by (simp add: zKW_def ascii_def)
    then have "kw_name i ! j = zKW (aOffset ! i + j)" if "j < n" for j
      using that kw_name_bytes[OF assms(2)] unfolding True by metis
    moreover have "map clear5 (take n z) ! j = clear5 (ch (drop j z))" if "j < n" for j
      using that assms(1) by (simp add: ch_tl)
    ultimately show ?thesis by simp
  qed
  also have "\<dots> \<longleftrightarrow> map clear5 (take n z) = kw_name i"
  proof -
    have "length (map clear5 (take n z)) = n" "length (kw_name i) = n"
      using assms(1) kw_name_length[OF assms(2)] True by simp_all
    then show ?thesis unfolding list_eq_iff_nth_eq by simp
  qed
  finally show ?thesis using True by simp
next
  case False
  then have "length (map clear5 (take n z)) \<noteq> length (kw_name i)"
    using kw_name_length[OF assms(2)] assms(1) by simp
  with False show ?thesis by metis
qed

lemma kw_loop_find:
  assumes "n \<le> length z"
  shows "kw_loop z n k =
    map_option (\<lambda>i. aCode ! i) (find (\<lambda>i. map clear5 (take n z) = kw_name i) (kw_chain k))"
  using assms
proof (induction z n k rule: kw_loop.induct)
  case (1 z n k)
  show ?case
  proof (cases "k = 0 \<or> 124 < k")
    case True
    then show ?thesis by (simp add: kw_loop.simps[of z n k] kw_chain.simps[of k])
  next
    case False
    then have "k - 1 < 124" by auto
    from kw_match[OF 1(2) this] False 1(1)[OF False refl] 1(2)
    show ?thesis by (simp add: kw_loop.simps[of z n k] kw_chain.simps[of k])
  qed
qed

lemma clear5_letter: "capital_letter (clear5 c) \<Longrightarrow> charMap c = charMap (clear5 c)"
  by (rule byte_cases[of "\<lambda>c. capital_letter (clear5 c) \<longrightarrow> charMap c = charMap (clear5 c)", THEN mp])
    (simp_all add: upt_from_0 capital_letter_def clear5_def charMap_def UpperToLower_eq)

lemma kw_hash_name:
  assumes "n \<le> length z" "i < 124" "map clear5 (take n z) = kw_name i"
  shows "n = length (kw_name i) \<and> kw_hash z n = kw_hash (kw_name i) n"
proof -
  have n: "n = length (kw_name i)" using assms(1, 3) by (metis length_map length_take min_absorb2)
  note C = kw_name_capital[OF assms(2), folded n]
  have at: "clear5 (ch (drop j z)) = ch (drop j (kw_name i))" if "j < n" for j
  proof -
    have "kw_name i ! j = clear5 (ch (drop j z))"
      unfolding assms(3) [symmetric] using that assms(1) by (simp add: ch_tl)
    then show ?thesis using that unfolding n by (simp add: ch_tl)
  qed
  have "charMap (ch z) = charMap (ch (kw_name i))"
    using at[of 0] clear5_letter[of "ch z"] C by simp
  moreover have "charMap (ch (drop (n - 1) z)) = charMap (ch (drop (n - 1) (kw_name i)))"
    using at[of "n - 1"] clear5_letter[of "ch (drop (n - 1) z)"] C by simp
  ultimately show ?thesis using n by (simp add: kw_hash_def)
qed

text \<open>The dictionary, with its names as bytes.\<close>

definition keyword_map :: "u8 list \<Rightarrow> token option" where
  "keyword_map = map_of (map (\<lambda>(w, t). (ascii w, t)) sql_keywords)"

lemma keyword_map_index:
  assumes "i < 124"
  shows "keyword_map (kw_name i) = Some (aCode ! i)"
proof -
  have "(kw_name i, aCode ! i) \<in> (\<lambda>(w, t). (ascii w, t)) ` set sql_keywords"
    unfolding kw_name_code[OF assms] unfolding kw_name_def
    by (intro image_eqI[of _ _ "sql_keywords ! i"] in_sql_keywords[OF assms])
      (simp add: case_prod_unfold)
  moreover have "distinct (map fst (map (\<lambda>(w, t). (ascii w, t)) sql_keywords))"
    using names_distinct by (simp add: comp_def case_prod_unfold)
  ultimately show ?thesis unfolding keyword_map_def by (intro map_of_is_SomeI) simp_all
qed

lemma keyword_map_None:
  assumes "\<And>i. i < 124 \<Longrightarrow> kw_name i \<noteq> w"
  shows "keyword_map w = None"
proof -
  have "w \<notin> fst ` set (map (\<lambda>(w, t). (ascii w, t)) sql_keywords)"
  proof
    assume "w \<in> fst ` set (map (\<lambda>(w, t). (ascii w, t)) sql_keywords)"
    then obtain kw where "kw \<in> set sql_keywords" "w = ascii (fst kw)" by auto
    then obtain i where "i < 124" "w = ascii (fst (sql_keywords ! i))"
      unfolding in_set_conv_nth length_sql_keywords by metis
    with assms[of i] show False by (simp add: kw_name_def)
  qed
  then show ?thesis unfolding keyword_map_def map_of_eq_None_iff .
qed

lemma kw_lookup:
  assumes "n \<le> length z"
  shows "kw_loop z n (aHash ! kw_hash z n) = keyword_map (map clear5 (take n z))"
proof (cases "find (\<lambda>i. map clear5 (take n z) = kw_name i) (kw_chain (aHash ! kw_hash z n))")
  case None
  have "kw_name i \<noteq> map clear5 (take n z)" if "i < 124" for i
    using None kw_hash_name[OF assms that] kw_name_chain[OF that] unfolding find_None_iff by metis
  with None kw_loop_find[OF assms] show ?thesis by (simp add: keyword_map_None)
next
  case (Some i)
  then have "i \<in> set (kw_chain (aHash ! kw_hash z n))" "map clear5 (take n z) = kw_name i"
    unfolding find_Some_iff by auto
  with Some kw_loop_find[OF assms] show ?thesis
    by (simp add: keyword_map_index kw_chain_less)
qed

lemma keyword_map_letters:
  assumes "keyword_map w = Some t"
  shows "list_all (\<lambda>c. capital_letter c \<or> c = 0x5f) w \<and> ch w \<noteq> 0x58"
proof -
  obtain i where "i < 124" "kw_name i = w" using keyword_map_None[of w] assms by fastforce
  then show ?thesis using kw_name_letters by blast
qed

lemma keyword_map_short: "length w < 2 \<Longrightarrow> keyword_map w = None"
  using kw_name_capital by (intro keyword_map_None) (metis not_less)

lemma keywordCode_lookup:
  assumes "n \<le> length z"
  shows "keywordCode z n t = (n, case keyword_map (map clear5 (take n z)) of None \<Rightarrow> t | Some c \<Rightarrow> c)"
  using kw_lookup[OF assms] keyword_map_short[of "map clear5 (take n z)"]
  by (simp add: keywordCode_def)

text \<open>
  C36: \<open>keywordCode\<close> is the case-insensitive lookup in the dictionary of the SQL keywords: for
  every text and every length within it, the token code it stores is the code of the keyword
  whose name the characters spell with bit 5 cleared, and the code that was there before when
  they spell none.
\<close>

theorem keyword_lookup:
  assumes "n \<le> length z"
  shows "keywordCode z n t =
    (n, case keyword_map (map clear5 (take n z)) of None \<Rightarrow> t | Some c \<Rightarrow> c)"
  using assms by (rule keywordCode_lookup)

lemma keyword_lookup_witness: "keywordCode [0x53, 0x65, 0x4c, 0x45, 0x63, 0x54, 0x20] 6 TK_ID = (6, TK_SELECT)"
proof -
  have "kw_name 18 = [0x53, 0x45, 0x4c, 0x45, 0x43, 0x54]" "aCode ! 18 = TK_SELECT"
    by (simp_all add: kw_name_def sql_keywords_def ascii_def aCode_def)
  then show ?thesis
    using keyword_lookup[of 6 "[0x53, 0x65, 0x4c, 0x45, 0x63, 0x54, 0x20]" TK_ID] keyword_map_index[of 18]
    by (simp add: clear5_def)
qed

end
