(* ===== verification/Tokenize.thy ===== *)
theory Tokenize
  imports Keyword
begin

text \<open>
  The SQL tokenizer \<open>sqlite3GetToken\<close> of tokenize.c: the character classes, one loop per shape
  of token, and the switch on the class of the first byte. The token is described by its length
  and its code, as the function returns them.
\<close>

subsection \<open>Character classes\<close>

abbreviation (input) CC_X :: nat where "CC_X \<equiv> 0"
abbreviation (input) CC_KYWD :: nat where "CC_KYWD \<equiv> 1"
abbreviation (input) CC_ID :: nat where "CC_ID \<equiv> 2"
abbreviation (input) CC_DIGIT :: nat where "CC_DIGIT \<equiv> 3"
abbreviation (input) CC_DOLLAR :: nat where "CC_DOLLAR \<equiv> 4"
abbreviation (input) CC_VARALPHA :: nat where "CC_VARALPHA \<equiv> 5"
abbreviation (input) CC_VARNUM :: nat where "CC_VARNUM \<equiv> 6"
abbreviation (input) CC_SPACE :: nat where "CC_SPACE \<equiv> 7"
abbreviation (input) CC_QUOTE :: nat where "CC_QUOTE \<equiv> 8"
abbreviation (input) CC_QUOTE2 :: nat where "CC_QUOTE2 \<equiv> 9"
abbreviation (input) CC_PIPE :: nat where "CC_PIPE \<equiv> 10"
abbreviation (input) CC_MINUS :: nat where "CC_MINUS \<equiv> 11"
abbreviation (input) CC_LT :: nat where "CC_LT \<equiv> 12"
abbreviation (input) CC_GT :: nat where "CC_GT \<equiv> 13"
abbreviation (input) CC_EQ :: nat where "CC_EQ \<equiv> 14"
abbreviation (input) CC_BANG :: nat where "CC_BANG \<equiv> 15"
abbreviation (input) CC_SLASH :: nat where "CC_SLASH \<equiv> 16"
abbreviation (input) CC_LP :: nat where "CC_LP \<equiv> 17"
abbreviation (input) CC_RP :: nat where "CC_RP \<equiv> 18"
abbreviation (input) CC_SEMI :: nat where "CC_SEMI \<equiv> 19"
abbreviation (input) CC_PLUS :: nat where "CC_PLUS \<equiv> 20"
abbreviation (input) CC_STAR :: nat where "CC_STAR \<equiv> 21"
abbreviation (input) CC_PERCENT :: nat where "CC_PERCENT \<equiv> 22"
abbreviation (input) CC_COMMA :: nat where "CC_COMMA \<equiv> 23"
abbreviation (input) CC_AND :: nat where "CC_AND \<equiv> 24"
abbreviation (input) CC_TILDA :: nat where "CC_TILDA \<equiv> 25"
abbreviation (input) CC_DOT :: nat where "CC_DOT \<equiv> 26"
abbreviation (input) CC_ILLEGAL :: nat where "CC_ILLEGAL \<equiv> 27"

definition aiClass :: "nat list" where
  "aiClass =
    [27, 27, 27, 27, 27, 27, 27, 27, 27,  7,  7, 27,  7,  7, 27, 27,
     27, 27, 27, 27, 27, 27, 27, 27, 27, 27, 27, 27, 27, 27, 27, 27,
      7, 15,  8,  5,  4, 22, 24,  8, 17, 18, 21, 20, 23, 11, 26, 16,
      3,  3,  3,  3,  3,  3,  3,  3,  3,  3,  5, 19, 12, 14, 13,  6,
      5,  1,  1,  1,  1,  1,  1,  1,  1,  1,  1,  1,  1,  1,  1,  1,
      1,  1,  1,  1,  1,  1,  1,  1,  0,  1,  1,  9, 27, 27, 27,  1,
      8,  1,  1,  1,  1,  1,  1,  1,  1,  1,  1,  1,  1,  1,  1,  1,
      1,  1,  1,  1,  1,  1,  1,  1,  0,  1,  1, 27, 10, 27, 25, 27,
      2,  2,  2,  2,  2,  2,  2,  2,  2,  2,  2,  2,  2,  2,  2,  2,
      2,  2,  2,  2,  2,  2,  2,  2,  2,  2,  2,  2,  2,  2,  2,  2,
      2,  2,  2,  2,  2,  2,  2,  2,  2,  2,  2,  2,  2,  2,  2,  2,
      2,  2,  2,  2,  2,  2,  2,  2,  2,  2,  2,  2,  2,  2,  2,  2,
      2,  2,  2,  2,  2,  2,  2,  2,  2,  2,  2,  2,  2,  2,  2,  2,
      2,  2,  2,  2,  2,  2,  2,  2,  2,  2,  2,  2,  2,  2,  2,  2,
      2,  2,  2,  2,  2,  2,  2,  2,  2,  2,  2,  2,  2,  2,  2,  2,
      2,  2,  2,  2,  2,  2,  2,  2,  2,  2,  2,  2,  2,  2,  2,  2]"

definition cc :: "u8 \<Rightarrow> nat" where
  "cc c = aiClass ! unat c"

subsection \<open>The loops\<close>

text \<open>Reading the text: past the end there is the NUL.\<close>

abbreviation at :: "u8 list \<Rightarrow> nat \<Rightarrow> u8" where
  "at z i \<equiv> ch (drop i z)"

text \<open>
  \<open>scan p z i\<close> is the loop \<open>for(; p(z[i]); i++)\<close>; every \<open>p\<close> it is used with is false on the NUL,
  so that it stops at the end of the text at the latest.
\<close>

function scan :: "(u8 \<Rightarrow> bool) \<Rightarrow> u8 list \<Rightarrow> nat \<Rightarrow> nat" where
  "scan p z i = (if i < length z \<and> p (at z i) then scan p z (i + 1) else i)"
  by pat_completeness auto
termination by (relation "measure (\<lambda>(p, z, i). length z - i)") auto

declare scan.simps [simp del]

text \<open>The end of a C comment: \<open>(c!='*' || z[i]!='/') && (c=z[i])!=0\<close>.\<close>

function comment_end :: "u8 list \<Rightarrow> nat \<Rightarrow> u8 \<Rightarrow> nat \<times> u8" where
  "comment_end z i c =
     (if c \<noteq> 0x2a \<or> at z i \<noteq> 0x2f
      then (if at z i \<noteq> 0 then comment_end z (i + 1) (at z i) else (i, 0))
      else (i, c))"
  by pat_completeness auto
termination
  by (relation "measure (\<lambda>(z, i, c). length z - i)") (auto simp: ch_tl split: if_splits)

declare comment_end.simps [simp del]

text \<open>The end of a quoted string, in which the delimiter is doubled.\<close>

function quote_end :: "u8 list \<Rightarrow> u8 \<Rightarrow> nat \<Rightarrow> nat \<times> u8" where
  "quote_end z delim i =
     (if at z i \<noteq> 0
      then (if at z i = delim
            then (if at z (i + 1) = delim then quote_end z delim (i + 2) else (i, at z i))
            else quote_end z delim (i + 1))
      else (i, 0))"
  by pat_completeness auto
termination
  by (relation "measure (\<lambda>(z, d, i). length z - i)") (auto simp: ch_tl split: if_splits)

declare quote_end.simps [simp del]

text \<open>The end of a bracketed identifier.\<close>

function bracket_end :: "u8 list \<Rightarrow> nat \<Rightarrow> u8 \<Rightarrow> nat \<times> u8" where
  "bracket_end z i c =
     (if c \<noteq> 0x5d
      then (if at z i \<noteq> 0 then bracket_end z (i + 1) (at z i) else (i, 0))
      else (i, c))"
  by pat_completeness auto
termination
  by (relation "measure (\<lambda>(z, i, c). length z - i)") (auto simp: ch_tl split: if_splits)

declare bracket_end.simps [simp del]

text \<open>
  The name of a variable. \<open>n\<close> counts the identifier characters; a TCL index in parentheses and
  the TCL name separator \<open>::\<close> belong to the name. The last component is the token code.
\<close>

definition index_char :: "u8 \<Rightarrow> bool" where
  "index_char c \<longleftrightarrow> c \<noteq> 0 \<and> \<not> sqlite3Isspace c \<and> c \<noteq> 0x29"

function var_end :: "u8 list \<Rightarrow> nat \<Rightarrow> nat \<Rightarrow> nat \<times> nat \<times> token" where
  "var_end z i n =
     (if at z i \<noteq> 0
      then (if IdChar (at z i) then var_end z (i + 1) (n + 1)
            else if at z i = 0x28 \<and> 0 < n
            then (let i = scan index_char z (i + 1)
              in if at z i = 0x29 then (i + 1, n, TK_VARIABLE) else (i, n, TK_ILLEGAL))
            else if at z i = 0x3a \<and> at z (i + 1) = 0x3a then var_end z (i + 2) n
            else (i, n, TK_VARIABLE))
      else (i, n, TK_VARIABLE))"
  by pat_completeness auto
termination
  by (relation "measure (\<lambda>(z, i, n). length z - i)") (auto simp: ch_tl split: if_splits)

declare var_end.simps [simp del]

subsection \<open>Numbers and identifiers\<close>

text \<open>\<open>i\<close> is the position and \<open>t\<close> the token code after each part of the number.\<close>

definition fraction_part :: "u8 list \<Rightarrow> nat \<times> token \<Rightarrow> nat \<times> token" where
  "fraction_part z = (\<lambda>(i, t).
     if at z i = 0x2e then (scan sqlite3Isdigit z (i + 1), TK_FLOAT) else (i, t))"

definition exponent_part :: "u8 list \<Rightarrow> nat \<times> token \<Rightarrow> nat \<times> token" where
  "exponent_part z = (\<lambda>(i, t).
     if (at z i = 0x65 \<or> at z i = 0x45) \<and>
        (sqlite3Isdigit (at z (i + 1)) \<or>
         (at z (i + 1) = 0x2b \<or> at z (i + 1) = 0x2d) \<and> sqlite3Isdigit (at z (i + 2)))
     then (scan sqlite3Isdigit z (i + 2), TK_FLOAT) else (i, t))"

definition number_tail :: "u8 list \<Rightarrow> nat \<times> token \<Rightarrow> nat \<times> token" where
  "number_tail z = (\<lambda>(i, t). (scan IdChar z i, if IdChar (at z i) then TK_ILLEGAL else t))"

definition number_token :: "u8 list \<Rightarrow> nat \<times> token" where
  "number_token z =
     (if at z 0 = 0x30 \<and> (at z 1 = 0x78 \<or> at z 1 = 0x58) \<and> sqlite3Isxdigit (at z 2)
      then (scan sqlite3Isxdigit z 3, TK_INTEGER)
      else number_tail z (exponent_part z (fraction_part z (scan sqlite3Isdigit z 0, TK_INTEGER))))"

definition id_token :: "u8 list \<Rightarrow> nat \<Rightarrow> nat \<times> token" where
  "id_token z i = (scan IdChar z i, TK_ID)"

definition blob_token :: "u8 list \<Rightarrow> nat \<times> token" where
  "blob_token z =
     (let i = scan sqlite3Isxdigit z 2;
          (i, t) = (if at z i \<noteq> 0x27 \<or> i mod 2 \<noteq> 0
                    then (scan (\<lambda>c. c \<noteq> 0 \<and> c \<noteq> 0x27) z i, TK_ILLEGAL) else (i, TK_BLOB))
      in (if at z i \<noteq> 0 then i + 1 else i, t))"

subsection \<open>The switch\<close>

definition sqlite3GetToken :: "u8 list \<Rightarrow> nat \<times> token" where
  "sqlite3GetToken z =
     (let k = cc (at z 0) in
      if k = CC_SPACE then (scan sqlite3Isspace z 1, TK_SPACE)
      else if k = CC_MINUS then
        (if at z 1 = 0x2d then (scan (\<lambda>c. c \<noteq> 0 \<and> c \<noteq> 0x0a) z 2, TK_SPACE) else (1, TK_MINUS))
      else if k = CC_LP then (1, TK_LP)
      else if k = CC_RP then (1, TK_RP)
      else if k = CC_SEMI then (1, TK_SEMI)
      else if k = CC_PLUS then (1, TK_PLUS)
      else if k = CC_STAR then (1, TK_STAR)
      else if k = CC_SLASH then
        (if at z 1 \<noteq> 0x2a \<or> at z 2 = 0 then (1, TK_SLASH)
         else (let (i, c) = comment_end z 3 (at z 2) in (if c \<noteq> 0 then i + 1 else i, TK_SPACE)))
      else if k = CC_PERCENT then (1, TK_REM)
      else if k = CC_EQ then (if at z 1 = 0x3d then 2 else 1, TK_EQ)
      else if k = CC_LT then
        (if at z 1 = 0x3d then (2, TK_LE)
         else if at z 1 = 0x3e then (2, TK_NE)
         else if at z 1 = 0x3c then (2, TK_LSHIFT)
         else (1, TK_LT))
      else if k = CC_GT then
        (if at z 1 = 0x3d then (2, TK_GE)
         else if at z 1 = 0x3e then (2, TK_RSHIFT)
         else (1, TK_GT))
      else if k = CC_BANG then (if at z 1 \<noteq> 0x3d then (1, TK_ILLEGAL) else (2, TK_NE))
      else if k = CC_PIPE then (if at z 1 \<noteq> 0x7c then (1, TK_BITOR) else (2, TK_CONCAT))
      else if k = CC_COMMA then (1, TK_COMMA)
      else if k = CC_AND then (1, TK_BITAND)
      else if k = CC_TILDA then (1, TK_BITNOT)
      else if k = CC_QUOTE then
        (let (i, c) = quote_end z (at z 0) 1
         in if c = 0x27 then (i + 1, TK_STRING)
            else if c \<noteq> 0 then (i + 1, TK_ID) else (i, TK_ILLEGAL))
      else if k = CC_DOT \<and> \<not> sqlite3Isdigit (at z 1) then (1, TK_DOT)
      else if k = CC_DOT \<or> k = CC_DIGIT then number_token z
      else if k = CC_QUOTE2 then
        (let (i, c) = bracket_end z 1 (at z 0) in (i, if c = 0x5d then TK_ID else TK_ILLEGAL))
      else if k = CC_VARNUM then (scan sqlite3Isdigit z 1, TK_VARIABLE)
      else if k = CC_DOLLAR \<or> k = CC_VARALPHA then
        (let (i, n, t) = var_end z 1 0 in (i, if n = 0 then TK_ILLEGAL else t))
      else if k = CC_KYWD then
        (let i = scan (\<lambda>c. cc c \<le> CC_KYWD) z 1
         in if IdChar (at z i) then id_token z (i + 1) else keywordCode z i TK_ID)
      else if k = CC_X \<and> at z 1 = 0x27 then blob_token z
      else if k = CC_X \<or> k = CC_ID then id_token z 1
      else (1, TK_ILLEGAL))"

subsection \<open>A token lies within the text\<close>

text \<open>The length of the text before its terminator.\<close>

definition strlen :: "u8 list \<Rightarrow> nat" where
  "strlen z = length (takeWhile (\<lambda>c. c \<noteq> 0) z)"

lemma strlen_le: "strlen z \<le> length z"
  unfolding strlen_def by (rule length_takeWhile_le)

lemma at_strlen: "at z (strlen z) = 0"
  unfolding strlen_def by (induction z) auto

lemma strlen_advance: "i \<le> strlen z \<Longrightarrow> at z i \<noteq> 0 \<Longrightarrow> i < strlen z"
  using at_strlen[of z] by (cases "i = strlen z") auto

lemma strlen_at: "i < strlen z \<Longrightarrow> at z i \<noteq> 0"
  unfolding strlen_def
  by (induction z arbitrary: i) (auto simp: drop_Cons' split: if_splits)

lemma scan_bounds:
  assumes "\<not> p 0" "i \<le> strlen z"
  shows "i \<le> scan p z i \<and> scan p z i \<le> strlen z"
  using assms
proof (induction p z i rule: scan.induct)
  case (1 p z i)
  have "p (at z i) \<Longrightarrow> i < strlen z" using strlen_advance[of i z] 1(2, 3) by metis
  with 1 show ?case by (subst (1 2) scan.simps) (auto simp: Suc_le_eq)
qed

lemma comment_end_bounds:
  assumes "i \<le> strlen z" "comment_end z i c = (j, d)"
  shows "i \<le> j \<and> (d \<noteq> 0 \<longrightarrow> j < strlen z) \<and> j \<le> strlen z"
  using assms
proof (induction z i c rule: comment_end.induct)
  case (1 z i c)
  then show ?case
    using strlen_advance[of i z] by (subst (asm) (2) comment_end.simps) (auto split: if_splits)
qed

lemma quote_end_bounds:
  assumes "i \<le> strlen z" "quote_end z d i = (j, c)"
  shows "i \<le> j \<and> (c \<noteq> 0 \<longrightarrow> j < strlen z) \<and> j \<le> strlen z"
  using assms
proof (induction z d i rule: quote_end.induct)
  case (1 z d i)
  then show ?case
    using strlen_advance[of i z] strlen_advance[of "i + 1" z]
    by (subst (asm) (3) quote_end.simps) (auto split: if_splits)
qed

lemma bracket_end_bounds:
  assumes "i \<le> strlen z" "bracket_end z i c = (j, d)"
  shows "i \<le> j \<and> j \<le> strlen z"
  using assms
proof (induction z i c rule: bracket_end.induct)
  case (1 z i c)
  then show ?case
    using strlen_advance[of i z] by (subst (asm) (2) bracket_end.simps) (auto split: if_splits)
qed

lemma var_end_bounds:
  assumes "i \<le> strlen z" "var_end z i n = (j, m, t)"
  shows "i \<le> j \<and> j \<le> strlen z"
  using assms
proof (induction z i n rule: var_end.induct)
  case (1 z i n)
  have "scan index_char z (i + 1) \<le> strlen z \<and> i + 1 \<le> scan index_char z (i + 1)"
    if "at z i \<noteq> 0"
    using strlen_advance[OF 1(3) that] scan_bounds[of index_char "i + 1" z]
    by (simp add: index_char_def)
  then show ?case
    using 1 strlen_advance[of i z] strlen_advance[of "i + 1" z]
      strlen_advance[of "scan index_char z (i + 1)" z]
    by (subst (asm) (3) var_end.simps) (auto split: if_splits simp: Let_def)
qed

subsection \<open>The classes\<close>

definition class_of :: "nat \<Rightarrow> nat" where
  "class_of n =
     (if n = 9 \<or> n = 10 \<or> n = 12 \<or> n = 13 \<or> n = 32 then CC_SPACE
      else if 128 \<le> n then CC_ID
      else if n = 88 \<or> n = 120 then CC_X
      else if 65 \<le> n \<and> n \<le> 90 \<or> 97 \<le> n \<and> n \<le> 122 \<or> n = 95 then CC_KYWD
      else if 48 \<le> n \<and> n \<le> 57 then CC_DIGIT
      else if n = 34 \<or> n = 39 \<or> n = 96 then CC_QUOTE
      else if n = 36 then CC_DOLLAR
      else if n = 35 \<or> n = 58 \<or> n = 64 then CC_VARALPHA
      else case map_of
        [(33, CC_BANG), (37, CC_PERCENT), (38, CC_AND), (40, CC_LP), (41, CC_RP), (42, CC_STAR),
         (43, CC_PLUS), (44, CC_COMMA), (45, CC_MINUS), (46, CC_DOT), (47, CC_SLASH), (59, CC_SEMI),
         (60, CC_LT), (61, CC_EQ), (62, CC_GT), (63, CC_VARNUM), (91, CC_QUOTE2), (124, CC_PIPE),
         (126, CC_TILDA)] n of Some k \<Rightarrow> k | None \<Rightarrow> CC_ILLEGAL)"

lemma aiClass_table: "aiClass = map class_of [0 ..< 256]"
  by (simp add: aiClass_def upt_from_0 class_of_def)

lemma cc_eq: "cc c = class_of (unat c)"
  using unat_u8_less[of c] by (simp add: cc_def aiClass_table del: upt_rec_numeral)

lemma cc_digit: "cc c = CC_DIGIT \<longleftrightarrow> sqlite3Isdigit c"
  unfolding cc_eq class_of_def isdigit_iff by (auto simp: word_le_nat_alt)

lemma cc_dot: "cc c = CC_DOT \<longleftrightarrow> c = 0x2e"
  unfolding cc_eq class_of_def by (auto simp: word_unat_eq_iff)

lemma cc_word: "cc c \<le> CC_KYWD \<longleftrightarrow> sqlite3Isalpha c \<or> c = 0x5f"
  unfolding cc_eq class_of_def isalpha_iff by (auto simp: word_unat_eq_iff word_le_nat_alt)

lemma cc_0: "cc 0 = CC_ILLEGAL"
  by (simp add: cc_eq class_of_def)

text \<open>The classes of bytes the loops scan over do not contain the terminator.\<close>

lemma not_nul:
  "\<not> sqlite3Isspace 0" "\<not> sqlite3Isdigit 0" "\<not> sqlite3Isxdigit 0" "\<not> IdChar 0" "\<not> cc 0 \<le> CC_KYWD"
  by (simp_all add: isspace_iff isdigit_iff isxdigit_iff IdChar_iff isalnum_iff isalpha_iff cc_0)

lemma not_nulD: "sqlite3Isdigit c \<Longrightarrow> c \<noteq> 0" "sqlite3Isxdigit c \<Longrightarrow> c \<noteq> 0" "IdChar c \<Longrightarrow> c \<noteq> 0"
  using not_nul by auto

lemmas scan_bounds' =
  scan_bounds [of sqlite3Isspace, OF not_nul(1)] scan_bounds [of sqlite3Isdigit, OF not_nul(2)]
  scan_bounds [of sqlite3Isxdigit, OF not_nul(3)] scan_bounds [of IdChar, OF not_nul(4)]
  scan_bounds [of "\<lambda>c. cc c \<le> CC_KYWD", OF not_nul(5)]

lemma scan_step: "p (at z i) \<Longrightarrow> i < length z \<Longrightarrow> scan p z i = scan p z (i + 1)"
  by (subst scan.simps) simp

lemma fraction_bounds:
  "i \<le> strlen z \<Longrightarrow> fraction_part z (i, t) = (j, u) \<Longrightarrow>
   i \<le> j \<and> j \<le> strlen z \<and> (at z i = 0x2e \<longrightarrow> i < j)"
  using strlen_advance[of i z] scan_bounds'(2)[of "i + 1" z]
  by (auto simp: fraction_part_def split: if_splits)

lemma exponent_bounds:
  "i \<le> strlen z \<Longrightarrow> exponent_part z (i, t) = (j, u) \<Longrightarrow> i \<le> j \<and> j \<le> strlen z"
  using strlen_advance[of i z] strlen_advance[of "i + 1" z] scan_bounds'(2)[of "i + 2" z]
  by (auto simp: exponent_part_def dest: not_nulD split: if_splits)

lemma number_bounds:
  assumes "sqlite3Isdigit (at z 0) \<or> at z 0 = 0x2e"
  shows "1 \<le> fst (number_token z) \<and> fst (number_token z) \<le> strlen z"
proof -
  have "at z 0 \<noteq> 0" using assms not_nul(2) by auto
  then have pos: "0 < strlen z" using strlen_advance[of 0 z] by simp
  have hex: "3 \<le> scan sqlite3Isxdigit z 3 \<and> scan sqlite3Isxdigit z 3 \<le> strlen z"
    if "at z 1 = 0x78 \<or> at z 1 = 0x58" "sqlite3Isxdigit (at z 2)"
  proof (rule scan_bounds'(3))
    have "at z 1 \<noteq> 0" "at z 2 \<noteq> 0" using that not_nul(3) by auto
    then show "3 \<le> strlen z" using pos strlen_advance[of 1 z] strlen_advance[of 2 z] by auto
  qed
  define i where "i = scan sqlite3Isdigit z 0"
  obtain j t where j: "fraction_part z (i, TK_INTEGER) = (j, t)" by fastforce
  obtain k u where k: "exponent_part z (j, t) = (k, u)" by fastforce
  have "i \<le> strlen z" using scan_bounds'(2)[of 0 z] by (simp add: i_def)
  moreover have "1 \<le> i \<or> i = 0 \<and> at z 0 = 0x2e"
  proof (cases "sqlite3Isdigit (at z 0)")
    case True
    then have "i = scan sqlite3Isdigit z 1"
      using scan_step[of sqlite3Isdigit 0 z] pos
      by (cases z) (auto simp: i_def strlen_def)
    then show ?thesis using scan_bounds'(2)[of 1 z] pos by simp
  next
    case False
    then show ?thesis using assms by (simp add: i_def scan.simps[of _ z 0])
  qed
  ultimately have "1 \<le> j \<and> j \<le> strlen z" using fraction_bounds[OF _ j] by auto
  then have "1 \<le> k \<and> k \<le> strlen z" using exponent_bounds[OF _ k] by auto
  then have "1 \<le> scan IdChar z k \<and> scan IdChar z k \<le> strlen z" using scan_bounds'(4)[of k z] by auto
  then show ?thesis
    using hex by (auto simp: number_token_def number_tail_def i_def[symmetric] j k)
qed

lemma id_bounds: "i \<le> strlen z \<Longrightarrow> i \<le> fst (id_token z i) \<and> fst (id_token z i) \<le> strlen z"
  using scan_bounds'(4)[of i z] by (simp add: id_token_def)

lemma blob_bounds:
  assumes "at z 0 \<noteq> 0" "at z 1 = 0x27"
  shows "1 \<le> fst (blob_token z) \<and> fst (blob_token z) \<le> strlen z"
proof -
  define i where "i = scan sqlite3Isxdigit z 2"
  define j where "j = scan (\<lambda>c. c \<noteq> 0 \<and> c \<noteq> 0x27) z i"
  have "2 \<le> strlen z" using assms strlen_advance[of 0 z] strlen_advance[of 1 z] by auto
  then have i: "2 \<le> i \<and> i \<le> strlen z" using scan_bounds'(3)[of 2 z] by (simp add: i_def)
  then have "i \<le> j \<and> j \<le> strlen z" unfolding j_def by (intro scan_bounds) auto
  with i show ?thesis
    using strlen_advance[of i z] strlen_advance[of j z]
    by (auto simp: blob_token_def Let_def i_def[symmetric] j_def[symmetric])
qed

lemma keywordCode_length [simp]: "fst (keywordCode z n t) = n"
  by (simp add: keywordCode_def)

lemma word_bounds:
  assumes "0 < strlen z"
  shows "let i = scan (\<lambda>c. cc c \<le> CC_KYWD) z 1
    in 1 \<le> i \<and> i \<le> strlen z \<and> (IdChar (at z i) \<longrightarrow> i + 1 \<le> strlen z)"
  using scan_bounds'(5)[of 1 z] assms strlen_advance[of "scan (\<lambda>c. cc c \<le> CC_KYWD) z 1" z]
  by (auto simp: Let_def Suc_le_eq dest: not_nulD)

lemma slash_bounds:
  assumes "at z 0 \<noteq> 0" "at z 1 = 0x2a" "at z 2 \<noteq> 0" "comment_end z 3 (at z 2) = (i, c)"
  shows "1 \<le> (if c \<noteq> 0 then i + 1 else i) \<and> (if c \<noteq> 0 then i + 1 else i) \<le> strlen z"
proof -
  have "3 \<le> strlen z"
    using assms strlen_advance[of 0 z] strlen_advance[of 1 z] strlen_advance[of 2 z] by auto
  then show ?thesis using comment_end_bounds[OF _ assms(4)] by auto
qed

text \<open>A token inside the text is at least one byte long and ends before the terminator.\<close>

definition within :: "u8 list \<Rightarrow> nat \<times> token \<Rightarrow> bool" where
  "within z r \<longleftrightarrow> 1 \<le> fst r \<and> fst r \<le> strlen z"

lemma within_if: "(b \<Longrightarrow> within z r) \<Longrightarrow> (\<not> b \<Longrightarrow> within z s) \<Longrightarrow> within z (if b then r else s)"
  by simp

lemma within_scan:
  assumes "1 \<le> i" "i \<le> strlen z" "\<not> p 0"
  shows "within z (scan p z i, t)"
  using scan_bounds[of p i z] assms by (simp add: within_def)

lemma within_1:
  assumes start: "at z 0 \<noteq> 0"
  shows "1 \<le> strlen z" "within z (1, t)"
  using strlen_advance[of 0 z] start by (simp_all add: within_def)

lemma within_2:
  assumes start: "at z 0 \<noteq> 0"
  shows "at z 1 = c \<Longrightarrow> c \<noteq> 0 \<Longrightarrow> 2 \<le> strlen z" "at z 1 = c \<Longrightarrow> c \<noteq> 0 \<Longrightarrow> within z (2, t)"
  using strlen_advance[of 1 z] within_1[OF start] by (simp_all add: within_def)

lemma within_line:
  assumes start: "at z 0 \<noteq> 0"
  shows "at z 1 = 0x2d \<Longrightarrow> within z (scan (\<lambda>c. c \<noteq> 0 \<and> c \<noteq> 0x0a) z 2, t)"
  using within_2(1)[OF start, of "0x2d"] by (intro within_scan) auto

lemma within_comment:
  assumes start: "at z 0 \<noteq> 0" and h: "at z (Suc 0) = 0x2a \<and> at z 2 \<noteq> 0"
  shows "within z (case comment_end z 3 (at z 2) of (i, c) \<Rightarrow> (if c \<noteq> 0 then (i + 1, t) else (i, t)))"
  using slash_bounds[OF start] h by (auto simp: within_def split: prod.split)

lemma within_quote:
  assumes start: "at z 0 \<noteq> 0"
  shows "within z (case quote_end z d 1 of (i, c) \<Rightarrow>
     if c = 0x27 then (i + 1, s) else if c \<noteq> 0 then (i + 1, t) else (i, u))"
  using quote_end_bounds[OF within_1(1)[OF start]] by (fastforce simp: within_def split: prod.split)

lemma within_bracket:
  assumes start: "at z 0 \<noteq> 0"
  shows "within z (case bracket_end z 1 d of (i, c) \<Rightarrow> (i, t c))"
  using bracket_end_bounds[OF within_1(1)[OF start]] by (auto simp: within_def split: prod.split)

lemma within_var:
  assumes start: "at z 0 \<noteq> 0"
  shows "within z (case var_end z 1 0 of (i, n, t) \<Rightarrow> (i, u n t))"
  using var_end_bounds[OF within_1(1)[OF start]] by (auto simp: within_def split: prod.split)

lemma within_word:
  assumes start: "at z 0 \<noteq> 0"
  shows "IdChar (at z (scan (\<lambda>c. cc c \<le> CC_KYWD) z 1)) \<Longrightarrow>
     within z (id_token z (scan (\<lambda>c. cc c \<le> CC_KYWD) z 1 + 1))"
  "within z (keywordCode z (scan (\<lambda>c. cc c \<le> CC_KYWD) z 1) t)"
  using word_bounds[of z] within_1(1)[OF start] id_bounds[of "scan (\<lambda>c. cc c \<le> CC_KYWD) z 1 + 1" z]
  by (auto simp: within_def Let_def)

lemma within_number:
  assumes start: "at z 0 \<noteq> 0"
  shows "at z 0 = 0x2e \<or> sqlite3Isdigit (at z 0) \<Longrightarrow> within z (number_token z)"
  using number_bounds[of z] by (auto simp: within_def)

lemma within_blob:
  assumes start: "at z 0 \<noteq> 0"
  shows "at z 1 = 0x27 \<Longrightarrow> within z (blob_token z)"
  using blob_bounds[OF start] by (simp add: within_def)

lemma within_id:
  assumes start: "at z 0 \<noteq> 0"
  shows "within z (id_token z 1)"
  using id_bounds[of 1 z] within_1(1)[OF start] by (simp add: within_def)

lemma getToken_within:
  assumes start: "at z 0 \<noteq> 0"
  shows "within z (sqlite3GetToken z)"
  using start
  unfolding sqlite3GetToken_def Let_def
  by (intro within_if)
    (simp_all add: cc_digit cc_dot if_distrib [of "\<lambda>n. (n, _)"] not_nul
      within_1 [simplified] within_2 [simplified] within_line [simplified]
      within_comment
      within_quote [simplified] within_bracket [simplified] within_var [simplified]
      within_word [simplified] within_number [simplified] within_blob [simplified]
      within_id [simplified] within_scan)

subsection \<open>Words and keywords\<close>

lemma at_append: "i < length w \<Longrightarrow> at (w @ rest) i = w ! i"
  by (subst ch_tl) (simp add: nth_append)

lemma scan_all:
  assumes "i \<le> length w" "list_all p (drop i w)" "\<not> p (ch rest)" "\<not> p 0"
  shows "scan p (w @ rest) i = length w"
  using assms
proof (induction p "w @ rest" i rule: scan.induct)
  case (1 p i)
  show ?case
  proof (cases "i < length w")
    case True
    then have "drop i w = w ! i # drop (i + 1) w" by (simp add: Cons_nth_drop_Suc)
    with 1(3) have "p (w ! i)" "list_all p (drop (i + 1) w)" by simp_all
    moreover have "at (w @ rest) i = w ! i" using True by (rule at_append)
    ultimately show ?thesis using 1(1, 4, 5) True by (subst scan.simps) simp
  next
    case False
    with 1 have "i = length w" by simp
    with 1(4) show ?thesis by (subst scan.simps) simp
  qed
qed

lemma scan_first:
  assumes "i \<le> j" "\<And>k. i \<le> k \<Longrightarrow> k < j \<Longrightarrow> k < length z \<and> p (at z k)" "\<not> p (at z j)"
  shows "scan p z i = j"
  using assms
proof (induction p z i rule: scan.induct)
  case (1 p z i)
  show ?case
  proof (cases "i = j")
    case True
    with 1(4) show ?thesis by (subst scan.simps) simp
  next
    case False
    with 1(2) 1(3)[of i] have "i < length z \<and> p (at z i)" by simp
    moreover from this have "scan p z (i + 1) = j"
      using 1(1) 1(2) False 1(3, 4) by (auto simp: Suc_le_eq)
    ultimately show ?thesis by (subst scan.simps) simp
  qed
qed

lemma clear5_word:
  assumes "IdChar c" "capital_letter (clear5 c) \<or> clear5 c = 0x5f"
  shows "cc c \<le> CC_KYWD"
proof -
  have "IdChar c \<and> (capital_letter (clear5 c) \<or> clear5 c = 0x5f) \<longrightarrow> sqlite3Isalpha c \<or> c = 0x5f"
    by (rule byte_cases)
      (simp add: upt_from_0 capital_letter_def clear5_def IdChar_iff isalnum_iff isalpha_iff isdigit_iff)
  with assms show ?thesis unfolding cc_word by blast
qed

lemma cc_word_IdChar: "cc c \<le> CC_KYWD \<Longrightarrow> IdChar c"
  unfolding cc_word IdChar_iff isalnum_iff by auto

text \<open>A word starts with a letter, an underscore or a byte of a multibyte character.\<close>

definition word_start :: "u8 \<Rightarrow> bool" where
  "word_start c \<longleftrightarrow> sqlite3Isalpha c \<or> c = 0x5f \<or> 0x80 \<le> c"

definition sql_word :: "u8 list \<Rightarrow> bool" where
  "sql_word w \<longleftrightarrow> word_start (ch w) \<and> list_all IdChar w"

lemma word_class:
  assumes "word_start c"
  shows "cc c = CC_KYWD \<or> cc c = CC_X \<and> clear5 c = 0x58 \<or> cc c = CC_ID \<and> \<not> cc c \<le> CC_KYWD"
proof (cases "cc c \<le> CC_KYWD")
  case True
  have "cc c = CC_X \<longrightarrow> clear5 c = 0x58"
    unfolding cc_eq class_of_def clear5_def by (auto simp: dest: unat_eq_of_nat)
  with True show ?thesis by auto
next
  case False
  with assms have "128 \<le> unat c" unfolding cc_word word_start_def by (simp add: word_le_nat_alt)
  then show ?thesis by (simp add: cc_eq class_of_def)
qed

lemma keyword_of_word:
  assumes "list_all IdChar w" "keyword_map (map clear5 w) = Some t"
  shows "list_all (\<lambda>c. cc c \<le> CC_KYWD) w"
proof -
  have "\<forall>c \<in> set w. IdChar c \<and> (capital_letter (clear5 c) \<or> clear5 c = 0x5f)"
    using assms(1) keyword_map_letters[OF assms(2)] by (simp add: list_all_iff)
  then show ?thesis unfolding list_all_iff using clear5_word by blast
qed

lemma id_token_word:
  assumes "list_all IdChar w" "\<not> IdChar (ch rest)" "i \<le> length w"
  shows "id_token (w @ rest) i = (length w, TK_ID)"
  using scan_all[of i w IdChar rest] assms not_nul(4)
  by (auto simp: id_token_def list_all_iff dest: in_set_dropD)

lemma first_not:
  assumes "\<not> list_all p w"
  obtains j where "j < length w" "\<not> p (w ! j)" "\<And>k. k < j \<Longrightarrow> p (w ! k)"
proof -
  have "\<exists>j. j < length w \<and> \<not> p (w ! j)" using assms by (auto simp: list_all_length)
  then have "(LEAST j. j < length w \<and> \<not> p (w ! j)) < length w \<and> \<not> p (w ! (LEAST j. j < length w \<and> \<not> p (w ! j)))"
    by (rule LeastI_ex)
  moreover from this have "p (w ! k)" if "k < (LEAST j. j < length w \<and> \<not> p (w ! j))" for k
    using not_less_Least[OF that] that by auto
  ultimately show ?thesis using that by blast
qed

lemma keyword_token:
  assumes "list_all IdChar w" "cc (ch w) = CC_KYWD" "w \<noteq> []" "\<not> IdChar (ch rest)"
  defines "i \<equiv> scan (\<lambda>c. cc c \<le> CC_KYWD) (w @ rest) 1"
  shows "(if IdChar (at (w @ rest) i) then id_token (w @ rest) (i + 1) else keywordCode (w @ rest) i TK_ID)
    = (length w, case keyword_map (map clear5 w) of None \<Rightarrow> TK_ID | Some t \<Rightarrow> t)"
proof (cases "list_all (\<lambda>c. cc c \<le> CC_KYWD) w")
  case True
  then have "i = length w"
    unfolding i_def using assms(3, 4) cc_word_IdChar[of "ch rest"] not_nul(5)
    by (intro scan_all) (auto simp: list_all_iff Suc_le_eq dest: in_set_dropD)
  then show ?thesis using assms(4) keywordCode_lookup[of "length w" "w @ rest" TK_ID] by simp
next
  case False
  from first_not[OF False] obtain j where
    j: "j < length w" "\<not> cc (w ! j) \<le> CC_KYWD" "\<And>k. k < j \<Longrightarrow> cc (w ! k) \<le> CC_KYWD" by blast
  have "cc (w ! 0) \<le> CC_KYWD" using assms(2, 3) by (cases w) auto
  then have "1 \<le> j" using j(2) by (cases j) auto
  then have "i = j"
    unfolding i_def using j by (intro scan_first) (simp_all add: at_append del: drop_append)
  moreover have "IdChar (w ! j)" using assms(1) j(1) by (simp add: list_all_length)
  moreover have "keyword_map (map clear5 w) = None"
    using keyword_of_word[OF assms(1)] False by (cases "keyword_map (map clear5 w)") auto
  ultimately show ?thesis using id_token_word[OF assms(1, 4), of "j + 1"] j(1) by (simp add: at_append del: drop_append)
qed

lemma getToken_word:
  "cc (at z 0) = CC_KYWD \<Longrightarrow> sqlite3GetToken z =
     (let i = scan (\<lambda>c. cc c \<le> CC_KYWD) z 1
      in if IdChar (at z i) then id_token z (i + 1) else keywordCode z i TK_ID)"
  "cc (at z 0) = CC_X \<Longrightarrow> at z 1 \<noteq> 0x27 \<Longrightarrow> sqlite3GetToken z = id_token z 1"
  "cc (at z 0) = CC_ID \<Longrightarrow> sqlite3GetToken z = id_token z 1"
  by (simp_all add: sqlite3GetToken_def)

text \<open>
  Words. A maximal run of identifier characters that starts a word is one token, whatever
  follows it; its code is that of the SQL keyword it spells in any case, and \<open>TK_ID\<close> when it
  spells none. The exception is the letter x before a single quote, which opens a blob literal.
\<close>

theorem token_word:
  assumes "sql_word w" "\<not> IdChar (ch rest)" "clear5 (ch w) = 0x58 \<longrightarrow> at (w @ rest) 1 \<noteq> 0x27"
  shows "sqlite3GetToken (w @ rest) =
    (length w, case keyword_map (map clear5 w) of None \<Rightarrow> TK_ID | Some t \<Rightarrow> t)"
proof -
  have w: "list_all IdChar w" "word_start (ch w)" using assms(1) by (simp_all add: sql_word_def)
  have ne: "w \<noteq> []" using w(2) not_nul by (auto simp: word_start_def isalpha_iff)
  have first: "at (w @ rest) 0 = ch w" using ne by (cases w) auto
  have id: "id_token (w @ rest) 1 = (length w, TK_ID)"
    using id_token_word[OF w(1) assms(2), of 1] ne by (cases w) auto
  have none: "keyword_map (map clear5 w) = None"
    if "cc (ch w) = CC_X \<and> clear5 (ch w) = 0x58 \<or> cc (ch w) = CC_ID \<and> \<not> cc (ch w) \<le> CC_KYWD"
  proof (cases "keyword_map (map clear5 w)")
    case (Some t)
    have "ch (map clear5 w) = clear5 (ch w)" "list_all (\<lambda>c. cc c \<le> CC_KYWD) w \<Longrightarrow> cc (ch w) \<le> CC_KYWD"
      using ne by (cases w, simp_all)+
    with keyword_map_letters[OF Some] keyword_of_word[OF w(1) Some] that show ?thesis by metis
  qed simp
  from word_class[OF w(2)] show ?thesis
  proof (elim disjE)
    assume "cc (ch w) = CC_KYWD"
    moreover from this have "cc (at (w @ rest) 0) = CC_KYWD" unfolding first .
    ultimately show ?thesis
      unfolding getToken_word(1)[OF \<open>cc (at (w @ rest) 0) = CC_KYWD\<close>] Let_def
      by (intro keyword_token w(1) ne assms(2))
  next
    assume X: "cc (ch w) = CC_X \<and> clear5 (ch w) = 0x58"
    then show ?thesis using getToken_word(2)[of "w @ rest"] first id none assms(3) by simp
  next
    assume "cc (ch w) = CC_ID \<and> \<not> cc (ch w) \<le> CC_KYWD"
    then show ?thesis using getToken_word(3)[of "w @ rest"] first id none by simp
  qed
qed

lemma token_word_witness: "sqlite3GetToken [0x4f, 0x72, 0x64, 0x65, 0x72, 0x20, 0x62] = (5, TK_ORDER)"
proof -
  have "keyword_map (kw_name 113) = Some (aCode ! 113)" by (rule keyword_map_index) simp
  then have "keyword_map [0x4f, 0x52, 0x44, 0x45, 0x52] = Some TK_ORDER"
    by (simp add: kw_name_def sql_keywords_def ascii_def aCode_def)
  then show ?thesis
    using token_word[of "[0x4f, 0x72, 0x64, 0x65, 0x72]" "[0x20, 0x62]"]
    by (simp add: sql_word_def word_start_def clear5_def IdChar_iff isalnum_iff isalpha_iff isdigit_iff)
qed

subsection \<open>Quoted tokens\<close>

definition double_quotes :: "u8 \<Rightarrow> u8 list \<Rightarrow> u8 list" where
  "double_quotes q s = concat (map (\<lambda>c. if c = q then [c, c] else [c]) s)"

lemma quote_end_body:
  assumes "0 \<notin> set s" "q \<noteq> 0" "ch rest \<noteq> q"
  shows "quote_end (pre @ double_quotes q s @ q # rest) q (length pre) =
    (length pre + length (double_quotes q s), q)"
  using assms
proof (induction s arbitrary: pre)
  case Nil
  then show ?case by (simp add: double_quotes_def quote_end.simps[of _ _ "length pre"])
next
  case (Cons c s)
  show ?case
  proof (cases "c = q")
    case True
    with Cons(1)[of "pre @ [q, q]"] Cons(2-) show ?thesis
      by (simp add: double_quotes_def quote_end.simps[of _ _ "length pre"])
  next
    case False
    with Cons(1)[of "pre @ [c]"] Cons(2-) show ?thesis
      by (simp add: double_quotes_def quote_end.simps[of _ _ "length pre"])
  qed
qed

lemma bracket_end_body:
  assumes "0 \<notin> set s" "0x5d \<notin> set s" "c \<noteq> 0x5d"
  shows "bracket_end (pre @ s @ 0x5d # rest) (length pre) c = (length pre + length s + 1, 0x5d)"
  using assms
proof (induction s arbitrary: pre c)
  case Nil
  then show ?case
    by (simp add: bracket_end.simps[of _ "length pre"] bracket_end.simps[of _ "Suc (length pre)"])
next
  case (Cons b s)
  with Cons(1)[of b "pre @ [b]"] show ?case by (simp add: bracket_end.simps[of _ "length pre"])
qed

lemma cc_quotes: "cc 0x22 = CC_QUOTE" "cc 0x27 = CC_QUOTE" "cc 0x60 = CC_QUOTE" "cc 0x5b = CC_QUOTE2"
  by (simp_all add: cc_eq class_of_def)

lemma getToken_quote:
  "cc (at z 0) = CC_QUOTE \<Longrightarrow> quote_end z (at z 0) 1 = (i, c) \<Longrightarrow> c \<noteq> 0 \<Longrightarrow>
     sqlite3GetToken z = (i + 1, if c = 0x27 then TK_STRING else TK_ID)"
  "cc (at z 0) = CC_QUOTE2 \<Longrightarrow> bracket_end z 1 (at z 0) = (i, 0x5d) \<Longrightarrow>
     sqlite3GetToken z = (i, TK_ID)"
  by (simp_all add: sqlite3GetToken_def)

lemma sql_quote_double: "q \<noteq> 0x5b \<Longrightarrow> sql_quote q s = q # double_quotes q s @ [q]"
  by (simp add: sql_quote_def close_quote_def double_quotes_def)

lemma sql_quote_bracket: "0x5d \<notin> set s \<Longrightarrow> sql_quote 0x5b s = 0x5b # s @ [0x5d]"
  by (induction s) (auto simp: sql_quote_def close_quote_def)

text \<open>
  C37: quoted tokens. A text in quotes, with the quote doubled inside, is one token that ends at
  its closing quote: a string for the single quote, an identifier for the other three; and
  \<open>sqlite3Dequote\<close> on that token gives the text back. (A closing bracket cannot be written inside
  brackets: the tokenizer, unlike \<open>sqlite3Dequote\<close>, ends the token at the first one.)
\<close>

theorem token_quoted:
  assumes "sqlite3Isquote q" "0 \<notin> set s" "ch rest \<noteq> q" "q = 0x5b \<longrightarrow> 0x5d \<notin> set s"
  shows "let (n, t) = sqlite3GetToken (sql_quote q s @ rest)
    in n = length (sql_quote q s) \<and> t = (if q = 0x27 then TK_STRING else TK_ID) \<and>
       sqlite3Dequote (take n (sql_quote q s @ rest)) = Some s"
proof -
  have "sqlite3Dequote (sql_quote q s) = Some s"
    using dequote_quoted[of "[]" "close_quote q" s] assms(1)
    by (simp add: sqlite3Dequote_def sql_quote_def close_quote_def Let_def)
  moreover have "sqlite3GetToken (sql_quote q s @ rest) =
      (length (sql_quote q s), if q = 0x27 then TK_STRING else TK_ID)"
  proof (cases "q = 0x5b")
    case True
    have "sqlite3GetToken (0x5b # s @ 0x5d # rest) = (length s + 2, TK_ID)"
      by (rule getToken_quote(2))
        (use bracket_end_body[of s "0x5b" "[0x5b]" rest] assms(2, 4) True in \<open>simp_all add: cc_quotes\<close>)
    with True assms(4) show ?thesis by (simp add: sql_quote_bracket)
  next
    case False
    have "cc q = CC_QUOTE" "q \<noteq> 0" using assms(1) False by (auto simp: isquote_iff cc_quotes)
    moreover have "quote_end (q # double_quotes q s @ q # rest) q 1 = (Suc (length (double_quotes q s)), q)"
      using quote_end_body[OF assms(2) \<open>q \<noteq> 0\<close> assms(3), of "[q]"] by simp
    ultimately have "sqlite3GetToken (q # double_quotes q s @ q # rest) =
        (length (double_quotes q s) + 2, if q = 0x27 then TK_STRING else TK_ID)"
      using getToken_quote(1)[of "q # double_quotes q s @ q # rest" _ q] by simp
    with False show ?thesis by (simp add: sql_quote_double)
  qed
  ultimately show ?thesis by simp
qed

lemma token_quoted_witness:
  "sqlite3GetToken [0x27, 0x61, 0x27, 0x27, 0x62, 0x27, 0x3b] = (6, TK_STRING)"
  using token_quoted[of "0x27" "[0x61, 0x27, 0x62]" "[0x3b]"]
  by (simp add: sql_quote_def close_quote_def isquote_iff case_prod_unfold prod_eq_iff Let_def)

end
