(* ===== verification/Parser_Feed.thy ===== *)
theory Parser_Feed
  imports Tokenize
begin

text \<open>
  The loop of \<open>sqlite3RunParser\<close> (tokenize.c), which splits a statement into tokens and pushes
  them into the parser. The parser is the LEMON-generated engine of parse.c; the loop is modelled
  for every engine: \<open>push\<close> is one call of \<open>sqlite3Parser\<close> with a token code and the text of the
  token, and \<open>halted\<close> is the condition \<open>pParse->rc!=SQLITE_OK || db->mallocFailed\<close> the loop reads
  after it. The flag \<open>intr\<close> is \<open>db->u1.isInterrupted\<close>, constant during the loop.
\<close>

datatype feed_end = Fed | TooBig | Interrupted | Unrecognized "u8 list" | Halted

text \<open>A token found at a position advances it within the text; its code is never 0.\<close>

lemma token_step:
  "at z i \<noteq> 0 \<Longrightarrow> sqlite3GetToken (drop i z) = (n, t) \<Longrightarrow> 1 \<le> n \<and> i < length z"
  using getToken_within[of "drop i z"] by (auto simp: within_def ch_tl split: if_splits)

lemma keyword_codes: "list_all (\<lambda>t. 0 < t \<and> t < TK_SPACE) aCode"
  by (simp add: aCode_def)

lemma kw_loop_code:
  "kw_loop z n k = Some t \<Longrightarrow> 0 < t \<and> t < TK_SPACE"
proof (induction z n k rule: kw_loop.induct)
  case (1 z n k)
  have "aCode ! (k - 1) \<in> set aCode" if "k \<le> 124" "k \<noteq> 0"
    using that by (intro nth_mem) (simp add: aCode_def)
  then show ?case
    using 1 keyword_codes unfolding list_all_iff
    by (subst (asm) (2) kw_loop.simps) (auto simp: Let_def split: if_splits)
qed

lemma keywordCode_code: "0 < t \<Longrightarrow> t < TK_SPACE \<Longrightarrow> 0 < snd (keywordCode z n t) \<and> snd (keywordCode z n t) < TK_SPACE"
  by (auto simp: keywordCode_def dest: kw_loop_code split: option.split)

lemma var_end_code: "var_end z i n = (j, m, t) \<Longrightarrow> t = TK_VARIABLE \<or> t = TK_ILLEGAL"
proof (induction z i n rule: var_end.induct)
  case (1 z i n)
  then show ?case by (subst (asm) (3) var_end.simps) (auto simp: Let_def split: if_splits)
qed

definition code_ok :: "nat \<times> token \<Rightarrow> bool" where
  "code_ok r \<longleftrightarrow> 0 < snd r \<and> snd r \<le> TK_ILLEGAL"

lemma code_if: "(b \<Longrightarrow> code_ok r) \<Longrightarrow> (\<not> b \<Longrightarrow> code_ok s) \<Longrightarrow> code_ok (if b then r else s)"
  by simp

lemma code_const: "0 < t \<Longrightarrow> t \<le> TK_ILLEGAL \<Longrightarrow> code_ok (n, t)"
  by (simp add: code_ok_def)

lemma code_number: "code_ok (number_token z)"
  by (auto simp: code_ok_def number_token_def number_tail_def exponent_part_def fraction_part_def)

lemma code_keyword: "code_ok (keywordCode z n TK_ID)"
  using keywordCode_code[of TK_ID z n] by (simp add: code_ok_def)

lemma code_blob: "code_ok (blob_token z)"
  by (auto simp: code_ok_def blob_token_def Let_def)

lemma code_var: "code_ok (case var_end z 1 0 of (i, n, t) \<Rightarrow> (i, if n = 0 then TK_ILLEGAL else t))"
  using var_end_code[of z 1 0] by (fastforce simp: code_ok_def split: prod.split)

lemma getToken_code: "code_ok (sqlite3GetToken z)"
  unfolding sqlite3GetToken_def Let_def id_token_def
  by (intro code_if code_number code_keyword code_blob code_var)
    (auto simp: code_const split: prod.split)

text \<open>
  The loop state: the position \<open>i\<close>, the last token parsed (\<open>-1\<close> at first), the text
  \<open>pParse->sLastToken\<close> and the parser. The result is the position that becomes
  \<open>pParse->zTail\<close>, the way the loop ended, and the parser.
\<close>

function feed_loop :: "('p \<Rightarrow> token \<Rightarrow> u8 list \<Rightarrow> 'p) \<Rightarrow> ('p \<Rightarrow> bool) \<Rightarrow> u8 list \<Rightarrow> nat \<Rightarrow> bool \<Rightarrow>
    nat \<Rightarrow> int \<Rightarrow> u8 list \<Rightarrow> 'p \<Rightarrow> nat \<times> feed_end \<times> 'p" where
  "feed_loop push halted zSql mxSqlLen intr i lastTokenParsed sLastToken p =
     (if at zSql i \<noteq> 0
      then (let (n, tokenType) = sqlite3GetToken (drop i zSql);
                sLastToken = take n (drop i zSql);
                i = i + n
        in if mxSqlLen < i then (i, TooBig, p)
           else if TK_SPACE \<le> tokenType
           then (if intr then (i, Interrupted, p)
                 else if tokenType = TK_ILLEGAL then (i, Unrecognized sLastToken, p)
                 else feed_loop push halted zSql mxSqlLen intr i lastTokenParsed sLastToken p)
           else (let p = push p tokenType sLastToken
             in if halted p then (i, Halted, p)
                else feed_loop push halted zSql mxSqlLen intr i (int tokenType) sLastToken p))
      else if lastTokenParsed = 0 then (i, Fed, p)
      else (let tokenType = (if lastTokenParsed = int TK_SEMI then 0 else TK_SEMI);
                p = push p tokenType sLastToken
        in if halted p then (i, Halted, p)
           else feed_loop push halted zSql mxSqlLen intr i (int tokenType) sLastToken p))"
  by pat_completeness auto
termination
proof (relation "measures [\<lambda>(push, halted, z, mx, intr, i, prev, s, p). length z - i,
    \<lambda>(push, halted, z, mx, intr, i, prev, s, p). if prev = 0 then 0 else if prev = 1 then 1 else 2]",
    goal_cases)
  case 1
  then show ?case by simp
next
  case (2 push halted z mx intr i prev s p r n t s' i')
  then show ?case using token_step[of i z n t] by auto
next
  case (3 push halted z mx intr i prev s p r n t s' i')
  then show ?case using token_step[of i z n t] by auto
next
  case (4 push halted z mx intr i prev s p)
  then show ?case by auto
qed

declare feed_loop.simps [simp del]

subsection \<open>The tokens of a text\<close>

function lexemes :: "u8 list \<Rightarrow> (token \<times> u8 list) list" where
  "lexemes z =
     (if at z 0 = 0 then []
      else (let (n, t) = sqlite3GetToken z in (t, take n z) # lexemes (drop n z)))"
  by pat_completeness auto
termination
proof (relation "measure length", goal_cases)
  case 1
  then show ?case by simp
next
  case (2 z r n t)
  then show ?case using token_step[of 0 z n t] by auto
qed

declare lexemes.simps [simp del]

lemma lexemes_Nil: "at z 0 = 0 \<Longrightarrow> lexemes z = []"
  by (subst lexemes.simps) simp

lemma lexemes_Cons:
  "at z 0 \<noteq> 0 \<Longrightarrow> sqlite3GetToken z = (n, t) \<Longrightarrow> lexemes z = (t, take n z) # lexemes (drop n z)"
  by (subst lexemes.simps) simp

lemma strlen_drop: "n \<le> strlen z \<Longrightarrow> strlen (drop n z) = strlen z - n"
  unfolding strlen_def
  by (induction z arbitrary: n) (auto simp: drop_Cons' split: if_splits)

lemma take_text: "n \<le> strlen z \<Longrightarrow> take n z @ takeWhile (\<lambda>c. c \<noteq> 0) (drop n z) = takeWhile (\<lambda>c. c \<noteq> 0) z"
  unfolding strlen_def
  by (induction z arbitrary: n) (auto simp: drop_Cons' take_Cons' split: if_splits)

lemma lexemes_cover:
  "concat (map snd (lexemes z)) = takeWhile (\<lambda>c. c \<noteq> 0) z \<and> list_all (\<lambda>(t, w). w \<noteq> [] \<and> 0 < t) (lexemes z)"
proof (induction z rule: lexemes.induct)
  case (1 z)
  show ?case
  proof (cases "at z 0 = 0")
    case True
    then show ?thesis by (cases z) (simp_all add: lexemes_Nil)
  next
    case False
    obtain n t where nt: "sqlite3GetToken z = (n, t)" by fastforce
    have n: "1 \<le> n" "n \<le> strlen z" "0 < t"
      using getToken_within[OF False] getToken_code[of z] nt by (simp_all add: within_def code_ok_def)
    moreover have "take n z \<noteq> []" using n False by (cases z) auto
    ultimately show ?thesis
      using 1[OF False nt[symmetric] refl] take_text[of n z] by (simp add: lexemes_Cons[OF False nt])
  qed
qed

lemmas lexemes_concat = lexemes_cover [THEN conjunct1]

text \<open>
  C30: the tokenizer loses nothing and always advances. Cutting a text into tokens one after the
  other ends, every token has at least one byte, none reaches past the terminator, and the tokens
  joined together are the text up to its terminator.
\<close>

theorem tokens_cover_text:
  "concat (map snd (lexemes z)) = takeWhile (\<lambda>c. c \<noteq> 0) z \<and> list_all (\<lambda>(t, w). w \<noteq> [] \<and> 0 < t) (lexemes z)"
  by (rule lexemes_cover)

subsection \<open>What the parser is given\<close>

text \<open>
  Pushing tokens in order, those of spaces and comments left out, until the parser has halted: the
  parser, the tokens up to that point and whether it has.
\<close>

fun push_until_halted :: "('p \<Rightarrow> token \<Rightarrow> u8 list \<Rightarrow> 'p) \<Rightarrow> ('p \<Rightarrow> bool) \<Rightarrow> 'p \<Rightarrow> (token \<times> u8 list) list \<Rightarrow>
    'p \<times> (token \<times> u8 list) list \<times> bool" where
  "push_until_halted push halted p [] = (p, [], False)"
| "push_until_halted push halted p ((t, w) # ts) =
     (if t < TK_SPACE \<and> halted (push p t w) then (push p t w, [(t, w)], True)
      else case push_until_halted push halted (if t < TK_SPACE then push p t w else p) ts of
        (q, used, stop) \<Rightarrow> (q, (t, w) # used, stop))"

text \<open>At the end of the text the parser gets a semicolon, unless it just had one, and the end mark.\<close>

fun ending :: "int \<Rightarrow> u8 list \<Rightarrow> (token \<times> u8 list) list \<Rightarrow> (token \<times> u8 list) list" where
  "ending prev s [] =
     (if prev = 0 then [] else if prev = int TK_SEMI then [(0, s)] else [(TK_SEMI, s), (0, s)])"
| "ending prev s ((t, w) # ts) = ending (if t < TK_SPACE then int t else prev) w ts"

text \<open>The tokens that do not stop the loop: an interrupt is noticed at a space or an illegal token.\<close>

definition passes :: "bool \<Rightarrow> token \<times> u8 list \<Rightarrow> bool" where
  "passes intr = (\<lambda>(t, w). t < TK_SPACE \<or> t \<noteq> TK_ILLEGAL \<and> \<not> intr)"

abbreviation (input) text_length :: "(token \<times> u8 list) list \<Rightarrow> nat" where
  "text_length ts \<equiv> length (concat (map snd ts))"

definition feed_result :: "('p \<Rightarrow> token \<Rightarrow> u8 list \<Rightarrow> 'p) \<Rightarrow> ('p \<Rightarrow> bool) \<Rightarrow> bool \<Rightarrow> nat \<Rightarrow> int \<Rightarrow> u8 list \<Rightarrow> 'p \<Rightarrow>
    (token \<times> u8 list) list \<Rightarrow> nat \<times> feed_end \<times> 'p" where
  "feed_result push halted intr i prev s p ts =
     (let pre = takeWhile (passes intr) ts; (q, used, stop) = push_until_halted push halted p pre
      in if stop then (i + text_length used, Halted, q)
         else case dropWhile (passes intr) ts of
             (t, w) # _ \<Rightarrow> (i + text_length pre + length w, if intr then Interrupted else Unrecognized w, q)
           | [] \<Rightarrow> (case push_until_halted push halted q (ending prev s ts) of
               (r, _, stop) \<Rightarrow> (i + text_length ts, if stop then Halted else Fed, r)))"

lemma feed_result_Cons:
  assumes "passes intr (t, w)"
  shows "feed_result push halted intr i prev s p ((t, w) # ts) =
    (if t < TK_SPACE \<and> halted (push p t w) then (i + length w, Halted, push p t w)
     else if t < TK_SPACE then feed_result push halted intr (i + length w) (int t) w (push p t w) ts
     else feed_result push halted intr (i + length w) prev w p ts)"
proof -
  obtain q used stop where "push_until_halted push halted (if t < TK_SPACE then push p t w else p)
      (takeWhile (passes intr) ts) = (q, used, stop)" by (rule prod_cases3)
  with assms show ?thesis
    by (cases "dropWhile (passes intr) ts")
      (auto simp: feed_result_def Let_def simp del: dropWhile_eq_Nil_conv split: prod.splits)
qed

lemma feed_end:
  assumes "at z i = 0"
  shows "feed_loop push halted z mx intr i prev s p = feed_result push halted intr i prev s p []"
proof -
  have 0: "feed_loop push halted z mx intr i 0 s p = (i, Fed, p)" for p
    using assms by (subst feed_loop.simps) simp
  have 1: "feed_loop push halted z mx intr i (int TK_SEMI) s p =
      (i, if halted (push p 0 s) then Halted else Fed, push p 0 s)" for p
    using assms 0 by (subst feed_loop.simps) (simp add: Let_def)
  show ?thesis
    using assms 0 1 by (subst feed_loop.simps) (simp add: Let_def feed_result_def)
qed

lemma feed_loop_lexemes:
  "i + strlen (drop i z) \<le> mx \<Longrightarrow>
     feed_loop push halted z mx intr i prev s p = feed_result push halted intr i prev s p (lexemes (drop i z))"
proof (induction "lexemes (drop i z)" arbitrary: i prev s p)
  case Nil
  have "at z i = 0"
  proof (rule ccontr)
    assume "at z i \<noteq> 0"
    then show False using Nil(1) by (cases "sqlite3GetToken (drop i z)") (simp add: lexemes_Cons)
  qed
  then show ?case using feed_end[where z = z and i = i] Nil(1)[symmetric] by simp
next
  case (Cons tw ts)
  have at: "at z i \<noteq> 0" using Cons(2) by (auto simp: lexemes_Nil)
  obtain n t where nt: "sqlite3GetToken (drop i z) = (n, t)" by fastforce
  have n: "1 \<le> n" "n \<le> strlen (drop i z)" "t \<le> TK_ILLEGAL"
    using getToken_within[of "drop i z"] getToken_code[of "drop i z"] at nt
    by (simp_all add: within_def code_ok_def)
  have L: "tw = (t, take n (drop i z))" "ts = lexemes (drop (i + n) z)"
    using lexemes_Cons[of "drop i z" n t] Cons(2) at nt by (simp_all add: add.commute)
  have w: "length (take n (drop i z)) = n" using n(2) strlen_le[of "drop i z"] by simp
  have mx: "i + n \<le> mx" "i + n + strlen (drop (i + n) z) \<le> mx"
    using Cons(3) n(2) strlen_drop[OF n(2)] by (simp_all add: add.commute)
  note IH = Cons(1)[OF L(2) mx(2)]
  show ?case
  proof (cases "passes intr tw")
    case False
    with at nt mx(1) L w n(3) Cons(2)[symmetric] show ?thesis
      by (subst feed_loop.simps) (auto simp: Let_def feed_result_def passes_def)
  next
    case True
    then have "\<not> t < TK_SPACE \<Longrightarrow> t = TK_SPACE \<and> \<not> intr" using n(3) L(1) by (auto simp: passes_def)
    then show ?thesis
      using at nt mx(1) IH w Cons(2)[symmetric] feed_result_Cons[OF True[unfolded L(1)], of push halted i prev s p]
      by (subst feed_loop.simps) (auto simp: Let_def L(1) L(2)[symmetric] simp del: length_take)
  qed
qed

text \<open>
  C14: the parser is fed the statement. For every parser and every text within the length limit, let
  \<open>pre\<close> be the tokens before the first illegal one, or before the first space or illegal one when the
  connection is interrupted. The loop pushes the tokens of \<open>pre\<close> but spaces and comments, in order.
  If the parser halts, the loop ends just behind the token that halted it. Otherwise it ends behind
  the token that stopped \<open>pre\<close>, reporting the interrupt or the illegal token; or, at the end of the
  text, it has pushed a semicolon unless the last token was one, and the end mark, as far as the
  parser did not halt.
\<close>

theorem parser_fed:
  assumes "strlen z \<le> mx"
  shows "feed_loop push halted z mx intr 0 (- 1) s p =
    (let ts = lexemes z; pre = takeWhile (passes intr) ts;
         (q, used, stop) = push_until_halted push halted p pre
     in if stop then (length (concat (map snd used)), Halted, q)
        else case dropWhile (passes intr) ts of
            (t, w) # _ \<Rightarrow> (length (concat (map snd pre)) + length w, if intr then Interrupted else Unrecognized w, q)
          | [] \<Rightarrow> (case push_until_halted push halted q (ending (- 1) s ts) of
              (r, _, stop) \<Rightarrow> (strlen z, if stop then Halted else Fed, r)))"
proof -
  have "strlen z = length (concat (map snd (lexemes z)))"
    using lexemes_concat by (simp add: strlen_def)
  then show ?thesis
    using feed_loop_lexemes[of 0 z mx push halted intr "- 1" s p] assms
    by (auto simp: feed_result_def Let_def simp del: dropWhile_eq_Nil_conv split: prod.splits list.splits)
qed

lemma parser_fed_witness:
  "feed_loop (\<lambda>p t w. p @ [t]) (\<lambda>p. False) [0x28, 0x20, 0x29, 0] 100 False 0 (- 1) [] [] =
    (3, Fed, [TK_LP, TK_RP, TK_SEMI, 0]) \<and>
   feed_loop (\<lambda>p t w. p @ [t]) (\<lambda>p. p \<noteq> [] \<and> last p = TK_SEMI) [0x28, 0x20, 0x29, 0] 100 False 0 (- 1) [] [] =
    (3, Halted, [TK_LP, TK_RP, TK_SEMI]) \<and>
   feed_loop (\<lambda>p t w. p @ [t]) (\<lambda>p. False) [0x28, 0x20, 0x29, 0] 100 True 0 (- 1) [] [] = (2, Interrupted, [TK_LP])"
proof -
  have t: "lexemes [0x28, 0x20, 0x29, 0] = [(TK_LP, [0x28]), (TK_SPACE, [0x20]), (TK_RP, [0x29])]"
    by (simp add: lexemes.simps sqlite3GetToken_def cc_eq class_of_def scan.simps isspace_iff)
  have l: "strlen [0x28, 0x20, 0x29, 0] \<le> 100" "strlen [0x28, 0x20, 0x29, 0] = 3" by (simp_all add: strlen_def)
  show ?thesis
    unfolding parser_fed[OF l(1)] t l(2) by (simp add: passes_def)
qed

text \<open>A parser that never halts gets all of them.\<close>

lemma push_all:
  "(\<And>p. \<not> halted p) \<Longrightarrow> push_until_halted push halted p ts =
     (foldl (\<lambda>p (t, w). push p t w) p (filter (\<lambda>(t, w). t < TK_SPACE) ts), ts, False)"
  by (induction push halted p ts rule: push_until_halted.induct) auto

end
