(* ===== verification/Utf.thy ===== *)
theory Utf
  imports Cstring
begin

text \<open>
  The text encodings of utf.c: reading and writing one character in UTF-8 and in both byte
  orders of UTF-16, the translation of a value between encodings, byte-order marks and character
  counts. A pointer into a text is the list of the bytes from there to \<open>zTerm\<close>.
\<close>

subsection \<open>Writing a character\<close>

definition WRITE_UTF8 :: "u32 \<Rightarrow> u8 list" where
  "WRITE_UTF8 c =
     (if c < 0x00080 then [ucast (c AND 0xFF)]
      else if c < 0x00800 then
        [0xC0 + ucast (drop_bit 6 c AND 0x1F),
         0x80 + ucast (c AND 0x3F)]
      else if c < 0x10000 then
        [0xE0 + ucast (drop_bit 12 c AND 0x0F),
         0x80 + ucast (drop_bit 6 c AND 0x3F),
         0x80 + ucast (c AND 0x3F)]
      else
        [0xF0 + ucast (drop_bit 18 c AND 0x07),
         0x80 + ucast (drop_bit 12 c AND 0x3F),
         0x80 + ucast (drop_bit 6 c AND 0x3F),
         0x80 + ucast (c AND 0x3F)])"

definition WRITE_UTF16LE :: "u32 \<Rightarrow> u8 list" where
  "WRITE_UTF16LE c =
     (if c \<le> 0xFFFF then [ucast (c AND 0x00FF), ucast (drop_bit 8 c AND 0x00FF)]
      else
        [ucast ((drop_bit 10 c AND 0x003F) + (drop_bit 10 (c - 0x10000) AND 0x00C0)),
         ucast (0x00D8 + (drop_bit 18 (c - 0x10000) AND 0x03)),
         ucast (c AND 0x00FF),
         ucast (0x00DC + (drop_bit 8 c AND 0x03))])"

definition WRITE_UTF16BE :: "u32 \<Rightarrow> u8 list" where
  "WRITE_UTF16BE c =
     (if c \<le> 0xFFFF then [ucast (drop_bit 8 c AND 0x00FF), ucast (c AND 0x00FF)]
      else
        [ucast (0x00D8 + (drop_bit 18 (c - 0x10000) AND 0x03)),
         ucast ((drop_bit 10 c AND 0x003F) + (drop_bit 10 (c - 0x10000) AND 0x00C0)),
         ucast (0x00DC + (drop_bit 8 c AND 0x03)),
         ucast (c AND 0x00FF)])"

subsection \<open>Reading a character\<close>

definition sqlite3Utf8Trans1 :: "u32 list" where
  "sqlite3Utf8Trans1 =
    [0x00, 0x01, 0x02, 0x03, 0x04, 0x05, 0x06, 0x07,
     0x08, 0x09, 0x0a, 0x0b, 0x0c, 0x0d, 0x0e, 0x0f,
     0x10, 0x11, 0x12, 0x13, 0x14, 0x15, 0x16, 0x17,
     0x18, 0x19, 0x1a, 0x1b, 0x1c, 0x1d, 0x1e, 0x1f,
     0x00, 0x01, 0x02, 0x03, 0x04, 0x05, 0x06, 0x07,
     0x08, 0x09, 0x0a, 0x0b, 0x0c, 0x0d, 0x0e, 0x0f,
     0x00, 0x01, 0x02, 0x03, 0x04, 0x05, 0x06, 0x07,
     0x00, 0x01, 0x02, 0x03, 0x00, 0x01, 0x00, 0x00]"

text \<open>The continuation bytes; the shift drops the bits that leave the 32 of \<open>c\<close>.\<close>

fun utf8_tail :: "u32 \<Rightarrow> u8 list \<Rightarrow> u32 \<times> u8 list" where
  "utf8_tail c [] = (c, [])"
| "utf8_tail c (b # z) =
     (if b AND 0xc0 = 0x80 then utf8_tail (push_bit 6 c + (0x3f AND ucast b)) z else (c, b # z))"

definition utf8_check :: "u32 \<Rightarrow> u32" where
  "utf8_check c =
     (if c < 0x80 \<or> c AND 0xFFFFF800 = 0xD800 \<or> c AND 0xFFFFFFFE = 0xFFFE then 0xFFFD else c)"

fun READ_UTF8 :: "u8 list \<Rightarrow> u32 \<times> u8 list" where
  "READ_UTF8 [] = (0, [])"
| "READ_UTF8 (b # z) =
     (if 0xc0 \<le> b
      then (let (c, z) = utf8_tail (sqlite3Utf8Trans1 ! unat (b - 0xc0)) z in (utf8_check c, z))
      else (ucast b, z))"

text \<open>
  \<open>sqlite3Utf8Read\<close> is the same without \<open>zTerm\<close>, on a text that a NUL ends: the NUL is no
  continuation byte. At the end it reads the NUL.
\<close>

definition sqlite3Utf8Read :: "u8 list \<Rightarrow> u32 \<times> u8 list" where
  "sqlite3Utf8Read = READ_UTF8"

definition unit_le :: "u8 \<Rightarrow> u8 \<Rightarrow> u32" where
  "unit_le a b = ucast a + push_bit 8 (ucast b)"

definition unit_be :: "u8 \<Rightarrow> u8 \<Rightarrow> u32" where
  "unit_be a b = push_bit 8 (ucast a) + ucast b"

definition surrogates :: "u32 \<Rightarrow> u32 \<Rightarrow> u32" where
  "surrogates c c2 =
     (c2 AND 0x03FF) + push_bit 10 (c AND 0x003F) + push_bit 10 ((c AND 0x03C0) + 0x0040)"

text \<open>
  One macro for both byte orders, with the condition \<open>TERM\<close> that there is more text. The text
  has an even number of bytes.
\<close>

fun READ_UTF16 :: "(u8 \<Rightarrow> u8 \<Rightarrow> u32) \<Rightarrow> u8 list \<Rightarrow> u32 \<times> u8 list" where
  "READ_UTF16 u (a # b # z) =
     (let c = u a b
      in if 0xD800 \<le> c \<and> c < 0xE000
         then (case z of a2 # b2 # z2 \<Rightarrow> (surrogates c (u a2 b2), z2) | _ \<Rightarrow> (c, z))
         else (c, z))"
| "READ_UTF16 u z = (0, [])"

abbreviation READ_UTF16LE :: "u8 list \<Rightarrow> u32 \<times> u8 list" where
  "READ_UTF16LE \<equiv> READ_UTF16 unit_le"

abbreviation READ_UTF16BE :: "u8 list \<Rightarrow> u32 \<times> u8 list" where
  "READ_UTF16BE \<equiv> READ_UTF16 unit_be"

subsection \<open>The loops of the translation\<close>

lemma utf8_tail_shorter: "length (snd (utf8_tail c z)) \<le> length z"
  by (induction c z rule: utf8_tail.induct) (auto intro: le_SucI)

lemma READ_UTF8_shorter: "z \<noteq> [] \<Longrightarrow> READ_UTF8 z = (c, z2) \<Longrightarrow> length z2 < length z"
  using utf8_tail_shorter by (cases z) (auto simp: less_Suc_eq_le split: if_splits prod.splits, metis snd_conv)

function utf8_to_utf16 :: "(u32 \<Rightarrow> u8 list) \<Rightarrow> u8 list \<Rightarrow> u8 list" where
  "utf8_to_utf16 wr z =
     (if z = [] then [] else (let (c, z) = READ_UTF8 z in wr c @ utf8_to_utf16 wr z))"
  by pat_completeness auto
termination
  by (relation "measure (\<lambda>(wr, z). length z)") (auto dest: READ_UTF8_shorter[OF _ sym])

declare utf8_to_utf16.simps [simp del]

lemma READ_UTF16_shorter: "z \<noteq> [] \<Longrightarrow> READ_UTF16 u z = (c, z2) \<Longrightarrow> length z2 < length z"
  by (induction u z rule: READ_UTF16.induct) (auto simp: Let_def split: if_splits list.splits)

function utf16_to_utf8 :: "(u8 \<Rightarrow> u8 \<Rightarrow> u32) \<Rightarrow> u8 list \<Rightarrow> u8 list" where
  "utf16_to_utf8 u z =
     (if z = [] then [] else (let (c, z) = READ_UTF16 u z in WRITE_UTF8 c @ utf16_to_utf8 u z))"
  by pat_completeness auto
termination
  by (relation "measure (\<lambda>(u, z). length z)") (auto dest: READ_UTF16_shorter[OF _ sym])

declare utf16_to_utf8.simps [simp del]

fun swap_pairs :: "u8 list \<Rightarrow> u8 list" where
  "swap_pairs (a # b # z) = b # a # swap_pairs z"
| "swap_pairs z = z"

subsection \<open>Values\<close>

text \<open>
  The fields of a \<open>Mem\<close> that hold a string: the flags, the encoding, the \<open>n\<close> bytes at \<open>z\<close>, and
  whether \<open>z\<close> is the buffer \<open>zMalloc\<close> that the value owns.
\<close>

record mem =
  mem_flags :: u16
  mem_enc :: nat
  mem_z :: "u8 list"
  mem_owned :: bool

abbreviation (input) SQLITE_UTF8 :: nat where "SQLITE_UTF8 \<equiv> 1"
abbreviation (input) SQLITE_UTF16LE :: nat where "SQLITE_UTF16LE \<equiv> 2"
abbreviation (input) SQLITE_UTF16BE :: nat where "SQLITE_UTF16BE \<equiv> 3"
abbreviation (input) MEM_Null :: u16 where "MEM_Null \<equiv> 0x0001"
abbreviation (input) MEM_Str :: u16 where "MEM_Str \<equiv> 0x0002"
abbreviation (input) MEM_Blob :: u16 where "MEM_Blob \<equiv> 0x0010"
abbreviation (input) MEM_AffMask :: u16 where "MEM_AffMask \<equiv> 0x001f"
abbreviation (input) MEM_Term :: u16 where "MEM_Term \<equiv> 0x0200"
abbreviation (input) MEM_Dyn :: u16 where "MEM_Dyn \<equiv> 0x0400"
abbreviation (input) MEM_Static :: u16 where "MEM_Static \<equiv> 0x0800"
abbreviation (input) MEM_Ephem :: u16 where "MEM_Ephem \<equiv> 0x1000"
abbreviation (input) MEM_Subtype :: u16 where "MEM_Subtype \<equiv> 0x8000"

text \<open>
  \<open>sqlite3VdbeMemGrow\<close> for a value that does not own its bytes and keeps them
  (\<open>bPreserve\<close>): a buffer is found and the bytes are copied to it, or no memory is left and the
  value becomes NULL, without bytes and without a buffer. A spare buffer of the value that is large
  enough is a successful step of the script.
\<close>

definition sqlite3VdbeMemGrow :: "mem \<Rightarrow> oom \<Rightarrow> int \<times> mem \<times> oom" where
  "sqlite3VdbeMemGrow p m =
     (case malloc_step m of
        (False, m) \<Rightarrow> (SQLITE_NOMEM, p\<lparr>mem_flags := MEM_Null, mem_z := [], mem_owned := False\<rparr>, m)
      | (True, m) \<Rightarrow>
          (SQLITE_OK,
           p\<lparr>mem_owned := True, mem_flags := mem_flags p AND NOT (MEM_Dyn OR MEM_Ephem OR MEM_Static)\<rparr>, m))"

text \<open>A string value has no zero-filled tail to expand.\<close>

definition sqlite3VdbeMemMakeWriteable :: "mem \<Rightarrow> oom \<Rightarrow> int \<times> mem \<times> oom" where
  "sqlite3VdbeMemMakeWriteable p m =
     (if mem_flags p AND (MEM_Str OR MEM_Blob) \<noteq> 0 \<and> \<not> mem_owned p
      then (case sqlite3VdbeMemGrow p m of
          (rc, p, m) \<Rightarrow>
            if rc \<noteq> SQLITE_OK then (SQLITE_NOMEM, p, m)
            else (SQLITE_OK, p\<lparr>mem_flags := (mem_flags p OR MEM_Term) AND NOT MEM_Ephem\<rparr>, m))
      else (SQLITE_OK, p\<lparr>mem_flags := mem_flags p AND NOT MEM_Ephem\<rparr>, m))"

text \<open>\<open>buffer_len\<close> is the size \<open>len\<close> of the output buffer, computed from the size of the input.\<close>

definition even_part :: "u8 list \<Rightarrow> u8 list" where
  "even_part z = take (length z - length z mod 2) z"

definition buffer_len :: "nat \<Rightarrow> nat \<Rightarrow> nat" where
  "buffer_len desiredEnc n = (if desiredEnc = SQLITE_UTF8 then n * 2 + 1 else n * 2 + 2)"

definition translate_bytes :: "nat \<Rightarrow> nat \<Rightarrow> u8 list \<Rightarrow> u8 list" where
  "translate_bytes enc desiredEnc z =
     (if enc = SQLITE_UTF8
      then (if desiredEnc = SQLITE_UTF16LE then utf8_to_utf16 WRITE_UTF16LE z
            else utf8_to_utf16 WRITE_UTF16BE z)
      else if enc = SQLITE_UTF16LE then utf16_to_utf8 unit_le z
      else utf16_to_utf8 unit_be z)"

definition sqlite3VdbeMemTranslate :: "mem \<Rightarrow> nat \<Rightarrow> oom \<Rightarrow> int \<times> mem \<times> oom" where
  "sqlite3VdbeMemTranslate p desiredEnc m =
     (if mem_enc p \<noteq> SQLITE_UTF8 \<and> desiredEnc \<noteq> SQLITE_UTF8
      then (case sqlite3VdbeMemMakeWriteable p m of
          (rc, p, m) \<Rightarrow>
            if rc \<noteq> SQLITE_OK then (SQLITE_NOMEM, p, m)
            else (SQLITE_OK, p\<lparr>mem_z := swap_pairs (mem_z p), mem_enc := desiredEnc\<rparr>, m))
      else (let p = (if desiredEnc = SQLITE_UTF8 then p\<lparr>mem_z := even_part (mem_z p)\<rparr> else p)
        in case malloc_step m of
             (False, m) \<Rightarrow> (SQLITE_NOMEM, p, m)
           | (True, m) \<Rightarrow>
               (SQLITE_OK,
                \<lparr>mem_flags = MEM_Str OR MEM_Term OR (mem_flags p AND (MEM_AffMask OR MEM_Subtype)),
                 mem_enc = desiredEnc,
                 mem_z = translate_bytes (mem_enc p) desiredEnc (mem_z p),
                 mem_owned = True\<rparr>, m)))"

definition sqlite3VdbeMemHandleBom :: "mem \<Rightarrow> oom \<Rightarrow> int \<times> mem \<times> oom" where
  "sqlite3VdbeMemHandleBom p m =
     (let bom = (case mem_z p of
          b1 # b2 # _ \<Rightarrow> if b1 = 0xFE \<and> b2 = 0xFF then SQLITE_UTF16BE
            else if b1 = 0xFF \<and> b2 = 0xFE then SQLITE_UTF16LE else 0
        | _ \<Rightarrow> 0)
      in if bom \<noteq> 0
         then (case sqlite3VdbeMemMakeWriteable p m of
             (rc, p, m) \<Rightarrow>
               if rc = SQLITE_OK
               then (rc, p\<lparr>mem_z := drop 2 (mem_z p), mem_flags := mem_flags p OR MEM_Term,
                           mem_enc := bom\<rparr>, m)
               else (rc, p, m))
         else (SQLITE_OK, p, m))"

subsection \<open>Counting characters\<close>

text \<open>The skip does not look at \<open>zTerm\<close>: it can pass it, up to the NUL that ends the text.\<close>

fun SQLITE_SKIP_UTF8 :: "u8 list \<Rightarrow> u8 list" where
  "SQLITE_SKIP_UTF8 [] = []"
| "SQLITE_SKIP_UTF8 (b # z) = (if 0xc0 \<le> b then dropWhile (\<lambda>c. c AND 0xc0 = 0x80) z else z)"

lemma SKIP_shorter: "z \<noteq> [] \<Longrightarrow> length (SQLITE_SKIP_UTF8 z) < length z"
  by (cases z) (auto simp: less_Suc_eq_le length_dropWhile_le)

text \<open>\<open>left\<close> is the number of bytes to \<open>zTerm\<close>, \<open>None\<close> when it is out of reach.\<close>

function charlen_loop :: "u8 list \<Rightarrow> nat option \<Rightarrow> nat" where
  "charlen_loop z left =
     (if z \<noteq> [] \<and> ch z \<noteq> 0 \<and> left \<noteq> Some 0
      then charlen_loop (SQLITE_SKIP_UTF8 z)
             (map_option (\<lambda>k. k - (length z - length (SQLITE_SKIP_UTF8 z))) left) + 1
      else 0)"
  by pat_completeness auto
termination
  by (relation "measure (\<lambda>(z, left). length z)") (auto simp: SKIP_shorter)

declare charlen_loop.simps [simp del]

definition sqlite3Utf8CharLen :: "u8 list \<Rightarrow> int \<Rightarrow> nat" where
  "sqlite3Utf8CharLen z nByte = charlen_loop z (if 0 \<le> nByte then Some (nat nByte) else None)"

text \<open>\<open>None\<close> when the text has fewer characters than asked for.\<close>

fun utf16_bytes :: "(u8 \<Rightarrow> u8 \<Rightarrow> u32) \<Rightarrow> nat \<Rightarrow> u8 list \<Rightarrow> nat option" where
  "utf16_bytes u 0 z = Some 0"
| "utf16_bytes u (Suc n) z =
     (if z = [] then None
      else (let z2 = snd (READ_UTF16 u z)
        in map_option (\<lambda>k. length z - length z2 + k) (utf16_bytes u n z2)))"

definition sqlite3Utf16ByteLen :: "nat \<Rightarrow> u8 list \<Rightarrow> nat \<Rightarrow> nat option" where
  "sqlite3Utf16ByteLen native z nChar =
     utf16_bytes (if native = SQLITE_UTF16BE then unit_be else unit_le) nChar z"

declare utf8_tail.simps(2) [simp del] READ_UTF8.simps(2) [simp del]

subsection \<open>The arithmetic of the encodings\<close>

lemma unat_and_mask: "unat (x AND mask k) = unat x mod 2 ^ k" for x :: "'a::len word"
  by (simp only: take_bit_eq_mask[symmetric] unsigned_take_bit_eq) (simp only: take_bit_eq_mod)

lemma and_masks:
  "unat (x AND 0x3F) = unat x mod 64" "unat (x AND 0x1F) = unat x mod 32" "unat (x AND 0x0F) = unat x mod 16"
  "unat (x AND 7) = unat x mod 8" "unat (x AND 3) = unat x mod 4" "unat (x AND 0xFF) = unat x mod 256"
  "unat (x AND 0x3FF) = unat x mod 1024" for x :: u32
  using unat_and_mask[of x 6] unat_and_mask[of x 5] unat_and_mask[of x 4] unat_and_mask[of x 3]
    unat_and_mask[of x 2] unat_and_mask[of x 8] unat_and_mask[of x 10]
  by (simp_all add: mask_eq_exp_minus_1)

lemma unat_ucast8: "unat (ucast x :: u8) = unat x mod 256" for x :: u32
  by (simp add: unsigned_ucast_eq take_bit_eq_mod)

definition cont :: "nat \<Rightarrow> u32 \<Rightarrow> u8" where
  "cont k c = 0x80 + ucast (drop_bit k c AND 0x3F)"

lemma unat_cont: "unat (cont k c) = 128 + unat c div 2 ^ k mod 64"
proof -
  have "unat (ucast (drop_bit k c AND 0x3F) :: u8) = unat c div 2 ^ k mod 64"
    by (simp add: unat_ucast8 and_masks unat_drop_bit)
  then show ?thesis unfolding cont_def by (subst unat_add_nowrap) auto
qed

lemma is_cont: "b AND 0xc0 = 0x80 \<longleftrightarrow> 128 \<le> unat b \<and> unat b < 192" for b :: u8
  by (rule byte_cases[where P = "\<lambda>b. b AND 0xc0 = 0x80 \<longleftrightarrow> 128 \<le> unat b \<and> unat b < 192"])
    (simp add: upt_from_0)

lemma tail_step:
  fixes x :: u32 and b :: u8
  assumes "unat x < 2 ^ 26"
  shows "unat (push_bit 6 x + (0x3f AND ucast b)) = unat x * 64 + unat b mod 64"
proof -
  have "unat (x * 64) = unat x * unat (64 :: u32)"
    using assms by (intro unat_mult_lem[THEN iffD1]) simp
  then have "unat (push_bit 6 x) = unat x * 64" by (simp add: push_bit_eq_mult)
  moreover have "unat (0x3f AND ucast b :: u32) = unat b mod 64"
    by (subst and.commute) (simp add: and_masks unat_ucast_u8)
  moreover have "unat b mod 64 < 64" by simp
  ultimately show ?thesis using assms by (subst unat_add_nowrap) auto
qed

lemma byte_diff: "(k + y) - (l :: u8) = (k - l) + y"
  by simp

lemma trans1:
  fixes y :: u8
  shows "unat y < 32 \<Longrightarrow> sqlite3Utf8Trans1 ! unat y = ucast y"
    and "unat y < 16 \<Longrightarrow> sqlite3Utf8Trans1 ! (32 + unat y) = ucast y"
    and "unat y < 8 \<Longrightarrow> sqlite3Utf8Trans1 ! (48 + unat y) = ucast y"
proof -
  have eq: "sqlite3Utf8Trans1 = map of_nat ([0 ..< 32] @ [0 ..< 16] @ [0 ..< 8] @ [0, 1, 2, 3, 0, 1, 0, 0])"
    by (simp add: sqlite3Utf8Trans1_def upt_from_0)
  show "unat y < 32 \<Longrightarrow> sqlite3Utf8Trans1 ! unat y = ucast y"
    and "unat y < 16 \<Longrightarrow> sqlite3Utf8Trans1 ! (32 + unat y) = ucast y"
    and "unat y < 8 \<Longrightarrow> sqlite3Utf8Trans1 ! (48 + unat y) = ucast y"
    by (simp_all add: eq nth_append del: upt_rec_numeral)
qed

lemma lead_byte:
  fixes y :: u8
  shows "unat y < 32 \<Longrightarrow> READ_UTF8 ((0xC0 + y) # z) = apfst utf8_check (utf8_tail (ucast y) z)"
    and "unat y < 16 \<Longrightarrow> READ_UTF8 ((0xE0 + y) # z) = apfst utf8_check (utf8_tail (ucast y) z)"
    and "unat y < 8 \<Longrightarrow> READ_UTF8 ((0xF0 + y) # z) = apfst utf8_check (utf8_tail (ucast y) z)"
proof -
  have sum: "unat (k + y) = unat k + unat y" if "unat k + unat y < 256" for k :: u8
    using that by (intro unat_add_nowrap) simp
  show "unat y < 32 \<Longrightarrow> READ_UTF8 ((0xC0 + y) # z) = apfst utf8_check (utf8_tail (ucast y) z)"
    using sum[of "0xC0"] trans1(1)[of y]
    by (simp add: READ_UTF8.simps word_le_nat_alt apfst_def map_prod_def case_prod_unfold Let_def)
  show "unat y < 16 \<Longrightarrow> READ_UTF8 ((0xE0 + y) # z) = apfst utf8_check (utf8_tail (ucast y) z)"
    using sum[of "0xE0"] sum[of "0x20"] trans1(2)[of y]
    by (simp add: READ_UTF8.simps word_le_nat_alt apfst_def map_prod_def case_prod_unfold Let_def byte_diff)
  show "unat y < 8 \<Longrightarrow> READ_UTF8 ((0xF0 + y) # z) = apfst utf8_check (utf8_tail (ucast y) z)"
    using sum[of "0xF0"] sum[of "0x30"] trans1(3)[of y]
    by (simp add: READ_UTF8.simps word_le_nat_alt apfst_def map_prod_def case_prod_unfold Let_def byte_diff)
qed

text \<open>The text after a character must not start with a continuation byte.\<close>

definition no_cont :: "u8 list \<Rightarrow> bool" where
  "no_cont z \<longleftrightarrow> ch z AND 0xc0 \<noteq> 0x80"

lemma utf8_tail_stop: "no_cont z \<Longrightarrow> utf8_tail x z = (x, z)"
  by (cases z) (simp_all add: no_cont_def utf8_tail.simps)

definition next6 :: "u32 \<Rightarrow> nat \<Rightarrow> u32 \<Rightarrow> u32" where
  "next6 x k c = push_bit 6 x + (0x3f AND ucast (cont k c))"

lemma utf8_tail_cont: "utf8_tail x (cont k c # z) = utf8_tail (next6 x k c) z"
  using is_cont[of "cont k c"] by (simp add: unat_cont next6_def utf8_tail.simps)

lemma unat_next6: "unat x < 2 ^ 26 \<Longrightarrow> unat (next6 x k c) = unat x * 64 + unat c div 2 ^ k mod 64"
proof -
  have "(128 + m mod 64) mod 64 = m mod 64" for m :: nat
    using mod_mult_self3[of 2 64 "m mod 64"] by simp
  then show "unat x < 2 ^ 26 \<Longrightarrow> unat (next6 x k c) = unat x * 64 + unat c div 2 ^ k mod 64"
    unfolding next6_def by (simp add: tail_step unat_cont)
qed

lemma WRITE_UTF8_cont:
  "WRITE_UTF8 c =
     (if c < 0x80 then [ucast c]
      else if c < 0x800 then [0xC0 + ucast (drop_bit 6 c AND 0x1F), cont 0 c]
      else if c < 0x10000 then [0xE0 + ucast (drop_bit 12 c AND 0x0F), cont 6 c, cont 0 c]
      else [0xF0 + ucast (drop_bit 18 c AND 7), cont 12 c, cont 6 c, cont 0 c])"
proof -
  have "(ucast (c AND 0xFF) :: u8) = ucast c"
    by (rule word_unat_eq_iff[THEN iffD2]) (simp add: unat_ucast8 and_masks)
  then show ?thesis by (simp add: WRITE_UTF8_def cont_def)
qed

lemma lead_value:
  "unat (ucast (drop_bit k c AND 0x1F) :: u8) = unat c div 2 ^ k mod 32"
  "unat (ucast (drop_bit k c AND 0x0F) :: u8) = unat c div 2 ^ k mod 16"
  "unat (ucast (drop_bit k c AND 7) :: u8) = unat c div 2 ^ k mod 8" for c :: u32
  by (simp_all add: unat_ucast8 and_masks unat_drop_bit)

lemma join_digits:
  fixes n :: nat
  shows "n div 64 div 64 * 64 + n div 64 mod 64 = n div 64" "n div 64 * 64 + n mod 64 = n"
    "n div 64 div 64 div 64 * 64 + n div 64 div 64 mod 64 = n div 64 div 64"
  by simp_all

lemma unat_eqD: "unat x = unat c \<Longrightarrow> x = c" for x c :: "'a::len word"
  by (simp add: word_unat_eq_iff)

lemma tail_2: "unat c < 0x800 \<Longrightarrow> utf8_tail (ucast (ucast (drop_bit 6 c AND 0x1F) :: u8)) (cont 0 c # z) = utf8_tail c z"
  unfolding utf8_tail_cont
  by (rule arg_cong[of _ _ "\<lambda>x. utf8_tail x z"], rule unat_eqD)
    (simp add: unat_next6 lead_value unat_ucast_u8 less_mult_imp_div_less)

lemma tail_3:
  assumes "unat c < 0x10000"
  shows "utf8_tail (ucast (ucast (drop_bit 12 c AND 0x0F) :: u8)) (cont 6 c # cont 0 c # z) = utf8_tail c z"
proof -
  have "unat c div 4096 < 16" "unat c div 4096 = unat c div 64 div 64"
    using assms by (simp_all add: div_mult2_eq[symmetric])
  then show ?thesis
    unfolding utf8_tail_cont
    by (intro arg_cong[of _ _ "\<lambda>x. utf8_tail x z"] unat_eqD)
      (simp add: unat_next6 lead_value unat_ucast_u8 join_digits)
qed

lemma tail_4:
  assumes "unat c < 0x200000"
  shows "utf8_tail (ucast (ucast (drop_bit 18 c AND 7) :: u8)) (cont 12 c # cont 6 c # cont 0 c # z) = utf8_tail c z"
proof -
  have "unat c div 262144 < 8" "unat c div 262144 = unat c div 64 div 64 div 64" "unat c div 4096 = unat c div 64 div 64"
    using assms by (simp_all add: div_mult2_eq[symmetric])
  moreover have "unat c div 64 div 64 < 67108864" "unat c div 64 < 67108864"
    using assms div_le_dividend[of "unat c" 64] div_le_dividend[of "unat c div 64" 64] by linarith+
  ultimately show ?thesis
    unfolding utf8_tail_cont
    by (intro arg_cong[of _ _ "\<lambda>x. utf8_tail x z"] unat_eqD)
      (simp add: unat_next6 lead_value unat_ucast_u8 join_digits)
qed

lemma read_write_utf8:
  assumes "unat c < 0x200000" "no_cont z"
  shows "READ_UTF8 (WRITE_UTF8 c @ z) = (if c < 0x80 then c else utf8_check c, z)"
proof -
  note stop = utf8_tail_stop[OF assms(2)]
  consider "unat c < 0x80" | "0x80 \<le> unat c" "unat c < 0x800" | "0x800 \<le> unat c" "unat c < 0x10000"
    | "0x10000 \<le> unat c" by linarith
  then show ?thesis
  proof cases
    case 1
    have "unat (ucast c :: u8) = unat c" using 1 by (simp add: unat_ucast8)
    moreover from this have "(ucast (ucast c :: u8) :: u32) = c"
      by (simp add: word_unat_eq_iff unat_ucast_u8)
    ultimately show ?thesis using 1 by (simp add: WRITE_UTF8_cont READ_UTF8.simps word_less_nat_alt word_le_nat_alt)
  next
    case 2
    then show ?thesis
      using stop tail_2[of c z] by (simp add: WRITE_UTF8_cont word_less_nat_alt lead_byte(1) lead_value)
  next
    case 3
    then show ?thesis
      using stop tail_3[of c z] by (simp add: WRITE_UTF8_cont word_less_nat_alt lead_byte(2) lead_value)
  next
    case 4
    then show ?thesis
      using stop tail_4[of c z] assms(1)
      by (simp add: WRITE_UTF8_cont word_less_nat_alt lead_byte(3) lead_value)
  qed
qed

text \<open>Surrogates and the two noncharacters at the end of the plane are read as U+FFFD.\<close>

definition replaced :: "u32 \<Rightarrow> u32" where
  "replaced c = (if 0xD800 \<le> c \<and> c \<le> 0xDFFF \<or> c = 0xFFFE \<or> c = 0xFFFF then 0xFFFD else c)"

lemma and_not_mask: "x AND NOT (mask k) = push_bit k (drop_bit k x)" for x :: "'a::len word"
  by (rule bit_word_eqI) (auto simp: bit_simps)

lemma high_part:
  fixes x :: u32
  shows "x AND 0xFFFFF800 = push_bit 11 (drop_bit 11 x)" "x AND 0xFFFFFFFE = push_bit 1 (drop_bit 1 x)"
    "x AND 0xC0 = push_bit 6 (drop_bit 6 x AND 3)" "x AND 0x3C0 = push_bit 6 (drop_bit 6 x AND 0x0F)"
proof -
  have "(0xFFFFF800 :: u32) = NOT (mask 11)" "(0xFFFFFFFE :: u32) = NOT (mask 1)"
    by (simp_all add: mask_eq_exp_minus_1)
  then show "x AND 0xFFFFF800 = push_bit 11 (drop_bit 11 x)"
    and "x AND 0xFFFFFFFE = push_bit 1 (drop_bit 1 x)" by (simp_all only: and_not_mask)
qed (rule u32_eqI, simp add: bit_simps)+

lemma unat_push_bit: "unat x * 2 ^ k < 2 ^ 32 \<Longrightarrow> unat (push_bit k x) = unat x * 2 ^ k" for x :: u32
  by (simp only: unsigned_push_bit_eq) (simp add: push_bit_eq_mult take_bit_nat_eq_self)

lemma utf8_check_replaced: "\<not> c < 0x80 \<Longrightarrow> utf8_check c = replaced c"
proof -
  assume "\<not> c < 0x80"
  moreover have "unat (push_bit 11 (drop_bit 11 c)) = unat c div 2048 * 2048"
    using unat_lt2p_aux[of c] div_mult_mod_eq[of "unat c" 2048] unat_push_bit[of "drop_bit 11 c" 11]
    by (simp add: unat_drop_bit)
  then have "c AND 0xFFFFF800 = 0xD800 \<longleftrightarrow> 0xD800 \<le> unat c \<and> unat c \<le> 0xDFFF"
    unfolding high_part by (auto simp: word_unat_eq_iff)
  moreover have "unat (push_bit 1 (drop_bit 1 c)) = unat c div 2 * 2"
    using unat_lt2p_aux[of c] div_mult_mod_eq[of "unat c" 2] unat_push_bit[of "drop_bit 1 c" 1]
    by (simp add: unat_drop_bit)
  then have "c AND 0xFFFFFFFE = 0xFFFE \<longleftrightarrow> unat c = 0xFFFE \<or> unat c = 0xFFFF"
    unfolding high_part by (auto simp: word_unat_eq_iff)
  ultimately show ?thesis
    by (auto simp: utf8_check_def replaced_def word_le_nat_alt word_unat_eq_iff)
qed

lemma read_write_utf8_replaced:
  assumes "c < 0x110000" "no_cont z"
  shows "READ_UTF8 (WRITE_UTF8 c @ z) = (replaced c, z)"
proof -
  have "c < 0x80 \<Longrightarrow> replaced c = c"
    by (auto simp: replaced_def word_le_nat_alt word_less_nat_alt word_unat_eq_iff)
  then show ?thesis
    using read_write_utf8[OF _ assms(2), of c] assms(1) utf8_check_replaced[of c]
    by (auto simp: word_less_nat_alt)
qed

lemma unat_unit_le: "unat (unit_le a b) = unat a + 256 * unat b"
proof -
  have "unat (push_bit 8 (ucast b :: u32)) = unat b * 256"
    using unat_push_bit[of "ucast b" 8] unat_u8_less[of b] by (simp add: unat_ucast_u8)
  then show ?thesis
    unfolding unit_le_def using unat_u8_less[of a] unat_u8_less[of b]
    by (subst unat_add_nowrap) (auto simp: unat_ucast_u8)
qed

lemma unit_be_le: "unit_be a b = unit_le b a"
  by (simp add: unit_be_def unit_le_def add.commute)

lemma surrogates_join:
  assumes "unat c = 0xD800 + h" "unat c2 = 0xDC00 + l" "h < 1024" "l < 1024"
  shows "unat (surrogates c c2) = 0x10000 + 1024 * h + l"
proof -
  have "(0xD800 + h) div 64 = 864 + h div 64" by simp
  moreover have "(864 + h div 64) mod 16 = h div 64 mod 16"
    using mod_mult_self3[of 54 16 "h div 64"] by simp
  moreover have "h div 64 < 16" using assms(3) by simp
  ultimately have "unat (drop_bit 6 c AND 0x0F) = h div 64"
    using assms(1) by (simp only: and_masks unat_drop_bit) simp
  moreover have "unat (c AND 0x3F) = h mod 64"
    using assms(1) mod_mult_self3[of 864 64 h] by (simp only: and_masks) simp
  ultimately have c: "unat (c AND 0x03C0) = h div 64 * 64" "unat (c AND 0x3F) = h mod 64"
    using unat_push_bit[of "drop_bit 6 c AND 0x0F" 6] assms(3) by (simp_all only: high_part(4)) simp_all
  have l: "unat (c2 AND 0x03FF) = l"
    using assms(2, 4) mod_mult_self3[of 55 1024 l] by (simp only: and_masks) simp
  have "unat ((c AND 0x03C0) + 0x0040) = h div 64 * 64 + 64"
    using c(1) assms(3) by (subst unat_add_nowrap) auto
  then have "unat (push_bit 10 ((c AND 0x03C0) + 0x0040)) = (h div 64 * 64 + 64) * 1024"
    using unat_push_bit[of "(c AND 0x03C0) + 0x0040" 10] assms(3) by simp
  moreover have "unat (push_bit 10 (c AND 0x003F)) = h mod 64 * 1024"
    using unat_push_bit[of "c AND 0x003F" 10] c(2) by simp
  moreover have "l + r * 1024 + (p * 64 + 64) * 1024 = 0x10000 + 1024 * h + l" if "p * 64 + r = h" for p r
    unfolding that[symmetric] by (simp add: algebra_simps)
  from this[OF div_mult_mod_eq] have "l + h mod 64 * 1024 + (h div 64 * 64 + 64) * 1024 = 0x10000 + 1024 * h + l" .
  ultimately show ?thesis
    unfolding surrogates_def using l assms(3, 4) by (simp add: unat_add_nowrap)
qed

text \<open>The bytes of a character outside the basic plane: a high and a low surrogate.\<close>

definition high_unit :: "u32 \<Rightarrow> u8 \<times> u8" where
  "high_unit c =
     (ucast ((drop_bit 10 c AND 0x003F) + (drop_bit 10 (c - 0x10000) AND 0x00C0)),
      ucast (0x00D8 + (drop_bit 18 (c - 0x10000) AND 0x03)))"

definition low_unit :: "u32 \<Rightarrow> u8 \<times> u8" where
  "low_unit c = (ucast (c AND 0x00FF), ucast (0x00DC + (drop_bit 8 c AND 0x03)))"

lemma high_unit_value:
  assumes "0xFFFF < unat c" "unat c < 0x110000" "high_unit c = (a, b)"
  shows "unat (unit_le a b) = 0xD800 + (unat c - 0x10000) div 1024"
proof -
  define q where "q = (unat c - 0x10000) div 1024"
  have q: "q < 1024" using assms(2) by (simp add: q_def)
  have m: "unat (c - 0x10000) = unat c - 0x10000" using assms(1) by (subst unat_sub) (auto simp: word_le_nat_alt)
  have "unat c = unat c - 0x10000 + 64 * 1024" using assms(1) by simp
  then have "unat c div 1024 = q + 64" unfolding q_def by (metis div_mult_self1 zero_neq_numeral add.commute)
  then have c: "unat (drop_bit 10 c AND 0x3F) = q mod 64"
    using mod_mult_self2[of q 64 1] by (simp only: and_masks unat_drop_bit) simp
  have q64: "(unat c - 0x10000) div 1024 div 64 = q div 64" "(unat c - 0x10000) div 262144 = q div 256"
    by (simp_all add: q_def div_mult2_eq[symmetric])
  have "unat (drop_bit 6 (drop_bit 10 (c - 0x10000)) AND 3) = q div 64 mod 4"
    by (simp only: and_masks unat_drop_bit m) (simp add: q_def)
  then have "unat (drop_bit 10 (c - 0x10000) AND 0xC0) = q div 64 mod 4 * 64"
    using unat_push_bit[of "drop_bit 6 (drop_bit 10 (c - 0x10000)) AND 3" 6]
    by (simp only: high_part(3)) simp
  moreover have "q mod 64 + q div 64 mod 4 * 64 = q mod 256" using mod_mult2_eq[of q 64 4] by simp
  ultimately have "unat ((drop_bit 10 c AND 0x3F) + (drop_bit 10 (c - 0x10000) AND 0xC0)) = q mod 256"
    using c by (subst unat_add_nowrap) auto
  then have a: "unat a = q mod 256" using assms(3) by (auto simp: high_unit_def unat_ucast8)
  have "unat (drop_bit 18 (c - 0x10000) AND 3) = q div 256"
    using q by (simp only: and_masks unat_drop_bit m) (simp add: q64 less_mult_imp_div_less)
  then have "unat (0xD8 + (drop_bit 18 (c - 0x10000) AND 3)) = 0xD8 + q div 256"
    using q by (subst unat_add_nowrap) auto
  then have "unat b = 0xD8 + q div 256" using assms(3) q by (auto simp: high_unit_def unat_ucast8)
  with a show ?thesis unfolding unat_unit_le q_def[symmetric] using div_mult_mod_eq[of q 256] by linarith
qed

lemma low_unit_value:
  assumes "low_unit c = (a, b)"
  shows "unat (unit_le a b) = 0xDC00 + unat c mod 1024"
proof -
  have "unat a = unat c mod 256" using assms by (auto simp: low_unit_def unat_ucast8 and_masks)
  moreover have "unat (0xDC + (drop_bit 8 c AND 3)) = 0xDC + unat c div 256 mod 4"
    by (subst unat_add_nowrap) (auto simp: and_masks unat_drop_bit)
  then have "unat b = 0xDC + unat c div 256 mod 4" using assms by (auto simp: low_unit_def unat_ucast8)
  ultimately show ?thesis unfolding unat_unit_le using mod_mult2_eq[of "unat c" 256 4] by simp
qed

lemma basic_unit_value:
  assumes "unat c \<le> 0xFFFF"
  shows "unit_le (ucast (c AND 0x00FF)) (ucast (drop_bit 8 c AND 0x00FF)) = c"
proof (rule unat_eqD)
  have "unat c div 256 < 256" using assms by simp
  then show "unat (unit_le (ucast (c AND 0x00FF)) (ucast (drop_bit 8 c AND 0x00FF))) = unat c"
    unfolding unat_unit_le by (simp add: unat_ucast8 and_masks unat_drop_bit)
qed

definition surrogate :: "u32 \<Rightarrow> bool" where
  "surrogate c \<longleftrightarrow> 0xD800 \<le> c \<and> c < 0xE000"

lemma surrogates_value:
  assumes "0xFFFF < unat c" "unat c < 0x110000" "high_unit c = (a, b)" "low_unit c = (a2, b2)"
  shows "surrogate (unit_le a b) \<and> surrogates (unit_le a b) (unit_le a2 b2) = c"
proof -
  define q r where "q = (unat c - 0x10000) div 1024" and "r = unat c mod 1024"
  have q: "q < 1024" using assms(2) by (simp add: q_def)
  have h: "unat (unit_le a b) = 0xD800 + q" using high_unit_value[OF assms(1-3)] by (simp add: q_def)
  have "r = (unat c - 0x10000) mod 1024"
    using assms(1) mod_mult_self2[of "unat c - 0x10000" 1024 64] by (simp add: r_def)
  then have "0x10000 + 1024 * q + r = unat c"
    using assms(1) div_mult_mod_eq[of "unat c - 0x10000" 1024] by (simp add: q_def)
  moreover have "unat (surrogates (unit_le a b) (unit_le a2 b2)) = 0x10000 + 1024 * q + r"
    using h low_unit_value[OF assms(4)] q by (intro surrogates_join) (simp_all add: r_def)
  ultimately have "surrogates (unit_le a b) (unit_le a2 b2) = c" by (intro unat_eqD) simp
  with h q show ?thesis by (simp add: surrogate_def word_le_nat_alt word_less_nat_alt)
qed

lemma WRITE_UTF16_units:
  "WRITE_UTF16LE c =
     (if c \<le> 0xFFFF then [ucast (c AND 0x00FF), ucast (drop_bit 8 c AND 0x00FF)]
      else [fst (high_unit c), snd (high_unit c), fst (low_unit c), snd (low_unit c)])"
  "WRITE_UTF16BE c =
     (if c \<le> 0xFFFF then [ucast (drop_bit 8 c AND 0x00FF), ucast (c AND 0x00FF)]
      else [snd (high_unit c), fst (high_unit c), snd (low_unit c), fst (low_unit c)])"
  by (simp_all add: WRITE_UTF16LE_def WRITE_UTF16BE_def high_unit_def low_unit_def)

lemma read_write_utf16:
  assumes "c < 0x110000" "\<not> surrogate c"
  shows "READ_UTF16LE (WRITE_UTF16LE c @ z) = (c, z)" "READ_UTF16BE (WRITE_UTF16BE c @ z) = (c, z)"
proof -
  obtain a b where h: "high_unit c = (a, b)" by fastforce
  obtain a2 b2 where l: "low_unit c = (a2, b2)" by fastforce
  have small: "unit_le (ucast (c AND 0x00FF)) (ucast (drop_bit 8 c AND 0x00FF)) = c" if "c \<le> 0xFFFF"
    using basic_unit_value[of c] that by (simp add: word_le_nat_alt)
  have large: "surrogate (unit_le a b) \<and> surrogates (unit_le a b) (unit_le a2 b2) = c" if "\<not> c \<le> 0xFFFF"
    using surrogates_value[OF _ _ h l] that assms(1) by (simp add: word_le_nat_alt word_less_nat_alt)
  show "READ_UTF16LE (WRITE_UTF16LE c @ z) = (c, z)" "READ_UTF16BE (WRITE_UTF16BE c @ z) = (c, z)"
    using small large assms(2) unfolding surrogate_def
    by (auto simp: WRITE_UTF16_units h l unit_be_le Let_def)
qed

subsection \<open>Codecs\<close>

text \<open>
  What the loops need of a pair of a writer and a reader: the reader undoes the writer on the
  characters \<open>ok\<close>, before every text \<open>follow\<close> that may come after a character.
\<close>

definition encode :: "(u32 \<Rightarrow> u8 list) \<Rightarrow> u32 list \<Rightarrow> u8 list" where
  "encode wr cs = concat (map wr cs)"

lemma encode_simps [simp]: "encode wr [] = []" "encode wr (c # cs) = wr c @ encode wr cs"
  by (simp_all add: encode_def)

locale char_codec =
  fixes wr :: "u32 \<Rightarrow> u8 list" and rd :: "u8 list \<Rightarrow> u32 \<times> u8 list"
    and ok :: "u32 \<Rightarrow> bool" and follow :: "u8 list \<Rightarrow> bool"
  assumes rd_wr: "ok c \<Longrightarrow> follow z \<Longrightarrow> rd (wr c @ z) = (c, z)"
    and follow_Nil: "follow []"
    and follow_wr: "ok c \<Longrightarrow> follow (wr c @ z)"
    and wr_nonempty: "wr c \<noteq> []"
begin

lemma follow_encode: "list_all ok cs \<Longrightarrow> follow z \<Longrightarrow> follow (encode wr cs @ z)"
  by (cases cs) (simp_all add: follow_wr)

lemma rd_encode:
  "list_all ok (c # cs) \<Longrightarrow> follow z \<Longrightarrow> rd (encode wr (c # cs) @ z) = (c, encode wr cs @ z)"
  by (simp add: rd_wr follow_encode)

lemma transcode:
  assumes "conv [] = []"
    and "\<And>z c z2. z \<noteq> [] \<Longrightarrow> rd z = (c, z2) \<Longrightarrow> conv z = f c @ conv z2"
    and "list_all ok cs"
  shows "conv (encode wr cs) = encode f cs"
  using assms(3)
proof (induction cs)
  case Nil
  then show ?case by (simp add: assms(1))
next
  case (Cons c cs)
  have "conv (encode wr (c # cs)) = f c @ conv (encode wr cs)"
    using rd_encode[OF Cons(2) follow_Nil] wr_nonempty[of c] by (intro assms(2)) auto
  with Cons show ?case by simp
qed

end

text \<open>Unicode scalar values but U+FFFE and U+FFFF; UTF-16 carries these two as well.\<close>

definition utf16_char :: "u32 \<Rightarrow> bool" where
  "utf16_char c \<longleftrightarrow> c < 0x110000 \<and> \<not> surrogate c"

definition scalar :: "u32 \<Rightarrow> bool" where
  "scalar c \<longleftrightarrow> utf16_char c \<and> c \<noteq> 0xFFFE \<and> c \<noteq> 0xFFFF"

lemma replaced_scalar: "scalar c \<Longrightarrow> replaced c = c"
  by (auto simp: scalar_def utf16_char_def surrogate_def replaced_def word_le_nat_alt word_less_nat_alt)

lemma utf8_first: "unat c < 0x200000 \<Longrightarrow> no_cont (WRITE_UTF8 c @ z)"
proof -
  assume c: "unat c < 0x200000"
  have sum: "unat (k + y) = unat k + unat y" if "unat k + unat y < 256" for k y :: u8
    using that by (intro unat_add_nowrap) simp
  have "unat c div 262144 < 8" using c by simp
  moreover have "unat c < 128 \<Longrightarrow> unat (ucast c :: u8) < 128" by (simp add: unat_ucast8)
  ultimately show ?thesis
    using sum[of "0xC0" "ucast (drop_bit 6 c AND 0x1F)"] sum[of "0xE0" "ucast (drop_bit 12 c AND 0x0F)"]
      sum[of "0xF0" "ucast (drop_bit 18 c AND 7)"]
    by (auto simp: WRITE_UTF8_cont no_cont_def is_cont lead_value word_less_nat_alt)
qed

lemma WRITE_UTF16_nonempty: "WRITE_UTF16LE c \<noteq> []" "WRITE_UTF16BE c \<noteq> []"
  by (simp_all add: WRITE_UTF16LE_def WRITE_UTF16BE_def)

interpretation utf8: char_codec WRITE_UTF8 READ_UTF8 scalar no_cont
proof
  show "scalar c \<Longrightarrow> no_cont z \<Longrightarrow> READ_UTF8 (WRITE_UTF8 c @ z) = (c, z)" for c z
    using read_write_utf8_replaced[of c z] replaced_scalar[of c]
    by (simp add: scalar_def utf16_char_def)
  show "no_cont []" by (simp add: no_cont_def)
  show "scalar c \<Longrightarrow> no_cont (WRITE_UTF8 c @ z)" for c z
    by (rule utf8_first) (simp add: scalar_def utf16_char_def word_less_nat_alt)
  show "WRITE_UTF8 c \<noteq> []" for c by (simp add: WRITE_UTF8_def)
qed

interpretation utf16le: char_codec WRITE_UTF16LE READ_UTF16LE utf16_char "\<lambda>z. True"
  by unfold_locales (simp_all add: read_write_utf16 utf16_char_def WRITE_UTF16_nonempty)

interpretation utf16be: char_codec WRITE_UTF16BE READ_UTF16BE utf16_char "\<lambda>z. True"
  by unfold_locales (simp_all add: read_write_utf16 utf16_char_def WRITE_UTF16_nonempty)

subsection \<open>Translation\<close>

text \<open>The bytes of a text in one of the three encodings.\<close>

definition text_in :: "nat \<Rightarrow> u32 list \<Rightarrow> u8 list" where
  "text_in enc cs =
     encode (if enc = SQLITE_UTF8 then WRITE_UTF8
       else if enc = SQLITE_UTF16LE then WRITE_UTF16LE else WRITE_UTF16BE) cs"

lemma text_in_simps:
  "text_in SQLITE_UTF8 = encode WRITE_UTF8" "text_in SQLITE_UTF16LE = encode WRITE_UTF16LE"
  "text_in SQLITE_UTF16BE = encode WRITE_UTF16BE"
  by (simp_all add: text_in_def fun_eq_iff)

lemma even_encode: "even (length (encode WRITE_UTF16LE cs))" "even (length (encode WRITE_UTF16BE cs))"
  by (induction cs) (simp_all add: WRITE_UTF16LE_def WRITE_UTF16BE_def)

lemma even_part_id: "even (length z) \<Longrightarrow> even_part z = z"
  by (simp add: even_part_def even_iff_mod_2_eq_zero)

lemma swap_append: "even (length a) \<Longrightarrow> swap_pairs (a @ b) = swap_pairs a @ swap_pairs b"
  by (induction a rule: swap_pairs.induct) auto

lemma swap_encode:
  "swap_pairs (encode WRITE_UTF16LE cs) = encode WRITE_UTF16BE cs"
  "swap_pairs (encode WRITE_UTF16BE cs) = encode WRITE_UTF16LE cs"
proof (induction cs)
  case (Cons c cs)
  have "even (length (WRITE_UTF16LE c))" "even (length (WRITE_UTF16BE c))"
    by (simp_all add: WRITE_UTF16LE_def WRITE_UTF16BE_def)
  moreover have "swap_pairs (WRITE_UTF16LE c) = WRITE_UTF16BE c" "swap_pairs (WRITE_UTF16BE c) = WRITE_UTF16LE c"
    by (simp_all add: WRITE_UTF16LE_def WRITE_UTF16BE_def)
  ultimately show "swap_pairs (encode WRITE_UTF16LE (c # cs)) = encode WRITE_UTF16BE (c # cs)"
    and "swap_pairs (encode WRITE_UTF16BE (c # cs)) = encode WRITE_UTF16LE (c # cs)"
    using Cons by (simp_all add: swap_append)
qed simp_all

lemma utf16_of_scalar: "list_all scalar cs \<Longrightarrow> list_all utf16_char cs"
  by (auto simp: list_all_iff scalar_def)

lemma translate_bytes_text:
  assumes "list_all scalar cs" "e \<in> {1, 2, 3}" "d \<in> {1, 2, 3}" "e \<noteq> d" "e = SQLITE_UTF8 \<or> d = SQLITE_UTF8"
  shows "translate_bytes e d (text_in e cs) = text_in d cs"
proof -
  have to16: "utf8_to_utf16 wr (encode WRITE_UTF8 cs) = encode wr cs" for wr
    by (rule utf8.transcode[OF _ _ assms(1)])
      (simp_all add: utf8_to_utf16.simps[of _ "[]"] utf8_to_utf16.simps[of _ z for z])
  have le: "utf16_to_utf8 unit_le (encode WRITE_UTF16LE cs) = encode WRITE_UTF8 cs"
    by (rule utf16le.transcode[OF _ _ utf16_of_scalar[OF assms(1)]])
      (simp_all add: utf16_to_utf8.simps[of _ "[]"] utf16_to_utf8.simps[of _ z for z])
  have be: "utf16_to_utf8 unit_be (encode WRITE_UTF16BE cs) = encode WRITE_UTF8 cs"
    by (rule utf16be.transcode[OF _ _ utf16_of_scalar[OF assms(1)]])
      (simp_all add: utf16_to_utf8.simps[of _ "[]"] utf16_to_utf8.simps[of _ z for z])
  show ?thesis
    using assms(2-5) to16 le be by (auto simp: translate_bytes_def text_in_def)
qed

text \<open>
  C38: the encodings are inverses of each other, for every code point up to U+10FFFF: a character
  takes at most four bytes; reading back a character written in UTF-8 gives it, or U+FFFD for a
  surrogate and for U+FFFE and U+FFFF, and consumes exactly its bytes; reading back a character
  written in either UTF-16 gives it unless it is a surrogate.
\<close>

theorem utf_characters:
  assumes "c < 0x110000" "no_cont z"
  shows "READ_UTF8 (WRITE_UTF8 c @ z) = (replaced c, z) \<and>
    (\<not> surrogate c \<longrightarrow> READ_UTF16LE (WRITE_UTF16LE c @ z) = (c, z) \<and>
      READ_UTF16BE (WRITE_UTF16BE c @ z) = (c, z)) \<and>
    length (WRITE_UTF8 c) \<in> {1 .. 4} \<and> length (WRITE_UTF16LE c) \<in> {2, 4} \<and> length (WRITE_UTF16BE c) \<in> {2, 4}"
  using read_write_utf8_replaced[OF assms] read_write_utf16[OF assms(1)]
  by (simp add: WRITE_UTF8_def WRITE_UTF16LE_def WRITE_UTF16BE_def)

lemma utf_characters_witness:
  "READ_UTF8 (WRITE_UTF8 0x1F600 @ [0x41]) = (0x1F600, [0x41]) \<and>
   READ_UTF16LE (WRITE_UTF16LE 0x1F600 @ [0x41]) = (0x1F600, [0x41]) \<and>
   READ_UTF8 (WRITE_UTF8 0xD800 @ [0x41]) = (0xFFFD, [0x41])"
  using utf_characters[of "0x1F600" "[0x41]"] utf_characters[of "0xD800" "[0x41]"]
  by (simp add: no_cont_def surrogate_def replaced_def)

text \<open>
  C39: translation of a value. A text of Unicode scalar values held in one encoding becomes the same
  text in the other one, whatever the two are, and the value then owns its bytes. When memory runs
  out the result is \<open>SQLITE_NOMEM\<close>: a value that was to be translated from or to UTF-8 is
  unchanged, a value whose bytes were to be swapped becomes NULL.
\<close>

theorem translate_text:
  assumes "list_all scalar cs" "e \<in> {1, 2, 3}" "d \<in> {1, 2, 3}" "e \<noteq> d"
    and "mem_enc p = e" "mem_z p = text_in e cs" "mem_flags p AND MEM_Str \<noteq> 0"
  shows "case sqlite3VdbeMemTranslate p d m of (rc, q, m2) \<Rightarrow>
    (rc = SQLITE_OK \<and> mem_enc q = d \<and> mem_z q = text_in d cs \<and> mem_owned q \<or>
     rc = SQLITE_NOMEM \<and> \<not> fst (malloc_step m) \<and>
       (if e = SQLITE_UTF8 \<or> d = SQLITE_UTF8 then q = p else mem_flags q = MEM_Null \<and> mem_enc q = e))"
proof (cases "e = SQLITE_UTF8 \<or> d = SQLITE_UTF8")
  case True
  have "d = SQLITE_UTF8 \<Longrightarrow> even_part (text_in e cs) = text_in e cs"
    using assms(2, 4) even_encode[of cs] by (auto simp: text_in_def intro!: even_part_id)
  with True translate_bytes_text[OF assms(1-4)] assms(5-6) show ?thesis
    by (auto simp: sqlite3VdbeMemTranslate_def Let_def split: prod.split bool.split)
next
  case False
  have "mem_flags p AND MEM_Str = (mem_flags p AND (MEM_Str OR MEM_Blob)) AND MEM_Str"
    by (simp add: and.assoc)
  with assms(7) have "mem_flags p AND (MEM_Str OR MEM_Blob) \<noteq> 0" by auto
  moreover have "swap_pairs (text_in e cs) = text_in d cs"
    using False assms(2-4) swap_encode[of cs] by (auto simp: text_in_def)
  ultimately show ?thesis
    using False assms(5-6)
    by (auto simp: sqlite3VdbeMemTranslate_def sqlite3VdbeMemMakeWriteable_def
        sqlite3VdbeMemGrow_def Let_def split: prod.split bool.split)
qed

lemma translate_text_witness:
  "\<exists>q m. sqlite3VdbeMemTranslate \<lparr>mem_flags = 2, mem_enc = 1, mem_z = text_in 1 [0x41, 0x20ac], mem_owned = False\<rparr> 2 []
     = (SQLITE_OK, q, m) \<and> mem_z q = [0x41, 0, 0xac, 0x20]"
  using translate_text[of "[0x41, 0x20ac]" 1 2 "\<lparr>mem_flags = 2, mem_enc = 1, mem_z = text_in 1 [0x41, 0x20ac], mem_owned = False\<rparr>" "[]"]
  by (auto simp: scalar_def utf16_char_def surrogate_def text_in_def WRITE_UTF16LE_def split: prod.splits)

subsection \<open>The output buffer is large enough\<close>

lemma utf8_tail_length: "utf8_tail c z = (d, z2) \<Longrightarrow> length z \<le> length z2 \<Longrightarrow> d = c"
proof (induction c z rule: utf8_tail.induct)
  case (2 c b z)
  then show ?case
    using utf8_tail_shorter[of "push_bit 6 c + (0x3f AND ucast b)" z]
    by (auto simp: utf8_tail.simps split: if_splits)
qed simp

lemma READ_UTF8_small:
  assumes "READ_UTF8 z = (c, z2)" "length z \<le> length z2 + 1"
  shows "c \<le> 0xFFFF"
proof (cases z)
  case Nil
  with assms show ?thesis by simp
next
  case (Cons b y)
  show ?thesis
  proof (cases "0xc0 \<le> b")
    case True
    define t where "t = sqlite3Utf8Trans1 ! unat (b - 0xc0)"
    have "unat (b - 0xc0) < 64" using True unat_u8_less[of b] by (simp add: unat_sub word_le_nat_alt)
    then have "t \<in> set sqlite3Utf8Trans1" unfolding t_def by (intro nth_mem) (simp add: sqlite3Utf8Trans1_def)
    then have "t < 0x80" by (auto simp: sqlite3Utf8Trans1_def)
    obtain d where d: "utf8_tail t y = (d, z2)" "c = utf8_check d"
      using assms(1) True by (auto simp: Cons READ_UTF8.simps t_def Let_def split: prod.splits)
    then have "d = t" using assms(2) by (intro utf8_tail_length) (simp_all add: Cons)
    with d(2) \<open>t < 0x80\<close> show ?thesis by (simp add: utf8_check_def)
  next
    case False
    then have "c = ucast b" using assms(1) by (simp add: Cons READ_UTF8.simps)
    then show ?thesis using unat_u8_less[of b] by (simp add: word_le_nat_alt unat_ucast_u8)
  qed
qed

lemma utf8_to_utf16_length:
  assumes "wr = WRITE_UTF16LE \<or> wr = WRITE_UTF16BE"
  shows "length (utf8_to_utf16 wr z) \<le> 2 * length z"
proof (induction "length z" arbitrary: z rule: less_induct)
  case less
  show ?case
  proof (cases "z = []")
    case True
    then show ?thesis by (simp add: utf8_to_utf16.simps[of _ "[]"])
  next
    case False
    obtain c z2 where r: "READ_UTF8 z = (c, z2)" by fastforce
    have short: "length z2 < length z" using READ_UTF8_shorter[OF False r] .
    have "length (wr c) \<le> 2 * (length z - length z2)"
      using READ_UTF8_small[OF r] assms short
      by (cases "length z \<le> length z2 + 1") (auto simp: WRITE_UTF16LE_def WRITE_UTF16BE_def)
    then show ?thesis
      using less[OF short] short False r by (simp add: utf8_to_utf16.simps[of _ z])
  qed
qed

lemma utf16_to_utf8_length:
  assumes "u = unit_le \<or> u = unit_be"
  shows "length (utf16_to_utf8 u z) \<le> 2 * length z"
proof (induction "length z" arbitrary: z rule: less_induct)
  case less
  show ?case
  proof (cases "z = []")
    case True
    then show ?thesis by (simp add: utf16_to_utf8.simps[of _ "[]"])
  next
    case False
    obtain c z2 where r: "READ_UTF16 u z = (c, z2)" by fastforce
    have short: "length z2 < length z" using READ_UTF16_shorter[OF False r] .
    have u: "u a b < 0x10000" for a b
      using assms unat_unit_le[of a b] unat_unit_le[of b a] unat_u8_less[of a] unat_u8_less[of b]
      by (auto simp: unit_be_le word_less_nat_alt)
    have "length (WRITE_UTF8 c) \<le> 2 * (length z - length z2)"
    proof (cases "length z \<le> length z2 + 3")
      case True
      then have "c < 0x10000 \<and> (length z = length z2 + 1 \<longrightarrow> c = 0)"
        using r False u by (cases "(u, z)" rule: READ_UTF16.cases) (auto simp: Let_def split: if_splits list.splits)
      then show ?thesis using short by (cases "length z = length z2 + 1") (auto simp: WRITE_UTF8_def)
    next
      case far: False
      have "length (WRITE_UTF8 c) \<le> 4" by (simp add: WRITE_UTF8_def)
      with far show ?thesis by simp
    qed
    then show ?thesis
      using less[OF short] short False r by (simp add: utf16_to_utf8.simps[of _ z])
  qed
qed

text \<open>
  No translation overruns its output buffer. For every input, well formed or not, the bytes
  written and the terminator (one byte in UTF-8, two in UTF-16) fit the \<open>len\<close> bytes allocated from
  the size of the input alone.
\<close>

theorem translate_fits:
  assumes "(mem_enc p = SQLITE_UTF8) \<noteq> (desiredEnc = SQLITE_UTF8)"
    and "sqlite3VdbeMemTranslate p desiredEnc m = (SQLITE_OK, q, m2)"
  shows "length (mem_z q) + (if desiredEnc = SQLITE_UTF8 then 1 else 2)
    \<le> buffer_len desiredEnc (length (if desiredEnc = SQLITE_UTF8 then even_part (mem_z p) else mem_z p))"
proof -
  have "length (translate_bytes (mem_enc p) desiredEnc z) \<le> length z * 2" for z
    using assms(1) utf8_to_utf16_length[of _ z] utf16_to_utf8_length[of _ z]
    by (auto simp: translate_bytes_def mult.commute)
  then show ?thesis
    using assms by (auto simp: sqlite3VdbeMemTranslate_def buffer_len_def Let_def split: if_splits prod.splits bool.splits)
qed

lemma translate_fits_witness:
  "\<exists>q m. sqlite3VdbeMemTranslate \<lparr>mem_flags = 2, mem_enc = 1, mem_z = [0xff, 0xbf], mem_owned = False\<rparr> 2 []
     = (SQLITE_OK, q, m) \<and> length (mem_z q) + 2 \<le> 6"
proof -
  obtain q m where "sqlite3VdbeMemTranslate \<lparr>mem_flags = 2, mem_enc = 1, mem_z = [0xff, 0xbf], mem_owned = False\<rparr> 2 []
     = (SQLITE_OK, q, m)" by (simp add: sqlite3VdbeMemTranslate_def)
  with translate_fits[OF _ this] show ?thesis by (simp add: buffer_len_def)
qed

subsection \<open>Counting\<close>

lemma skip_encode:
  assumes "list_all scalar (c # cs)" "no_cont z"
  shows "SQLITE_SKIP_UTF8 (encode WRITE_UTF8 (c # cs) @ z) = encode WRITE_UTF8 cs @ z"
proof -
  have "no_cont (encode WRITE_UTF8 cs @ z)"
    using utf8.follow_encode[OF _ assms(2), of cs] assms(1) by simp
  then have "dropWhile (\<lambda>b. b AND 0xc0 = 0x80) (encode WRITE_UTF8 cs @ z) = encode WRITE_UTF8 cs @ z"
    by (cases "encode WRITE_UTF8 cs @ z") (auto simp: no_cont_def)
  moreover have "cont k c AND 0xc0 = 0x80" for k by (simp add: is_cont unat_cont)
  moreover have "\<not> (0xc0 :: u8) \<le> ucast c" if "c < 0x80"
    using that by (simp add: word_le_nat_alt word_less_nat_alt unat_ucast8)
  moreover have "0xc0 \<le> 0xC0 + (ucast (drop_bit 6 c AND 0x1F) :: u8)"
    "0xc0 \<le> 0xE0 + (ucast (drop_bit 12 c AND 0x0F) :: u8)" "0xc0 \<le> 0xF0 + (ucast (drop_bit 18 c AND 7) :: u8)"
    by (simp_all add: word_le_nat_alt unat_add_nowrap lead_value)
  ultimately show ?thesis
    by (simp add: WRITE_UTF8_cont)
qed

lemma ch_encode:
  assumes "list_all scalar (c # cs)" "c \<noteq> 0"
  shows "ch (encode WRITE_UTF8 (c # cs) @ z) \<noteq> 0"
proof -
  have "0x80 \<le> 0xC0 + (ucast (drop_bit 6 c AND 0x1F) :: u8)"
    "0x80 \<le> 0xE0 + (ucast (drop_bit 12 c AND 0x0F) :: u8)" "0x80 \<le> 0xF0 + (ucast (drop_bit 18 c AND 7) :: u8)"
    by (simp_all add: word_le_nat_alt unat_add_nowrap lead_value)
  moreover have "unat (ucast c :: u8) = unat c" if "c < 0x80"
    using that by (simp add: word_less_nat_alt unat_ucast8)
  ultimately show ?thesis
    using assms(2) by (auto simp: WRITE_UTF8_cont word_unat_eq_iff word_le_nat_alt)
qed

lemma charlen_text:
  assumes "list_all scalar cs" "0 \<notin> set cs" "no_cont z"
  shows "charlen_loop (encode WRITE_UTF8 cs @ z) (Some (length (encode WRITE_UTF8 cs))) = length cs"
    and "ch z = 0 \<Longrightarrow> charlen_loop (encode WRITE_UTF8 cs @ z) None = length cs"
proof -
  have ne: "WRITE_UTF8 c \<noteq> []" for c by (rule utf8.wr_nonempty)
  show "charlen_loop (encode WRITE_UTF8 cs @ z) (Some (length (encode WRITE_UTF8 cs))) = length cs"
    using assms(1, 2)
  proof (induction cs)
    case Nil
    then show ?case by (simp add: charlen_loop.simps)
  next
    case (Cons c cs)
    then show ?case
      using skip_encode[OF Cons(2) assms(3)] ch_encode[OF Cons(2), of z] ne[of c]
      by (subst charlen_loop.simps) (simp del: encode_simps, simp)
  qed
  assume z: "ch z = 0"
  show "charlen_loop (encode WRITE_UTF8 cs @ z) None = length cs"
    using assms(1, 2)
  proof (induction cs)
    case Nil
    then show ?case using z by (simp add: charlen_loop.simps)
  next
    case (Cons c cs)
    then show ?case
      using skip_encode[OF Cons(2) assms(3)] ch_encode[OF Cons(2), of z] ne[of c]
      by (subst charlen_loop.simps) (simp del: encode_simps, simp)
  qed
qed

lemma utf16_bytes_text:
  "list_all utf16_char cs \<Longrightarrow>
     utf16_bytes unit_le (length cs) (encode WRITE_UTF16LE cs @ z) = Some (length (encode WRITE_UTF16LE cs)) \<and>
     utf16_bytes unit_be (length cs) (encode WRITE_UTF16BE cs @ z) = Some (length (encode WRITE_UTF16BE cs))"
proof (induction cs)
  case (Cons c cs)
  then show ?case
    using utf16le.rd_encode[OF Cons(2) TrueI, of z] utf16le.wr_nonempty[of c]
      utf16be.rd_encode[OF Cons(2) TrueI, of z] utf16be.wr_nonempty[of c] by simp
qed simp

definition bom_of :: "nat \<Rightarrow> u8 list" where
  "bom_of enc = (if enc = SQLITE_UTF16BE then [0xFE, 0xFF] else [0xFF, 0xFE])"

text \<open>
  Counting, and byte-order marks. \<open>sqlite3Utf8CharLen\<close> gives the number of characters of a
  UTF-8 text, by its size or by its terminator; \<open>sqlite3Utf16ByteLen\<close> gives the size of a given
  number of UTF-16 characters in either byte order; \<open>sqlite3VdbeMemHandleBom\<close> removes a mark and
  sets the encoding the mark announces, whatever the encoding was.
\<close>

theorem utf_counts:
  assumes "list_all scalar cs" "0 \<notin> set cs" "no_cont z" "e \<in> {2, 3}"
  shows "sqlite3Utf8CharLen (text_in 1 cs @ z) (int (length (text_in 1 cs))) = length cs \<and>
    (ch z = 0 \<longrightarrow> sqlite3Utf8CharLen (text_in 1 cs @ z) (- 1) = length cs) \<and>
    sqlite3Utf16ByteLen e (text_in e cs @ z) (length cs) = Some (length (text_in e cs)) \<and>
    (mem_z p = bom_of e @ text_in e cs \<and> mem_owned p \<longrightarrow>
      (case sqlite3VdbeMemHandleBom p m of (rc, q, m2) \<Rightarrow>
         rc = SQLITE_OK \<and> mem_enc q = e \<and> mem_z q = text_in e cs))"
  using charlen_text[OF assms(1-3)] utf16_bytes_text[OF utf16_of_scalar[OF assms(1)]] assms(4)
  by (auto simp: sqlite3Utf8CharLen_def sqlite3Utf16ByteLen_def text_in_def bom_of_def
      sqlite3VdbeMemHandleBom_def sqlite3VdbeMemMakeWriteable_def Let_def)

lemma utf_counts_witness:
  "sqlite3Utf8CharLen [0x41, 0xe2, 0x82, 0xac] 4 = 2 \<and> sqlite3Utf16ByteLen 2 [0x41, 0, 0xac, 0x20, 0] 2 = Some 4"
  using utf_counts[of "[0x41, 0x20ac]" "[0]" 2 "\<lparr>mem_flags = 2, mem_enc = 1, mem_z = [], mem_owned = True\<rparr>" "[]"]
    utf_counts[of "[0x41, 0x20ac]" "[]" 2 "\<lparr>mem_flags = 2, mem_enc = 1, mem_z = [], mem_owned = True\<rparr>" "[]"]
  by (simp add: numeral_2_eq_2 [symmetric] scalar_def utf16_char_def surrogate_def no_cont_def text_in_def WRITE_UTF8_def WRITE_UTF16LE_def)

end
