(* ===== verification/Pb_Stream.thy ===== *)
theory Pb_Stream
  imports Base
begin

text \<open>
  The streams and the field descriptions of nanopb (pb.h, pb_encode.c, pb_decode.c), the protocol
  buffer codec of the crash and data transport libraries, in the configuration of the project:
  64-bit integers, 32-bit field sizes, dynamic allocation, streams over memory buffers.
\<close>

subsection \<open>Field descriptions\<close>

text \<open>The tag, the type byte and the size of one item, of the fields of \<open>pb_field_t\<close> used here.\<close>

record pb_field =
  fld_tag :: u32
  fld_type :: u8
  fld_data_size :: nat

abbreviation (input) PB_LTYPE_VARINT :: u8 where "PB_LTYPE_VARINT \<equiv> 0x00"
abbreviation (input) PB_LTYPE_UVARINT :: u8 where "PB_LTYPE_UVARINT \<equiv> 0x01"
abbreviation (input) PB_LTYPE_SVARINT :: u8 where "PB_LTYPE_SVARINT \<equiv> 0x02"
abbreviation (input) PB_LTYPE_FIXED32 :: u8 where "PB_LTYPE_FIXED32 \<equiv> 0x03"
abbreviation (input) PB_LTYPE_FIXED64 :: u8 where "PB_LTYPE_FIXED64 \<equiv> 0x04"
abbreviation (input) PB_LTYPE_BYTES :: u8 where "PB_LTYPE_BYTES \<equiv> 0x05"
abbreviation (input) PB_LTYPE_STRING :: u8 where "PB_LTYPE_STRING \<equiv> 0x06"
abbreviation (input) PB_LTYPE_SUBMESSAGE :: u8 where "PB_LTYPE_SUBMESSAGE \<equiv> 0x07"
abbreviation (input) PB_LTYPE_FIXED_LENGTH_BYTES :: u8 where "PB_LTYPE_FIXED_LENGTH_BYTES \<equiv> 0x09"
abbreviation (input) PB_ATYPE_STATIC :: u8 where "PB_ATYPE_STATIC \<equiv> 0x00"
abbreviation (input) PB_ATYPE_POINTER :: u8 where "PB_ATYPE_POINTER \<equiv> 0x80"

definition PB_LTYPE :: "u8 \<Rightarrow> u8" where "PB_LTYPE x = x AND 0x0F"
definition PB_ATYPE :: "u8 \<Rightarrow> u8" where "PB_ATYPE x = x AND 0xC0"

datatype wire_type = PB_WT_VARINT | PB_WT_64BIT | PB_WT_STRING | PB_WT_32BIT | PB_WT_other "3 word"

fun wt_code :: "wire_type \<Rightarrow> 3 word" where
  "wt_code PB_WT_VARINT = 0"
| "wt_code PB_WT_64BIT = 1"
| "wt_code PB_WT_STRING = 2"
| "wt_code PB_WT_32BIT = 5"
| "wt_code (PB_WT_other n) = n"

definition wt_of :: "3 word \<Rightarrow> wire_type" where
  "wt_of n =
     (if n = 0 then PB_WT_VARINT else if n = 1 then PB_WT_64BIT
      else if n = 2 then PB_WT_STRING else if n = 5 then PB_WT_32BIT else PB_WT_other n)"

lemma wt_of_code: "wt_code (wt_of n) = n"
  by (simp add: wt_of_def)

text \<open>\<open>PB_BYTES_ARRAY_T_ALLOCSIZE\<close>: a bytes array starts with its 32-bit size.\<close>

definition PB_BYTES_ARRAY_T_ALLOCSIZE :: "nat \<Rightarrow> nat" where
  "PB_BYTES_ARRAY_T_ALLOCSIZE n = n + 4"

subsection \<open>Output streams\<close>

text \<open>
  \<open>os_sizing\<close> is the test \<open>callback == NULL\<close>, \<open>os_out\<close> the bytes stored through the buffer
  callback so far. Memory has fewer than 2 to the 64 bytes, so the counters do not wrap.
\<close>

record ostream =
  os_sizing :: bool
  os_out :: "u8 list"
  os_max :: nat
  os_written :: nat
  os_err :: "string option"

definition PB_OSTREAM_SIZING :: ostream where
  "PB_OSTREAM_SIZING = \<lparr>os_sizing = True, os_out = [], os_max = 0, os_written = 0, os_err = None\<rparr>"

definition pb_ostream_from_buffer :: "nat \<Rightarrow> ostream" where
  "pb_ostream_from_buffer bufsize =
     \<lparr>os_sizing = False, os_out = [], os_max = bufsize, os_written = 0, os_err = None\<rparr>"

definition first_error :: "string \<Rightarrow> string option \<Rightarrow> string option" where
  "first_error msg e = (case e of None \<Rightarrow> Some msg | Some m \<Rightarrow> Some m)"

definition os_error :: "string \<Rightarrow> ostream \<Rightarrow> bool \<times> ostream" where
  "os_error msg s = (False, s\<lparr>os_err := first_error msg (os_err s)\<rparr>)"

definition pb_write :: "u8 list \<Rightarrow> ostream \<Rightarrow> bool \<times> ostream" where
  "pb_write buf s =
     (if \<not> os_sizing s
      then (if os_max s < os_written s + length buf then os_error ''stream full'' s
            else (True, s\<lparr>os_out := os_out s @ buf, os_written := os_written s + length buf\<rparr>))
      else (True, s\<lparr>os_written := os_written s + length buf\<rparr>))"

text \<open>Sequencing: the second operation runs when the first succeeded.\<close>

definition os_then :: "(ostream \<Rightarrow> bool \<times> ostream) \<Rightarrow> (ostream \<Rightarrow> bool \<times> ostream) \<Rightarrow> ostream \<Rightarrow> bool \<times> ostream" where
  "os_then f g s = (case f s of (False, s) \<Rightarrow> (False, s) | (True, s) \<Rightarrow> g s)"

subsection \<open>Input streams\<close>

text \<open>
  \<open>is_in\<close> is the memory from \<open>state\<close> to the end of the buffer the stream was made from,
  \<open>is_left\<close> is \<open>bytes_left\<close>, which a substream makes smaller.
\<close>

record istream =
  is_in :: "u8 list"
  is_left :: nat
  is_err :: "string option"

definition pb_istream_from_buffer :: "u8 list \<Rightarrow> istream" where
  "pb_istream_from_buffer buf = \<lparr>is_in = buf, is_left = length buf, is_err = None\<rparr>"

text \<open>A reader fails with \<open>None\<close>, the C \<open>false\<close>; the stream keeps the first error message.\<close>

type_synonym 'a reader = "istream \<Rightarrow> 'a option \<times> istream"

definition is_error :: "string \<Rightarrow> 'a reader" where
  "is_error msg s = (None, s\<lparr>is_err := first_error msg (is_err s)\<rparr>)"

definition is_return :: "'a \<Rightarrow> 'a reader" where
  "is_return x s = (Some x, s)"

definition is_bind :: "'a reader \<Rightarrow> ('a \<Rightarrow> 'b reader) \<Rightarrow> 'b reader" where
  "is_bind f g s = (case f s of (None, s) \<Rightarrow> (None, s) | (Some x, s) \<Rightarrow> g x s)"

definition buf_read :: "nat \<Rightarrow> istream \<Rightarrow> u8 list \<times> istream" where
  "buf_read count s = (take count (is_in s), s\<lparr>is_in := drop count (is_in s)\<rparr>)"

definition pb_read :: "nat \<Rightarrow> u8 list reader" where
  "pb_read count s =
     (if is_left s < count then is_error ''end-of-stream'' s
      else (let (buf, s) = buf_read count s in (Some buf, s\<lparr>is_left := is_left s - count\<rparr>)))"

definition pb_readbyte :: "u8 reader" where
  "pb_readbyte s =
     (if is_left s = 0 then is_error ''end-of-stream'' s
      else (let (buf, s) = buf_read 1 s in (Some (hd buf), s\<lparr>is_left := is_left s - 1\<rparr>)))"

end
