(* ===== verification/Pb_Encode.thy ===== *)
theory Pb_Encode
  imports Pb_Stream
begin

text \<open>
  The encoders of pb_encode.c: varints, zigzag and fixed-size integers, tags, strings and
  submessages, and the encoders of single fields. What an encoder promises is stated once, as a
  locale: it writes a definite sequence of bytes when they fit, fails when they do not, and a
  sizing stream counts exactly these bytes.
\<close>

subsection \<open>Integers, tags and strings\<close>

function varint_groups :: "u64 \<Rightarrow> u8 list" where
  "varint_groups value =
     (if value \<noteq> 0 then (ucast (value AND 0x7F) OR 0x80) # varint_groups (drop_bit 7 value) else [])"
  by pat_completeness auto
termination
  by (relation "measure unat") (auto simp: unat_drop_bit unat_gt_0 intro!: div_less_dividend)

declare varint_groups.simps [simp del]

definition pb_encode_varint :: "u64 \<Rightarrow> ostream \<Rightarrow> bool \<times> ostream" where
  "pb_encode_varint value s =
     (if value \<le> 0x7F then pb_write [ucast value] s
      else (let buffer = varint_groups value
        in pb_write (buffer[length buffer - 1 := last buffer AND 0x7F]) s))"

definition pb_encode_svarint :: "u64 \<Rightarrow> ostream \<Rightarrow> bool \<times> ostream" where
  "pb_encode_svarint value s =
     (let zigzagged = (if value <s 0 then NOT (push_bit 1 value) else push_bit 1 value)
      in pb_encode_varint zigzagged s)"

definition fixed32_bytes :: "u32 \<Rightarrow> u8 list" where
  "fixed32_bytes val =
     [ucast (val AND 0xFF), ucast (drop_bit 8 val AND 0xFF), ucast (drop_bit 16 val AND 0xFF),
      ucast (drop_bit 24 val AND 0xFF)]"

definition pb_encode_fixed32 :: "u32 \<Rightarrow> ostream \<Rightarrow> bool \<times> ostream" where
  "pb_encode_fixed32 val s = pb_write (fixed32_bytes val) s"

definition fixed64_bytes :: "u64 \<Rightarrow> u8 list" where
  "fixed64_bytes val =
     [ucast (val AND 0xFF), ucast (drop_bit 8 val AND 0xFF), ucast (drop_bit 16 val AND 0xFF),
      ucast (drop_bit 24 val AND 0xFF), ucast (drop_bit 32 val AND 0xFF),
      ucast (drop_bit 40 val AND 0xFF), ucast (drop_bit 48 val AND 0xFF),
      ucast (drop_bit 56 val AND 0xFF)]"

definition pb_encode_fixed64 :: "u64 \<Rightarrow> ostream \<Rightarrow> bool \<times> ostream" where
  "pb_encode_fixed64 val s = pb_write (fixed64_bytes val) s"

definition pb_encode_tag :: "wire_type \<Rightarrow> u32 \<Rightarrow> ostream \<Rightarrow> bool \<times> ostream" where
  "pb_encode_tag wiretype field_number s =
     (let tag = push_bit 3 (ucast field_number) OR ucast (wt_code wiretype)
      in pb_encode_varint tag s)"

definition pb_encode_tag_for_field :: "pb_field \<Rightarrow> ostream \<Rightarrow> bool \<times> ostream" where
  "pb_encode_tag_for_field f s =
     (let t = PB_LTYPE (fld_type f) in
      if t \<in> {PB_LTYPE_VARINT, PB_LTYPE_UVARINT, PB_LTYPE_SVARINT}
      then pb_encode_tag PB_WT_VARINT (fld_tag f) s
      else if t = PB_LTYPE_FIXED32 then pb_encode_tag PB_WT_32BIT (fld_tag f) s
      else if t = PB_LTYPE_FIXED64 then pb_encode_tag PB_WT_64BIT (fld_tag f) s
      else if t \<in> {PB_LTYPE_BYTES, PB_LTYPE_STRING, PB_LTYPE_SUBMESSAGE, PB_LTYPE_FIXED_LENGTH_BYTES}
      then pb_encode_tag PB_WT_STRING (fld_tag f) s
      else os_error ''invalid field type'' s)"

definition pb_encode_string :: "u8 list \<Rightarrow> ostream \<Rightarrow> bool \<times> ostream" where
  "pb_encode_string buffer =
     os_then (pb_encode_varint (of_nat (length buffer))) (pb_write buffer)"

text \<open>
  \<open>enc\<close> is the call \<open>pb_encode(_, fields, src_struct)\<close> for the message. The second pass writes
  through a substream whose limit is the size the first pass found.
\<close>

definition pb_encode_submessage :: "(ostream \<Rightarrow> bool \<times> ostream) \<Rightarrow> ostream \<Rightarrow> bool \<times> ostream" where
  "pb_encode_submessage enc s =
     (case enc PB_OSTREAM_SIZING of
        (False, sub) \<Rightarrow> (False, s\<lparr>os_err := os_err sub\<rparr>)
      | (True, sub) \<Rightarrow>
          (let size = os_written sub in
           case pb_encode_varint (of_nat size) s of
             (False, s) \<Rightarrow> (False, s)
           | (True, s) \<Rightarrow>
               if os_sizing s then pb_write (replicate size 0) s
               else if os_max s < os_written s + size then os_error ''stream full'' s
               else (case enc \<lparr>os_sizing = False, os_out = os_out s, os_max = size,
                               os_written = 0, os_err = None\<rparr> of
                   (status, sub) \<Rightarrow>
                     (let s = s\<lparr>os_written := os_written s + os_written sub,
                                os_out := os_out sub, os_err := os_err sub\<rparr>
                      in if os_written sub \<noteq> size then os_error ''submsg size changed'' s
                         else (status, s)))))"

definition pb_get_encoded_size :: "(ostream \<Rightarrow> bool \<times> ostream) \<Rightarrow> nat option" where
  "pb_get_encoded_size enc =
     (case enc PB_OSTREAM_SIZING of (False, s) \<Rightarrow> None | (True, s) \<Rightarrow> Some (os_written s))"

definition pb_encode_nullterminated :: "(ostream \<Rightarrow> bool \<times> ostream) \<Rightarrow> ostream \<Rightarrow> bool \<times> ostream" where
  "pb_encode_nullterminated enc = os_then enc (pb_write [0])"

subsection \<open>Fields\<close>

text \<open>
  An integer in a message structure occupies \<open>data_size\<close> bytes; \<open>src\<close> holds them, zero-extended.
  The two ways to load it; \<open>None\<close> for a size that no integer type has.
\<close>

definition load_signed :: "nat \<Rightarrow> u64 \<Rightarrow> u64 option" where
  "load_signed data_size src =
     (if data_size = 1 then Some (scast (ucast src :: 8 word))
      else if data_size = 2 then Some (scast (ucast src :: 16 word))
      else if data_size = 4 then Some (scast (ucast src :: 32 word))
      else if data_size = 8 then Some src else None)"

definition load_unsigned :: "nat \<Rightarrow> u64 \<Rightarrow> u64 option" where
  "load_unsigned data_size src =
     (if data_size = 1 then Some (ucast (ucast src :: 8 word))
      else if data_size = 2 then Some (ucast (ucast src :: 16 word))
      else if data_size = 4 then Some (ucast (ucast src :: 32 word))
      else if data_size = 8 then Some src else None)"

definition enc_loaded :: "u64 option \<Rightarrow> (u64 \<Rightarrow> ostream \<Rightarrow> bool \<times> ostream) \<Rightarrow> ostream \<Rightarrow> bool \<times> ostream" where
  "enc_loaded v put s = (case v of None \<Rightarrow> os_error ''invalid data_size'' s | Some v \<Rightarrow> put v s)"

definition pb_enc_varint :: "pb_field \<Rightarrow> u64 \<Rightarrow> ostream \<Rightarrow> bool \<times> ostream" where
  "pb_enc_varint f src = enc_loaded (load_signed (fld_data_size f) src) pb_encode_varint"

definition pb_enc_uvarint :: "pb_field \<Rightarrow> u64 \<Rightarrow> ostream \<Rightarrow> bool \<times> ostream" where
  "pb_enc_uvarint f src = enc_loaded (load_unsigned (fld_data_size f) src) pb_encode_varint"

definition pb_enc_svarint :: "pb_field \<Rightarrow> u64 \<Rightarrow> ostream \<Rightarrow> bool \<times> ostream" where
  "pb_enc_svarint f src = enc_loaded (load_signed (fld_data_size f) src) pb_encode_svarint"

text \<open>A bytes field: \<open>None\<close> is the null pointer.\<close>

definition pb_enc_bytes :: "pb_field \<Rightarrow> u8 list option \<Rightarrow> ostream \<Rightarrow> bool \<times> ostream" where
  "pb_enc_bytes f src s =
     (case src of
        None \<Rightarrow> pb_encode_string [] s
      | Some bytes \<Rightarrow>
          if PB_ATYPE (fld_type f) = PB_ATYPE_STATIC \<and>
             fld_data_size f < PB_BYTES_ARRAY_T_ALLOCSIZE (length bytes)
          then os_error ''bytes size exceeded'' s
          else pb_encode_string bytes s)"

text \<open>The \<open>strnlen\<close> loop over the memory \<open>p\<close>, where the NUL is looked for.\<close>

fun strnlen_loop :: "u8 list \<Rightarrow> nat \<Rightarrow> nat option \<Rightarrow> nat" where
  "strnlen_loop [] n max_size = n"
| "strnlen_loop (c # p) n max_size =
     (if (case max_size of None \<Rightarrow> True | Some m \<Rightarrow> n < m) \<and> c \<noteq> 0
      then strnlen_loop p (n + 1) max_size else n)"

definition pb_enc_string :: "pb_field \<Rightarrow> u8 list option \<Rightarrow> ostream \<Rightarrow> bool \<times> ostream" where
  "pb_enc_string f src s =
     (let max_size = (if PB_ATYPE (fld_type f) = PB_ATYPE_POINTER then None else Some (fld_data_size f))
      in case src of
           None \<Rightarrow> pb_encode_string [] s
         | Some p \<Rightarrow> pb_encode_string (take (strnlen_loop p 0 max_size) p) s)"

definition pb_enc_fixed_length_bytes :: "pb_field \<Rightarrow> u8 list \<Rightarrow> ostream \<Rightarrow> bool \<times> ostream" where
  "pb_enc_fixed_length_bytes f src = pb_encode_string (take (fld_data_size f) src)"

subsection \<open>What an encoder promises\<close>

text \<open>The stream after the bytes were written.\<close>

definition emit :: "u8 list \<Rightarrow> ostream \<Rightarrow> ostream" where
  "emit bs s = s\<lparr>os_out := (if os_sizing s then os_out s else os_out s @ bs),
                 os_written := os_written s + length bs\<rparr>"

definition room :: "ostream \<Rightarrow> nat \<Rightarrow> bool" where
  "room s n \<longleftrightarrow> os_sizing s \<or> os_written s + n \<le> os_max s"

text \<open>
  On a stream without an earlier error the encoder \<open>enc\<close> stands for the bytes \<open>bs\<close>: it appends
  them when there is room and reports an error otherwise.
\<close>

locale encoder =
  fixes enc :: "ostream \<Rightarrow> bool \<times> ostream" and bs :: "u8 list"
  assumes fits: "os_err s = None \<Longrightarrow> room s (length bs) \<Longrightarrow> enc s = (True, emit bs s)"
    and full: "os_err s = None \<Longrightarrow> \<not> room s (length bs) \<Longrightarrow> \<not> fst (enc s) \<and> os_err (snd (enc s)) \<noteq> None"
begin

lemma outcome: "os_err s = None \<Longrightarrow> fst (enc s) \<longleftrightarrow> room s (length bs)"
  using fits[of s] full[of s] by (cases "room s (length bs)") auto

lemma sizing_pass: "enc PB_OSTREAM_SIZING = (True, PB_OSTREAM_SIZING\<lparr>os_written := length bs\<rparr>)"
  using fits[of PB_OSTREAM_SIZING] by (simp add: room_def PB_OSTREAM_SIZING_def emit_def)

lemma sized: "pb_get_encoded_size enc = Some (length bs)"
  by (simp add: pb_get_encoded_size_def sizing_pass)

end

lemma emit_emit: "emit b (emit a s) = emit (a @ b) s"
  by (simp add: emit_def)

lemma emit_err [simp]: "os_err (emit bs s) = os_err s" "os_sizing (emit bs s) = os_sizing s"
  "os_max (emit bs s) = os_max s" "os_written (emit bs s) = os_written s + length bs"
  by (simp_all add: emit_def)

lemma emit_sizing: "os_sizing s \<Longrightarrow> length a = length b \<Longrightarrow> emit a s = emit b s"
  by (simp add: emit_def)

lemma room_emit: "room (emit a s) n \<longleftrightarrow> room s (length a + n)"
  by (simp add: room_def add.assoc)

lemma write_encoder: "encoder (pb_write bs) bs"
  by unfold_locales
    (auto simp: pb_write_def room_def emit_def os_error_def first_error_def split: option.splits)

lemma then_encoder:
  assumes "encoder f a" "encoder g b"
  shows "encoder (os_then f g) (a @ b)"
proof -
  note F = encoder.fits[OF assms(1)] encoder.full[OF assms(1)]
  note G = encoder.fits[OF assms(2)] encoder.full[OF assms(2)]
  show ?thesis
  proof
    fix s :: ostream assume e: "os_err s = None" and r: "room s (length (a @ b))"
    then have "room s (length a)" by (auto simp: room_def)
    then show "os_then f g s = (True, emit (a @ b) s)"
      using F(1)[OF e] G(1)[of "emit a s"] e r by (simp add: os_then_def room_emit emit_emit)
  next
    fix s :: ostream assume e: "os_err s = None" and r: "\<not> room s (length (a @ b))"
    show "\<not> fst (os_then f g s) \<and> os_err (snd (os_then f g s)) \<noteq> None"
    proof (cases "room s (length a)")
      case True
      then show ?thesis using F(1)[OF e] G(2)[of "emit a s"] e r by (simp add: os_then_def room_emit)
    next
      case False
      then show ?thesis using F(2)[OF e False] by (auto simp: os_then_def split: prod.splits bool.splits)
    qed
  qed
qed

subsection \<open>The encoders keep the promise\<close>

definition varint_bytes :: "u64 \<Rightarrow> u8 list" where
  "varint_bytes v =
     (if v \<le> 0x7F then [ucast v]
      else (varint_groups v)[length (varint_groups v) - 1 := last (varint_groups v) AND 0x7F])"

definition zigzag :: "u64 \<Rightarrow> u64" where
  "zigzag v = (if v <s 0 then NOT (push_bit 1 v) else push_bit 1 v)"

definition tag_word :: "wire_type \<Rightarrow> u32 \<Rightarrow> u64" where
  "tag_word wt t = push_bit 3 (ucast t) OR ucast (wt_code wt)"

definition string_bytes :: "u8 list \<Rightarrow> u8 list" where
  "string_bytes b = varint_bytes (of_nat (length b)) @ b"

interpretation venc: encoder "pb_encode_varint v" "varint_bytes v" for v
proof -
  have "pb_encode_varint v = pb_write (varint_bytes v)"
    by (simp add: fun_eq_iff pb_encode_varint_def varint_bytes_def Let_def)
  then show "encoder (pb_encode_varint v) (varint_bytes v)" by (simp add: write_encoder)
qed

interpretation senc: encoder "pb_encode_svarint v" "varint_bytes (zigzag v)" for v
proof -
  have "pb_encode_svarint v = pb_encode_varint (zigzag v)"
    by (simp add: fun_eq_iff pb_encode_svarint_def zigzag_def Let_def)
  then show "encoder (pb_encode_svarint v) (varint_bytes (zigzag v))" by (simp add: venc.encoder_axioms)
qed

interpretation f32enc: encoder "pb_encode_fixed32 v" "fixed32_bytes v" for v
  using write_encoder[of "fixed32_bytes v"] by (simp add: pb_encode_fixed32_def[abs_def])

interpretation f64enc: encoder "pb_encode_fixed64 v" "fixed64_bytes v" for v
  using write_encoder[of "fixed64_bytes v"] by (simp add: pb_encode_fixed64_def[abs_def])

interpretation tagenc: encoder "pb_encode_tag wt t" "varint_bytes (tag_word wt t)" for wt t
proof -
  have "pb_encode_tag wt t = pb_encode_varint (tag_word wt t)"
    by (simp add: fun_eq_iff pb_encode_tag_def tag_word_def Let_def)
  then show "encoder (pb_encode_tag wt t) (varint_bytes (tag_word wt t))" by (simp add: venc.encoder_axioms)
qed

interpretation strenc: encoder "pb_encode_string b" "string_bytes b" for b
  unfolding pb_encode_string_def string_bytes_def
  by (intro then_encoder venc.encoder_axioms write_encoder)

text \<open>
  A submessage is its bytes as a string, whatever message encoder writes them: the size pass
  and the limited substream of the writing pass agree.
\<close>

context encoder
begin

lemma submessage: "encoder (pb_encode_submessage enc) (string_bytes bs)"
proof
  fix s :: ostream assume e: "os_err s = None" and r: "room s (length (string_bytes bs))"
  let ?v = "varint_bytes (of_nat (length bs))"
  have v: "pb_encode_varint (of_nat (length bs)) s = (True, emit ?v s)"
    using r by (intro venc.fits e) (auto simp: string_bytes_def room_def)
  show "pb_encode_submessage enc s = (True, emit (string_bytes bs) s)"
  proof (cases "os_sizing s")
    case True
    then show ?thesis
      using emit_sizing[of "emit ?v s" "replicate (length bs) 0" bs]
      by (simp add: pb_encode_submessage_def sizing_pass v Let_def pb_write_def string_bytes_def emit_def)
  next
    case False
    have "enc \<lparr>os_sizing = False, os_out = os_out (emit ?v s), os_max = length bs, os_written = 0, os_err = None\<rparr>
        = (True, emit bs \<lparr>os_sizing = False, os_out = os_out (emit ?v s), os_max = length bs, os_written = 0, os_err = None\<rparr>)"
      by (rule fits) (simp_all add: room_def)
    with False e r show ?thesis
      by (simp add: pb_encode_submessage_def sizing_pass v Let_def string_bytes_def room_def emit_def)
  qed
next
  fix s :: ostream assume e: "os_err s = None" and r: "\<not> room s (length (string_bytes bs))"
  let ?v = "varint_bytes (of_nat (length bs))"
  show "\<not> fst (pb_encode_submessage enc s) \<and> os_err (snd (pb_encode_submessage enc s)) \<noteq> None"
  proof (cases "room s (length ?v)")
    case True
    then have "pb_encode_varint (of_nat (length bs)) s = (True, emit ?v s)" by (intro venc.fits e)
    with r show ?thesis
      by (simp add: pb_encode_submessage_def sizing_pass Let_def string_bytes_def room_def os_error_def
          first_error_def split: option.split)
  next
    case False
    with venc.full[OF e this] show ?thesis
      by (auto simp: pb_encode_submessage_def sizing_pass Let_def split: prod.split bool.split)
  qed
qed

lemma nullterminated: "encoder (pb_encode_nullterminated enc) (bs @ [0])"
  unfolding pb_encode_nullterminated_def
  by (intro then_encoder write_encoder encoder_axioms)

end

end
