(* ===== verification/Pb_Decode.thy ===== *)
theory Pb_Decode
  imports Pb_Encode
begin

text \<open>
  The decoders of pb_decode.c: varints of 32 and 64 bits, tags, skipping, length-delimited
  substreams, fixed-size integers and the decoders of single fields. The first part shows that
  no decoder reads outside the bytes the stream has left, whatever these bytes are.
\<close>

subsection \<open>Progress of a stream\<close>

text \<open>The buffer has the bytes the stream says are left.\<close>

definition stream_ok :: "istream \<Rightarrow> bool" where
  "stream_ok s \<longleftrightarrow> is_left s \<le> length (is_in s)"

text \<open>\<open>s2\<close> is \<open>s\<close> after consuming some of the bytes it had left.\<close>

definition advanced :: "istream \<Rightarrow> istream \<Rightarrow> bool" where
  "advanced s s2 \<longleftrightarrow>
     (\<exists>k \<le> is_left s. is_left s2 = is_left s - k \<and> is_in s2 = drop k (is_in s))"

named_theorems advancing

lemma advanced_refl [advancing]: "advanced s s"
  unfolding advanced_def by (intro exI[of _ 0]) simp

lemma advanced_trans: "advanced s s2 \<Longrightarrow> advanced s2 s3 \<Longrightarrow> advanced s s3"
  unfolding advanced_def
proof (elim exE conjE)
  fix k l
  assume "k \<le> is_left s" "is_left s2 = is_left s - k" "is_in s2 = drop k (is_in s)"
    "l \<le> is_left s2" "is_left s3 = is_left s2 - l" "is_in s3 = drop l (is_in s2)"
  then show "\<exists>k \<le> is_left s. is_left s3 = is_left s - k \<and> is_in s3 = drop k (is_in s)"
    by (intro exI[of _ "k + l"]) (simp add: add.commute)
qed

lemma advanced_ok: "advanced s s2 \<Longrightarrow> stream_ok s \<Longrightarrow> stream_ok s2 \<and> is_left s2 \<le> is_left s"
  unfolding advanced_def stream_ok_def by auto

lemma advanced_err [advancing]: "advanced s s2 \<Longrightarrow> advanced s (s2\<lparr>is_err := e\<rparr>)"
  by (simp add: advanced_def)

lemma snd_error [simp]: "snd (is_error msg s) = s\<lparr>is_err := first_error msg (is_err s)\<rparr>"
  by (simp add: is_error_def)

lemma advanced_error [advancing]: "advanced s (snd (is_error msg s))"
  by (simp add: advanced_err advanced_refl)

lemma read_advanced [advancing]: "advanced s (snd (pb_read n s))"
  unfolding pb_read_def buf_read_def is_error_def advanced_def
  by (cases "is_left s < n") (auto intro: exI[of _ 0] exI[of _ n])

lemma readbyte_advanced [advancing]: "advanced s (snd (pb_readbyte s))"
  unfolding pb_readbyte_def buf_read_def is_error_def advanced_def
  by (cases "is_left s = 0") (auto intro: exI[of _ 0] exI[of _ 1])

lemma readbyte_left: "pb_readbyte s = (Some b, s2) \<Longrightarrow> is_left s2 < is_left s"
  by (auto simp: pb_readbyte_def buf_read_def is_error_def split: if_splits)

lemma read1_left: "pb_read 1 s = (Some b, s2) \<Longrightarrow> is_left s2 < is_left s"
  by (auto simp: pb_read_def buf_read_def is_error_def split: if_splits)

subsection \<open>Varints\<close>

text \<open>
  The multibyte case of \<open>pb_decode_varint32_eof\<close>. \<open>bitpos\<close> is a \<open>uint_fast8_t\<close>, eight bits wide,
  and wraps. The result is the value with the final \<open>bitpos\<close> and the last byte.
\<close>

function varint32_loop :: "u32 \<Rightarrow> u8 \<Rightarrow> (u32 \<times> u8 \<times> u8) reader" where
  "varint32_loop result bitpos s =
     (case pb_readbyte s of
        (None, s) \<Rightarrow> (None, s)
      | (Some byte, s) \<Rightarrow>
          (let sign_extension = (if bitpos < 63 then 0xFF else 0x01) in
           if 32 \<le> bitpos \<and> byte AND 0x7F \<noteq> 0x00 \<and>
              (drop_bit 31 result = 0 \<or> byte \<noteq> sign_extension)
           then is_error ''varint overflow'' s
           else (let result = (if 32 \<le> bitpos then result
                               else result OR push_bit (unat bitpos) (ucast (byte AND 0x7F)));
                     bitpos = bitpos + 7
             in if byte AND 0x80 \<noteq> 0 then varint32_loop result bitpos s
                else (Some (result, bitpos, byte), s))))"
  by pat_completeness auto
termination
  by (relation "measure (\<lambda>(r, b, s). is_left s)") (auto dest: readbyte_left[OF sym])

declare varint32_loop.simps [simp del]

text \<open>The middle component is the flag \<open>eof\<close>, set when there is no byte at all.\<close>

definition pb_decode_varint32_eof :: "istream \<Rightarrow> u32 option \<times> bool \<times> istream" where
  "pb_decode_varint32_eof s =
     (case pb_readbyte s of
        (None, s) \<Rightarrow> (None, is_left s = 0, s)
      | (Some byte, s) \<Rightarrow>
          if byte AND 0x80 = 0 then (Some (ucast byte), False, s)
          else (case varint32_loop (ucast (byte AND 0x7F)) 7 s of
              (None, s) \<Rightarrow> (None, False, s)
            | (Some (result, bitpos, byte), s) \<Rightarrow>
                if bitpos = 35 \<and> byte AND 0x70 \<noteq> 0
                then (case is_error ''varint overflow'' s of (r, s) \<Rightarrow> (r, False, s))
                else (Some result, False, s)))"

definition pb_decode_varint32 :: "u32 reader" where
  "pb_decode_varint32 s = (case pb_decode_varint32_eof s of (r, eof, s) \<Rightarrow> (r, s))"

function varint64_loop :: "u64 \<Rightarrow> u8 \<Rightarrow> u64 reader" where
  "varint64_loop result bitpos s =
     (if 64 \<le> bitpos then is_error ''varint overflow'' s
      else (case pb_readbyte s of
          (None, s) \<Rightarrow> (None, s)
        | (Some byte, s) \<Rightarrow>
            (let result = result OR push_bit (unat bitpos) (ucast (byte AND 0x7F)); bitpos = bitpos + 7
             in if byte AND 0x80 \<noteq> 0 then varint64_loop result bitpos s else (Some result, s))))"
  by pat_completeness auto
termination
  by (relation "measure (\<lambda>(r, b, s). is_left s)") (auto dest: readbyte_left[OF sym])

declare varint64_loop.simps [simp del]

definition pb_decode_varint :: "u64 reader" where
  "pb_decode_varint = varint64_loop 0 0"

subsection \<open>Tags and skipping\<close>

function pb_skip_varint :: "unit reader" where
  "pb_skip_varint s =
     (case pb_read 1 s of
        (None, s) \<Rightarrow> (None, s)
      | (Some byte, s) \<Rightarrow> if hd byte AND 0x80 \<noteq> 0 then pb_skip_varint s else (Some (), s))"
  by pat_completeness auto
termination
  by (relation "measure is_left") (auto dest: read1_left[simplified, OF sym])

declare pb_skip_varint.simps [simp del]

definition pb_skip_bytes :: "nat \<Rightarrow> unit reader" where
  "pb_skip_bytes n = is_bind (pb_read n) (\<lambda>b. is_return ())"

definition pb_skip_string :: "unit reader" where
  "pb_skip_string = is_bind pb_decode_varint32 (\<lambda>n. pb_skip_bytes (unat n))"

definition pb_decode_tag :: "istream \<Rightarrow> (wire_type \<times> u32) option \<times> bool \<times> istream" where
  "pb_decode_tag s =
     (case pb_decode_varint32_eof s of
        (None, eof, s) \<Rightarrow> (None, eof, s)
      | (Some temp, eof, s) \<Rightarrow>
          if temp = 0 then (None, True, s)
          else (Some (wt_of (ucast (temp AND 7)), drop_bit 3 temp), False, s))"

definition pb_skip_field :: "wire_type \<Rightarrow> unit reader" where
  "pb_skip_field wt =
     (case wt of
        PB_WT_VARINT \<Rightarrow> pb_skip_varint
      | PB_WT_64BIT \<Rightarrow> pb_skip_bytes 8
      | PB_WT_STRING \<Rightarrow> pb_skip_string
      | PB_WT_32BIT \<Rightarrow> pb_skip_bytes 4
      | PB_WT_other n \<Rightarrow> is_error ''invalid wire_type'')"

text \<open>A varint longer than the buffer is a failure without a message.\<close>

fun raw_varint :: "nat \<Rightarrow> u8 list reader" where
  "raw_varint 0 s = (None, s)"
| "raw_varint (Suc k) s =
     (case pb_read 1 s of
        (None, s) \<Rightarrow> (None, s)
      | (Some byte, s) \<Rightarrow>
          if hd byte AND 0x80 \<noteq> 0
          then (case raw_varint k s of (None, s) \<Rightarrow> (None, s) | (Some bs, s) \<Rightarrow> (Some (byte @ bs), s))
          else (Some byte, s))"

definition read_raw_value :: "wire_type \<Rightarrow> nat \<Rightarrow> u8 list reader" where
  "read_raw_value wt max_size =
     (case wt of
        PB_WT_VARINT \<Rightarrow> raw_varint max_size
      | PB_WT_64BIT \<Rightarrow> pb_read 8
      | PB_WT_32BIT \<Rightarrow> pb_read 4
      | _ \<Rightarrow> is_error ''invalid wire_type'')"

subsection \<open>Substreams\<close>

definition pb_make_string_substream :: "istream reader" where
  "pb_make_string_substream =
     is_bind pb_decode_varint32 (\<lambda>n s.
       if is_left s < unat n then is_error ''parent stream too short'' s
       else (Some (s\<lparr>is_left := unat n\<rparr>), s\<lparr>is_left := is_left s - unat n\<rparr>))"

definition pb_close_string_substream :: "istream \<Rightarrow> istream \<Rightarrow> bool \<times> istream" where
  "pb_close_string_substream s sub =
     (if is_left sub \<noteq> 0
      then (case pb_read (is_left sub) sub of
          (None, sub) \<Rightarrow> (False, s)
        | (Some b, sub) \<Rightarrow> (True, s\<lparr>is_in := is_in sub, is_err := is_err sub\<rparr>))
      else (True, s\<lparr>is_in := is_in sub, is_err := is_err sub\<rparr>))"

text \<open>
  A length-delimited message: \<open>dec\<close> is the call \<open>pb_decode(_, fields, dest_struct)\<close> or
  \<open>pb_decode_noinit\<close> on the substream, with the message it builds as its result.
\<close>

definition pb_decode_delimited :: "'a reader \<Rightarrow> 'a reader" where
  "pb_decode_delimited dec s =
     (case pb_make_string_substream s of
        (None, s) \<Rightarrow> (None, s)
      | (Some sub, s) \<Rightarrow>
          (case dec sub of
             (status, sub) \<Rightarrow>
               (case pb_close_string_substream s sub of
                  (False, s) \<Rightarrow> (None, s)
                | (True, s) \<Rightarrow> (status, s))))"

subsection \<open>Integers\<close>

definition pb_decode_svarint :: "u64 reader" where
  "pb_decode_svarint =
     is_bind pb_decode_varint (\<lambda>value.
       is_return (if value AND 1 \<noteq> 0 then NOT (drop_bit 1 value) else drop_bit 1 value))"

definition pb_decode_fixed32 :: "u32 reader" where
  "pb_decode_fixed32 =
     is_bind (pb_read 4) (\<lambda>bytes. is_return
       (ucast (bytes ! 0) OR push_bit 8 (ucast (bytes ! 1)) OR push_bit 16 (ucast (bytes ! 2)) OR
        push_bit 24 (ucast (bytes ! 3))))"

definition pb_decode_fixed64 :: "u64 reader" where
  "pb_decode_fixed64 =
     is_bind (pb_read 8) (\<lambda>bytes. is_return
       (ucast (bytes ! 0) OR push_bit 8 (ucast (bytes ! 1)) OR push_bit 16 (ucast (bytes ! 2)) OR
        push_bit 24 (ucast (bytes ! 3)) OR push_bit 32 (ucast (bytes ! 4)) OR
        push_bit 40 (ucast (bytes ! 5)) OR push_bit 48 (ucast (bytes ! 6)) OR
        push_bit 56 (ucast (bytes ! 7))))"

subsection \<open>Fields\<close>

text \<open>
  Storing an integer in a field of \<open>data_size\<close> bytes and reading it back, as the decoders do to
  detect overflow; \<open>None\<close> for a size no integer type has.
\<close>

definition store :: "nat \<Rightarrow> u64 \<Rightarrow> u64" where
  "store data_size v = take_bit (8 * data_size) v"

definition dec_stored :: "nat \<Rightarrow> (nat \<Rightarrow> u64 \<Rightarrow> u64 option) \<Rightarrow> u64 \<Rightarrow> u64 reader" where
  "dec_stored data_size load v =
     (case load data_size v of
        None \<Rightarrow> is_error ''invalid data_size''
      | Some clamped \<Rightarrow>
          if clamped \<noteq> v then is_error ''integer too large'' else is_return (store data_size v))"

text \<open>Fields of at most 32 bits take the value through \<open>int32_t\<close> first.\<close>

definition pb_dec_varint :: "pb_field \<Rightarrow> u64 reader" where
  "pb_dec_varint f =
     is_bind pb_decode_varint (\<lambda>value.
       let svalue = (if fld_data_size f = 8 then value else scast (ucast value :: u32))
       in dec_stored (fld_data_size f) load_signed svalue)"

definition pb_dec_uvarint :: "pb_field \<Rightarrow> u64 reader" where
  "pb_dec_uvarint f =
     is_bind pb_decode_varint (\<lambda>value. dec_stored (fld_data_size f) load_unsigned value)"

definition pb_dec_svarint :: "pb_field \<Rightarrow> u64 reader" where
  "pb_dec_svarint f =
     is_bind pb_decode_svarint (\<lambda>value. dec_stored (fld_data_size f) load_signed value)"

text \<open>
  \<open>allocate_field\<close> checks the product of the sizes against \<open>size_t\<close> and reallocates; the script
  \<open>m\<close> says whether the allocation succeeds.
\<close>

definition allocate_field :: "nat \<Rightarrow> nat \<Rightarrow> oom \<Rightarrow> unit reader" where
  "allocate_field data_size array_size m =
     (if data_size = 0 \<or> array_size = 0 then is_error ''invalid size''
      else if (2 ^ 32 \<le> data_size \<or> 2 ^ 32 \<le> array_size) \<and> (2 ^ 64 - 1) div array_size < data_size
      then is_error ''size too large''
      else if \<not> fst (malloc_step m) then is_error ''realloc failed''
      else is_return ())"

definition pb_dec_bytes :: "pb_field \<Rightarrow> oom \<Rightarrow> u8 list reader" where
  "pb_dec_bytes f m =
     is_bind pb_decode_varint32 (\<lambda>n.
       let alloc_size = PB_BYTES_ARRAY_T_ALLOCSIZE (unat n)
       in is_bind
            (if PB_ATYPE (fld_type f) = PB_ATYPE_POINTER then allocate_field alloc_size 1 m
             else if fld_data_size f < alloc_size then is_error ''bytes overflow''
             else is_return ())
            (\<lambda>_. pb_read (unat n)))"

text \<open>
  The sum of the size and the NUL is a 32-bit one, whose wrap-around is checked. The NUL is
  stored behind the bytes.
\<close>

definition pb_dec_string :: "pb_field \<Rightarrow> oom \<Rightarrow> u8 list reader" where
  "pb_dec_string f m =
     is_bind pb_decode_varint32 (\<lambda>n.
       let alloc_size = unat (n + 1)
       in if alloc_size < unat n then is_error ''size too large''
          else is_bind
            (if PB_ATYPE (fld_type f) = PB_ATYPE_POINTER then allocate_field alloc_size 1 m
             else if fld_data_size f < alloc_size then is_error ''string overflow''
             else is_return ())
            (\<lambda>_. is_bind (pb_read (unat n)) (\<lambda>b. is_return (b @ [0]))))"

definition pb_dec_fixed_length_bytes :: "pb_field \<Rightarrow> u8 list reader" where
  "pb_dec_fixed_length_bytes f =
     is_bind pb_decode_varint32 (\<lambda>n.
       if n = 0 then is_return (replicate (fld_data_size f) 0)
       else if unat n \<noteq> fld_data_size f then is_error ''incorrect fixed length bytes size''
       else pb_read (fld_data_size f))"

subsection \<open>No decoder reads outside its stream\<close>

lemma advanced_bind [advancing]:
  fixes f :: "'a reader" and g :: "'a \<Rightarrow> 'b reader"
  assumes "\<And>s. advanced s (snd (f s))" "\<And>x s. advanced s (snd (g x s))"
  shows "advanced s (snd (is_bind f g s))"
proof (cases "f s")
  case (Pair x s2)
  with assms(1)[of s] have "advanced s s2" by simp
  with Pair show ?thesis
    using assms(2)[of s2] advanced_trans by (cases x) (auto simp: is_bind_def)
qed

lemma advanced_return [advancing]: "advanced s (snd (is_return x s))"
  by (simp add: is_return_def advanced_refl)

lemma varint32_loop_advanced: "advanced s (snd (varint32_loop r b s))"
proof (induction r b s rule: varint32_loop.induct)
  case (1 r b s)
  show ?case
  proof (cases "pb_readbyte s")
    case (Pair x s2)
    with readbyte_advanced[of s] have a: "advanced s s2" by simp
    show ?thesis
    proof (cases x)
      case None
      with Pair a show ?thesis by (subst varint32_loop.simps) simp
    next
      case (Some byte)
      note IH = 1[OF Pair[symmetric] Some refl]
      show ?thesis
        using a Pair Some IH advanced_trans[OF a] advanced_err[OF a]
        by (subst varint32_loop.simps) (auto simp: Let_def)
    qed
  qed
qed

lemma varint64_loop_advanced: "advanced s (snd (varint64_loop r b s))"
proof (induction r b s rule: varint64_loop.induct)
  case (1 r b s)
  show ?case
  proof (cases "pb_readbyte s")
    case (Pair x s2)
    with readbyte_advanced[of s] have a: "advanced s s2" by simp
    then show ?thesis
      using Pair 1 advanced_trans[OF a] advanced_err[OF advanced_refl]
      by (subst varint64_loop.simps) (cases x; auto simp: Let_def)
  qed
qed

lemma varint32_eof_advanced: "advanced s (snd (snd (pb_decode_varint32_eof s)))"
proof (cases "pb_readbyte s")
  case (Pair x s2)
  with readbyte_advanced[of s] have a: "advanced s s2" by simp
  show ?thesis
  proof (cases x)
    case None
    with Pair a show ?thesis by (simp add: pb_decode_varint32_eof_def)
  next
    case (Some byte)
    obtain y s3 where l: "varint32_loop (ucast (byte AND 0x7F)) 7 s2 = (y, s3)" by fastforce
    with varint32_loop_advanced[of s2 "ucast (byte AND 0x7F)" 7] have "advanced s2 s3" by simp
    then have "advanced s s3" using a advanced_trans by blast
    with Pair Some a l show ?thesis
      by (auto simp: pb_decode_varint32_eof_def is_error_def advanced_err split: option.split prod.split)
  qed
qed

lemma varint32_advanced [advancing]: "advanced s (snd (pb_decode_varint32 s))"
  using varint32_eof_advanced[of s] by (simp add: pb_decode_varint32_def case_prod_unfold)

lemma varint_advanced [advancing]: "advanced s (snd (pb_decode_varint s))"
  by (simp add: pb_decode_varint_def varint64_loop_advanced)

lemma tag_advanced: "advanced s (snd (snd (pb_decode_tag s)))"
  using varint32_eof_advanced[of s] by (auto simp: pb_decode_tag_def split: option.split prod.split)

lemma skip_varint_advanced [advancing]: "advanced s (snd (pb_skip_varint s))"
proof (induction s rule: pb_skip_varint.induct)
  case (1 s)
  show ?case
  proof (cases "pb_read 1 s")
    case (Pair x s2)
    with read_advanced[of s 1] have a: "advanced s s2" by simp
    then show ?thesis
      using Pair 1 advanced_trans[OF a] by (subst pb_skip_varint.simps) (cases x; auto)
  qed
qed

lemma raw_varint_advanced [advancing]: "advanced s (snd (raw_varint k s))"
proof (induction k arbitrary: s)
  case (Suc k)
  show ?case
  proof (cases "pb_read 1 s")
    case (Pair x s2)
    with read_advanced[of s 1] have a: "advanced s s2" by simp
    with Pair Suc[of s2] advanced_trans[OF a] show ?thesis
      by (auto split: option.split prod.split)
  qed
qed (simp add: advanced_refl)

lemma skip_bytes_advanced [advancing]: "advanced s (snd (pb_skip_bytes n s))"
  unfolding pb_skip_bytes_def by (intro advancing)

lemma skip_string_advanced [advancing]: "advanced s (snd (pb_skip_string s))"
  unfolding pb_skip_string_def by (intro advancing)

lemma skip_field_advanced [advancing]: "advanced s (snd (pb_skip_field wt s))"
  unfolding pb_skip_field_def by (cases wt) (simp_all add: advancing del: snd_error)

lemma raw_value_advanced [advancing]: "advanced s (snd (read_raw_value wt n s))"
  unfolding read_raw_value_def by (cases wt) (simp_all add: advancing del: snd_error)

lemma dec_stored_advanced [advancing]: "advanced s (snd (dec_stored n load v s))"
  unfolding dec_stored_def by (auto simp: advancing simp del: snd_error split: option.split)

lemma allocate_advanced [advancing]: "advanced s (snd (allocate_field a b m s))"
  unfolding allocate_field_def by (simp add: advancing del: snd_error)

lemma if_advanced [advancing]:
  "advanced s (snd (f s)) \<Longrightarrow> advanced s (snd (g s)) \<Longrightarrow> advanced s (snd ((if c then f else g) s))"
  by simp

text \<open>
  A length-delimited message leaves the stream after its bytes, if its decoder stays within the
  substream it is given.
\<close>

lemma delimited_advanced:
  assumes "\<And>s. advanced s (snd (dec s))"
  shows "advanced s (snd (pb_decode_delimited dec s))"
proof -
  obtain n s2 where v: "pb_decode_varint32 s = (n, s2)" by fastforce
  with varint32_advanced[of s] have a: "advanced s s2" by simp
  have make: "pb_make_string_substream s =
      (case n of None \<Rightarrow> (None, s2) | Some n \<Rightarrow>
         if is_left s2 < unat n then is_error ''parent stream too short'' s2
         else (Some (s2\<lparr>is_left := unat n\<rparr>), s2\<lparr>is_left := is_left s2 - unat n\<rparr>))"
    by (cases n) (simp_all add: pb_make_string_substream_def is_bind_def v)
  show ?thesis
  proof (cases "n = None \<or> is_left s2 < unat (the n)")
    case True
    with a show ?thesis
      by (cases n) (auto simp: pb_decode_delimited_def make is_error_def advanced_err)
  next
    case False
    then obtain m where m: "n = Some m" "unat m \<le> is_left s2" by auto
    obtain st sub where d: "dec (s2\<lparr>is_left := unat m\<rparr>) = (st, sub)" by fastforce
    with assms[of "s2\<lparr>is_left := unat m\<rparr>"] obtain k where
      k: "k \<le> unat m" "is_left sub = unat m - k" "is_in sub = drop k (is_in s2)"
      by (auto simp: advanced_def)
    have "advanced s2 (snd (pb_decode_delimited dec s))"
      unfolding advanced_def
      by (rule exI[of _ "unat m"])
        (use m k d in \<open>auto simp: pb_decode_delimited_def make pb_close_string_substream_def pb_read_def
          buf_read_def add.commute\<close>)
    with a advanced_trans show ?thesis by blast
  qed
qed

text \<open>
  C26: memory safety of decoding. On a stream over a buffer, every decoder of the wire format,
  on any bytes whatever, leaves the stream at a later point of the same buffer, having consumed
  no more bytes than the stream had left: no decoder reads outside its buffer or its substream.
\<close>

theorem decoders_stay_inside:
  "list_all (\<lambda>s2. advanced s s2 \<and> (stream_ok s \<longrightarrow> stream_ok s2 \<and> is_left s2 \<le> is_left s))
     [snd (pb_decode_varint32 s), snd (pb_decode_varint s), snd (pb_decode_svarint s),
      snd (pb_decode_fixed32 s), snd (pb_decode_fixed64 s), snd (snd (pb_decode_tag s)),
      snd (pb_skip_field wt s), snd (read_raw_value wt n s),
      snd (pb_dec_varint f s), snd (pb_dec_uvarint f s), snd (pb_dec_svarint f s),
      snd (pb_dec_bytes f m s), snd (pb_dec_string f m s), snd (pb_dec_fixed_length_bytes f s),
      snd (pb_decode_delimited (pb_dec_bytes f m) s)]"
proof -
  have bytes: "advanced s (snd (pb_dec_bytes f m s))" for s
    unfolding pb_dec_bytes_def Let_def by (intro advancing)
  have "advanced s (snd (pb_decode_svarint s))" "advanced s (snd (pb_decode_fixed32 s))"
    "advanced s (snd (pb_decode_fixed64 s))" "advanced s (snd (pb_dec_varint f s))"
    "advanced s (snd (pb_dec_uvarint f s))" "advanced s (snd (pb_dec_svarint f s))"
    "advanced s (snd (pb_dec_string f m s))" "advanced s (snd (pb_dec_fixed_length_bytes f s))"
    unfolding pb_decode_svarint_def pb_decode_fixed32_def pb_decode_fixed64_def pb_dec_varint_def
      pb_dec_uvarint_def pb_dec_svarint_def pb_dec_string_def pb_dec_fixed_length_bytes_def Let_def
    by (intro advancing)+
  moreover have "advanced s s2 \<and> (stream_ok s \<longrightarrow> stream_ok s2 \<and> is_left s2 \<le> is_left s) \<longleftrightarrow> advanced s s2"
    for s2 using advanced_ok by blast
  ultimately show ?thesis
    using bytes[of s] tag_advanced[of s] delimited_advanced[OF bytes, of s]
    by (simp add: advancing del: snd_error)
qed

lemma decoders_stay_inside_witness:
  "is_left (snd (pb_decode_varint (pb_istream_from_buffer [0x80, 0x80]))) \<le> 2"
proof -
  let ?s = "pb_istream_from_buffer [0x80, 0x80]"
  have "stream_ok ?s" by (simp add: stream_ok_def pb_istream_from_buffer_def)
  with decoders_stay_inside[of ?s PB_WT_VARINT 0 "\<lparr>fld_tag = 1, fld_type = 0, fld_data_size = 4\<rparr>" "[]"]
  have "is_left (snd (pb_decode_varint ?s)) \<le> is_left ?s" by simp
  then show ?thesis by (simp add: pb_istream_from_buffer_def)
qed

end
