(* ===== verification/Pb_Roundtrip.thy ===== *)
theory Pb_Roundtrip
  imports Pb_Decode
begin

text \<open>
  Encoding and decoding undo each other: varints of both widths, zigzag and fixed-size integers,
  single fields, and whole sequences of tagged fields, which can also be skipped one by one.
\<close>

subsection \<open>Streams with bytes ahead\<close>

text \<open>The stream \<open>s\<close> with the bytes \<open>bs\<close> in front.\<close>

definition ahead :: "u8 list \<Rightarrow> istream \<Rightarrow> istream" where
  "ahead bs s = s\<lparr>is_in := bs @ is_in s, is_left := length bs + is_left s\<rparr>"

definition decodes :: "'a reader \<Rightarrow> u8 list \<Rightarrow> 'a \<Rightarrow> bool" where
  "decodes r bs x \<longleftrightarrow> (\<forall>s. r (ahead bs s) = (Some x, s))"

lemma decodesD: "decodes r bs x \<Longrightarrow> r (ahead bs s) = (Some x, s)"
  by (simp add: decodes_def)

lemma ahead_Nil [simp]: "ahead [] s = s"
  by (simp add: ahead_def)

lemma ahead_append: "ahead (a @ b) s = ahead a (ahead b s)"
  by (simp add: ahead_def)

lemma readbyte_ahead [simp]: "pb_readbyte (ahead (b # bs) s) = (Some b, ahead bs s)"
  by (simp add: pb_readbyte_def ahead_def buf_read_def)

lemma decodes_read: "decodes (pb_read (length bs)) bs bs"
  by (simp add: decodes_def pb_read_def ahead_def buf_read_def)

lemma decodes_bind: "decodes f a x \<Longrightarrow> decodes (g x) b y \<Longrightarrow> decodes (is_bind f g) (a @ b) y"
  by (simp add: decodes_def is_bind_def ahead_append)

lemma decodes_map: "decodes f a x \<Longrightarrow> decodes (is_bind f (\<lambda>x. is_return (h x))) a (h x)"
  by (simp add: decodes_def is_bind_def is_return_def)

subsection \<open>Varints\<close>

lemma groups_nonempty: "v \<noteq> 0 \<Longrightarrow> varint_groups v \<noteq> []"
  by (simp add: varint_groups.simps[of v])

lemma drop7_0: "drop_bit 7 v = 0 \<longleftrightarrow> v \<le> 0x7F" for v :: u64
proof -
  have "unat (drop_bit 7 v) = 0 \<longleftrightarrow> unat v < 128" by (simp add: unat_drop_bit div_eq_0_iff)
  then show ?thesis by (auto simp: word_le_nat_alt unat_eq_0)
qed

lemma small_u64:
  fixes v :: u64
  assumes "v \<le> 0x7F" "7 \<le> n"
  shows "\<not> bit v n"
proof -
  obtain k where n: "n = 7 + k" using assms(2) by (auto simp: le_iff_add)
  have "bit v (7 + k) = bit (drop_bit 7 v) k" by (simp only: bit_drop_bit_eq o_apply)
  then show ?thesis using assms(1) by (simp add: n drop7_0[THEN iffD2])
qed

lemma last_group:
  "v \<le> 0x7F \<Longrightarrow> (ucast (v AND 0x7F) OR 0x80) AND 0x7F = (ucast v :: u8)" for v :: u64
  using small_u64[of v 7] by (intro u8_eqI) (simp add: bit_simps)

lemma varint_bytes_rec:
  "varint_bytes v =
     (if v \<le> 0x7F then [ucast v] else (ucast (v AND 0x7F) OR 0x80) # varint_bytes (drop_bit 7 v))"
proof (cases "v \<le> 0x7F")
  case False
  let ?w = "drop_bit 7 v"
  have v: "v \<noteq> 0" using False by auto
  have w: "?w \<noteq> 0" using False by (simp add: drop7_0)
  have g: "varint_groups v = (ucast (v AND 0x7F) OR 0x80) # varint_groups ?w"
    using v by (simp add: varint_groups.simps[of v])
  have "varint_bytes ?w =
      (varint_groups ?w)[length (varint_groups ?w) - 1 := last (varint_groups ?w) AND 0x7F]"
  proof (cases "?w \<le> 0x7F")
    case True
    then have "varint_groups ?w = [ucast (?w AND 0x7F) OR 0x80]"
      using w drop7_0[of ?w] by (simp add: varint_groups.simps[of ?w] varint_groups.simps[of 0])
    with True show ?thesis by (simp add: varint_bytes_def last_group)
  next
    case nle: False
    then show ?thesis by (simp add: varint_bytes_def)
  qed
  with False g groups_nonempty[OF w] show ?thesis
    by (cases "varint_groups ?w") (simp_all add: varint_bytes_def)
qed (simp add: varint_bytes_def)

text \<open>The bytes of a varint: the low seven bits and whether another byte follows.\<close>

lemma group_high: "(ucast (v AND 0x7F) OR 0x80 :: u8) AND 0x80 \<noteq> 0" for v :: u64
  by (simp add: and_0x80 bit_simps)

lemma last_low: "v \<le> 0x7F \<Longrightarrow> (ucast v :: u8) AND 0x80 = 0" for v :: u64
  using small_u64[of v 7] by (simp add: and_0x80 bit_simps)

lemma group_low: "ucast ((ucast (v AND 0x7F) OR 0x80 :: u8) AND 0x7F) = (take_bit 7 (ucast v) :: 'a::len word)"
  for v :: u64
  by (rule bit_word_eqI) (auto simp: bit_simps and_0x7f)

lemma last_low7: "v \<le> 0x7F \<Longrightarrow> ucast ((ucast v :: u8) AND 0x7F) = (take_bit 7 (ucast v) :: 'a::len word)" for v :: u64
  by (rule bit_word_eqI) (auto simp: bit_simps and_0x7f)

lemma more_groups:
  fixes v :: u64
  assumes "\<not> v \<le> 0x7F"
  obtains c where "varint_bytes v = c # varint_bytes (drop_bit 7 v)" "c AND 0x80 \<noteq> 0"
    "ucast (c AND 0x7F) = (take_bit 7 (ucast v) :: 'a::len word)" "c = ucast (v AND 0x7F) OR 0x80"
  using that[OF _ group_high group_low] varint_bytes_rec[of v] assms by simp

lemma join7: "take_bit n v OR push_bit n (take_bit 7 (drop_bit n v)) = take_bit (n + 7) v" for v :: "'a::len word"
  by (rule bit_word_eqI) (auto simp: bit_simps)

lemma drop_more: "drop_bit 7 (drop_bit n v) = drop_bit (n + 7) v" for v :: "'a::len word"
  by (simp add: add.commute)

lemma nonzero_drop: "drop_bit n v \<noteq> 0 \<Longrightarrow> n < 64" for v :: u64
  by (rule ccontr) (auto simp: bit_eq_iff bit_simps dest: bit_imp_le_length)

lemma take_all: "drop_bit n v = 0 \<Longrightarrow> take_bit n v = v" for v :: u64
  by (simp add: take_bit_eq_self_iff_drop_bit_eq_0)

lemma byte_of_nat: "n < 256 \<Longrightarrow> unat (of_nat n :: u8) = n"
  by (simp add: unat_of_nat take_bit_nat_eq_self)

lemma varint64_loop_bytes:
  "7 * k < 64 \<Longrightarrow>
     varint64_loop (take_bit (7 * k) v) (of_nat (7 * k)) (ahead (varint_bytes (drop_bit (7 * k) v)) s) = (Some v, s)"
proof (induction "10 - k" arbitrary: k)
  case 0
  then show ?case by simp
next
  case (Suc n)
  let ?w = "drop_bit (7 * k) v"
  have b: "unat (of_nat (7 * k) :: u8) = 7 * k" "\<not> (64 :: u8) \<le> of_nat (7 * k)"
    using Suc(3) byte_of_nat[of "7 * k"] by (simp_all add: word_le_nat_alt)
  have next_pos: "(of_nat (7 * k) + 7 :: u8) = of_nat (7 * (k + 1))" by simp
  have join: "take_bit (7 * k) v OR push_bit (7 * k) (take_bit 7 ?w) = take_bit (7 * (k + 1)) v"
    using join7[of "7 * k" v] by (simp add: add.commute)
  show ?case
  proof (cases "?w \<le> 0x7F")
    case True
    then have "drop_bit (7 * (k + 1)) v = 0" using drop7_0[of ?w] drop_more[of "7 * k" v] by simp
    then have "take_bit (7 * (k + 1)) v = v" by (rule take_all)
    with True b join show ?thesis
      by (subst varint64_loop.simps)
        (simp add: varint_bytes_rec[of ?w] Let_def last_low last_low7 del: bit_drop_bit_eq)
  next
    case False
    then have "drop_bit (7 * (k + 1)) v \<noteq> 0" using drop7_0[of ?w] drop_more[of "7 * k" v] by simp
    then have "7 * (k + 1) < 64" by (rule nonzero_drop)
    then have IH: "varint64_loop (take_bit (7 * (k + 1)) v) (of_nat (7 * (k + 1)))
        (ahead (varint_bytes (drop_bit (7 * (k + 1)) v)) s) = (Some v, s)"
      using Suc(2) by (intro Suc(1)) simp_all
    have d: "drop_bit 7 ?w = drop_bit (7 * (k + 1)) v" by (simp add: add.commute)
    obtain c where c: "varint_bytes ?w = c # varint_bytes (drop_bit (7 * (k + 1)) v)"
        "c AND 0x80 \<noteq> 0" "ucast (c AND 0x7F) = take_bit 7 ?w"
      by (rule more_groups[where 'a = 64, OF False]) (simp only: d ucast_id, rule that)
    show ?thesis
      by (subst varint64_loop.simps)
        (simp only: c readbyte_ahead b if_False prod.case option.case Let_def next_pos join if_True not_False_eq_True IH simp_thms)
  qed
qed

lemma varint64_decodes: "decodes pb_decode_varint (varint_bytes v) v"
  using varint64_loop_bytes[of 0 v] by (simp add: decodes_def pb_decode_varint_def)

text \<open>
  \<open>extends x v\<close>: the 64-bit \<open>v\<close> continues the 32-bit \<open>x\<close> with zeros, or with ones when the top
  bit of \<open>x\<close> is set, which is how negative numbers are sent.
\<close>

definition extends :: "u32 \<Rightarrow> u64 \<Rightarrow> bool" where
  "extends x v \<longleftrightarrow> v = ucast x \<or> bit x 31 \<and> v = scast x"

lemma extends_bits:
  assumes "extends x v"
  obtains g where "\<And>n. n < 64 \<Longrightarrow> bit v n \<longleftrightarrow> (if n < 32 then bit x n else g)" "g \<longrightarrow> bit x 31"
  using assms unfolding extends_def
proof (elim disjE conjE)
  assume "v = ucast x"
  then have "\<And>n. n < 64 \<Longrightarrow> bit v n \<longleftrightarrow> (if n < 32 then bit x n else False)"
    by (auto simp: bit_simps dest: bit_imp_le_length)
  then show thesis using that[of False] by blast
next
  assume "bit x 31" "v = scast x"
  then have "\<And>n. n < 64 \<Longrightarrow> bit v n \<longleftrightarrow> (if n < 32 then bit x n else True)"
    by (auto simp: bit_simps min_def not_less le_less_Suc_eq[of 31, simplified])
  then show thesis using that[of True] \<open>bit x 31\<close> by blast
qed

text \<open>The loop on the groups of \<open>v\<close> from the \<open>k\<close>-th on, when the bits of \<open>v\<close> are those of \<open>x\<close>, then \<open>g\<close>.\<close>

lemma w_bits:
  fixes v :: u64
  assumes "\<And>n. n < 64 \<Longrightarrow> bit v n \<longleftrightarrow> (if n < 32 then bit x n else g)"
  shows "take_bit m x OR push_bit m (take_bit 7 (ucast (drop_bit m v))) = take_bit (m + 7) (x :: u32)"
  using assms by (intro bit_word_eqI) (auto simp: bit_simps)

lemma all_of_x:
  fixes v :: u64 and x :: u32
  assumes "\<And>n. n < 64 \<Longrightarrow> bit v n \<longleftrightarrow> (if n < 32 then bit x n else g)" "drop_bit m v = 0"
  shows "take_bit m x = x"
proof (rule bit_word_eqI)
  fix n assume n: "n < LENGTH(32)"
  show "bit (take_bit m x) n = bit x n"
  proof (cases "n < m")
    case False
    then have "\<not> bit v n" using arg_cong[OF assms(2), of "\<lambda>w. bit w (n - m)"] by (simp add: bit_simps)
    with False n assms(1)[of n] show ?thesis by (simp add: bit_simps)
  qed (use n in \<open>simp add: bit_simps\<close>)
qed

lemma sign_tail:
  fixes v :: u64
  assumes "\<And>n. n < 64 \<Longrightarrow> bit v n \<longleftrightarrow> (if n < 32 then bit x n else g)" "5 \<le> k" "7 * k < 64"
    "drop_bit (7 * k) v \<noteq> 0"
  shows "g" and "drop_bit (7 * k) v = mask (64 - 7 * k)"
proof -
  have b: "bit (drop_bit (7 * k) v) n \<longleftrightarrow> g \<and> n < 64 - 7 * k" for n
    using assms(1)[of "7 * k + n"] assms(2,3) bit_imp_le_length[of v "7 * k + n"]
    by (auto simp: bit_simps)
  then show g: "g" using assms(4) by (auto simp: bit_eq_iff)
  show "drop_bit (7 * k) v = mask (64 - 7 * k)"
    using g by (intro bit_word_eqI) (simp only: b, simp add: bit_simps)
qed

text \<open>The byte the loop sees at group \<open>k\<close> and what it does with it.\<close>

lemma sign_byte:
  fixes v :: u64
  assumes "\<And>n. n < 64 \<Longrightarrow> bit v n \<longleftrightarrow> (if n < 32 then bit x n else g)" "5 \<le> k" "k \<le> 9"
    "drop_bit (7 * k) v \<noteq> 0"
  shows "hd (varint_bytes (drop_bit (7 * k) v)) = (if k \<le> 8 then 0xFF else 1)"
    and "drop_bit (7 * k) v \<le> 0x7F \<longleftrightarrow> k = 9"
proof -
  have m: "drop_bit (7 * k) v = mask (64 - 7 * k)"
    using sign_tail(2)[OF assms(1) assms(2) _ assms(4)] assms(3) by simp
  have k: "k = 5 \<or> k = 6 \<or> k = 7 \<or> k = 8 \<or> k = 9" using assms(2,3) by arith
  then show "hd (varint_bytes (drop_bit (7 * k) v)) = (if k \<le> 8 then 0xFF else 1)"
    unfolding m by (subst varint_bytes_rec) (elim disjE; simp add: mask_eq_exp_minus_1)
  show "drop_bit (7 * k) v \<le> 0x7F \<longleftrightarrow> k = 9"
    using k unfolding m by (elim disjE; simp add: mask_eq_exp_minus_1)
qed

lemma varint32_step:
  fixes v :: u64 and x :: u32
  assumes B: "\<And>n. n < 64 \<Longrightarrow> bit v n \<longleftrightarrow> (if n < 32 then bit x n else g)" "g \<longrightarrow> bit x 31"
    and k: "1 \<le> k" "k \<le> 9" "5 \<le> k \<longrightarrow> drop_bit (7 * k) v \<noteq> 0"
    and c: "varint_bytes (drop_bit (7 * k) v) = c # bs" "ucast (c AND 0x7F) = (take_bit 7 (ucast (drop_bit (7 * k) v)) :: u32)"
  shows "varint32_loop (take_bit (7 * k) x) (of_nat (7 * k)) (ahead (c # bs) s) =
    (if c AND 0x80 \<noteq> 0 then varint32_loop (take_bit (7 * (k + 1)) x) (of_nat (7 * (k + 1))) (ahead bs s)
     else (Some (take_bit (7 * (k + 1)) x, of_nat (7 * (k + 1)), c), ahead bs s))"
proof -
  have pos: "unat (of_nat (7 * k) :: u8) = 7 * k" "(of_nat (7 * k) + 7 :: u8) = of_nat (7 * (k + 1))"
    using byte_of_nat[of "7 * k"] k by simp_all
  have big: "32 \<le> (of_nat (7 * k) :: u8) \<longleftrightarrow> 5 \<le> k" "(of_nat (7 * k) :: u8) < 63 \<longleftrightarrow> k \<le> 8"
    using k by (simp_all only: word_le_nat_alt word_less_nat_alt pos(1)) auto
  show ?thesis
  proof (cases "5 \<le> k")
    case True
    then have nz: "drop_bit (7 * k) v \<noteq> 0" using k by blast
    have "c = (if k \<le> 8 then 0xFF else 1)" using sign_byte(1)[OF B(1) True k(2) nz] c(1) by simp
    moreover have "bit x 31" using sign_tail(1)[OF B(1) True _ nz] B(2) k(2) by simp
    then have "drop_bit 31 (take_bit (7 * k) x) \<noteq> 0"
      using True by (auto simp: bit_eq_iff bit_simps intro!: exI[of _ 0])
    moreover have "take_bit (7 * k) x = x" "take_bit (7 * (k + 1)) x = x"
      using True by (auto intro!: bit_word_eqI simp: bit_simps)
    ultimately show ?thesis
      using True by (subst varint32_loop.simps) (simp only: readbyte_ahead big pos Let_def prod.case option.case, simp)
  next
    case False
    have "take_bit (7 * k) x OR push_bit (7 * k) (take_bit 7 (ucast (drop_bit (7 * k) v))) = take_bit (7 * (k + 1)) x"
      using w_bits[OF B(1), of "7 * k"] by (simp add: add.commute)
    with False show ?thesis
      by (subst varint32_loop.simps)
        (simp only: readbyte_ahead big pos Let_def prod.case option.case c(2) if_False simp_thms)
  qed
qed

lemma varint32_loop_bytes:
  fixes v :: u64 and x :: u32
  assumes B: "\<And>n. n < 64 \<Longrightarrow> bit v n \<longleftrightarrow> (if n < 32 then bit x n else g)" "g \<longrightarrow> bit x 31"
  shows "1 \<le> k \<Longrightarrow> k \<le> 9 \<Longrightarrow> 5 \<le> k \<longrightarrow> drop_bit (7 * k) v \<noteq> 0 \<Longrightarrow>
    \<exists>p b. varint32_loop (take_bit (7 * k) x) (of_nat (7 * k)) (ahead (varint_bytes (drop_bit (7 * k) v)) s)
      = (Some (x, p, b), s) \<and> \<not> (p = 35 \<and> b AND 0x70 \<noteq> 0)"
proof (induction "10 - k" arbitrary: k)
  case 0
  then show ?case by simp
next
  case (Suc n)
  let ?w = "drop_bit (7 * k) v"
  have d: "drop_bit 7 ?w = drop_bit (7 * (k + 1)) v" by (simp add: add.commute)
  show ?case
  proof (cases "?w \<le> 0x7F")
    case True
    then have z: "drop_bit (7 * (k + 1)) v = 0" using drop7_0[of ?w] d by simp
    have c: "varint_bytes ?w = [ucast ?w]" using True varint_bytes_rec[of ?w] by simp
    have "ucast ?w AND 0x70 = (0 :: u8)" if "(of_nat (7 * (k + 1)) :: u8) = 35"
    proof -
      have "k = 4" using that Suc(3,4) byte_of_nat[of "7 * (k + 1)"] by (auto dest: arg_cong[where f = unat])
      have "\<not> bit ?w i" if "4 \<le> i" for i
      proof (cases "28 + i < 64")
        case i: True
        have "\<not> g" using B(1)[of 35] arg_cong[OF z, of "\<lambda>w. bit w 0"] by (simp add: bit_simps \<open>k = 4\<close>)
        then show ?thesis using B(1)[of "28 + i"] that i by (simp add: bit_simps \<open>k = 4\<close>)
      qed (auto simp: bit_simps \<open>k = 4\<close> dest: bit_imp_le_length)
      then show ?thesis
        by (intro u8_eqI) (auto simp: bit_simps)
    qed
    then show ?thesis
      using varint32_step[OF B Suc(3,4,5) c last_low7[OF True]] last_low[OF True] all_of_x[OF B(1) z]
      by (simp add: c)
  next
    case False
    then have nz: "drop_bit (7 * (k + 1)) v \<noteq> 0" using drop7_0[of ?w] d by simp
    then have "k + 1 \<le> 9" using nonzero_drop[of "7 * (k + 1)" v] by simp
    moreover have "n = 10 - (k + 1)" "1 \<le> k + 1" using Suc(2) by simp_all
    ultimately obtain p b where IH: "varint32_loop (take_bit (7 * (k + 1)) x) (of_nat (7 * (k + 1)))
        (ahead (varint_bytes (drop_bit (7 * (k + 1)) v)) s) = (Some (x, p, b), s)" "\<not> (p = 35 \<and> b AND 0x70 \<noteq> 0)"
      using Suc(1)[of "k + 1", OF _ _ _ impI[OF nz]] by blast
    obtain c where c: "varint_bytes ?w = c # varint_bytes (drop_bit (7 * (k + 1)) v)"
        "c AND 0x80 \<noteq> 0" "ucast (c AND 0x7F) = (take_bit 7 (ucast ?w) :: u32)"
      by (rule more_groups[OF False]) (simp only: d, rule that)
    show ?thesis
      using varint32_step[OF B Suc(3,4,5) c(1,3)] IH c(2) by (simp only: c(1) if_True simp_thms) blast
  qed
qed

lemma varint32_eof_ahead:
  assumes "extends x v"
  shows "pb_decode_varint32_eof (ahead (varint_bytes v) s) = (Some x, False, s)"
proof -
  obtain g where B: "\<And>n. n < 64 \<Longrightarrow> bit v n \<longleftrightarrow> (if n < 32 then bit x n else g)" "g \<longrightarrow> bit x 31"
    using extends_bits[OF assms] by blast
  show ?thesis
  proof (cases "v \<le> 0x7F")
    case True
    have "n < 8 \<and> bit v n \<longleftrightarrow> bit x n" if "n < 32" for n
      using small_u64[OF True, of n] B(1)[of n] that by (cases "n < 8") auto
    then have "ucast (ucast v :: u8) = x"
      by (intro bit_word_eqI) (auto simp: bit_simps)
    with True show ?thesis
      using last_low[OF True] by (simp add: varint_bytes_rec[of v] pb_decode_varint32_eof_def)
  next
    case False
    obtain c where c: "varint_bytes v = c # varint_bytes (drop_bit 7 v)"
        "c AND 0x80 \<noteq> 0" "ucast (c AND 0x7F) = (take_bit 7 (ucast v) :: u32)"
      by (rule more_groups[OF False])
    have "take_bit 7 (ucast v) = take_bit 7 x"
      using B(1) by (intro bit_word_eqI) (auto simp: bit_simps)
    moreover obtain p b where "varint32_loop (take_bit 7 x) 7 (ahead (varint_bytes (drop_bit 7 v)) s)
        = (Some (x, p, b), s)" "\<not> (p = 35 \<and> b AND 0x70 \<noteq> 0)"
      using varint32_loop_bytes[OF B, of 1 s] by auto
    ultimately show ?thesis
      using c by (auto simp: pb_decode_varint32_eof_def)
  qed
qed

lemma varint32_decodes: "extends x v \<Longrightarrow> decodes pb_decode_varint32 (varint_bytes v) x"
  by (simp add: decodes_def pb_decode_varint32_def varint32_eof_ahead)

subsection \<open>Integers of fixed size and zigzag\<close>

lemma byte_at:
  "bit (push_bit k (ucast (ucast (drop_bit k v AND 0xFF) :: u8)) :: 'a::len word) n
     \<longleftrightarrow> k \<le> n \<and> n < k + 8 \<and> bit v n" for v :: "'a::len word"
proof -
  have ff: "(0xFF :: 'a word) = mask 8" by (simp add: mask_eq_exp_minus_1)
  show ?thesis unfolding ff by (auto simp: bit_simps dest: bit_imp_le_length)
qed

lemma byte_at_0:
  "bit (ucast (ucast (v AND 0xFF) :: u8) :: 'a::len word) n \<longleftrightarrow> n < 8 \<and> bit v n" for v :: "'a::len word"
  using byte_at[of 0 v n] by simp

lemma fixed32_decodes: "decodes pb_decode_fixed32 (fixed32_bytes v) v"
proof -
  let ?b = "\<lambda>i. push_bit i (ucast (ucast (drop_bit i v AND 0xFF) :: u8)) :: u32"
  have "ucast (ucast (v AND 0xFF) :: u8) OR ?b 8 OR ?b 16 OR ?b 24 = v"
  proof (rule bit_word_eqI)
    fix n assume "n < LENGTH(32)"
    then show "bit (ucast (ucast (v AND 0xFF) :: u8) OR ?b 8 OR ?b 16 OR ?b 24) n = bit v n"
      by (simp only: bit_or_iff byte_at byte_at_0) (cases "bit v n"; simp; arith)
  qed
  then show ?thesis
    by (simp add: pb_decode_fixed32_def fixed32_bytes_def decodes_def is_bind_def is_return_def pb_read_def
        buf_read_def ahead_def)
qed

lemma fixed64_decodes: "decodes pb_decode_fixed64 (fixed64_bytes v) v"
proof -
  let ?b = "\<lambda>i. push_bit i (ucast (ucast (drop_bit i v AND 0xFF) :: u8)) :: u64"
  have "ucast (ucast (v AND 0xFF) :: u8) OR ?b 8 OR ?b 16 OR ?b 24 OR ?b 32 OR ?b 40 OR ?b 48 OR ?b 56 = v"
  proof (rule bit_word_eqI)
    fix n assume "n < LENGTH(64)"
    then show "bit (ucast (ucast (v AND 0xFF) :: u8) OR ?b 8 OR ?b 16 OR ?b 24 OR ?b 32 OR ?b 40 OR ?b 48 OR ?b 56) n = bit v n"
      by (simp only: bit_or_iff byte_at byte_at_0) (cases "bit v n"; simp; arith)
  qed
  then show ?thesis
    by (simp add: pb_decode_fixed64_def fixed64_bytes_def decodes_def is_bind_def is_return_def pb_read_def
        buf_read_def ahead_def)
qed

lemma zigzag_bit:
  "n < 64 \<Longrightarrow> bit (zigzag v) n \<longleftrightarrow> (if n = 0 then bit v 63 else bit v (n - 1) \<noteq> bit v 63)"
proof -
  assume n: "n < 64"
  have p: "bit (push_bit 1 v) n \<longleftrightarrow> n \<noteq> 0 \<and> bit v (n - 1)"
    by (simp only: bit_push_bit_iff) (use n in auto)
  have "v <s 0 \<longleftrightarrow> bit v 63"
    using bit_last_iff[of v] by (simp add: word_sless_alt)
  then show ?thesis
    using n by (simp only: zigzag_def if_distrib[of "\<lambda>w. bit w n"] bit_not_iff p) auto
qed

lemma svarint_decodes: "decodes pb_decode_svarint (varint_bytes (zigzag v)) v"
proof -
  have "zigzag v AND 1 \<noteq> 0 \<longleftrightarrow> bit (zigzag v) 0" by (auto simp: and_one_eq mod_2_eq_odd bit_0)
  then have odd: "zigzag v AND 1 \<noteq> 0 \<longleftrightarrow> bit v 63" using zigzag_bit[of 0 v] by simp
  have "bit (drop_bit 1 (zigzag v)) n \<longleftrightarrow> n < 63 \<and> bit v n \<noteq> bit v 63" for n
    using zigzag_bit[of "n + 1" v] bit_imp_le_length[of "zigzag v" "n + 1"]
    by (simp only: bit_drop_bit_eq o_apply) auto
  then have d: "bit (drop_bit 1 (zigzag v)) n \<longleftrightarrow> n \<noteq> 63 \<and> bit v n \<noteq> bit v 63" if "n < 64" for n
    using that by (cases "n = 63") simp_all
  have "NOT (drop_bit 1 (zigzag v)) = v" if "bit v 63"
    by (rule bit_word_eqI) (use that in \<open>auto simp: bit_not_iff d[unfolded One_nat_def] simp del: bit_drop_bit_eq\<close>)
  moreover have "drop_bit 1 (zigzag v) = v" if "\<not> bit v 63"
    by (rule bit_word_eqI) (use that in \<open>auto simp: d[unfolded One_nat_def] simp del: bit_drop_bit_eq\<close>)
  ultimately have "(if zigzag v AND 1 \<noteq> 0 then NOT (drop_bit 1 (zigzag v)) else drop_bit 1 (zigzag v)) = v"
    using odd by (cases "bit v 63") simp_all
  then show ?thesis
    unfolding pb_decode_svarint_def
    using decodes_map[OF varint64_decodes, of "\<lambda>x. if x AND 1 \<noteq> 0 then NOT (drop_bit 1 x) else drop_bit 1 x" "zigzag v"]
    by (simp only: )
qed

lemma varint_bytes_length: "length (varint_bytes v) \<le> 10"
proof -
  have "7 * k < 64 \<Longrightarrow> length (varint_bytes (drop_bit (7 * k) v)) \<le> 10 - k" for k
  proof (induction "10 - k" arbitrary: k)
    case (Suc n)
    let ?w = "drop_bit (7 * k) v"
    have d: "drop_bit 7 ?w = drop_bit (7 * (k + 1)) v" by (simp add: add.commute)
    show ?case
    proof (cases "?w \<le> 0x7F")
      case True
      then show ?thesis using Suc(2) varint_bytes_rec[of ?w] by simp
    next
      case False
      then have "drop_bit (7 * (k + 1)) v \<noteq> 0" using drop7_0[of ?w] d by simp
      then have k: "7 * (k + 1) < 64" by (rule nonzero_drop)
      obtain c where "varint_bytes ?w = c # varint_bytes (drop_bit (7 * (k + 1)) v)"
        by (rule more_groups[where 'a = 64, OF False]) (rule that, simp only: d)
      moreover have "n = 10 - (k + 1)" using Suc(2) by simp
      ultimately show ?thesis using Suc(1)[OF _ k] Suc(2) by simp
    qed
  qed simp
  from this[of 0] show ?thesis by simp
qed

subsection \<open>Integers on the wire\<close>

text \<open>\<open>reads_back enc dec x\<close>: encoding into a buffer of ten bytes works and decoding gives \<open>x\<close>.\<close>

definition reads_back :: "(ostream \<Rightarrow> bool \<times> ostream) \<Rightarrow> 'a reader \<Rightarrow> 'a \<Rightarrow> u8 list \<Rightarrow> bool" where
  "reads_back enc dec x rest =
     (case enc (pb_ostream_from_buffer 10) of (ok, os) \<Rightarrow>
        ok \<and> dec (pb_istream_from_buffer (os_out os @ rest)) = (Some x, pb_istream_from_buffer rest))"

lemma reads_backI:
  assumes "encoder enc bs" "decodes dec bs x" "length bs \<le> 10"
  shows "reads_back enc dec x rest"
proof -
  have "enc (pb_ostream_from_buffer 10) = (True, emit bs (pb_ostream_from_buffer 10))"
    using assms(3) by (intro encoder.fits[OF assms(1)]) (simp_all add: room_def pb_ostream_from_buffer_def)
  then show ?thesis
    using decodesD[OF assms(2), of "pb_istream_from_buffer rest"]
    by (simp add: reads_back_def emit_def pb_ostream_from_buffer_def pb_istream_from_buffer_def ahead_def)
qed

lemma top_bit: "7 \<le> n \<Longrightarrow> n < 8 \<Longrightarrow> n = 7" "15 \<le> n \<Longrightarrow> n < 16 \<Longrightarrow> n = 15" "31 \<le> n \<Longrightarrow> n < 32 \<Longrightarrow> n = 31"
  for n :: nat by simp_all

lemma scast_extends: "extends x (scast x)"
proof (cases "bit x 31")
  case False
  have "bit (scast x :: u64) n = bit (ucast x :: u64) n" if "n < 64" for n
    using False bit_imp_le_length[of x n] that by (cases "n = 31") (auto simp: bit_simps min_def not_less)
  then have "(scast x :: u64) = ucast x" by (intro bit_word_eqI) simp
  then show ?thesis by (simp add: extends_def)
qed (simp add: extends_def)

text \<open>
  C40: integers on the wire. Every 64-bit value encoded as a varint, in zigzag form or with fixed
  size is read back as itself from at most ten bytes; a 32-bit value is read back by the 32-bit
  varint reader whether it was written zero-extended or, as negative numbers are, sign-extended
  to 64 bits.
\<close>

theorem wire_integers_roundtrip:
  "reads_back (pb_encode_varint v) pb_decode_varint v rest \<and>
   reads_back (pb_encode_svarint v) pb_decode_svarint v rest \<and>
   reads_back (pb_encode_fixed64 v) pb_decode_fixed64 v rest \<and>
   reads_back (pb_encode_fixed32 x) pb_decode_fixed32 x rest \<and>
   reads_back (pb_encode_varint (ucast x)) pb_decode_varint32 x rest \<and>
   reads_back (pb_encode_varint (scast x)) pb_decode_varint32 x rest"
proof (intro conjI)
  show "reads_back (pb_encode_varint v) pb_decode_varint v rest"
    by (rule reads_backI[OF venc.encoder_axioms varint64_decodes varint_bytes_length])
  show "reads_back (pb_encode_svarint v) pb_decode_svarint v rest"
    by (rule reads_backI[OF senc.encoder_axioms svarint_decodes varint_bytes_length])
  show "reads_back (pb_encode_fixed64 v) pb_decode_fixed64 v rest"
    by (rule reads_backI[OF f64enc.encoder_axioms fixed64_decodes]) (simp add: fixed64_bytes_def)
  show "reads_back (pb_encode_fixed32 x) pb_decode_fixed32 x rest"
    by (rule reads_backI[OF f32enc.encoder_axioms fixed32_decodes]) (simp add: fixed32_bytes_def)
  show "reads_back (pb_encode_varint (ucast x)) pb_decode_varint32 x rest"
    by (rule reads_backI[OF venc.encoder_axioms varint32_decodes varint_bytes_length]) (simp add: extends_def)
  show "reads_back (pb_encode_varint (scast x)) pb_decode_varint32 x rest"
    by (rule reads_backI[OF venc.encoder_axioms varint32_decodes[OF scast_extends] varint_bytes_length])
qed

text \<open>
  The 8-bit \<open>bitpos\<close> wraps after 37 groups: a 32-bit varint with that many empty groups is not the
  overflow error but a value shifted into place by the wrapped position.
\<close>

lemma empty_groups:
  "varint32_loop r b (ahead (replicate n 0x80 @ bs) s) = varint32_loop r (b + 7 * of_nat n) (ahead bs s)"
proof (induction n arbitrary: b)
  case (Suc n)
  have "varint32_loop r b (ahead (0x80 # replicate n 0x80 @ bs) s) = varint32_loop r (b + 7) (ahead (replicate n 0x80 @ bs) s)"
    by (subst varint32_loop.simps) (simp add: Let_def)
  with Suc show ?case by (simp add: algebra_simps)
qed simp

lemma bitpos_wraps:
  "fst (pb_decode_varint32 (pb_istream_from_buffer (replicate 37 0x80 @ [0x01]))) = Some 8"
proof -
  let ?e = "pb_istream_from_buffer []"
  have "pb_istream_from_buffer (replicate 37 0x80 @ [0x01]) = ahead (0x80 # replicate 36 0x80 @ [0x01]) ?e"
    by (simp add: ahead_def pb_istream_from_buffer_def replicate_Suc [symmetric])
  moreover have "varint32_loop 0 3 (ahead [0x01] ?e) = (Some (8, 10, 1), ?e)"
    by (subst varint32_loop.simps) (simp add: Let_def)
  moreover have pos: "7 + 7 * of_nat 36 = (3 :: u8)" by (simp add: word_unat_eq_iff)
  ultimately show ?thesis
    using empty_groups[of 0 7 36 "[1]" ?e] unfolding pos
    by (simp add: pb_decode_varint32_def pb_decode_varint32_eof_def)
qed

end
