(* ===== verification/Pb_Fields.thy ===== *)
theory Pb_Fields
  imports Pb_Roundtrip
begin

text \<open>
  Fields of a message: the tables \<open>PB_ENCODERS\<close> and \<open>PB_DECODERS\<close>, a required field with its tag,
  packed arrays, and what decoding makes of what encoding wrote.
\<close>

subsection \<open>The tables\<close>

text \<open>
  What a field's memory holds: an integer of \<open>data_size\<close> bytes, zero-extended, or bytes; the bytes
  of a string end with its NUL. A generated descriptor pairs integer types with integers and the
  others with bytes; the remaining pairs do not occur and are errors here.
\<close>

datatype field_data = Scalar u64 | Octets "u8 list"

definition PB_ENCODERS :: "pb_field \<Rightarrow> field_data \<Rightarrow> ostream \<Rightarrow> bool \<times> ostream" where
  "PB_ENCODERS f d =
     (let t = PB_LTYPE (fld_type f) in
      case d of
        Scalar v \<Rightarrow>
          (if t = PB_LTYPE_VARINT then pb_enc_varint f v
           else if t = PB_LTYPE_UVARINT then pb_enc_uvarint f v
           else if t = PB_LTYPE_SVARINT then pb_enc_svarint f v
           else if t = PB_LTYPE_FIXED32 then pb_encode_fixed32 (ucast v)
           else if t = PB_LTYPE_FIXED64 then pb_encode_fixed64 v
           else os_error ''invalid field type'')
      | Octets b \<Rightarrow>
          (if t = PB_LTYPE_BYTES then pb_enc_bytes f (Some b)
           else if t = PB_LTYPE_STRING then pb_enc_string f (Some b)
           else if t = PB_LTYPE_FIXED_LENGTH_BYTES then pb_enc_fixed_length_bytes f b
           else os_error ''invalid field type''))"

definition is_map :: "('a \<Rightarrow> 'b) \<Rightarrow> 'a reader \<Rightarrow> 'b reader" where
  "is_map h r = is_bind r (\<lambda>x. is_return (h x))"

definition PB_DECODERS :: "pb_field \<Rightarrow> oom \<Rightarrow> field_data reader" where
  "PB_DECODERS f m =
     (let t = PB_LTYPE (fld_type f) in
      if t = PB_LTYPE_VARINT then is_map Scalar (pb_dec_varint f)
      else if t = PB_LTYPE_UVARINT then is_map Scalar (pb_dec_uvarint f)
      else if t = PB_LTYPE_SVARINT then is_map Scalar (pb_dec_svarint f)
      else if t = PB_LTYPE_FIXED32 then is_map (\<lambda>v. Scalar (ucast v)) pb_decode_fixed32
      else if t = PB_LTYPE_FIXED64 then is_map Scalar pb_decode_fixed64
      else if t = PB_LTYPE_BYTES then is_map Octets (pb_dec_bytes f m)
      else if t = PB_LTYPE_STRING then is_map Octets (pb_dec_string f m)
      else if t = PB_LTYPE_FIXED_LENGTH_BYTES then is_map Octets (pb_dec_fixed_length_bytes f)
      else is_error ''invalid field type'')"

text \<open>
  \<open>encode_basic_field\<close> on a required field whose data is there: the branch for a null pointer is in
  the \<open>encode_basic_field\<close> of Pb_Message.
\<close>

definition encode_required_field :: "pb_field \<Rightarrow> field_data \<Rightarrow> ostream \<Rightarrow> bool \<times> ostream" where
  "encode_required_field f d = os_then (pb_encode_tag_for_field f) (PB_ENCODERS f d)"

subsection \<open>Data that a field can hold\<close>

definition int_size :: "nat \<Rightarrow> bool" where
  "int_size n \<longleftrightarrow> n = 1 \<or> n = 2 \<or> n = 4 \<or> n = 8"

text \<open>\<open>fits_field f d\<close>: the data \<open>d\<close> is within the memory the descriptor \<open>f\<close> gives its field.\<close>

definition fits_field :: "pb_field \<Rightarrow> field_data \<Rightarrow> bool" where
  "fits_field f d =
     (let t = PB_LTYPE (fld_type f); n = fld_data_size f; ptr = (PB_ATYPE (fld_type f) = PB_ATYPE_POINTER) in
      case d of
        Scalar v \<Rightarrow>
          (if t = PB_LTYPE_VARINT \<or> t = PB_LTYPE_UVARINT \<or> t = PB_LTYPE_SVARINT
           then int_size n \<and> take_bit (8 * n) v = v
           else if t = PB_LTYPE_FIXED32 then take_bit 32 v = v
           else t = PB_LTYPE_FIXED64)
      | Octets b \<Rightarrow>
          (if t = PB_LTYPE_BYTES then length b < 2 ^ 32 \<and> (ptr \<or> PB_BYTES_ARRAY_T_ALLOCSIZE (length b) \<le> n)
           else if t = PB_LTYPE_STRING then
             b \<noteq> [] \<and> last b = 0 \<and> length b < 2 ^ 32 \<and> (ptr \<or> length b \<le> n)
           else t = PB_LTYPE_FIXED_LENGTH_BYTES \<and> length b = n))"

lemma load_take: "load_signed n v = Some w \<Longrightarrow> take_bit (8 * n) w = take_bit (8 * n) v"
  "load_unsigned n v = Some w \<Longrightarrow> take_bit (8 * n) w = take_bit (8 * n) v"
  unfolding load_signed_def load_unsigned_def
  by (auto split: if_splits intro!: bit_word_eqI simp: bit_simps min_def dest: top_bit)

lemma load_total: "int_size n \<Longrightarrow> \<exists>w. load_signed n v = Some w" "int_size n \<Longrightarrow> \<exists>w. load_unsigned n v = Some w"
  by (auto simp: int_size_def load_signed_def load_unsigned_def)

lemma load_sized: "load_signed n v = Some w \<Longrightarrow> int_size n" "load_unsigned n v = Some w \<Longrightarrow> int_size n"
  by (auto simp: int_size_def load_signed_def load_unsigned_def split: if_splits)

text \<open>A loaded value is unchanged when loaded again, and by the \<open>int32_t\<close> cast if small.\<close>

lemma load_again: "load_signed n v = Some w \<Longrightarrow> load_signed n w = Some w"
  "load_unsigned n v = Some w \<Longrightarrow> load_unsigned n w = Some w"
  unfolding load_signed_def load_unsigned_def
  by (auto split: if_splits intro!: bit_word_eqI simp: bit_simps min_def dest: top_bit)

lemma load_int32: "load_signed n v = Some w \<Longrightarrow> n \<noteq> 8 \<Longrightarrow> scast (ucast w :: u32) = w"
  unfolding load_signed_def
  by (auto split: if_splits intro!: bit_word_eqI simp: bit_simps min_def dest: top_bit)

subsection \<open>Each kind of field\<close>

lemma decodes_return [intro]: "decodes (is_return x) [] x"
  by (simp add: decodes_def is_return_def)

lemma bind_return: "is_bind (is_return x) g = g x"
  by (simp add: fun_eq_iff is_bind_def is_return_def)

lemma bind_error: "is_bind (is_error e) g = is_error e"
  by (simp add: fun_eq_iff is_bind_def is_error_def)

lemma decodes_then: "decodes f a x \<Longrightarrow> decodes (g x) [] y \<Longrightarrow> decodes (is_bind f g) a y"
  using decodes_bind[of f a x g "[]" y] by simp

lemma decodes_is_map: "decodes r bs x \<Longrightarrow> decodes (is_map h r) bs (h x)"
  unfolding is_map_def by (erule decodes_then) (rule decodes_return)

text \<open>The bytes \<open>bs\<close> are one value of wire type \<open>wt\<close>: skipping it passes over them.\<close>

abbreviation skips :: "wire_type \<Rightarrow> u8 list \<Rightarrow> bool" where
  "skips wt bs \<equiv> decodes (pb_skip_field wt) bs ()"

lemma skip_varint_bytes: "decodes pb_skip_varint (varint_bytes v) ()"
  unfolding decodes_def
proof (intro allI)
  fix s
  show "pb_skip_varint (ahead (varint_bytes v) s) = (Some (), s)"
  proof (induction v rule: varint_groups.induct)
    case (1 v)
    have one: "pb_read 1 (ahead (c # bs) s) = (Some [c], ahead bs s)" for c bs
      by (simp add: pb_read_def buf_read_def ahead_def)
    show ?case
    proof (cases "v \<le> 0x7F")
      case True
      then show ?thesis
        using one[of "ucast v" "[]"] last_low[OF True]
        by (subst pb_skip_varint.simps) (simp add: varint_bytes_rec[of v])
    next
      case False
      then have "v \<noteq> 0" by auto
      obtain c where c: "varint_bytes v = c # varint_bytes (drop_bit 7 v)" "c AND 0x80 \<noteq> 0"
        by (rule more_groups[where 'a = 64, OF False])
      with one[of c] 1[OF \<open>v \<noteq> 0\<close>] show ?thesis
        by (subst pb_skip_varint.simps) simp
    qed
  qed
qed

lemma skips_varint: "skips PB_WT_VARINT (varint_bytes v)"
  by (simp add: pb_skip_field_def skip_varint_bytes)

lemma skip_bytes: "decodes (pb_skip_bytes (length bs)) bs ()"
  unfolding pb_skip_bytes_def by (rule decodes_then[OF decodes_read]) (rule decodes_return)

lemma skips_fixed: "skips PB_WT_32BIT (fixed32_bytes a)" "skips PB_WT_64BIT (fixed64_bytes b)"
proof -
  have "length (fixed32_bytes a) = 4" "length (fixed64_bytes b) = 8"
    by (simp_all add: fixed32_bytes_def fixed64_bytes_def)
  then show "skips PB_WT_32BIT (fixed32_bytes a)" "skips PB_WT_64BIT (fixed64_bytes b)"
    using skip_bytes[of "fixed32_bytes a"] skip_bytes[of "fixed64_bytes b"]
    by (simp_all add: pb_skip_field_def)
qed

text \<open>A length below 2 to the 32 is read back as it is.\<close>

lemma length_decodes:
  assumes "n < 2 ^ 32"
  shows "decodes pb_decode_varint32 (varint_bytes (of_nat n)) (of_nat n)" "unat (of_nat n :: u32) = n"
proof -
  have "(of_nat n :: u64) = ucast (of_nat n :: u32)"
    using assms by (simp add: unsigned_of_nat take_bit_nat_eq_self)
  then show "decodes pb_decode_varint32 (varint_bytes (of_nat n)) (of_nat n)"
    by (intro varint32_decodes) (simp add: extends_def)
  show "unat (of_nat n :: u32) = n" using assms by (simp add: unat_of_nat take_bit_nat_eq_self)
qed

lemma skips_string: "length b < 2 ^ 32 \<Longrightarrow> skips PB_WT_STRING (string_bytes b)"
  using decodes_bind[OF length_decodes(1), of "length b" "\<lambda>n. pb_skip_bytes (unat n)" b "()"] skip_bytes[of b]
  by (simp add: pb_skip_field_def pb_skip_string_def string_bytes_def length_decodes(2))

lemma stored_decodes:
  assumes "load n w = Some w" "take_bit (8 * n) w = v"
  shows "decodes (dec_stored n load w) [] v"
proof -
  have "dec_stored n load w = is_return v"
    unfolding dec_stored_def store_def assms option.case by simp
  then show ?thesis by (simp add: decodes_return)
qed

text \<open>
  \<open>codec wt f d\<close>: encoding \<open>d\<close> for the field \<open>f\<close> writes bytes that are one value of wire type \<open>wt\<close>,
  and that decoding for \<open>f\<close> turns into \<open>d\<close> again.
\<close>

definition codec :: "wire_type \<Rightarrow> (ostream \<Rightarrow> bool \<times> ostream) \<Rightarrow> field_data reader \<Rightarrow> field_data \<Rightarrow> bool" where
  "codec wt enc dec d \<longleftrightarrow> (\<exists>bs. encoder enc bs \<and> skips wt bs \<and> decodes dec bs d)"

lemma codecI: "encoder enc bs \<Longrightarrow> skips wt bs \<Longrightarrow> decodes dec bs x \<Longrightarrow> codec wt enc (is_map h dec) (h x)"
  unfolding codec_def by (intro exI[of _ bs] conjI decodes_is_map)

lemma scalar_codecs:
  assumes "int_size (fld_data_size f)" "take_bit (8 * fld_data_size f) v = v"
  shows "codec PB_WT_VARINT (pb_enc_varint f v) (is_map Scalar (pb_dec_varint f)) (Scalar v)"
    "codec PB_WT_VARINT (pb_enc_uvarint f v) (is_map Scalar (pb_dec_uvarint f)) (Scalar v)"
    "codec PB_WT_VARINT (pb_enc_svarint f v) (is_map Scalar (pb_dec_svarint f)) (Scalar v)"
proof -
  let ?n = "fld_data_size f"
  obtain w where w: "load_signed ?n v = Some w" using load_total(1) assms(1) by blast
  obtain u where u: "load_unsigned ?n v = Some u" using load_total(2) assms(1) by blast
  have sv: "decodes (dec_stored ?n load_signed w) [] v"
    using load_again(1)[OF w] load_take(1)[OF w] assms(2) by (intro stored_decodes) simp_all
  have uv: "decodes (dec_stored ?n load_unsigned u) [] v"
    using load_again(2)[OF u] load_take(2)[OF u] assms(2) by (intro stored_decodes) simp_all
  have cast: "(if ?n = 8 then w else scast (ucast w :: u32)) = w" using load_int32[OF w] by simp
  have "decodes (pb_dec_varint f) (varint_bytes w) v"
    unfolding pb_dec_varint_def Let_def by (rule decodes_then[OF varint64_decodes]) (simp only: cast sv)
  then show "codec PB_WT_VARINT (pb_enc_varint f v) (is_map Scalar (pb_dec_varint f)) (Scalar v)"
    by (intro codecI[OF _ skips_varint]) (simp_all add: pb_enc_varint_def w enc_loaded_def[abs_def] venc.encoder_axioms)
  have "decodes (pb_dec_uvarint f) (varint_bytes u) v"
    unfolding pb_dec_uvarint_def by (rule decodes_then[OF varint64_decodes]) (rule uv)
  then show "codec PB_WT_VARINT (pb_enc_uvarint f v) (is_map Scalar (pb_dec_uvarint f)) (Scalar v)"
    by (intro codecI[OF _ skips_varint]) (simp_all add: pb_enc_uvarint_def u enc_loaded_def[abs_def] venc.encoder_axioms)
  have "decodes (pb_dec_svarint f) (varint_bytes (zigzag w)) v"
    unfolding pb_dec_svarint_def by (rule decodes_then[OF svarint_decodes]) (rule sv)
  then show "codec PB_WT_VARINT (pb_enc_svarint f v) (is_map Scalar (pb_dec_svarint f)) (Scalar v)"
    by (intro codecI[OF _ skips_varint]) (simp_all add: pb_enc_svarint_def w enc_loaded_def[abs_def] senc.encoder_axioms)
qed

lemma fixed_codecs:
  "take_bit 32 v = v \<Longrightarrow>
     codec PB_WT_32BIT (pb_encode_fixed32 (ucast v)) (is_map (\<lambda>v. Scalar (ucast v)) pb_decode_fixed32) (Scalar v)"
  "codec PB_WT_64BIT (pb_encode_fixed64 v) (is_map Scalar pb_decode_fixed64) (Scalar v)"
proof -
  assume "take_bit 32 v = v"
  then have "ucast (ucast v :: u32) = v" by (simp add: unsigned_ucast_eq)
  then show "codec PB_WT_32BIT (pb_encode_fixed32 (ucast v)) (is_map (\<lambda>v. Scalar (ucast v)) pb_decode_fixed32) (Scalar v)"
    using codecI[OF f32enc.encoder_axioms[of "ucast v"] skips_fixed(1) fixed32_decodes,
        where h = "\<lambda>v. Scalar (ucast v)"] by simp
next
  show "codec PB_WT_64BIT (pb_encode_fixed64 v) (is_map Scalar pb_decode_fixed64) (Scalar v)"
    by (rule codecI[OF f64enc.encoder_axioms skips_fixed(2) fixed64_decodes])
qed

lemma allocate_ok:
  "n \<noteq> 0 \<Longrightarrow> n < 2 ^ 64 \<Longrightarrow> fst (malloc_step m) \<Longrightarrow> allocate_field n 1 m = is_return ()"
  by (simp add: allocate_field_def fun_eq_iff)

text \<open>Reading a string of the length that was written, with a check \<open>ok\<close> between.\<close>

lemma counted_decodes:
  assumes "length b < 2 ^ 32" "ok (of_nat (length b)) = is_return ()" "decodes (r (of_nat (length b))) b x"
  shows "decodes (is_bind pb_decode_varint32 (\<lambda>n. is_bind (ok n) (\<lambda>_. r n))) (string_bytes b) x"
proof -
  have "decodes (is_bind (ok (of_nat (length b))) (\<lambda>_. r (of_nat (length b)))) ([] @ b) x"
    by (rule decodes_bind[where x = "()"]) (simp_all add: assms(2,3) decodes_return)
  then show ?thesis
    using length_decodes(1)[OF assms(1)] unfolding string_bytes_def by (intro decodes_bind) simp_all
qed

lemma octets_codec:
  assumes "length b < 2 ^ 32" "enc = pb_encode_string b" "ok (of_nat (length b)) = is_return ()"
    "decodes (r (of_nat (length b))) b x"
  shows "codec PB_WT_STRING enc (is_map h (is_bind pb_decode_varint32 (\<lambda>n. is_bind (ok n) (\<lambda>_. r n)))) (h x)"
  unfolding assms(2)
  by (rule codecI[OF strenc.encoder_axioms skips_string counted_decodes]) (fact assms)+

lemma bytes_codec:
  assumes "PB_ATYPE (fld_type f) = PB_ATYPE_POINTER \<or> PB_BYTES_ARRAY_T_ALLOCSIZE (length b) \<le> fld_data_size f"
    "length b < 2 ^ 32" "fst (malloc_step m)"
  shows "codec PB_WT_STRING (pb_enc_bytes f (Some b)) (is_map Octets (pb_dec_bytes f m)) (Octets b)"
proof -
  have "PB_BYTES_ARRAY_T_ALLOCSIZE (length b) < 2 ^ 64" "PB_BYTES_ARRAY_T_ALLOCSIZE (length b) \<noteq> 0"
    using assms(2) by (simp_all add: PB_BYTES_ARRAY_T_ALLOCSIZE_def)
  note alloc = allocate_ok[OF this(2,1) assms(3)]
  show ?thesis
    unfolding pb_dec_bytes_def Let_def
    by (rule octets_codec[OF assms(2)])
      (use assms(1) alloc length_decodes(2)[OF assms(2)] decodes_read[of b] in
        \<open>auto simp: pb_enc_bytes_def PB_ATYPE_def fun_eq_iff\<close>)
qed

lemma strnlen_string:
  "0 \<notin> set p \<Longrightarrow> (case mx of None \<Rightarrow> True | Some m \<Rightarrow> n + length p \<le> m) \<Longrightarrow> strnlen_loop (p @ [0]) n mx = n + length p"
  by (induction p arbitrary: n) (auto split: option.splits)

lemma string_codec:
  assumes "PB_ATYPE (fld_type f) = PB_ATYPE_POINTER \<or> length p + 1 \<le> fld_data_size f" "0 \<notin> set p"
    "length p + 1 < 2 ^ 32" "fst (malloc_step m)"
  shows "codec PB_WT_STRING (pb_enc_string f (Some (p @ [0]))) (is_map Octets (pb_dec_string f m)) (Octets (p @ [0]))"
proof -
  have len: "length p < 2 ^ 32" using assms(3) by simp
  have n1: "unat (of_nat (length p) + 1 :: u32) = length p + 1"
    using length_decodes(2)[OF assms(3)] by (simp add: add.commute)
  have alloc: "allocate_field (length p + 1) 1 m = is_return ()"
    using assms(3,4) by (intro allocate_ok) simp_all
  have "strnlen_loop (p @ [0]) 0 (if PB_ATYPE (fld_type f) = PB_ATYPE_POINTER then None else Some (fld_data_size f)) = length p"
    using strnlen_string[OF assms(2), where n = 0] assms(1) by (auto split: option.splits)
  then have enc: "pb_enc_string f (Some (p @ [0])) = pb_encode_string p"
    by (simp add: fun_eq_iff pb_enc_string_def)
  have "pb_dec_string f m = is_bind pb_decode_varint32 (\<lambda>n.
       is_bind (if unat (n + 1) < unat n then is_error ''size too large''
                else if PB_ATYPE (fld_type f) = PB_ATYPE_POINTER then allocate_field (unat (n + 1)) 1 m
                else if fld_data_size f < unat (n + 1) then is_error ''string overflow'' else is_return ())
         (\<lambda>_. is_bind (pb_read (unat n)) (\<lambda>b. is_return (b @ [0]))))"
    unfolding pb_dec_string_def Let_def
    by (rule arg_cong[where f = "is_bind pb_decode_varint32"], rule ext) (simp add: bind_error)
  then show ?thesis
    by (simp only:, intro octets_codec[OF len enc])
      (use assms(1) alloc n1 length_decodes(2)[OF len] decodes_map[OF decodes_read[of p]] in auto)
qed

lemma fixed_length_codec:
  assumes "length b = fld_data_size f" "length b < 2 ^ 32"
  shows "codec PB_WT_STRING (pb_enc_fixed_length_bytes f b) (is_map Octets (pb_dec_fixed_length_bytes f)) (Octets b)"
proof -
  have enc: "pb_enc_fixed_length_bytes f b = pb_encode_string b"
    using assms(1) by (simp add: fun_eq_iff pb_enc_fixed_length_bytes_def)
  have zero: "(of_nat (length b) :: u32) = 0 \<longleftrightarrow> b = []"
    using length_decodes(2)[OF assms(2)] by (metis length_0_conv unat_eq_zero)
  have "pb_dec_fixed_length_bytes f = is_bind pb_decode_varint32 (\<lambda>n. is_bind (is_return ()) (\<lambda>_.
       if n = 0 then is_return (replicate (fld_data_size f) 0)
       else if unat n \<noteq> fld_data_size f then is_error ''incorrect fixed length bytes size''
       else pb_read (fld_data_size f)))"
    by (simp add: pb_dec_fixed_length_bytes_def bind_return)
  then show ?thesis
    by (simp only:, intro octets_codec[OF assms(2) enc])
      (use assms(1) zero length_decodes(2)[OF assms(2)] decodes_read[of b] in auto)
qed

subsection \<open>A field with its tag\<close>

definition wire_type_of :: "pb_field \<Rightarrow> wire_type" where
  "wire_type_of f =
     (let t = PB_LTYPE (fld_type f) in
      if t = PB_LTYPE_FIXED32 then PB_WT_32BIT else if t = PB_LTYPE_FIXED64 then PB_WT_64BIT
      else if t = PB_LTYPE_VARINT \<or> t = PB_LTYPE_UVARINT \<or> t = PB_LTYPE_SVARINT then PB_WT_VARINT
      else PB_WT_STRING)"

definition no_inner_nul :: "pb_field \<Rightarrow> field_data \<Rightarrow> bool" where
  "no_inner_nul f d =
     (case d of Scalar v \<Rightarrow> True
      | Octets b \<Rightarrow> PB_LTYPE (fld_type f) = PB_LTYPE_STRING \<longrightarrow> 0 \<notin> set (butlast b))"

lemma field_codec:
  assumes "fits_field f d" "no_inner_nul f d" "fld_data_size f < 2 ^ 32" "fst (malloc_step m)"
  shows "codec (wire_type_of f) (PB_ENCODERS f d) (PB_DECODERS f m) d"
proof (cases d)
  case (Scalar v)
  let ?t = "PB_LTYPE (fld_type f)" and ?n = "fld_data_size f"
  have num: "int_size ?n \<and> take_bit (8 * ?n) v = v" if "?t = 0 \<or> ?t = 1 \<or> ?t = 2"
    using assms(1) that unfolding fits_field_def Scalar Let_def field_data.case by simp
  have "?t = 0 \<or> ?t = 1 \<or> ?t = 2 \<or> ?t = 3 \<or> ?t = 4"
    using assms(1) unfolding fits_field_def Scalar Let_def field_data.case by (simp split: if_splits; blast)
  then show ?thesis
  proof (elim disjE)
    assume t: "?t = 0"
    with num scalar_codecs(1)[of f v] show ?thesis
      unfolding PB_ENCODERS_def PB_DECODERS_def wire_type_of_def Let_def Scalar field_data.case t by simp
  next
    assume t: "?t = 1"
    with num scalar_codecs(2)[of f v] show ?thesis
      unfolding PB_ENCODERS_def PB_DECODERS_def wire_type_of_def Let_def Scalar field_data.case t by simp
  next
    assume t: "?t = 2"
    with num scalar_codecs(3)[of f v] show ?thesis
      unfolding PB_ENCODERS_def PB_DECODERS_def wire_type_of_def Let_def Scalar field_data.case t by simp
  next
    assume t: "?t = 3"
    then have "take_bit 32 v = v"
      using assms(1) unfolding fits_field_def Scalar Let_def field_data.case by simp
    with t fixed_codecs(1)[of v] show ?thesis
      unfolding PB_ENCODERS_def PB_DECODERS_def wire_type_of_def Let_def Scalar field_data.case t by simp
  next
    assume t: "?t = 4"
    with fixed_codecs(2)[of v] show ?thesis
      unfolding PB_ENCODERS_def PB_DECODERS_def wire_type_of_def Let_def Scalar field_data.case t by simp
  qed
next
  case (Octets b)
  have "PB_LTYPE (fld_type f) = 5 \<or> PB_LTYPE (fld_type f) = 6 \<or> PB_LTYPE (fld_type f) = 9"
    using assms(1) unfolding fits_field_def Octets Let_def field_data.case by (simp split: if_splits; blast)
  then consider "PB_LTYPE (fld_type f) = PB_LTYPE_BYTES" | "PB_LTYPE (fld_type f) = PB_LTYPE_STRING"
    | "PB_LTYPE (fld_type f) = PB_LTYPE_FIXED_LENGTH_BYTES" by blast
  then show ?thesis
  proof cases
    case 1
    with assms(1,4) Octets show ?thesis
      using bytes_codec[of f b m] by (simp add: fits_field_def PB_ENCODERS_def PB_DECODERS_def wire_type_of_def)
  next
    case 2
    then have f: "b \<noteq> [] \<and> last b = 0 \<and> length b < 2 ^ 32 \<and>
        (PB_ATYPE (fld_type f) = PB_ATYPE_POINTER \<or> length b \<le> fld_data_size f)"
      using assms(1) unfolding fits_field_def Octets Let_def field_data.case by simp
    have "0 \<notin> set (butlast b)"
      using assms(2) 2 unfolding no_inner_nul_def Octets field_data.case by simp
    with f have b: "b = butlast b @ [0]" "0 \<notin> set (butlast b)" "length b < 2 ^ 32"
      "PB_ATYPE (fld_type f) = PB_ATYPE_POINTER \<or> length b \<le> fld_data_size f"
      using append_butlast_last_id[of b] by simp_all
    then have "length b = length (butlast b) + 1" by (metis length_append_singleton Suc_eq_plus1)
    with b string_codec[of f "butlast b" m] assms(4) have
      "codec PB_WT_STRING (pb_enc_string f (Some b)) (is_map Octets (pb_dec_string f m)) (Octets b)" by metis
    with 2 Octets show ?thesis by (simp add: PB_ENCODERS_def PB_DECODERS_def wire_type_of_def)
  next
    case 3
    with assms(1,3) Octets show ?thesis
      using fixed_length_codec[of b f] by (simp add: fits_field_def PB_ENCODERS_def PB_DECODERS_def wire_type_of_def)
  qed
qed

lemma tag_for_field:
  assumes "fits_field f d"
  shows "pb_encode_tag_for_field f = pb_encode_tag (wire_type_of f) (fld_tag f)"
proof -
  have "PB_LTYPE (fld_type f) \<in> {0, 1, 2, 3, 4, 5, 6, 9}"
    using assms unfolding fits_field_def Let_def by (simp split: field_data.splits if_splits; blast)
  then show ?thesis
    unfolding fun_eq_iff pb_encode_tag_for_field_def wire_type_of_def Let_def
    by (elim insertE emptyE; simp)
qed

lemma tag_decodes:
  assumes "0 < t" "t < 2 ^ 29" "wt_of (wt_code wt) = wt"
  shows "pb_decode_tag (ahead (varint_bytes (tag_word wt t)) s) = (Some (wt, t), False, s)"
proof -
  let ?c = "wt_code wt"
  let ?x = "push_bit 3 t OR ucast ?c :: u32"
  have lo: "n < 3" if "bit ?c n" for n using bit_imp_le_length[OF that] by simp
  have hi: "n < 29" if "bit t n" for n
  proof (rule ccontr)
    assume "\<not> n < 29"
    have "(2::nat) ^ 29 \<le> 2 ^ n" using \<open>\<not> n < 29\<close> by (intro power_increasing) simp_all
    then have "unat t < 2 ^ n" using assms(2) by (simp add: word_less_nat_alt)
    then have "unat (drop_bit n t) = 0" by (simp add: unat_drop_bit)
    then show False using that by (simp add: bit_iff_odd_drop_bit unat_eq_0)
  qed
  have "tag_word wt t = ucast ?x"
    unfolding tag_word_def by (intro bit_word_eqI) (auto simp: bit_simps dest: hi lo)
  then have v: "pb_decode_varint32_eof (ahead (varint_bytes (tag_word wt t)) s) = (Some ?x, False, s)"
    by (intro varint32_eof_ahead) (simp add: extends_def)
  have "drop_bit 3 ?x = t"
    by (intro bit_word_eqI) (auto simp: bit_simps dest: hi lo)
  moreover have seven: "(7 :: u32) = mask 3" by (simp add: mask_eq_exp_minus_1)
  have "ucast (?x AND 7) = ?c"
    unfolding seven by (intro bit_word_eqI) (auto simp: bit_simps dest: bit_imp_le_length)
  moreover have "?x \<noteq> 0" using \<open>drop_bit 3 ?x = t\<close> assms(1) by (metis drop_bit_of_0 word_less_nat_alt less_irrefl)
  ultimately show ?thesis using assms(3) by (simp add: pb_decode_tag_def v)
qed

lemma wire_type_of_field: "wt_of (wt_code (wire_type_of f)) = wire_type_of f"
  by (simp add: wire_type_of_def wt_of_def Let_def)

lemma required_field:
  assumes "fits_field f d" "no_inner_nul f d" "fld_data_size f < 2 ^ 32" "fst (malloc_step m)"
    "0 < fld_tag f" "fld_tag f < 2 ^ 29"
  obtains bs where "encoder (encode_required_field f d) bs"
    "\<And>s. \<exists>s2. pb_decode_tag (ahead bs s) = (Some (wire_type_of f, fld_tag f), False, s2) \<and>
       PB_DECODERS f m s2 = (Some d, s) \<and> pb_skip_field (wire_type_of f) s2 = (Some (), s)"
proof -
  obtain bs where bs: "encoder (PB_ENCODERS f d) bs" "skips (wire_type_of f) bs" "decodes (PB_DECODERS f m) bs d"
    using field_codec[OF assms(1-4)] by (auto simp: codec_def)
  let ?t = "varint_bytes (tag_word (wire_type_of f) (fld_tag f))"
  have "encoder (encode_required_field f d) (?t @ bs)"
    unfolding encode_required_field_def tag_for_field[OF assms(1)]
    by (intro then_encoder tagenc.encoder_axioms bs(1))
  then show thesis
    by (rule that) (simp add: ahead_append tag_decodes[OF assms(5,6) wire_type_of_field] bs(2,3)[THEN decodesD])
qed

lemma from_buffer_ahead: "pb_istream_from_buffer (bs @ rest) = ahead bs (pb_istream_from_buffer rest)"
  by (simp add: pb_istream_from_buffer_def ahead_def)

lemma to_buffer:
  assumes "encoder enc bs"
  shows "pb_get_encoded_size enc = Some (length bs)"
    "length bs \<le> n \<Longrightarrow> enc (pb_ostream_from_buffer n) = (True, emit bs (pb_ostream_from_buffer n))"
    "n < length bs \<Longrightarrow> \<not> fst (enc (pb_ostream_from_buffer n)) \<and> os_err (snd (enc (pb_ostream_from_buffer n))) \<noteq> None"
  using encoder.sized[OF assms] encoder.fits[OF assms, of "pb_ostream_from_buffer n"]
    encoder.full[OF assms, of "pb_ostream_from_buffer n"]
  by (simp_all add: room_def pb_ostream_from_buffer_def)

lemma emit_buffer [simp]: "os_out (emit bs (pb_ostream_from_buffer n)) = bs"
  by (simp add: emit_def pb_ostream_from_buffer_def)

text \<open>
  C7: a required field with its tag. The size that \<open>pb_get_encoded_size\<close> computes is the number of
  bytes written, and writing fails with a message exactly when the buffer is smaller. On the bytes
  written, followed by any others, \<open>pb_decode_tag\<close> finds the tag and the wire type, the decoder of
  the field gives the data back, whatever the field's type (integers of each size and sign, bytes,
  strings, fixed-length bytes, in static or allocated memory), and \<open>pb_skip_field\<close> passes over
  exactly the same bytes.
\<close>

theorem field_roundtrip:
  assumes "fits_field f d" "no_inner_nul f d" "fld_data_size f < 2 ^ 32" "fst (malloc_step m)"
    "0 < fld_tag f" "fld_tag f < 2 ^ 29"
  shows "\<exists>size. pb_get_encoded_size (encode_required_field f d) = Some size \<and>
    (case encode_required_field f d (pb_ostream_from_buffer n) of (ok, os) \<Rightarrow>
       if size \<le> n
       then ok \<and> length (os_out os) = size \<and>
         (\<exists>s. pb_decode_tag (pb_istream_from_buffer (os_out os @ rest)) = (Some (wire_type_of f, fld_tag f), False, s) \<and>
            PB_DECODERS f m s = (Some d, pb_istream_from_buffer rest) \<and>
            pb_skip_field (wire_type_of f) s = (Some (), pb_istream_from_buffer rest))
       else \<not> ok \<and> os_err os \<noteq> None)"
proof -
  obtain bs where bs: "encoder (encode_required_field f d) bs"
    "\<And>s. \<exists>s2. pb_decode_tag (ahead bs s) = (Some (wire_type_of f, fld_tag f), False, s2) \<and>
       PB_DECODERS f m s2 = (Some d, s) \<and> pb_skip_field (wire_type_of f) s2 = (Some (), s)"
    using required_field[OF assms] by blast
  show ?thesis
    using to_buffer(1)[OF bs(1)] to_buffer(2,3)[OF bs(1), of n] bs(2)[of "pb_istream_from_buffer rest"]
    by (intro exI[of _ "length bs"]) (auto simp: from_buffer_ahead not_le split: prod.split)
qed

lemma field_roundtrip_witness:
  "\<exists>s. pb_decode_tag (pb_istream_from_buffer [0x1A, 2, 104, 105, 7]) = (Some (PB_WT_STRING, 3), False, s) \<and>
     PB_DECODERS \<lparr>fld_tag = 3, fld_type = 0x06, fld_data_size = 8\<rparr> [True] s
       = (Some (Octets [104, 105, 0]), pb_istream_from_buffer [7])"
proof -
  let ?f = "\<lparr>fld_tag = 3, fld_type = 0x06, fld_data_size = 8\<rparr>" and ?d = "Octets [104, 105, 0]"
  have "fits_field ?f ?d" "no_inner_nul ?f ?d" "fst (malloc_step [True])"
    by (simp_all add: fits_field_def no_inner_nul_def PB_LTYPE_def PB_ATYPE_def)
  note r = field_roundtrip[OF this(1,2) _ this(3), where rest = "[7]" and n = 10, simplified]
  note defs = encode_required_field_def pb_encode_tag_for_field_def PB_ENCODERS_def PB_LTYPE_def PB_ATYPE_def
    pb_enc_string_def pb_encode_string_def os_then_def pb_encode_tag_def pb_encode_varint_def pb_write_def
  have "pb_get_encoded_size (encode_required_field ?f ?d) = Some 4"
    by (simp add: defs pb_get_encoded_size_def PB_OSTREAM_SIZING_def Let_def)
  moreover have "os_out (snd (encode_required_field ?f ?d (pb_ostream_from_buffer 10))) = [0x1A, 2, 104, 105]"
    by (simp add: defs pb_ostream_from_buffer_def Let_def)
  moreover have "wire_type_of ?f = PB_WT_STRING" by (simp add: wire_type_of_def PB_LTYPE_def)
  ultimately show ?thesis using r by (auto split: prod.splits)
qed

subsection \<open>Packed arrays\<close>

fun encode_items :: "pb_field \<Rightarrow> field_data list \<Rightarrow> ostream \<Rightarrow> bool \<times> ostream" where
  "encode_items f [] s = (True, s)"
| "encode_items f (d # ds) s = os_then (PB_ENCODERS f d) (encode_items f ds) s"

fun encode_each :: "pb_field \<Rightarrow> field_data list \<Rightarrow> ostream \<Rightarrow> bool \<times> ostream" where
  "encode_each f [] s = (True, s)"
| "encode_each f (d # ds) s =
     os_then (pb_encode_tag_for_field f) (os_then (PB_ENCODERS f d) (encode_each f ds)) s"

abbreviation (input) PB_LTYPE_LAST_PACKABLE :: u8 where "PB_LTYPE_LAST_PACKABLE \<equiv> 0x04"

definition encode_array :: "nat \<Rightarrow> pb_field \<Rightarrow> field_data list \<Rightarrow> ostream \<Rightarrow> bool \<times> ostream" where
  "encode_array array_size f ds s =
     (let count = length ds; t = PB_LTYPE (fld_type f) in
      if count = 0 then (True, s)
      else if PB_ATYPE (fld_type f) \<noteq> PB_ATYPE_POINTER \<and> array_size < count
      then os_error ''array max size exceeded'' s
      else if t \<le> PB_LTYPE_LAST_PACKABLE
      then (case pb_encode_tag PB_WT_STRING (fld_tag f) s of
              (False, s) \<Rightarrow> (False, s)
            | (True, s) \<Rightarrow>
                (case (if t = PB_LTYPE_FIXED32 then (True, 4 * count)
                       else if t = PB_LTYPE_FIXED64 then (True, 8 * count)
                       else (case encode_items f ds PB_OSTREAM_SIZING of (ok, sub) \<Rightarrow> (ok, os_written sub))) of
                   (False, nbytes) \<Rightarrow> (False, s)
                 | (True, nbytes) \<Rightarrow>
                     (case pb_encode_varint (of_nat nbytes) s of
                        (False, s) \<Rightarrow> (False, s)
                      | (True, s) \<Rightarrow>
                          if os_sizing s then pb_write (replicate nbytes 0) s
                          else encode_items f ds s)))
      else encode_each f ds s)"

text \<open>The loop of \<open>decode_static_field\<close> over a packed array: the items so far, the status, the substream.\<close>

function packed_loop :: "pb_field \<Rightarrow> oom \<Rightarrow> nat \<Rightarrow> field_data list \<Rightarrow> istream \<Rightarrow> field_data list \<times> bool \<times> istream" where
  "packed_loop f m array_size items sub =
     (if 0 < is_left sub \<and> length items < array_size
      then (case PB_DECODERS f m sub of
              (None, sub) \<Rightarrow> (items, False, sub)
            | (Some d, sub) \<Rightarrow> packed_loop f m array_size (items @ [d]) sub)
      else (items, True, sub))"
  by pat_completeness auto
termination
  by (relation "measure (\<lambda>(f, m, n, items, s). n - length items)") auto

declare packed_loop.simps [simp del]

definition decode_static_packed :: "pb_field \<Rightarrow> oom \<Rightarrow> nat \<Rightarrow> field_data list \<Rightarrow> field_data list reader" where
  "decode_static_packed f m array_size items s =
     (case pb_make_string_substream s of
        (None, s) \<Rightarrow> (None, s)
      | (Some sub, s) \<Rightarrow>
          (case packed_loop f m array_size items sub of
             (items, status, sub) \<Rightarrow>
               if is_left sub \<noteq> 0 then is_error ''array overflow'' s
               else (case pb_close_string_substream s sub of
                   (False, s) \<Rightarrow> (None, s)
                 | (True, s) \<Rightarrow> (if status then (Some items, s) else (None, s)))))"

text \<open>What no decoder reads from an empty stream has a byte.\<close>

lemma skips_nonempty: "skips wt bs \<Longrightarrow> bs \<noteq> []"
proof
  assume "skips wt bs" "bs = []"
  then have "pb_skip_field wt (pb_istream_from_buffer []) = (Some (), pb_istream_from_buffer [])"
    by (metis ahead_Nil decodesD)
  moreover have "fst (pb_skip_field wt (pb_istream_from_buffer [])) = None"
    by (cases wt) (simp_all add: pb_skip_field_def pb_istream_from_buffer_def pb_skip_varint.simps pb_read_def
        is_error_def pb_skip_bytes_def is_bind_def pb_skip_string_def pb_decode_varint32_def
        pb_decode_varint32_eof_def pb_readbyte_def)
  ultimately show False by simp
qed

definition item_bytes :: "pb_field \<Rightarrow> oom \<Rightarrow> field_data \<Rightarrow> u8 list \<Rightarrow> bool" where
  "item_bytes f m d bs \<longleftrightarrow> encoder (PB_ENCODERS f d) bs \<and> decodes (PB_DECODERS f m) bs d \<and> bs \<noteq> []"

lemma items_codec:
  assumes "list_all (\<lambda>d. fits_field f d \<and> no_inner_nul f d) ds" "fld_data_size f < 2 ^ 32" "fst (malloc_step m)"
  shows "\<exists>bss. list_all2 (item_bytes f m) ds bss"
  using assms(1)
proof (induction ds)
  case Nil
  show ?case by (rule exI[of _ "[]"]) simp
next
  case (Cons d ds)
  then obtain bs where "item_bytes f m d bs"
    using field_codec[OF _ _ assms(2,3), of d] skips_nonempty by (auto simp: codec_def item_bytes_def)
  with Cons show ?case by (auto simp: list_all2_Cons1)
qed

lemma then_done: "os_then f (encode_items g []) = f"
  by (auto simp: fun_eq_iff os_then_def split: prod.split bool.split)

lemma items_encoder: "list_all2 (item_bytes f m) ds bss \<Longrightarrow> ds \<noteq> [] \<Longrightarrow> encoder (encode_items f ds) (concat bss)"
proof (induction rule: list_all2_induct)
  case (Cons d ds bs bss)
  have d: "encoder (PB_ENCODERS f d) bs" using Cons(1) by (simp add: item_bytes_def)
  show ?case
  proof (cases "ds = []")
    case True
    with d Cons(2) show ?thesis by (simp add: encode_items.simps(2)[abs_def] then_done)
  next
    case False
    then have "encoder (os_then (PB_ENCODERS f d) (encode_items f ds)) (bs @ concat bss)"
      using Cons by (intro then_encoder d) simp_all
    then show ?thesis by (simp add: encode_items.simps(2)[abs_def])
  qed
qed simp

lemma fixed_item_size:
  assumes "item_bytes f m d bs" "fits_field f d"
  shows "PB_LTYPE (fld_type f) = PB_LTYPE_FIXED32 \<Longrightarrow> length bs = 4"
    "PB_LTYPE (fld_type f) = PB_LTYPE_FIXED64 \<Longrightarrow> length bs = 8"
proof -
  have n: "pb_get_encoded_size (PB_ENCODERS f d) = Some (length bs)"
    using assms(1) by (intro encoder.sized) (simp add: item_bytes_def)
  have d: "\<exists>v. d = Scalar v" if "PB_LTYPE (fld_type f) = 3 \<or> PB_LTYPE (fld_type f) = 4"
    using assms(2) that unfolding fits_field_def Let_def by (cases d) auto
  show "length bs = 4" if "PB_LTYPE (fld_type f) = PB_LTYPE_FIXED32"
    using n d that f32enc.sized by (auto simp: PB_ENCODERS_def fixed32_bytes_def)
  show "length bs = 8" if "PB_LTYPE (fld_type f) = PB_LTYPE_FIXED64"
    using n d that f64enc.sized by (auto simp: PB_ENCODERS_def fixed64_bytes_def)
qed

lemma fixed_items_size:
  assumes "list_all2 (item_bytes f m) ds bss" "list_all (fits_field f) ds"
  shows "PB_LTYPE (fld_type f) = PB_LTYPE_FIXED32 \<Longrightarrow> length (concat bss) = 4 * length ds"
    "PB_LTYPE (fld_type f) = PB_LTYPE_FIXED64 \<Longrightarrow> length (concat bss) = 8 * length ds"
  using assms by (induction rule: list_all2_induct) (auto dest: fixed_item_size)

lemma sized_data_encoder:
  assumes "encoder enc bs"
  shows "encoder (\<lambda>s. if os_sizing s then pb_write (replicate (length bs) 0) s else enc s) bs"
proof
  fix s :: ostream assume "os_err s = None" "room s (length bs)"
  then show "(if os_sizing s then pb_write (replicate (length bs) 0) s else enc s) = (True, emit bs s)"
    using encoder.fits[OF assms, of s] emit_sizing[of s "replicate (length bs) 0" bs]
    by (simp add: pb_write_def emit_def)
qed (use encoder.full[OF assms] in \<open>auto simp: room_def\<close>)

lemma array_encoder:
  assumes "list_all2 (item_bytes f m) ds bss" "list_all (fits_field f) ds" "ds \<noteq> []"
    "PB_LTYPE (fld_type f) \<le> PB_LTYPE_LAST_PACKABLE"
    "PB_ATYPE (fld_type f) = PB_ATYPE_POINTER \<or> length ds \<le> array_size"
  shows "encoder (encode_array array_size f ds)
    (varint_bytes (tag_word PB_WT_STRING (fld_tag f)) @ string_bytes (concat bss))"
proof -
  let ?t = "PB_LTYPE (fld_type f)"
  have E: "encoder (encode_items f ds) (concat bss)" by (rule items_encoder[OF assms(1,3)])
  have sz: "(if ?t = PB_LTYPE_FIXED32 then (True, 4 * length ds) else if ?t = PB_LTYPE_FIXED64 then (True, 8 * length ds)
      else (case encode_items f ds PB_OSTREAM_SIZING of (ok, sub) \<Rightarrow> (ok, os_written sub))) = (True, length (concat bss))"
    using fixed_items_size[OF assms(1,2)] encoder.sizing_pass[OF E] by (simp add: PB_OSTREAM_SIZING_def)
  have "encode_array array_size f ds = os_then (pb_encode_tag PB_WT_STRING (fld_tag f))
      (os_then (pb_encode_varint (of_nat (length (concat bss))))
        (\<lambda>s. if os_sizing s then pb_write (replicate (length (concat bss)) 0) s else encode_items f ds s))"
    unfolding fun_eq_iff encode_array_def Let_def sz os_then_def using assms(3-5)
    by (auto split: prod.split bool.split)
  then show ?thesis
    unfolding string_bytes_def
    by (simp only:) (intro then_encoder tagenc.encoder_axioms venc.encoder_axioms sized_data_encoder E)
qed

lemma packed_loop_items:
  "list_all2 (item_bytes f m) ds bss \<Longrightarrow> length items + length ds \<le> k \<Longrightarrow> is_left s = 0 \<Longrightarrow>
     packed_loop f m k items (ahead (concat bss) s) = (items @ ds, True, s)"
proof (induction arbitrary: items rule: list_all2_induct)
  case Nil
  then show ?case by (subst packed_loop.simps) simp
next
  case (Cons d ds bs bss)
  have d: "PB_DECODERS f m (ahead bs (ahead (concat bss) s)) = (Some d, ahead (concat bss) s)"
    using Cons(1) by (simp add: item_bytes_def decodesD)
  have "0 < is_left (ahead (bs @ concat bss) s)" using Cons(1) by (simp add: ahead_def item_bytes_def)
  with Cons d show ?case by (subst packed_loop.simps) (simp add: ahead_append)
qed

text \<open>The substream of a string that was written, and closing it after its bytes were consumed.\<close>

lemma string_substream:
  assumes "length b < 2 ^ 32"
  shows "pb_make_string_substream (ahead (string_bytes b) s) =
    (Some (ahead b (s\<lparr>is_left := 0\<rparr>)), (ahead b s)\<lparr>is_left := is_left s\<rparr>)"
  using length_decodes[OF assms]
  by (simp add: pb_make_string_substream_def string_bytes_def ahead_append is_bind_def decodesD)
    (simp add: ahead_def)

lemma close_consumed:
  "pb_close_string_substream ((ahead b s)\<lparr>is_left := is_left s\<rparr>) (s\<lparr>is_left := 0\<rparr>) = (True, s)"
  by (simp add: pb_close_string_substream_def ahead_def)

lemma packed_decodes:
  assumes "list_all2 (item_bytes f m) ds bss" "length ds \<le> k" "length (concat bss) < 2 ^ 32"
  shows "decodes (decode_static_packed f m k []) (string_bytes (concat bss)) ds"
  using packed_loop_items[OF assms(1), of "[]" k "s\<lparr>is_left := 0\<rparr>" for s] assms(2)
  by (simp add: decodes_def decode_static_packed_def string_substream[OF assms(3)] close_consumed)

text \<open>
  A packed array of numbers, encoded by \<open>encode_array\<close> into a buffer that has room for it,
  is read back by the packed branch of \<open>decode_static_field\<close> as the same items in the same order,
  with nothing left over; \<open>encode_array\<close> reports success exactly when the size it computes fits.
\<close>

theorem packed_array_roundtrip:
  assumes "list_all (fits_field f) ds" "ds \<noteq> []" "length ds \<le> array_size"
    "PB_LTYPE (fld_type f) \<le> PB_LTYPE_LAST_PACKABLE" "fld_data_size f < 2 ^ 32"
    "0 < fld_tag f" "fld_tag f < 2 ^ 29" "n < 2 ^ 32"
  shows "\<exists>sz. pb_get_encoded_size (encode_array array_size f ds) = Some sz \<and>
    (case encode_array array_size f ds (pb_ostream_from_buffer n) of (ok, os) \<Rightarrow>
       if sz \<le> n
       then ok \<and> length (os_out os) = sz \<and>
         (\<exists>s. pb_decode_tag (pb_istream_from_buffer (os_out os @ rest)) = (Some (PB_WT_STRING, fld_tag f), False, s) \<and>
            decode_static_packed f [] array_size [] s = (Some ds, pb_istream_from_buffer rest))
       else \<not> ok \<and> os_err os \<noteq> None)"
proof -
  have "PB_LTYPE (fld_type f) \<noteq> 6"
  proof
    assume "PB_LTYPE (fld_type f) = 6"
    with assms(4) show False by simp
  qed
  then have "no_inner_nul f d" for d
    unfolding no_inner_nul_def by (simp only: simp_thms split: field_data.split)
  then have "list_all (\<lambda>d. fits_field f d \<and> no_inner_nul f d) ds" using assms(1) by simp
  then obtain bss where bss: "list_all2 (item_bytes f []) ds bss"
    using items_codec[of f ds "[]"] assms(5) by auto
  let ?bs = "varint_bytes (tag_word PB_WT_STRING (fld_tag f)) @ string_bytes (concat bss)"
  have E: "encoder (encode_array array_size f ds) ?bs"
    using array_encoder[OF bss assms(1,2,4)] assms(3) by simp
  have "length ?bs \<le> n \<Longrightarrow> length (concat bss) < 2 ^ 32" using assms(8) by (simp add: string_bytes_def)
  then have "decode_static_packed f [] array_size [] (ahead (string_bytes (concat bss)) s) = (Some ds, s)"
    if "length ?bs \<le> n" for s
    using that by (intro decodesD[OF packed_decodes[OF bss assms(3)]])
  moreover have "pb_decode_tag (ahead (varint_bytes (tag_word PB_WT_STRING (fld_tag f))) s) = (Some (PB_WT_STRING, fld_tag f), False, s)" for s
    by (rule tag_decodes[OF assms(6,7)]) (simp add: wt_of_def)
  ultimately show ?thesis
    using to_buffer(1)[OF E] to_buffer(2,3)[OF E, of n]
    by (intro exI[of _ "length ?bs"]) (auto simp: from_buffer_ahead ahead_append not_le split: prod.split)
qed

lemma packed_array_roundtrip_witness:
  "\<exists>s. pb_decode_tag (pb_istream_from_buffer [0x0A, 3, 1, 0xAC, 2, 9]) = (Some (PB_WT_STRING, 1), False, s) \<and>
     decode_static_packed \<lparr>fld_tag = 1, fld_type = 0x21, fld_data_size = 4\<rparr> [] 5 [] s
       = (Some [Scalar 1, Scalar 300], pb_istream_from_buffer [9])"
proof -
  let ?f = "\<lparr>fld_tag = 1, fld_type = 0x21, fld_data_size = 4\<rparr>" and ?ds = "[Scalar 1, Scalar 300]"
  have "take_bit 32 (300 :: u64) = 300" by (simp add: take_bit_eq_mod)
  then have "list_all (fits_field ?f) ?ds"
    by (simp add: fits_field_def PB_LTYPE_def int_size_def)
  note r = packed_array_roundtrip[OF this, of 5 100 "[9]", simplified]
  note defs = encode_array_def pb_encode_tag_def PB_ENCODERS_def PB_LTYPE_def PB_ATYPE_def pb_enc_uvarint_def
    load_unsigned_def enc_loaded_def os_then_def pb_encode_varint_def varint_groups.simps pb_write_def
  have "pb_get_encoded_size (encode_array 5 ?f ?ds) = Some 5"
    by (simp add: defs pb_get_encoded_size_def PB_OSTREAM_SIZING_def Let_def)
  moreover have "os_out (snd (encode_array 5 ?f ?ds (pb_ostream_from_buffer 100))) = [0x0A, 3, 1, 0xAC, 2]"
    by (simp add: defs pb_ostream_from_buffer_def PB_OSTREAM_SIZING_def Let_def)
  moreover have "PB_LTYPE (fld_type ?f) \<le> 4" by (simp add: PB_LTYPE_def)
  ultimately show ?thesis using r by (auto split: prod.splits)
qed

subsection \<open>What decoding stores\<close>

lemma bind_some:
  assumes "is_bind f g s = (Some y, s2)"
  obtains x s1 where "f s = (Some x, s1)" "g x s1 = (Some y, s2)"
  using assms by (cases "f s") (auto simp: is_bind_def split: option.splits)

lemma return_some: "is_return x s = (Some y, s2) \<Longrightarrow> y = x \<and> s2 = s"
  by (simp add: is_return_def)

lemma error_some: "is_error e s \<noteq> (Some y, s2)"
  by (simp add: is_error_def)

lemma read_some: "pb_read n s = (Some b, s2) \<Longrightarrow> stream_ok s \<Longrightarrow> length b = n"
  by (auto simp: pb_read_def is_error_def buf_read_def stream_ok_def split: if_splits)

lemma ok_after: "advanced s s2 \<Longrightarrow> stream_ok s \<Longrightarrow> stream_ok s2"
  using advanced_ok by blast

lemma varint32_ok: "pb_decode_varint32 s = (r, s2) \<Longrightarrow> stream_ok s \<Longrightarrow> stream_ok s2"
  using varint32_advanced[of s] ok_after by simp

lemma stored_fits:
  assumes "dec_stored n load v s = (Some x, s2)" "\<And>v w. load n v = Some w \<Longrightarrow> int_size n"
  shows "int_size n \<and> take_bit (8 * n) x = x"
  using assms by (auto simp: dec_stored_def store_def is_error_def is_return_def split: option.splits if_splits)

lemma dec_int_fits:
  "pb_dec_varint f s = (Some x, s2) \<Longrightarrow> int_size (fld_data_size f) \<and> take_bit (8 * fld_data_size f) x = x"
  "pb_dec_uvarint f s = (Some x, s2) \<Longrightarrow> int_size (fld_data_size f) \<and> take_bit (8 * fld_data_size f) x = x"
  "pb_dec_svarint f s = (Some x, s2) \<Longrightarrow> int_size (fld_data_size f) \<and> take_bit (8 * fld_data_size f) x = x"
  unfolding pb_dec_varint_def pb_dec_uvarint_def pb_dec_svarint_def Let_def
  by (erule bind_some, erule stored_fits, erule load_sized)+

lemma dec_bytes_fits:
  assumes "pb_dec_bytes f m s = (Some b, s2)" "stream_ok s"
  shows "length b < 2 ^ 32 \<and> (PB_ATYPE (fld_type f) = PB_ATYPE_POINTER \<or> PB_BYTES_ARRAY_T_ALLOCSIZE (length b) \<le> fld_data_size f)"
proof -
  obtain n s1 where n: "pb_decode_varint32 s = (Some n, s1)"
    "is_bind (if PB_ATYPE (fld_type f) = PB_ATYPE_POINTER then allocate_field (PB_BYTES_ARRAY_T_ALLOCSIZE (unat n)) 1 m
       else if fld_data_size f < PB_BYTES_ARRAY_T_ALLOCSIZE (unat n) then is_error ''bytes overflow'' else is_return ())
      (\<lambda>_. pb_read (unat n)) s1 = (Some b, s2)"
    using assms(1) unfolding pb_dec_bytes_def Let_def by (rule bind_some)
  from n(2) obtain u s3 where a: "(if PB_ATYPE (fld_type f) = PB_ATYPE_POINTER then allocate_field (PB_BYTES_ARRAY_T_ALLOCSIZE (unat n)) 1 m
       else if fld_data_size f < PB_BYTES_ARRAY_T_ALLOCSIZE (unat n) then is_error ''bytes overflow'' else is_return ()) s1 = (Some u, s3)"
    "pb_read (unat n) s3 = (Some b, s2)" by (rule bind_some)
  have "advanced s1 s3"
    using a(1) allocate_advanced[of s1 "PB_BYTES_ARRAY_T_ALLOCSIZE (unat n)" 1 m]
    by (auto simp: is_error_def is_return_def advanced_refl split: if_splits)
  then have "length b = unat n" using a(2) varint32_ok[OF n(1) assms(2)] ok_after read_some by blast
  with a(1) show ?thesis
    using unsigned_less[of n, where 'a = nat] by (auto simp: is_error_def split: if_splits)
qed

lemma dec_string_fits:
  assumes "pb_dec_string f m s = (Some b, s2)" "stream_ok s"
  shows "b \<noteq> [] \<and> last b = 0 \<and> length b < 2 ^ 32 \<and>
    (PB_ATYPE (fld_type f) = PB_ATYPE_POINTER \<or> length b \<le> fld_data_size f)"
proof -
  let ?chk = "\<lambda>n. if PB_ATYPE (fld_type f) = PB_ATYPE_POINTER then allocate_field (unat (n + 1)) 1 m
       else if fld_data_size f < unat (n + 1) then is_error ''string overflow'' else is_return ()"
  obtain n s1 where n: "pb_decode_varint32 s = (Some n, s1)"
    "(if unat (n + 1) < unat n then is_error ''size too large''
      else is_bind (?chk n) (\<lambda>_. is_bind (pb_read (unat n)) (\<lambda>b. is_return (b @ [0])))) s1 = (Some b, s2)"
    using assms(1) unfolding pb_dec_string_def Let_def by (rule bind_some)
  then have nowrap: "\<not> unat (n + 1) < unat n"
    and rest: "is_bind (?chk n) (\<lambda>_. is_bind (pb_read (unat n)) (\<lambda>b. is_return (b @ [0]))) s1 = (Some b, s2)"
    by (auto simp: is_error_def split: if_splits)
  obtain u s3 where a: "?chk n s1 = (Some u, s3)"
    "is_bind (pb_read (unat n)) (\<lambda>b. is_return (b @ [0])) s3 = (Some b, s2)" by (rule bind_some[OF rest])
  obtain c s4 where c: "pb_read (unat n) s3 = (Some c, s4)" "is_return (c @ [0]) s4 = (Some b, s2)"
    by (rule bind_some[OF a(2)])
  have "advanced s1 s3"
    using a(1) allocate_advanced[of s1 "unat (n + 1)" 1 m]
    by (auto simp: is_error_def is_return_def advanced_refl split: if_splits)
  then have len: "length c = unat n" using c(1) varint32_ok[OF n(1) assms(2)] ok_after read_some by blast
  have "unat (n + 1) = (unat n + 1) mod 2 ^ 32" by (simp add: unat_word_ariths)
  then have "unat (n + 1) = unat n + 1"
    using nowrap unsigned_less[of n, where 'a = nat] by (cases "unat n + 1 = 2 ^ 32") simp_all
  with a(1) c(2) len show ?thesis
    using unsigned_less[of "n + 1", where 'a = nat]
    by (auto simp: is_error_def is_return_def split: if_splits)
qed

lemma dec_fixed_length_fits:
  assumes "pb_dec_fixed_length_bytes f s = (Some b, s2)" "stream_ok s"
  shows "length b = fld_data_size f"
proof -
  obtain n s1 where n: "pb_decode_varint32 s = (Some n, s1)"
    "(if n = 0 then is_return (replicate (fld_data_size f) 0)
      else if unat n \<noteq> fld_data_size f then is_error ''incorrect fixed length bytes size''
      else pb_read (fld_data_size f)) s1 = (Some b, s2)"
    using assms(1) unfolding pb_dec_fixed_length_bytes_def by (rule bind_some)
  then show ?thesis
    using varint32_ok[OF n(1) assms(2)]
    by (auto simp: is_return_def is_error_def dest: read_some split: if_splits)
qed

lemma map_some: "is_map h r s = (Some d, s2) \<Longrightarrow> \<exists>x. r s = (Some x, s2) \<and> d = h x"
  unfolding is_map_def by (erule bind_some) (simp add: is_return_def)

text \<open>
  C29: what a decoder stores is within its field. Whatever bytes the stream holds, when the decoder
  of a field succeeds, its result has the type the descriptor gives the field: an integer of one
  of the four sizes that fits that size, bytes with their length word, a string with its NUL, or
  the exact number of fixed-length bytes, in a static field no more than \<open>data_size\<close> bytes.
\<close>

theorem decoded_data_fits:
  assumes "stream_ok s" "PB_DECODERS f m s = (Some d, s2)"
  shows "fits_field f d"
proof -
  have "PB_LTYPE (fld_type f) \<in> {0, 1, 2, 3, 4, 5, 6, 9}"
    using assms(2) unfolding PB_DECODERS_def Let_def by (auto simp: is_error_def split: if_splits)
  moreover have "take_bit 32 (ucast (v :: u32) :: u64) = ucast v" for v
    by (rule bit_word_eqI) (auto simp: bit_simps dest: bit_imp_le_length)
  ultimately show ?thesis
    using assms(2) unfolding PB_DECODERS_def fits_field_def Let_def
    by (elim insertE emptyE; simp)
      (auto dest!: map_some dest: dec_int_fits dec_bytes_fits[OF _ assms(1)] dec_string_fits[OF _ assms(1)]
        dec_fixed_length_fits[OF _ assms(1)])
qed

lemma decoded_data_fits_witness:
  "fits_field \<lparr>fld_tag = 1, fld_type = 0x06, fld_data_size = 3\<rparr> (Octets [104, 105, 0])"
proof (rule decoded_data_fits)
  show "stream_ok (pb_istream_from_buffer [2, 104, 105])"
    by (simp add: stream_ok_def pb_istream_from_buffer_def)
  show "PB_DECODERS \<lparr>fld_tag = 1, fld_type = 0x06, fld_data_size = 3\<rparr> [] (pb_istream_from_buffer [2, 104, 105])
      = (Some (Octets [104, 105, 0]), pb_istream_from_buffer [])"
    by (simp add: PB_DECODERS_def PB_LTYPE_def PB_ATYPE_def is_map_def pb_dec_string_def is_bind_def is_return_def
        pb_istream_from_buffer_def pb_decode_varint32_def pb_decode_varint32_eof_def pb_readbyte_def buf_read_def
        pb_read_def)
qed

end
