(* ===== verification/Pb_Message.thy ===== *)
theory Pb_Message
  imports Pb_Fields
begin

text \<open>
  Messages of nanopb: \<open>pb_encode\<close> and \<open>pb_decode\<close> over a list of field descriptors, the field
  iterator of pb_common.c, the check that the required fields are present, and messages inside
  messages. The fields are required or optional, in static or allocated memory.
\<close>

subsection \<open>Encoding\<close>

abbreviation (input) PB_HTYPE_REQUIRED :: u8 where "PB_HTYPE_REQUIRED \<equiv> 0x00"
abbreviation (input) PB_HTYPE_OPTIONAL :: u8 where "PB_HTYPE_OPTIONAL \<equiv> 0x10"
abbreviation (input) PB_HTYPE_REPEATED :: u8 where "PB_HTYPE_REPEATED \<equiv> 0x20"

definition PB_HTYPE :: "u8 \<Rightarrow> u8" where "PB_HTYPE x = x AND 0x30"

text \<open>
  A message structure is the list of what its fields hold, in the order of the descriptors. \<open>None\<close>
  is an optional field whose \<open>has_\<close> flag is false, or a null pointer. Repeated fields and oneofs
  are not in the model, nor are callbacks, extensions and proto3 fields without a flag.
\<close>

definition encode_basic_field :: "pb_field \<Rightarrow> field_data option \<Rightarrow> ostream \<Rightarrow> bool \<times> ostream" where
  "encode_basic_field f pData s =
     (if PB_HTYPE (fld_type f) = PB_HTYPE_REQUIRED
      then (case pData of
              None \<Rightarrow> os_error ''missing required field'' s
            | Some d \<Rightarrow> encode_required_field f d s)
      else if PB_HTYPE (fld_type f) = PB_HTYPE_OPTIONAL
      then (case pData of None \<Rightarrow> (True, s) | Some d \<Rightarrow> encode_required_field f d s)
      else os_error ''invalid field type'' s)"

definition encode_field :: "pb_field \<Rightarrow> field_data option \<Rightarrow> ostream \<Rightarrow> bool \<times> ostream" where
  "encode_field f pData s =
     (if PB_ATYPE (fld_type f) = PB_ATYPE_STATIC \<or> PB_ATYPE (fld_type f) = PB_ATYPE_POINTER
      then encode_basic_field f pData s else os_error ''invalid field type'' s)"

fun pb_encode :: "pb_field list \<Rightarrow> field_data option list \<Rightarrow> ostream \<Rightarrow> bool \<times> ostream" where
  "pb_encode (f # flds) (d # src_struct) s =
     os_then (encode_field f d) (pb_encode flds src_struct) s"
| "pb_encode flds src_struct s = (True, s)"

text \<open>\<open>ptr\<close> is the pointer of the field's descriptor to the fields of the submessage.\<close>

definition pb_enc_submessage :: "pb_field list option \<Rightarrow> field_data option list \<Rightarrow> ostream \<Rightarrow> bool \<times> ostream" where
  "pb_enc_submessage ptr src s =
     (case ptr of
        None \<Rightarrow> os_error ''invalid field descriptor'' s
      | Some flds \<Rightarrow> pb_encode_submessage (pb_encode flds src) s)"

subsection \<open>One field\<close>

text \<open>A field in allocated memory takes one allocation from the script; the rest is returned with the data.\<close>

definition decode_static_field :: "pb_field \<Rightarrow> oom \<Rightarrow> (field_data \<times> oom) reader" where
  "decode_static_field f m = is_map (\<lambda>d. (d, m)) (PB_DECODERS f m)"

definition decode_pointer_field :: "pb_field \<Rightarrow> oom \<Rightarrow> (field_data \<times> oom) reader" where
  "decode_pointer_field f m =
     is_map (\<lambda>d. (d, snd (malloc_step m)))
       (if PB_LTYPE (fld_type f) = PB_LTYPE_STRING \<or> PB_LTYPE (fld_type f) = PB_LTYPE_BYTES
        then PB_DECODERS f m
        else is_bind (allocate_field (fld_data_size f) 1 m) (\<lambda>_. PB_DECODERS f m))"

definition decode_field :: "pb_field \<Rightarrow> oom \<Rightarrow> (field_data \<times> oom) reader" where
  "decode_field f m =
     (if PB_ATYPE (fld_type f) = PB_ATYPE_STATIC then decode_static_field f m
      else if PB_ATYPE (fld_type f) = PB_ATYPE_POINTER then decode_pointer_field f m
      else is_error ''invalid field type'')"

lemma decoders_advanced [advancing]: "advanced s (snd (PB_DECODERS f m s))"
proof -
  have "advanced s (snd (pb_dec_varint f s))" "advanced s (snd (pb_dec_uvarint f s))"
    "advanced s (snd (pb_dec_svarint f s))" "advanced s (snd (pb_decode_fixed32 s))"
    "advanced s (snd (pb_decode_fixed64 s))" "advanced s (snd (pb_dec_bytes f m s))"
    "advanced s (snd (pb_dec_string f m s))" "advanced s (snd (pb_dec_fixed_length_bytes f s))" for s
    unfolding pb_decode_svarint_def pb_decode_fixed32_def pb_decode_fixed64_def pb_dec_varint_def
      pb_dec_uvarint_def pb_dec_svarint_def pb_dec_string_def pb_dec_bytes_def
      pb_dec_fixed_length_bytes_def Let_def
    by (intro advancing)+
  note [advancing] = this
  show ?thesis unfolding PB_DECODERS_def is_map_def Let_def by (intro advancing)
qed

lemma decode_field_advanced: "advanced s (snd (decode_field f m s))"
  unfolding decode_field_def decode_static_field_def decode_pointer_field_def is_map_def by (intro advancing)

lemma tag_left:
  assumes "pb_decode_tag s = (Some x, e, s2)"
  shows "is_left s2 < is_left s"
proof -
  obtain b s1 where b: "pb_readbyte s = (Some b, s1)"
    using assms by (cases "pb_readbyte s"; cases "fst (pb_readbyte s)")
      (auto simp: pb_decode_tag_def pb_decode_varint32_eof_def)
  obtain r s3 where l: "varint32_loop (ucast (b AND 0x7F)) 7 s1 = (r, s3)" by fastforce
  have "advanced s1 s3" using varint32_loop_advanced[of s1 "ucast (b AND 0x7F)" 7] by (simp add: l)
  then have "is_left s3 \<le> is_left s1" by (auto simp: advanced_def)
  moreover have "s2 = s1 \<or> s2 = s3"
    using assms by (auto simp: pb_decode_tag_def pb_decode_varint32_eof_def b l is_error_def
        split: if_splits option.splits prod.splits)
  ultimately show ?thesis using readbyte_left[OF b] by auto
qed

lemma step_left: "advanced s (snd (r s)) \<Longrightarrow> r s = (x, s2) \<Longrightarrow> is_left s2 \<le> is_left s"
  by (auto simp: advanced_def)

subsection \<open>The field iterator\<close>

text \<open>
  The iterator is a position in the descriptors; \<open>pb_field_iter_next\<close> wraps around at their end.
  A message type without fields has only the terminator, whose tag is 0, and the iterator stays
  there. \<open>pb_field_iter_find\<close> goes once round from where the iterator stands.
\<close>

definition field_at :: "pb_field list \<Rightarrow> nat \<Rightarrow> pb_field" where
  "field_at flds pos =
     (if pos < length flds then flds ! pos else \<lparr>fld_tag = 0, fld_type = 0, fld_data_size = 0\<rparr>)"

definition round_from :: "pb_field list \<Rightarrow> nat \<Rightarrow> nat list" where
  "round_from flds pos = (if flds = [] then [0] else [pos..<length flds] @ [0..<pos])"

definition pb_field_iter_find :: "pb_field list \<Rightarrow> nat \<Rightarrow> u32 \<Rightarrow> nat option" where
  "pb_field_iter_find flds pos tag = find (\<lambda>i. fld_tag (field_at flds i) = tag) (round_from flds pos)"

definition is_required :: "pb_field \<Rightarrow> bool" where
  "is_required f \<longleftrightarrow> PB_HTYPE (fld_type f) = PB_HTYPE_REQUIRED"

text \<open>The iterator's count of the required fields before its position.\<close>

definition required_field_index :: "pb_field list \<Rightarrow> nat \<Rightarrow> nat" where
  "required_field_index flds pos = length (filter is_required (take pos flds))"

subsection \<open>Decoding\<close>

abbreviation (input) PB_MAX_REQUIRED_FIELDS :: nat where "PB_MAX_REQUIRED_FIELDS \<equiv> 64"

text \<open>The bits of the required fields, in two words of 32.\<close>

definition mark_seen :: "pb_field list \<Rightarrow> nat \<Rightarrow> u32 list \<Rightarrow> u32 list" where
  "mark_seen flds pos fields_seen =
     (let i = required_field_index flds pos in
      if is_required (field_at flds pos) \<and> i < PB_MAX_REQUIRED_FIELDS
      then fields_seen[i div 32 := fields_seen ! (i div 32) OR push_bit (i mod 32) 1]
      else fields_seen)"

definition all_required_seen :: "pb_field list \<Rightarrow> u32 list \<Rightarrow> bool" where
  "all_required_seen flds fields_seen =
     (let req_field_count = min (required_field_index flds (length flds)) PB_MAX_REQUIRED_FIELDS in
      list_all (\<lambda>i. fields_seen ! i = -1) [0..<req_field_count div 32] \<and>
      (req_field_count mod 32 \<noteq> 0 \<longrightarrow>
         fields_seen ! (req_field_count div 32) = drop_bit (32 - req_field_count mod 32) (-1)))"

text \<open>
  The loop of \<open>pb_decode_noinit\<close>. A tag that no field has is skipped: without extensions no tag
  reaches \<open>extension_range_start\<close>, which becomes 2 to the 32 minus one.
\<close>

function decode_fields ::
  "pb_field list \<Rightarrow> nat \<Rightarrow> u32 list \<Rightarrow> field_data option list \<Rightarrow> oom \<Rightarrow> (u32 list \<times> field_data option list) reader"
where
  "decode_fields flds pos seen dest m s =
     (if is_left s = 0 then (Some (seen, dest), s)
      else (case pb_decode_tag s of
          (None, eof, s) \<Rightarrow> if eof then (Some (seen, dest), s) else (None, s)
        | (Some (wire_type, tag), eof, s) \<Rightarrow>
            (case pb_field_iter_find flds pos tag of
               None \<Rightarrow>
                 (case pb_skip_field wire_type s of
                    (None, s) \<Rightarrow> (None, s)
                  | (Some u, s) \<Rightarrow> decode_fields flds pos seen dest m s)
             | Some pos \<Rightarrow>
                 (case decode_field (field_at flds pos) m s of
                    (None, s) \<Rightarrow> (None, s)
                  | (Some (d, m), s) \<Rightarrow>
                      decode_fields flds pos (mark_seen flds pos seen) (dest[pos := Some d]) m s))))"
  by pat_completeness auto
termination
  by (relation "measure (\<lambda>(flds, pos, seen, dest, m, s). is_left s)")
    (auto dest!: tag_left[OF sym] step_left[OF skip_field_advanced, OF sym]
      step_left[OF decode_field_advanced, OF sym])

declare decode_fields.simps [simp del]

definition pb_decode_noinit :: "pb_field list \<Rightarrow> oom \<Rightarrow> field_data option list \<Rightarrow> field_data option list reader" where
  "pb_decode_noinit flds m dest =
     is_bind (decode_fields flds 0 [0, 0] dest m) (\<lambda>(seen, dest).
       if all_required_seen flds seen then is_return dest
       else is_error ''missing required field'')"

text \<open>\<open>None\<close> stands for what the initialisation leaves in a field.\<close>

definition pb_message_set_to_defaults :: "pb_field list \<Rightarrow> field_data option list" where
  "pb_message_set_to_defaults flds = replicate (length flds) None"

definition pb_decode :: "pb_field list \<Rightarrow> oom \<Rightarrow> field_data option list reader" where
  "pb_decode flds m = pb_decode_noinit flds m (pb_message_set_to_defaults flds)"

definition pb_dec_submessage ::
  "pb_field \<Rightarrow> pb_field list option \<Rightarrow> oom \<Rightarrow> field_data option list \<Rightarrow> field_data option list reader"
where
  "pb_dec_submessage f ptr m dest =
     (case ptr of
        None \<Rightarrow> is_bind pb_make_string_substream (\<lambda>substream. is_error ''invalid field descriptor'')
      | Some submsg_fields \<Rightarrow>
          pb_decode_delimited
            (if PB_HTYPE (fld_type f) = PB_HTYPE_REPEATED then pb_decode submsg_fields m
             else pb_decode_noinit submsg_fields m dest))"


subsection \<open>Finding fields and counting the required ones\<close>

lemma find_field:
  assumes "distinct (map fld_tag flds)" "i < length flds" "pos \<le> length flds"
  shows "pb_field_iter_find flds pos (fld_tag (flds ! i)) = Some i"
proof -
  have eq: "fld_tag (field_at flds j) = fld_tag (flds ! i) \<longleftrightarrow> j = i" if "j < length flds" for j
    using assms(1,2) that nth_eq_iff_index_eq[OF assms(1), of j i] by (simp add: field_at_def)
  have "find (\<lambda>j. fld_tag (field_at flds j) = fld_tag (flds ! i)) xs = Some i"
    if "i \<in> set xs" "set xs \<subseteq> {..<length flds}" for xs
    using that eq by (induction xs) auto
  moreover have "set (round_from flds pos) = {..<length flds}"
    using assms(2,3) by (auto simp: round_from_def)
  ultimately show ?thesis using assms(2) by (simp add: pb_field_iter_find_def)
qed

lemma index_Suc:
  "i < length flds \<Longrightarrow>
     required_field_index flds (Suc i) = required_field_index flds i + (if is_required (flds ! i) then 1 else 0)"
  by (simp add: required_field_index_def take_Suc_conv_app_nth)

text \<open>The bits set are those of the first \<open>n\<close> required fields.\<close>

definition seen_first :: "nat \<Rightarrow> u32 list \<Rightarrow> bool" where
  "seen_first n seen \<longleftrightarrow> length seen = 2 \<and> (\<forall>i < 64. bit (seen ! (i div 32)) (i mod 32) \<longleftrightarrow> i < n)"

lemma seen_none: "seen_first 0 [0, 0]"
  by (auto simp: seen_first_def nth_Cons split: nat.splits)

lemma mark_seen_first:
  assumes "seen_first (required_field_index flds i) seen" "i < length flds" "is_required (flds ! i)"
  shows "seen_first (required_field_index flds (Suc i)) (mark_seen flds i seen)"
proof (cases "required_field_index flds i < 64")
  case True
  let ?k = "required_field_index flds i"
  have "bit (seen[?k div 32 := seen ! (?k div 32) OR push_bit (?k mod 32) 1] ! (j div 32)) (j mod 32) \<longleftrightarrow> j < Suc ?k"
    if "j < 64" for j
  proof (cases "j div 32 = ?k div 32")
    case True
    have "j = ?k \<longleftrightarrow> j mod 32 = ?k mod 32" using True by (metis mult_div_mod_eq)
    with True that assms(1) \<open>?k < 64\<close> show ?thesis
      by (auto simp: seen_first_def bit_simps less_Suc_eq)
  next
    case False
    then have "j \<noteq> ?k" by auto
    with False that assms(1) show ?thesis by (auto simp: seen_first_def less_Suc_eq)
  qed
  with True assms show ?thesis
    by (simp add: mark_seen_def field_at_def index_Suc seen_first_def Let_def)
next
  case False
  with assms show ?thesis
    by (auto simp: mark_seen_def field_at_def index_Suc seen_first_def Let_def)
qed

lemma mark_seen_optional: "i < length flds \<Longrightarrow> \<not> is_required (flds ! i) \<Longrightarrow> mark_seen flds i seen = seen"
  by (simp add: mark_seen_def field_at_def)

lemma all_seen:
  assumes "seen_first (required_field_index flds (length flds)) seen"
  shows "all_required_seen flds seen"
proof -
  define n where "n = min (required_field_index flds (length flds)) 64"
  have bits: "bit (seen ! q) b \<longleftrightarrow> 32 * q + b < n" if "q < 2" "b < 32" for q b
  proof -
    have "(32 * q + b) div 32 = q" "(32 * q + b) mod 32 = b" using that by simp_all
    moreover have "32 * q + b < 64" using that by simp
    ultimately show ?thesis using assms unfolding seen_first_def n_def by (metis min_less_iff_conj)
  qed
  have "seen ! q = -1" if "q < n div 32" for q
  proof (rule bit_word_eqI)
    fix b assume b: "b < LENGTH(32)"
    have "q < 2" using that by (simp add: n_def)
    moreover have "32 * q + b < n" using that b by simp
    ultimately show "bit (seen ! q) b = bit (-1 :: u32) b" using b bits by simp
  qed
  moreover have "seen ! (n div 32) = drop_bit (32 - n mod 32) (-1)" if "n mod 32 \<noteq> 0"
  proof (rule bit_word_eqI)
    fix b assume b: "b < LENGTH(32)"
    have "n \<le> 64" "n \<noteq> 64" using that by (auto simp: n_def)
    then have "n div 32 < 2" by (simp add: div_less_iff_less_mult)
    then have "bit (seen ! (n div 32)) b \<longleftrightarrow> 32 * (n div 32) + b < n" using b bits by simp
    also have "\<dots> \<longleftrightarrow> b < n mod 32" using mult_div_mod_eq[of 32 n] by linarith
    finally show "bit (seen ! (n div 32)) b = bit (drop_bit (32 - n mod 32) (-1) :: u32) b"
      using b that by (auto simp: bit_simps)
  qed
  ultimately show ?thesis by (simp add: all_required_seen_def Let_def n_def[symmetric] list_all_iff)
qed


subsection \<open>A message in bytes\<close>

lemma encoder_unique: "encoder enc a \<Longrightarrow> encoder enc b \<Longrightarrow> a = b"
  using encoder.fits[of enc a "pb_ostream_from_buffer (length a + length b)"]
    encoder.fits[of enc b "pb_ostream_from_buffer (length a + length b)"]
  by (simp add: room_def emit_def pb_ostream_from_buffer_def)

lemma all_succeed: "list_all id m \<Longrightarrow> fst (malloc_step m) \<and> list_all id (snd (malloc_step m))"
  by (cases m) simp_all

text \<open>What a message structure may hold for the field \<open>f\<close>.\<close>

definition field_ok :: "pb_field \<Rightarrow> field_data option \<Rightarrow> bool" where
  "field_ok f pData \<longleftrightarrow>
     0 < fld_tag f \<and> fld_tag f < 2 ^ 29 \<and> 0 < fld_data_size f \<and> fld_data_size f < 2 ^ 32 \<and>
     (PB_ATYPE (fld_type f) = PB_ATYPE_STATIC \<or> PB_ATYPE (fld_type f) = PB_ATYPE_POINTER) \<and>
     (case pData of
        None \<Rightarrow> PB_HTYPE (fld_type f) = PB_HTYPE_OPTIONAL
      | Some d \<Rightarrow> (is_required f \<or> PB_HTYPE (fld_type f) = PB_HTYPE_OPTIONAL) \<and> fits_field f d \<and> no_inner_nul f d)"

definition message_ok :: "pb_field list \<Rightarrow> field_data option list \<Rightarrow> bool" where
  "message_ok flds src \<longleftrightarrow> list_all2 field_ok flds src \<and> distinct (map fld_tag flds)"

text \<open>\<open>bs\<close> are the bytes of one field of a message, none for an absent one.\<close>

definition field_item :: "pb_field \<Rightarrow> field_data option \<Rightarrow> u8 list \<Rightarrow> bool" where
  "field_item f pData bs \<longleftrightarrow>
     (case pData of
        None \<Rightarrow> bs = [] \<and> \<not> is_required f \<and> (\<forall>s. encode_field f None s = (True, s))
      | Some d \<Rightarrow> encoder (encode_field f pData) bs \<and> bs \<noteq> [] \<and>
          (\<forall>m s. list_all id m \<longrightarrow> (\<exists>s2 m2. list_all id m2 \<and>
             pb_decode_tag (ahead bs s) = (Some (wire_type_of f, fld_tag f), False, s2) \<and>
             decode_field f m s2 = (Some (d, m2), s))))"

lemma decode_field_done:
  assumes "PB_DECODERS f m s2 = (Some d, s)" "list_all id m" "0 < fld_data_size f" "fld_data_size f < 2 ^ 32"
    "PB_ATYPE (fld_type f) = PB_ATYPE_STATIC \<or> PB_ATYPE (fld_type f) = PB_ATYPE_POINTER"
  shows "\<exists>m2. list_all id m2 \<and> decode_field f m s2 = (Some (d, m2), s)"
proof -
  have "allocate_field (fld_data_size f) 1 m = is_return ()"
    using assms(3,4) all_succeed[OF assms(2)] by (simp add: allocate_field_def fun_eq_iff)
  then show ?thesis
    using assms all_succeed[OF assms(2)]
    by (auto simp: decode_field_def decode_static_field_def decode_pointer_field_def is_map_def is_bind_def is_return_def)
qed

lemma field_item_ex:
  assumes "field_ok f pData"
  shows "\<exists>bs. field_item f pData bs"
proof (cases pData)
  case None
  with assms show ?thesis
    by (auto simp: field_item_def field_ok_def encode_field_def encode_basic_field_def is_required_def)
next
  case (Some d)
  with assms have ok: "fits_field f d" "no_inner_nul f d" "fld_data_size f < 2 ^ 32" "0 < fld_tag f" "fld_tag f < 2 ^ 29"
    by (simp_all add: field_ok_def)
  have enc: "encode_field f pData = encode_required_field f d"
    using assms Some by (auto simp: fun_eq_iff encode_field_def encode_basic_field_def field_ok_def is_required_def)
  obtain bs where bs: "encoder (encode_required_field f d) bs"
    using required_field[OF ok(1-3) _ ok(4,5), of "[]"] by auto
  have read: "\<exists>s2 m2. list_all id m2 \<and>
      pb_decode_tag (ahead bs s) = (Some (wire_type_of f, fld_tag f), False, s2) \<and> decode_field f m s2 = (Some (d, m2), s)"
    if m: "list_all id m" for m s
  proof -
    obtain cs where "encoder (encode_required_field f d) cs"
      and cs: "\<And>s. \<exists>s2. pb_decode_tag (ahead cs s) = (Some (wire_type_of f, fld_tag f), False, s2) \<and>
        PB_DECODERS f m s2 = (Some d, s) \<and> pb_skip_field (wire_type_of f) s2 = (Some (), s)"
      using required_field[OF ok(1-3) _ ok(4,5), of m] all_succeed[OF m] by blast
    then have "cs = bs" using bs encoder_unique by blast
    with cs[of s] obtain s2 where s2: "pb_decode_tag (ahead bs s) = (Some (wire_type_of f, fld_tag f), False, s2)"
      "PB_DECODERS f m s2 = (Some d, s)" by blast
    with decode_field_done[OF s2(2) m] assms show ?thesis by (auto simp: field_ok_def)
  qed
  have "bs \<noteq> []"
  proof
    assume "bs = []"
    with read[of "[]" "pb_istream_from_buffer []"] show False
      by (auto dest!: tag_left simp: pb_istream_from_buffer_def)
  qed
  with bs read show ?thesis unfolding field_item_def Some enc[unfolded Some] by auto
qed

text \<open>A message as its fields, each with what it holds and its bytes.\<close>

type_synonym item = "pb_field \<times> field_data option \<times> u8 list"

definition held :: "item list \<Rightarrow> field_data option list" where
  "held items = map (\<lambda>(f, d, bs). d) items"

definition written :: "item list \<Rightarrow> u8 list" where
  "written items = concat (map (\<lambda>(f, d, bs). bs) items)"

abbreviation items_ok :: "item list \<Rightarrow> bool" where
  "items_ok items \<equiv> list_all (\<lambda>(f, d, bs). field_item f d bs) items"

lemma held_simps [simp]: "held [] = []" "held ((f, d, bs) # items) = d # held items" "held (a @ b) = held a @ held b"
  "length (held items) = length items"
  by (simp_all add: held_def)

lemma written_simps [simp]: "written [] = []" "written ((f, d, bs) # items) = bs @ written items"
  by (simp_all add: written_def)

text \<open>The decoding loop takes the fields in the order they were written.\<close>

lemma decode_fields_items:
  "flds = map fst (pre @ items) \<Longrightarrow> distinct (map fld_tag flds) \<Longrightarrow>
   items_ok items \<Longrightarrow> pos \<le> length flds \<Longrightarrow>
   seen_first (required_field_index flds (length pre)) seen \<Longrightarrow> list_all id m \<Longrightarrow> is_left s = 0 \<Longrightarrow>
   \<exists>seen2. seen_first (required_field_index flds (length flds)) seen2 \<and>
     decode_fields flds pos seen (held pre @ replicate (length items) None) m
       (ahead (written items) s) = (Some (seen2, held (pre @ items)), s)"
proof (induction items arbitrary: pre pos seen m)
  case Nil
  then show ?case by (subst decode_fields.simps) auto
next
  case (Cons x items)
  obtain f d bs where x: "x = (f, d, bs)" by (cases x) auto
  let ?i = "length pre"
  have i: "?i < length flds" "flds ! ?i = f" using Cons.prems(1) x by (simp_all add: nth_append)
  have item: "field_item f d bs" and items: "items_ok items"
    using Cons.prems(3) x by simp_all
  have split: "flds = map fst ((pre @ [x]) @ items)" using Cons.prems(1) by simp
  note IH = Cons.IH[OF split Cons.prems(2) items _ _ _ Cons.prems(7)]
  show ?case
  proof (cases d)
    case None
    with item have "bs = []" "\<not> is_required f" by (simp_all add: field_item_def)
    then have "seen_first (required_field_index flds (length (pre @ [x]))) seen"
      using Cons.prems(5) i by (simp add: index_Suc)
    from IH[OF Cons.prems(4) this Cons.prems(6)] show ?thesis
      using \<open>bs = []\<close> None x by simp
  next
    case (Some v)
    let ?rest = "ahead (written items) s"
    have "\<forall>m s. list_all id m \<longrightarrow> (\<exists>s2 m2. list_all id m2 \<and>
        pb_decode_tag (ahead bs s) = (Some (wire_type_of f, fld_tag f), False, s2) \<and> decode_field f m s2 = (Some (v, m2), s))"
      using item by (simp add: field_item_def Some)
    from this[rule_format, OF Cons.prems(6), of ?rest]
    obtain s2 m2 where r: "list_all id m2" "pb_decode_tag (ahead bs ?rest) = (Some (wire_type_of f, fld_tag f), False, s2)"
      "decode_field f m s2 = (Some (v, m2), ?rest)"
      by blast
    have "bs \<noteq> []" using item Some by (simp add: field_item_def)
    then have left: "is_left (ahead bs ?rest) \<noteq> 0" by (simp add: ahead_def)
    have "seen_first (required_field_index flds (length (pre @ [x]))) (mark_seen flds ?i seen)"
      using mark_seen_first[OF Cons.prems(5) i(1)] mark_seen_optional[OF i(1), of seen] Cons.prems(5) i
      by (cases "is_required f") (simp_all add: index_Suc)
    from IH[OF less_imp_le[OF i(1)] this r(1)] show ?thesis
      using find_field[OF Cons.prems(2) i(1) Cons.prems(4)] left r i Some x
      by (subst decode_fields.simps) (simp add: ahead_append field_at_def list_update_append)
  qed
qed


text \<open>
  Encoding writes the bytes of the fields that are present. A message with none of them is written
  without touching the stream.
\<close>

lemma message_encoder:
  "items_ok items \<Longrightarrow>
     encoder (pb_encode (map fst items) (held items)) (written items) \<or>
     pb_encode (map fst items) (held items) = (\<lambda>s. (True, s)) \<and> written items = []"
proof (induction items)
  case Nil
  then show ?case by (simp add: fun_eq_iff)
next
  case (Cons x items)
  obtain f d bs where x: "x = (f, d, bs)" by (cases x) auto
  let ?enc = "pb_encode (map fst items) (held items)" and ?bs = "written items"
  have item: "field_item f d bs" and IH: "encoder ?enc ?bs \<or> ?enc = (\<lambda>s. (True, s)) \<and> ?bs = []"
    using Cons x by simp_all
  have enc: "pb_encode (map fst (x # items)) (held (x # items)) = os_then (encode_field f d) ?enc"
    by (simp add: x fun_eq_iff)
  show ?case
  proof (cases d)
    case None
    then have "bs = []" "encode_field f d = (\<lambda>s. (True, s))"
      using item by (simp_all add: field_item_def fun_eq_iff)
    then have "os_then (encode_field f d) ?enc = ?enc" by (simp add: fun_eq_iff os_then_def)
    with IH \<open>bs = []\<close> show ?thesis unfolding enc by (simp add: x)
  next
    case (Some v)
    with item have e: "encoder (encode_field f d) bs" by (simp add: field_item_def)
    have "os_then (encode_field f d) (\<lambda>s. (True, s)) = encode_field f d"
      by (auto simp: fun_eq_iff os_then_def split: prod.split bool.split)
    with IH e then_encoder[OF e] show ?thesis unfolding enc by (auto simp: x)
  qed
qed

text \<open>The submessage without any field is a length of zero.\<close>

lemma empty_submessage: "encoder (pb_encode_submessage (\<lambda>s. (True, s))) (string_bytes [])"
proof
  fix s :: ostream assume e: "os_err s = None" and r: "room s (length (string_bytes []))"
  have "pb_encode_varint 0 s = (True, emit (varint_bytes 0) s)"
    using r by (intro venc.fits e) (simp add: string_bytes_def)
  moreover have "os_sizing s \<or> \<not> os_max s < os_written s + length (varint_bytes 0)"
    using r by (auto simp: room_def string_bytes_def)
  ultimately show "pb_encode_submessage (\<lambda>s. (True, s)) s = (True, emit (string_bytes []) s)"
    by (simp add: pb_encode_submessage_def PB_OSTREAM_SIZING_def string_bytes_def Let_def pb_write_def emit_def e split: if_splits)
next
  fix s :: ostream assume e: "os_err s = None" and r: "\<not> room s (length (string_bytes []))"
  have "\<not> fst (pb_encode_varint 0 s) \<and> os_err (snd (pb_encode_varint 0 s)) \<noteq> None"
    using r by (intro venc.full e) (simp add: string_bytes_def)
  then show "\<not> fst (pb_encode_submessage (\<lambda>s. (True, s)) s) \<and>
      os_err (snd (pb_encode_submessage (\<lambda>s. (True, s)) s)) \<noteq> None"
    by (auto simp: pb_encode_submessage_def PB_OSTREAM_SIZING_def Let_def split: prod.split bool.split)
qed

lemma message_items:
  assumes "message_ok flds src"
  obtains items :: "item list" where "flds = map fst items" "src = held items"
    "items_ok items"
proof -
  have "list_all2 field_ok flds src" using assms by (simp add: message_ok_def)
  then have "\<exists>items :: item list. flds = map fst items \<and> src = held items \<and> items_ok items"
  proof (induction rule: list_all2_induct)
    case Nil
    show ?case by (rule exI[of _ "[]"]) simp
  next
    case (Cons f flds d src)
    then obtain bs and items :: "item list"
      where "flds = map fst items" "src = held items"
      "items_ok items" "field_item f d bs"
      using field_item_ex by blast
    then show ?case by (intro exI[of _ "(f, d, bs) # items"]) simp
  qed
  with that show thesis by blast
qed

text \<open>A message is some bytes: its encoder writes them as a submessage, its decoder reads them to the end.\<close>

lemma message_bytes:
  assumes "message_ok flds src"
  shows "\<exists>bs. encoder (pb_encode_submessage (pb_encode flds src)) (string_bytes bs) \<and>
    (\<forall>m s. list_all id m \<longrightarrow> is_left s = 0 \<longrightarrow> pb_decode flds m (ahead bs s) = (Some src, s))"
proof -
  obtain items where i: "flds = map fst items" "src = held items"
    "items_ok items"
    using message_items[OF assms] .
  let ?bs = "written items"
  have "encoder (pb_encode_submessage (pb_encode flds src)) (string_bytes ?bs)"
    using message_encoder[OF i(3)] encoder.submessage empty_submessage
    by (auto simp: i(1,2))
  moreover have "pb_decode flds m (ahead ?bs s) = (Some src, s)" if ok: "list_all id m" "is_left s = 0" for m s
  proof -
    have "distinct (map fld_tag flds)" using assms by (simp add: message_ok_def)
    moreover have "seen_first (required_field_index flds (length ([] :: item list))) [0, 0]"
      by (simp add: required_field_index_def seen_none)
    ultimately obtain seen where "seen_first (required_field_index flds (length flds)) seen"
      "decode_fields flds 0 [0, 0] (replicate (length items) None) m (ahead ?bs s) = (Some (seen, src), s)"
      using decode_fields_items[of flds "[]" items 0 "[0, 0]" m s] i ok by auto
    then show ?thesis
      using all_seen[of flds seen] i(1)
      by (simp add: pb_decode_def pb_decode_noinit_def pb_message_set_to_defaults_def is_bind_def is_return_def)
  qed
  ultimately show ?thesis by blast
qed

text \<open>
  C23: a submessage. Let \<open>src\<close> be a message whose fields, required or optional, hold data that fits
  them. \<open>pb_enc_submessage\<close>, with its sizing pass and its limited substream, writes as many bytes
  as \<open>pb_get_encoded_size\<close> says, and fails with a message exactly when they do not fit. When
  allocation succeeds, \<open>pb_dec_submessage\<close> gives the message back, absent fields absent, whether it
  initialises the structure (an array entry) or finds it initialised: its loop finds every field by
  its tag and ends with the substream, and no required field is missing. The parent stream is then
  behind the submessage, and \<open>pb_skip_field\<close> leaves it there too.
\<close>

theorem submessage_roundtrip:
  assumes "message_ok flds src" "list_all id m" "n < 2 ^ 32"
    "PB_HTYPE (fld_type f) = PB_HTYPE_REPEATED \<or> dest = pb_message_set_to_defaults flds"
  shows "\<exists>sz. pb_get_encoded_size (pb_enc_submessage (Some flds) src) = Some sz \<and>
    (case pb_enc_submessage (Some flds) src (pb_ostream_from_buffer n) of (ok, os) \<Rightarrow>
       if sz \<le> n
       then ok \<and> length (os_out os) = sz \<and>
         pb_dec_submessage f (Some flds) m dest (pb_istream_from_buffer (os_out os @ rest)) = (Some src, pb_istream_from_buffer rest) \<and>
         pb_skip_field PB_WT_STRING (pb_istream_from_buffer (os_out os @ rest)) = (Some (), pb_istream_from_buffer rest)
       else \<not> ok \<and> os_err os \<noteq> None)"
proof -
  obtain bs where E: "encoder (pb_encode_submessage (pb_encode flds src)) (string_bytes bs)"
    and D: "\<forall>m s. list_all id m \<longrightarrow> is_left s = 0 \<longrightarrow> pb_decode flds m (ahead bs s) = (Some src, s)"
    using message_bytes[OF assms(1)] by blast
  have enc: "pb_enc_submessage (Some flds) src = pb_encode_submessage (pb_encode flds src)"
    by (simp add: fun_eq_iff pb_enc_submessage_def)
  have dec: "pb_dec_submessage f (Some flds) m dest = pb_decode_delimited (pb_decode flds m)"
    using assms(4) by (auto simp: pb_dec_submessage_def pb_decode_def)
  have len: "length bs < 2 ^ 32" if "length (string_bytes bs) \<le> n"
    using that assms(3) by (simp add: string_bytes_def)
  have "pb_decode_delimited (pb_decode flds m) (ahead (string_bytes bs) s) = (Some src, s)"
    if "length (string_bytes bs) \<le> n" for s
    using D[rule_format, OF assms(2), of "s\<lparr>is_left := 0\<rparr>"]
    by (simp add: pb_decode_delimited_def string_substream[OF len[OF that]] close_consumed)
  moreover have "pb_skip_field PB_WT_STRING (ahead (string_bytes bs) s) = (Some (), s)"
    if "length (string_bytes bs) \<le> n" for s
    by (rule decodesD[OF skips_string[OF len[OF that]]])
  ultimately show ?thesis
    using to_buffer(1)[OF E] to_buffer(2,3)[OF E, of n] unfolding enc dec
    by (intro exI[of _ "length (string_bytes bs)"]) (auto simp: from_buffer_ahead not_le split: prod.split)
qed

lemma submessage_roundtrip_witness:
  "pb_dec_submessage \<lparr>fld_tag = 1, fld_type = 0x07, fld_data_size = 24\<rparr>
     (Some [\<lparr>fld_tag = 1, fld_type = 0x01, fld_data_size = 4\<rparr>, \<lparr>fld_tag = 2, fld_type = 0x16, fld_data_size = 8\<rparr>,
            \<lparr>fld_tag = 3, fld_type = 0x96, fld_data_size = 1\<rparr>])
     [True] [None, None, None] (pb_istream_from_buffer [7, 8, 0xAC, 2, 0x1A, 2, 104, 105, 9])
   = (Some [Some (Scalar 300), None, Some (Octets [104, 105, 0])], pb_istream_from_buffer [9])"
proof -
  let ?flds = "[\<lparr>fld_tag = 1, fld_type = 0x01, fld_data_size = 4\<rparr>, \<lparr>fld_tag = 2, fld_type = 0x16, fld_data_size = 8\<rparr>,
    \<lparr>fld_tag = 3, fld_type = 0x96, fld_data_size = 1\<rparr>]"
  let ?src = "[Some (Scalar 300), None, Some (Octets [104, 105, 0])]"
  let ?f = "\<lparr>fld_tag = 1, fld_type = 0x07, fld_data_size = 24\<rparr>"
  have "take_bit 32 (300 :: u64) = 300" by (simp add: take_bit_eq_mod)
  then have "message_ok ?flds ?src"
    by (simp add: message_ok_def field_ok_def fits_field_def no_inner_nul_def is_required_def PB_LTYPE_def
        PB_ATYPE_def PB_HTYPE_def int_size_def)
  note r = submessage_roundtrip[OF this, of "[True]" 100 ?f "[None, None, None]" "[9]"]
  note defs = pb_enc_submessage_def pb_encode_submessage_def encode_field_def encode_basic_field_def encode_required_field_def
    pb_encode_tag_for_field_def PB_ENCODERS_def PB_LTYPE_def PB_ATYPE_def PB_HTYPE_def pb_enc_uvarint_def
    load_unsigned_def enc_loaded_def pb_enc_string_def pb_encode_string_def os_then_def pb_encode_tag_def
    pb_encode_varint_def varint_groups.simps pb_write_def PB_OSTREAM_SIZING_def
  have "pb_get_encoded_size (pb_enc_submessage (Some ?flds) ?src) = Some 8"
    by (simp add: defs pb_get_encoded_size_def Let_def)
  moreover have "os_out (snd (pb_enc_submessage (Some ?flds) ?src (pb_ostream_from_buffer 100))) =
      [7, 8, 0xAC, 2, 0x1A, 2, 104, 105]"
    by (simp add: defs pb_ostream_from_buffer_def Let_def)
  ultimately show ?thesis
    using r by (auto simp: pb_message_set_to_defaults_def numeral_3_eq_3 split: prod.splits)
qed

end
