(* ===== verification/Dwarf_Data.thy ===== *)
theory Dwarf_Data
  imports Base "HOL-Library.Monad_Syntax"
begin

text \<open>
  Reading the unwind tables of a crashed process (FIRCLSDataParsing.c): little-endian integers,
  LEB128 numbers, strings, record lengths and encoded addresses, on a 64-bit process.

  Memory is a partial function from addresses; \<open>None\<close> is a byte that is not mapped. A parser takes
  a cursor and returns the value with the advanced cursor. It returns \<open>None\<close> when the program has
  no defined behaviour: it reads an unmapped byte (the process faults), or shifts an \<open>int\<close> out of
  its range. Address arithmetic does not leave the address space, so cursors are numbers;
  arithmetic on \<open>intptr_t\<close> wraps as it does on the machine.
\<close>

subsection \<open>Memory\<close>

type_synonym memory = "nat \<Rightarrow> u8 option"
type_synonym 'a parser = "nat \<Rightarrow> ('a \<times> nat) option"

fun load_bytes :: "memory \<Rightarrow> nat \<Rightarrow> nat \<Rightarrow> u8 list option" where
  "load_bytes m a 0 = Some []"
| "load_bytes m a (Suc n) = do { b \<leftarrow> m a; bs \<leftarrow> load_bytes m (a + 1) n; Some (b # bs) }"

fun le_word :: "u8 list \<Rightarrow> 'a::len word" where
  "le_word [] = 0"
| "le_word (b # bs) = ucast b OR push_bit 8 (le_word bs)"

definition parse_le :: "memory \<Rightarrow> nat \<Rightarrow> 'a::len word parser" where
  "parse_le m n c = do { bs \<leftarrow> load_bytes m c n; Some (le_word bs, c + n) }"

definition FIRCLSParseUint8AndAdvance :: "memory \<Rightarrow> u8 parser" where
  "FIRCLSParseUint8AndAdvance m c = do { b \<leftarrow> m c; Some (b, c + 1) }"

definition FIRCLSParseUint16AndAdvance :: "memory \<Rightarrow> u16 parser" where
  "FIRCLSParseUint16AndAdvance m = parse_le m 2"

definition FIRCLSParseUint32AndAdvance :: "memory \<Rightarrow> u32 parser" where
  "FIRCLSParseUint32AndAdvance m = parse_le m 4"

definition FIRCLSParseUint64AndAdvance :: "memory \<Rightarrow> u64 parser" where
  "FIRCLSParseUint64AndAdvance m = parse_le m 8"

text \<open>\<open>FIRCLSReadMemory\<close>: the kernel copies the bytes, or reports that it cannot.\<close>

definition FIRCLSIsValidPointer :: "nat \<Rightarrow> bool" where
  "FIRCLSIsValidPointer x \<longleftrightarrow> 4096 \<le> x"

definition FIRCLSReadMemory :: "memory \<Rightarrow> u64 \<Rightarrow> nat \<Rightarrow> u8 list option" where
  "FIRCLSReadMemory m src len = (if \<not> FIRCLSIsValidPointer (unat src) then None else load_bytes m (unat src) len)"

subsection \<open>LEB128\<close>

text \<open>The value of the \<open>int\<close> expression \<open>v << s\<close> as a \<open>uint64_t\<close>, for \<open>0 \<le> v\<close>.\<close>

definition int_shift :: "nat \<Rightarrow> nat \<Rightarrow> u64 option" where
  "int_shift v s = (if s < 32 \<and> v * 2 ^ s < 2 ^ 31 then Some (of_nat (v * 2 ^ s)) else None)"

fun uleb_loop :: "memory \<Rightarrow> nat \<Rightarrow> u64 \<Rightarrow> nat \<Rightarrow> u64 parser" where
  "uleb_loop m 0 result shift c = Some (result, c)"
| "uleb_loop m (Suc i) result shift c =
     do { byte \<leftarrow> m c;
          d \<leftarrow> int_shift (unat (byte AND 0x7F)) shift;
          if byte AND 0x80 = 0 then Some (result OR d, c + 1)
          else uleb_loop m i (result OR d) (shift + 7) (c + 1) }"

definition FIRCLSParseULEB128AndAdvance :: "memory \<Rightarrow> u64 parser" where
  "FIRCLSParseULEB128AndAdvance m = uleb_loop m 8 0 0"

fun sleb_loop :: "memory \<Rightarrow> nat \<Rightarrow> u64 \<Rightarrow> nat \<Rightarrow> u8 \<Rightarrow> (u64 \<times> nat \<times> u8) parser" where
  "sleb_loop m 0 result shift byte c = Some ((result, shift, byte), c)"
| "sleb_loop m (Suc i) result shift _ c =
     do { byte \<leftarrow> m c;
          d \<leftarrow> int_shift (unat (byte AND 0x7F)) shift;
          if byte AND 0x80 = 0 then Some ((result OR d, shift + 7, byte), c + 1)
          else sleb_loop m i (result OR d) (shift + 7) byte (c + 1) }"

definition FIRCLSParseLEB128AndAdvance :: "memory \<Rightarrow> u64 parser" where
  "FIRCLSParseLEB128AndAdvance m c =
     do { ((result, shift, byte), c) \<leftarrow> sleb_loop m 8 0 0 0 c;
          if shift < 64 \<and> byte AND 0x40 \<noteq> 0
          then (if shift < 31 then Some (result OR - push_bit shift 1, c) else None)
          else Some (result, c) }"

subsection \<open>Strings, record lengths and addresses\<close>

text \<open>The bytes before the NUL. A string that never ends does not return.\<close>

partial_function (option) c_string :: "memory \<Rightarrow> nat \<Rightarrow> u8 list option" where
  "c_string m a = do { b \<leftarrow> m a; if b = 0 then Some [] else do { s \<leftarrow> c_string m (a + 1); Some (b # s) } }"

definition FIRCLSParseStringAndAdvance :: "memory \<Rightarrow> u8 list parser" where
  "FIRCLSParseStringAndAdvance m c = do { s \<leftarrow> c_string m c; Some (s, c + (length s + 1)) }"

definition DWARF_EXTENDED_LENGTH_FLAG :: u64 where "DWARF_EXTENDED_LENGTH_FLAG = 0xffffffff"

definition FIRCLSParseRecordLengthAndAdvance :: "memory \<Rightarrow> u64 parser" where
  "FIRCLSParseRecordLengthAndAdvance m c =
     do { (n, c) \<leftarrow> FIRCLSParseUint32AndAdvance m c;
          let len = ucast n;
          if len = DWARF_EXTENDED_LENGTH_FLAG then FIRCLSParseUint64AndAdvance m c else Some (len, c) }"

definition CLS_INVALID_ADDRESS :: u64 where "CLS_INVALID_ADDRESS = 0xffffffffffffffff"

abbreviation (input) DW_EH_PE_absptr :: u8 where "DW_EH_PE_absptr \<equiv> 0x00"
abbreviation (input) DW_EH_PE_uleb128 :: u8 where "DW_EH_PE_uleb128 \<equiv> 0x01"
abbreviation (input) DW_EH_PE_udata2 :: u8 where "DW_EH_PE_udata2 \<equiv> 0x02"
abbreviation (input) DW_EH_PE_udata4 :: u8 where "DW_EH_PE_udata4 \<equiv> 0x03"
abbreviation (input) DW_EH_PE_udata8 :: u8 where "DW_EH_PE_udata8 \<equiv> 0x04"
abbreviation (input) DW_EH_PE_sleb128 :: u8 where "DW_EH_PE_sleb128 \<equiv> 0x09"
abbreviation (input) DW_EH_PE_sdata2 :: u8 where "DW_EH_PE_sdata2 \<equiv> 0x0A"
abbreviation (input) DW_EH_PE_sdata4 :: u8 where "DW_EH_PE_sdata4 \<equiv> 0x0B"
abbreviation (input) DW_EH_PE_sdata8 :: u8 where "DW_EH_PE_sdata8 \<equiv> 0x0C"
abbreviation (input) DW_EH_PE_pcrel :: u8 where "DW_EH_PE_pcrel \<equiv> 0x10"
abbreviation (input) DW_EH_PE_indirect :: u8 where "DW_EH_PE_indirect \<equiv> 0x80"
abbreviation (input) DW_EH_PE_omit :: u8 where "DW_EH_PE_omit \<equiv> 0xFF"
abbreviation (input) DW_EH_PE_VALUE_MASK :: u8 where "DW_EH_PE_VALUE_MASK \<equiv> 0x0F"
abbreviation (input) DW_EH_PE_RELATIVE_OFFSET_MASK :: u8 where "DW_EH_PE_RELATIVE_OFFSET_MASK \<equiv> 0x70"

text \<open>The value by its format, as an \<open>intptr_t\<close>; \<open>None\<close> inside for a format that is not handled.\<close>

definition encoded_value :: "memory \<Rightarrow> u8 \<Rightarrow> u64 option parser" where
  "encoded_value m format c =
     (if format = DW_EH_PE_absptr then do { (v, c) \<leftarrow> FIRCLSParseUint64AndAdvance m c; Some (Some v, c) }
      else if format = DW_EH_PE_uleb128 then do { (v, c) \<leftarrow> FIRCLSParseULEB128AndAdvance m c; Some (Some v, c) }
      else if format = DW_EH_PE_udata2 then do { (v, c) \<leftarrow> FIRCLSParseUint16AndAdvance m c; Some (Some (ucast v), c) }
      else if format = DW_EH_PE_udata4 then do { (v, c) \<leftarrow> FIRCLSParseUint32AndAdvance m c; Some (Some (ucast v), c) }
      else if format = DW_EH_PE_udata8 then do { (v, c) \<leftarrow> FIRCLSParseUint64AndAdvance m c; Some (Some v, c) }
      else if format = DW_EH_PE_sleb128 then do { (v, c) \<leftarrow> FIRCLSParseLEB128AndAdvance m c; Some (Some v, c) }
      else if format = DW_EH_PE_sdata2 then do { (v, c) \<leftarrow> FIRCLSParseUint16AndAdvance m c; Some (Some (scast v), c) }
      else if format = DW_EH_PE_sdata4 then do { (v, c) \<leftarrow> FIRCLSParseUint32AndAdvance m c; Some (Some (scast v), c) }
      else if format = DW_EH_PE_sdata8 then do { (v, c) \<leftarrow> FIRCLSParseUint64AndAdvance m c; Some (Some v, c) }
      else Some (None, c))"

text \<open>The relative offset: \<open>inputAddr\<close> is where the value stood.\<close>

definition relative_address :: "u8 \<Rightarrow> nat \<Rightarrow> u64 \<Rightarrow> u64 option" where
  "relative_address relative inputAddr addr =
     (if relative = DW_EH_PE_absptr then Some addr
      else if relative = DW_EH_PE_pcrel then Some (addr + of_nat inputAddr) else None)"

definition FIRCLSParseAddressWithEncodingAndAdvance :: "memory \<Rightarrow> u8 \<Rightarrow> u64 parser" where
  "FIRCLSParseAddressWithEncodingAndAdvance m encoding inputAddr =
     (if encoding = DW_EH_PE_omit then Some (0, inputAddr)
      else if inputAddr = 0 then Some (CLS_INVALID_ADDRESS, inputAddr)
      else do { (v, c) \<leftarrow> encoded_value m (encoding AND DW_EH_PE_VALUE_MASK) inputAddr;
        case Option.bind v (relative_address (encoding AND DW_EH_PE_RELATIVE_OFFSET_MASK) inputAddr) of
          None \<Rightarrow> Some (CLS_INVALID_ADDRESS, c)
        | Some addr \<Rightarrow>
            if encoding AND DW_EH_PE_indirect \<noteq> 0
            then (if addr = 0 then Some (CLS_INVALID_ADDRESS, c)
                  else do { bs \<leftarrow> load_bytes m (unat addr) 8; Some (le_word bs, c) })
            else Some (addr, c) })"

subsection \<open>Memory that holds given bytes\<close>

fun holds :: "memory \<Rightarrow> nat \<Rightarrow> u8 list \<Rightarrow> bool" where
  "holds m a [] \<longleftrightarrow> True"
| "holds m a (b # bs) \<longleftrightarrow> m a = Some b \<and> holds m (a + 1) bs"

lemma holds_append [simp]: "holds m a (xs @ ys) \<longleftrightarrow> holds m a xs \<and> holds m (a + length xs) ys"
  by (induction xs arbitrary: a) simp_all

lemma load_holds: "holds m a bs \<Longrightarrow> n = length bs \<Longrightarrow> load_bytes m a n = Some bs"
  by (induction bs arbitrary: a n) auto

text \<open>The memory that has the bytes \<open>bs\<close> at \<open>a\<close> and nothing else.\<close>

definition segment :: "nat \<Rightarrow> u8 list \<Rightarrow> memory" where
  "segment a bs x = (if a \<le> x \<and> x < a + length bs then Some (bs ! (x - a)) else None)"

lemma segment_holds: "k + length xs \<le> length bs \<Longrightarrow> take (length xs) (drop k bs) = xs \<Longrightarrow> holds (segment a bs) (a + k) xs"
proof (induction xs arbitrary: k)
  case (Cons x xs)
  then have "drop k bs = x # drop (k + 1) bs"
    by (cases "drop k bs") (auto simp: drop_Suc tl_drop [symmetric])
  moreover from this have "bs ! k = x" by (metis hd_drop_conv_nth Cons.prems(1) list.sel(1) length_Cons add_Suc_right Suc_le_lessD le_add1 le_less_trans)
  ultimately show ?case
    using Cons.prems Cons.IH[of "k + 1"] by (simp add: segment_def add.assoc)
qed simp

lemma segment_all: "holds (segment a bs) a bs"
  using segment_holds[of 0 bs bs a] by simp

subsection \<open>LEB128 of a number\<close>

function uleb_bytes :: "nat \<Rightarrow> u8 list" where
  "uleb_bytes n = (if n < 128 then [of_nat n] else of_nat (128 + n mod 128) # uleb_bytes (n div 128))"
  by pat_completeness auto
termination by (relation "measure id") auto

declare uleb_bytes.simps [simp del]

function sleb_bytes :: "int \<Rightarrow> u8 list" where
  "sleb_bytes k =
     (if k div 128 = 0 \<and> k mod 128 < 64 \<or> k div 128 = -1 \<and> 64 \<le> k mod 128 then [of_int (k mod 128)]
      else of_int (128 + k mod 128) # sleb_bytes (k div 128))"
  by pat_completeness auto
termination
proof (relation "measure (\<lambda>k. nat (if 0 \<le> k then k else - k - 1))", goal_cases)
  case (2 k)
  then show ?case by (cases "0 \<le> k") (auto, presburger+)
qed simp

declare sleb_bytes.simps [simp del]

lemma byte_of:
  "unat (of_nat n AND 0x7F :: u8) = n mod 128" "(of_nat n :: u8) AND 0x80 = 0 \<longleftrightarrow> even (n div 128)"
proof -
  show "unat (of_nat n AND 0x7F :: u8) = n mod 128"
    unfolding and_0x7f unsigned_take_bit_eq unat_of_nat by (simp add: take_bit_eq_mod mod_mod_cancel)
  show "(of_nat n :: u8) AND 0x80 = 0 \<longleftrightarrow> even (n div 128)"
    by (simp add: and_0x80 bit_simps) (simp add: bit_iff_odd)
qed

lemma byte_high: "unat (of_nat (128 + n mod 128) AND 0x7F :: u8) = n mod 128" "(of_nat (128 + n mod 128) :: u8) AND 0x80 \<noteq> 0"
proof -
  have "(128 + n mod 128) div 128 = 1" by (simp add: div_add_self1)
  then show "unat (of_nat (128 + n mod 128) AND 0x7F :: u8) = n mod 128" "(of_nat (128 + n mod 128) :: u8) AND 0x80 \<noteq> 0"
    by (simp_all only: byte_of) simp_all
qed

lemma or_shifted:
  assumes "r < 2 ^ s"
  shows "(of_nat r :: u64) OR of_nat (v * 2 ^ s) = of_nat (r + v * 2 ^ s)"
proof -
  have "\<not> bit (of_nat r :: u64) n" if "s \<le> n" for n
  proof -
    have "r < 2 ^ n" using assms that by (meson less_le_trans one_le_numeral power_increasing)
    then have "\<not> bit r n" by (simp add: bit_iff_odd)
    then show ?thesis by (simp add: bit_simps)
  qed
  moreover have "\<not> bit (of_nat (v * 2 ^ s) :: u64) n" if "n < s" for n
  proof -
    have "v * 2 ^ s = push_bit s v" by (simp add: push_bit_eq_mult)
    then have "\<not> bit (v * 2 ^ s) n" using that by (simp add: bit_push_bit_iff)
    then show ?thesis by (simp add: bit_simps del: of_nat_mult of_nat_power)
  qed
  ultimately have "(of_nat r :: u64) + of_nat (v * 2 ^ s) = of_nat r OR of_nat (v * 2 ^ s)"
    by (intro disjunctive_add) (meson linorder_not_le)
  then show ?thesis by simp
qed

lemma shift_digit: "(b + q * 128) * 2 ^ s = b * 2 ^ s + q * 2 ^ (s + 7)" for b :: "'a::comm_semiring_1"
  by (simp add: power_add algebra_simps)

lemma uleb_loop_bytes:
  "holds m c (uleb_bytes n) \<Longrightarrow> r < 2 ^ s \<Longrightarrow> s < 32 \<Longrightarrow> r + n * 2 ^ s < 2 ^ 31 \<Longrightarrow> 0 < i \<Longrightarrow> n < 128 ^ i \<Longrightarrow>
     uleb_loop m i (of_nat r) s c = Some (of_nat (r + n * 2 ^ s), c + length (uleb_bytes n))"
proof (induction n arbitrary: r s c i rule: uleb_bytes.induct)
  case (1 n)
  obtain k where i: "i = Suc k" using 1(6) by (cases i) auto
  show ?case
  proof (cases "n < 128")
    case True
    then have "int_shift n s = Some (of_nat (n * 2 ^ s))" using 1(4,5) by (simp add: int_shift_def)
    with True 1(2) or_shifted[OF 1(3), of n] show ?thesis
      by (simp add: i uleb_bytes.simps[of n] byte_of del: of_nat_mult of_nat_add)
  next
    case False
    let ?b = "n mod 128" and ?q = "n div 128"
    have e: "r + n * 2 ^ s = (r + ?b * 2 ^ s) + ?q * 2 ^ (s + 7)"
      using shift_digit[of ?b ?q s] by simp
    have "r + ?b * 2 ^ s < 2 ^ s + ?b * 2 ^ s" using 1(3) by simp
    also have "\<dots> \<le> 128 * 2 ^ s"
      using mod_less_divisor[of 128 n] by (simp flip: mult_Suc)
    finally have r: "r + ?b * 2 ^ s < 2 ^ (s + 7)" by (simp add: power_add mult.commute)
    have "1 \<le> ?q" using False by (simp add: Suc_le_eq div_greater_zero_iff)
    then have "(2::nat) ^ (s + 7) \<le> ?q * 2 ^ (s + 7)" by simp
    with 1(5) e have "(2::nat) ^ (s + 7) < 2 ^ 31" by linarith
    then have s: "s + 7 < 31" by (rule power_less_imp_less_exp[rotated]) simp
    have k: "0 < k" "?q < 128 ^ k"
      using 1(7) False by (cases k; simp add: i less_mult_imp_div_less mult.commute)+
    have d: "int_shift ?b s = Some (of_nat (?b * 2 ^ s))" using 1(4,5) e by (simp add: int_shift_def)
    have m: "m c = Some (of_nat (128 + ?b))" "holds m (c + 1) (uleb_bytes ?q)"
      using 1(2) False by (simp_all add: uleb_bytes.simps[of n])
    have o: "(of_nat r :: u64) OR of_nat (?b * 2 ^ s) = of_nat (r + ?b * 2 ^ s)" by (rule or_shifted[OF 1(3)])
    have "uleb_loop m i (of_nat r) s c = uleb_loop m k (of_nat (r + ?b * 2 ^ s)) (s + 7) (c + 1)"
      by (simp add: i m(1) byte_high d o del: of_nat_mult of_nat_add)
    also have "\<dots> = Some (of_nat (r + ?b * 2 ^ s + ?q * 2 ^ (s + 7)), c + 1 + length (uleb_bytes ?q))"
      using 1(1)[OF False m(2) r _ _ k] s 1(5) e by (simp del: of_nat_mult of_nat_add)
    also have "c + 1 + length (uleb_bytes ?q) = c + length (uleb_bytes n)"
      using False by (simp add: uleb_bytes.simps[of n])
    finally show ?thesis by (simp only: e)
  qed
qed

lemma uleb_parse:
  "holds m c (uleb_bytes n) \<Longrightarrow> n < 2 ^ 31 \<Longrightarrow>
     FIRCLSParseULEB128AndAdvance m c = Some (of_nat n, c + length (uleb_bytes n))"
  using uleb_loop_bytes[of m c n 0 0 8] by (simp add: FIRCLSParseULEB128AndAdvance_def)

text \<open>
  The signed reader: \<open>j\<close> bytes are read, \<open>k\<close> is left. The numbers of at most 28 bits, and the
  non-negative ones of 31, are those for which no shift leaves the range of an \<open>int\<close>.
\<close>

definition sleb_range :: "nat \<Rightarrow> int \<Rightarrow> bool" where
  "sleb_range j k \<longleftrightarrow>
     j = 0 \<and> -(2 ^ 27) \<le> k \<and> k < 2 ^ 31 \<or> j = 1 \<and> -(2 ^ 20) \<le> k \<and> k < 2 ^ 24 \<or>
     j = 2 \<and> -(2 ^ 13) \<le> k \<and> k < 2 ^ 17 \<or> j = 3 \<and> -(2 ^ 6) \<le> k \<and> k < 2 ^ 10 \<or>
     j = 4 \<and> 0 \<le> k \<and> k < 2 ^ 3"

definition sleb_last :: "int \<Rightarrow> bool" where
  "sleb_last k \<longleftrightarrow> k div 128 = 0 \<and> k mod 128 < 64 \<or> k div 128 = -1 \<and> 64 \<le> k mod 128"

lemma sleb_range_step: "sleb_range j k \<Longrightarrow> \<not> sleb_last k \<Longrightarrow> sleb_range (j + 1) (k div 128)"
proof -
  assume r: "sleb_range j k" and l: "\<not> sleb_last k"
  obtain q b where qb: "k div 128 = q" "k mod 128 = b" by simp
  moreover have "k = k div 128 * 128 + k mod 128" "0 \<le> k mod 128" "k mod 128 < 128" by simp_all
  ultimately have q: "k div 128 = q" "k mod 128 = b" "k = q * 128 + b" "0 \<le> b" "b < 128" by simp_all
  have small: "k < -64 \<or> 64 \<le> k"
  proof (rule ccontr)
    assume "\<not> ?thesis"
    with q(3-5) have "-1 \<le> q" "q \<le> 0" by linarith+
    then have "q = 0 \<or> q = -1" by linarith
    with l q(3-5) \<open>\<not> ?thesis\<close> show False unfolding sleb_last_def q(1,2) by linarith
  qed
  have lo: "a * 128 \<le> k \<Longrightarrow> a \<le> q" for a using q(3-5) by linarith
  have hi: "k < a * 128 \<Longrightarrow> q < a" for a using q(3-5) by linarith
  show ?thesis
    using r small lo[of "-(2 ^ 20)"] lo[of "-(2 ^ 13)"] lo[of "-(2 ^ 6)"] lo[of 0] hi[of "2 ^ 24"] hi[of "2 ^ 17"]
      hi[of "2 ^ 10"] hi[of "2 ^ 3"]
    unfolding sleb_range_def q(1) by (elim disjE conjE) simp_all
qed

lemma sleb_digit:
  assumes "sleb_range j k" "j = 4 \<longrightarrow> sleb_last k"
  shows "int_shift (nat (k mod 128)) (7 * j) = Some (of_nat (nat (k mod 128) * 2 ^ (7 * j)))"
proof -
  have "nat (k mod 128) * 2 ^ (7 * j) < 2 ^ 31"
  proof (cases "j = 4")
    case True
    with assms have "k mod 128 < 8" unfolding sleb_range_def by auto
    then have "nat (k mod 128) < 8" by simp
    then show ?thesis using True by simp
  next
    case False
    then have "j \<le> 3" using assms(1) unfolding sleb_range_def by auto
    then have "(2::nat) ^ (7 * j) \<le> 2 ^ 21" by (intro power_increasing) simp_all
    moreover have "nat (k mod 128) < 128" by simp
    ultimately have "nat (k mod 128) * 2 ^ (7 * j) \<le> 128 * 2 ^ 21" by (intro mult_le_mono) simp_all
    then show ?thesis by simp
  qed
  moreover have "7 * j < 32" using assms(1) unfolding sleb_range_def by auto
  ultimately show ?thesis by (simp add: int_shift_def)
qed

lemma byte_6: "(of_nat n :: u8) AND 0x40 = 0 \<longleftrightarrow> even (n div 64)"
proof -
  have "(of_nat n :: u8) AND 0x40 = 0 \<longleftrightarrow> \<not> bit (of_nat n :: u8) 6"
    using bit_iff_and_push_bit_not_eq_0[of "of_nat n :: u8" 6] by (simp add: push_bit_of_1)
  then show ?thesis by (simp add: bit_simps) (simp add: bit_iff_odd)
qed

lemma or_sign:
  assumes "r < 2 ^ t"
  shows "(of_nat r :: u64) OR - push_bit t 1 = of_int (int r - 2 ^ t)"
proof -
  have "\<not> bit (of_nat r :: u64) n" if "t \<le> n" for n
  proof -
    have "r < 2 ^ n" using assms that by (meson less_le_trans one_le_numeral power_increasing)
    then have "\<not> bit r n" by (simp add: bit_iff_odd)
    then show ?thesis by (simp add: bit_simps)
  qed
  moreover have m: "- push_bit t (1 :: u64) = push_bit t (-1)" by (simp add: push_bit_eq_mult)
  ultimately have "(of_nat r :: u64) + - push_bit t 1 = of_nat r OR - push_bit t 1"
    unfolding m by (intro disjunctive_add) (simp only: bit_push_bit_iff; blast)
  then show ?thesis by (simp add: push_bit_eq_mult)
qed

definition sleb_finish :: "u64 \<times> nat \<times> u8 \<Rightarrow> u64 option" where
  "sleb_finish = (\<lambda>(result, shift, byte).
     if shift < 64 \<and> byte AND 0x40 \<noteq> 0
     then (if shift < 31 then Some (result OR - push_bit shift 1) else None) else Some result)"

lemma sleb_finish: "FIRCLSParseLEB128AndAdvance m c =
    do { (x, c) \<leftarrow> sleb_loop m 8 0 0 0 c; v \<leftarrow> sleb_finish x; Some (v, c) }"
  by (cases "sleb_loop m 8 0 0 0 c") (auto simp: FIRCLSParseLEB128AndAdvance_def sleb_finish_def)

lemma sleb_last_step:
  assumes "sleb_range j k" "sleb_last k" "r < 2 ^ (7 * j)"
  shows "sleb_finish (of_nat r OR of_nat (nat (k mod 128) * 2 ^ (7 * j)), 7 * j + 7, of_nat (nat (k mod 128)))
    = Some (of_int (int r + k * 2 ^ (7 * j)))"
proof -
  define b where "b = nat (k mod 128)"
  have b: "b < 128" "k mod 128 = int b" by (simp_all add: b_def)
  let ?s = "7 * j"
  have o: "(of_nat r :: u64) OR of_nat (b * 2 ^ ?s) = of_nat (r + b * 2 ^ ?s)" by (rule or_shifted[OF assms(3)])
  have n: "nat (k mod 128) = b" by (simp add: b_def)
  have eq: "k = k div 128 * 128 + int b" using b(2) div_mult_mod_eq[of k 128] by simp
  show ?thesis
  proof (cases "k div 128 = 0")
    case True
    then have k: "k = int b" "b < 64" using assms(2) b eq by (auto simp: sleb_last_def)
    then have "b div 64 = 0" by simp
    then show ?thesis unfolding n by (simp add: sleb_finish_def o byte_6 k(1) del: of_nat_mult of_nat_add) simp
  next
    case False
    then have k: "k = int b - 128" "64 \<le> b" using assms(2) b eq by (auto simp: sleb_last_def)
    then have "b div 64 = 1" using b(1) by (simp add: div_nat_eqI)
    moreover have "j \<le> 3" using assms(1) k(1) b(1) unfolding sleb_range_def by auto
    moreover have "r + b * 2 ^ ?s < 2 ^ (?s + 7)"
    proof -
      have "r + b * 2 ^ ?s < 2 ^ ?s + b * 2 ^ ?s" using assms(3) by simp
      also have "\<dots> \<le> 128 * 2 ^ ?s" using b(1) by (simp flip: mult_Suc)
      finally show ?thesis by (simp add: power_add mult.commute)
    qed
    then have "(of_nat (r + b * 2 ^ ?s) :: u64) OR - push_bit (?s + 7) 1 = of_int (int (r + b * 2 ^ ?s) - 2 ^ (?s + 7))"
      by (rule or_sign)
    moreover have "int (r + b * 2 ^ ?s) - 2 ^ (?s + 7) = int r + k * 2 ^ ?s"
      by (subst k(1)) (simp add: power_add algebra_simps)
    ultimately show ?thesis unfolding n by (simp add: sleb_finish_def o byte_6 del: of_nat_mult of_nat_add)
  qed
qed

lemma sleb_bytes_last: "sleb_last k \<Longrightarrow> sleb_bytes k = [of_nat (nat (k mod 128))]"
  by (subst sleb_bytes.simps) (simp add: sleb_last_def)

lemma sleb_bytes_more:
  "\<not> sleb_last k \<Longrightarrow> sleb_bytes k = of_nat (128 + nat (k mod 128)) # sleb_bytes (k div 128)"
  by (subst sleb_bytes.simps) (simp add: sleb_last_def)

lemma sleb_loop_bytes:
  "holds m c (sleb_bytes k) \<Longrightarrow> sleb_range j k \<Longrightarrow> r < 2 ^ (7 * j) \<Longrightarrow> 5 - j \<le> i \<Longrightarrow>
     do { (x, c) \<leftarrow> sleb_loop m i (of_nat r) (7 * j) b0 c; v \<leftarrow> sleb_finish x; Some (v, c) }
       = Some (of_int (int r + k * 2 ^ (7 * j)), c + length (sleb_bytes k))"
proof (induction k arbitrary: r j c i b0 rule: sleb_bytes.induct)
  case (1 k)
  define b where "b = nat (k mod 128)"
  have b: "b < 128" "int b = k mod 128" "b mod 128 = b" by (simp_all add: b_def)
  have "j < 5" using 1(3) by (auto simp: sleb_range_def)
  then obtain n where i: "i = Suc n" using 1(5) by (cases i) simp_all
  show ?case
  proof (cases "sleb_last k")
    case True
    have d: "int_shift b (7 * j) = Some (of_nat (b * 2 ^ (7 * j)))"
      using sleb_digit[OF 1(3)] True by (simp add: b_def)
    have m: "m c = Some (of_nat b)" using 1(2) by (simp add: sleb_bytes_last[OF True] b_def)
    show ?thesis
      using sleb_last_step[OF 1(3) True 1(4)] b(1)
      by (simp add: i m byte_of d sleb_bytes_last[OF True] b_def [symmetric] del: of_nat_mult of_nat_add)
  next
    case False
    have last: "j = 4 \<longrightarrow> sleb_last k"
      using 1(3) by (auto simp: sleb_range_def sleb_last_def)
    have d: "int_shift b (7 * j) = Some (of_nat (b * 2 ^ (7 * j)))"
      using sleb_digit[OF 1(3) last] by (simp add: b_def)
    have m: "m c = Some (of_nat (128 + b))" "holds m (c + 1) (sleb_bytes (k div 128))"
      using 1(2) by (simp_all add: sleb_bytes_more[OF False] b_def)
    have o: "(of_nat r :: u64) OR of_nat (b * 2 ^ (7 * j)) = of_nat (r + b * 2 ^ (7 * j))" by (rule or_shifted[OF 1(4)])
    have r: "r + b * 2 ^ (7 * j) < 2 ^ (7 * (j + 1))"
    proof -
      have "r + b * 2 ^ (7 * j) < 2 ^ (7 * j) + b * 2 ^ (7 * j)" using 1(4) by simp
      also have "\<dots> \<le> 128 * 2 ^ (7 * j)" using b(1) by (simp flip: mult_Suc)
      finally show ?thesis by (simp add: power_add mult.commute)
    qed
    have v: "int (r + b * 2 ^ (7 * j)) + k div 128 * 2 ^ (7 * (j + 1)) = int r + k * 2 ^ (7 * j)"
      using shift_digit[of "int b" "k div 128" "7 * j"] b(2) by (simp add: add.commute)
    have step: "sleb_loop m i (of_nat r) (7 * j) b0 c
        = sleb_loop m n (of_nat (r + b * 2 ^ (7 * j))) (7 * (j + 1)) (of_nat (128 + b)) (c + 1)"
      using byte_high[of b] by (simp add: i m(1) b(3) d o add.commute del: of_nat_mult of_nat_add)
    have IH: "do { (x, c) \<leftarrow> sleb_loop m n (of_nat (r + b * 2 ^ (7 * j))) (7 * (j + 1)) (of_nat (128 + b)) (c + 1);
          v \<leftarrow> sleb_finish x; Some (v, c) }
       = Some (of_int (int (r + b * 2 ^ (7 * j)) + k div 128 * 2 ^ (7 * (j + 1))), c + 1 + length (sleb_bytes (k div 128)))"
      by (rule 1(1)[OF _ m(2) sleb_range_step[OF 1(3) False] r])
        (use False 1(5) i in \<open>auto simp: sleb_last_def\<close>)
    show ?thesis
      unfolding step IH v by (simp add: sleb_bytes_more[OF False])
  qed
qed

lemma sleb_parse:
  "holds m c (sleb_bytes k) \<Longrightarrow> -(2 ^ 27) \<le> k \<Longrightarrow> k < 2 ^ 31 \<Longrightarrow>
     FIRCLSParseLEB128AndAdvance m c = Some (of_int k, c + length (sleb_bytes k))"
  using sleb_loop_bytes[of m c k 0 0 8 0] by (simp add: sleb_finish sleb_range_def)

text \<open>
  LEB128: on the encoding of an unsigned number below 2 to the 31, or of a signed number from
  minus 2 to the 27 up to 2 to the 31, the readers return the number and leave the cursor behind
  its last byte.
\<close>

theorem leb128_readers:
  assumes "n < 2 ^ 31" "-(2 ^ 27) \<le> k" "k < 2 ^ 31"
    "holds m a (uleb_bytes n)" "holds m c (sleb_bytes k)"
  shows "FIRCLSParseULEB128AndAdvance m a = Some (of_nat n, a + length (uleb_bytes n)) \<and>
    FIRCLSParseLEB128AndAdvance m c = Some (of_int k, c + length (sleb_bytes k))"
  using uleb_parse[OF assms(4,1)] sleb_parse[OF assms(5,2,3)] by blast

lemma leb128_readers_witness:
  "FIRCLSParseLEB128AndAdvance ((segment 8 [0x80, 0x7F])(0 \<mapsto> 0)) 8 = Some (- 128, 10)"
proof -
  have b: "uleb_bytes 0 = [0]" "sleb_bytes (-128) = [0x80, 0x7F]"
    by (subst uleb_bytes.simps, simp) (subst sleb_bytes.simps, simp, subst sleb_bytes.simps, simp)
  let ?m = "(segment 8 [0x80, 0x7F])(0 \<mapsto> 0)"
  have "holds ?m 0 (uleb_bytes 0)" "holds ?m 8 (sleb_bytes (-128))" by (simp_all add: b segment_def)
  with leb128_readers[of 0 "-128" ?m 0 8] show ?thesis by (simp add: b)
qed

text \<open>
  Outside that range the \<open>int\<close> shifts of the readers are undefined: an encoding of zero padded to
  six bytes, or minus 2 to the 27 minus one, has no value.
\<close>

lemma uleb_loop_pos:
  "0 < i \<Longrightarrow> uleb_loop m i result shift c =
     do { byte \<leftarrow> m c;
          d \<leftarrow> int_shift (unat (byte AND 0x7F)) shift;
          if byte AND 0x80 = 0 then Some (result OR d, c + 1)
          else uleb_loop m (i - 1) (result OR d) (shift + 7) (c + 1) }"
  using uleb_loop.simps(2)[of m "i - 1" result shift c] by simp

lemma sleb_loop_pos:
  "0 < i \<Longrightarrow> sleb_loop m i result shift b c =
     do { byte \<leftarrow> m c;
          d \<leftarrow> int_shift (unat (byte AND 0x7F)) shift;
          if byte AND 0x80 = 0 then Some ((result OR d, shift + 7, byte), c + 1)
          else sleb_loop m (i - 1) (result OR d) (shift + 7) byte (c + 1) }"
  using sleb_loop.simps(2)[of m "i - 1" result shift b c] by simp

lemma leb128_undefined:
  "FIRCLSParseULEB128AndAdvance (segment 8 [0x80, 0x80, 0x80, 0x80, 0x80, 0x00]) 8 = None"
  "FIRCLSParseLEB128AndAdvance (segment 8 (sleb_bytes (-(2 ^ 27) - 1))) 8 = None"
proof -
  have s: "sleb_bytes (-(2 ^ 27) - 1) = [0xFF, 0xFF, 0xFF, 0xBF, 0x7F]"
    by (simp add: sleb_bytes.simps)
  show "FIRCLSParseLEB128AndAdvance (segment 8 (sleb_bytes (-(2 ^ 27) - 1))) 8 = None"
    unfolding s by (simp add: FIRCLSParseLEB128AndAdvance_def sleb_loop_pos int_shift_def segment_def)
  show "FIRCLSParseULEB128AndAdvance (segment 8 [0x80, 0x80, 0x80, 0x80, 0x80, 0x00]) 8 = None"
    by (simp add: FIRCLSParseULEB128AndAdvance_def uleb_loop_pos int_shift_def segment_def)
qed

end
