(* ===== verification/Dwarf_Records.thy ===== *)
theory Dwarf_Records
  imports Dwarf_Data
begin

text \<open>
  The common and frame description entries of an \<open>eh_frame\<close> section (the record parsing of
  FIRCLSDwarfUnwind.c), and the bytes of such entries, which the parsers read back.

  A parser of a record gives the success flag and the record, \<open>None\<close> for a fault.
\<close>

subsection \<open>Records\<close>

record dwarf_instructions =
  ins_length :: u32
  ins_data :: nat

text \<open>The augmentation is the string it points to, \<open>None\<close> for NULL; \<open>dataAlignFactor\<close> is signed.\<close>

record DWARFCIERecord =
  cie_length :: u64
  version :: u8
  ehData :: u64
  augmentation :: "u8 list option"
  pointerEncoding :: u8
  lsdaEncoding :: u8
  personalityEncoding :: u8
  personalityFunction :: u64
  codeAlignFactor :: u64
  dataAlignFactor :: u64
  returnAddressRegister :: u64
  signalFrame :: bool
  cie_instructions :: dwarf_instructions

record DWARFFDERecord =
  fde_length :: u64
  cieOffset :: u64
  startAddress :: u64
  rangeSize :: u64
  fde_instructions :: dwarf_instructions

record FIRCLSDwarfCFIRecord =
  cfi_cie :: DWARFCIERecord
  cfi_fde :: DWARFFDERecord

definition no_instructions :: dwarf_instructions where
  "no_instructions = \<lparr>ins_length = 0, ins_data = 0\<rparr>"

definition zero_cie :: DWARFCIERecord where
  "zero_cie = \<lparr>cie_length = 0, version = 0, ehData = 0, augmentation = None, pointerEncoding = 0, lsdaEncoding = 0,
     personalityEncoding = 0, personalityFunction = 0, codeAlignFactor = 0, dataAlignFactor = 0,
     returnAddressRegister = 0, signalFrame = False, cie_instructions = no_instructions\<rparr>"

text \<open>The instructions between two addresses.\<close>

definition instructions_between :: "nat \<Rightarrow> nat \<Rightarrow> dwarf_instructions" where
  "instructions_between p q = \<lparr>ins_length = word_of_int (int q - int p), ins_data = p\<rparr>"

subsection \<open>The common entry\<close>

fun augmentation_loop :: "memory \<Rightarrow> nat \<Rightarrow> u8 list \<Rightarrow> DWARFCIERecord \<Rightarrow> (bool \<times> DWARFCIERecord) parser" where
  "augmentation_loop m ending [] r c = Some ((True, r), c)"
| "augmentation_loop m ending (x # xs) r c =
     do { ((ok, r), c) \<leftarrow>
            (if x = 0x4C then
               do { (e, c) \<leftarrow> FIRCLSParseUint8AndAdvance m c; Some ((True, r\<lparr>lsdaEncoding := e\<rparr>), c) }
             else if x = 0x52 then
               do { (e, c) \<leftarrow> FIRCLSParseUint8AndAdvance m c; Some ((True, r\<lparr>pointerEncoding := e\<rparr>), c) }
             else if x = 0x50 then
               do { (e, c) \<leftarrow> FIRCLSParseUint8AndAdvance m c;
                    (f, c) \<leftarrow> FIRCLSParseAddressWithEncodingAndAdvance m e c;
                    Some ((f \<noteq> CLS_INVALID_ADDRESS, r\<lparr>personalityEncoding := e, personalityFunction := f\<rparr>), c) }
             else if x = 0x53 then Some ((True, r\<lparr>signalFrame := True\<rparr>), c)
             else Some ((False, r), c));
          if \<not> ok \<or> ending < c then Some ((False, r), c) else augmentation_loop m ending xs r c }"

definition FIRCLSDwarfParseAndProcessAugmentation :: "memory \<Rightarrow> DWARFCIERecord \<Rightarrow> (bool \<times> DWARFCIERecord) parser" where
  "FIRCLSDwarfParseAndProcessAugmentation m r c =
     (case augmentation r of
        None \<Rightarrow> Some ((False, r), c)
      | Some [] \<Rightarrow> Some ((True, r), c)
      | Some (x # xs) \<Rightarrow>
          if x \<noteq> 0x7A then Some ((False, r), c)
          else do { (dataLength, c) \<leftarrow> FIRCLSParseULEB128AndAdvance m c;
                    augmentation_loop m (c + unat dataLength) xs r c })"

text \<open>The number of the return address register is a byte in version 1.\<close>

definition return_register :: "memory \<Rightarrow> u8 \<Rightarrow> u64 parser" where
  "return_register m v c =
     (if v = 1 then do { (b, c) \<leftarrow> FIRCLSParseUint8AndAdvance m c; Some (ucast b, c) }
      else FIRCLSParseULEB128AndAdvance m c)"

text \<open>A wrong CIE flag is logged only; a wrong version is noticed after the alignment factors.\<close>

definition FIRCLSDwarfParseCIERecord :: "memory \<Rightarrow> DWARFCIERecord \<Rightarrow> nat \<Rightarrow> (bool \<times> DWARFCIERecord) option" where
  "FIRCLSDwarfParseCIERecord m cie ptr =
     (if ptr = 0 then Some (False, cie)
      else do { (len, c) \<leftarrow> FIRCLSParseRecordLengthAndAdvance m ptr;
        let cie = zero_cie\<lparr>cie_length := len\<rparr>;
        if len = 0 then Some (False, cie)
        else do { let end_address = c + unat len;
          (_, c) \<leftarrow> FIRCLSParseUint32AndAdvance m c;
          (v, c) \<leftarrow> FIRCLSParseUint8AndAdvance m c;
          (s, c) \<leftarrow> FIRCLSParseStringAndAdvance m c;
          (code, c) \<leftarrow> FIRCLSParseULEB128AndAdvance m c;
          (data, c) \<leftarrow> FIRCLSParseLEB128AndAdvance m c;
          let cie = cie\<lparr>version := v, pointerEncoding := DW_EH_PE_absptr, lsdaEncoding := DW_EH_PE_absptr,
            augmentation := Some s, codeAlignFactor := code, dataAlignFactor := data\<rparr>;
          if v \<noteq> 1 \<and> v \<noteq> 3 then Some (False, cie)
          else do { (ra, c) \<leftarrow> return_register m v c;
            ((ok, cie), c) \<leftarrow> FIRCLSDwarfParseAndProcessAugmentation m (cie\<lparr>returnAddressRegister := ra\<rparr>) c;
            if \<not> ok then Some (False, cie)
            else Some (True, cie\<lparr>cie_instructions := instructions_between c end_address\<rparr>) } } })"

subsection \<open>The frame entry\<close>

definition FIRCLSDwarfCIEIsValid :: "DWARFCIERecord \<Rightarrow> bool" where
  "FIRCLSDwarfCIEIsValid cie =
     (if cie_length cie = 0 then False else if version cie \<noteq> 1 \<and> version cie \<noteq> 3 then False else True)"

definition FIRCLSDwarfCIEHasAugmentationData :: "DWARFCIERecord \<Rightarrow> bool" where
  "FIRCLSDwarfCIEHasAugmentationData cie =
     (case augmentation cie of None \<Rightarrow> False | Some [] \<Rightarrow> False | Some (x # _) \<Rightarrow> x = 0x7A)"

definition skip_augmentation :: "memory \<Rightarrow> DWARFCIERecord \<Rightarrow> nat \<Rightarrow> nat option" where
  "skip_augmentation m cie c =
     (if FIRCLSDwarfCIEHasAugmentationData cie
      then do { (n, c) \<leftarrow> FIRCLSParseULEB128AndAdvance m c; Some (c + unat n) } else Some c)"

text \<open>
  \<open>cieOffset\<close> counts back from its own field. A pointer below the start of the address space is a
  fault.
\<close>

definition FIRCLSDwarfParseFDERecord ::
    "memory \<Rightarrow> DWARFFDERecord \<Rightarrow> bool \<Rightarrow> DWARFCIERecord \<Rightarrow> nat \<Rightarrow> (bool \<times> DWARFFDERecord \<times> DWARFCIERecord) option" where
  "FIRCLSDwarfParseFDERecord m fde parseCIE cie ptr =
     (if ptr = 0 then Some (False, fde, cie)
      else do { (len, c) \<leftarrow> FIRCLSParseRecordLengthAndAdvance m ptr;
        let fde = fde\<lparr>fde_length := len\<rparr>;
        if len = 0 then Some (False, fde, cie)
        else do { let end_address = c + unat len;
          (off, c) \<leftarrow> FIRCLSParseUint32AndAdvance m c;
          let fde = fde\<lparr>cieOffset := ucast off\<rparr>;
          if off = 0 then Some (False, fde, cie)
          else do {
            (ok, cie) \<leftarrow> (if \<not> parseCIE then Some (True, cie)
              else if c < unat off + 4 then None
              else FIRCLSDwarfParseCIERecord m cie (c - unat off - 4));
            if \<not> ok \<or> \<not> FIRCLSDwarfCIEIsValid cie then Some (False, fde, cie)
            else do { (start, c) \<leftarrow> FIRCLSParseAddressWithEncodingAndAdvance m (pointerEncoding cie) c;
              let fde = fde\<lparr>startAddress := start\<rparr>;
              if start = CLS_INVALID_ADDRESS then Some (False, fde, cie)
              else do { (range, c) \<leftarrow>
                  FIRCLSParseAddressWithEncodingAndAdvance m (pointerEncoding cie AND DW_EH_PE_VALUE_MASK) c;
                let fde = fde\<lparr>rangeSize := range\<rparr>;
                if range = CLS_INVALID_ADDRESS then Some (False, fde, cie)
                else do { c \<leftarrow> skip_augmentation m cie c;
                  Some (True, fde\<lparr>fde_instructions := instructions_between c end_address\<rparr>, cie) } } } } } })"

definition FIRCLSDwarfParseCFIFromFDERecord ::
    "memory \<Rightarrow> FIRCLSDwarfCFIRecord \<Rightarrow> nat \<Rightarrow> (bool \<times> FIRCLSDwarfCFIRecord) option" where
  "FIRCLSDwarfParseCFIFromFDERecord m record ptr =
     (if ptr = 0 then Some (False, record)
      else do { (ok, fde, cie) \<leftarrow> FIRCLSDwarfParseFDERecord m (cfi_fde record) True (cfi_cie record) ptr;
                Some (ok, \<lparr>cfi_cie = cie, cfi_fde = fde\<rparr>) })"

definition FIRCLSDwarfParseCFIFromFDERecordOffset ::
    "memory \<Rightarrow> FIRCLSDwarfCFIRecord \<Rightarrow> nat \<Rightarrow> nat \<Rightarrow> (bool \<times> FIRCLSDwarfCFIRecord) option" where
  "FIRCLSDwarfParseCFIFromFDERecordOffset m record ehFrame fdeOffset =
     (if ehFrame = 0 \<or> fdeOffset = 0 then Some (False, record)
      else FIRCLSDwarfParseCFIFromFDERecord m record (ehFrame + fdeOffset))"

end
