(* ===== verification/Dwarf_Registers.thy ===== *)
theory Dwarf_Registers
  imports Dwarf_Data
begin

text \<open>
  The thread context (FIRCLSThreadState.c) and the DWARF register numbers of the two
  architectures the unwinder is built for, arm64 devices (FIRCLSUnwind_arm.c) and x86-64
  simulators (FIRCLSUnwind_x86.c). The unwinder uses the registers through two operations, whose
  contract is the locale \<open>register_file\<close>.
\<close>

subsection \<open>The interface\<close>

text \<open>
  \<open>ok\<close> is the form of a context, \<open>view n v\<close> what reading register \<open>n\<close> gives when \<open>v\<close> was stored.
\<close>

locale register_file =
  fixes get :: "'c \<Rightarrow> nat \<Rightarrow> u64" and set :: "'c \<Rightarrow> nat \<Rightarrow> u64 \<Rightarrow> bool \<times> 'c"
    and max_num :: nat and view :: "nat \<Rightarrow> u64 \<Rightarrow> u64" and ok :: "'c \<Rightarrow> bool"
  assumes set_known: "n \<le> max_num \<Longrightarrow> fst (set r n v)"
    and set_ok: "ok r \<Longrightarrow> n \<le> max_num \<Longrightarrow> ok (snd (set r n v))"
    and get_set: "ok r \<Longrightarrow> n \<le> max_num \<Longrightarrow> get (snd (set r n v)) n = view n v"
    and get_other: "ok r \<Longrightarrow> n \<le> max_num \<Longrightarrow> k \<noteq> n \<Longrightarrow> get (snd (set r n v)) k = get r k"
begin

text \<open>Storing a value for some of the registers, in the order of a list of numbers.\<close>

fun assign :: "(nat \<Rightarrow> u64 option) \<Rightarrow> nat list \<Rightarrow> 'c \<Rightarrow> bool \<times> 'c" where
  "assign f [] r = (True, r)"
| "assign f (n # ns) r =
     (case f n of
        None \<Rightarrow> assign f ns r
      | Some v \<Rightarrow> (case set r n v of (False, r) \<Rightarrow> (False, r) | (True, r) \<Rightarrow> assign f ns r))"

lemma assign_result:
  "ok r \<Longrightarrow> list_all (\<lambda>n. n \<le> max_num) ns \<Longrightarrow> distinct ns \<Longrightarrow>
     \<exists>r2. assign f ns r = (True, r2) \<and> ok r2 \<and>
       (\<forall>k. get r2 k = (if k \<in> List.set ns then (case f k of None \<Rightarrow> get r k | Some v \<Rightarrow> view k v) else get r k))"
proof (induction ns arbitrary: r)
  case (Cons n ns)
  show ?case
  proof (cases "f n")
    case None
    obtain r2 where "assign f ns r = (True, r2)" "ok r2"
      "\<forall>k. get r2 k = (if k \<in> List.set ns then (case f k of None \<Rightarrow> get r k | Some v \<Rightarrow> view k v) else get r k)"
      using Cons by auto
    with None show ?thesis by (intro exI[of _ r2]) (auto split: option.split)
  next
    case (Some v)
    obtain r1 where r1: "set r n v = (True, r1)"
      using set_known[of n r v] Cons.prems(2) by (cases "set r n v") auto
    have "ok r1" "get r1 n = view n v" "\<And>k. k \<noteq> n \<Longrightarrow> get r1 k = get r k"
      using set_ok[of r n v] get_set[of r n v] get_other[of r n _ v] Cons.prems(1,2) r1 by auto
    moreover from this(1) obtain r2 where "assign f ns r1 = (True, r2)" "ok r2"
      "\<forall>k. get r2 k = (if k \<in> List.set ns then (case f k of None \<Rightarrow> get r1 k | Some v \<Rightarrow> view k v) else get r1 k)"
      using Cons by auto
    ultimately show ?thesis
      using Cons.prems(3) Some r1 by (intro exI[of _ r2]) (auto split: option.split; metis)
  qed
qed simp

end

subsection \<open>arm64\<close>

record thread_context =
  ss_x :: "u64 list"
  ss_fp :: u64
  ss_lr :: u64
  ss_sp :: u64
  ss_pc :: u64

text \<open>Reading an address keeps its low 36 bits.\<close>

definition CLS_PTRAUTH_STRIP :: "u64 \<Rightarrow> u64" where
  "CLS_PTRAUTH_STRIP p = p AND 0x0000000FFFFFFFFF"

definition FIRCLSThreadContextGetPC :: "thread_context \<Rightarrow> u64" where
  "FIRCLSThreadContextGetPC r = CLS_PTRAUTH_STRIP (ss_pc r)"

definition FIRCLSThreadContextGetStackPointer :: "thread_context \<Rightarrow> u64" where
  "FIRCLSThreadContextGetStackPointer r = CLS_PTRAUTH_STRIP (ss_sp r)"

definition FIRCLSThreadContextGetLinkRegister :: "thread_context \<Rightarrow> u64" where
  "FIRCLSThreadContextGetLinkRegister r = CLS_PTRAUTH_STRIP (ss_lr r)"

definition FIRCLSThreadContextGetFramePointer :: "thread_context \<Rightarrow> u64" where
  "FIRCLSThreadContextGetFramePointer r = CLS_PTRAUTH_STRIP (ss_fp r)"

definition FIRCLSThreadContextSetPC :: "thread_context \<Rightarrow> u64 \<Rightarrow> thread_context" where
  "FIRCLSThreadContextSetPC r v = r\<lparr>ss_pc := v\<rparr>"

definition FIRCLSThreadContextSetStackPointer :: "thread_context \<Rightarrow> u64 \<Rightarrow> thread_context" where
  "FIRCLSThreadContextSetStackPointer r v = r\<lparr>ss_sp := v\<rparr>"

definition FIRCLSThreadContextSetLinkRegister :: "thread_context \<Rightarrow> u64 \<Rightarrow> thread_context" where
  "FIRCLSThreadContextSetLinkRegister r v = r\<lparr>ss_lr := v\<rparr>"

definition FIRCLSThreadContextSetFramePointer :: "thread_context \<Rightarrow> u64 \<Rightarrow> thread_context" where
  "FIRCLSThreadContextSetFramePointer r v = r\<lparr>ss_fp := v\<rparr>"

abbreviation (input) CLS_DWARF_ARM64_FP :: nat where "CLS_DWARF_ARM64_FP \<equiv> 29"
abbreviation (input) CLS_DWARF_ARM64_LR :: nat where "CLS_DWARF_ARM64_LR \<equiv> 30"
abbreviation (input) CLS_DWARF_ARM64_SP :: nat where "CLS_DWARF_ARM64_SP \<equiv> 31"
abbreviation (input) CLS_DWARF_MAX_REGISTER_NUM :: nat where "CLS_DWARF_MAX_REGISTER_NUM \<equiv> 31"
abbreviation (input) CLS_DWARF_INVALID_REGISTER_NUM :: nat where "CLS_DWARF_INVALID_REGISTER_NUM \<equiv> 32"

definition FIRCLSDwarfUnwindGetRegisterValue :: "thread_context \<Rightarrow> nat \<Rightarrow> u64" where
  "FIRCLSDwarfUnwindGetRegisterValue r num =
     (if num < 29 then ss_x r ! num
      else if num = CLS_DWARF_ARM64_FP then FIRCLSThreadContextGetFramePointer r
      else if num = CLS_DWARF_ARM64_LR then FIRCLSThreadContextGetLinkRegister r
      else if num = CLS_DWARF_ARM64_SP then FIRCLSThreadContextGetStackPointer r
      else 0)"

text \<open>Storing the return register moves the program counter too.\<close>

definition FIRCLSDwarfUnwindSetRegisterValue :: "thread_context \<Rightarrow> nat \<Rightarrow> u64 \<Rightarrow> bool \<times> thread_context" where
  "FIRCLSDwarfUnwindSetRegisterValue r num value =
     (if num < 29 then (True, r\<lparr>ss_x := (ss_x r)[num := value]\<rparr>)
      else if num = CLS_DWARF_ARM64_FP then (True, FIRCLSThreadContextSetFramePointer r value)
      else if num = CLS_DWARF_ARM64_SP then (True, FIRCLSThreadContextSetStackPointer r value)
      else if num = CLS_DWARF_ARM64_LR
      then (True, FIRCLSThreadContextSetPC (FIRCLSThreadContextSetLinkRegister r value) value)
      else (False, r))"

definition arm64_view :: "nat \<Rightarrow> u64 \<Rightarrow> u64" where
  "arm64_view n v = (if n < 29 then v else CLS_PTRAUTH_STRIP v)"

definition arm64_ok :: "thread_context \<Rightarrow> bool" where
  "arm64_ok r \<longleftrightarrow> length (ss_x r) = 29"

lemmas thread_context_defs = FIRCLSThreadContextGetPC_def FIRCLSThreadContextGetStackPointer_def
  FIRCLSThreadContextGetLinkRegister_def FIRCLSThreadContextGetFramePointer_def
  FIRCLSThreadContextSetPC_def FIRCLSThreadContextSetStackPointer_def
  FIRCLSThreadContextSetLinkRegister_def FIRCLSThreadContextSetFramePointer_def

interpretation arm64: register_file FIRCLSDwarfUnwindGetRegisterValue FIRCLSDwarfUnwindSetRegisterValue
    CLS_DWARF_MAX_REGISTER_NUM arm64_view arm64_ok
proof
  fix r :: thread_context and n k :: nat and v
  assume n: "n \<le> 31"
  then have "n < 29 \<or> n = 29 \<or> n = 30 \<or> n = 31" by arith
  then show "fst (FIRCLSDwarfUnwindSetRegisterValue r n v)"
    by (auto simp: FIRCLSDwarfUnwindSetRegisterValue_def)
  assume ok: "arm64_ok r"
  then show "arm64_ok (snd (FIRCLSDwarfUnwindSetRegisterValue r n v))"
    using n by (simp add: FIRCLSDwarfUnwindSetRegisterValue_def arm64_ok_def thread_context_defs)
  show "FIRCLSDwarfUnwindGetRegisterValue (snd (FIRCLSDwarfUnwindSetRegisterValue r n v)) n = arm64_view n v"
    using \<open>n < 29 \<or> n = 29 \<or> n = 30 \<or> n = 31\<close> ok
    by (auto simp: FIRCLSDwarfUnwindSetRegisterValue_def FIRCLSDwarfUnwindGetRegisterValue_def arm64_view_def
        arm64_ok_def thread_context_defs)
  show "k \<noteq> n \<Longrightarrow> FIRCLSDwarfUnwindGetRegisterValue (snd (FIRCLSDwarfUnwindSetRegisterValue r n v)) k
      = FIRCLSDwarfUnwindGetRegisterValue r k"
    using \<open>n < 29 \<or> n = 29 \<or> n = 30 \<or> n = 31\<close> ok
    by (auto simp: FIRCLSDwarfUnwindSetRegisterValue_def FIRCLSDwarfUnwindGetRegisterValue_def
        arm64_ok_def thread_context_defs)
qed

subsection \<open>x86-64\<close>

record x86_thread_state =
  ss_rax :: u64
  ss_rdx :: u64
  ss_rcx :: u64
  ss_rbx :: u64
  ss_rsi :: u64
  ss_rdi :: u64
  ss_rbp :: u64
  ss_rsp :: u64
  ss_r8 :: u64
  ss_r9 :: u64
  ss_r10 :: u64
  ss_r11 :: u64
  ss_r12 :: u64
  ss_r13 :: u64
  ss_r14 :: u64
  ss_r15 :: u64
  ss_rip :: u64

definition x86_FIRCLSDwarfUnwindGetRegisterValue :: "x86_thread_state \<Rightarrow> nat \<Rightarrow> u64" where
  "x86_FIRCLSDwarfUnwindGetRegisterValue r num =
     (if num = 0 then ss_rax r else
      if num = 1 then ss_rdx r else
      if num = 2 then ss_rcx r else
      if num = 3 then ss_rbx r else
      if num = 4 then ss_rsi r else
      if num = 5 then ss_rdi r else
      if num = 6 then ss_rbp r else
      if num = 7 then ss_rsp r else
      if num = 8 then ss_r8 r else
      if num = 9 then ss_r9 r else
      if num = 10 then ss_r10 r else
      if num = 11 then ss_r11 r else
      if num = 12 then ss_r12 r else
      if num = 13 then ss_r13 r else
      if num = 14 then ss_r14 r else
      if num = 15 then ss_r15 r else
      if num = 16 then ss_rip r else 0)"

definition x86_FIRCLSDwarfUnwindSetRegisterValue :: "x86_thread_state \<Rightarrow> nat \<Rightarrow> u64 \<Rightarrow> bool \<times> x86_thread_state" where
  "x86_FIRCLSDwarfUnwindSetRegisterValue r num value =
     (if num = 0 then (True, r\<lparr>ss_rax := value\<rparr>) else
      if num = 1 then (True, r\<lparr>ss_rdx := value\<rparr>) else
      if num = 2 then (True, r\<lparr>ss_rcx := value\<rparr>) else
      if num = 3 then (True, r\<lparr>ss_rbx := value\<rparr>) else
      if num = 4 then (True, r\<lparr>ss_rsi := value\<rparr>) else
      if num = 5 then (True, r\<lparr>ss_rdi := value\<rparr>) else
      if num = 6 then (True, r\<lparr>ss_rbp := value\<rparr>) else
      if num = 7 then (True, r\<lparr>ss_rsp := value\<rparr>) else
      if num = 8 then (True, r\<lparr>ss_r8 := value\<rparr>) else
      if num = 9 then (True, r\<lparr>ss_r9 := value\<rparr>) else
      if num = 10 then (True, r\<lparr>ss_r10 := value\<rparr>) else
      if num = 11 then (True, r\<lparr>ss_r11 := value\<rparr>) else
      if num = 12 then (True, r\<lparr>ss_r12 := value\<rparr>) else
      if num = 13 then (True, r\<lparr>ss_r13 := value\<rparr>) else
      if num = 14 then (True, r\<lparr>ss_r14 := value\<rparr>) else
      if num = 15 then (True, r\<lparr>ss_r15 := value\<rparr>) else
      if num = 16 then (True, r\<lparr>ss_rip := value\<rparr>) else (False, r))"

lemma below_17: "n \<le> 16 \<longleftrightarrow> n \<in> {0, 1, 2, 3, 4, 5, 6, 7, 8, 9, 10, 11, 12, 13, 14, 15, 16}" for n :: nat
  by (simp, arith)

interpretation x86: register_file x86_FIRCLSDwarfUnwindGetRegisterValue x86_FIRCLSDwarfUnwindSetRegisterValue
    16 "\<lambda>_ v. v" "\<lambda>_. True"
proof
  fix r :: x86_thread_state and n k :: nat and v
  assume "n \<le> 16"
  note n = this [unfolded below_17]
  show "fst (x86_FIRCLSDwarfUnwindSetRegisterValue r n v)"
    using n unfolding x86_FIRCLSDwarfUnwindSetRegisterValue_def by auto
  show "x86_FIRCLSDwarfUnwindGetRegisterValue (snd (x86_FIRCLSDwarfUnwindSetRegisterValue r n v)) n = v"
    using n unfolding x86_FIRCLSDwarfUnwindSetRegisterValue_def x86_FIRCLSDwarfUnwindGetRegisterValue_def by auto
  show "k \<noteq> n \<Longrightarrow> x86_FIRCLSDwarfUnwindGetRegisterValue (snd (x86_FIRCLSDwarfUnwindSetRegisterValue r n v)) k
      = x86_FIRCLSDwarfUnwindGetRegisterValue r k"
    using n unfolding x86_FIRCLSDwarfUnwindSetRegisterValue_def x86_FIRCLSDwarfUnwindGetRegisterValue_def by auto
qed simp

end
