(* ===== verification/Dwarf_Expression.thy ===== *)
theory Dwarf_Expression
  imports Dwarf_Registers
begin

text \<open>
  The stack machine for DWARF expressions (FIRCLSDwarfExpressionMachine.c) and the loop that runs
  an expression (\<open>FIRCLSDwarfEvalulateExpression\<close> of FIRCLSDwarfUnwind.c), on arm64. An operation
  gives the success flag and the new machine; \<open>None\<close> is a fault, as for the parsers.
\<close>

subsection \<open>The stack\<close>

text \<open>\<open>pointer\<close> is the index of the next free entry, \<open>None\<close> for the NULL left by an under- or overflow.\<close>

record dwarf_stack =
  buffer :: "u64 list"
  pointer :: "nat option"

abbreviation (input) CLS_DWARF_EXPRESSION_STACK_SIZE :: nat where "CLS_DWARF_EXPRESSION_STACK_SIZE \<equiv> 100"

definition FIRCLSDwarfExpressionStackInit :: dwarf_stack where
  "FIRCLSDwarfExpressionStackInit = \<lparr>buffer = replicate CLS_DWARF_EXPRESSION_STACK_SIZE 0, pointer = Some 0\<rparr>"

definition FIRCLSDwarfExpressionStackIsValid :: "dwarf_stack \<Rightarrow> bool" where
  "FIRCLSDwarfExpressionStackIsValid s =
     (case pointer s of None \<Rightarrow> False | Some p \<Rightarrow> p \<le> CLS_DWARF_EXPRESSION_STACK_SIZE)"

definition FIRCLSDwarfExpressionStackPush :: "dwarf_stack \<Rightarrow> u64 \<Rightarrow> bool \<times> dwarf_stack" where
  "FIRCLSDwarfExpressionStackPush s value =
     (if \<not> FIRCLSDwarfExpressionStackIsValid s then (False, s)
      else if pointer s = Some CLS_DWARF_EXPRESSION_STACK_SIZE then (False, s\<lparr>pointer := None\<rparr>)
      else let p = the (pointer s) in (True, s\<lparr>buffer := (buffer s)[p := value], pointer := Some (p + 1)\<rparr>))"

definition FIRCLSDwarfExpressionStackPeek :: "dwarf_stack \<Rightarrow> u64 \<times> dwarf_stack" where
  "FIRCLSDwarfExpressionStackPeek s =
     (if \<not> FIRCLSDwarfExpressionStackIsValid s then (0, s)
      else if pointer s = Some 0 then (0, s\<lparr>pointer := None\<rparr>)
      else (buffer s ! (the (pointer s) - 1), s))"

definition FIRCLSDwarfExpressionStackPop :: "dwarf_stack \<Rightarrow> u64 \<times> dwarf_stack" where
  "FIRCLSDwarfExpressionStackPop s =
     (if \<not> FIRCLSDwarfExpressionStackIsValid s then (0, s)
      else if pointer s = Some 0 then (0, s\<lparr>pointer := None\<rparr>)
      else let p = the (pointer s) - 1 in (buffer s ! p, s\<lparr>pointer := Some p\<rparr>))"

subsection \<open>The machine\<close>

record dwarf_machine =
  stack :: dwarf_stack
  dataCursor :: nat
  endAddress :: nat
  registers :: thread_context

definition FIRCLSDwarfExpressionMachineInit :: "nat \<Rightarrow> thread_context \<Rightarrow> u64 \<Rightarrow> (bool \<times> dwarf_machine)" where
  "FIRCLSDwarfExpressionMachineInit cursor regs stackValue =
     (let m = \<lparr>stack = FIRCLSDwarfExpressionStackInit, dataCursor = cursor, endAddress = 0, registers = regs\<rparr> in
      if \<not> FIRCLSIsValidPointer cursor then (False, m)
      else (case FIRCLSDwarfExpressionStackPush (stack m) stackValue of (ok, s) \<Rightarrow> (ok, m\<lparr>stack := s\<rparr>)))"

definition FIRCLSDwarfExpressionMachinePrepareForExecution :: "memory \<Rightarrow> dwarf_machine \<Rightarrow> (bool \<times> dwarf_machine) option" where
  "FIRCLSDwarfExpressionMachinePrepareForExecution mem m =
     do { (expressionLength, c) \<leftarrow> FIRCLSParseULEB128AndAdvance mem (dataCursor m);
          if expressionLength = 0 then Some (False, m\<lparr>dataCursor := c\<rparr>)
          else Some (True, m\<lparr>dataCursor := c, endAddress := c + unat expressionLength\<rparr>) }"

definition FIRCLSDwarfExpressionMachineIsFinished :: "dwarf_machine \<Rightarrow> bool" where
  "FIRCLSDwarfExpressionMachineIsFinished m =
     (if \<not> FIRCLSIsValidPointer (endAddress m) \<or> \<not> FIRCLSIsValidPointer (dataCursor m) then True
      else if \<not> FIRCLSDwarfExpressionStackIsValid (stack m) then True
      else endAddress m \<le> dataCursor m)"

text \<open>The result, or \<open>None\<close> when the function returns false.\<close>

definition FIRCLSDwarfExpressionMachineGetResult :: "dwarf_machine \<Rightarrow> u64 option" where
  "FIRCLSDwarfExpressionMachineGetResult m =
     (if dataCursor m \<noteq> endAddress m then None
      else case FIRCLSDwarfExpressionStackPeek (stack m) of
        (v, s) \<Rightarrow> if FIRCLSDwarfExpressionStackIsValid s then Some v else None)"

definition FIRCLSDwarfExpressionMachineStackPop :: "dwarf_machine \<Rightarrow> u64 \<times> dwarf_machine" where
  "FIRCLSDwarfExpressionMachineStackPop m =
     (case FIRCLSDwarfExpressionStackPop (stack m) of (v, s) \<Rightarrow> (v, m\<lparr>stack := s\<rparr>))"

definition FIRCLSDwarfExpressionMachineStackPush :: "dwarf_machine \<Rightarrow> u64 \<Rightarrow> bool \<times> dwarf_machine" where
  "FIRCLSDwarfExpressionMachineStackPush m v =
     (case FIRCLSDwarfExpressionStackPush (stack m) v of (ok, s) \<Rightarrow> (ok, m\<lparr>stack := s\<rparr>))"

subsection \<open>The operations\<close>

abbreviation (input) DW_OP_deref :: u8 where "DW_OP_deref \<equiv> 0x06"
abbreviation (input) DW_OP_dup :: u8 where "DW_OP_dup \<equiv> 0x12"
abbreviation (input) DW_OP_swap :: u8 where "DW_OP_swap \<equiv> 0x16"
abbreviation (input) DW_OP_and :: u8 where "DW_OP_and \<equiv> 0x1A"
abbreviation (input) DW_OP_plus :: u8 where "DW_OP_plus \<equiv> 0x22"
abbreviation (input) DW_OP_plus_uconst :: u8 where "DW_OP_plus_uconst \<equiv> 0x23"
abbreviation (input) DW_OP_ne :: u8 where "DW_OP_ne \<equiv> 0x2E"
abbreviation (input) DW_OP_lit0 :: u8 where "DW_OP_lit0 \<equiv> 0x30"
abbreviation (input) DW_OP_lit31 :: u8 where "DW_OP_lit31 \<equiv> 0x4F"
abbreviation (input) DW_OP_breg0 :: u8 where "DW_OP_breg0 \<equiv> 0x70"
abbreviation (input) DW_OP_breg31 :: u8 where "DW_OP_breg31 \<equiv> 0x8F"
abbreviation (input) DW_OP_deref_size :: u8 where "DW_OP_deref_size \<equiv> 0x94"

type_synonym operation = "dwarf_machine \<Rightarrow> (bool \<times> dwarf_machine) option"

definition FIRCLSDwarfExpressionMachineExecute_bregN :: "memory \<Rightarrow> u8 \<Rightarrow> operation" where
  "FIRCLSDwarfExpressionMachineExecute_bregN mem opcode m =
     (let regNum = opcode - DW_OP_breg0 in
      if CLS_DWARF_MAX_REGISTER_NUM < unat regNum then Some (False, m)
      else do { (offset, c) \<leftarrow> FIRCLSParseLEB128AndAdvance mem (dataCursor m);
        let value = FIRCLSDwarfUnwindGetRegisterValue (registers m) (unat regNum) + offset;
        Some (FIRCLSDwarfExpressionMachineStackPush (m\<lparr>dataCursor := c\<rparr>) value) })"

definition FIRCLSDwarfExpressionMachineExecute_deref :: "memory \<Rightarrow> operation" where
  "FIRCLSDwarfExpressionMachineExecute_deref mem m =
     (case FIRCLSDwarfExpressionMachineStackPop m of (value, m) \<Rightarrow>
        case FIRCLSReadMemory mem value 8 of
          None \<Rightarrow> Some (False, m)
        | Some bs \<Rightarrow> Some (FIRCLSDwarfExpressionMachineStackPush m (le_word bs)))"

definition FIRCLSDwarfExpressionMachineExecute_plus_uconst :: "memory \<Rightarrow> operation" where
  "FIRCLSDwarfExpressionMachineExecute_plus_uconst mem m =
     (case FIRCLSDwarfExpressionMachineStackPop m of (value, m) \<Rightarrow>
        do { (k, c) \<leftarrow> FIRCLSParseULEB128AndAdvance mem (dataCursor m);
             Some (FIRCLSDwarfExpressionMachineStackPush (m\<lparr>dataCursor := c\<rparr>) (value + k)) })"

definition FIRCLSDwarfExpressionMachineExecute_and :: "operation" where
  "FIRCLSDwarfExpressionMachineExecute_and m =
     (case FIRCLSDwarfExpressionMachineStackPop m of (a, m) \<Rightarrow>
      case FIRCLSDwarfExpressionMachineStackPop m of (b, m) \<Rightarrow>
        Some (FIRCLSDwarfExpressionMachineStackPush m (a AND b)))"

definition FIRCLSDwarfExpressionMachineExecute_plus :: "operation" where
  "FIRCLSDwarfExpressionMachineExecute_plus m =
     (case FIRCLSDwarfExpressionMachineStackPop m of (a, m) \<Rightarrow>
      case FIRCLSDwarfExpressionMachineStackPop m of (b, m) \<Rightarrow>
        Some (FIRCLSDwarfExpressionMachineStackPush m (a + b)))"

definition FIRCLSDwarfExpressionMachineExecute_dup :: "operation" where
  "FIRCLSDwarfExpressionMachineExecute_dup m =
     (case FIRCLSDwarfExpressionStackPeek (stack m) of (value, s) \<Rightarrow>
        Some (FIRCLSDwarfExpressionMachineStackPush (m\<lparr>stack := s\<rparr>) value))"

definition FIRCLSDwarfExpressionMachineExecute_swap :: "operation" where
  "FIRCLSDwarfExpressionMachineExecute_swap m =
     (case FIRCLSDwarfExpressionMachineStackPop m of (valueA, m) \<Rightarrow>
      case FIRCLSDwarfExpressionMachineStackPop m of (valueB, m) \<Rightarrow>
      case FIRCLSDwarfExpressionMachineStackPush m valueA of (ok, m) \<Rightarrow>
        if \<not> ok then Some (False, m) else Some (FIRCLSDwarfExpressionMachineStackPush m valueB))"

text \<open>The read of \<open>DW_OP_deref_size\<close> is direct: the address is not checked.\<close>

definition deref_size_value :: "memory \<Rightarrow> u8 \<Rightarrow> nat \<Rightarrow> u64 option option" where
  "deref_size_value mem readSize address =
     (if readSize = 1 then do { (v, _) \<leftarrow> FIRCLSParseUint8AndAdvance mem address; Some (Some (ucast v)) }
      else if readSize = 2 then do { (v, _) \<leftarrow> FIRCLSParseUint16AndAdvance mem address; Some (Some (ucast v)) }
      else if readSize = 4 then do { (v, _) \<leftarrow> FIRCLSParseUint32AndAdvance mem address; Some (Some (ucast v)) }
      else if readSize = 8 then do { (v, _) \<leftarrow> FIRCLSParseUint64AndAdvance mem address; Some (Some v) }
      else Some None)"

definition FIRCLSDwarfExpressionMachineExecute_deref_size :: "memory \<Rightarrow> operation" where
  "FIRCLSDwarfExpressionMachineExecute_deref_size mem m =
     (case FIRCLSDwarfExpressionMachineStackPop m of (address, m) \<Rightarrow>
        do { (readSize, c) \<leftarrow> FIRCLSParseUint8AndAdvance mem (dataCursor m);
             r \<leftarrow> deref_size_value mem readSize (unat address);
             let m = m\<lparr>dataCursor := c\<rparr>;
             case r of None \<Rightarrow> Some (False, m)
             | Some value \<Rightarrow> Some (FIRCLSDwarfExpressionMachineStackPush m value) })"

definition FIRCLSDwarfExpressionMachineExecute_ne :: "operation" where
  "FIRCLSDwarfExpressionMachineExecute_ne m =
     (case FIRCLSDwarfExpressionMachineStackPop m of (a, m) \<Rightarrow>
      case FIRCLSDwarfExpressionMachineStackPop m of (b, m) \<Rightarrow>
        Some (FIRCLSDwarfExpressionMachineStackPush m (if a \<noteq> b then 1 else 0)))"

definition FIRCLSDwarfExpressionMachineExecute_litN :: "u8 \<Rightarrow> operation" where
  "FIRCLSDwarfExpressionMachineExecute_litN opcode m =
     Some (FIRCLSDwarfExpressionMachineStackPush m (ucast (opcode - DW_OP_lit0)))"

definition FIRCLSDwarfExpressionMachineExecuteNextOpcode :: "memory \<Rightarrow> operation" where
  "FIRCLSDwarfExpressionMachineExecuteNextOpcode mem m =
     do { (opcode, c) \<leftarrow> FIRCLSParseUint8AndAdvance mem (dataCursor m);
          let m = m\<lparr>dataCursor := c\<rparr>;
          if opcode = DW_OP_deref then FIRCLSDwarfExpressionMachineExecute_deref mem m
          else if opcode = DW_OP_dup then FIRCLSDwarfExpressionMachineExecute_dup m
          else if opcode = DW_OP_and then FIRCLSDwarfExpressionMachineExecute_and m
          else if opcode = DW_OP_plus then FIRCLSDwarfExpressionMachineExecute_plus m
          else if opcode = DW_OP_swap then FIRCLSDwarfExpressionMachineExecute_swap m
          else if opcode = DW_OP_plus_uconst then FIRCLSDwarfExpressionMachineExecute_plus_uconst mem m
          else if opcode = DW_OP_ne then FIRCLSDwarfExpressionMachineExecute_ne m
          else if DW_OP_lit0 \<le> opcode \<and> opcode \<le> DW_OP_lit31
          then FIRCLSDwarfExpressionMachineExecute_litN opcode m
          else if DW_OP_breg0 \<le> opcode \<and> opcode \<le> DW_OP_breg31
          then FIRCLSDwarfExpressionMachineExecute_bregN mem opcode m
          else if opcode = DW_OP_deref_size then FIRCLSDwarfExpressionMachineExecute_deref_size mem m
          else Some (False, m) }"

subsection \<open>What an operation keeps\<close>

text \<open>The stack has its hundred entries and a pointer into them, or no pointer.\<close>

definition stack_ok :: "dwarf_stack \<Rightarrow> bool" where
  "stack_ok s \<longleftrightarrow> length (buffer s) = CLS_DWARF_EXPRESSION_STACK_SIZE \<and>
     (\<forall>p. pointer s = Some p \<longrightarrow> p \<le> CLS_DWARF_EXPRESSION_STACK_SIZE)"

definition keeps :: "dwarf_machine \<Rightarrow> dwarf_machine \<Rightarrow> bool" where
  "keeps m m2 \<longleftrightarrow> dataCursor m \<le> dataCursor m2 \<and> endAddress m2 = endAddress m \<and> registers m2 = registers m \<and>
     (stack_ok (stack m) \<longrightarrow> stack_ok (stack m2))"

lemma keeps_refl [simp]: "keeps m m"
  by (simp add: keeps_def)

lemma keeps_trans: "keeps m m2 \<Longrightarrow> keeps m2 m3 \<Longrightarrow> keeps m m3"
  by (auto simp: keeps_def)

lemma keeps_cursor: "dataCursor m \<le> c \<Longrightarrow> keeps m (m\<lparr>dataCursor := c\<rparr>)"
  by (simp add: keeps_def)

lemma keeps_pop: "FIRCLSDwarfExpressionMachineStackPop m = (v, m2) \<Longrightarrow> keeps m m2 \<and> dataCursor m2 = dataCursor m"
  by (auto simp: FIRCLSDwarfExpressionMachineStackPop_def FIRCLSDwarfExpressionStackPop_def keeps_def stack_ok_def Let_def
      FIRCLSDwarfExpressionStackIsValid_def split: prod.splits option.splits if_splits)

lemma keeps_push: "FIRCLSDwarfExpressionMachineStackPush m v = (ok, m2) \<Longrightarrow> keeps m m2"
  by (auto simp: FIRCLSDwarfExpressionMachineStackPush_def FIRCLSDwarfExpressionStackPush_def keeps_def stack_ok_def Let_def
      FIRCLSDwarfExpressionStackIsValid_def split: prod.splits option.splits if_splits)

lemma keeps_peek: "FIRCLSDwarfExpressionStackPeek (stack m) = (v, s) \<Longrightarrow> keeps m (m\<lparr>stack := s\<rparr>)"
  by (auto simp: FIRCLSDwarfExpressionStackPeek_def keeps_def stack_ok_def Let_def
      split: prod.splits option.splits if_splits)

lemma uleb_advances: "uleb_loop mem i r s c = Some (v, c2) \<Longrightarrow> c \<le> c2"
  by (induction i arbitrary: r s c) (fastforce split: Option.bind_splits if_splits)+

lemma sleb_advances: "sleb_loop mem i r s b c = Some (v, c2) \<Longrightarrow> c \<le> c2"
  by (induction i arbitrary: r s b c) (fastforce split: Option.bind_splits if_splits)+

lemma leb_advances:
  "FIRCLSParseULEB128AndAdvance mem c = Some (v, c2) \<Longrightarrow> c \<le> c2"
  "FIRCLSParseLEB128AndAdvance mem c = Some (v, c2) \<Longrightarrow> c \<le> c2"
  by (auto simp: FIRCLSParseULEB128AndAdvance_def FIRCLSParseLEB128AndAdvance_def
      dest!: uleb_advances sleb_advances split: Option.bind_splits if_splits)

lemma uint8_advances: "FIRCLSParseUint8AndAdvance mem c = Some (v, c2) \<longleftrightarrow> mem c = Some v \<and> c2 = c + 1"
  by (auto simp: FIRCLSParseUint8AndAdvance_def split: Option.bind_splits)

lemma operation_keeps:
  "FIRCLSDwarfExpressionMachineExecute_bregN mem opcode m = Some (ok, m2) \<Longrightarrow> keeps m m2"
  "FIRCLSDwarfExpressionMachineExecute_deref mem m = Some (ok, m2) \<Longrightarrow> keeps m m2"
  "FIRCLSDwarfExpressionMachineExecute_plus_uconst mem m = Some (ok, m2) \<Longrightarrow> keeps m m2"
  "FIRCLSDwarfExpressionMachineExecute_and m = Some (ok, m2) \<Longrightarrow> keeps m m2"
  "FIRCLSDwarfExpressionMachineExecute_plus m = Some (ok, m2) \<Longrightarrow> keeps m m2"
  "FIRCLSDwarfExpressionMachineExecute_dup m = Some (ok, m2) \<Longrightarrow> keeps m m2"
  "FIRCLSDwarfExpressionMachineExecute_swap m = Some (ok, m2) \<Longrightarrow> keeps m m2"
  "FIRCLSDwarfExpressionMachineExecute_deref_size mem m = Some (ok, m2) \<Longrightarrow> keeps m m2"
  "FIRCLSDwarfExpressionMachineExecute_ne m = Some (ok, m2) \<Longrightarrow> keeps m m2"
  "FIRCLSDwarfExpressionMachineExecute_litN opcode m = Some (ok, m2) \<Longrightarrow> keeps m m2"
  unfolding FIRCLSDwarfExpressionMachineExecute_bregN_def FIRCLSDwarfExpressionMachineExecute_deref_def
    FIRCLSDwarfExpressionMachineExecute_plus_uconst_def FIRCLSDwarfExpressionMachineExecute_and_def
    FIRCLSDwarfExpressionMachineExecute_plus_def FIRCLSDwarfExpressionMachineExecute_dup_def
    FIRCLSDwarfExpressionMachineExecute_swap_def FIRCLSDwarfExpressionMachineExecute_deref_size_def
    FIRCLSDwarfExpressionMachineExecute_ne_def FIRCLSDwarfExpressionMachineExecute_litN_def
  by (auto simp: Let_def uint8_advances
      dest!: keeps_pop keeps_push keeps_peek leb_advances keeps_cursor
      split: prod.splits option.splits if_splits Option.bind_splits
      intro: keeps_trans)
    (auto simp: keeps_def)

lemma opcode_keeps:
  assumes "FIRCLSDwarfExpressionMachineExecuteNextOpcode mem m = Some (ok, m2)"
  shows "keeps (m\<lparr>dataCursor := dataCursor m + 1\<rparr>) m2"
  using assms unfolding FIRCLSDwarfExpressionMachineExecuteNextOpcode_def
  by (auto simp: Let_def uint8_advances dest!: operation_keeps split: if_splits Option.bind_splits)

subsection \<open>The loop\<close>

text \<open>Every opcode moves the cursor, the end stays: the loop ends.\<close>

function expression_loop :: "memory \<Rightarrow> operation" where
  "expression_loop mem m =
     (if FIRCLSDwarfExpressionMachineIsFinished m then Some (True, m)
      else case FIRCLSDwarfExpressionMachineExecuteNextOpcode mem m of
        None \<Rightarrow> None
      | Some (False, m) \<Rightarrow> Some (False, m)
      | Some (True, m) \<Rightarrow> expression_loop mem m)"
  by pat_completeness auto
termination
proof (relation "measure (\<lambda>(_, m). endAddress m - dataCursor m)", goal_cases)
  case (2 mem m r ok m2)
  then show ?case
    using opcode_keeps[of mem m ok m2]
    by (auto simp: FIRCLSDwarfExpressionMachineIsFinished_def keeps_def split: if_splits)
qed simp

declare expression_loop.simps [simp del]

text \<open>\<open>Some None\<close> when the function returns false, otherwise the value left in \<open>*result\<close>.\<close>

definition FIRCLSDwarfEvalulateExpression :: "memory \<Rightarrow> nat \<Rightarrow> thread_context \<Rightarrow> u64 \<Rightarrow> u64 option option" where
  "FIRCLSDwarfEvalulateExpression mem cursor regs stackValue =
     (if \<not> FIRCLSIsValidPointer cursor then Some None
      else case FIRCLSDwarfExpressionMachineInit cursor regs stackValue of
        (False, _) \<Rightarrow> Some None
      | (True, m) \<Rightarrow>
          do { (ok, m) \<leftarrow> FIRCLSDwarfExpressionMachinePrepareForExecution mem m;
               if \<not> ok then Some None
               else do { (ok, m) \<leftarrow> expression_loop mem m;
                 if \<not> ok then Some None else Some (FIRCLSDwarfExpressionMachineGetResult m) } })"

lemma loop_keeps: "expression_loop mem m = Some (ok, m2) \<Longrightarrow> keeps m m2"
proof (induction mem m rule: expression_loop.induct)
  case (1 mem m)
  show ?case
  proof (cases "FIRCLSDwarfExpressionMachineIsFinished m")
    case True
    with 1(2) show ?thesis by (simp add: expression_loop.simps[of mem m])
  next
    case False
    with 1(2) obtain ok1 m1 where x: "FIRCLSDwarfExpressionMachineExecuteNextOpcode mem m = Some (ok1, m1)"
      by (cases "FIRCLSDwarfExpressionMachineExecuteNextOpcode mem m") (auto simp: expression_loop.simps[of mem m])
    have m1: "keeps m m1"
      by (rule keeps_trans[OF keeps_cursor[of m "dataCursor m + 1"] opcode_keeps[OF x]]) simp
    show ?thesis
    proof (cases ok1)
      case True
      with 1(2) x False have "expression_loop mem m1 = Some (ok, m2)" by (simp add: expression_loop.simps[of mem m])
      with 1(1)[OF False x] True show ?thesis by (auto intro: keeps_trans[OF m1])
    next
      case False
      with 1(2) x m1 \<open>\<not> FIRCLSDwarfExpressionMachineIsFinished m\<close> show ?thesis
        by (simp add: expression_loop.simps[of mem m])
    qed
  qed
qed

text \<open>
  The expression stack: from a machine whose stack pointer is NULL or inside its hundred entries,
  running any bytes as an expression (the loop always ends) leaves such a machine: no entry
  outside the buffer is written, the cursor does not move back, the registers are unchanged.
\<close>

theorem expression_stack_bounded:
  assumes "stack_ok (stack m)" "expression_loop mem m = Some (ok, m2)"
  shows "stack_ok (stack m2) \<and> dataCursor m \<le> dataCursor m2 \<and> registers m2 = registers m"
  using loop_keeps[OF assms(2)] assms(1) by (simp add: keeps_def)

end
