(* ===== verification/Dwarf_Cfi.thy ===== *)
theory Dwarf_Cfi
  imports Dwarf_Records Dwarf_Expression
begin

text \<open>
  The call frame instructions (FIRCLSDwarfUnwind.c): each instruction updates the rules of the
  state or the code offset; \<open>FIRCLSDwarfInstructionsEnumerate\<close> runs a sequence up to a pc offset.
\<close>

subsection \<open>The state\<close>

datatype register_location =
  FIRCLSDwarfRegisterUnused | FIRCLSDwarfRegisterInCFA | FIRCLSDwarfRegisterOffsetFromCFA |
  FIRCLSDwarfRegisterInRegister | FIRCLSDwarfRegisterAtExpression | FIRCLSDwarfRegisterIsExpression

record dwarf_register =
  location :: register_location
  reg_value :: u64

text \<open>\<open>cfaExpression\<close> is an address, 0 for NULL; \<open>cfaRegisterOffset\<close> is signed.\<close>

record dwarf_state =
  cfaRegister :: u64
  cfaRegisterOffset :: u64
  cfaExpression :: nat
  spArgSize :: u32
  rules :: "dwarf_register list"

definition zero_state :: dwarf_state where
  "zero_state = \<lparr>cfaRegister = 0, cfaRegisterOffset = 0, cfaExpression = 0, spArgSize = 0,
     rules = replicate (CLS_DWARF_MAX_REGISTER_NUM + 1) \<lparr>location = FIRCLSDwarfRegisterUnused, reg_value = 0\<rparr>\<rparr>"

definition set_location :: "nat \<Rightarrow> register_location \<Rightarrow> dwarf_state \<Rightarrow> dwarf_state" where
  "set_location n l s = s\<lparr>rules := (rules s)[n := (rules s ! n)\<lparr>location := l\<rparr>]\<rparr>"

definition set_rule :: "nat \<Rightarrow> register_location \<Rightarrow> u64 \<Rightarrow> dwarf_state \<Rightarrow> dwarf_state" where
  "set_rule n l v s = s\<lparr>rules := (rules s)[n := \<lparr>location = l, reg_value = v\<rparr>]\<rparr>"

subsection \<open>Instructions that move the code offset\<close>

definition FIRCLSDwarfParseAndExecute_set_loc :: "memory \<Rightarrow> DWARFCIERecord \<Rightarrow> u64 \<Rightarrow> u64 parser" where
  "FIRCLSDwarfParseAndExecute_set_loc m cie codeOffset c =
     FIRCLSParseAddressWithEncodingAndAdvance m (pointerEncoding cie) c"

definition FIRCLSDwarfParseAndExecute_advance_loc1 :: "memory \<Rightarrow> DWARFCIERecord \<Rightarrow> u64 \<Rightarrow> u64 parser" where
  "FIRCLSDwarfParseAndExecute_advance_loc1 m cie codeOffset c =
     do { (d, c) \<leftarrow> FIRCLSParseUint8AndAdvance m c; Some (codeOffset + ucast d * codeAlignFactor cie, c) }"

definition FIRCLSDwarfParseAndExecute_advance_loc2 :: "memory \<Rightarrow> DWARFCIERecord \<Rightarrow> u64 \<Rightarrow> u64 parser" where
  "FIRCLSDwarfParseAndExecute_advance_loc2 m cie codeOffset c =
     do { (d, c) \<leftarrow> FIRCLSParseUint16AndAdvance m c; Some (codeOffset + ucast d * codeAlignFactor cie, c) }"

definition FIRCLSDwarfParseAndExecute_advance_loc4 :: "memory \<Rightarrow> DWARFCIERecord \<Rightarrow> u64 \<Rightarrow> u64 parser" where
  "FIRCLSDwarfParseAndExecute_advance_loc4 m cie codeOffset c =
     do { (d, c) \<leftarrow> FIRCLSParseUint32AndAdvance m c; Some (codeOffset + ucast d * codeAlignFactor cie, c) }"

text \<open>\<open>advance_loc\<close> sets the code offset, it does not add to it.\<close>

definition FIRCLSDwarfParseAndExecute_advance_loc :: "DWARFCIERecord \<Rightarrow> u8 \<Rightarrow> u64 \<Rightarrow> u64" where
  "FIRCLSDwarfParseAndExecute_advance_loc cie delta codeOffset = ucast delta * codeAlignFactor cie"

subsection \<open>Instructions that change the rules\<close>

type_synonym rule_instruction = "dwarf_state \<Rightarrow> (bool \<times> dwarf_state) parser"

definition known_register :: "u64 \<Rightarrow> bool" where
  "known_register n \<longleftrightarrow> unat n \<le> CLS_DWARF_MAX_REGISTER_NUM"

definition FIRCLSDwarfParseAndExecute_def_cfa :: "memory \<Rightarrow> rule_instruction" where
  "FIRCLSDwarfParseAndExecute_def_cfa m s c =
     do { (regNum, c) \<leftarrow> FIRCLSParseULEB128AndAdvance m c;
          if \<not> known_register regNum then Some ((False, s), c)
          else do { (offset, c) \<leftarrow> FIRCLSParseULEB128AndAdvance m c;
                    Some ((True, s\<lparr>cfaRegister := regNum, cfaRegisterOffset := offset\<rparr>), c) } }"

definition FIRCLSDwarfParseAndExecute_def_cfa_register :: "memory \<Rightarrow> rule_instruction" where
  "FIRCLSDwarfParseAndExecute_def_cfa_register m s c =
     do { (regNum, c) \<leftarrow> FIRCLSParseULEB128AndAdvance m c;
          if \<not> known_register regNum then Some ((False, s), c) else Some ((True, s\<lparr>cfaRegister := regNum\<rparr>), c) }"

definition FIRCLSDwarfParseAndExecute_def_cfa_offset :: "memory \<Rightarrow> rule_instruction" where
  "FIRCLSDwarfParseAndExecute_def_cfa_offset m s c =
     do { (offset, c) \<leftarrow> FIRCLSParseULEB128AndAdvance m c; Some ((True, s\<lparr>cfaRegisterOffset := offset\<rparr>), c) }"

definition FIRCLSDwarfParseAndExecute_same_value :: "memory \<Rightarrow> rule_instruction" where
  "FIRCLSDwarfParseAndExecute_same_value m s c =
     do { (regNum, c) \<leftarrow> FIRCLSParseULEB128AndAdvance m c;
          if \<not> known_register regNum then Some ((False, s), c)
          else Some ((True, set_location (unat regNum) FIRCLSDwarfRegisterUnused s), c) }"

definition FIRCLSDwarfParseAndExecute_register :: "memory \<Rightarrow> rule_instruction" where
  "FIRCLSDwarfParseAndExecute_register m s c =
     do { (regNum, c) \<leftarrow> FIRCLSParseULEB128AndAdvance m c;
          if \<not> known_register regNum then Some ((False, s), c)
          else do { (regValue, c) \<leftarrow> FIRCLSParseULEB128AndAdvance m c;
            if \<not> known_register regValue then Some ((False, s), c)
            else Some ((True, set_rule (unat regNum) FIRCLSDwarfRegisterInRegister regValue s), c) } }"

text \<open>An expression is skipped; the rule keeps the address of its length.\<close>

definition skip_expression :: "memory \<Rightarrow> nat \<Rightarrow> nat option" where
  "skip_expression m c = do { (len, c) \<leftarrow> FIRCLSParseULEB128AndAdvance m c; Some (c + unat len) }"

definition FIRCLSDwarfParseAndExecute_expression :: "memory \<Rightarrow> rule_instruction" where
  "FIRCLSDwarfParseAndExecute_expression m s c =
     do { (regNum, c) \<leftarrow> FIRCLSParseULEB128AndAdvance m c;
          if \<not> known_register regNum then Some ((False, s), c)
          else do { c2 \<leftarrow> skip_expression m c;
            Some ((True, set_rule (unat regNum) FIRCLSDwarfRegisterAtExpression (of_nat c) s), c2) } }"

definition FIRCLSDwarfParseAndExecute_val_expression :: "memory \<Rightarrow> rule_instruction" where
  "FIRCLSDwarfParseAndExecute_val_expression m s c =
     do { (regNum, c) \<leftarrow> FIRCLSParseULEB128AndAdvance m c;
          if \<not> known_register regNum then Some ((False, s), c)
          else do { c2 \<leftarrow> skip_expression m c;
            Some ((True, set_rule (unat regNum) FIRCLSDwarfRegisterIsExpression (of_nat c) s), c2) } }"

definition FIRCLSDwarfParseAndExecute_def_cfa_expression :: "memory \<Rightarrow> rule_instruction" where
  "FIRCLSDwarfParseAndExecute_def_cfa_expression m s c =
     do { c2 \<leftarrow> skip_expression m c;
          Some ((True, s\<lparr>cfaRegister := of_nat CLS_DWARF_INVALID_REGISTER_NUM, cfaExpression := c\<rparr>), c2) }"

definition FIRCLSDwarfParseAndExecute_offset :: "memory \<Rightarrow> DWARFCIERecord \<Rightarrow> u8 \<Rightarrow> rule_instruction" where
  "FIRCLSDwarfParseAndExecute_offset m cie regNum s c =
     (if CLS_DWARF_MAX_REGISTER_NUM < unat regNum then Some ((False, s), c)
      else do { (n, c) \<leftarrow> FIRCLSParseULEB128AndAdvance m c;
        Some ((True, set_rule (unat regNum) FIRCLSDwarfRegisterInCFA (n * dataAlignFactor cie) s), c) })"

subsection \<open>One instruction\<close>

abbreviation (input) DW_CFA_nop :: u8 where "DW_CFA_nop \<equiv> 0x00"
abbreviation (input) DW_CFA_set_loc :: u8 where "DW_CFA_set_loc \<equiv> 0x01"
abbreviation (input) DW_CFA_advance_loc1 :: u8 where "DW_CFA_advance_loc1 \<equiv> 0x02"
abbreviation (input) DW_CFA_advance_loc2 :: u8 where "DW_CFA_advance_loc2 \<equiv> 0x03"
abbreviation (input) DW_CFA_advance_loc4 :: u8 where "DW_CFA_advance_loc4 \<equiv> 0x04"
abbreviation (input) DW_CFA_same_value :: u8 where "DW_CFA_same_value \<equiv> 0x08"
abbreviation (input) DW_CFA_register :: u8 where "DW_CFA_register \<equiv> 0x09"
abbreviation (input) DW_CFA_def_cfa :: u8 where "DW_CFA_def_cfa \<equiv> 0x0C"
abbreviation (input) DW_CFA_def_cfa_register :: u8 where "DW_CFA_def_cfa_register \<equiv> 0x0D"
abbreviation (input) DW_CFA_def_cfa_offset :: u8 where "DW_CFA_def_cfa_offset \<equiv> 0x0E"
abbreviation (input) DW_CFA_def_cfa_expression :: u8 where "DW_CFA_def_cfa_expression \<equiv> 0x0F"
abbreviation (input) DW_CFA_expression :: u8 where "DW_CFA_expression \<equiv> 0x10"
abbreviation (input) DW_CFA_val_expression :: u8 where "DW_CFA_val_expression \<equiv> 0x16"
abbreviation (input) DW_CFA_advance_loc :: u8 where "DW_CFA_advance_loc \<equiv> 0x40"
abbreviation (input) DW_CFA_offset :: u8 where "DW_CFA_offset \<equiv> 0x80"
abbreviation (input) DW_CFA_OPCODE_MASK :: u8 where "DW_CFA_OPCODE_MASK \<equiv> 0xC0"
abbreviation (input) DW_CFA_OPERAND_MASK :: u8 where "DW_CFA_OPERAND_MASK \<equiv> 0x3F"

text \<open>
  The instructions the unwinder knows and refuses: \<open>offset_extended\<close>, \<open>restore_extended\<close>,
  \<open>undefined\<close>, \<open>remember_state\<close>, \<open>restore_state\<close>, the signed and value forms and the GNU ones.
\<close>

definition unimplemented :: "u8 list" where
  "unimplemented = [0x05, 0x06, 0x07, 0x0A, 0x0B, 0x11, 0x12, 0x13, 0x14, 0x15, 0x2D, 0x2E, 0x2F]"

text \<open>The state of the loop: cursor, rules and code offset.\<close>

record cfi_machine =
  cursor :: nat
  cfi_state :: dwarf_state
  codeOffset :: u64

definition location_step :: "(u64 \<Rightarrow> u64 parser) \<Rightarrow> cfi_machine \<Rightarrow> (bool \<times> cfi_machine) option" where
  "location_step f x = do { (off, c) \<leftarrow> f (codeOffset x) (cursor x); Some (True, x\<lparr>codeOffset := off, cursor := c\<rparr>) }"

definition rule_step :: "rule_instruction \<Rightarrow> cfi_machine \<Rightarrow> (bool \<times> cfi_machine) option" where
  "rule_step f x = do { ((ok, s), c) \<leftarrow> f (cfi_state x) (cursor x); Some (ok, x\<lparr>cfi_state := s, cursor := c\<rparr>) }"

definition FIRCLSDwarfParseAndExecuteInstructionWithOperand ::
    "memory \<Rightarrow> u8 \<Rightarrow> DWARFCIERecord \<Rightarrow> cfi_machine \<Rightarrow> (bool \<times> cfi_machine) option" where
  "FIRCLSDwarfParseAndExecuteInstructionWithOperand m instr cie x =
     (let operand = instr AND DW_CFA_OPERAND_MASK; opcode = instr AND DW_CFA_OPCODE_MASK in
      if opcode = DW_CFA_offset then rule_step (FIRCLSDwarfParseAndExecute_offset m cie operand) x
      else if opcode = DW_CFA_advance_loc
      then Some (True, x\<lparr>codeOffset := FIRCLSDwarfParseAndExecute_advance_loc cie operand (codeOffset x)\<rparr>)
      else Some (False, x))"

definition execute_instruction :: "memory \<Rightarrow> DWARFCIERecord \<Rightarrow> cfi_machine \<Rightarrow> (bool \<times> cfi_machine) option" where
  "execute_instruction m cie x =
     do { (instr, c) \<leftarrow> FIRCLSParseUint8AndAdvance m (cursor x);
          let x = x\<lparr>cursor := c\<rparr>;
          if instr = DW_CFA_nop then Some (True, x)
          else if instr = DW_CFA_set_loc then location_step (FIRCLSDwarfParseAndExecute_set_loc m cie) x
          else if instr = DW_CFA_advance_loc1 then location_step (FIRCLSDwarfParseAndExecute_advance_loc1 m cie) x
          else if instr = DW_CFA_advance_loc2 then location_step (FIRCLSDwarfParseAndExecute_advance_loc2 m cie) x
          else if instr = DW_CFA_advance_loc4 then location_step (FIRCLSDwarfParseAndExecute_advance_loc4 m cie) x
          else if instr = DW_CFA_def_cfa then rule_step (FIRCLSDwarfParseAndExecute_def_cfa m) x
          else if instr = DW_CFA_def_cfa_register then rule_step (FIRCLSDwarfParseAndExecute_def_cfa_register m) x
          else if instr = DW_CFA_def_cfa_offset then rule_step (FIRCLSDwarfParseAndExecute_def_cfa_offset m) x
          else if instr = DW_CFA_same_value then rule_step (FIRCLSDwarfParseAndExecute_same_value m) x
          else if instr = DW_CFA_register then rule_step (FIRCLSDwarfParseAndExecute_register m) x
          else if instr = DW_CFA_def_cfa_expression then rule_step (FIRCLSDwarfParseAndExecute_def_cfa_expression m) x
          else if instr = DW_CFA_expression then rule_step (FIRCLSDwarfParseAndExecute_expression m) x
          else if instr = DW_CFA_val_expression then rule_step (FIRCLSDwarfParseAndExecute_val_expression m) x
          else if instr \<in> set unimplemented then Some (False, x)
          else FIRCLSDwarfParseAndExecuteInstructionWithOperand m instr cie x }"

subsection \<open>What an instruction keeps\<close>

text \<open>
  The rules of a state: 32 of them, which name registers the machine has; the CFA register is one
  too, or the invalid number that marks an expression.
\<close>

definition rule_ok :: "dwarf_register \<Rightarrow> bool" where
  "rule_ok r \<longleftrightarrow> location r \<noteq> FIRCLSDwarfRegisterOffsetFromCFA \<and>
     (location r = FIRCLSDwarfRegisterInRegister \<longrightarrow> known_register (reg_value r))"

definition state_ok :: "dwarf_state \<Rightarrow> bool" where
  "state_ok s \<longleftrightarrow> length (rules s) = CLS_DWARF_MAX_REGISTER_NUM + 1 \<and> list_all rule_ok (rules s) \<and>
     (known_register (cfaRegister s) \<or> unat (cfaRegister s) = CLS_DWARF_INVALID_REGISTER_NUM)"

lemma state_ok_set_rule:
  "state_ok s \<Longrightarrow> l \<noteq> FIRCLSDwarfRegisterOffsetFromCFA \<Longrightarrow> (l = FIRCLSDwarfRegisterInRegister \<longrightarrow> known_register v) \<Longrightarrow>
     state_ok (set_rule n l v s)"
  by (auto simp: state_ok_def set_rule_def rule_ok_def list_all_iff dest: set_update_subset_insert [THEN subsetD])

lemma state_ok_same_value: "state_ok s \<Longrightarrow> state_ok (set_location n FIRCLSDwarfRegisterUnused s)"
  by (auto simp: state_ok_def set_location_def rule_ok_def list_all_iff dest: set_update_subset_insert [THEN subsetD])

lemma zero_state_ok: "state_ok zero_state"
  by (simp add: state_ok_def zero_state_def rule_ok_def known_register_def list_all_iff)

definition rule_advances :: "rule_instruction \<Rightarrow> bool" where
  "rule_advances f \<longleftrightarrow> (\<forall>s c ok s2 c2. f s c = Some ((ok, s2), c2) \<longrightarrow> c \<le> c2 \<and> (state_ok s \<longrightarrow> state_ok s2))"

lemma skip_advances: "skip_expression m c = Some c2 \<Longrightarrow> c \<le> c2"
  by (auto simp: skip_expression_def dest!: leb_advances split: Option.bind_splits)

lemma rules_advance:
  "rule_advances (FIRCLSDwarfParseAndExecute_def_cfa m)" "rule_advances (FIRCLSDwarfParseAndExecute_def_cfa_register m)"
  "rule_advances (FIRCLSDwarfParseAndExecute_def_cfa_offset m)" "rule_advances (FIRCLSDwarfParseAndExecute_same_value m)"
  "rule_advances (FIRCLSDwarfParseAndExecute_register m)" "rule_advances (FIRCLSDwarfParseAndExecute_expression m)"
  "rule_advances (FIRCLSDwarfParseAndExecute_val_expression m)" "rule_advances (FIRCLSDwarfParseAndExecute_def_cfa_expression m)"
  "rule_advances (FIRCLSDwarfParseAndExecute_offset m cie n)"
proof -
  have cfa: "state_ok (s\<lparr>cfaRegister := n, cfaRegisterOffset := v\<rparr>)" "state_ok (s\<lparr>cfaRegister := n\<rparr>)"
    if "state_ok s" "known_register n" for s n v
    using that by (simp_all add: state_ok_def)
  have off: "state_ok (s\<lparr>cfaRegisterOffset := v\<rparr>)" "state_ok (s\<lparr>cfaRegister := 32, cfaExpression := e\<rparr>)" if "state_ok s" for s v e
    using that by (simp_all add: state_ok_def)
  show "rule_advances (FIRCLSDwarfParseAndExecute_def_cfa m)"
    by (auto simp: rule_advances_def FIRCLSDwarfParseAndExecute_def_cfa_def cfa dest!: leb_advances split: Option.bind_splits if_splits)
  show "rule_advances (FIRCLSDwarfParseAndExecute_def_cfa_register m)"
    by (auto simp: rule_advances_def FIRCLSDwarfParseAndExecute_def_cfa_register_def cfa dest!: leb_advances split: Option.bind_splits if_splits)
  show "rule_advances (FIRCLSDwarfParseAndExecute_def_cfa_offset m)"
    by (auto simp: rule_advances_def FIRCLSDwarfParseAndExecute_def_cfa_offset_def off dest!: leb_advances split: Option.bind_splits if_splits)
  show "rule_advances (FIRCLSDwarfParseAndExecute_def_cfa_expression m)"
    by (auto simp: rule_advances_def FIRCLSDwarfParseAndExecute_def_cfa_expression_def off dest!: skip_advances split: Option.bind_splits if_splits)
  show "rule_advances (FIRCLSDwarfParseAndExecute_same_value m)"
    by (auto simp: rule_advances_def FIRCLSDwarfParseAndExecute_same_value_def state_ok_same_value dest!: leb_advances split: Option.bind_splits if_splits)
  show "rule_advances (FIRCLSDwarfParseAndExecute_register m)"
    by (auto simp: rule_advances_def FIRCLSDwarfParseAndExecute_register_def state_ok_set_rule dest!: leb_advances split: Option.bind_splits if_splits)
  show "rule_advances (FIRCLSDwarfParseAndExecute_expression m)"
    by (auto simp: rule_advances_def FIRCLSDwarfParseAndExecute_expression_def state_ok_set_rule dest!: leb_advances skip_advances split: Option.bind_splits if_splits)
  show "rule_advances (FIRCLSDwarfParseAndExecute_val_expression m)"
    by (auto simp: rule_advances_def FIRCLSDwarfParseAndExecute_val_expression_def state_ok_set_rule dest!: leb_advances skip_advances split: Option.bind_splits if_splits)
  show "rule_advances (FIRCLSDwarfParseAndExecute_offset m cie n)"
    by (auto simp: rule_advances_def FIRCLSDwarfParseAndExecute_offset_def state_ok_set_rule dest!: leb_advances split: Option.bind_splits if_splits)
qed

lemma parse_le_advances: "parse_le m n c = Some (v, c2) \<Longrightarrow> c \<le> c2"
  by (auto simp: parse_le_def split: Option.bind_splits)

lemma encoded_advances: "encoded_value m f c = Some (v, c2) \<Longrightarrow> c \<le> c2"
  by (auto simp: encoded_value_def FIRCLSParseUint16AndAdvance_def FIRCLSParseUint32AndAdvance_def FIRCLSParseUint64AndAdvance_def
      dest!: leb_advances parse_le_advances split: Option.bind_splits if_splits)

lemma address_advances: "FIRCLSParseAddressWithEncodingAndAdvance m e c = Some (v, c2) \<Longrightarrow> c \<le> c2"
  by (auto simp: FIRCLSParseAddressWithEncodingAndAdvance_def dest!: encoded_advances
      split: Option.bind_splits if_splits option.splits)

lemma location_advances:
  "FIRCLSDwarfParseAndExecute_set_loc m cie off c = Some (v, c2) \<Longrightarrow> c \<le> c2"
  "FIRCLSDwarfParseAndExecute_advance_loc1 m cie off c = Some (v, c2) \<Longrightarrow> c \<le> c2"
  "FIRCLSDwarfParseAndExecute_advance_loc2 m cie off c = Some (v, c2) \<Longrightarrow> c \<le> c2"
  "FIRCLSDwarfParseAndExecute_advance_loc4 m cie off c = Some (v, c2) \<Longrightarrow> c \<le> c2"
  by (auto simp: FIRCLSDwarfParseAndExecute_set_loc_def FIRCLSDwarfParseAndExecute_advance_loc1_def
      FIRCLSDwarfParseAndExecute_advance_loc2_def FIRCLSDwarfParseAndExecute_advance_loc4_def uint8_advances
      FIRCLSParseUint16AndAdvance_def FIRCLSParseUint32AndAdvance_def
      dest!: address_advances parse_le_advances split: Option.bind_splits)

definition cfi_keeps :: "cfi_machine \<Rightarrow> cfi_machine \<Rightarrow> bool" where
  "cfi_keeps x y \<longleftrightarrow> cursor x \<le> cursor y \<and> (state_ok (cfi_state x) \<longrightarrow> state_ok (cfi_state y))"

lemma rule_step_keeps: "rule_step f x = Some (ok, y) \<Longrightarrow> rule_advances f \<Longrightarrow> cfi_keeps x y"
  by (auto simp: rule_step_def rule_advances_def cfi_keeps_def split: Option.bind_splits)

lemma location_step_keeps:
  "location_step f x = Some (ok, y) \<Longrightarrow> (\<And>off c v c2. f off c = Some (v, c2) \<Longrightarrow> c \<le> c2) \<Longrightarrow> cfi_keeps x y"
  by (auto simp: location_step_def cfi_keeps_def split: Option.bind_splits)

lemma operand_keeps: "FIRCLSDwarfParseAndExecuteInstructionWithOperand m i cie x = Some (ok, y) \<Longrightarrow> cfi_keeps x y"
  by (auto simp: FIRCLSDwarfParseAndExecuteInstructionWithOperand_def Let_def cfi_keeps_def
      dest!: rule_step_keeps[OF _ rules_advance(9)] split: if_splits)

lemma instruction_keeps:
  assumes "execute_instruction m cie x = Some (ok, y)"
  shows "cfi_keeps (x\<lparr>cursor := cursor x + 1\<rparr>) y"
proof -
  have r: "cfi_keeps x x" for x by (simp add: cfi_keeps_def)
  show ?thesis
    using assms unfolding execute_instruction_def
    by (auto simp: Let_def uint8_advances r dest: rule_step_keeps[OF _ rules_advance(1)] rule_step_keeps[OF _ rules_advance(2)]
        rule_step_keeps[OF _ rules_advance(3)] rule_step_keeps[OF _ rules_advance(4)] rule_step_keeps[OF _ rules_advance(5)]
        rule_step_keeps[OF _ rules_advance(6)] rule_step_keeps[OF _ rules_advance(7)] rule_step_keeps[OF _ rules_advance(8)]
        location_step_keeps[OF _ location_advances(1)] location_step_keeps[OF _ location_advances(2)]
        location_step_keeps[OF _ location_advances(3)] location_step_keeps[OF _ location_advances(4)] operand_keeps
        split: if_splits Option.bind_splits)
qed

subsection \<open>The loop\<close>

function instructions_loop :: "memory \<Rightarrow> DWARFCIERecord \<Rightarrow> u64 \<Rightarrow> nat \<Rightarrow> cfi_machine \<Rightarrow> (bool \<times> cfi_machine) option" where
  "instructions_loop m cie pcOffset end_address x =
     (if cursor x < end_address \<and> sint (codeOffset x) < sint pcOffset
      then case execute_instruction m cie x of
             None \<Rightarrow> None
           | Some (False, x) \<Rightarrow> Some (False, x)
           | Some (True, x) \<Rightarrow> instructions_loop m cie pcOffset end_address x
      else Some (True, x))"
  by pat_completeness auto
termination
proof (relation "measure (\<lambda>(_, _, _, e, x). e - cursor x)", goal_cases)
  case (2 m cie p e x r ok y)
  then show ?case using instruction_keeps[of m cie x ok y] by (auto simp: cfi_keeps_def)
qed simp

declare instructions_loop.simps [simp del]

definition FIRCLSDwarfInstructionsEnumerate ::
    "memory \<Rightarrow> dwarf_instructions \<Rightarrow> DWARFCIERecord \<Rightarrow> dwarf_state \<Rightarrow> u64 \<Rightarrow> (bool \<times> dwarf_state) option" where
  "FIRCLSDwarfInstructionsEnumerate m instructions cie s pcOffset =
     do { (ok, x) \<leftarrow> instructions_loop m cie pcOffset (ins_data instructions + unat (ins_length instructions))
            \<lparr>cursor = ins_data instructions, cfi_state = s, codeOffset = 0\<rparr>;
          Some (ok, cfi_state x) }"

lemma instructions_loop_keeps: "instructions_loop m cie p e x = Some (ok, y) \<Longrightarrow> cfi_keeps x y"
proof (induction m cie p e x rule: instructions_loop.induct)
  case (1 m cie p e x)
  show ?case
  proof (cases "cursor x < e \<and> sint (codeOffset x) < sint p")
    case False
    with 1(2) show ?thesis by (simp add: instructions_loop.simps[of m cie p e x] cfi_keeps_def)
  next
    case True
    then obtain ok1 x1 where x1: "execute_instruction m cie x = Some (ok1, x1)"
        "(if ok1 then instructions_loop m cie p e x1 else Some (False, x1)) = Some (ok, y)"
      using 1(2) by (auto simp: instructions_loop.simps[of m cie p e x] split: option.splits bool.splits)
    have "cfi_keeps x x1" using instruction_keeps[OF x1(1)] by (simp add: cfi_keeps_def)
    moreover have "cfi_keeps x1 y"
      using 1(1)[OF True x1(1)] x1(2) by (cases ok1) (simp_all add: cfi_keeps_def)
    ultimately show ?thesis by (simp add: cfi_keeps_def)
  qed
qed

lemma enumerate_ok:
  "FIRCLSDwarfInstructionsEnumerate m ins cie s p = Some (ok, s2) \<Longrightarrow> state_ok s \<Longrightarrow> state_ok s2"
  by (auto simp: FIRCLSDwarfInstructionsEnumerate_def cfi_keeps_def dest!: instructions_loop_keeps split: Option.bind_splits)

end
