(* ===== verification/Dwarf_Expression_Spec.thy ===== *)
theory Dwarf_Expression_Spec
  imports Dwarf_Expression
begin

text \<open>
  What a DWARF expression means: operations as a datatype, their bytes, and their effect on a list
  of values; the stack machine run on the bytes computes that meaning, faults and failures
  included.
\<close>

subsection \<open>Operations and their bytes\<close>

datatype dwarf_op = Deref | Dup | Swap | And | Plus | Ne | Lit nat | PlusUconst nat | Breg nat int | DerefSize nat

fun op_bytes :: "dwarf_op \<Rightarrow> u8 list" where
  "op_bytes Deref = [DW_OP_deref]"
| "op_bytes Dup = [DW_OP_dup]"
| "op_bytes Swap = [DW_OP_swap]"
| "op_bytes And = [DW_OP_and]"
| "op_bytes Plus = [DW_OP_plus]"
| "op_bytes Ne = [DW_OP_ne]"
| "op_bytes (Lit n) = [DW_OP_lit0 + of_nat n]"
| "op_bytes (PlusUconst n) = DW_OP_plus_uconst # uleb_bytes n"
| "op_bytes (Breg r k) = (DW_OP_breg0 + of_nat r) # sleb_bytes k"
| "op_bytes (DerefSize n) = [DW_OP_deref_size, of_nat n]"

fun op_ok :: "dwarf_op \<Rightarrow> bool" where
  "op_ok (Lit n) \<longleftrightarrow> n < 32"
| "op_ok (PlusUconst n) \<longleftrightarrow> n < 2 ^ 31"
| "op_ok (Breg r k) \<longleftrightarrow> r < 32 \<and> -(2 ^ 27) \<le> k \<and> k < 2 ^ 31"
| "op_ok (DerefSize n) \<longleftrightarrow> n < 256"
| "op_ok _ \<longleftrightarrow> True"

definition ops_bytes :: "dwarf_op list \<Rightarrow> u8 list" where
  "ops_bytes ops = concat (map op_bytes ops)"

subsection \<open>Their meaning\<close>

text \<open>
  On the values of the stack, top first. \<open>Some None\<close> is failure (too few or too many values, memory
  that cannot be read), \<open>None\<close> a fault.
\<close>

type_synonym op_outcome = "u64 list option option"

definition push :: "u64 \<Rightarrow> u64 list \<Rightarrow> op_outcome" where
  "push v xs = Some (if length xs < CLS_DWARF_EXPRESSION_STACK_SIZE then Some (v # xs) else None)"

text \<open>The little-endian number of \<open>n\<close> bytes; a fault where memory is not mapped.\<close>

definition sized_value :: "memory \<Rightarrow> nat \<Rightarrow> nat \<Rightarrow> u64 option option" where
  "sized_value mem n a = (if n \<in> {1, 2, 4, 8} then map_option (Some \<circ> le_word) (load_bytes mem a n) else Some None)"

fun op_meaning :: "memory \<Rightarrow> thread_context \<Rightarrow> dwarf_op \<Rightarrow> u64 list \<Rightarrow> op_outcome" where
  "op_meaning mem regs Deref (a # xs) = Some (map_option (\<lambda>bs. le_word bs # xs) (FIRCLSReadMemory mem a 8))"
| "op_meaning mem regs Dup (a # xs) = push a (a # xs)"
| "op_meaning mem regs Swap (a # b # xs) = Some (Some (b # a # xs))"
| "op_meaning mem regs And (a # b # xs) = Some (Some ((a AND b) # xs))"
| "op_meaning mem regs Plus (a # b # xs) = Some (Some ((a + b) # xs))"
| "op_meaning mem regs Ne (a # b # xs) = Some (Some ((if a \<noteq> b then 1 else 0) # xs))"
| "op_meaning mem regs (Lit n) xs = push (of_nat n) xs"
| "op_meaning mem regs (PlusUconst n) (a # xs) = Some (Some ((a + of_nat n) # xs))"
| "op_meaning mem regs (Breg r k) xs = push (FIRCLSDwarfUnwindGetRegisterValue regs r + of_int k) xs"
| "op_meaning mem regs (DerefSize n) [] = map_option (\<lambda>_. None) (sized_value mem n 0)"
| "op_meaning mem regs (DerefSize n) (a # xs) = map_option (map_option (\<lambda>v. v # xs)) (sized_value mem n (unat a))"
| "op_meaning mem regs _ _ = Some None"

fun ops_meaning :: "memory \<Rightarrow> thread_context \<Rightarrow> dwarf_op list \<Rightarrow> u64 list \<Rightarrow> op_outcome" where
  "ops_meaning mem regs [] xs = Some (Some xs)"
| "ops_meaning mem regs (p # ps) xs =
     (case op_meaning mem regs p xs of Some (Some ys) \<Rightarrow> ops_meaning mem regs ps ys | r \<Rightarrow> r)"

text \<open>The value of an expression: the operations run on the initial value, the result is on top.\<close>

definition expression_meaning :: "memory \<Rightarrow> thread_context \<Rightarrow> dwarf_op list \<Rightarrow> u64 \<Rightarrow> u64 option option" where
  "expression_meaning mem regs ps v0 =
     map_option (\<lambda>r. case r of Some (v # _) \<Rightarrow> Some v | _ \<Rightarrow> None) (ops_meaning mem regs ps [v0])"

subsection \<open>The stack as a list\<close>

definition rep :: "dwarf_stack \<Rightarrow> u64 list \<Rightarrow> bool" where
  "rep s xs \<longleftrightarrow> length (buffer s) = CLS_DWARF_EXPRESSION_STACK_SIZE \<and> pointer s = Some (length xs) \<and>
     length xs \<le> CLS_DWARF_EXPRESSION_STACK_SIZE \<and> take (length xs) (buffer s) = rev xs"

lemma rep_valid: "rep s xs \<Longrightarrow> FIRCLSDwarfExpressionStackIsValid s"
  by (simp add: rep_def FIRCLSDwarfExpressionStackIsValid_def)

lemma rep_top:
  assumes "rep s (a # xs)"
  shows "buffer s ! length xs = a" "rep (s\<lparr>pointer := Some (length xs)\<rparr>) xs"
proof -
  have b: "length (buffer s) = 100" "length xs < 100" "take (Suc (length xs)) (buffer s) = rev xs @ [a]"
    using assms by (auto simp: rep_def)
  then have "take (length xs) (buffer s) @ [buffer s ! length xs] = rev xs @ [a]"
    by (simp add: take_Suc_conv_app_nth)
  with b show "buffer s ! length xs = a" "rep (s\<lparr>pointer := Some (length xs)\<rparr>) xs"
    by (auto simp: rep_def)
qed

lemma rep_push:
  "rep s xs \<Longrightarrow> length xs < 100 \<Longrightarrow> rep (s\<lparr>buffer := (buffer s)[length xs := v], pointer := Some (Suc (length xs))\<rparr>) (v # xs)"
  by (auto simp: rep_def take_Suc_conv_app_nth)

text \<open>The machine \<open>m2\<close> after an operation on \<open>m\<close>, when its meaning is \<open>out\<close> and its bytes end at \<open>c\<close>.\<close>

definition yields :: "dwarf_machine \<Rightarrow> op_outcome \<Rightarrow> nat \<Rightarrow> (bool \<times> dwarf_machine) option \<Rightarrow> bool" where
  "yields m out c r \<longleftrightarrow>
     (case out of
        None \<Rightarrow> r = None
      | Some None \<Rightarrow> (\<exists>m2. r = Some (False, m2))
      | Some (Some ys) \<Rightarrow> (\<exists>m2. r = Some (True, m2) \<and> rep (stack m2) ys \<and> dataCursor m2 = c \<and>
          endAddress m2 = endAddress m \<and> registers m2 = registers m))"

lemma push_yields:
  "rep (stack m2) xs \<Longrightarrow> dataCursor m2 = c \<Longrightarrow> endAddress m2 = endAddress m \<Longrightarrow> registers m2 = registers m \<Longrightarrow>
     yields m (push v xs) c (Some (FIRCLSDwarfExpressionMachineStackPush m2 v))"
  using rep_push[of "stack m2" xs v] rep_valid[of "stack m2" xs]
  by (auto simp: yields_def push_def FIRCLSDwarfExpressionMachineStackPush_def FIRCLSDwarfExpressionStackPush_def Let_def)
    (auto simp: rep_def)

lemma push_small: "length xs < 100 \<Longrightarrow> push v xs = Some (Some (v # xs))"
  by (simp add: push_def)

text \<open>After an underflow nothing can be pushed.\<close>

lemma push_null: "pointer (stack m2) = None \<Longrightarrow> FIRCLSDwarfExpressionMachineStackPush m2 v = (False, m2)"
  by (simp add: FIRCLSDwarfExpressionMachineStackPush_def FIRCLSDwarfExpressionStackPush_def FIRCLSDwarfExpressionStackIsValid_def)

lemma pop_null: "pointer (stack m) = None \<Longrightarrow> FIRCLSDwarfExpressionMachineStackPop m = (0, m)"
  by (simp add: FIRCLSDwarfExpressionMachineStackPop_def FIRCLSDwarfExpressionStackPop_def FIRCLSDwarfExpressionStackIsValid_def)

lemma pop_empty: "rep (stack m) [] \<Longrightarrow>
    FIRCLSDwarfExpressionMachineStackPop m = (0, m\<lparr>stack := (stack m)\<lparr>pointer := None\<rparr>\<rparr>)"
  by (simp add: FIRCLSDwarfExpressionMachineStackPop_def FIRCLSDwarfExpressionStackPop_def rep_valid) (simp add: rep_def)

lemma pop_value:
  assumes "rep (stack m) (a # xs)"
  shows "FIRCLSDwarfExpressionMachineStackPop m = (a, m\<lparr>stack := (stack m)\<lparr>pointer := Some (length xs)\<rparr>\<rparr>)"
  using assms rep_top[OF assms] rep_valid[OF assms]
  by (simp add: FIRCLSDwarfExpressionMachineStackPop_def FIRCLSDwarfExpressionStackPop_def) (simp add: rep_def)

lemma peek_empty: "rep s [] \<Longrightarrow> FIRCLSDwarfExpressionStackPeek s = (0, s\<lparr>pointer := None\<rparr>)"
  by (simp add: FIRCLSDwarfExpressionStackPeek_def rep_valid) (simp add: rep_def)

lemma peek_value: "rep s (a # xs) \<Longrightarrow> FIRCLSDwarfExpressionStackPeek s = (a, s)"
  using rep_top[of s a xs] by (simp add: FIRCLSDwarfExpressionStackPeek_def rep_valid) (simp add: rep_def)

lemma null_invalid: "\<not> FIRCLSDwarfExpressionStackIsValid (s\<lparr>pointer := None\<rparr>)"
  by (simp add: FIRCLSDwarfExpressionStackIsValid_def)

lemma rep_length: "rep s xs \<Longrightarrow> length xs \<le> 100"
  by (simp add: rep_def)

lemmas stack_simps = pop_null pop_empty pop_value push_null peek_empty peek_value rep_top(2)

subsection \<open>Each operation has its meaning\<close>

lemma yields_fail [simp]: "yields m (Some None) c (Some (False, m2))" "yields m None c None"
  by (simp_all add: yields_def)

lemma popped_yields:
  assumes "rep (stack m2) xs" "length xs < 100" "dataCursor m2 = c" "endAddress m2 = endAddress m" "registers m2 = registers m"
  shows "yields m (Some (Some (v # xs))) c (Some (FIRCLSDwarfExpressionMachineStackPush m2 v))"
  using push_yields[OF assms(1,3,4,5), of v] assms(2) by (simp add: push_def)

text \<open>Operations on the two values on top.\<close>

lemma binary_yields:
  assumes "rep (stack m) xs" "dataCursor m = c"
  shows "yields m (case xs of a # b # ys \<Rightarrow> Some (Some (f a b # ys)) | _ \<Rightarrow> Some None) c
    (case FIRCLSDwarfExpressionMachineStackPop m of (a, m) \<Rightarrow>
      case FIRCLSDwarfExpressionMachineStackPop m of (b, m) \<Rightarrow> Some (FIRCLSDwarfExpressionMachineStackPush m (f a b)))"
proof (cases xs)
  case Nil
  with assms show ?thesis by (simp add: stack_simps)
next
  case (Cons a zs)
  note r = assms(1) [unfolded Cons]
  show ?thesis
  proof (cases zs)
    case Nil
    with Cons r rep_top(2)[OF r] show ?thesis by (simp add: stack_simps)
  next
    case (Cons b ys)
    from rep_top(2)[OF r] have s: "rep (stack (m\<lparr>stack := (stack m)\<lparr>pointer := Some (Suc (length ys))\<rparr>\<rparr>)) (b # ys)"
      by (simp add: Cons)
    show ?thesis
      using rep_top(2)[OF s] rep_length[OF s] assms(2)
      by (simp add: \<open>xs = a # zs\<close> Cons pop_value[OF r[unfolded Cons]] pop_value[OF s] popped_yields)
  qed
qed

lemma and_yields:
  "rep (stack m) xs \<Longrightarrow> yields m (op_meaning mem regs And xs) (dataCursor m) (FIRCLSDwarfExpressionMachineExecute_and m)"
  using binary_yields[of m xs "dataCursor m" "\<lambda>a b. a AND b"]
  by (cases xs rule: remdups_adj.cases) (simp_all add: FIRCLSDwarfExpressionMachineExecute_and_def)

lemma plus_yields:
  "rep (stack m) xs \<Longrightarrow> yields m (op_meaning mem regs Plus xs) (dataCursor m) (FIRCLSDwarfExpressionMachineExecute_plus m)"
  using binary_yields[of m xs "dataCursor m" "\<lambda>a b. a + b"]
  by (cases xs rule: remdups_adj.cases) (simp_all add: FIRCLSDwarfExpressionMachineExecute_plus_def)

lemma ne_yields:
  "rep (stack m) xs \<Longrightarrow> yields m (op_meaning mem regs Ne xs) (dataCursor m) (FIRCLSDwarfExpressionMachineExecute_ne m)"
  using binary_yields[of m xs "dataCursor m" "\<lambda>a b. if a \<noteq> b then 1 else 0"]
  by (cases xs rule: remdups_adj.cases) (simp_all add: FIRCLSDwarfExpressionMachineExecute_ne_def split del: if_split)

text \<open>Operations on the value on top.\<close>

lemma unary_yields:
  assumes "rep (stack m) (a # xs)" "dataCursor m \<le> c"
  shows "yields m (Some (Some (v # xs))) c
    (Some (FIRCLSDwarfExpressionMachineStackPush (m\<lparr>stack := (stack m)\<lparr>pointer := Some (length xs)\<rparr>, dataCursor := c\<rparr>) v))"
  using rep_top(2)[OF assms(1)] rep_length[OF assms(1)] by (intro popped_yields) simp_all

lemma deref_yields:
  assumes "rep (stack m) xs"
  shows "yields m (op_meaning mem regs Deref xs) (dataCursor m) (FIRCLSDwarfExpressionMachineExecute_deref mem m)"
proof (cases xs)
  case Nil
  with assms show ?thesis
    by (simp add: FIRCLSDwarfExpressionMachineExecute_deref_def stack_simps FIRCLSReadMemory_def FIRCLSIsValidPointer_def)
next
  case (Cons a ys)
  note r = assms [unfolded Cons]
  show ?thesis
    using rep_top(2)[OF r] rep_length[OF r]
    by (auto simp: Cons FIRCLSDwarfExpressionMachineExecute_deref_def pop_value[OF r] split: option.split intro: popped_yields)
qed

lemma dup_yields:
  assumes "rep (stack m) xs"
  shows "yields m (op_meaning mem regs Dup xs) (dataCursor m) (FIRCLSDwarfExpressionMachineExecute_dup m)"
proof (cases xs)
  case Nil
  with assms show ?thesis by (simp add: FIRCLSDwarfExpressionMachineExecute_dup_def stack_simps)
next
  case (Cons a ys)
  with assms push_yields[OF assms] show ?thesis
    by (simp add: FIRCLSDwarfExpressionMachineExecute_dup_def stack_simps)
qed

lemma swap_yields:
  assumes "rep (stack m) xs"
  shows "yields m (op_meaning mem regs Swap xs) (dataCursor m) (FIRCLSDwarfExpressionMachineExecute_swap m)"
proof -
  consider "xs = []" | a where "xs = [a]" | a b ys where "xs = a # b # ys" by (cases xs rule: remdups_adj.cases) auto
  then show ?thesis
  proof cases
    case 1
    with assms show ?thesis by (simp add: FIRCLSDwarfExpressionMachineExecute_swap_def stack_simps)
  next
    case (2 a)
    note r = assms [unfolded 2]
    show ?thesis
      using r rep_top(2)[OF r] by (simp add: 2 FIRCLSDwarfExpressionMachineExecute_swap_def stack_simps)
  next
    case (3 a b ys)
    note r = assms [unfolded 3]
    from rep_top(2)[OF r] have s: "rep (stack (m\<lparr>stack := (stack m)\<lparr>pointer := Some (Suc (length ys))\<rparr>\<rparr>)) (b # ys)"
      by simp
    let ?m = "m\<lparr>stack := (stack m)\<lparr>pointer := Some (length ys)\<rparr>\<rparr>"
    have l: "length ys < 99" using rep_length[OF r] by simp
    obtain m2 where m2: "FIRCLSDwarfExpressionMachineStackPush ?m a = (True, m2)" "rep (stack m2) (a # ys)"
        "dataCursor m2 = dataCursor m" "endAddress m2 = endAddress m" "registers m2 = registers m"
      using popped_yields[of ?m ys "dataCursor m" m a] rep_top(2)[OF s] l by (auto simp: yields_def)
    have "FIRCLSDwarfExpressionMachineExecute_swap m = Some (FIRCLSDwarfExpressionMachineStackPush m2 b)"
      using m2(1) by (simp add: FIRCLSDwarfExpressionMachineExecute_swap_def pop_value[OF r] pop_value[OF s])
    then show ?thesis
      using popped_yields[OF m2(2) _ m2(3,4,5), of b] l by (simp add: 3)
  qed
qed

subsection \<open>Operations with operands\<close>

lemma opcode_value: "unat k + n < 256 \<Longrightarrow> unat (k + of_nat n :: u8) = unat k + n"
  by (simp add: unat_word_ariths unat_of_nat)

lemma bit_le_word:
  "bit (le_word bs :: 'a::len word) n \<longleftrightarrow> n < LENGTH('a) \<and> n div 8 < length bs \<and> bit (bs ! (n div 8)) (n mod 8)"
proof (induction bs arbitrary: n)
  case (Cons b bs)
  show ?case
  proof (cases "n < 8")
    case True
    then show ?thesis by (auto simp: bit_simps)
  next
    case False
    then have "n div 8 = Suc ((n - 8) div 8)" "(n - 8) mod 8 = n mod 8"
      by (simp_all add: le_div_geq le_mod_geq)
    moreover have "\<not> bit (ucast b :: 'a word) n"
      using False bit_imp_le_length[of b n] by (auto simp: bit_simps)
    ultimately show ?thesis using False Cons.IH[of "n - 8"] by (auto simp: bit_simps)
  qed
qed simp

lemma ucast_le_word:
  assumes "8 * length bs \<le> LENGTH('a::len)" "LENGTH('a) \<le> LENGTH('b::len)"
  shows "ucast (le_word bs :: 'a word) = (le_word bs :: 'b word)"
proof (rule bit_word_eqI)
  fix n assume "n < LENGTH('b)"
  moreover have "n < LENGTH('a)" if "n div 8 < length bs"
  proof -
    have "n < 8 * length bs" using that by linarith
    with assms show ?thesis by linarith
  qed
  ultimately show "bit (ucast (le_word bs :: 'a word) :: 'b word) n = bit (le_word bs :: 'b word) n"
    by (auto simp: bit_simps bit_le_word)
qed

lemma length_load_bytes: "load_bytes mem a n = Some bs \<Longrightarrow> length bs = n"
  by (induction n arbitrary: a bs) (auto split: Option.bind_splits)

lemma load_bytes_unmapped: "mem a = None \<Longrightarrow> 0 < n \<Longrightarrow> load_bytes mem a n = None"
  by (cases n) simp_all

lemma load_one: "load_bytes mem a (Suc 0) = map_option (\<lambda>b. [b]) (mem a)"
  by (cases "mem a") simp_all

lemma deref_size_value:
  assumes "n < 256"
  shows "deref_size_value mem (of_nat n) a = sized_value mem n a"
proof -
  have n: "(of_nat n :: u8) = 1 \<longleftrightarrow> n = 1" "(of_nat n :: u8) = 2 \<longleftrightarrow> n = 2"
    "(of_nat n :: u8) = 4 \<longleftrightarrow> n = 4" "(of_nat n :: u8) = 8 \<longleftrightarrow> n = 8"
    using assms by (simp_all add: word_unat_eq_iff unat_of_nat)
  have w: "ucast (le_word bs :: u16) = (le_word bs :: u64)" if "length bs = 2" for bs
    using that by (intro ucast_le_word) simp_all
  have v: "ucast (le_word bs :: u32) = (le_word bs :: u64)" if "length bs = 4" for bs
    using that by (intro ucast_le_word) simp_all
  show ?thesis
    unfolding deref_size_value_def sized_value_def n
    by (cases "mem a")
      (auto simp: FIRCLSParseUint8AndAdvance_def FIRCLSParseUint16AndAdvance_def FIRCLSParseUint32AndAdvance_def
        FIRCLSParseUint64AndAdvance_def parse_le_def load_one w[OF length_load_bytes] v[OF length_load_bytes]
        simp del: load_bytes.simps split: Option.bind_splits)
qed

lemma lit_yields:
  assumes "rep (stack m) xs" "n < 32"
  shows "yields m (op_meaning mem regs (Lit n) xs) (dataCursor m) (FIRCLSDwarfExpressionMachineExecute_litN (DW_OP_lit0 + of_nat n) m)"
proof -
  have "ucast (of_nat n :: u8) = (of_nat n :: u64)"
    using assms(2) by (simp add: word_unat_eq_iff unat_of_nat unsigned_ucast_eq take_bit_eq_mod)
  with push_yields[OF assms(1), of "dataCursor m" m "of_nat n"] show ?thesis
    by (simp add: FIRCLSDwarfExpressionMachineExecute_litN_def)
qed

lemma plus_uconst_yields:
  assumes "rep (stack m) xs" "holds mem (dataCursor m) (uleb_bytes n)" "n < 2 ^ 31"
  shows "yields m (op_meaning mem regs (PlusUconst n) xs) (dataCursor m + length (uleb_bytes n))
    (FIRCLSDwarfExpressionMachineExecute_plus_uconst mem m)"
proof (cases xs)
  case Nil
  with assms uleb_parse[OF assms(2,3)] show ?thesis
    by (simp add: FIRCLSDwarfExpressionMachineExecute_plus_uconst_def stack_simps)
next
  case (Cons a ys)
  note r = assms(1) [unfolded Cons]
  show ?thesis
    using uleb_parse[OF assms(2,3)] unary_yields[OF r, of "dataCursor m + length (uleb_bytes n)" "a + of_nat n"]
    by (simp add: Cons FIRCLSDwarfExpressionMachineExecute_plus_uconst_def pop_value[OF r])
qed

lemma breg_yields:
  assumes "rep (stack m) xs" "holds mem (dataCursor m) (sleb_bytes k)" "r < 32" "-(2 ^ 27) \<le> k" "k < 2 ^ 31"
  shows "yields m (op_meaning mem (registers m) (Breg r k) xs) (dataCursor m + length (sleb_bytes k))
    (FIRCLSDwarfExpressionMachineExecute_bregN mem (DW_OP_breg0 + of_nat r) m)"
proof -
  have "unat (of_nat r :: u8) = r" using assms(3) by (simp add: unat_of_nat)
  with sleb_parse[OF assms(2,4,5)] assms(1,3) show ?thesis
    by (simp add: FIRCLSDwarfExpressionMachineExecute_bregN_def push_yields)
qed

lemma deref_size_yields:
  assumes "rep (stack m) xs" "mem (dataCursor m) = Some (of_nat n)" "n < 256"
  shows "yields m (op_meaning mem regs (DerefSize n) xs) (dataCursor m + 1) (FIRCLSDwarfExpressionMachineExecute_deref_size mem m)"
proof (cases xs)
  case Nil
  with assms(1,2) show ?thesis
    by (cases "sized_value mem n 0")
      (auto simp: FIRCLSDwarfExpressionMachineExecute_deref_size_def stack_simps FIRCLSParseUint8AndAdvance_def
        deref_size_value[OF assms(3)] Let_def split: option.split)
next
  case (Cons a ys)
  note r = assms(1) [unfolded Cons]
  show ?thesis
    using assms(2) unary_yields[OF r, of "dataCursor m + 1"]
    by (cases "sized_value mem n (unat a)")
      (auto simp: Cons FIRCLSDwarfExpressionMachineExecute_deref_size_def pop_value[OF r] FIRCLSParseUint8AndAdvance_def
        deref_size_value[OF assms(3)] Let_def split: option.split)
qed

subsection \<open>The machine computes the meaning\<close>

lemma yields_from:
  "endAddress m2 = endAddress m \<Longrightarrow> registers m2 = registers m \<Longrightarrow> yields m2 out c r = yields m out c r"
  by (simp add: yields_def split: option.split)

lemma opcode_yields:
  assumes "rep (stack m) xs" "holds mem (dataCursor m) (op_bytes p)" "op_ok p"
  shows "yields m (op_meaning mem (registers m) p xs) (dataCursor m + length (op_bytes p))
    (FIRCLSDwarfExpressionMachineExecuteNextOpcode mem m)"
proof -
  let ?m = "m\<lparr>dataCursor := dataCursor m + 1\<rparr>"
  have r: "rep (stack ?m) xs" using assms(1) by simp
  have y: "yields ?m out c e = yields m out c e" for out c e by (rule yields_from) simp_all
  show ?thesis
  proof (cases p)
    case (Lit n)
    with assms have n: "n < 32" "mem (dataCursor m) = Some (DW_OP_lit0 + of_nat n)" by simp_all
    have "unat (DW_OP_lit0 + of_nat n :: u8) = 48 + n" using n(1) by (subst opcode_value) simp_all
    with lit_yields[OF r n(1), of mem "registers m"] n(2) n(1) show ?thesis
      unfolding y by (simp add: FIRCLSDwarfExpressionMachineExecuteNextOpcode_def FIRCLSParseUint8AndAdvance_def Lit
          word_unat_eq_iff word_le_nat_alt)
  next
    case (Breg i k)
    with assms have i: "i < 32" "mem (dataCursor m) = Some (DW_OP_breg0 + of_nat i)"
      "holds mem (dataCursor ?m) (sleb_bytes k)" "-(2 ^ 27) \<le> k" "k < 2 ^ 31" by simp_all
    have "unat (DW_OP_breg0 + of_nat i :: u8) = 112 + i" using i(1) by (subst opcode_value) simp_all
    with breg_yields[OF r i(3,1,4,5)] i(2) i(1) show ?thesis
      unfolding y by (simp add: FIRCLSDwarfExpressionMachineExecuteNextOpcode_def FIRCLSParseUint8AndAdvance_def Breg
          word_unat_eq_iff word_le_nat_alt)
  next
    case (PlusUconst n)
    with assms have "holds mem (dataCursor ?m) (uleb_bytes n)" "n < 2 ^ 31" by simp_all
    from plus_uconst_yields[OF r this, of "registers m"] assms(2) show ?thesis
      unfolding y by (simp add: FIRCLSDwarfExpressionMachineExecuteNextOpcode_def FIRCLSParseUint8AndAdvance_def PlusUconst)
  next
    case (DerefSize n)
    with assms have "mem (dataCursor ?m) = Some (of_nat n)" "n < 256" by simp_all
    with deref_size_yields[OF r, of mem n "registers m"] assms(2) show ?thesis
      unfolding y by (simp add: FIRCLSDwarfExpressionMachineExecuteNextOpcode_def FIRCLSParseUint8AndAdvance_def DerefSize)
  qed (use assms(2) deref_yields[OF r, unfolded y] dup_yields[OF r, unfolded y] swap_yields[OF r, unfolded y]
      and_yields[OF r, unfolded y] plus_yields[OF r, unfolded y] ne_yields[OF r, unfolded y]
      in \<open>simp_all add: FIRCLSDwarfExpressionMachineExecuteNextOpcode_def FIRCLSParseUint8AndAdvance_def\<close>)
qed

lemma loop_yields:
  assumes "rep (stack m) xs" "holds mem (dataCursor m) (ops_bytes ps)" "list_all op_ok ps" "4096 \<le> dataCursor m"
    "endAddress m = dataCursor m + length (ops_bytes ps)"
  shows "yields m (ops_meaning mem (registers m) ps xs) (endAddress m) (expression_loop mem m)"
  using assms
proof (induction ps arbitrary: m xs)
  case Nil
  then show ?case
    by (simp add: expression_loop.simps[of mem m] FIRCLSDwarfExpressionMachineIsFinished_def ops_bytes_def yields_def)
next
  case (Cons p ps)
  let ?r = "FIRCLSDwarfExpressionMachineExecuteNextOpcode mem m"
  have y: "yields m (op_meaning mem (registers m) p xs) (dataCursor m + length (op_bytes p)) ?r"
    using Cons.prems by (intro opcode_yields) (simp_all add: ops_bytes_def)
  have "0 < length (op_bytes p)" by (cases p) simp_all
  then have l: "expression_loop mem m = (case ?r of None \<Rightarrow> None | Some (False, m) \<Rightarrow> Some (False, m)
      | Some (True, m) \<Rightarrow> expression_loop mem m)"
    using Cons.prems rep_valid[OF Cons.prems(1)]
    by (simp add: expression_loop.simps[of mem m] FIRCLSDwarfExpressionMachineIsFinished_def FIRCLSIsValidPointer_def ops_bytes_def)
  show ?case
  proof (cases "\<exists>ys. op_meaning mem (registers m) p xs = Some (Some ys)")
    case False
    with y l show ?thesis
      by (auto simp: yields_def split: option.splits)
  next
    case True
    then obtain ys m2 where ys: "op_meaning mem (registers m) p xs = Some (Some ys)" and r: "?r = Some (True, m2)" "rep (stack m2) ys"
        "dataCursor m2 = dataCursor m + length (op_bytes p)" "endAddress m2 = endAddress m" "registers m2 = registers m"
      using y by (auto simp: yields_def)
    have "yields m2 (ops_meaning mem (registers m2) ps ys) (endAddress m2) (expression_loop mem m2)"
      using Cons.prems r by (intro Cons.IH) (simp_all add: ops_bytes_def)
    then show ?thesis
      unfolding yields_from[OF r(4,5)] using r ys l by simp
  qed
qed

lemma evaluate_meaning:
  assumes "list_all op_ok ps" "ps \<noteq> []" "length (ops_bytes ps) < 2 ^ 31" "4096 \<le> c"
    "holds mem c (uleb_bytes (length (ops_bytes ps)) @ ops_bytes ps)"
  shows "FIRCLSDwarfEvalulateExpression mem c regs v0 = expression_meaning mem regs ps v0"
proof -
  let ?n = "length (ops_bytes ps)" and ?s = "FIRCLSDwarfExpressionStackInit"
  let ?c = "c + length (uleb_bytes ?n)"
  obtain p ps' where "ps = p # ps'" using assms(2) by (cases ps) auto
  then have n: "0 < ?n" by (cases p) (simp_all add: ops_bytes_def)
  then have n0: "(of_nat ?n :: u64) \<noteq> 0" "unat (of_nat ?n :: u64) = ?n"
    using assms(3) by (simp_all add: word_unat_eq_iff unat_of_nat)
  define m where "m = \<lparr>stack = ?s\<lparr>buffer := (buffer ?s)[0 := v0], pointer := Some 1\<rparr>, dataCursor = ?c,
    endAddress = ?c + ?n, registers = regs\<rparr>"
  have s: "rep ?s []" by (simp add: rep_def FIRCLSDwarfExpressionStackInit_def)
  have "FIRCLSDwarfExpressionStackPush ?s v0 = (True, stack m)"
    by (simp add: m_def FIRCLSDwarfExpressionStackPush_def rep_valid[OF s]) (simp add: FIRCLSDwarfExpressionStackInit_def)
  then have e: "FIRCLSDwarfEvalulateExpression mem c regs v0 = do { (ok, m) \<leftarrow> expression_loop mem m;
      if \<not> ok then Some None else Some (FIRCLSDwarfExpressionMachineGetResult m) }"
    using assms(4,5) uleb_parse[OF _ assms(3), of mem c] n0
    by (simp add: FIRCLSDwarfEvalulateExpression_def FIRCLSIsValidPointer_def FIRCLSDwarfExpressionMachineInit_def
        FIRCLSDwarfExpressionMachinePrepareForExecution_def m_def)
  have "rep (stack m) [v0]" using rep_push[OF s, of v0] by (simp add: m_def)
  then have "yields m (ops_meaning mem regs ps [v0]) (endAddress m) (expression_loop mem m)"
    using loop_yields[of m "[v0]" mem ps] assms(1,4,5) by (simp add: m_def)
  then show ?thesis
    unfolding e expression_meaning_def yields_def
    by (auto simp: FIRCLSDwarfExpressionMachineGetResult_def stack_simps rep_valid null_invalid
        split: option.splits list.splits)
qed

text \<open>
  C22: Expression evaluation. On memory that holds the length and the bytes of a sequence of
  operations with operands in range, evaluating the expression gives its meaning: the value on top of
  the list when every operation succeeds, failure where an operation fails, and a fault only where
  a sized read touches memory that is not mapped.
\<close>

theorem expression_evaluates:
  assumes "list_all op_ok ps" "ps \<noteq> []" "length (ops_bytes ps) < 2 ^ 31" "4096 \<le> c"
    "holds mem c (uleb_bytes (length (ops_bytes ps)) @ ops_bytes ps)"
  shows "FIRCLSDwarfEvalulateExpression mem c regs v0 = expression_meaning mem regs ps v0"
  using assms by (rule evaluate_meaning)

lemma uleb_small: "n < 128 \<Longrightarrow> uleb_bytes n = [of_nat n]"
  by (simp add: uleb_bytes.simps)

definition regs0 :: thread_context where
  "regs0 = \<lparr>ss_x = replicate 29 0, ss_fp = 0x16fdff000, ss_lr = 0x100003f50, ss_sp = 0x16fdfefe0, ss_pc = 0x100003f00\<rparr>"

lemma expression_evaluates_witness:
  "FIRCLSDwarfEvalulateExpression (segment 4096 [5, 0x32, 0x22, 0x12, 0x23, 0x05]) 4096 regs0 40 = Some (Some 47)"
proof -
  let ?ps = "[Lit 2, Plus, Dup, PlusUconst 5]"
  have b: "ops_bytes ?ps = [0x32, 0x22, 0x12, 0x23, 0x05]"
    by (simp add: ops_bytes_def uleb_small)
  have "holds (segment 4096 [5, 0x32, 0x22, 0x12, 0x23, 0x05]) 4096 (uleb_bytes (length (ops_bytes ?ps)) @ ops_bytes ?ps)"
    by (simp add: b segment_def uleb_small)
  from expression_evaluates[OF _ _ _ _ this, of regs0 40] show ?thesis
    by (simp add: b uleb_small expression_meaning_def push_def)
qed

text \<open>A sized read of an address that is not mapped stops the process; a plain one fails.\<close>

lemma deref_size_faults:
  "FIRCLSDwarfEvalulateExpression (segment 4096 [2, 0x94, 0x08]) 4096 regs 0 = None"
  "FIRCLSDwarfEvalulateExpression (segment 4096 [1, 0x06]) 4096 regs 0 = Some None"
proof -
  have b: "ops_bytes [DerefSize 8] = [0x94, 0x08]" "ops_bytes [Deref] = [0x06]"
    by (simp_all add: ops_bytes_def uleb_small)
  have h: "holds (segment 4096 [2, 0x94, 0x08]) 4096 (uleb_bytes (length (ops_bytes [DerefSize 8])) @ ops_bytes [DerefSize 8])"
    "holds (segment 4096 [1, 0x06]) 4096 (uleb_bytes (length (ops_bytes [Deref])) @ ops_bytes [Deref])"
    by (simp_all add: b segment_def uleb_small)
  from evaluate_meaning[OF _ _ _ _ h(1), of regs 0]
  show "FIRCLSDwarfEvalulateExpression (segment 4096 [2, 0x94, 0x08]) 4096 regs 0 = None"
    by (simp add: b uleb_small expression_meaning_def sized_value_def segment_def load_bytes_unmapped)
  from evaluate_meaning[OF _ _ _ _ h(2), of regs 0]
  show "FIRCLSDwarfEvalulateExpression (segment 4096 [1, 0x06]) 4096 regs 0 = Some None"
    by (simp add: b uleb_small expression_meaning_def FIRCLSReadMemory_def FIRCLSIsValidPointer_def)
qed

end
