(* ===== verification/Dwarf_Record_Bytes.thy ===== *)
theory Dwarf_Record_Bytes
  imports Dwarf_Records Dwarf_Expression_Spec
begin

text \<open>
  The bytes of common and frame entries, written from their fields, and the proof that the record
  parsers read the fields back.
\<close>

subsection \<open>Little-endian numbers\<close>

fun le_bytes :: "nat \<Rightarrow> nat \<Rightarrow> u8 list" where
  "le_bytes 0 v = []"
| "le_bytes (Suc n) v = of_nat (v mod 256) # le_bytes n (v div 256)"

lemma length_le_bytes [simp]: "length (le_bytes n v) = n"
  by (induction n arbitrary: v) simp_all

lemma le_word_bytes: "v < 256 ^ n \<Longrightarrow> le_word (le_bytes n v) = (of_nat v :: 'a::len word)"
proof (induction n arbitrary: v)
  case (Suc n)
  then have IH: "le_word (le_bytes n (v div 256)) = (of_nat (v div 256) :: 'a word)"
    by (simp add: less_mult_imp_div_less mult.commute)
  have "(ucast (of_nat (v mod 256) :: u8) :: 'a word) OR push_bit 8 (of_nat (v div 256)) = of_nat v"
  proof (rule bit_word_eqI)
    fix k assume "k < LENGTH('a)"
    moreover have "v mod 256 = take_bit 8 v" "v div 256 = drop_bit 8 v"
      by (simp_all add: take_bit_eq_mod drop_bit_eq_div)
    ultimately show "bit ((ucast (of_nat (v mod 256) :: u8) :: 'a word) OR push_bit 8 (of_nat (v div 256))) k = bit (of_nat v :: 'a word) k"
      by (cases "k < 8") (auto simp: bit_simps)
  qed
  then show ?case by (simp add: IH)
qed simp

lemma parse_le_bytes:
  "holds m c (le_bytes n v) \<Longrightarrow> v < 256 ^ n \<Longrightarrow> parse_le m n c = Some (of_nat v, c + n)"
  by (simp add: parse_le_def load_holds[of m c "le_bytes n v"] le_word_bytes)

subsection \<open>Addresses\<close>

text \<open>The formats of fixed size, absolute or relative to the place of the value.\<close>

datatype pointer_format = Absptr | Udata2 | Udata4 | Udata8 | Sdata2 | Sdata4 | Sdata8

fun format_byte :: "pointer_format \<Rightarrow> u8" where
  "format_byte Absptr = DW_EH_PE_absptr"
| "format_byte Udata2 = DW_EH_PE_udata2"
| "format_byte Udata4 = DW_EH_PE_udata4"
| "format_byte Udata8 = DW_EH_PE_udata8"
| "format_byte Sdata2 = DW_EH_PE_sdata2"
| "format_byte Sdata4 = DW_EH_PE_sdata4"
| "format_byte Sdata8 = DW_EH_PE_sdata8"

fun format_size :: "pointer_format \<Rightarrow> nat" where
  "format_size Udata2 = 2"
| "format_size Sdata2 = 2"
| "format_size Udata4 = 4"
| "format_size Sdata4 = 4"
| "format_size _ = 8"

text \<open>The number stored for \<open>v\<close>, where the format can hold it.\<close>

fun format_fits :: "pointer_format \<Rightarrow> u64 \<Rightarrow> bool" where
  "format_fits Udata2 v \<longleftrightarrow> unat v < 2 ^ 16"
| "format_fits Udata4 v \<longleftrightarrow> unat v < 2 ^ 32"
| "format_fits Sdata2 v \<longleftrightarrow> scast (ucast v :: u16) = v"
| "format_fits Sdata4 v \<longleftrightarrow> scast (ucast v :: u32) = v"
| "format_fits _ v \<longleftrightarrow> True"

definition format_bytes :: "pointer_format \<Rightarrow> u64 \<Rightarrow> u8 list" where
  "format_bytes f v = le_bytes (format_size f) (unat v mod 256 ^ format_size f)"

definition encoding_byte :: "pointer_format \<Rightarrow> bool \<Rightarrow> u8" where
  "encoding_byte f rel = format_byte f OR (if rel then DW_EH_PE_pcrel else 0)"

definition address_bytes :: "pointer_format \<Rightarrow> bool \<Rightarrow> nat \<Rightarrow> u64 \<Rightarrow> u8 list" where
  "address_bytes f rel here v = format_bytes f (if rel then v - of_nat here else v)"

definition address_fits :: "pointer_format \<Rightarrow> bool \<Rightarrow> nat \<Rightarrow> u64 \<Rightarrow> bool" where
  "address_fits f rel here v \<longleftrightarrow> format_fits f (if rel then v - of_nat here else v)"

lemma length_address_bytes [simp]: "length (address_bytes f rel here v) = format_size f"
  by (simp add: address_bytes_def format_bytes_def)

lemma of_nat_unat_mod:
  "(of_nat (unat v mod 65536) :: u16) = ucast v" "(of_nat (unat v mod 4294967296) :: u32) = ucast v"
  "of_nat (unat v mod 18446744073709551616) = v" for v :: u64
proof -
  show "(of_nat (unat v mod 65536) :: u16) = ucast v" "(of_nat (unat v mod 4294967296) :: u32) = ucast v"
    by (simp_all add: word_unat_eq_iff unat_of_nat unsigned_ucast_eq take_bit_eq_mod)
  have "unat v < 18446744073709551616" using unsigned_less[of v] by simp
  then show "of_nat (unat v mod 18446744073709551616) = v" by simp
qed

lemma encoded_format:
  assumes "holds m c (format_bytes f v)" "format_fits f v"
  shows "encoded_value m (format_byte f) c = Some (Some v, c + format_size f)"
proof -
  have "unat v mod 256 ^ format_size f < 256 ^ format_size f" by simp
  note p = parse_le_bytes[OF assms(1)[unfolded format_bytes_def] this]
  have u: "unat v mod 65536 = unat v" if "unat v < 65536" using that by simp
  have w: "unat v mod 4294967296 = unat v" if "unat v < 4294967296" using that by simp
  show ?thesis
    using p [where 'a = 16] p [where 'a = 32] p [where 'a = 64] assms(2)
    by (cases f) (auto simp: encoded_value_def FIRCLSParseUint16AndAdvance_def FIRCLSParseUint32AndAdvance_def
        FIRCLSParseUint64AndAdvance_def of_nat_unat_mod u w unat_mod unsigned_ucast_eq take_bit_eq_mod word_unat_eq_iff)
qed

lemma encoding_parts:
  "encoding_byte f rel AND DW_EH_PE_VALUE_MASK = format_byte f" "encoding_byte f rel \<noteq> DW_EH_PE_omit"
  "encoding_byte f rel AND DW_EH_PE_RELATIVE_OFFSET_MASK = (if rel then DW_EH_PE_pcrel else 0)"
  "encoding_byte f rel AND DW_EH_PE_indirect = 0"
  by (cases f; simp add: encoding_byte_def)+

lemma parse_address:
  assumes "holds m c (address_bytes f rel c v)" "address_fits f rel c v" "0 < c"
  shows "FIRCLSParseAddressWithEncodingAndAdvance m (encoding_byte f rel) c = Some (v, c + format_size f)"
  using assms(3) encoded_format[OF assms(1)[unfolded address_bytes_def] assms(2)[unfolded address_fits_def]]
  by (simp add: FIRCLSParseAddressWithEncodingAndAdvance_def encoding_parts relative_address_def)

subsection \<open>Small readers\<close>

lemma parse_length:
  assumes "holds m c (le_bytes 4 n)" "n < 0xffffffff"
  shows "FIRCLSParseRecordLengthAndAdvance m c = Some (of_nat n, c + 4)"
proof -
  have "(ucast (of_nat n :: u32) :: u64) = of_nat n" "(of_nat n :: u64) \<noteq> DWARF_EXTENDED_LENGTH_FLAG"
    using assms(2) by (simp_all add: DWARF_EXTENDED_LENGTH_FLAG_def word_unat_eq_iff unat_of_nat unsigned_ucast_eq take_bit_eq_mod)
  with parse_le_bytes[OF assms(1), where 'a = 32] assms(2) show ?thesis
    by (simp add: FIRCLSParseRecordLengthAndAdvance_def FIRCLSParseUint32AndAdvance_def)
qed

lemma parse_uint32: "holds m c (le_bytes 4 n) \<Longrightarrow> n < 2 ^ 32 \<Longrightarrow> FIRCLSParseUint32AndAdvance m c = Some (of_nat n, c + 4)"
  using parse_le_bytes[of m c 4 n] by (simp add: FIRCLSParseUint32AndAdvance_def)

lemma parse_uint8: "m c = Some b \<Longrightarrow> FIRCLSParseUint8AndAdvance m c = Some (b, c + 1)"
  by (simp add: FIRCLSParseUint8AndAdvance_def)

lemma c_string_holds: "holds m c (s @ [0]) \<Longrightarrow> 0 \<notin> set s \<Longrightarrow> c_string m c = Some s"
  by (induction s arbitrary: c) (simp_all add: c_string.simps)

lemma parse_string: "holds m c (s @ [0]) \<Longrightarrow> 0 \<notin> set s \<Longrightarrow> FIRCLSParseStringAndAdvance m c = Some (s, c + (length s + 1))"
  unfolding FIRCLSParseStringAndAdvance_def by (simp add: c_string_holds)

lemma byte_u64: "n < 256 \<Longrightarrow> (ucast (of_nat n :: u8) :: u64) = of_nat n"
  by (simp add: word_unat_eq_iff unat_of_nat unsigned_ucast_eq take_bit_eq_mod)

lemma length_word: "0 < n \<Longrightarrow> n < 0xffffffff \<Longrightarrow> (of_nat n :: u64) \<noteq> 0 \<and> unat (of_nat n :: u64) = n"
  by (simp add: word_unat_eq_iff unat_of_nat)

subsection \<open>Augmentations\<close>

datatype aug = Lsda u8 | Pointer pointer_format bool | Personality pointer_format bool u64 | Signal

fun aug_char :: "aug \<Rightarrow> u8" where
  "aug_char (Lsda e) = 0x4C"
| "aug_char (Pointer f rel) = 0x52"
| "aug_char (Personality f rel v) = 0x50"
| "aug_char Signal = 0x53"

fun aug_bytes :: "nat \<Rightarrow> aug \<Rightarrow> u8 list" where
  "aug_bytes c (Lsda e) = [e]"
| "aug_bytes c (Pointer f rel) = [encoding_byte f rel]"
| "aug_bytes c (Personality f rel v) = encoding_byte f rel # address_bytes f rel (c + 1) v"
| "aug_bytes c Signal = []"

fun aug_ok :: "nat \<Rightarrow> aug \<Rightarrow> bool" where
  "aug_ok c (Personality f rel v) \<longleftrightarrow> address_fits f rel (c + 1) v \<and> v \<noteq> CLS_INVALID_ADDRESS"
| "aug_ok c _ \<longleftrightarrow> True"

fun aug_field :: "aug \<Rightarrow> DWARFCIERecord \<Rightarrow> DWARFCIERecord" where
  "aug_field (Lsda e) r = r\<lparr>lsdaEncoding := e\<rparr>"
| "aug_field (Pointer f rel) r = r\<lparr>pointerEncoding := encoding_byte f rel\<rparr>"
| "aug_field (Personality f rel v) r = r\<lparr>personalityEncoding := encoding_byte f rel, personalityFunction := v\<rparr>"
| "aug_field Signal r = r\<lparr>signalFrame := True\<rparr>"

definition aug_size :: "aug \<Rightarrow> nat" where
  "aug_size a = length (aug_bytes 0 a)"

lemma aug_size [simp]: "aug_size (Lsda e) = 1" "aug_size (Pointer f rel) = 1"
  "aug_size (Personality f rel v) = format_size f + 1" "aug_size Signal = 0"
  by (simp_all add: aug_size_def)

lemma length_aug_bytes: "length (aug_bytes c a) = aug_size a"
  by (cases a) simp_all

fun augs_bytes :: "nat \<Rightarrow> aug list \<Rightarrow> u8 list" where
  "augs_bytes c [] = []"
| "augs_bytes c (a # as) = aug_bytes c a @ augs_bytes (c + aug_size a) as"

fun augs_ok :: "nat \<Rightarrow> aug list \<Rightarrow> bool" where
  "augs_ok c [] \<longleftrightarrow> True"
| "augs_ok c (a # as) \<longleftrightarrow> aug_ok c a \<and> augs_ok (c + aug_size a) as"

abbreviation (input) augs_size :: "aug list \<Rightarrow> nat" where "augs_size as \<equiv> sum_list (map aug_size as)"

lemma length_augs_bytes: "length (augs_bytes c as) = augs_size as"
  by (induction as arbitrary: c) (simp_all add: length_aug_bytes)

lemma augmentation_loop_bytes:
  "holds m c (augs_bytes c as) \<Longrightarrow> augs_ok c as \<Longrightarrow> 0 < c \<Longrightarrow> c + augs_size as \<le> e \<Longrightarrow>
     augmentation_loop m e (map aug_char as) r c = Some ((True, fold aug_field as r), c + augs_size as)"
proof (induction as arbitrary: c r)
  case (Cons a as)
  have IH: "augmentation_loop m e (map aug_char as) r (c + aug_size a)
      = Some ((True, fold aug_field as r), c + aug_size a + augs_size as)" for r
    using Cons.prems by (intro Cons.IH) (simp_all add: length_aug_bytes)
  show ?case
  proof (cases a)
    case (Personality f rel v)
    with Cons.prems have "FIRCLSParseAddressWithEncodingAndAdvance m (encoding_byte f rel) (c + 1) = Some (v, c + 1 + format_size f)"
      by (intro parse_address) simp_all
    with IH Cons.prems Personality show ?thesis
      by (simp add: parse_uint8)
  qed (use IH Cons.prems in \<open>simp_all add: parse_uint8\<close>)
qed simp

subsection \<open>The common entry\<close>

record cie_fields =
  cf_version :: u8
  cf_augs :: "aug list option"
  cf_code :: nat
  cf_data :: int
  cf_return :: nat
  cf_ins :: "u8 list"

fun aug_string :: "aug list option \<Rightarrow> u8 list" where
  "aug_string None = []"
| "aug_string (Some as) = 0x7A # map aug_char as"

fun aug_section :: "nat \<Rightarrow> aug list option \<Rightarrow> u8 list" where
  "aug_section c None = []"
| "aug_section c (Some as) = uleb_bytes (augs_size as) @ augs_bytes (c + length (uleb_bytes (augs_size as))) as"

fun aug_section_ok :: "nat \<Rightarrow> aug list option \<Rightarrow> bool" where
  "aug_section_ok c None \<longleftrightarrow> True"
| "aug_section_ok c (Some as) \<longleftrightarrow> augs_size as < 2 ^ 31 \<and> augs_ok (c + length (uleb_bytes (augs_size as))) as"

fun aug_fields :: "aug list option \<Rightarrow> DWARFCIERecord \<Rightarrow> DWARFCIERecord" where
  "aug_fields None r = r"
| "aug_fields (Some as) r = fold aug_field as r"

text \<open>The bytes up to the augmentation data, at \<open>c\<close>, and the whole record.\<close>

definition cie_head :: "cie_fields \<Rightarrow> u8 list" where
  "cie_head s = le_bytes 4 0 @ [cf_version s] @ (aug_string (cf_augs s) @ [0]) @ uleb_bytes (cf_code s) @ sleb_bytes (cf_data s) @
     (if cf_version s = 1 then [of_nat (cf_return s)] else uleb_bytes (cf_return s))"

definition cie_body :: "nat \<Rightarrow> cie_fields \<Rightarrow> u8 list" where
  "cie_body c s = cie_head s @ aug_section (c + length (cie_head s)) (cf_augs s) @ cf_ins s"

definition cie_bytes :: "nat \<Rightarrow> cie_fields \<Rightarrow> u8 list" where
  "cie_bytes c s = le_bytes 4 (length (cie_body (c + 4) s)) @ cie_body (c + 4) s"

definition cie_ok :: "nat \<Rightarrow> cie_fields \<Rightarrow> bool" where
  "cie_ok c s \<longleftrightarrow> (cf_version s = 1 \<and> cf_return s < 256 \<or> cf_version s = 3 \<and> cf_return s < 2 ^ 31) \<and>
     cf_code s < 2 ^ 31 \<and> -(2 ^ 27) \<le> cf_data s \<and> cf_data s < 2 ^ 31 \<and>
     aug_section_ok (c + 4 + length (cie_head s)) (cf_augs s) \<and> length (cie_body (c + 4) s) < 0xffffffff"

definition cie_of :: "nat \<Rightarrow> cie_fields \<Rightarrow> DWARFCIERecord" where
  "cie_of c s = (aug_fields (cf_augs s) (zero_cie\<lparr>cie_length := of_nat (length (cie_body (c + 4) s)), version := cf_version s,
       augmentation := Some (aug_string (cf_augs s)), codeAlignFactor := of_nat (cf_code s),
       dataAlignFactor := of_int (cf_data s), returnAddressRegister := of_nat (cf_return s)\<rparr>))
     \<lparr>cie_instructions := \<lparr>ins_length = of_nat (length (cf_ins s)), ins_data = c + length (cie_bytes c s) - length (cf_ins s)\<rparr>\<rparr>"

lemma no_zero: "0 \<notin> set (aug_string a)"
proof -
  have "aug_char x \<noteq> 0" for x by (cases x) simp_all
  then show ?thesis by (cases a) (auto simp: image_iff dest: sym)
qed

lemma parse_section:
  assumes "holds m c (aug_section c a)" "aug_section_ok c a" "augmentation r = Some (aug_string a)" "0 < c"
  shows "FIRCLSDwarfParseAndProcessAugmentation m r c = Some ((True, aug_fields a r), c + length (aug_section c a))"
proof (cases a)
  case None
  with assms show ?thesis by (simp add: FIRCLSDwarfParseAndProcessAugmentation_def)
next
  case (Some as)
  let ?u = "uleb_bytes (augs_size as)"
  have h: "holds m c ?u" "augs_size as < 2 ^ 31" "holds m (c + length ?u) (augs_bytes (c + length ?u) as)"
      "augs_ok (c + length ?u) as"
    using assms by (simp_all add: Some)
  have "unat (of_nat (augs_size as) :: u64) = augs_size as"
    using h(2) by (simp add: unat_of_nat)
  then show ?thesis
    using assms(3,4) uleb_parse[OF h(1,2)] augmentation_loop_bytes[OF h(3,4)]
    by (simp add: FIRCLSDwarfParseAndProcessAugmentation_def Some length_augs_bytes add.assoc)
qed

lemma instructions_between: "p + n = q \<Longrightarrow> instructions_between p q = \<lparr>ins_length = of_nat n, ins_data = p\<rparr>"
  by (auto simp: instructions_between_def)

lemma parse_cie:
  assumes "holds m c (cie_bytes c s)" "cie_ok c s" "0 < c"
  shows "FIRCLSDwarfParseCIERecord m cie c = Some (True, cie_of c s)"
proof -
  let ?b = "cie_body (c + 4) s" and ?v = "cf_version s" and ?a = "cf_augs s"
  let ?t = "aug_string ?a" and ?code = "uleb_bytes (cf_code s)" and ?data = "sleb_bytes (cf_data s)"
  let ?ra = "if ?v = 1 then [of_nat (cf_return s)] else uleb_bytes (cf_return s)"
  define c1 where "c1 = c + 9"
  define c2 where "c2 = c1 + (length ?t + 1)"
  define c3 where "c3 = c2 + length ?code"
  define c4 where "c4 = c3 + length ?data"
  define c5 where "c5 = c4 + length ?ra"
  define c6 where "c6 = c5 + length (aug_section c5 ?a)"
  have hd: "c + 4 + length (cie_head s) = c5"
    by (simp add: cie_head_def c1_def c2_def c3_def c4_def c5_def)
  have b: "?b = cie_head s @ aug_section c5 ?a @ cf_ins s" by (simp add: cie_body_def hd)
  have h: "holds m c (le_bytes 4 (length ?b))" "holds m (c + 4) (le_bytes 4 0)" "m (c + 8) = Some ?v"
    "holds m c1 (?t @ [0])" "holds m c2 ?code" "holds m c3 ?data" "holds m c4 ?ra" "holds m c5 (aug_section c5 ?a)"
    using assms(1) by (simp_all add: cie_bytes_def cie_body_def cie_head_def c1_def c2_def c3_def c4_def c5_def ac_simps)
  have ok: "length ?b < 0xffffffff" "cf_code s < 2 ^ 31" "-(2 ^ 27) \<le> cf_data s" "cf_data s < 2 ^ 31" "aug_section_ok c5 ?a"
    "?v = 1 \<or> ?v = 3" "?v = 1 \<Longrightarrow> cf_return s < 256" "?v \<noteq> 1 \<Longrightarrow> cf_return s < 2 ^ 31"
    using assms(2) unfolding cie_ok_def hd by auto
  have ra: "return_register m ?v c4 = Some (of_nat (cf_return s), c5)"
    using h(7) ok(7,8) uleb_parse[of m c4 "cf_return s"]
    by (cases "?v = 1") (simp_all add: return_register_def c5_def parse_uint8 byte_u64)
  have len: "(of_nat (length ?b) :: u64) \<noteq> 0" "unat (of_nat (length ?b) :: u64) = length ?b"
    using length_word[OF _ ok(1)] by (simp_all add: b cie_head_def)
  have "c6 + length (cf_ins s) = c + 4 + length ?b" by (simp add: b c6_def flip: hd)
  note i = instructions_between[OF this]
  have "0 < c5" using hd assms(3) by linarith
  note sec = parse_section[OF h(8) ok(5) _ this, folded c6_def]
  have "FIRCLSParseUint32AndAdvance m (c + 4) = Some (0, 8 + c)" "FIRCLSParseUint8AndAdvance m (8 + c) = Some (?v, c1)"
    using parse_uint32[OF h(2)] parse_uint8[where m = m, OF h(3)] by (simp_all add: c1_def add.commute)
  note rd = parse_length[OF h(1) ok(1)] this parse_string[OF h(4) no_zero, folded c2_def]
    uleb_parse[OF h(5) ok(2), folded c3_def] sleb_parse[OF h(6) ok(3,4), folded c4_def]
  have "c + length (cie_bytes c s) - length (cf_ins s) = c6"
    by (simp add: cie_bytes_def b c6_def flip: hd)
  then show ?thesis
    using assms(3) ok(6) ra sec i
    by (auto simp: FIRCLSDwarfParseCIERecord_def rd len zero_cie_def cie_of_def)
qed

subsection \<open>The frame entry\<close>

record fde_fields =
  ff_start :: u64
  ff_range :: u64
  ff_data :: "u8 list"
  ff_ins :: "u8 list"

text \<open>The encoding of the addresses: the last one the augmentation gives, or absolute ones.\<close>

fun pointer_of :: "aug \<Rightarrow> pointer_format \<times> bool \<Rightarrow> pointer_format \<times> bool" where
  "pointer_of (Pointer f rel) p = (f, rel)"
| "pointer_of _ p = p"

definition cie_pointer :: "cie_fields \<Rightarrow> pointer_format \<times> bool" where
  "cie_pointer s = (case cf_augs s of None \<Rightarrow> (Absptr, False) | Some as \<Rightarrow> fold pointer_of as (Absptr, False))"

definition fde_section :: "cie_fields \<Rightarrow> fde_fields \<Rightarrow> u8 list" where
  "fde_section s t = (if cf_augs s = None then [] else uleb_bytes (length (ff_data t)) @ ff_data t)"

text \<open>The record at \<open>c\<close>, whose common entry is at \<open>a\<close>.\<close>

definition fde_body :: "nat \<Rightarrow> nat \<Rightarrow> cie_fields \<Rightarrow> fde_fields \<Rightarrow> u8 list" where
  "fde_body c a s t = (case cie_pointer s of (f, rel) \<Rightarrow>
     le_bytes 4 (c + 4 - a) @ address_bytes f rel (c + 8) (ff_start t) @ address_bytes f False 0 (ff_range t) @
     fde_section s t @ ff_ins t)"

definition fde_bytes :: "nat \<Rightarrow> nat \<Rightarrow> cie_fields \<Rightarrow> fde_fields \<Rightarrow> u8 list" where
  "fde_bytes c a s t = le_bytes 4 (length (fde_body c a s t)) @ fde_body c a s t"

definition fde_ok :: "nat \<Rightarrow> nat \<Rightarrow> cie_fields \<Rightarrow> fde_fields \<Rightarrow> bool" where
  "fde_ok c a s t \<longleftrightarrow> 0 < a \<and> a \<le> c \<and> c + 4 - a < 2 ^ 32 \<and> length (fde_body c a s t) < 0xffffffff \<and>
     address_fits (fst (cie_pointer s)) (snd (cie_pointer s)) (c + 8) (ff_start t) \<and> ff_start t \<noteq> CLS_INVALID_ADDRESS \<and>
     address_fits (fst (cie_pointer s)) False 0 (ff_range t) \<and> ff_range t \<noteq> CLS_INVALID_ADDRESS \<and>
     length (ff_data t) < 2 ^ 31"

definition fde_of :: "nat \<Rightarrow> nat \<Rightarrow> cie_fields \<Rightarrow> fde_fields \<Rightarrow> DWARFFDERecord" where
  "fde_of c a s t = \<lparr>fde_length = of_nat (length (fde_body c a s t)), cieOffset = of_nat (c + 4 - a),
     startAddress = ff_start t, rangeSize = ff_range t,
     fde_instructions = \<lparr>ins_length = of_nat (length (ff_ins t)), ins_data = c + length (fde_bytes c a s t) - length (ff_ins t)\<rparr>\<rparr>"

lemma pointer_of_fold:
  "pointerEncoding r = encoding_byte (fst p) (snd p) \<Longrightarrow>
     pointerEncoding (fold aug_field as r) = encoding_byte (fst (fold pointer_of as p)) (snd (fold pointer_of as p))"
proof (induction as arbitrary: r p)
  case (Cons a as)
  then show ?case by (cases a) simp_all
qed simp

lemma augs_keep [simp]:
  "cie_length (aug_fields a r) = cie_length r" "version (aug_fields a r) = version r"
  "augmentation (aug_fields a r) = augmentation r"
proof -
  have "cie_length (fold aug_field as r) = cie_length r \<and> version (fold aug_field as r) = version r \<and>
    augmentation (fold aug_field as r) = augmentation r" for as
  proof (induction as arbitrary: r)
    case (Cons x as)
    then show ?case by (cases x) simp_all
  qed simp
  then show "cie_length (aug_fields a r) = cie_length r" "version (aug_fields a r) = version r"
    "augmentation (aug_fields a r) = augmentation r"
    by (cases a; simp)+
qed

lemma cie_of_augmentation: "augmentation (cie_of c s) = Some (aug_string (cf_augs s))"
  by (simp add: cie_of_def)

lemma cie_of_pointer: "pointerEncoding (cie_of c s) = encoding_byte (fst (cie_pointer s)) (snd (cie_pointer s))"
proof (cases "cf_augs s")
  case None
  then show ?thesis by (simp add: cie_of_def cie_pointer_def zero_cie_def encoding_byte_def)
next
  case (Some as)
  have "pointerEncoding (fold aug_field as (zero_cie\<lparr>cie_length := n, version := v, augmentation := x, codeAlignFactor := y,
      dataAlignFactor := z, returnAddressRegister := w\<rparr>)) = encoding_byte (fst (cie_pointer s)) (snd (cie_pointer s))" for n v x y z w
    using pointer_of_fold[of _ "(Absptr, False)" as] by (simp add: cie_pointer_def Some zero_cie_def encoding_byte_def)
  then show ?thesis by (simp add: cie_of_def Some)
qed

lemma cie_of_valid: "cie_ok c s \<Longrightarrow> FIRCLSDwarfCIEIsValid (cie_of c s)"
  using length_word[of "length (cie_body (c + 4) s)"]
  by (auto simp: FIRCLSDwarfCIEIsValid_def cie_of_def cie_ok_def) (simp_all add: cie_body_def cie_head_def)

lemma cie_of_augmented: "FIRCLSDwarfCIEHasAugmentationData (cie_of c s) \<longleftrightarrow> cf_augs s \<noteq> None"
  by (cases "cf_augs s") (simp_all add: FIRCLSDwarfCIEHasAugmentationData_def cie_of_augmentation)

lemma parse_range:
  assumes "holds m c (address_bytes f False 0 v)" "address_fits f False 0 v" "0 < c"
  shows "FIRCLSParseAddressWithEncodingAndAdvance m (format_byte f) c = Some (v, c + format_size f)"
  using parse_address[of m c f False v] assms by (simp add: address_bytes_def address_fits_def encoding_byte_def)

lemma parse_fde:
  assumes "holds m a (cie_bytes a s)" "cie_ok a s" "holds m c (fde_bytes c a s t)" "fde_ok c a s t"
  shows "FIRCLSDwarfParseFDERecord m fde True cie c = Some (True, fde_of c a s t, cie_of a s)"
proof -
  obtain f rel where p: "cie_pointer s = (f, rel)" by (cases "cie_pointer s") auto
  let ?b = "fde_body c a s t"
  define c1 where "c1 = c + 8 + format_size f"
  define c2 where "c2 = c1 + format_size f"
  define c3 where "c3 = c2 + length (fde_section s t)"
  have h: "holds m c (le_bytes 4 (length ?b))" "holds m (c + 4) (le_bytes 4 (c + 4 - a))"
    "holds m (c + 8) (address_bytes f rel (c + 8) (ff_start t))" "holds m c1 (address_bytes f False 0 (ff_range t))"
    "holds m c2 (fde_section s t)"
    using assms(3) by (simp_all add: fde_bytes_def fde_body_def p c1_def c2_def ac_simps)
  have ok: "0 < a" "a \<le> c" "c + 4 - a < 2 ^ 32" "length ?b < 0xffffffff" "address_fits f rel (c + 8) (ff_start t)"
    "ff_start t \<noteq> CLS_INVALID_ADDRESS" "address_fits f False 0 (ff_range t)" "ff_range t \<noteq> CLS_INVALID_ADDRESS"
    "length (ff_data t) < 2 ^ 31"
    using assms(4) by (simp_all add: fde_ok_def p)
  have len: "(of_nat (length ?b) :: u64) \<noteq> 0" "unat (of_nat (length ?b) :: u64) = length ?b"
    using length_word[OF _ ok(4)] by (simp_all add: fde_body_def p)
  have off: "(of_nat (c + 4 - a) :: u32) \<noteq> 0" "unat (of_nat (c + 4 - a) :: u32) = c + 4 - a"
    "(ucast (of_nat (c + 4 - a) :: u32) :: u64) = of_nat (c + 4 - a)"
    using ok(2,3) by (simp_all add: word_unat_eq_iff unat_of_nat unsigned_ucast_eq take_bit_eq_mod del: of_nat_diff)
  have at: "\<not> 4 + c < c + 4 - a" "4 + c - (c + 4 - a) = a" using ok(1,2) by simp_all
  have skip: "skip_augmentation m (cie_of a s) c2 = Some c3"
    using h(5) ok(9) uleb_parse[of m c2 "length (ff_data t)"]
    by (simp add: skip_augmentation_def cie_of_augmented fde_section_def c3_def unat_of_nat split: if_splits)
  have "c3 + length (ff_ins t) = c + 4 + length ?b"
    by (simp add: c3_def c2_def c1_def fde_body_def p)
  note i = instructions_between[OF this]
  have "c + length (fde_bytes c a s t) - length (ff_ins t) = c3"
    by (simp add: fde_bytes_def c3_def c2_def c1_def fde_body_def p)
  have "FIRCLSParseUint32AndAdvance m (c + 4) = Some (of_nat (c + 4 - a), 8 + c)"
    "FIRCLSParseAddressWithEncodingAndAdvance m (encoding_byte f rel) (8 + c) = Some (ff_start t, c1)"
    using parse_uint32[OF h(2) ok(3)] parse_address[OF h(3) ok(5)] by (simp_all add: c1_def add.commute add.left_commute)
  note rd = parse_length[OF h(1) ok(4)] this parse_range[OF h(4) ok(7), folded c2_def] parse_cie[OF assms(1,2) ok(1)]
  have "0 < c" "0 < c1" using ok by (simp_all add: c1_def)
  then show ?thesis
    using \<open>c + length _ - _ = c3\<close> ok(6,8) skip i cie_of_valid[OF assms(2)]
    by (simp add: FIRCLSDwarfParseFDERecord_def rd len off at cie_of_pointer p encoding_parts fde_of_def)
qed

lemma parse_cfi:
  assumes "cie_ok a s" "fde_ok (ehFrame + n) a s t" "0 < ehFrame" "0 < n"
    "holds m a (cie_bytes a s)" "holds m (ehFrame + n) (fde_bytes (ehFrame + n) a s t)"
  shows "FIRCLSDwarfParseCFIFromFDERecordOffset m r ehFrame n
    = Some (True, \<lparr>cfi_cie = cie_of a s, cfi_fde = fde_of (ehFrame + n) a s t\<rparr>)"
  using assms(3,4) parse_fde[OF assms(5,1,6,2)]
  by (simp add: FIRCLSDwarfParseCFIFromFDERecordOffset_def FIRCLSDwarfParseCFIFromFDERecord_def)

text \<open>
  C27: Frame records. When an \<open>eh_frame\<close> section holds the bytes of a common entry (version 1 or
  3, any sequence of the augmentations L, R, P and S, or none) and, at an offset, those of a frame entry
  that refers back to it, parsing at that offset succeeds with exactly their fields, the addresses
  decoded from the encoding the augmentation chose, and the extents of both instruction sequences.
\<close>

theorem frame_record_roundtrip:
  assumes "cie_ok a s" "fde_ok (ehFrame + n) a s t" "0 < ehFrame" "0 < n"
    "holds m a (cie_bytes a s)" "holds m (ehFrame + n) (fde_bytes (ehFrame + n) a s t)"
  shows "FIRCLSDwarfParseCFIFromFDERecordOffset m r ehFrame n
    = Some (True, \<lparr>cfi_cie = cie_of a s, cfi_fde = fde_of (ehFrame + n) a s t\<rparr>)"
  by (rule parse_cfi[OF assms])

text \<open>A section at 4096: a common entry with augmentation \<open>zR\<close> and the frame entry of a function.\<close>

definition sample_cie :: cie_fields where
  "sample_cie = \<lparr>cf_version = 1, cf_augs = Some [Pointer Sdata4 True], cf_code = 1, cf_data = -8, cf_return = 30,
     cf_ins = [0x0C, 31, 0]\<rparr>"

definition sample_fde :: fde_fields where
  "sample_fde = \<lparr>ff_start = 0x1100, ff_range = 0x40, ff_data = [], ff_ins = [0x44, 0x0E, 16, 0x9E, 1, 0x9D, 2]\<rparr>"

definition sample_section :: memory where
  "sample_section = segment 4096 (cie_bytes 4096 sample_cie @ fde_bytes 4116 4096 sample_cie sample_fde)"

definition no_record :: FIRCLSDwarfCFIRecord where
  "no_record = \<lparr>cfi_cie = zero_cie, cfi_fde = \<lparr>fde_length = 0, cieOffset = 0, startAddress = 0, rangeSize = 0,
     fde_instructions = no_instructions\<rparr>\<rparr>"

lemma le_bytes_numeral [simp]: "le_bytes (numeral k) v = of_nat (v mod 256) # le_bytes (pred_numeral k) (v div 256)"
  by (metis le_bytes.simps(2) numeral_eq_Suc)

lemma sample_bytes:
  "cie_bytes 4096 sample_cie = [16, 0, 0, 0, 0, 0, 0, 0, 1, 0x7A, 0x52, 0, 1, 0x78, 30, 1, 0x1B, 0x0C, 31, 0]"
  "fde_bytes 4116 4096 sample_cie sample_fde
    = [20, 0, 0, 0, 24, 0, 0, 0, 0xE4, 0, 0, 0, 0x40, 0, 0, 0, 0, 0x44, 0x0E, 16, 0x9E, 1, 0x9D, 2]"
proof -
  have d: "sleb_bytes (-8) = [0x78]" by (simp add: sleb_bytes.simps)
  show "cie_bytes 4096 sample_cie = [16, 0, 0, 0, 0, 0, 0, 0, 1, 0x7A, 0x52, 0, 1, 0x78, 30, 1, 0x1B, 0x0C, 31, 0]"
    by (simp add: cie_bytes_def cie_body_def cie_head_def sample_cie_def d encoding_byte_def uleb_small)
  show "fde_bytes 4116 4096 sample_cie sample_fde
    = [20, 0, 0, 0, 24, 0, 0, 0, 0xE4, 0, 0, 0, 0x40, 0, 0, 0, 0, 0x44, 0x0E, 16, 0x9E, 1, 0x9D, 2]"
    by (simp add: fde_bytes_def fde_body_def cie_pointer_def fde_section_def sample_cie_def sample_fde_def
        address_bytes_def format_bytes_def uleb_small)
qed

lemma sample_ok:
  "cie_ok 4096 sample_cie" "fde_ok 4116 4096 sample_cie sample_fde"
  "holds sample_section 4096 (cie_bytes 4096 sample_cie)"
  "holds sample_section 4116 (fde_bytes 4116 4096 sample_cie sample_fde)"
proof -
  have "length (cie_body 4100 sample_cie) = 16" using arg_cong[OF sample_bytes(1), of length] by (simp add: cie_bytes_def)
  then show "cie_ok 4096 sample_cie" by (simp add: cie_ok_def) (simp add: sample_cie_def)
  have "length (fde_body 4116 4096 sample_cie sample_fde) = 20"
    using arg_cong[OF sample_bytes(2), of length] by (simp add: fde_bytes_def)
  then show "fde_ok 4116 4096 sample_cie sample_fde"
    by (simp add: fde_ok_def) (simp add: sample_cie_def sample_fde_def cie_pointer_def address_fits_def CLS_INVALID_ADDRESS_def)
  show "holds sample_section 4096 (cie_bytes 4096 sample_cie)"
    "holds sample_section 4116 (fde_bytes 4116 4096 sample_cie sample_fde)"
    using segment_holds[of 0 "cie_bytes 4096 sample_cie" "cie_bytes 4096 sample_cie @ fde_bytes 4116 4096 sample_cie sample_fde" 4096]
      segment_holds[of 20 "fde_bytes 4116 4096 sample_cie sample_fde" "cie_bytes 4096 sample_cie @ fde_bytes 4116 4096 sample_cie sample_fde" 4096]
    by (simp_all add: sample_section_def sample_bytes)
qed

lemma frame_record_roundtrip_witness:
  "FIRCLSDwarfParseCFIFromFDERecordOffset sample_section no_record 4096 20
    = Some (True, \<lparr>cfi_cie = cie_of 4096 sample_cie, cfi_fde = fde_of 4116 4096 sample_cie sample_fde\<rparr>)"
  using frame_record_roundtrip[of 4096 sample_cie 4096 20 sample_fde sample_section no_record] sample_ok by simp

end
