(* ===== verification/Dwarf_Cfi_Spec.thy ===== *)
theory Dwarf_Cfi_Spec
  imports Dwarf_Cfi Dwarf_Record_Bytes
begin

text \<open>
  What call frame instructions mean: instructions as a datatype, their bytes, the effect the code
  gives them on a row of unwind rules, and the meaning the DWARF standard gives them. Where the two
  agree is spelled out as a condition on programs.
\<close>

subsection \<open>Rows\<close>

text \<open>How the caller's value of a register is found; an expression is named by its address.\<close>

datatype saved = Unchanged | SavedAt u64 | SavedIn nat | SavedAtExpression nat | ValueOfExpression nat

record row =
  row_register :: nat
  row_offset :: u64
  row_expression :: "nat option"
  row_rules :: "nat \<Rightarrow> saved"

definition abs_rule :: "dwarf_register \<Rightarrow> saved" where
  "abs_rule r =
     (case location r of
        FIRCLSDwarfRegisterInCFA \<Rightarrow> SavedAt (reg_value r)
      | FIRCLSDwarfRegisterInRegister \<Rightarrow> SavedIn (unat (reg_value r))
      | FIRCLSDwarfRegisterAtExpression \<Rightarrow> SavedAtExpression (unat (reg_value r))
      | FIRCLSDwarfRegisterIsExpression \<Rightarrow> ValueOfExpression (unat (reg_value r))
      | _ \<Rightarrow> Unchanged)"

definition abs_row :: "dwarf_state \<Rightarrow> row" where
  "abs_row s = \<lparr>row_register = unat (cfaRegister s), row_offset = cfaRegisterOffset s,
     row_expression = (if cfaExpression s = 0 then None else Some (cfaExpression s)),
     row_rules = (\<lambda>n. if n \<le> CLS_DWARF_MAX_REGISTER_NUM then abs_rule (rules s ! n) else Unchanged)\<rparr>"

subsection \<open>Instructions and their bytes\<close>

datatype cfi_op = Nop | SetLoc u64 | Advance nat | Advance1 nat | Advance2 nat | Advance4 nat |
  DefCfa nat nat | DefCfaRegister nat | DefCfaOffset nat | DefCfaExpression "u8 list" | SameValue nat |
  InRegister nat nat | Expression nat "u8 list" | ValExpression nat "u8 list" | OffsetAt nat nat |
  Refused u8

text \<open>
  \<open>Refused\<close> is any instruction that the unwinder does not implement, by its first byte: those it
  lists, \<open>DW_CFA_restore\<close>, and bytes that are no instruction.
\<close>

definition implemented :: "u8 list" where
  "implemented = [DW_CFA_nop, DW_CFA_set_loc, DW_CFA_advance_loc1, DW_CFA_advance_loc2, DW_CFA_advance_loc4,
     DW_CFA_same_value, DW_CFA_register, DW_CFA_def_cfa, DW_CFA_def_cfa_register, DW_CFA_def_cfa_offset,
     DW_CFA_def_cfa_expression, DW_CFA_expression, DW_CFA_val_expression]"

definition refused :: "u8 \<Rightarrow> bool" where
  "refused b \<longleftrightarrow> b \<notin> set implemented \<and> b AND DW_CFA_OPCODE_MASK \<noteq> DW_CFA_advance_loc \<and>
     b AND DW_CFA_OPCODE_MASK \<noteq> DW_CFA_offset"

text \<open>\<open>p\<close> is the address encoding of the common entry, \<open>c\<close> the address of the instruction.\<close>

fun cfi_bytes :: "pointer_format \<times> bool \<Rightarrow> nat \<Rightarrow> cfi_op \<Rightarrow> u8 list" where
  "cfi_bytes p c Nop = [DW_CFA_nop]"
| "cfi_bytes p c (SetLoc v) = DW_CFA_set_loc # address_bytes (fst p) (snd p) (c + 1) v"
| "cfi_bytes p c (Advance n) = [DW_CFA_advance_loc + of_nat n]"
| "cfi_bytes p c (Advance1 n) = [DW_CFA_advance_loc1, of_nat n]"
| "cfi_bytes p c (Advance2 n) = DW_CFA_advance_loc2 # le_bytes 2 n"
| "cfi_bytes p c (Advance4 n) = DW_CFA_advance_loc4 # le_bytes 4 n"
| "cfi_bytes p c (DefCfa r n) = DW_CFA_def_cfa # uleb_bytes r @ uleb_bytes n"
| "cfi_bytes p c (DefCfaRegister r) = DW_CFA_def_cfa_register # uleb_bytes r"
| "cfi_bytes p c (DefCfaOffset n) = DW_CFA_def_cfa_offset # uleb_bytes n"
| "cfi_bytes p c (DefCfaExpression e) = DW_CFA_def_cfa_expression # uleb_bytes (length e) @ e"
| "cfi_bytes p c (SameValue r) = DW_CFA_same_value # uleb_bytes r"
| "cfi_bytes p c (InRegister r q) = DW_CFA_register # uleb_bytes r @ uleb_bytes q"
| "cfi_bytes p c (Expression r e) = DW_CFA_expression # uleb_bytes r @ uleb_bytes (length e) @ e"
| "cfi_bytes p c (ValExpression r e) = DW_CFA_val_expression # uleb_bytes r @ uleb_bytes (length e) @ e"
| "cfi_bytes p c (OffsetAt r n) = (DW_CFA_offset + of_nat r) # uleb_bytes n"
| "cfi_bytes p c (Refused b) = [b]"

fun cfi_ok :: "pointer_format \<times> bool \<Rightarrow> nat \<Rightarrow> cfi_op \<Rightarrow> bool" where
  "cfi_ok p c Nop \<longleftrightarrow> True"
| "cfi_ok p c (SetLoc v) \<longleftrightarrow> address_fits (fst p) (snd p) (c + 1) v"
| "cfi_ok p c (Advance n) \<longleftrightarrow> n < 64"
| "cfi_ok p c (Advance1 n) \<longleftrightarrow> n < 2 ^ 8"
| "cfi_ok p c (Advance2 n) \<longleftrightarrow> n < 2 ^ 16"
| "cfi_ok p c (Advance4 n) \<longleftrightarrow> n < 2 ^ 32"
| "cfi_ok p c (DefCfa r n) \<longleftrightarrow> r < 2 ^ 31 \<and> n < 2 ^ 31"
| "cfi_ok p c (DefCfaRegister r) \<longleftrightarrow> r < 2 ^ 31"
| "cfi_ok p c (DefCfaOffset n) \<longleftrightarrow> n < 2 ^ 31"
| "cfi_ok p c (DefCfaExpression e) \<longleftrightarrow> length e < 2 ^ 31"
| "cfi_ok p c (SameValue r) \<longleftrightarrow> r < 2 ^ 31"
| "cfi_ok p c (InRegister r q) \<longleftrightarrow> r < 2 ^ 31 \<and> q < 2 ^ 31"
| "cfi_ok p c (Expression r e) \<longleftrightarrow> r < 2 ^ 31 \<and> length e < 2 ^ 31"
| "cfi_ok p c (ValExpression r e) \<longleftrightarrow> r < 2 ^ 31 \<and> length e < 2 ^ 31"
| "cfi_ok p c (OffsetAt r n) \<longleftrightarrow> r < 64 \<and> n < 2 ^ 31"
| "cfi_ok p c (Refused b) \<longleftrightarrow> refused b"

subsection \<open>Their effect\<close>

text \<open>
  What the code does to a row and the code offset it is for; \<open>None\<close> when the instruction is refused
  or names a register the machine does not have. \<open>Advance\<close> sets the offset, and the expression of a
  frame address is never taken back, as in the code.
\<close>

abbreviation (input) has_register :: "nat \<Rightarrow> bool" where "has_register r \<equiv> r \<le> CLS_DWARF_MAX_REGISTER_NUM"

definition set_saved :: "nat \<Rightarrow> saved \<Rightarrow> row \<Rightarrow> row" where
  "set_saved r v w = w\<lparr>row_rules := (row_rules w)(r := v)\<rparr>"

fun cfi_effect :: "DWARFCIERecord \<Rightarrow> nat \<Rightarrow> cfi_op \<Rightarrow> row \<times> u64 \<Rightarrow> (row \<times> u64) option" where
  "cfi_effect cie c Nop (w, l) = Some (w, l)"
| "cfi_effect cie c (SetLoc v) (w, l) = Some (w, v)"
| "cfi_effect cie c (Advance n) (w, l) = Some (w, of_nat n * codeAlignFactor cie)"
| "cfi_effect cie c (Advance1 n) (w, l) = Some (w, l + of_nat n * codeAlignFactor cie)"
| "cfi_effect cie c (Advance2 n) (w, l) = Some (w, l + of_nat n * codeAlignFactor cie)"
| "cfi_effect cie c (Advance4 n) (w, l) = Some (w, l + of_nat n * codeAlignFactor cie)"
| "cfi_effect cie c (DefCfa r n) (w, l) =
     (if has_register r then Some (w\<lparr>row_register := r, row_offset := of_nat n\<rparr>, l) else None)"
| "cfi_effect cie c (DefCfaRegister r) (w, l) = (if has_register r then Some (w\<lparr>row_register := r\<rparr>, l) else None)"
| "cfi_effect cie c (DefCfaOffset n) (w, l) = Some (w\<lparr>row_offset := of_nat n\<rparr>, l)"
| "cfi_effect cie c (DefCfaExpression e) (w, l) =
     Some (w\<lparr>row_register := CLS_DWARF_INVALID_REGISTER_NUM, row_expression := Some (c + 1)\<rparr>, l)"
| "cfi_effect cie c (SameValue r) (w, l) = (if has_register r then Some (set_saved r Unchanged w, l) else None)"
| "cfi_effect cie c (InRegister r q) (w, l) =
     (if has_register r \<and> has_register q then Some (set_saved r (SavedIn q) w, l) else None)"
| "cfi_effect cie c (Expression r e) (w, l) =
     (if has_register r then Some (set_saved r (SavedAtExpression (c + 1 + length (uleb_bytes r))) w, l) else None)"
| "cfi_effect cie c (ValExpression r e) (w, l) =
     (if has_register r then Some (set_saved r (ValueOfExpression (c + 1 + length (uleb_bytes r))) w, l) else None)"
| "cfi_effect cie c (OffsetAt r n) (w, l) =
     (if has_register r then Some (set_saved r (SavedAt (of_nat n * dataAlignFactor cie)) w, l) else None)"
| "cfi_effect cie c (Refused b) (w, l) = None"

text \<open>Instructions run while the code offset is below a limit.\<close>

fun cfis_bytes :: "pointer_format \<times> bool \<Rightarrow> nat \<Rightarrow> cfi_op list \<Rightarrow> u8 list" where
  "cfis_bytes p c [] = []"
| "cfis_bytes p c (i # is) = cfi_bytes p c i @ cfis_bytes p (c + length (cfi_bytes p c i)) is"

fun cfis_ok :: "pointer_format \<times> bool \<Rightarrow> nat \<Rightarrow> cfi_op list \<Rightarrow> bool" where
  "cfis_ok p c [] \<longleftrightarrow> True"
| "cfis_ok p c (i # is) \<longleftrightarrow> cfi_ok p c i \<and> cfis_ok p (c + length (cfi_bytes p c i)) is"

fun cfis_effect :: "DWARFCIERecord \<Rightarrow> pointer_format \<times> bool \<Rightarrow> u64 \<Rightarrow> nat \<Rightarrow> cfi_op list \<Rightarrow> row \<times> u64 \<Rightarrow> row option" where
  "cfis_effect cie p limit c [] (w, l) = Some w"
| "cfis_effect cie p limit c (i # is) (w, l) =
     (if sint l < sint limit
      then Option.bind (cfi_effect cie c i (w, l)) (cfis_effect cie p limit (c + length (cfi_bytes p c i)) is)
      else Some w)"

subsection \<open>Their meaning\<close>

text \<open>
  What the standard says: every advance is relative to the offset so far, and \<open>DW_CFA_def_cfa\<close>
  replaces whatever defined the frame address before. (\<open>DW_CFA_def_cfa_register\<close> and
  \<open>DW_CFA_def_cfa_offset\<close> are only valid where a register and an offset define it, and
  \<open>DW_CFA_set_loc\<close> gives an address, which the offsets here cannot express: neither occurs in the
  programs of the theorems below.)
\<close>

fun cfi_meaning :: "DWARFCIERecord \<Rightarrow> nat \<Rightarrow> cfi_op \<Rightarrow> row \<times> u64 \<Rightarrow> (row \<times> u64) option" where
  "cfi_meaning cie c (Advance n) (w, l) = Some (w, l + of_nat n * codeAlignFactor cie)"
| "cfi_meaning cie c (DefCfa r n) (w, l) =
     (if has_register r then Some (w\<lparr>row_register := r, row_offset := of_nat n, row_expression := None\<rparr>, l) else None)"
| "cfi_meaning cie c i wl = cfi_effect cie c i wl"

fun cfis_meaning :: "DWARFCIERecord \<Rightarrow> pointer_format \<times> bool \<Rightarrow> u64 \<Rightarrow> nat \<Rightarrow> cfi_op list \<Rightarrow> row \<times> u64 \<Rightarrow> row option" where
  "cfis_meaning cie p limit c [] (w, l) = Some w"
| "cfis_meaning cie p limit c (i # is) (w, l) =
     (if sint l < sint limit
      then Option.bind (cfi_meaning cie c i (w, l)) (cfis_meaning cie p limit (c + length (cfi_bytes p c i)) is)
      else Some w)"

text \<open>
  The programs to which the code gives their meaning. Of the instructions that are run before the
  limit, none sets the location to an address; a register or offset of the frame address is only
  set while no expression defines it; and \<open>DW_CFA_advance_loc\<close> is only run while the offset is 0 or
  when the limit lies behind all the code that the rest of the program describes.
\<close>

fun advanced :: "cfi_op \<Rightarrow> nat" where
  "advanced (Advance n) = n"
| "advanced (Advance1 n) = n"
| "advanced (Advance2 n) = n"
| "advanced (Advance4 n) = n"
| "advanced i = 0"

definition stays_before :: "DWARFCIERecord \<Rightarrow> u64 \<Rightarrow> u64 \<Rightarrow> cfi_op list \<Rightarrow> bool" where
  "stays_before cie limit l is \<longleftrightarrow>
     0 \<le> sint limit \<and> unat l + sum_list (map advanced is) * unat (codeAlignFactor cie) < unat limit"

fun cfi_regular :: "DWARFCIERecord \<Rightarrow> u64 \<Rightarrow> cfi_op \<Rightarrow> cfi_op list \<Rightarrow> row \<times> u64 \<Rightarrow> bool" where
  "cfi_regular cie limit (SetLoc v) is (w, l) \<longleftrightarrow> False"
| "cfi_regular cie limit (Advance n) is (w, l) \<longleftrightarrow> l = 0 \<or> stays_before cie limit l (Advance n # is)"
| "cfi_regular cie limit (DefCfa r n) is (w, l) \<longleftrightarrow> row_expression w = None"
| "cfi_regular cie limit (DefCfaRegister r) is (w, l) \<longleftrightarrow> row_expression w = None"
| "cfi_regular cie limit (DefCfaOffset n) is (w, l) \<longleftrightarrow> row_expression w = None"
| "cfi_regular cie limit i is (w, l) \<longleftrightarrow> True"

fun cfis_regular :: "DWARFCIERecord \<Rightarrow> pointer_format \<times> bool \<Rightarrow> u64 \<Rightarrow> nat \<Rightarrow> cfi_op list \<Rightarrow> row \<times> u64 \<Rightarrow> bool" where
  "cfis_regular cie p limit c [] (w, l) \<longleftrightarrow> True"
| "cfis_regular cie p limit c (i # is) (w, l) \<longleftrightarrow>
     (if sint l < sint limit
      then cfi_regular cie limit i is (w, l) \<and>
        (case cfi_meaning cie c i (w, l) of None \<Rightarrow> True
         | Some r \<Rightarrow> cfis_regular cie p limit (c + length (cfi_bytes p c i)) is r)
      else True)"

lemma below_signed:
  fixes a b :: u64
  assumes b: "0 \<le> sint b" and ab: "unat a < unat b"
  shows "sint a < sint b"
proof -
  have "sint b < 2 ^ 63" using sint_lt[of b] by simp
  then have "uint b = sint b" using b by (simp add: uint_sint take_bit_int_eq_self)
  moreover have "sint a \<le> uint a"
    using order_trans[OF _ uint_ge_0[of a], of "- (2 ^ 63)"] by (simp add: sint_uint signed_take_bit_int_less_eq_self_iff)
  ultimately show ?thesis using ab by (simp add: word_less_nat_alt[symmetric] word_less_def)
qed

lemma unat_advance:
  fixes l caf :: u64
  assumes "unat l + n * unat caf < 2 ^ 64"
  shows "unat (l + of_nat n * caf) = unat l + n * unat caf"
proof -
  have "l + of_nat n * caf = of_nat (unat l + n * unat caf)" by simp
  then show ?thesis using assms by (simp only: unat_of_nat) simp
qed

lemma stays_before_step:
  assumes "stays_before cie limit l (i # is)"
  shows "stays_before cie limit (l + of_nat (advanced i) * codeAlignFactor cie) is"
    "stays_before cie limit (of_nat (advanced i) * codeAlignFactor cie) is" "sint l < sint limit"
proof -
  let ?c = "unat (codeAlignFactor cie)"
  have b: "0 \<le> sint limit" "unat l + advanced i * ?c + sum_list (map advanced is) * ?c < unat limit"
    using assms by (simp_all add: stays_before_def algebra_simps)
  have "unat limit < 2 ^ 64" using unat_lt2p_aux[of limit] by simp
  then have u: "unat (l + of_nat (advanced i) * codeAlignFactor cie) = unat l + advanced i * ?c"
    "unat (0 + of_nat (advanced i) * codeAlignFactor cie) = unat (0 :: u64) + advanced i * ?c"
    using b(2) by (intro unat_advance; simp)+
  show "stays_before cie limit (l + of_nat (advanced i) * codeAlignFactor cie) is"
    "stays_before cie limit (of_nat (advanced i) * codeAlignFactor cie) is" "sint l < sint limit"
    using b u below_signed[of limit l] by (simp_all add: stays_before_def)
qed

lemma row_expression_none:
  "row_expression w = None \<Longrightarrow> w\<lparr>row_register := r, row_offset := n, row_expression := None\<rparr> = w\<lparr>row_register := r, row_offset := n\<rparr>"
  by (cases w) simp

text \<open>Two offsets that stay before the limit are advanced apart without crossing it.\<close>

abbreviation (input) both_before :: "DWARFCIERecord \<Rightarrow> u64 \<Rightarrow> cfi_op list \<Rightarrow> u64 \<Rightarrow> u64 \<Rightarrow> bool" where
  "both_before cie limit is k l \<equiv> k = l \<or> stays_before cie limit k is \<and> stays_before cie limit l is"

lemma effect_meaning:
  assumes "cfi_regular cie limit i is (w, l)" "both_before cie limit (i # is) k l"
  shows "cfi_effect cie c i (w, k) = None \<and> cfi_meaning cie c i (w, l) = None \<or>
    (\<exists>w' k' l'. cfi_effect cie c i (w, k) = Some (w', k') \<and> cfi_meaning cie c i (w, l) = Some (w', l') \<and> both_before cie limit is k' l')"
proof -
  note step = stays_before_step(1,2)[of cie limit k i "is"] stays_before_step(1,2)[of cie limit l i "is"]
  show ?thesis
  proof (cases i)
    case (Advance n)
    with assms step show ?thesis by auto
  next
    case (DefCfa r n)
    with assms step show ?thesis by (auto simp: row_expression_none)
  qed (use assms step in auto)
qed

lemma regular_effect:
  "cfis_regular cie p limit c is (w, l) \<Longrightarrow> both_before cie limit is k l \<Longrightarrow>
   cfis_effect cie p limit c is (w, k) = cfis_meaning cie p limit c is (w, l)"
proof (induction "is" arbitrary: c w l k)
  case (Cons i "is")
  have k: "sint k < sint limit \<longleftrightarrow> sint l < sint limit" using Cons.prems(2) stays_before_step(3) by blast
  show ?case
  proof (cases "sint l < sint limit")
    case True
    with Cons.prems(1) have r: "cfi_regular cie limit i is (w, l)"
      "case cfi_meaning cie c i (w, l) of None \<Rightarrow> True | Some r \<Rightarrow> cfis_regular cie p limit (c + length (cfi_bytes p c i)) is r"
      by simp_all
    show ?thesis
    proof (cases "cfi_meaning cie c i (w, l)")
      case None
      with effect_meaning[OF r(1) Cons.prems(2), of c] True k show ?thesis by auto
    next
      case (Some m)
      with effect_meaning[OF r(1) Cons.prems(2), of c] obtain w' k' l' where
        e: "cfi_effect cie c i (w, k) = Some (w', k')" "m = (w', l')" and b: "both_before cie limit is k' l'" by auto
      from Some e(2) r(2) have "cfis_regular cie p limit (c + length (cfi_bytes p c i)) is (w', l')" by simp
      from Cons.IH[OF this b] True k e Some show ?thesis by simp
    qed
  qed (use k in simp)
qed simp

subsection \<open>Each instruction has its effect\<close>

lemma abs_set_rule:
  "state_ok s \<Longrightarrow> n \<le> 31 \<Longrightarrow> abs_row (set_rule n l v s) = set_saved n (abs_rule \<lparr>location = l, reg_value = v\<rparr>) (abs_row s)"
  by (auto simp: abs_row_def set_rule_def set_saved_def state_ok_def fun_eq_iff)

lemma abs_same_value:
  "state_ok s \<Longrightarrow> n \<le> 31 \<Longrightarrow> abs_row (set_location n FIRCLSDwarfRegisterUnused s) = set_saved n Unchanged (abs_row s)"
  by (auto simp: abs_row_def set_location_def set_saved_def state_ok_def fun_eq_iff abs_rule_def)

lemma operand_byte:
  assumes "n < 64"
  shows "(0x40 + of_nat n :: u8) AND 0xC0 = 0x40" "(0x80 + of_nat n :: u8) AND 0xC0 = 0x80"
    "(0x40 + of_nat n :: u8) AND 0x3F = of_nat n" "(0x80 + of_nat n :: u8) AND 0x3F = of_nat n"
proof -
  have "list_all (\<lambda>n. (0x40 + of_nat n :: u8) AND 0xC0 = 0x40 \<and> (0x80 + of_nat n :: u8) AND 0xC0 = 0x80 \<and>
    (0x40 + of_nat n :: u8) AND 0x3F = of_nat n \<and> (0x80 + of_nat n :: u8) AND 0x3F = of_nat n) [0..<64]"
    by code_simp
  with assms show "(0x40 + of_nat n :: u8) AND 0xC0 = 0x40" "(0x80 + of_nat n :: u8) AND 0xC0 = 0x80"
    "(0x40 + of_nat n :: u8) AND 0x3F = of_nat n" "(0x80 + of_nat n :: u8) AND 0x3F = of_nat n"
    by (simp_all add: list_all_iff)
qed

lemma known_of_nat: "r < 2 ^ 31 \<Longrightarrow> known_register (of_nat r) \<longleftrightarrow> r \<le> 31" "r < 2 ^ 31 \<Longrightarrow> unat (of_nat r :: u64) = r"
  by (simp_all add: known_register_def unat_of_nat)

lemma skip_expression:
  assumes "holds m c (uleb_bytes (length e) @ e)" "length e < 2 ^ 31"
  shows "skip_expression m c = Some (c + (length (uleb_bytes (length e)) + length e))"
  using assms uleb_parse[of m c "length e"] by (simp add: skip_expression_def known_of_nat)

text \<open>The outcome of an instruction, as a row with its code offset, and the new cursor.\<close>

definition instruction_outcome :: "(bool \<times> cfi_machine) option \<Rightarrow> ((row \<times> u64) \<times> nat) option option" where
  "instruction_outcome r = (case r of None \<Rightarrow> None
     | Some (ok, y) \<Rightarrow> Some (if ok then Some ((abs_row (cfi_state y), codeOffset y), cursor y) else None))"

lemma outcome_rule:
  "instruction_outcome (rule_step f x) = (case f (cfi_state x) (cursor x) of None \<Rightarrow> None
     | Some ((ok, s), c) \<Rightarrow> Some (if ok then Some ((abs_row s, codeOffset x), c) else None))"
  by (cases "f (cfi_state x) (cursor x)") (simp_all add: instruction_outcome_def rule_step_def split: prod.split)

lemma outcome_location:
  "instruction_outcome (location_step f x) = (case f (codeOffset x) (cursor x) of None \<Rightarrow> None
     | Some (l, c) \<Rightarrow> Some (Some ((abs_row (cfi_state x), l), c)))"
  by (cases "f (codeOffset x) (cursor x)") (simp_all add: instruction_outcome_def location_step_def split: prod.split)

definition means :: "DWARFCIERecord \<Rightarrow> pointer_format \<times> bool \<Rightarrow> cfi_machine \<Rightarrow> cfi_op \<Rightarrow> ((row \<times> u64) \<times> nat) option option" where
  "means cie p x i = Some (case cfi_effect cie (cursor x) i (abs_row (cfi_state x), codeOffset x) of None \<Rightarrow> None
     | Some r \<Rightarrow> Some (r, cursor x + length (cfi_bytes p (cursor x) i)))"

lemma first_byte: "m (cursor x) = Some b \<Longrightarrow> FIRCLSParseUint8AndAdvance m (cursor x) = Some (b, cursor x + 1)"
  by (simp add: FIRCLSParseUint8AndAdvance_def)

lemma abs_cfa:
  "abs_row (s\<lparr>cfaRegister := n, cfaRegisterOffset := v\<rparr>) = (abs_row s)\<lparr>row_register := unat n, row_offset := v\<rparr>"
  "abs_row (s\<lparr>cfaRegister := n\<rparr>) = (abs_row s)\<lparr>row_register := unat n\<rparr>"
  "abs_row (s\<lparr>cfaRegisterOffset := v\<rparr>) = (abs_row s)\<lparr>row_offset := v\<rparr>"
  "0 < c \<Longrightarrow> abs_row (s\<lparr>cfaRegister := n, cfaExpression := c\<rparr>) = (abs_row s)\<lparr>row_register := unat n, row_expression := Some c\<rparr>"
  by (simp_all add: abs_row_def cong: if_cong)

lemma location_means:
  assumes "holds m (cursor x) (cfi_bytes p (cursor x) i)" "cfi_ok p (cursor x) i"
    "pointerEncoding cie = encoding_byte (fst p) (snd p)"
    "i = Nop \<or> i = SetLoc v \<or> i = Advance1 n \<or> i = Advance2 n \<or> i = Advance4 n"
  shows "instruction_outcome (execute_instruction m cie x) = means cie p x i"
  using assms(4)
proof (elim disjE)
  assume "i = Nop"
  with assms show ?thesis by (simp add: execute_instruction_def first_byte instruction_outcome_def means_def)
next
  assume i: "i = SetLoc v"
  have "FIRCLSParseAddressWithEncodingAndAdvance m (encoding_byte (fst p) (snd p)) (cursor x + 1)
      = Some (v, cursor x + 1 + format_size (fst p))"
    using assms(1,2) by (intro parse_address) (simp_all add: i)
  with assms(1,3) i show ?thesis
    by (simp add: execute_instruction_def first_byte outcome_location means_def FIRCLSDwarfParseAndExecute_set_loc_def)
next
  assume i: "i = Advance1 n"
  with assms(1,2) show ?thesis
    by (simp add: execute_instruction_def first_byte outcome_location means_def FIRCLSDwarfParseAndExecute_advance_loc1_def
        parse_uint8 byte_u64)
next
  assume i: "i = Advance2 n"
  have "FIRCLSParseUint16AndAdvance m (cursor x + 1) = Some (of_nat n, cursor x + 1 + 2)"
    using assms(1,2) parse_le_bytes[of m "cursor x + 1" 2 n] by (simp add: i FIRCLSParseUint16AndAdvance_def del: le_bytes_numeral)
  moreover have "(ucast (of_nat n :: u16) :: u64) = of_nat n"
    using assms(2) by (simp add: i word_unat_eq_iff unat_of_nat unsigned_ucast_eq take_bit_eq_mod)
  ultimately show ?thesis
    using assms(1) by (simp add: i execute_instruction_def first_byte outcome_location means_def
        FIRCLSDwarfParseAndExecute_advance_loc2_def)
next
  assume i: "i = Advance4 n"
  have "FIRCLSParseUint32AndAdvance m (cursor x + 1) = Some (of_nat n, cursor x + 1 + 4)"
    using assms(1,2) parse_uint32[of m "cursor x + 1" n] by (simp add: i)
  moreover have "(ucast (of_nat n :: u32) :: u64) = of_nat n"
    using assms(2) by (simp add: i word_unat_eq_iff unat_of_nat unsigned_ucast_eq take_bit_eq_mod)
  ultimately show ?thesis
    using assms(1) by (simp add: i execute_instruction_def first_byte outcome_location means_def
        FIRCLSDwarfParseAndExecute_advance_loc4_def)
qed

lemma cfa_means:
  assumes "holds m (cursor x) (cfi_bytes p (cursor x) i)" "cfi_ok p (cursor x) i"
    "i = DefCfa r n \<or> i = DefCfaRegister r \<or> i = DefCfaOffset n \<or> i = DefCfaExpression e"
  shows "instruction_outcome (execute_instruction m cie x) = means cie p x i"
  using assms(3)
proof (elim disjE)
  assume i: "i = DefCfa r n"
  with assms(1,2) uleb_parse[of m "cursor x + 1" r] uleb_parse[of m "cursor x + 1 + length (uleb_bytes r)" n]
  show ?thesis
    by (simp add: execute_instruction_def first_byte outcome_rule means_def FIRCLSDwarfParseAndExecute_def_cfa_def
        known_of_nat abs_cfa)
next
  assume i: "i = DefCfaRegister r"
  with assms(1,2) uleb_parse[of m "cursor x + 1" r] show ?thesis
    by (simp add: execute_instruction_def first_byte outcome_rule means_def FIRCLSDwarfParseAndExecute_def_cfa_register_def
        known_of_nat abs_cfa)
next
  assume i: "i = DefCfaOffset n"
  with assms(1,2) uleb_parse[of m "cursor x + 1" n] show ?thesis
    by (simp add: execute_instruction_def first_byte outcome_rule means_def FIRCLSDwarfParseAndExecute_def_cfa_offset_def abs_cfa)
next
  assume i: "i = DefCfaExpression e"
  with assms(1,2) skip_expression[of m "cursor x + 1" e] show ?thesis
    by (simp add: execute_instruction_def first_byte outcome_rule means_def FIRCLSDwarfParseAndExecute_def_cfa_expression_def abs_cfa)
qed

lemma register_means:
  assumes "holds m (cursor x) (cfi_bytes p (cursor x) i)" "cfi_ok p (cursor x) i" "state_ok (cfi_state x)"
    "i = SameValue r \<or> i = InRegister r q"
  shows "instruction_outcome (execute_instruction m cie x) = means cie p x i"
  using assms(4)
proof (elim disjE)
  assume i: "i = SameValue r"
  with assms uleb_parse[of m "cursor x + 1" r] show ?thesis
    by (simp add: execute_instruction_def first_byte outcome_rule means_def FIRCLSDwarfParseAndExecute_same_value_def
        known_of_nat abs_same_value)
next
  assume i: "i = InRegister r q"
  with assms uleb_parse[of m "cursor x + 1" r] uleb_parse[of m "cursor x + 1 + length (uleb_bytes r)" q]
  show ?thesis
    by (simp add: execute_instruction_def first_byte outcome_rule means_def FIRCLSDwarfParseAndExecute_register_def
        known_of_nat abs_set_rule abs_rule_def)
qed

lemma expression_means:
  assumes "holds m (cursor x) (cfi_bytes p (cursor x) i)" "cfi_ok p (cursor x) i" "state_ok (cfi_state x)"
    "cursor x + length (cfi_bytes p (cursor x) i) < 2 ^ 64" "i = Expression r e \<or> i = ValExpression r e"
  shows "instruction_outcome (execute_instruction m cie x) = means cie p x i"
proof -
  let ?c = "cursor x + 1 + length (uleb_bytes r)"
  have r: "FIRCLSParseULEB128AndAdvance m (cursor x + 1) = Some (of_nat r, ?c)" "r < 2 ^ 31"
    using assms(1,2,5) uleb_parse[of m "cursor x + 1" r] by auto
  have e: "skip_expression m ?c = Some (?c + (length (uleb_bytes (length e)) + length e))"
    using assms(1,2,5) by (intro skip_expression) auto
  have "?c < 2 ^ 64" using assms(4,5) by auto
  then have c: "unat (of_nat ?c :: u64) = ?c"
    by (simp only: unat_of_nat) (simp del: of_nat_add)
  note rs = e[simplified] c[simplified] r[simplified]
  from assms(5) show ?thesis
  proof
    assume "i = Expression r e"
    with assms(1,3) rs show ?thesis
      by (simp add: execute_instruction_def first_byte outcome_rule means_def
          FIRCLSDwarfParseAndExecute_expression_def known_of_nat abs_set_rule abs_rule_def)
  next
    assume "i = ValExpression r e"
    with assms(1,3) rs show ?thesis
      by (simp add: execute_instruction_def first_byte outcome_rule means_def
          FIRCLSDwarfParseAndExecute_val_expression_def known_of_nat abs_set_rule abs_rule_def)
  qed
qed

lemma operand_means:
  assumes "holds m (cursor x) (cfi_bytes p (cursor x) i)" "cfi_ok p (cursor x) i" "state_ok (cfi_state x)"
    "i = Advance n \<or> i = OffsetAt r n"
  shows "instruction_outcome (execute_instruction m cie x) = means cie p x i"
  using assms(4)
proof
  assume i: "i = Advance n"
  with assms(1,2) have n: "n < 64" "m (cursor x) = Some (0x40 + of_nat n)" by simp_all
  have u: "unat (0x40 + of_nat n :: u8) = 64 + n" using n(1) by (subst opcode_value) simp_all
  have "0x40 + of_nat n \<notin> set unimplemented" using n(1) u by (auto simp: unimplemented_def word_unat_eq_iff)
  with n u show ?thesis
    by (simp add: i execute_instruction_def first_byte[where m = m, OF n(2)] word_unat_eq_iff FIRCLSDwarfParseAndExecuteInstructionWithOperand_def
        operand_byte instruction_outcome_def means_def FIRCLSDwarfParseAndExecute_advance_loc_def byte_u64)
next
  assume i: "i = OffsetAt r n"
  with assms(1,2) have n: "r < 64" "m (cursor x) = Some (0x80 + of_nat r)" "n < 2 ^ 31" "holds m (cursor x + 1) (uleb_bytes n)"
    by simp_all
  have u: "unat (0x80 + of_nat r :: u8) = 128 + r" "unat (of_nat r :: u8) = r" using n(1) by (simp_all add: opcode_value unat_of_nat)
  have "0x80 + of_nat r \<notin> set unimplemented" using n(1) u by (auto simp: unimplemented_def word_unat_eq_iff)
  with n u uleb_parse[OF n(4,3)] assms(3) show ?thesis
    by (simp add: i execute_instruction_def first_byte[where m = m, OF n(2)] word_unat_eq_iff FIRCLSDwarfParseAndExecuteInstructionWithOperand_def
        operand_byte outcome_rule means_def FIRCLSDwarfParseAndExecute_offset_def abs_set_rule abs_rule_def)
qed

lemma refused_means:
  assumes "holds m (cursor x) (cfi_bytes p (cursor x) i)" "cfi_ok p (cursor x) i" "i = Refused b"
  shows "instruction_outcome (execute_instruction m cie x) = means cie p x i"
  using assms
  by (simp add: execute_instruction_def first_byte FIRCLSDwarfParseAndExecuteInstructionWithOperand_def
      refused_def implemented_def instruction_outcome_def means_def Let_def)

lemma instruction_means:
  assumes "holds m (cursor x) (cfi_bytes p (cursor x) i)" "cfi_ok p (cursor x) i" "state_ok (cfi_state x)"
    "cursor x + length (cfi_bytes p (cursor x) i) < 2 ^ 64" "pointerEncoding cie = encoding_byte (fst p) (snd p)"
  shows "instruction_outcome (execute_instruction m cie x) = means cie p x i"
  using location_means[OF assms(1,2,5)] cfa_means[OF assms(1,2)] register_means[OF assms(1,2,3)]
    expression_means[OF assms(1,2,3,4)] operand_means[OF assms(1,2,3)] refused_means[OF assms(1,2)]
  by (cases i) (simp_all del: cfi_bytes.simps cfi_ok.simps)

subsection \<open>A sequence has its meaning\<close>

text \<open>The outcome of a run: \<open>Some None\<close> when it fails, otherwise its row.\<close>

definition row_outcome :: "(bool \<times> dwarf_state) option \<Rightarrow> row option option" where
  "row_outcome r = (case r of None \<Rightarrow> None | Some (ok, s) \<Rightarrow> Some (if ok then Some (abs_row s) else None))"

definition loop_outcome :: "(bool \<times> cfi_machine) option \<Rightarrow> row option option" where
  "loop_outcome r = (case r of None \<Rightarrow> None | Some (ok, y) \<Rightarrow> Some (if ok then Some (abs_row (cfi_state y)) else None))"

lemma cfi_bytes_nonempty: "0 < length (cfi_bytes p c i)"
  by (cases i) simp_all

lemma instructions_loop_means:
  assumes "state_ok (cfi_state x)" "holds m (cursor x) (cfis_bytes p (cursor x) is)" "cfis_ok p (cursor x) is"
    "e = cursor x + length (cfis_bytes p (cursor x) is)" "e < 2 ^ 64" "pointerEncoding cie = encoding_byte (fst p) (snd p)"
  shows "loop_outcome (instructions_loop m cie limit e x)
    = Some (cfis_effect cie p limit (cursor x) is (abs_row (cfi_state x), codeOffset x))"
  using assms(1-5)
proof (induction "is" arbitrary: x)
  case Nil
  then show ?case by (simp add: instructions_loop.simps[of m cie limit "cursor x" x] loop_outcome_def)
next
  case (Cons i "is")
  let ?c = "cursor x + length (cfi_bytes p (cursor x) i)"
  show ?case
  proof (cases "sint (codeOffset x) < sint limit")
    case False
    then show ?thesis by (simp add: instructions_loop.simps[of m cie limit e x] loop_outcome_def)
  next
    case True
    with cfi_bytes_nonempty[of p "cursor x" i] Cons.prems(4) have go: "cursor x < e \<and> sint (codeOffset x) < sint limit" by simp
    have "instruction_outcome (execute_instruction m cie x) = means cie p x i"
      using Cons.prems assms(6) by (intro instruction_means) simp_all
    then obtain ok y where y: "execute_instruction m cie x = Some (ok, y)"
        "(if ok then Some ((abs_row (cfi_state y), codeOffset y), cursor y) else None)
         = (case cfi_effect cie (cursor x) i (abs_row (cfi_state x), codeOffset x) of None \<Rightarrow> None | Some r \<Rightarrow> Some (r, ?c))"
      by (auto simp: instruction_outcome_def means_def split: option.splits)
    show ?thesis
    proof (cases ok)
      case False
      with y True go show ?thesis
        by (auto simp: instructions_loop.simps[of m cie limit e x] loop_outcome_def split: option.splits)
    next
      case ok: True
      with y(2) have m: "cfi_effect cie (cursor x) i (abs_row (cfi_state x), codeOffset x) = Some (abs_row (cfi_state y), codeOffset y)"
        and c: "cursor y = ?c" by (auto split: option.splits)
      have "state_ok (cfi_state y)" using instruction_keeps[OF y(1)] Cons.prems(1) by (simp add: cfi_keeps_def)
      then have "loop_outcome (instructions_loop m cie limit e y)
          = Some (cfis_effect cie p limit (cursor y) is (abs_row (cfi_state y), codeOffset y))"
        using Cons.prems by (intro Cons.IH) (simp_all add: c)
      with y(1) ok m c go show ?thesis by (simp add: instructions_loop.simps[of m cie limit e x])
    qed
  qed
qed

lemma enumerate_means:
  assumes "state_ok s" "holds m c (cfis_bytes p c is)" "cfis_ok p c is"
    "length (cfis_bytes p c is) < 2 ^ 32" "c + length (cfis_bytes p c is) < 2 ^ 64"
    "pointerEncoding cie = encoding_byte (fst p) (snd p)"
  shows "row_outcome (FIRCLSDwarfInstructionsEnumerate m \<lparr>ins_length = of_nat (length (cfis_bytes p c is)), ins_data = c\<rparr> cie s limit)
    = Some (cfis_effect cie p limit c is (abs_row s, 0))"
proof -
  let ?x = "\<lparr>cursor = c, cfi_state = s, codeOffset = 0\<rparr>" and ?e = "c + length (cfis_bytes p c is)"
  have "unat (of_nat (length (cfis_bytes p c is)) :: u32) = length (cfis_bytes p c is)"
    using assms(4) by (simp add: unat_of_nat)
  then have "row_outcome (FIRCLSDwarfInstructionsEnumerate m \<lparr>ins_length = of_nat (length (cfis_bytes p c is)), ins_data = c\<rparr> cie s limit)
      = loop_outcome (instructions_loop m cie limit ?e ?x)"
    by (cases "instructions_loop m cie limit ?e ?x")
      (auto simp: row_outcome_def loop_outcome_def FIRCLSDwarfInstructionsEnumerate_def)
  also have "\<dots> = Some (cfis_effect cie p limit c is (abs_row s, 0))"
    using instructions_loop_means[of ?x m p "is" ?e cie limit] assms by simp
  finally show ?thesis .
qed

text \<open>
  C21: Call frame instructions. Memory holds the bytes of a program with operands in range, and of its
  instructions that apply below the pc limit none sets the location to an address, none changes the
  register or offset of a frame address that an expression defines, and \<open>DW_CFA_advance_loc\<close> occurs
  only at offset 0 or when the limit lies behind everything that remains. Then enumerating the
  instructions never faults; it fails where an applicable instruction names a register the machine does
  not have or is one that the unwinder does not implement, and otherwise yields the state whose row is
  what the DWARF standard makes of the instructions that apply before the limit.
\<close>

theorem cfi_instructions_run:
  assumes "state_ok s" "holds m c (cfis_bytes p c is)" "cfis_ok p c is"
    "length (cfis_bytes p c is) < 2 ^ 32" "c + length (cfis_bytes p c is) < 2 ^ 64"
    "pointerEncoding cie = encoding_byte (fst p) (snd p)"
    and "cfis_regular cie p limit c is (abs_row s, 0)"
  shows "row_outcome (FIRCLSDwarfInstructionsEnumerate m \<lparr>ins_length = of_nat (length (cfis_bytes p c is)), ins_data = c\<rparr> cie s limit)
    = Some (cfis_meaning cie p limit c is (abs_row s, 0))"
  using enumerate_means[OF assms(1-6), of limit] regular_effect[OF assms(7), of 0] by simp

definition plain_cie :: DWARFCIERecord where
  "plain_cie = zero_cie\<lparr>cie_length := 16, version := 1, codeAlignFactor := 1, dataAlignFactor := -8\<rparr>"

lemma cfi_instructions_run_witness:
  "row_outcome (FIRCLSDwarfInstructionsEnumerate (segment 4096 [0x0C, 31, 0, 0x44, 0x0E, 32, 0x9E, 1])
      \<lparr>ins_length = 8, ins_data = 4096\<rparr> plain_cie zero_state 6)
    = Some (Some \<lparr>row_register = 31, row_offset = 32, row_expression = None, row_rules = (\<lambda>_. Unchanged)(30 := SavedAt (-8))\<rparr>)"
proof -
  let ?is = "[DefCfa 31 0, Advance 4, DefCfaOffset 32, OffsetAt 30 1]" and ?p = "(Absptr, False)"
  have b: "cfis_bytes ?p 4096 ?is = [0x0C, 31, 0, 0x44, 0x0E, 32, 0x9E, 1]" by (simp add: uleb_small)
  have h: "holds (segment 4096 (cfis_bytes ?p 4096 ?is)) 4096 (cfis_bytes ?p 4096 ?is)" by (rule segment_all)
  have "row_outcome (FIRCLSDwarfInstructionsEnumerate (segment 4096 (cfis_bytes ?p 4096 ?is))
      \<lparr>ins_length = of_nat (length (cfis_bytes ?p 4096 ?is)), ins_data = 4096\<rparr> plain_cie zero_state 6)
    = Some (cfis_meaning plain_cie ?p 6 4096 ?is (abs_row zero_state, 0))"
    by (rule cfi_instructions_run[OF zero_state_ok h]) (simp_all add: uleb_small plain_cie_def zero_cie_def encoding_byte_def abs_row_def zero_state_def)
  then show ?thesis
    unfolding b
    by (simp add: plain_cie_def zero_cie_def abs_row_def zero_state_def set_saved_def abs_rule_def fun_eq_iff)
qed

text \<open>
  Outside these programs the code departs from the standard. \<open>DW_CFA_advance_loc\<close> is not relative:
  after two advances by 4, the rules for offset 8 are already in force at offset 6; with
  \<open>DW_CFA_advance_loc1\<close>, for the same steps, they are not. And once a frame address was an expression,
  \<open>DW_CFA_def_cfa\<close> does not replace it.
\<close>

lemma advance_loc_not_relative:
  "map_option row_offset (cfis_effect plain_cie p 6 c [Advance 4, Advance 4, DefCfaOffset 16] (w, 0)) = Some 16"
  "map_option row_offset (cfis_meaning plain_cie p 6 c [Advance 4, Advance 4, DefCfaOffset 16] (w, 0)) = Some (row_offset w)"
  "map_option row_offset (cfis_effect plain_cie p 6 c [Advance1 4, Advance1 4, DefCfaOffset 16] (w, 0)) = Some (row_offset w)"
  by (simp_all add: plain_cie_def)

lemma def_cfa_keeps_expression:
  assumes "0 < sint limit"
  shows "map_option row_expression (cfis_effect cie p limit c [DefCfaExpression e, DefCfa 31 16] (w, 0)) = Some (Some (c + 1))"
    "map_option row_expression (cfis_meaning cie p limit c [DefCfaExpression e, DefCfa 31 16] (w, 0)) = Some None"
  using assms by simp_all

end
