(* ===== verification/Dwarf_Unwind.thy ===== *)
theory Dwarf_Unwind
  imports Dwarf_Cfi_Spec
begin

text \<open>
  Unwinding one frame with DWARF information on arm64 (the end of FIRCLSDwarfUnwind.c): the
  canonical frame address, the saved registers, and the registers of the caller.
\<close>

subsection \<open>Saved registers\<close>

abbreviation (input) CLS_DWARF_REG_RETURN :: nat where "CLS_DWARF_REG_RETURN \<equiv> 30"
abbreviation (input) CLS_DWARF_REG_SP :: nat where "CLS_DWARF_REG_SP \<equiv> 31"

definition FIRCLSDwarfCompareRegisters :: "thread_context \<Rightarrow> thread_context \<Rightarrow> nat \<Rightarrow> bool" where
  "FIRCLSDwarfCompareRegisters a b registerNum \<longleftrightarrow>
     FIRCLSDwarfUnwindGetRegisterValue a registerNum = FIRCLSDwarfUnwindGetRegisterValue b registerNum"

text \<open>\<open>Some None\<close> when the function returns false, \<open>None\<close> for a fault.\<close>

definition FIRCLSDwarfGetCFA :: "memory \<Rightarrow> dwarf_state \<Rightarrow> thread_context \<Rightarrow> u64 option option" where
  "FIRCLSDwarfGetCFA m s regs =
     (if cfaExpression s \<noteq> 0 then FIRCLSDwarfEvalulateExpression m (cfaExpression s) regs 0
      else Some (Some (FIRCLSDwarfUnwindGetRegisterValue regs (unat (cfaRegister s)) + cfaRegisterOffset s)))"

text \<open>A value that cannot be found is 0.\<close>

definition read_address :: "memory \<Rightarrow> u64 \<Rightarrow> u64" where
  "read_address m a = (case FIRCLSReadMemory m a 8 of None \<Rightarrow> 0 | Some bs \<Rightarrow> le_word bs)"

definition FIRCLSDwarfGetSavedRegister :: "memory \<Rightarrow> thread_context \<Rightarrow> u64 \<Rightarrow> dwarf_register \<Rightarrow> u64 option" where
  "FIRCLSDwarfGetSavedRegister m regs cfa r =
     (case location r of
        FIRCLSDwarfRegisterInCFA \<Rightarrow> Some (read_address m (cfa + reg_value r))
      | FIRCLSDwarfRegisterInRegister \<Rightarrow> Some (FIRCLSDwarfUnwindGetRegisterValue regs (unat (reg_value r)))
      | FIRCLSDwarfRegisterAtExpression \<Rightarrow>
          do { v \<leftarrow> FIRCLSDwarfEvalulateExpression m (unat (reg_value r)) regs cfa;
               Some (case v of None \<Rightarrow> 0 | Some a \<Rightarrow> read_address m a) }
      | FIRCLSDwarfRegisterIsExpression \<Rightarrow>
          do { v \<leftarrow> FIRCLSDwarfEvalulateExpression m (unat (reg_value r)) regs cfa;
               Some (case v of None \<Rightarrow> 0 | Some a \<Rightarrow> a) }
      | _ \<Rightarrow> Some 0)"

fun assign_loop :: "memory \<Rightarrow> dwarf_state \<Rightarrow> thread_context \<Rightarrow> u64 \<Rightarrow> nat list \<Rightarrow> thread_context \<Rightarrow> (bool \<times> thread_context) option" where
  "assign_loop m s regs cfa [] new = Some (True, new)"
| "assign_loop m s regs cfa (i # is) new =
     (if location (rules s ! i) = FIRCLSDwarfRegisterUnused then assign_loop m s regs cfa is new
      else do { v \<leftarrow> FIRCLSDwarfGetSavedRegister m regs cfa (rules s ! i);
        case FIRCLSDwarfUnwindSetRegisterValue new i v of
          (False, new) \<Rightarrow> Some (False, new)
        | (True, new) \<Rightarrow> assign_loop m s regs cfa is new })"

text \<open>The output registers are written only when the function returns true: \<open>Some (Some r)\<close>.\<close>

definition FIRCLSDwarfUnwindAssignRegisters ::
    "memory \<Rightarrow> dwarf_state \<Rightarrow> thread_context \<Rightarrow> u64 \<Rightarrow> thread_context option option" where
  "FIRCLSDwarfUnwindAssignRegisters m s regs cfa =
     do { (ok, new) \<leftarrow> assign_loop m s regs cfa [0..<CLS_DWARF_MAX_REGISTER_NUM + 1] regs;
          if \<not> ok then Some None
          else case FIRCLSDwarfUnwindSetRegisterValue new CLS_DWARF_REG_SP cfa of
            (False, _) \<Rightarrow> Some None
          | (True, new) \<Rightarrow>
              if FIRCLSDwarfCompareRegisters regs new CLS_DWARF_REG_SP then Some None
              else if FIRCLSDwarfCompareRegisters regs new CLS_DWARF_REG_RETURN then Some None
              else Some (Some new) }"

definition INTPTR_MAX :: u64 where "INTPTR_MAX = 0x7fffffffffffffff"

definition FIRCLSDwarfUnwindComputeRegisters ::
    "memory \<Rightarrow> FIRCLSDwarfCFIRecord \<Rightarrow> thread_context \<Rightarrow> thread_context option option" where
  "FIRCLSDwarfUnwindComputeRegisters m r regs =
     do { (ok, s) \<leftarrow> FIRCLSDwarfInstructionsEnumerate m (cie_instructions (cfi_cie r)) (cfi_cie r) zero_state INTPTR_MAX;
          if \<not> ok then Some None
          else do { let pcOffset = FIRCLSThreadContextGetPC regs - startAddress (cfi_fde r);
            if sint pcOffset < 0 then Some None
            else do { (ok, s) \<leftarrow> FIRCLSDwarfInstructionsEnumerate m (fde_instructions (cfi_fde r)) (cfi_cie r) s pcOffset;
              if \<not> ok then Some None
              else do { c \<leftarrow> FIRCLSDwarfGetCFA m s regs;
                case c of None \<Rightarrow> Some None
                | Some cfa \<Rightarrow> FIRCLSDwarfUnwindAssignRegisters m s regs cfa } } } }"

subsection \<open>The values a row gives\<close>

text \<open>The canonical frame address of a row, and the value it gives a register; \<open>None\<close> is a fault.\<close>

definition row_cfa :: "memory \<Rightarrow> thread_context \<Rightarrow> row \<Rightarrow> u64 option option" where
  "row_cfa m regs w = (case row_expression w of
       Some e \<Rightarrow> FIRCLSDwarfEvalulateExpression m e regs 0
     | None \<Rightarrow> Some (Some (FIRCLSDwarfUnwindGetRegisterValue regs (row_register w) + row_offset w)))"

fun saved_value :: "memory \<Rightarrow> thread_context \<Rightarrow> u64 \<Rightarrow> saved \<Rightarrow> u64 option option" where
  "saved_value m regs cfa Unchanged = Some None"
| "saved_value m regs cfa (SavedAt off) = Some (Some (read_address m (cfa + off)))"
| "saved_value m regs cfa (SavedIn q) = Some (Some (FIRCLSDwarfUnwindGetRegisterValue regs q))"
| "saved_value m regs cfa (SavedAtExpression e) =
     map_option (\<lambda>v. Some (case v of None \<Rightarrow> 0 | Some a \<Rightarrow> read_address m a)) (FIRCLSDwarfEvalulateExpression m e regs cfa)"
| "saved_value m regs cfa (ValueOfExpression e) =
     map_option (\<lambda>v. Some (case v of None \<Rightarrow> 0 | Some a \<Rightarrow> a)) (FIRCLSDwarfEvalulateExpression m e regs cfa)"

lemma get_cfa: "FIRCLSDwarfGetCFA m s regs = row_cfa m regs (abs_row s)"
  by (simp add: FIRCLSDwarfGetCFA_def row_cfa_def abs_row_def)

lemma saved_register:
  "rule_ok r \<Longrightarrow> saved_value m regs cfa (abs_rule r)
     = (if location r = FIRCLSDwarfRegisterUnused then Some None
        else map_option Some (FIRCLSDwarfGetSavedRegister m regs cfa r))"
  by (cases "location r")
    (auto simp: FIRCLSDwarfGetSavedRegister_def abs_rule_def rule_ok_def map_option_bind option.map_comp comp_def
      split: Option.bind_splits)

lemma assign_loop:
  "\<forall>i\<in>set is. i \<le> 31 \<and> rule_ok (rules s ! i) \<and> saved_value m regs cfa (abs_rule (rules s ! i)) = Some (f i) \<Longrightarrow>
     assign_loop m s regs cfa is new = Some (arm64.assign f is new)"
proof (induction "is" arbitrary: new)
  case (Cons i "is")
  then have IH: "assign_loop m s regs cfa is new = Some (arm64.assign f is new)" for new by simp
  from Cons.prems have r: "rule_ok (rules s ! i)" "saved_value m regs cfa (abs_rule (rules s ! i)) = Some (f i)" by simp_all
  show ?case
    using saved_register[OF r(1), of m regs cfa] r(2)
    by (cases "FIRCLSDwarfGetSavedRegister m regs cfa (rules s ! i)")
      (auto simp: IH split: prod.split bool.split if_splits)
qed simp

text \<open>The program counter follows the return register.\<close>

lemma set_pc:
  assumes "n \<le> 31"
  obtains r2 where "FIRCLSDwarfUnwindSetRegisterValue r n v = (True, r2)" "ss_pc r2 = (if n = 30 then v else ss_pc r)"
proof -
  have "n < 29 \<or> n = 29 \<or> n = 30 \<or> n = 31" using assms by arith
  then show thesis
    by (intro that[of "snd (FIRCLSDwarfUnwindSetRegisterValue r n v)"])
      (auto simp: FIRCLSDwarfUnwindSetRegisterValue_def thread_context_defs)
qed

lemma assign_pc:
  "distinct is \<Longrightarrow> list_all (\<lambda>n. n \<le> 31) is \<Longrightarrow>
     ss_pc (snd (arm64.assign f is r)) = (if 30 \<in> set is then (case f 30 of None \<Rightarrow> ss_pc r | Some v \<Rightarrow> v) else ss_pc r)"
proof (induction "is" arbitrary: r)
  case (Cons i "is")
  then have IH: "ss_pc (snd (arm64.assign f is r))
      = (if 30 \<in> set is then (case f 30 of None \<Rightarrow> ss_pc r | Some v \<Rightarrow> v) else ss_pc r)" for r by simp
  show ?case
  proof (cases "f i")
    case None
    then show ?thesis by (auto simp: IH)
  next
    case (Some v)
    from Cons.prems(2) have "i \<le> 31" by simp
    then obtain r2 where r2: "FIRCLSDwarfUnwindSetRegisterValue r i v = (True, r2)" "ss_pc r2 = (if i = 30 then v else ss_pc r)"
      by (rule set_pc)
    then show ?thesis using Cons.prems(1) Some by (auto simp: IH split: option.split)
  qed
qed simp

text \<open>The registers of the caller, when no expression faults.\<close>

lemma assign_registers:
  assumes "arm64_ok regs" "state_ok s" "\<And>n. n \<le> 31 \<Longrightarrow> saved_value m regs cfa (row_rules (abs_row s) n) = Some (f n)"
  obtains r where "arm64_ok r"
    "\<And>k. FIRCLSDwarfUnwindGetRegisterValue r k = (if k = 31 then CLS_PTRAUTH_STRIP cfa
       else case (if k \<le> 31 then f k else None) of None \<Rightarrow> FIRCLSDwarfUnwindGetRegisterValue regs k | Some v \<Rightarrow> arm64_view k v)"
    "ss_pc r = (case f 30 of None \<Rightarrow> ss_pc regs | Some v \<Rightarrow> v)"
    "FIRCLSDwarfUnwindAssignRegisters m s regs cfa =
       Some (if FIRCLSDwarfCompareRegisters regs r 31 \<or> FIRCLSDwarfCompareRegisters regs r 30 then None else Some r)"
proof -
  let ?ns = "[0..<32]"
  have ns: "distinct ?ns" "list_all (\<lambda>n. n \<le> 31) ?ns" "k \<in> set ?ns \<longleftrightarrow> k \<le> 31" for k by (auto simp: list_all_iff)
  have rl: "n \<le> 31 \<Longrightarrow> rule_ok (rules s ! n) \<and> saved_value m regs cfa (abs_rule (rules s ! n)) = Some (f n)" for n
    using assms(2) assms(3)[of n] by (auto simp: state_ok_def list_all_length abs_row_def)
  obtain r1 where r1: "arm64.assign f ?ns regs = (True, r1)" "arm64_ok r1"
    "\<forall>k. FIRCLSDwarfUnwindGetRegisterValue r1 k = (if k \<in> set ?ns then (case f k of None \<Rightarrow> FIRCLSDwarfUnwindGetRegisterValue regs k
       | Some v \<Rightarrow> arm64_view k v) else FIRCLSDwarfUnwindGetRegisterValue regs k)"
    using arm64.assign_result[OF assms(1) ns(2,1), of f] by blast
  have l: "assign_loop m s regs cfa ?ns regs = Some (True, r1)"
    using assign_loop[of ?ns s m regs cfa f regs] rl r1(1) by (auto simp del: upt_rec_numeral)
  obtain r where r: "FIRCLSDwarfUnwindSetRegisterValue r1 31 cfa = (True, r)" "ss_pc r = ss_pc r1"
    by (rule set_pc[of 31 r1 cfa]) auto
  have g: "arm64_ok r" "FIRCLSDwarfUnwindGetRegisterValue r 31 = CLS_PTRAUTH_STRIP cfa"
    "\<And>k. k \<noteq> 31 \<Longrightarrow> FIRCLSDwarfUnwindGetRegisterValue r k = FIRCLSDwarfUnwindGetRegisterValue r1 k"
    using arm64.set_ok[OF r1(2), of 31 cfa] arm64.get_set[OF r1(2), of 31 cfa] arm64.get_other[OF r1(2), of 31 _ cfa] r(1)
    by (simp_all add: arm64_view_def)
  show thesis
  proof (rule that[of r])
    show "ss_pc r = (case f 30 of None \<Rightarrow> ss_pc regs | Some v \<Rightarrow> v)"
      using assign_pc[OF ns(1,2), of f regs] r1(1) r(2) ns(3)[of 30] by simp
    show "FIRCLSDwarfUnwindAssignRegisters m s regs cfa =
       Some (if FIRCLSDwarfCompareRegisters regs r 31 \<or> FIRCLSDwarfCompareRegisters regs r 30 then None else Some r)"
      using l r(1) by (simp add: FIRCLSDwarfUnwindAssignRegisters_def del: upt_rec_numeral)
    show "FIRCLSDwarfUnwindGetRegisterValue r k = (if k = 31 then CLS_PTRAUTH_STRIP cfa
       else case (if k \<le> 31 then f k else None) of None \<Rightarrow> FIRCLSDwarfUnwindGetRegisterValue regs k | Some v \<Rightarrow> arm64_view k v)" for k
      using g(2,3) r1(3) ns(3)[of k] by (auto split: option.split)
  qed (rule g(1))
qed

subsection \<open>Unwinding from the section\<close>

text \<open>\<open>FIRCLSCompactUnwindDwarfFrame\<close> of FIRCLSCompactUnwind.c; \<open>junk\<close> is the uninitialised record.\<close>

definition FIRCLSCompactUnwindDwarfFrame ::
    "memory \<Rightarrow> FIRCLSDwarfCFIRecord \<Rightarrow> nat \<Rightarrow> nat \<Rightarrow> thread_context \<Rightarrow> thread_context option option" where
  "FIRCLSCompactUnwindDwarfFrame m junk ehFrame dwarfOffset regs =
     do { (ok, r) \<leftarrow> FIRCLSDwarfParseCFIFromFDERecordOffset m junk ehFrame dwarfOffset;
          if \<not> ok then Some None else FIRCLSDwarfUnwindComputeRegisters m r regs }"

text \<open>The extents of the instructions of both entries.\<close>

lemma cie_instructions_of:
  assumes "holds m a (cie_bytes a s)" "cie_ok a s"
  obtains c where "cie_instructions (cie_of a s) = \<lparr>ins_length = of_nat (length (cf_ins s)), ins_data = c\<rparr>"
    "holds m c (cf_ins s)" "c + length (cf_ins s) = a + length (cie_bytes a s)" "length (cf_ins s) < 2 ^ 32"
proof -
  obtain x where x: "cie_bytes a s = x @ cf_ins s" by (auto simp: cie_bytes_def cie_body_def)
  have "length (cf_ins s) < 2 ^ 32" using assms(2) by (simp add: cie_ok_def cie_body_def)
  with that[of "a + length x"] assms(1) show thesis by (simp add: cie_of_def x)
qed

lemma fde_instructions_of:
  assumes "holds m c (fde_bytes c a s t)" "fde_ok c a s t"
  obtains d where "fde_instructions (fde_of c a s t) = \<lparr>ins_length = of_nat (length (ff_ins t)), ins_data = d\<rparr>"
    "holds m d (ff_ins t)" "d + length (ff_ins t) = c + length (fde_bytes c a s t)" "length (ff_ins t) < 2 ^ 32"
proof -
  obtain f rel where p: "cie_pointer s = (f, rel)" by (cases "cie_pointer s")
  define x where "x = le_bytes 4 (length (fde_body c a s t)) @ le_bytes 4 (c + 4 - a) @
    address_bytes f rel (c + 8) (ff_start t) @ address_bytes f False 0 (ff_range t) @ fde_section s t"
  have x: "fde_bytes c a s t = x @ ff_ins t" by (simp add: fde_bytes_def fde_body_def p x_def del: le_bytes_numeral)
  have "length (ff_ins t) < 2 ^ 32" using assms(2) by (simp add: fde_ok_def fde_body_def split: prod.splits)
  with that[of "c + length x"] assms(1) show thesis by (simp add: fde_of_def x)
qed

definition no_rules :: row where
  "no_rules = \<lparr>row_register = 0, row_offset = 0, row_expression = None, row_rules = (\<lambda>_. Unchanged)\<rparr>"

lemma abs_zero_state: "abs_row zero_state = no_rules"
  by (simp add: abs_row_def zero_state_def no_rules_def abs_rule_def fun_eq_iff)

text \<open>The row of a frame: the rules of the common entry, then those of the frame up to the pc.\<close>

definition frame_row :: "DWARFCIERecord \<Rightarrow> pointer_format \<times> bool \<Rightarrow> nat \<Rightarrow> cfi_op list \<Rightarrow> nat \<Rightarrow> cfi_op list \<Rightarrow> u64 \<Rightarrow> row option" where
  "frame_row cie p c is d js pcOffset =
     Option.bind (cfis_meaning cie p INTPTR_MAX c is (no_rules, 0)) (\<lambda>w. cfis_meaning cie p pcOffset d js (w, 0))"

text \<open>Both programs are ones to which the code gives their meaning (see \<open>cfis_regular\<close>).\<close>

definition frame_regular :: "DWARFCIERecord \<Rightarrow> pointer_format \<times> bool \<Rightarrow> nat \<Rightarrow> cfi_op list \<Rightarrow> nat \<Rightarrow> cfi_op list \<Rightarrow> u64 \<Rightarrow> bool" where
  "frame_regular cie p c is d js pcOffset \<longleftrightarrow> cfis_regular cie p INTPTR_MAX c is (no_rules, 0) \<and>
     (case cfis_meaning cie p INTPTR_MAX c is (no_rules, 0) of None \<Rightarrow> True
      | Some w \<Rightarrow> cfis_regular cie p pcOffset d js (w, 0))"

lemma row_outcome_Some: "row_outcome r = Some (Some w) \<Longrightarrow> \<exists>s. r = Some (True, s) \<and> abs_row s = w"
  by (auto simp: row_outcome_def split: option.splits if_splits)

lemma compute_registers:
  assumes "cie_ok a s" "fde_ok b a s t" "holds m a (cie_bytes a s)" "holds m b (fde_bytes b a s t)"
    "a + length (cie_bytes a s) < 2 ^ 64" "b + length (fde_bytes b a s t) < 2 ^ 64"
    "c = ins_data (cie_instructions (cie_of a s))" "d = ins_data (fde_instructions (fde_of b a s t))"
    "cf_ins s = cfis_bytes (cie_pointer s) c is" "cfis_ok (cie_pointer s) c is"
    "ff_ins t = cfis_bytes (cie_pointer s) d js" "cfis_ok (cie_pointer s) d js"
    "pcOffset = FIRCLSThreadContextGetPC regs - ff_start t" "0 \<le> sint pcOffset"
    "frame_row (cie_of a s) (cie_pointer s) c is d js pcOffset = Some w" "row_cfa m regs w = Some (Some cfa)"
    and reg: "frame_regular (cie_of a s) (cie_pointer s) c is d js pcOffset"
  obtains s2 where "state_ok s2" "abs_row s2 = w"
    "FIRCLSDwarfUnwindComputeRegisters m \<lparr>cfi_cie = cie_of a s, cfi_fde = fde_of b a s t\<rparr> regs
      = FIRCLSDwarfUnwindAssignRegisters m s2 regs cfa"
proof -
  let ?p = "cie_pointer s" and ?cie = "cie_of a s" and ?fde = "fde_of b a s t"
  obtain c0 where c0: "cie_instructions ?cie = \<lparr>ins_length = of_nat (length (cf_ins s)), ins_data = c0\<rparr>"
    "holds m c0 (cf_ins s)" "c0 + length (cf_ins s) = a + length (cie_bytes a s)" "length (cf_ins s) < 2 ^ 32"
    by (rule cie_instructions_of[OF assms(3,1)])
  have "c0 = c" unfolding assms(7) c0(1) by simp
  note i = c0[unfolded this assms(9)]
  have il: "c + length (cfis_bytes ?p c is) < 2 ^ 64" using i(3) assms(5) by linarith
  obtain d0 where d0: "fde_instructions ?fde = \<lparr>ins_length = of_nat (length (ff_ins t)), ins_data = d0\<rparr>"
    "holds m d0 (ff_ins t)" "d0 + length (ff_ins t) = b + length (fde_bytes b a s t)" "length (ff_ins t) < 2 ^ 32"
    by (rule fde_instructions_of[OF assms(4,2)])
  have "d0 = d" unfolding assms(8) d0(1) by simp
  note j = d0[unfolded this assms(11)]
  have jl: "d + length (cfis_bytes ?p d js) < 2 ^ 64" using j(3) assms(6) by linarith
  obtain w1 where w1: "cfis_meaning ?cie ?p INTPTR_MAX c is (no_rules, 0) = Some w1"
      "cfis_meaning ?cie ?p pcOffset d js (w1, 0) = Some w"
    using assms(15) unfolding frame_row_def by (auto simp: bind_eq_Some_conv)
  have e1: "cfis_effect ?cie ?p INTPTR_MAX c is (no_rules, 0) = Some w1"
    using regular_effect[of ?cie ?p INTPTR_MAX c "is" no_rules 0 0] reg w1(1) by (simp add: frame_regular_def)
  have e2: "cfis_effect ?cie ?p pcOffset d js (w1, 0) = Some w"
    using regular_effect[of ?cie ?p pcOffset d js w1 0 0] reg w1 by (simp add: frame_regular_def)
  have "row_outcome (FIRCLSDwarfInstructionsEnumerate m (cie_instructions ?cie) ?cie zero_state INTPTR_MAX) = Some (Some w1)"
    unfolding i(1) enumerate_means[OF zero_state_ok i(2) assms(10) i(4) il cie_of_pointer] abs_zero_state e1 ..
  then obtain s1 where s1: "FIRCLSDwarfInstructionsEnumerate m (cie_instructions ?cie) ?cie zero_state INTPTR_MAX = Some (True, s1)"
      "abs_row s1 = w1"
    by (blast dest: row_outcome_Some)
  note ok1 = enumerate_ok[OF s1(1) zero_state_ok]
  have "row_outcome (FIRCLSDwarfInstructionsEnumerate m (fde_instructions ?fde) ?cie s1 pcOffset) = Some (Some w)"
    unfolding j(1) enumerate_means[OF ok1 j(2) assms(12) j(4) jl cie_of_pointer] s1(2) e2 ..
  then obtain s2 where s2: "FIRCLSDwarfInstructionsEnumerate m (fde_instructions ?fde) ?cie s1 pcOffset = Some (True, s2)"
      "abs_row s2 = w"
    by (blast dest: row_outcome_Some)
  have "startAddress ?fde = ff_start t" by (simp add: fde_of_def)
  then show thesis
    using that[OF enumerate_ok[OF s2(1) ok1] s2(2)] s1 s2 assms(13,14,16)
    by (simp add: FIRCLSDwarfUnwindComputeRegisters_def get_cfa)
qed


text \<open>The sample function is left with its frame set up: the return address and the frame pointer are on the stack.\<close>

definition sample_memory :: memory where
  "sample_memory = sample_section ++ segment 0x5000 (le_bytes 8 0x5200 @ le_bytes 8 0x3000)"

definition sample_regs :: thread_context where
  "sample_regs = \<lparr>ss_x = replicate 29 0, ss_fp = 0x5100, ss_lr = 0x2000, ss_sp = 0x5000, ss_pc = 0x1108\<rparr>"

lemma holds_below: "holds m a bs \<Longrightarrow> a + length bs \<le> b \<Longrightarrow> holds (m ++ segment b cs) a bs"
  by (induction bs arbitrary: a) (simp_all add: map_add_def segment_def)

lemma holds_added: "holds n a bs \<Longrightarrow> holds (m ++ n) a bs"
  by (induction bs arbitrary: a) simp_all

lemma sample_stack: "read_address sample_memory 0x5000 = 0x5200" "read_address sample_memory 0x5008 = 0x3000"
proof -
  have "holds (segment 0x5000 (le_bytes 8 0x5200 @ le_bytes 8 0x3000)) 0x5000 (le_bytes 8 0x5200 @ le_bytes 8 0x3000)"
    by (rule segment_all)
  then have h: "holds sample_memory 0x5000 (le_bytes 8 0x5200)" "holds sample_memory 0x5008 (le_bytes 8 0x3000)"
    unfolding sample_memory_def by (auto intro!: holds_added simp del: le_bytes_numeral)
  then have l: "load_bytes sample_memory 0x5000 8 = Some (le_bytes 8 0x5200)" "load_bytes sample_memory 0x5008 8 = Some (le_bytes 8 0x3000)"
    by (auto intro!: load_holds simp del: le_bytes_numeral)
  have w: "le_word (le_bytes 8 0x5200) = (0x5200 :: u64)" "le_word (le_bytes 8 0x3000) = (0x3000 :: u64)"
    using le_word_bytes[where n = 8 and v = "0x5200" and 'a = 64] le_word_bytes[where n = 8 and v = "0x3000" and 'a = 64] by (simp_all del: le_bytes_numeral)
  show "read_address sample_memory 0x5000 = 0x5200" "read_address sample_memory 0x5008 = 0x3000"
    by (simp_all add: read_address_def FIRCLSReadMemory_def FIRCLSIsValidPointer_def l w del: le_bytes_numeral load_bytes.simps)
qed

lemma sample_instructions:
  "cie_instructions (cie_of 4096 sample_cie) = \<lparr>ins_length = 3, ins_data = 4113\<rparr>"
  "fde_instructions (fde_of 4116 4096 sample_cie sample_fde) = \<lparr>ins_length = 7, ins_data = 4133\<rparr>"
  by (simp_all add: cie_of_def fde_of_def sample_bytes) (simp_all add: sample_cie_def sample_fde_def)

definition sample_row :: row where
  "sample_row = \<lparr>row_register = 31, row_offset = 16, row_expression = None,
     row_rules = (\<lambda>_. Unchanged)(30 := SavedAt (-8), 29 := SavedAt (-16))\<rparr>"

lemma sample_frame:
  "frame_row (cie_of 4096 sample_cie) p 4113 [DefCfa 31 0] 4133 [Advance 4, DefCfaOffset 16, OffsetAt 30 1, OffsetAt 29 2] 8
    = Some sample_row"
  "frame_regular (cie_of 4096 sample_cie) p 4113 [DefCfa 31 0] 4133 [Advance 4, DefCfaOffset 16, OffsetAt 30 1, OffsetAt 29 2] 8"
proof -
  have "codeAlignFactor (cie_of 4096 sample_cie) = 1" "dataAlignFactor (cie_of 4096 sample_cie) = -8"
    by (simp_all add: cie_of_def sample_cie_def)
  then show "frame_row (cie_of 4096 sample_cie) p 4113 [DefCfa 31 0] 4133 [Advance 4, DefCfaOffset 16, OffsetAt 30 1, OffsetAt 29 2] 8
    = Some sample_row"
  "frame_regular (cie_of 4096 sample_cie) p 4113 [DefCfa 31 0] 4133 [Advance 4, DefCfaOffset 16, OffsetAt 30 1, OffsetAt 29 2] 8"
    by (simp_all add: frame_row_def frame_regular_def no_rules_def INTPTR_MAX_def set_saved_def sample_row_def)
qed


end
