(* ===== verification/Compact_Unwind.thy ===== *)
theory Compact_Unwind
  imports Dwarf_Unwind
begin

text \<open>
  Compact unwind information (FIRCLSCompactUnwind.c and the arm64 strategies of FIRCLSUnwind_arm.c):
  finding the encoding of the function a pc is in, and unwinding by it.

  The layout of the section and of its entries belongs to the system header
  \<open>mach-o/compact_unwind_encoding.h\<close>, which is not part of the sources. It is a parameter: the records
  below are what the section holds, read through that header; \<open>func_offset\<close> and \<open>encoding_index\<close> are its two
  entry macros, \<open>compact_mode\<close> the mode bits of an arm64 encoding.
\<close>

subsection \<open>The section\<close>

record index_entry =
  functionOffset :: u32
  secondLevelPage :: u32

record second_level_page =
  page_kind :: u32
  entryCount :: u16
  entryArray :: "nat \<Rightarrow> u32"
  pageEncodings :: "nat \<Rightarrow> u32"

datatype compact_mode = Frameless | DwarfFrame nat | FramePointer | InvalidMode

record unwind_section =
  section_version :: u32
  indexCount :: u32
  indexEntries :: "nat \<Rightarrow> index_entry"
  commonEncodingsCount :: u32
  commonEncodings :: "nat \<Rightarrow> u32"
  pages :: "u32 \<Rightarrow> second_level_page"

record unwind_format =
  func_offset :: "u32 \<Rightarrow> u32"
  encoding_index :: "u32 \<Rightarrow> u32"
  mode :: "u32 \<Rightarrow> compact_mode"
  SECTION_VERSION :: u32
  SECOND_LEVEL_REGULAR :: u32
  SECOND_LEVEL_COMPRESSED :: u32

record compact_context =
  cu_section :: unwind_section
  cu_ehFrame :: nat
  loadAddress :: u64
  indexHeader :: index_entry
  firstLevelNextFunctionOffset :: u32

record compact_result =
  encoding :: u32
  functionStart :: u64
  functionEnd :: u64
  lsda :: u64
  personality :: u64

text \<open>\<open>section\<close> is \<open>None\<close> when the header cannot be read.\<close>

definition FIRCLSCompactUnwindInit ::
    "unwind_format \<Rightarrow> nat \<Rightarrow> unwind_section option \<Rightarrow> nat \<Rightarrow> u64 \<Rightarrow> compact_context option" where
  "FIRCLSCompactUnwindInit fmt unwindInfo sec ehFrame load =
     (if \<not> FIRCLSIsValidPointer unwindInfo then None
      else if \<not> FIRCLSIsValidPointer (unat load) then None
      else case sec of
        None \<Rightarrow> None
      | Some sec \<Rightarrow>
          if section_version sec \<noteq> SECTION_VERSION fmt then None
          else Some \<lparr>cu_section = sec, cu_ehFrame = ehFrame, loadAddress = load,
            indexHeader = \<lparr>functionOffset = 0, secondLevelPage = 0\<rparr>, firstLevelNextFunctionOffset = 0\<rparr>)"

definition FIRCLSCompactUnwindGetIndexFunctionOffset :: "compact_context \<Rightarrow> u64" where
  "FIRCLSCompactUnwindGetIndexFunctionOffset ctx = loadAddress ctx + ucast (functionOffset (indexHeader ctx))"

definition FIRCLSCompactUnwindGetTargetAddress :: "compact_context \<Rightarrow> u64 \<Rightarrow> u64" where
  "FIRCLSCompactUnwindGetTargetAddress ctx pc =
     (let offset = FIRCLSCompactUnwindGetIndexFunctionOffset ctx in if pc \<le> offset then 0 else pc - offset)"

subsection \<open>The first level\<close>

fun first_level_loop :: "(nat \<Rightarrow> index_entry) \<Rightarrow> u64 \<Rightarrow> nat list \<Rightarrow> nat option" where
  "first_level_loop es address [] = None"
| "first_level_loop es address (i # is) =
     (if ucast (functionOffset (es i)) \<le> address \<and> address < ucast (functionOffset (es (i + 1))) then Some i
      else first_level_loop es address is)"

definition FIRCLSCompactUnwindLookupFirstLevel :: "compact_context \<Rightarrow> u64 \<Rightarrow> compact_context option" where
  "FIRCLSCompactUnwindLookupFirstLevel ctx address =
     (let sec = cu_section ctx in
      if indexCount sec < 2 then None
      else if address < loadAddress ctx then None
      else case first_level_loop (indexEntries sec) (address - loadAddress ctx) [0..<unat (indexCount sec) - 1] of
        None \<Rightarrow> None
      | Some i \<Rightarrow> Some (ctx\<lparr>firstLevelNextFunctionOffset := functionOffset (indexEntries sec (i + 1)),
          indexHeader := indexEntries sec i\<rparr>))"

subsection \<open>The second level\<close>

text \<open>
  The search reads only entries below the count, so its indices do not wrap and are numbers here.
  \<open>val i\<close> is the function offset of entry \<open>i\<close>. \<open>None\<close> inside when it gives up.
\<close>

function search_loop :: "(nat \<Rightarrow> u64) \<Rightarrow> u64 \<Rightarrow> nat \<Rightarrow> nat \<Rightarrow> nat \<Rightarrow> nat option" where
  "search_loop val address count index highIndex =
     (if index < highIndex then
        let midIndex = (index + highIndex) div 2 in
        if address < val midIndex
        then (if highIndex = midIndex then None else search_loop val address count index midIndex)
        else if midIndex = count - 1 then None
        else if address < val (midIndex + 1) then Some midIndex
        else search_loop val address count (midIndex + 1) highIndex
      else Some index)"
  by pat_completeness auto
termination by (relation "measure (\<lambda>(_, _, _, i, h). h - i)") auto

declare search_loop.simps [simp del]

definition FIRCLSCompactUnwindBinarySearchSecondLevel :: "u64 \<Rightarrow> nat \<Rightarrow> (nat \<Rightarrow> u64) \<Rightarrow> nat option" where
  "FIRCLSCompactUnwindBinarySearchSecondLevel address count val =
     (if count = 0 then None
      else if address = 0 then None
      else case search_loop val address count 0 count of
        None \<Rightarrow> None
      | Some index \<Rightarrow> if index < count then Some index else None)"

definition FIRCLSCompactUnwindLookupSecondLevelCompressed ::
    "unwind_format \<Rightarrow> compact_context \<Rightarrow> u64 \<Rightarrow> compact_result option" where
  "FIRCLSCompactUnwindLookupSecondLevelCompressed fmt ctx pc =
     (let page = pages (cu_section ctx) (secondLevelPage (indexHeader ctx));
          count = unat (entryCount page);
          targetAddress = FIRCLSCompactUnwindGetTargetAddress ctx pc in
      case FIRCLSCompactUnwindBinarySearchSecondLevel targetAddress count (\<lambda>i. ucast (func_offset fmt (entryArray page i))) of
        None \<Rightarrow> None
      | Some index \<Rightarrow>
          let entry = entryArray page index;
              start = ucast (func_offset fmt entry) + FIRCLSCompactUnwindGetIndexFunctionOffset ctx;
              stop = loadAddress ctx +
                (if index < count - 1
                 then ucast (func_offset fmt (entryArray page (index + 1)) + functionOffset (indexHeader ctx))
                 else ucast (firstLevelNextFunctionOffset ctx));
              k = encoding_index fmt entry;
              common = commonEncodingsCount (cu_section ctx);
              e = (if k < common then commonEncodings (cu_section ctx) (unat k) else pageEncodings page (unat (k - common))) in
          if pc < start \<or> stop \<le> pc then None
          else if e = 0 then None
          else Some \<lparr>encoding = e, functionStart = start, functionEnd = stop, lsda = 0, personality = 0\<rparr>)"

text \<open>Regular pages are never searched.\<close>

definition FIRCLSCompactUnwindLookupSecondLevelRegular :: "compact_context \<Rightarrow> u64 \<Rightarrow> compact_result option" where
  "FIRCLSCompactUnwindLookupSecondLevelRegular ctx pc = None"

definition FIRCLSCompactUnwindGetSecondLevelPageKind :: "compact_context \<Rightarrow> u32" where
  "FIRCLSCompactUnwindGetSecondLevelPageKind ctx = page_kind (pages (cu_section ctx) (secondLevelPage (indexHeader ctx)))"

definition FIRCLSCompactUnwindLookupSecondLevel :: "unwind_format \<Rightarrow> compact_context \<Rightarrow> u64 \<Rightarrow> compact_result option" where
  "FIRCLSCompactUnwindLookupSecondLevel fmt ctx pc =
     (let kind = FIRCLSCompactUnwindGetSecondLevelPageKind ctx in
      if kind = SECOND_LEVEL_REGULAR fmt then FIRCLSCompactUnwindLookupSecondLevelRegular ctx pc
      else if kind = SECOND_LEVEL_COMPRESSED fmt then FIRCLSCompactUnwindLookupSecondLevelCompressed fmt ctx pc
      else None)"

definition FIRCLSCompactUnwindLookup :: "unwind_format \<Rightarrow> compact_context \<Rightarrow> u64 \<Rightarrow> (compact_context \<times> compact_result) option" where
  "FIRCLSCompactUnwindLookup fmt ctx pc =
     do { ctx \<leftarrow> FIRCLSCompactUnwindLookupFirstLevel ctx pc;
          r \<leftarrow> FIRCLSCompactUnwindLookupSecondLevel fmt ctx pc;
          Some (ctx, r) }"

subsection \<open>The search is a linear scan\<close>

text \<open>On offsets in order: the last entry whose offset is at most the address.\<close>

definition entries_below :: "(nat \<Rightarrow> u64) \<Rightarrow> u64 \<Rightarrow> nat \<Rightarrow> nat" where
  "entries_below val address count = length (takeWhile (\<lambda>i. val i \<le> address) [0..<count])"

definition in_order :: "(nat \<Rightarrow> u64) \<Rightarrow> nat \<Rightarrow> bool" where
  "in_order val count \<longleftrightarrow> (\<forall>i j. i \<le> j \<longrightarrow> j < count \<longrightarrow> val i \<le> val j)"

lemma entries_below_step:
  assumes "in_order val count" "i < count" "\<And>j. j < i \<Longrightarrow> val j \<le> address" "address < val i"
  shows "entries_below val address count = i"
proof -
  have "[0..<count] = [0..<i] @ i # [Suc i..<count]"
    using assms(2) by (metis le_add_diff_inverse less_imp_le upt_add_eq_append upt_conv_Cons zero_le)
  moreover have "takeWhile (\<lambda>i. val i \<le> address) [0..<i] = [0..<i]"
    using assms(3) by (simp add: takeWhile_eq_all_conv)
  ultimately show ?thesis using assms(3,4) by (simp add: entries_below_def takeWhile_append)
qed

lemma search_loop_scan:
  assumes "in_order val count" "0 < count" "index \<le> highIndex" "highIndex \<le> count"
    "\<And>j. j < index \<Longrightarrow> val j \<le> address" "\<And>j. highIndex \<le> j \<Longrightarrow> j < count \<Longrightarrow> address < val j"
    "index = 0 \<or> index < count \<and> val index \<le> address"
  shows "(case search_loop val address count index highIndex of None \<Rightarrow> None | Some i \<Rightarrow> if i < count then Some i else None)
    = (if val (count - 1) \<le> address then None else Some (entries_below val address count - 1))"
  using assms
proof (induction val address count index highIndex rule: search_loop.induct)
  case (1 v a n lo hi)
  let ?mid = "(lo + hi) div 2"
  show ?case
  proof (cases "lo < hi")
    case False
    then have "lo = hi" using 1(5) by simp
    moreover have "lo = 0" using 1(8)[of lo] 1(9) \<open>lo = hi\<close> by auto
    moreover have "a < v 0" "a < v (n - 1)" using 1(4) 1(8) \<open>lo = hi\<close> \<open>lo = 0\<close> by simp_all
    ultimately show ?thesis
      using entries_below_step[OF 1(3) 1(4), of a] 1(4) by (simp add: search_loop.simps[of v a n 0 0])
  next
    case lo: True
    then have mid: "lo \<le> ?mid" "?mid < hi" "?mid < n" using 1(6) by auto
    show ?thesis
    proof (cases "a < v ?mid")
      case True
      have "v ?mid \<le> v j" if "?mid \<le> j" "j < n" for j using 1(3) that by (simp add: in_order_def)
      then have above: "\<And>j. ?mid \<le> j \<Longrightarrow> j < n \<Longrightarrow> a < v j" using True by (meson order_less_le_trans)
      have "(case search_loop v a n lo ?mid of None \<Rightarrow> None | Some i \<Rightarrow> if i < n then Some i else None)
        = (if v (n - 1) \<le> a then None else Some (entries_below v a n - 1))"
        using lo True mid 1(3,4,6,7,9) above by (intro 1(1)[OF _ refl]) auto
      with lo True mid show ?thesis by (simp add: search_loop.simps[of v a n lo hi] Let_def)
    next
      case False
      then have le: "v ?mid \<le> a" by simp
      show ?thesis
      proof (cases "?mid = n - 1")
        case True
        with lo False le show ?thesis by (simp add: search_loop.simps[of v a n lo hi] Let_def)
      next
        case last: False
        then have next_: "?mid + 1 < n" using mid by simp
        have below: "v j \<le> a" if "j \<le> ?mid" for j
        proof -
          have "v j \<le> v ?mid" using 1(3) that mid(3) by (simp add: in_order_def)
          with le show ?thesis by (rule order_trans[rotated])
        qed
        show ?thesis
        proof (cases "a < v (?mid + 1)")
          case True
          have "v (?mid + 1) \<le> v (n - 1)" using 1(3) next_ by (simp add: in_order_def)
          then have "\<not> v (n - 1) \<le> a" using True by simp
          moreover have "entries_below v a n = ?mid + 1"
            using 1(3) next_ below True by (intro entries_below_step) simp_all
          ultimately show ?thesis
            using lo False last True mid by (simp add: search_loop.simps[of v a n lo hi] Let_def)
        next
          case False
          have hi: "?mid + 1 \<le> hi" using mid by simp
          have "(case search_loop v a n (?mid + 1) hi of None \<Rightarrow> None | Some i \<Rightarrow> if i < n then Some i else None)
            = (if v (n - 1) \<le> a then None else Some (entries_below v a n - 1))"
            using lo leD[OF le] last False hi next_ 1(3,4,6,8) below by (intro 1(2)[OF _ refl]) auto
          with lo leD[OF le] last False show ?thesis by (simp add: search_loop.simps[of v a n lo hi] Let_def)
        qed
      qed
    qed
  qed
qed

lemma search_is_scan:
  assumes "in_order val count"
  shows "FIRCLSCompactUnwindBinarySearchSecondLevel address count val
    = (if count = 0 \<or> address = 0 \<or> val (count - 1) \<le> address then None else Some (entries_below val address count - 1))"
  using search_loop_scan[OF assms, of 0 count address]
  by (auto simp: FIRCLSCompactUnwindBinarySearchSecondLevel_def)

lemma entries_below_bracket:
  assumes "in_order val count" "0 < count" "val 0 \<le> address" "address < val (count - 1)"
  shows "0 < entries_below val address count" "entries_below val address count < count"
    "val (entries_below val address count - 1) \<le> address" "address < val (entries_below val address count)"
proof -
  let ?P = "\<lambda>i. val i \<le> address" and ?n = "entries_below val address count"
  have "\<not> ?P (count - 1)" "count - 1 \<in> set [0..<count]" using assms(2,4) by simp_all
  then have "\<not> list_all ?P [0..<count]" by (auto simp: list_all_iff)
  then have "takeWhile ?P [0..<count] \<noteq> [0..<count]" by (metis set_takeWhileD list_all_iff)
  moreover have tw: "takeWhile ?P [0..<count] = take ?n [0..<count]"
    by (metis entries_below_def takeWhile_eq_take)
  ultimately show n: "?n < count" by (metis diff_zero length_upt linorder_not_less take_all)
  then show "address < val ?n"
    using nth_length_takeWhile[of ?P "[0..<count]"] by (simp add: entries_below_def not_le)
  then show z: "0 < ?n" using assms(3) by (cases "?n = 0") auto
  have "[0..<count] ! (?n - 1) \<in> set (takeWhile ?P [0..<count])"
    using n z unfolding tw by (auto simp: in_set_conv_nth intro!: exI[of _ "?n - 1"])
  then show "val (?n - 1) \<le> address" using n by (auto dest!: set_takeWhileD)
qed

text \<open>
  C28: Second-level search. On a page whose entries are in the order of their offsets, an address
  (not 0) at or above the first offset and below the last one is found: the binary search returns the
  one entry whose function contains it. It gives up on an empty page and on address 0. (The addresses
  of the last function are not covered: see \<open>last_entry_not_found\<close>.)
\<close>

theorem compact_search_scans:
  assumes "in_order val count"
  shows "(if count = 0 \<or> address = 0 then FIRCLSCompactUnwindBinarySearchSecondLevel address count val = None
    else val 0 \<le> address \<and> address < val (count - 1) \<longrightarrow>
      (\<exists>i. FIRCLSCompactUnwindBinarySearchSecondLevel address count val = Some i \<and> i + 1 < count \<and>
         val i \<le> address \<and> address < val (i + 1)))"
  using entries_below_bracket[OF assms, of address] by (auto simp: search_is_scan[OF assms])

lemma compact_search_scans_witness:
  "\<exists>i. FIRCLSCompactUnwindBinarySearchSecondLevel 0x25 4 (\<lambda>i. of_nat (16 * i)) = Some i \<and> i + 1 < 4 \<and>
     of_nat (16 * i) \<le> (0x25 :: u64) \<and> (0x25 :: u64) < of_nat (16 * (i + 1))"
proof -
  have "in_order (\<lambda>i. of_nat (16 * i)) 4"
    by (auto simp: in_order_def word_le_nat_alt unat_word_ariths unat_of_nat)
  from compact_search_scans[OF this, of "0x25"] show ?thesis by simp
qed

text \<open>
  The search gives up as soon as it stands on the last entry, so no address of the last function of a
  page is ever found, although the caller provides for that entry.
\<close>

lemma last_entry_not_found:
  "in_order val count \<Longrightarrow> 0 < count \<Longrightarrow> val (count - 1) \<le> address \<Longrightarrow>
     FIRCLSCompactUnwindBinarySearchSecondLevel address count val = None"
  by (simp add: search_is_scan)

subsection \<open>A lookup finds the function of the pc\<close>

lemma lookup_sound:
  assumes "FIRCLSCompactUnwindLookup fmt ctx pc = Some (ctx2, r)"
  shows "functionStart r \<le> pc" "pc < functionEnd r" "encoding r \<noteq> 0"
  using assms by (auto simp: FIRCLSCompactUnwindLookup_def FIRCLSCompactUnwindLookupSecondLevel_def Let_def
      FIRCLSCompactUnwindLookupSecondLevelRegular_def FIRCLSCompactUnwindLookupSecondLevelCompressed_def
      split: Option.bind_splits if_splits option.splits)

subsection \<open>Unwinding by link register and by frame pointer\<close>

definition FIRCLSUnwindWithLRRegister :: "thread_context \<Rightarrow> thread_context option" where
  "FIRCLSUnwindWithLRRegister regs =
     (let val = FIRCLSThreadContextGetLinkRegister regs in
      if \<not> FIRCLSIsValidPointer (unat val) then None else Some (FIRCLSThreadContextSetPC regs val))"

definition FIRCLSUnwindStackPointerFromFramePointer :: "u64 \<Rightarrow> u64" where
  "FIRCLSUnwindStackPointerFromFramePointer framePtr = framePtr + 16"

definition FIRCLSUnwindWithFramePointer :: "memory \<Rightarrow> thread_context \<Rightarrow> bool \<Rightarrow> thread_context option" where
  "FIRCLSUnwindWithFramePointer m regs allowScanning =
     (case (if allowScanning then FIRCLSUnwindWithLRRegister regs else None) of
        Some r \<Rightarrow> Some r
      | None \<Rightarrow>
          let framePointer = FIRCLSThreadContextGetFramePointer regs in
          case FIRCLSReadMemory m framePointer 16 of
            None \<Rightarrow> None
          | Some st \<Rightarrow>
              Some (FIRCLSThreadContextSetStackPointer
                (FIRCLSThreadContextSetFramePointer (FIRCLSThreadContextSetPC regs (le_word (drop 8 st))) (le_word (take 8 st)))
                (FIRCLSUnwindStackPointerFromFramePointer framePointer)))"

definition FIRCLSCompactUnwindComputeRegisters ::
    "memory \<Rightarrow> unwind_format \<Rightarrow> FIRCLSDwarfCFIRecord \<Rightarrow> compact_context \<Rightarrow> compact_result \<Rightarrow> thread_context \<Rightarrow> thread_context option option" where
  "FIRCLSCompactUnwindComputeRegisters m fmt junk ctx result regs =
     (case mode fmt (encoding result) of
        Frameless \<Rightarrow> Some (FIRCLSUnwindWithLRRegister regs)
      | DwarfFrame off \<Rightarrow> FIRCLSCompactUnwindDwarfFrame m junk (cu_ehFrame ctx) off regs
      | FramePointer \<Rightarrow> Some (FIRCLSUnwindWithFramePointer m regs False)
      | InvalidMode \<Rightarrow> Some None)"

definition FIRCLSCompactUnwindLookupAndCompute ::
    "memory \<Rightarrow> unwind_format \<Rightarrow> FIRCLSDwarfCFIRecord \<Rightarrow> compact_context \<Rightarrow> thread_context \<Rightarrow> thread_context option option" where
  "FIRCLSCompactUnwindLookupAndCompute m fmt junk ctx regs =
     (let pc = FIRCLSThreadContextGetPC regs in
      if pc < loadAddress ctx then Some None
      else case FIRCLSCompactUnwindLookup fmt ctx pc of
        None \<Rightarrow> Some None
      | Some (ctx, result) \<Rightarrow> FIRCLSCompactUnwindComputeRegisters m fmt junk ctx result regs)"

end
