(* ===== verification/Unwind_Walk.thy ===== *)
theory Unwind_Walk
  imports Compact_Unwind
begin

text \<open>
  Walking the stack of a thread (FIRCLSUnwind.c) and recording its frames (the loop of
  \<open>FIRCLSProcessRecordThread\<close> in FIRCLSProcess.c), on arm64 devices.

  The loaded images are known to the dynamic linker; \<open>find_image\<close> is its answer for an address.
\<close>

subsection \<open>The frame context\<close>

record image =
  baseAddress :: u64
  unwindInfo :: nat
  unwindSection :: "unwind_section option"
  ehFrame :: nat

text \<open>The state of the compact lookup is written anew by every use and is not kept here.\<close>

record unwind_context =
  uc_registers :: thread_context
  frameCount :: u32
  lastFramePC :: u64
  repeatCount :: u32

abbreviation (input) FIRCLSUnwindMaxFrames :: u32 where "FIRCLSUnwindMaxFrames \<equiv> 100000"
abbreviation (input) FIRCLSUnwindInfiniteRecursionCountThreshold :: u32 where
  "FIRCLSUnwindInfiniteRecursionCountThreshold \<equiv> 10"

definition FIRCLSUnwindInit :: "thread_context \<Rightarrow> unwind_context" where
  "FIRCLSUnwindInit regs = \<lparr>uc_registers = regs, frameCount = 0, lastFramePC = 0, repeatCount = 0\<rparr>"

definition FIRCLSUnwindGetPC :: "unwind_context \<Rightarrow> u64" where
  "FIRCLSUnwindGetPC ctx = FIRCLSThreadContextGetPC (uc_registers ctx)"

definition FIRCLSUnwindGetStackPointer :: "unwind_context \<Rightarrow> u64" where
  "FIRCLSUnwindGetStackPointer ctx = FIRCLSThreadContextGetStackPointer (uc_registers ctx)"

definition FIRCLSUnwindGetFramePointer :: "unwind_context \<Rightarrow> u64" where
  "FIRCLSUnwindGetFramePointer ctx = FIRCLSThreadContextGetFramePointer (uc_registers ctx)"

definition FIRCLSUnwindGetFrameRepeatCount :: "unwind_context \<Rightarrow> u32" where
  "FIRCLSUnwindGetFrameRepeatCount ctx = repeatCount ctx"

definition FIRCLSUnwindContextHasValidPCAndSP :: "unwind_context \<Rightarrow> bool" where
  "FIRCLSUnwindContextHasValidPCAndSP ctx \<longleftrightarrow>
     FIRCLSIsValidPointer (unat (FIRCLSUnwindGetPC ctx)) \<and> FIRCLSIsValidPointer (unat (FIRCLSUnwindGetStackPointer ctx))"

subsection \<open>The next frame\<close>

text \<open>As for a single frame, \<open>Some None\<close> is false and \<open>None\<close> a fault.\<close>

definition FIRCLSUnwindWithCompactUnwindInfo ::
    "memory \<Rightarrow> unwind_format \<Rightarrow> FIRCLSDwarfCFIRecord \<Rightarrow> (u64 \<Rightarrow> image option) \<Rightarrow> thread_context \<Rightarrow> thread_context option option" where
  "FIRCLSUnwindWithCompactUnwindInfo m fmt junk find_image regs =
     (case find_image (FIRCLSThreadContextGetPC regs) of
        None \<Rightarrow> Some None
      | Some img \<Rightarrow>
          if unwindInfo img = 0 then Some None
          else case FIRCLSCompactUnwindInit fmt (unwindInfo img) (unwindSection img) (ehFrame img) (baseAddress img) of
            None \<Rightarrow> Some None
          | Some ctx \<Rightarrow> FIRCLSCompactUnwindLookupAndCompute m fmt junk ctx regs)"

type_synonym frame_strategy = "thread_context \<Rightarrow> thread_context option option"

definition FIRCLSUnwindNextFrameUsingAllStrategies ::
    "memory \<Rightarrow> frame_strategy \<Rightarrow> unwind_context \<Rightarrow> (bool \<times> unwind_context) option" where
  "FIRCLSUnwindNextFrameUsingAllStrategies m compact ctx =
     (if FIRCLSUnwindMaxFrames \<le> frameCount ctx then Some (False, ctx)
      else
        let pc = FIRCLSUnwindGetPC ctx;
            (pc, ctx) = (if 0 < frameCount ctx
              then (pc - 1, ctx\<lparr>uc_registers := FIRCLSThreadContextSetPC (uc_registers ctx) (pc - 1)\<rparr>) else (pc, ctx)) in
        if \<not> FIRCLSIsValidPointer (unat pc) then Some (False, ctx)
        else if frameCount ctx = 0 then Some (True, ctx)
        else case compact (uc_registers ctx) of
          None \<Rightarrow> None
        | Some (Some regs) \<Rightarrow> Some (True, ctx\<lparr>uc_registers := regs\<rparr>)
        | Some None \<Rightarrow>
            if FIRCLSUnwindGetFramePointer ctx = 0
            then Some (True, ctx\<lparr>uc_registers := FIRCLSThreadContextSetPC (uc_registers ctx) 0\<rparr>)
            else case FIRCLSUnwindWithFramePointer m (uc_registers ctx) (frameCount ctx = 1) of
              Some regs \<Rightarrow> Some (True, ctx\<lparr>uc_registers := regs\<rparr>)
            | None \<Rightarrow> Some (False, ctx))"

definition FIRCLSUnwindNextFrame :: "memory \<Rightarrow> frame_strategy \<Rightarrow> unwind_context \<Rightarrow> (bool \<times> unwind_context) option" where
  "FIRCLSUnwindNextFrame m compact ctx =
     (if \<not> FIRCLSUnwindContextHasValidPCAndSP ctx then Some (False, ctx)
      else do { (ok, ctx) \<leftarrow> FIRCLSUnwindNextFrameUsingAllStrategies m compact ctx;
        if \<not> ok then Some (False, ctx)
        else let pc = FIRCLSUnwindGetPC ctx; sp = FIRCLSUnwindGetStackPointer ctx in
          if \<not> FIRCLSIsValidPointer (unat pc) then Some (False, ctx)
          else if \<not> FIRCLSIsValidPointer (unat sp) then Some (False, ctx)
          else Some (True, ctx\<lparr>repeatCount := (if lastFramePC ctx = pc then repeatCount ctx + 1 else 0),
            frameCount := frameCount ctx + 1, lastFramePC := pc\<rparr>) })"

subsection \<open>The frames of a thread\<close>

record trace =
  repeatedPCCount :: u32
  repeatedPC :: u64
  written :: "u64 list"

definition record_frame :: "unwind_context \<Rightarrow> trace \<Rightarrow> trace" where
  "record_frame ctx t =
     (let pc = FIRCLSUnwindGetPC ctx; repeats = FIRCLSUnwindGetFrameRepeatCount ctx in
      if repeatedPC t = pc \<and> repeatedPC t \<noteq> 0 then t\<lparr>repeatedPCCount := repeats\<rparr>
      else if FIRCLSUnwindInfiniteRecursionCountThreshold \<le> repeats \<and> repeatedPC t = 0 then t\<lparr>repeatedPC := pc\<rparr>
      else t\<lparr>written := written t @ [pc]\<rparr>)"

lemma strategies_count:
  "FIRCLSUnwindNextFrameUsingAllStrategies m compact ctx = Some (True, ctx2) \<Longrightarrow>
     frameCount ctx < FIRCLSUnwindMaxFrames \<and> frameCount ctx2 = frameCount ctx"
  by (auto simp: FIRCLSUnwindNextFrameUsingAllStrategies_def Let_def not_le split: if_splits option.splits)

lemma next_frame_count:
  "FIRCLSUnwindNextFrame m compact ctx = Some (True, ctx2) \<Longrightarrow>
     frameCount ctx < FIRCLSUnwindMaxFrames \<and> frameCount ctx2 = frameCount ctx + 1 \<and>
     FIRCLSIsValidPointer (unat (FIRCLSUnwindGetPC ctx2))"
  by (auto simp: FIRCLSUnwindNextFrame_def Let_def FIRCLSUnwindGetPC_def dest!: strategies_count split: if_splits Option.bind_splits)

lemma count_step: "c < FIRCLSUnwindMaxFrames \<Longrightarrow> unat (c + 1) = unat c + 1 \<and> unat c < 100000"
  by (simp add: word_less_nat_alt unat_word_ariths)

function record_frames :: "memory \<Rightarrow> frame_strategy \<Rightarrow> unwind_context \<Rightarrow> trace \<Rightarrow> trace option" where
  "record_frames m compact ctx t =
     (case FIRCLSUnwindNextFrame m compact ctx of
        None \<Rightarrow> None
      | Some (False, _) \<Rightarrow> Some t
      | Some (True, ctx) \<Rightarrow> record_frames m compact ctx (record_frame ctx t))"
  by pat_completeness auto
termination
  by (relation "measure (\<lambda>(_, _, ctx, _). 100000 - unat (frameCount ctx))")
    (auto dest!: next_frame_count count_step)

declare record_frames.simps [simp del]

definition thread_trace :: "memory \<Rightarrow> frame_strategy \<Rightarrow> thread_context \<Rightarrow> trace option" where
  "thread_trace m compact regs =
     record_frames m compact (FIRCLSUnwindInit regs) \<lparr>repeatedPCCount = 0, repeatedPC = 0, written = []\<rparr>"

subsection \<open>Every walk ends\<close>

text \<open>One turn of the loop.\<close>

lemma record_frames_stop:
  "FIRCLSUnwindNextFrame m compact ctx = Some (False, ctx2) \<Longrightarrow> record_frames m compact ctx t = Some t"
  by (simp add: record_frames.simps[of m compact ctx t])

lemma record_frames_go:
  "FIRCLSUnwindNextFrame m compact ctx = Some (True, ctx2) \<Longrightarrow>
     record_frames m compact ctx t = record_frames m compact ctx2 (record_frame ctx2 t)"
  by (simp add: record_frames.simps[of m compact ctx t])

definition trace_ok :: "unwind_context \<Rightarrow> trace \<Rightarrow> bool" where
  "trace_ok ctx t \<longleftrightarrow> length (written t) \<le> unat (frameCount ctx) \<and> list_all (\<lambda>pc. FIRCLSIsValidPointer (unat pc)) (written t)"

lemma record_frame_ok:
  assumes "FIRCLSUnwindNextFrame m compact ctx = Some (True, ctx2)" "trace_ok ctx t"
  shows "trace_ok ctx2 (record_frame ctx2 t)"
proof -
  have c: "unat (frameCount ctx2) = unat (frameCount ctx) + 1" "FIRCLSIsValidPointer (unat (FIRCLSUnwindGetPC ctx2))"
    using next_frame_count[OF assms(1)] count_step[of "frameCount ctx"] by simp_all
  have "length (written (record_frame ctx2 t)) \<le> length (written t) + 1"
    by (simp add: record_frame_def Let_def)
  moreover have "list_all (\<lambda>pc. FIRCLSIsValidPointer (unat pc)) (written (record_frame ctx2 t))"
    using assms(2) c(2) by (simp add: record_frame_def Let_def trace_ok_def)
  ultimately show ?thesis
    using assms(2) c(1) by (simp add: trace_ok_def)
qed

lemma strategies_total:
  assumes "\<And>r. compact r \<noteq> None"
  shows "FIRCLSUnwindNextFrameUsingAllStrategies m compact ctx \<noteq> None"
proof -
  obtain f where "compact = (\<lambda>r. Some (f r))"
    by (rule that[of "\<lambda>r. the (compact r)"]) (use assms in \<open>auto simp: fun_eq_iff\<close>)
  then show ?thesis
    by (simp add: FIRCLSUnwindNextFrameUsingAllStrategies_def Let_def ex_bool_eq split: option.split)
qed

lemma next_frame_total:
  assumes "\<And>r. compact r \<noteq> None"
  shows "FIRCLSUnwindNextFrame m compact ctx \<noteq> None"
proof -
  obtain ok ctx2 where "FIRCLSUnwindNextFrameUsingAllStrategies m compact ctx = Some (ok, ctx2)"
    using strategies_total[where compact = compact and m = m and ctx = ctx, OF assms] by auto
  then show ?thesis by (simp add: FIRCLSUnwindNextFrame_def Let_def ex_bool_eq)
qed

lemma record_frames_total: "(\<And>r. compact r \<noteq> None) \<Longrightarrow> record_frames m compact ctx t \<noteq> None"
proof (induction m compact ctx t rule: record_frames.induct)
  case (1 m compact ctx t)
  obtain ok ctx2 where n: "FIRCLSUnwindNextFrame m compact ctx = Some (ok, ctx2)"
    using next_frame_total[where compact = compact and m = m and ctx = ctx, OF 1(2)] by auto
  show ?case
  proof (cases ok)
    case True
    with 1(1)[OF n _ refl 1(2)] n show ?thesis by (simp add: record_frames_go)
  qed (use n in \<open>simp add: record_frames_stop\<close>)
qed

lemma record_frames_ok:
  "record_frames m compact ctx t = Some t2 \<Longrightarrow> trace_ok ctx t \<Longrightarrow> unat (frameCount ctx) \<le> 100000 \<Longrightarrow>
     length (written t2) \<le> 100000 \<and> list_all (\<lambda>pc. FIRCLSIsValidPointer (unat pc)) (written t2)"
proof (induction m compact ctx t rule: record_frames.induct)
  case (1 m compact ctx t)
  from 1(2) obtain ok ctx2 where n: "FIRCLSUnwindNextFrame m compact ctx = Some (ok, ctx2)"
    by (auto simp: record_frames.simps[of m compact ctx t] split: option.splits)
  show ?case
  proof (cases ok)
    case False
    with n 1(2-4) show ?thesis by (simp add: record_frames_stop trace_ok_def)
  next
    case True
    with n have n: "FIRCLSUnwindNextFrame m compact ctx = Some (True, ctx2)" by simp
    have "unat (frameCount ctx2) \<le> 100000"
      using next_frame_count[OF n] count_step[of "frameCount ctx"] by simp
    from 1(1)[OF n _ refl 1(2)[unfolded record_frames_go[OF n]] record_frame_ok[OF n 1(3)] this] show ?thesis by simp
  qed
qed

subsection \<open>How the tables say to unwind\<close>

text \<open>The mode of the encoding that the unwind tables of the image have for an address, if any.\<close>

definition table_mode :: "unwind_format \<Rightarrow> (u64 \<Rightarrow> image option) \<Rightarrow> u64 \<Rightarrow> compact_mode option" where
  "table_mode fmt find_image pc =
     do { img \<leftarrow> find_image pc;
          ctx \<leftarrow> (if unwindInfo img = 0 then None
                 else FIRCLSCompactUnwindInit fmt (unwindInfo img) (unwindSection img) (ehFrame img) (baseAddress img));
          (ctx, r) \<leftarrow> (if pc < loadAddress ctx then None else FIRCLSCompactUnwindLookup fmt ctx pc);
          Some (mode fmt (encoding r)) }"

lemma compact_by_mode:
  assumes "pc = FIRCLSThreadContextGetPC regs" "tables = FIRCLSUnwindWithCompactUnwindInfo m fmt junk find_image regs"
  shows "table_mode fmt find_image pc = None \<Longrightarrow> tables = Some None"
    "table_mode fmt find_image pc = Some InvalidMode \<Longrightarrow> tables = Some None"
    "table_mode fmt find_image pc = Some Frameless \<Longrightarrow> tables = Some (FIRCLSUnwindWithLRRegister regs)"
    "table_mode fmt find_image pc = Some FramePointer \<Longrightarrow> tables = Some (FIRCLSUnwindWithFramePointer m regs False)"
  by (auto simp: table_mode_def assms FIRCLSUnwindWithCompactUnwindInfo_def FIRCLSCompactUnwindLookupAndCompute_def
      FIRCLSCompactUnwindComputeRegisters_def Let_def split: option.splits Option.bind_splits if_splits)

lemma fault_by_dwarf:
  "FIRCLSUnwindWithCompactUnwindInfo m fmt junk find_image regs = None \<Longrightarrow>
     \<exists>off. table_mode fmt find_image (FIRCLSThreadContextGetPC regs) = Some (DwarfFrame off)"
  using compact_by_mode[of "FIRCLSThreadContextGetPC regs" regs _ m fmt junk find_image, OF refl refl]
  by (cases "table_mode fmt find_image (FIRCLSThreadContextGetPC regs)"; cases "the (table_mode fmt find_image (FIRCLSThreadContextGetPC regs))")
    auto


subsection \<open>A chain of frames\<close>

text \<open>
  A code address, above the first page and within the 36 bits that reading a register keeps; the
  frames from a frame pointer on: each holds the next frame pointer and a return address.
\<close>

definition code_address :: "u64 \<Rightarrow> bool" where
  "code_address v \<longleftrightarrow> 4096 < unat v \<and> unat v < 2 ^ 36"

definition frame_address :: "u64 \<Rightarrow> bool" where
  "frame_address v \<longleftrightarrow> 4096 \<le> unat v \<and> unat v + 16 < 2 ^ 36"

fun frames_at :: "memory \<Rightarrow> u64 \<Rightarrow> (u64 \<times> u64) list \<Rightarrow> bool" where
  "frames_at m fp [] \<longleftrightarrow> fp = 0"
| "frames_at m fp ((next_fp, ret) # fs) \<longleftrightarrow> frame_address fp \<and> code_address ret \<and>
     holds m (unat fp) (le_bytes 8 (unat next_fp) @ le_bytes 8 (unat ret)) \<and> frames_at m next_fp fs"

lemma strip_small: "unat v < 2 ^ 36 \<Longrightarrow> CLS_PTRAUTH_STRIP v = v"
proof -
  assume v: "unat v < 2 ^ 36"
  have "(0x0000000FFFFFFFFF :: u64) = mask 36" by (simp add: mask_eq_exp_minus_1)
  then have "CLS_PTRAUTH_STRIP v = take_bit 36 v" by (simp add: CLS_PTRAUTH_STRIP_def take_bit_eq_mask)
  also have "\<dots> = v" using v by (simp add: word_unat_eq_iff unat_mod unsigned_take_bit_eq take_bit_eq_mod)
  finally show ?thesis .
qed

lemma code_address_pc:
  assumes "code_address v"
  shows "CLS_PTRAUTH_STRIP v = v" "FIRCLSIsValidPointer (unat v)" "FIRCLSIsValidPointer (unat (v - 1))" "v \<noteq> 0"
proof -
  have "unat (v - 1) = unat v - 1"
    using assms by (subst unat_sub) (auto simp: code_address_def word_le_nat_alt)
  then show "CLS_PTRAUTH_STRIP v = v" "FIRCLSIsValidPointer (unat v)" "FIRCLSIsValidPointer (unat (v - 1))" "v \<noteq> 0"
    using assms strip_small[of v] by (auto simp: code_address_def FIRCLSIsValidPointer_def)
qed

text \<open>A frame below the limit with its pc and stack pointer in place; nothing was repeated.\<close>

definition at_frame :: "unwind_context \<Rightarrow> nat \<Rightarrow> u64 \<Rightarrow> u64 \<Rightarrow> bool" where
  "at_frame ctx n pc fp \<longleftrightarrow> unat (frameCount ctx) = n \<and> ss_pc (uc_registers ctx) = pc \<and> code_address pc \<and>
     FIRCLSIsValidPointer (unat (FIRCLSUnwindGetStackPointer ctx)) \<and> ss_fp (uc_registers ctx) = fp \<and> lastFramePC ctx = pc"

lemma at_frame_pc: "at_frame ctx n pc fp \<Longrightarrow> FIRCLSUnwindGetPC ctx = pc"
  by (simp add: at_frame_def FIRCLSUnwindGetPC_def FIRCLSThreadContextGetPC_def code_address_pc)

text \<open>The next frame by frame pointer.\<close>

lemma with_frame_pointer:
  assumes "frames_at m (ss_fp regs) ((next_fp, ret) # fs)"
  shows "FIRCLSUnwindWithFramePointer m regs False = Some (regs\<lparr>ss_pc := ret, ss_fp := next_fp, ss_sp := ss_fp regs + 16\<rparr>)"
proof -
  have fp: "CLS_PTRAUTH_STRIP (ss_fp regs) = ss_fp regs" "FIRCLSIsValidPointer (unat (ss_fp regs))"
    using assms strip_small[of "ss_fp regs"] by (simp_all add: frame_address_def FIRCLSIsValidPointer_def)
  have "load_bytes m (unat (ss_fp regs)) 16 = Some (le_bytes 8 (unat next_fp) @ le_bytes 8 (unat ret))"
    using assms by (intro load_holds) (simp_all del: le_bytes_numeral)
  moreover have "le_word (le_bytes 8 (unat v)) = v" for v :: u64
    using le_word_bytes[where n = 8 and v = "unat v" and 'a = 64] unsigned_less[of v] by (simp del: le_bytes_numeral)
  ultimately show ?thesis
    using fp by (simp add: FIRCLSUnwindWithFramePointer_def FIRCLSReadMemory_def thread_context_defs Let_def
        FIRCLSUnwindStackPointerFromFramePointer_def del: le_bytes_numeral load_bytes.simps)
qed

text \<open>
  The frames that are unwound by frame pointer: the tables have nothing usable for the address of
  the call, or say so. In both cases the walk continues with the same registers.
\<close>

definition framed :: "unwind_format \<Rightarrow> (u64 \<Rightarrow> image option) \<Rightarrow> u64 \<Rightarrow> bool" where
  "framed fmt find_image pc \<longleftrightarrow> table_mode fmt find_image (pc - 1) \<in> {None, Some InvalidMode, Some FramePointer}"

abbreviation (input) calling :: "unwind_context \<Rightarrow> u64 \<Rightarrow> thread_context" where
  "calling ctx pc \<equiv> FIRCLSThreadContextSetPC (uc_registers ctx) (pc - 1)"

lemma call_pc: "code_address pc \<Longrightarrow> FIRCLSThreadContextGetPC (FIRCLSThreadContextSetPC regs (pc - 1)) = pc - 1"
proof -
  assume pc: "code_address pc"
  have "unat (pc - 1) = unat pc - 1" using pc by (subst unat_sub) (auto simp: code_address_def word_le_nat_alt)
  then have "unat (pc - 1) < 2 ^ 36" using pc unfolding code_address_def by linarith
  from strip_small[OF this] show ?thesis by (simp add: thread_context_defs)
qed

lemma framed_tables:
  assumes "code_address pc" "framed fmt find_image pc"
  shows "FIRCLSUnwindWithCompactUnwindInfo m fmt junk find_image (calling ctx pc) = Some None \<or>
    FIRCLSUnwindWithCompactUnwindInfo m fmt junk find_image (calling ctx pc) = Some (FIRCLSUnwindWithFramePointer m (calling ctx pc) False)"
  using assms(2) compact_by_mode[of "pc - 1" "calling ctx pc" _ m fmt junk find_image, OF call_pc[OF assms(1), symmetric] refl]
  by (auto simp: framed_def)

lemma frame_count:
  assumes "unat (c :: u32) = n" "n < 100000"
  shows "\<not> FIRCLSUnwindMaxFrames \<le> c" "unat (c + 1) = n + 1" "c = 0 \<longleftrightarrow> n = 0" "0 < c \<longleftrightarrow> 0 < n" "c = 1 \<longleftrightarrow> n = 1"
  using assms count_step[of c] by (auto simp: word_less_nat_alt word_le_nat_alt word_unat_eq_iff)

lemma next_frame_by_pointer:
  assumes "at_frame ctx n pc fp" "n < 100000" "frames_at m fp ((next_fp, ret) # fs)"
    "2 \<le> n \<and> tables (calling ctx pc) = Some None \<or>
     0 < n \<and> tables (calling ctx pc) = Some (FIRCLSUnwindWithFramePointer m (calling ctx pc) False)"
  obtains ctx2 where "FIRCLSUnwindNextFrame m tables ctx = Some (True, ctx2)" "at_frame ctx2 (n + 1) ret next_fp"
    "repeatCount ctx2 = (if pc = ret then repeatCount ctx + 1 else 0)"
proof -
  let ?r = "uc_registers ctx"
  have c: "unat (frameCount ctx) = n" "code_address pc" "lastFramePC ctx = pc" "ss_fp ?r = fp"
      "FIRCLSIsValidPointer (unat (FIRCLSUnwindGetStackPointer ctx))"
    using assms(1) by (simp_all add: at_frame_def)
  note f = frame_count[OF c(1) assms(2)]
  have fp: "CLS_PTRAUTH_STRIP fp = fp" "fp \<noteq> 0" "CLS_PTRAUTH_STRIP (fp + 16) = fp + 16" "FIRCLSIsValidPointer (unat (fp + 16))"
  proof -
    have "frame_address fp" using assms(3) by simp
    then have "unat (fp + 16) = unat fp + 16" "unat fp < 2 ^ 36" "4096 \<le> unat fp"
      by (auto simp: frame_address_def unat_word_ariths)
    then show "CLS_PTRAUTH_STRIP fp = fp" "fp \<noteq> 0" "CLS_PTRAUTH_STRIP (fp + 16) = fp + 16" "FIRCLSIsValidPointer (unat (fp + 16))"
      using strip_small[of fp] strip_small[of "fp + 16"] \<open>frame_address fp\<close>
      by (auto simp: FIRCLSIsValidPointer_def frame_address_def)
  qed
  have ret: "code_address ret" using assms(3) by simp
  let ?r1 = "FIRCLSThreadContextSetPC ?r (pc - 1)"
  let ?r2 = "?r1\<lparr>ss_pc := ret, ss_fp := next_fp, ss_sp := fp + 16\<rparr>"
  have r1: "ss_fp ?r1 = fp" using c(4) by (simp add: thread_context_defs)
  have w: "FIRCLSUnwindWithFramePointer m ?r1 False = Some ?r2"
    using with_frame_pointer[of m ?r1 next_fp ret fs, unfolded r1, OF assms(3)] .
  have "FIRCLSUnwindNextFrameUsingAllStrategies m tables ctx = Some (True, ctx\<lparr>uc_registers := ?r2\<rparr>)"
    using f assms(4) at_frame_pc[OF assms(1)] code_address_pc[OF c(2)] c(4) fp w
    by (auto simp: FIRCLSUnwindNextFrameUsingAllStrategies_def FIRCLSUnwindGetFramePointer_def thread_context_defs)
  then have n: "FIRCLSUnwindNextFrame m tables ctx = Some (True, ctx\<lparr>uc_registers := ?r2,
      repeatCount := (if pc = ret then repeatCount ctx + 1 else 0), frameCount := frameCount ctx + 1, lastFramePC := ret\<rparr>)"
    using c at_frame_pc[OF assms(1)] code_address_pc[OF c(2)] code_address_pc[OF ret] fp
    by (simp add: FIRCLSUnwindNextFrame_def FIRCLSUnwindContextHasValidPCAndSP_def FIRCLSUnwindGetPC_def
        FIRCLSUnwindGetStackPointer_def thread_context_defs)
  show thesis
    by (rule that[OF n]) (use f ret fp in \<open>simp_all add: at_frame_def FIRCLSUnwindGetStackPointer_def thread_context_defs\<close>)
qed

lemma next_frame_end:
  assumes "at_frame ctx n pc 0" "0 < n" "n < 100000"
    "tables (calling ctx pc) = Some None \<or> tables (calling ctx pc) = Some (FIRCLSUnwindWithFramePointer m (calling ctx pc) False)"
  obtains ctx2 where "FIRCLSUnwindNextFrame m tables ctx = Some (False, ctx2)"
proof -
  have c: "unat (frameCount ctx) = n" "code_address pc" "ss_fp (uc_registers ctx) = 0"
      "FIRCLSIsValidPointer (unat (FIRCLSUnwindGetStackPointer ctx))"
    using assms(1) by (simp_all add: at_frame_def)
  note f = frame_count[OF c(1) assms(3)]
  have s: "CLS_PTRAUTH_STRIP 0 = 0" by (simp add: CLS_PTRAUTH_STRIP_def)
  have "FIRCLSUnwindWithFramePointer m (calling ctx pc) False = None"
    using c(3) s by (simp add: FIRCLSUnwindWithFramePointer_def FIRCLSReadMemory_def FIRCLSIsValidPointer_def thread_context_defs)
  with assms(4) have t: "tables (calling ctx pc) = Some None" by auto
  obtain ctx2 where "FIRCLSUnwindNextFrameUsingAllStrategies m tables ctx = Some (True, ctx2)" "FIRCLSUnwindGetPC ctx2 = 0"
    using f assms(2) at_frame_pc[OF assms(1)] code_address_pc[OF c(2)] c(3) s t
    by (simp add: FIRCLSUnwindNextFrameUsingAllStrategies_def FIRCLSUnwindGetFramePointer_def FIRCLSUnwindGetPC_def
        thread_context_defs)
  then have "FIRCLSUnwindNextFrame m tables ctx = Some (False, ctx2)"
    using c(4) at_frame_pc[OF assms(1)] code_address_pc[OF c(2)]
    by (simp add: FIRCLSUnwindNextFrame_def FIRCLSUnwindContextHasValidPCAndSP_def FIRCLSIsValidPointer_def)
  then show thesis by (rule that)
qed

text \<open>
  Addresses of which none occurs more than ten times in a row; \<open>k\<close> counts how often the first one
  has been repeated.
\<close>

fun short_runs :: "nat \<Rightarrow> u64 list \<Rightarrow> bool" where
  "short_runs k (x # y # ys) \<longleftrightarrow> (if x = y then k + 1 < 10 \<and> short_runs (k + 1) (y # ys) else short_runs 0 (y # ys))"
| "short_runs k xs \<longleftrightarrow> True"

lemma record_new:
  assumes "at_frame ctx n pc fp" "repeatedPC t = 0" "unat (repeatCount ctx) < 10"
  shows "record_frame ctx t = t\<lparr>written := written t @ [pc]\<rparr>"
  using assms at_frame_pc[OF assms(1)] code_address_pc(4)[of pc]
  by (auto simp: record_frame_def FIRCLSUnwindGetFrameRepeatCount_def at_frame_def word_le_nat_alt Let_def)

text \<open>The addresses that follow a pc along the frames.\<close>

lemma record_chain:
  fixes fmt junk find_image m
  defines "tables \<equiv> FIRCLSUnwindWithCompactUnwindInfo m fmt junk find_image"
  shows "at_frame ctx n pc fp \<Longrightarrow> 2 \<le> n \<Longrightarrow> n + length fs < 100000 \<Longrightarrow> frames_at m fp fs \<Longrightarrow>
     \<forall>a \<in> set (pc # map snd fs). framed fmt find_image a \<Longrightarrow> short_runs (unat (repeatCount ctx)) (pc # map snd fs) \<Longrightarrow>
     repeatedPC t = 0 \<Longrightarrow> record_frames m tables ctx t = Some (t\<lparr>written := written t @ map snd fs\<rparr>)"
proof (induction fs arbitrary: ctx n pc fp t)
  case Nil
  then have c: "at_frame ctx n pc 0" "0 < n" "n < 100000" "code_address pc" "framed fmt find_image pc"
    by (simp_all add: at_frame_def)
  obtain ctx2 where "FIRCLSUnwindNextFrame m tables ctx = Some (False, ctx2)"
    by (rule next_frame_end[OF c(1-3), of tables m]) (use framed_tables[OF c(4,5), of m junk ctx] in \<open>simp add: tables_def\<close>)
  then show ?case by (simp add: record_frames_stop)
next
  case (Cons x fs)
  obtain next_fp ret where x: "x = (next_fp, ret)" by (cases x)
  have pc: "code_address pc" "framed fmt find_image pc" using Cons.prems(1,5) by (simp_all add: at_frame_def)
  obtain ctx2 where n: "FIRCLSUnwindNextFrame m tables ctx = Some (True, ctx2)" "at_frame ctx2 (n + 1) ret next_fp"
      "repeatCount ctx2 = (if pc = ret then repeatCount ctx + 1 else 0)"
    by (rule next_frame_by_pointer[OF Cons.prems(1) _ Cons.prems(4)[unfolded x], of tables])
      (use Cons.prems(2,3) framed_tables[OF pc, of m junk ctx] in \<open>auto simp: tables_def\<close>)
  have runs: "unat (repeatCount ctx2) < 10" "short_runs (unat (repeatCount ctx2)) (ret # map snd fs)"
  proof -
    have "unat (repeatCount ctx + 1) = unat (repeatCount ctx) + 1" if "unat (repeatCount ctx) + 1 < 10"
      using that by (simp add: unat_word_ariths)
    then show "unat (repeatCount ctx2) < 10" "short_runs (unat (repeatCount ctx2)) (ret # map snd fs)"
      using Cons.prems(6) n(3) by (auto simp: x split: if_splits)
  qed
  have r: "record_frame ctx2 t = t\<lparr>written := written t @ [ret]\<rparr>" by (rule record_new[OF n(2) Cons.prems(7) runs(1)])
  have "record_frames m tables ctx2 (record_frame ctx2 t) = Some ((record_frame ctx2 t)\<lparr>written := written (record_frame ctx2 t) @ map snd fs\<rparr>)"
    using Cons.prems(2,3,4,5,7) n(2) runs(2)
    by (intro Cons.IH[of ctx2 "n + 1" ret next_fp]) (simp_all add: x r)
  then show ?case by (simp add: record_frames_go[OF n(1)] r x)
qed

text \<open>The first frame is the thread's own; a leaf's caller comes from the link register.\<close>

lemma first_frame:
  assumes "code_address (ss_pc regs)" "FIRCLSIsValidPointer (unat (FIRCLSThreadContextGetStackPointer regs))"
  shows "FIRCLSUnwindNextFrame m tables (FIRCLSUnwindInit regs)
    = Some (True, \<lparr>uc_registers = regs, frameCount = 1, lastFramePC = ss_pc regs, repeatCount = 0\<rparr>)"
  using assms(2) code_address_pc[OF assms(1)]
  by (simp add: FIRCLSUnwindNextFrame_def FIRCLSUnwindNextFrameUsingAllStrategies_def FIRCLSUnwindInit_def
      FIRCLSUnwindContextHasValidPCAndSP_def FIRCLSUnwindGetPC_def FIRCLSUnwindGetStackPointer_def thread_context_defs)

lemma second_frame:
  assumes "code_address (ss_pc regs)" "FIRCLSIsValidPointer (unat (FIRCLSThreadContextGetStackPointer regs))"
    "code_address (ss_lr regs)" "FIRCLSThreadContextGetFramePointer regs \<noteq> 0"
    "tables (FIRCLSThreadContextSetPC regs (ss_pc regs - 1)) \<in>
       {Some None, Some (FIRCLSUnwindWithLRRegister (FIRCLSThreadContextSetPC regs (ss_pc regs - 1)))}"
  shows "FIRCLSUnwindNextFrame m tables \<lparr>uc_registers = regs, frameCount = 1, lastFramePC = ss_pc regs, repeatCount = 0\<rparr>
    = Some (True, \<lparr>uc_registers = regs\<lparr>ss_pc := ss_lr regs\<rparr>, frameCount = 2, lastFramePC = ss_lr regs,
        repeatCount = (if ss_pc regs = ss_lr regs then 1 else 0)\<rparr>)"
proof -
  have lr: "FIRCLSUnwindWithLRRegister (FIRCLSThreadContextSetPC regs (ss_pc regs - 1)) = Some (regs\<lparr>ss_pc := ss_lr regs\<rparr>)"
    using code_address_pc[OF assms(3)] by (simp add: FIRCLSUnwindWithLRRegister_def thread_context_defs Let_def)
  have "FIRCLSUnwindNextFrameUsingAllStrategies m tables \<lparr>uc_registers = regs, frameCount = 1, lastFramePC = ss_pc regs, repeatCount = 0\<rparr>
    = Some (True, \<lparr>uc_registers = regs\<lparr>ss_pc := ss_lr regs\<rparr>, frameCount = 1, lastFramePC = ss_pc regs, repeatCount = 0\<rparr>)"
    using assms(4,5) lr code_address_pc[OF assms(1)] code_address_pc[OF assms(3)]
    by (auto simp: FIRCLSUnwindNextFrameUsingAllStrategies_def FIRCLSUnwindWithFramePointer_def
        FIRCLSUnwindGetPC_def FIRCLSUnwindGetFramePointer_def thread_context_defs Let_def word_le_nat_alt[of _ 1])
  then show ?thesis
    using assms(2) code_address_pc[OF assms(1)] code_address_pc[OF assms(3)]
    by (simp add: FIRCLSUnwindNextFrame_def FIRCLSUnwindContextHasValidPCAndSP_def FIRCLSUnwindGetPC_def
        FIRCLSUnwindGetStackPointer_def thread_context_defs Let_def)
qed

text \<open>
  The caller of the first frame: the link register when its function is a leaf (its encoding is
  frameless, or the tables have nothing usable), the saved return address when it has a frame.
\<close>

definition first_callers ::
    "unwind_format \<Rightarrow> (u64 \<Rightarrow> image option) \<Rightarrow> thread_context \<Rightarrow> (u64 \<times> u64) list \<Rightarrow> u64 list \<Rightarrow> bool" where
  "first_callers fmt find_image regs fs callers \<longleftrightarrow>
     table_mode fmt find_image (ss_pc regs - 1) \<in> {None, Some InvalidMode, Some Frameless} \<and> code_address (ss_lr regs) \<and>
       callers = ss_lr regs # map snd fs \<or>
     table_mode fmt find_image (ss_pc regs - 1) = Some FramePointer \<and> callers = map snd fs"

text \<open>
  C15: Stack trace. Let the stack of a thread be a chain of at least one and fewer than 99998 frames
  that ends with a null frame pointer, its addresses above the first page and within 36 bits. Let the
  unwind tables say, for the call in every caller, that it is unwound by frame pointer, or nothing
  usable (so no caller is frameless or needs DWARF); let the first function be framed by its table
  entry, or a leaf. Then, unless an address occurs eleven times in a row, the recorded trace is the
  pc, for a leaf the link register, and the return addresses of the frames, in order.
\<close>

theorem stack_trace_of_frames:
  assumes "code_address (ss_pc regs)" "FIRCLSIsValidPointer (unat (FIRCLSThreadContextGetStackPointer regs))"
    "frames_at m (ss_fp regs) fs" "fs \<noteq> []" "length fs < 99998" "first_callers fmt find_image regs fs callers"
    "\<forall>a \<in> set callers. framed fmt find_image a" "short_runs 0 (ss_pc regs # callers)"
  shows "thread_trace m (FIRCLSUnwindWithCompactUnwindInfo m fmt junk find_image) regs
    = Some \<lparr>repeatedPCCount = 0, repeatedPC = 0, written = ss_pc regs # callers\<rparr>"
proof -
  obtain next_fp ret fs' where fs: "fs = (next_fp, ret) # fs'" using assms(4) by (cases fs) auto
  then have fp: "FIRCLSThreadContextGetFramePointer regs \<noteq> 0"
    using assms(3) strip_small[of "ss_fp regs"] by (auto simp: frame_address_def thread_context_defs)
  let ?tables = "FIRCLSUnwindWithCompactUnwindInfo m fmt junk find_image"
  let ?c1 = "\<lparr>uc_registers = regs, frameCount = 1, lastFramePC = ss_pc regs, repeatCount = 0\<rparr>"
  let ?t = "\<lambda>ws. \<lparr>repeatedPCCount = 0, repeatedPC = 0, written = ws\<rparr>"
  let ?r1 = "FIRCLSThreadContextSetPC regs (ss_pc regs - 1)"
  have at1: "at_frame ?c1 1 (ss_pc regs) (ss_fp regs)"
    using assms(1,2) by (simp add: at_frame_def FIRCLSUnwindGetStackPointer_def)
  have start: "thread_trace m ?tables regs = record_frames m ?tables ?c1 (?t [ss_pc regs])"
    unfolding thread_trace_def record_frames_go[OF first_frame[OF assms(1,2)]] by (subst record_new[OF at1]) simp_all
  note mode = compact_by_mode[of "ss_pc regs - 1" "?r1" "?tables ?r1" m fmt junk find_image, OF call_pc[OF assms(1), symmetric] refl]
  obtain ctx2 pc fp fs2 where c2: "FIRCLSUnwindNextFrame m ?tables ?c1 = Some (True, ctx2)" "at_frame ctx2 2 pc fp"
    "repeatCount ctx2 = (if ss_pc regs = pc then 1 else 0)" "frames_at m fp fs2" "callers = pc # map snd fs2" "length fs2 < 99998"
  proof (cases "table_mode fmt find_image (ss_pc regs - 1) = Some FramePointer")
    case True
    obtain ctx2 where "FIRCLSUnwindNextFrame m ?tables ?c1 = Some (True, ctx2)" "at_frame ctx2 (1 + 1) ret next_fp"
        "repeatCount ctx2 = (if ss_pc regs = ret then repeatCount ?c1 + 1 else 0)"
      by (rule next_frame_by_pointer[OF at1 _ assms(3)[unfolded fs], of ?tables]) (use mode(4)[OF True] in simp_all)
    moreover have "frames_at m next_fp fs'" using assms(3) by (simp add: fs del: le_bytes_numeral)
    moreover have "callers = ret # map snd fs'" using assms(6) True by (simp add: first_callers_def fs)
    ultimately show thesis
      using assms(5) by (intro that[of ctx2 ret next_fp fs']) (simp_all add: fs numeral_2_eq_2)
  next
    case False
    with assms(6) have leaf: "table_mode fmt find_image (ss_pc regs - 1) \<in> {None, Some InvalidMode, Some Frameless}"
      "code_address (ss_lr regs)" "callers = ss_lr regs # map snd fs" by (auto simp: first_callers_def)
    have "?tables (FIRCLSThreadContextSetPC regs (ss_pc regs - 1)) \<in>
        {Some None, Some (FIRCLSUnwindWithLRRegister (FIRCLSThreadContextSetPC regs (ss_pc regs - 1)))}"
      using leaf(1) mode(1-3) by auto
    note n = second_frame[where tables = ?tables, OF assms(1,2) leaf(2) fp this]
    show thesis
      by (rule that[OF n _ _ assms(3) leaf(3) assms(5)])
        (use leaf(2) assms(2) in \<open>simp_all add: at_frame_def FIRCLSUnwindGetStackPointer_def thread_context_defs\<close>)
  qed
  have runs: "unat (repeatCount ctx2) < 10" "short_runs (unat (repeatCount ctx2)) callers"
    using assms(8) c2(3,5) by (auto split: if_splits)
  have "record_frames m ?tables ?c1 (?t [ss_pc regs]) = record_frames m ?tables ctx2 (?t [ss_pc regs, pc])"
    unfolding record_frames_go[OF c2(1)] by (subst record_new[OF c2(2) _ runs(1)]) simp_all
  also have "\<dots> = Some (?t (ss_pc regs # callers))"
    using record_chain[OF c2(2) _ _ c2(4), of fmt find_image] assms(7) runs(2) c2(5,6) by simp
  finally show ?thesis using start by simp
qed

text \<open>
  An image whose table says that its functions from 0x1100 on are framed; without images the same
  stack is that of a leaf.
\<close>

definition sample_format :: unwind_format where
  "sample_format = \<lparr>func_offset = (\<lambda>e. e AND 0xFFFFFF), encoding_index = (\<lambda>e. drop_bit 24 e),
     mode = (\<lambda>e. if e = 1 then Frameless else if e = 2 then FramePointer else InvalidMode),
     SECTION_VERSION = 1, SECOND_LEVEL_REGULAR = 2, SECOND_LEVEL_COMPRESSED = 3\<rparr>"

definition sample_image :: "u64 \<Rightarrow> image option" where
  "sample_image pc = Some \<lparr>baseAddress = 0x1000, unwindInfo = 0x9000, unwindSection = Some
     \<lparr>section_version = 1, indexCount = 2,
       indexEntries = (\<lambda>i. \<lparr>functionOffset = (if i = 0 then 0 else 0x10000), secondLevelPage = 0\<rparr>),
       commonEncodingsCount = 2, commonEncodings = (\<lambda>k. if k = 0 then 1 else 2),
       pages = (\<lambda>_. \<lparr>page_kind = 3, entryCount = 3,
         entryArray = (\<lambda>i. if i = 0 then 0 else if i = 1 then 0x01000100 else 0x8000), pageEncodings = (\<lambda>_. 0)\<rparr>)\<rparr>,
     ehFrame = 0\<rparr>"

lemma sample_mode:
  assumes "pc \<in> {0x1107, 0x1FFF, 0x2FFF}"
  shows "table_mode sample_format sample_image pc = Some FramePointer"
  using assms
  by (auto simp: table_mode_def sample_image_def sample_format_def FIRCLSCompactUnwindInit_def FIRCLSIsValidPointer_def
      FIRCLSCompactUnwindLookup_def FIRCLSCompactUnwindLookupFirstLevel_def FIRCLSCompactUnwindLookupSecondLevel_def
      FIRCLSCompactUnwindGetSecondLevelPageKind_def FIRCLSCompactUnwindLookupSecondLevelCompressed_def
      FIRCLSCompactUnwindGetTargetAddress_def FIRCLSCompactUnwindGetIndexFunctionOffset_def
      FIRCLSCompactUnwindBinarySearchSecondLevel_def search_loop.simps Let_def)

lemma stack_trace_of_frames_witness:
  "thread_trace (segment 0x5100 (le_bytes 8 0 @ le_bytes 8 0x3000))
     (FIRCLSUnwindWithCompactUnwindInfo (segment 0x5100 (le_bytes 8 0 @ le_bytes 8 0x3000)) sample_format no_record (\<lambda>_. None)) sample_regs
    = Some \<lparr>repeatedPCCount = 0, repeatedPC = 0, written = [0x1108, 0x2000, 0x3000]\<rparr> \<and>
   thread_trace (segment 0x5100 (le_bytes 8 0 @ le_bytes 8 0x3000))
     (FIRCLSUnwindWithCompactUnwindInfo (segment 0x5100 (le_bytes 8 0 @ le_bytes 8 0x3000)) sample_format no_record sample_image) sample_regs
    = Some \<lparr>repeatedPCCount = 0, repeatedPC = 0, written = [0x1108, 0x3000]\<rparr>"
proof -
  let ?m = "segment 0x5100 (le_bytes 8 0 @ le_bytes 8 0x3000)"
  have f: "frames_at ?m (ss_fp sample_regs) [(0, 0x3000)]"
    using segment_all[of "0x5100" "le_bytes 8 0 @ le_bytes 8 0x3000"]
    by (simp add: sample_regs_def frame_address_def code_address_def del: le_bytes_numeral holds_append)
  have r: "code_address (ss_pc sample_regs)" "FIRCLSIsValidPointer (unat (FIRCLSThreadContextGetStackPointer sample_regs))"
    by (simp_all add: sample_regs_def code_address_def thread_context_defs CLS_PTRAUTH_STRIP_def FIRCLSIsValidPointer_def)
  have pc: "ss_pc sample_regs = 0x1108" "ss_lr sample_regs = 0x2000" by (simp_all add: sample_regs_def)
  have none: "table_mode sample_format (\<lambda>_. None) a = None" for a by (simp add: table_mode_def)
  have leaf: "first_callers sample_format (\<lambda>_. None) sample_regs [(0, 0x3000)] [0x2000, 0x3000]"
    "first_callers sample_format sample_image sample_regs [(0, 0x3000)] [0x3000]"
    using sample_mode[of "0x1107"] by (simp_all add: first_callers_def none pc code_address_def)
  show ?thesis
    using stack_trace_of_frames[OF r f _ _ leaf(1), of no_record] stack_trace_of_frames[OF r f _ _ leaf(2), of no_record]
      sample_mode[of "0x2FFF"]
    by (simp add: framed_def none pc)
qed

end
