(* ===== verification/Wal_Frame.thy ===== *)
theory Wal_Frame
  imports Varint
begin

text \<open>
  The write-ahead log on disk (\<open>wal.c\<close>): the header that opens the log, the frame header
  that precedes each page, and the running checksum that chains them. The byte order of the
  host, \<open>SQLITE_BIGENDIAN\<close> in the sources, is the argument \<open>be\<close>.
\<close>

subsection \<open>Data\<close>

text \<open>The struct \<open>WalIndexHdr\<close>; the two salt words are only ever copied as eight raw bytes.\<close>

record WalIndexHdr =
  iVersion :: u32
  iChange :: u32
  isInit :: bool
  bigEndCksum :: bool
  hdrSzPage :: u16
  mxFrame :: u32
  nPage :: u32
  aFrameCksum :: "u32 \<times> u32"
  aSalt :: "u8 list"
  aCksum :: "u32 \<times> u32"

text \<open>
  The fields of the struct \<open>Wal\<close> that the log code computes with. The byte \<open>readOnly\<close> is two
  flags: the log file cannot be written, the shared memory cannot be written.
\<close>

record wal =
  hdr :: WalIndexHdr
  szPage :: nat
  minFrame :: nat
  iReCksum :: nat
  nCkpt :: u32
  readLock :: int
  writeLock :: bool
  fileReadOnly :: bool
  shmReadOnly :: bool
  mxWalSize :: int
  iCallback :: nat
  syncHeader :: bool
  padToSectorBoundary :: bool
  truncateOnCommit :: bool

definition WAL_MAX_VERSION :: u32 where "WAL_MAX_VERSION = 3007000"
definition WALINDEX_MAX_VERSION :: u32 where "WALINDEX_MAX_VERSION = 3007000"
definition WAL_MAGIC :: u32 where "WAL_MAGIC = 0x377f0682"

abbreviation (input) WAL_FRAME_HDRSIZE :: nat where "WAL_FRAME_HDRSIZE \<equiv> 24"
abbreviation (input) WAL_HDRSIZE :: nat where "WAL_HDRSIZE \<equiv> 32"

definition walFrameOffset :: "nat \<Rightarrow> nat \<Rightarrow> nat" where
  "walFrameOffset iFrame sz = WAL_HDRSIZE + (iFrame - 1) * (sz + WAL_FRAME_HDRSIZE)"

subsection \<open>The checksum\<close>

definition BYTESWAP32 :: "u32 \<Rightarrow> u32" where
  "BYTESWAP32 x = push_bit 24 (x AND 0x000000FF) + push_bit 8 (x AND 0x0000FF00) +
     drop_bit 8 (x AND 0x00FF0000) + drop_bit 24 (x AND 0xFF000000)"

text \<open>A 32-bit load in the byte order of the host.\<close>

definition load32 :: "bool \<Rightarrow> u8 list \<Rightarrow> u32" where
  "load32 be p = sqlite3Get4byte (if be then p else [p ! 3, p ! 2, p ! 1, p ! 0])"

text \<open>
  The loop takes eight bytes a turn. The C code asserts a positive multiple of eight;
  a shorter rest ends the loop here.
\<close>

fun cksum_loop :: "(u8 list \<Rightarrow> u32) \<Rightarrow> u8 list \<Rightarrow> u32 \<times> u32 \<Rightarrow> u32 \<times> u32" where
  "cksum_loop data (a # b # c # d # e # f # g # h # rest) (s1, s2) =
     (let s1 = s1 + (data [a, b, c, d] + s2);
          s2 = s2 + (data [e, f, g, h] + s1)
      in cksum_loop data rest (s1, s2))"
| "cksum_loop data rest s = s"

definition walChecksumBytes ::
  "bool \<Rightarrow> bool \<Rightarrow> u8 list \<Rightarrow> nat \<Rightarrow> (u32 \<times> u32) option \<Rightarrow> u32 \<times> u32" where
  "walChecksumBytes be nativeCksum a nByte aIn =
     cksum_loop (if nativeCksum then load32 be else (\<lambda>p. BYTESWAP32 (load32 be p)))
       (take nByte a) (case aIn of Some s \<Rightarrow> s | None \<Rightarrow> (0, 0))"

text \<open>
  The words are summed in the order the log's flag names, whatever the order of the host.
\<close>

lemma byte_moves:
  fixes x :: u32
  shows "push_bit 24 (x AND 0xFF) = push_bit 24 (take_bit 8 x)"
    "push_bit 8 (x AND 0xFF00) = push_bit 16 (take_bit 8 (drop_bit 8 x))"
    "drop_bit 8 (x AND 0xFF0000) = push_bit 8 (take_bit 8 (drop_bit 16 x))"
    "drop_bit 24 (x AND 0xFF000000) = take_bit 8 (drop_bit 24 x)"
  by (rule u32_eqI, simp add: bit_simps)+

lemma BYTESWAP32_or:
  "BYTESWAP32 x = push_bit 24 (take_bit 8 x) OR push_bit 16 (take_bit 8 (drop_bit 8 x)) OR
     push_bit 8 (take_bit 8 (drop_bit 16 x)) OR take_bit 8 (drop_bit 24 x)" (is "_ = ?a OR ?b OR ?c OR ?d")
proof -
  have "BYTESWAP32 x = ?a + ?b + ?c + ?d"
    unfolding BYTESWAP32_def byte_moves ..
  also have "?a + ?b = ?a OR ?b" by (rule disjunctive_add) (auto simp: bit_simps)
  also have "(?a OR ?b) + ?c = (?a OR ?b) OR ?c" by (rule disjunctive_add) (auto simp: bit_simps)
  also have "\<dots> + ?d = (?a OR ?b OR ?c) OR ?d"
    by (subst disjunctive_add) (auto simp: bit_simps or.assoc)
  finally show ?thesis by (simp add: or.assoc)
qed

lemma byteswap_get: "BYTESWAP32 (sqlite3Get4byte [a, b, c, d]) = sqlite3Get4byte [d, c, b, a]"
  unfolding BYTESWAP32_or
  by (intro u32_eqI) (simp add: sqlite3Get4byte_def bit_simps bit8)

lemma checksum_words:
  "length p = 4 \<Longrightarrow>
   (if (big = be) then load32 be else (\<lambda>p. BYTESWAP32 (load32 be p))) p = load32 big p"
  by (auto simp: load32_def byteswap_get numeral_eq_Suc length_Suc_conv)

lemma cksum_loop_cong:
  assumes "\<And>p. length p = 4 \<Longrightarrow> f p = g p"
  shows "cksum_loop f bs s = cksum_loop g bs s"
  using assms
proof (induction f bs s rule: cksum_loop.induct)
  case (1 data a b c d e f' g' h rest s1 s2)
  from 1(2)[of "[a, b, c, d]"] 1(2)[of "[e, f', g', h]"] 1(1)[OF refl refl 1(2)]
  show ?case by (simp add: Let_def)
qed simp_all

lemma walChecksumBytes_portable:
  "walChecksumBytes be (big = be) a n s = cksum_loop (load32 big) (take n a) (case s of Some s \<Rightarrow> s | None \<Rightarrow> (0, 0))"
  unfolding walChecksumBytes_def by (rule cksum_loop_cong) (rule checksum_words)

lemma eight_bytes:
  assumes "length a = 8 + n"
  obtains b c d e f g h i rest where "a = b # c # d # e # f # g # h # i # rest" "length rest = n"
  using assms by (auto simp: numeral_eq_Suc length_Suc_conv)

lemma cksum_loop_append:
  assumes "length a = 8 * n"
  shows "cksum_loop f (a @ b) s = cksum_loop f b (cksum_loop f a s)"
  using assms
proof (induction n arbitrary: a s)
  case (Suc n)
  then have "length a = 8 + 8 * n" by simp
  then show ?case by (rule eight_bytes) (cases s, simp add: Let_def Suc.IH)
qed simp

subsection \<open>Frames\<close>

definition walEncodeFrame :: "bool \<Rightarrow> wal \<Rightarrow> u32 \<Rightarrow> u32 \<Rightarrow> u8 list \<Rightarrow> u8 list \<times> wal" where
  "walEncodeFrame be w iPage nTruncate aData =
     (let head = sqlite3Put4byte iPage @ sqlite3Put4byte nTruncate in
      if iReCksum w = 0 then
        let nativeCksum = (bigEndCksum (hdr w) = be);
            aCksum = walChecksumBytes be nativeCksum head 8 (Some (aFrameCksum (hdr w)));
            aCksum = walChecksumBytes be nativeCksum aData (szPage w) (Some aCksum)
        in (head @ aSalt (hdr w) @ sqlite3Put4byte (fst aCksum) @ sqlite3Put4byte (snd aCksum),
            w\<lparr>hdr := (hdr w)\<lparr>aFrameCksum := aCksum\<rparr>\<rparr>)
      else (head @ replicate 16 0, w))"

text \<open>Some (page, size) when the frame is valid. The checksum advances even when it then fails.\<close>

definition walDecodeFrame :: "bool \<Rightarrow> wal \<Rightarrow> u8 list \<Rightarrow> u8 list \<Rightarrow> (u32 \<times> u32) option \<times> wal" where
  "walDecodeFrame be w aData aFrame =
     (if take 8 (drop 8 aFrame) \<noteq> aSalt (hdr w) then (None, w)
      else
        let pgno = sqlite3Get4byte aFrame in
        if pgno = 0 then (None, w)
        else
          let nativeCksum = (bigEndCksum (hdr w) = be);
              aCksum = walChecksumBytes be nativeCksum aFrame 8 (Some (aFrameCksum (hdr w)));
              aCksum = walChecksumBytes be nativeCksum aData (szPage w) (Some aCksum);
              w = w\<lparr>hdr := (hdr w)\<lparr>aFrameCksum := aCksum\<rparr>\<rparr>
          in if fst aCksum \<noteq> sqlite3Get4byte (drop 16 aFrame) \<or>
                snd aCksum \<noteq> sqlite3Get4byte (drop 20 aFrame)
             then (None, w)
             else (Some (pgno, sqlite3Get4byte (drop 4 aFrame)), w))"

lemma get_put4 [simp]:
  "sqlite3Get4byte (sqlite3Put4byte v @ rest) = v" "sqlite3Get4byte (sqlite3Put4byte v) = v"
  using fourbyte_roundtrip[where v = v and rest = rest] fourbyte_roundtrip[where v = v and rest = "[]"]
  by simp_all

lemma put_get4:
  assumes "length p = 4" shows "sqlite3Put4byte (sqlite3Get4byte p) = p"
proof -
  from assms obtain a b c d where "p = [a, b, c, d]" by (auto simp: numeral_eq_Suc length_Suc_conv)
  then show ?thesis using fourbyte_roundtrip[of 0 "[]" a b c d] by simp
qed

lemma length_put4 [simp]: "length (sqlite3Put4byte v) = 4"
  by (simp add: sqlite3Put4byte_def)

lemma get4_take: "sqlite3Get4byte p = sqlite3Get4byte (take 4 p)" if "4 \<le> length p"
  using that by (simp add: sqlite3Get4byte_def)

text \<open>The checksum after a frame, and the frame, as functions of what the log fixes.\<close>

definition frame_cksum :: "bool \<Rightarrow> nat \<Rightarrow> u32 \<times> u32 \<Rightarrow> u32 \<Rightarrow> u32 \<Rightarrow> u8 list \<Rightarrow> u32 \<times> u32" where
  "frame_cksum big sz s pg n data =
     cksum_loop (load32 big) (sqlite3Put4byte pg @ sqlite3Put4byte n @ take sz data) s"

definition frame_header :: "u8 list \<Rightarrow> u32 \<times> u32 \<Rightarrow> u32 \<Rightarrow> u32 \<Rightarrow> u8 list" where
  "frame_header salt s pg n = sqlite3Put4byte pg @ sqlite3Put4byte n @ salt @
     sqlite3Put4byte (fst s) @ sqlite3Put4byte (snd s)"

lemma cksum_two_steps:
  "length a = 8 \<Longrightarrow> cksum_loop f b (cksum_loop f a s) = cksum_loop f (a @ b) s"
  by (rule cksum_loop_append[where n = 1, symmetric]) simp

lemma encode_frame:
  assumes "iReCksum w = 0"
  shows "walEncodeFrame be w pg n data =
    (let s = frame_cksum (bigEndCksum (hdr w)) (szPage w) (aFrameCksum (hdr w)) pg n data
     in (frame_header (aSalt (hdr w)) s pg n, w\<lparr>hdr := (hdr w)\<lparr>aFrameCksum := s\<rparr>\<rparr>))"
  using assms
  by (simp add: walEncodeFrame_def walChecksumBytes_portable frame_cksum_def frame_header_def Let_def cksum_two_steps)

lemma frame_split:
  assumes "length f = 24"
  shows "f = take 4 f @ take 4 (drop 4 f) @ take 8 (drop 8 f) @ take 4 (drop 16 f) @ drop 20 f"
proof -
  have "f = take 4 f @ drop 4 f" for f :: "'a list" by simp
  have "drop 4 f = take 4 (drop 4 f) @ drop 8 f" "drop 8 f = take 8 (drop 8 f) @ drop 16 f"
    "drop 16 f = take 4 (drop 16 f) @ drop 20 f"
    using append_take_drop_id[of 4 "drop 4 f"] append_take_drop_id[of 8 "drop 8 f"]
      append_take_drop_id[of 4 "drop 16 f"] by simp_all
  then show ?thesis by (metis append_take_drop_id)
qed

lemma decode_frame:
  assumes "length f = 24"
  shows "walDecodeFrame be w data f =
    (if take 8 (drop 8 f) \<noteq> aSalt (hdr w) \<or> sqlite3Get4byte f = 0 then (None, w)
     else
       let pg = sqlite3Get4byte f; n = sqlite3Get4byte (drop 4 f);
           s = frame_cksum (bigEndCksum (hdr w)) (szPage w) (aFrameCksum (hdr w)) pg n data
       in (if f = frame_header (aSalt (hdr w)) s pg n then Some (pg, n) else None,
           w\<lparr>hdr := (hdr w)\<lparr>aFrameCksum := s\<rparr>\<rparr>))"
proof -
  have head: "take 8 f = sqlite3Put4byte (sqlite3Get4byte f) @ sqlite3Put4byte (sqlite3Get4byte (drop 4 f))"
    using assms by (simp add: get4_take[of f] get4_take[of "drop 4 f"] put_get4 take_add[of 4 4, simplified])
  have tail: "f = frame_header (aSalt (hdr w)) s (sqlite3Get4byte f) (sqlite3Get4byte (drop 4 f)) \<longleftrightarrow>
      fst s = sqlite3Get4byte (drop 16 f) \<and> snd s = sqlite3Get4byte (drop 20 f)"
    if "take 8 (drop 8 f) = aSalt (hdr w)" for s
  proof
    assume r: "fst s = sqlite3Get4byte (drop 16 f) \<and> snd s = sqlite3Get4byte (drop 20 f)"
    show "f = frame_header (aSalt (hdr w)) s (sqlite3Get4byte f) (sqlite3Get4byte (drop 4 f))"
      using assms that r
      by (subst frame_split[OF assms])
        (simp add: frame_header_def get4_take[of f] get4_take[of "drop 4 f"] get4_take[of "drop 16 f"] put_get4)
  next
    assume l: "f = frame_header (aSalt (hdr w)) s (sqlite3Get4byte f) (sqlite3Get4byte (drop 4 f))"
    have "length (aSalt (hdr w)) = 8" using arg_cong[OF that, of length] assms by simp
    then have "drop 16 f = sqlite3Put4byte (fst s) @ sqlite3Put4byte (snd s)" "drop 20 f = sqlite3Put4byte (snd s)"
      by (subst l, simp add: frame_header_def)+
    then show "fst s = sqlite3Get4byte (drop 16 f) \<and> snd s = sqlite3Get4byte (drop 20 f)" by simp
  qed
  show ?thesis
    by (auto simp: walDecodeFrame_def walChecksumBytes_portable head cksum_two_steps frame_cksum_def[symmetric] Let_def tail)
qed

subsection \<open>The header of the log\<close>

definition header_head :: "bool \<Rightarrow> nat \<Rightarrow> u32 \<Rightarrow> u8 list \<Rightarrow> u8 list" where
  "header_head big sz ckpt salt = sqlite3Put4byte (WAL_MAGIC OR of_bool big) @ sqlite3Put4byte WAL_MAX_VERSION @
     sqlite3Put4byte (of_nat sz) @ sqlite3Put4byte ckpt @ salt"

text \<open>The 32 bytes that \<open>sqlite3WalFrames\<close> writes first, and their checksum.\<close>

definition wal_header :: "bool \<Rightarrow> nat \<Rightarrow> u32 \<Rightarrow> u8 list \<Rightarrow> u8 list \<times> (u32 \<times> u32)" where
  "wal_header be sz ckpt salt =
     (let head = header_head be sz ckpt salt;
          aCksum = walChecksumBytes be True head (WAL_HDRSIZE - 2 * 4) None
      in (head @ sqlite3Put4byte (fst aCksum) @ sqlite3Put4byte (snd aCksum), aCksum))"

definition header_cksum :: "bool \<Rightarrow> nat \<Rightarrow> u32 \<Rightarrow> u8 list \<Rightarrow> u32 \<times> u32" where
  "header_cksum big sz ckpt salt = cksum_loop (load32 big) (header_head big sz ckpt salt) (0, 0)"

lemma length_header_head: "length salt = 8 \<Longrightarrow> length (header_head big sz ckpt salt) = 24"
  by (simp add: header_head_def)

lemma wal_header_eq:
  assumes "length salt = 8"
  shows "wal_header be sz ckpt salt =
    (let s = header_cksum be sz ckpt salt
     in (header_head be sz ckpt salt @ sqlite3Put4byte (fst s) @ sqlite3Put4byte (snd s), s))"
  using walChecksumBytes_portable[of be be "header_head be sz ckpt salt" 24 None] assms
  by (simp add: wal_header_def header_cksum_def length_header_head Let_def)

subsection \<open>Logs\<close>

text \<open>
  The frames of a log: page number, size of the database after the commit (0 for a frame that
  does not commit) and content. \<open>log_bytes\<close> is their encoding, each frame continuing the
  checksum of the one before it.
\<close>

type_synonym frame = "u32 \<times> u32 \<times> u8 list"

fun log_bytes :: "bool \<Rightarrow> nat \<Rightarrow> u8 list \<Rightarrow> u32 \<times> u32 \<Rightarrow> frame list \<Rightarrow> u8 list" where
  "log_bytes big sz salt s [] = []"
| "log_bytes big sz salt s ((pg, n, data) # fs) =
     (let s = frame_cksum big sz s pg n data
      in frame_header salt s pg n @ data @ log_bytes big sz salt s fs)"

fun log_cksum :: "bool \<Rightarrow> nat \<Rightarrow> u32 \<times> u32 \<Rightarrow> frame list \<Rightarrow> u32 \<times> u32" where
  "log_cksum big sz s [] = s"
| "log_cksum big sz s ((pg, n, data) # fs) = log_cksum big sz (frame_cksum big sz s pg n data) fs"

definition frame_ok :: "nat \<Rightarrow> frame \<Rightarrow> bool" where
  "frame_ok sz f \<longleftrightarrow> fst f \<noteq> 0 \<and> length (snd (snd f)) = sz"

lemma log_bytes_append:
  "log_bytes big sz salt s (fs @ gs) = log_bytes big sz salt s fs @ log_bytes big sz salt (log_cksum big sz s fs) gs"
  by (induction big sz salt s fs rule: log_bytes.induct) (simp_all add: Let_def)

lemma log_cksum_append: "log_cksum big sz s (fs @ gs) = log_cksum big sz (log_cksum big sz s fs) gs"
  by (induction big sz s fs rule: log_cksum.induct) simp_all

lemma length_frame_header [simp]: "length salt = 8 \<Longrightarrow> length (frame_header salt s pg n) = 24"
  by (simp add: frame_header_def)

lemma length_log_bytes:
  "length salt = 8 \<Longrightarrow> \<forall>f \<in> set fs. frame_ok sz f \<Longrightarrow>
   length (log_bytes big sz salt s fs) = length fs * (sz + WAL_FRAME_HDRSIZE)"
  by (induction big sz salt s fs rule: log_bytes.induct) (simp_all add: Let_def frame_ok_def)

text \<open>The parts of a frame that a reader takes from the bytes.\<close>

lemma frame_fields:
  assumes "length salt = 8"
  shows "take 8 (drop 8 (frame_header salt s pg n)) = salt" "sqlite3Get4byte (frame_header salt s pg n) = pg"
    "sqlite3Get4byte (drop 4 (frame_header salt s pg n)) = n"
  using assms by (simp_all add: frame_header_def)

text \<open>
  C19: a frame is accepted exactly when it is the encoding, under the reader's salt and
  running checksum, of the page number and size it is accepted with and of the content that
  follows it; and the reader's checksum then continues as the writer's does. The byte orders
  of the two hosts play no part.
\<close>

theorem frame_accepted_iff:
  assumes "iReCksum w = 0" "length (aSalt (hdr w)) = 8" "length f = 24"
  shows "walDecodeFrame reader w data f = (Some (pg, n), w') \<longleftrightarrow>
    pg \<noteq> 0 \<and> walEncodeFrame writer w pg n data = (f, w')"
proof
  assume "walDecodeFrame reader w data f = (Some (pg, n), w')"
  then show "pg \<noteq> 0 \<and> walEncodeFrame writer w pg n data = (f, w')"
    by (auto simp: decode_frame[OF assms(3)] encode_frame[OF assms(1)] Let_def split: if_splits)
next
  assume "pg \<noteq> 0 \<and> walEncodeFrame writer w pg n data = (f, w')"
  then show "walDecodeFrame reader w data f = (Some (pg, n), w')"
    by (auto simp: decode_frame[OF assms(3)] encode_frame[OF assms(1)] Let_def frame_fields[OF assms(2)])
qed

theorem frame_accepted_iff_witness:
  "let w = \<lparr>hdr = \<lparr>iVersion = 0, iChange = 0, isInit = True, bigEndCksum = True, hdrSzPage = 512, mxFrame = 0,
       nPage = 0, aFrameCksum = (3, 4), aSalt = replicate 8 9, aCksum = (0, 0)\<rparr>, szPage = 8, minFrame = 1,
       iReCksum = 0, nCkpt = 0, readLock = 0, writeLock = False, fileReadOnly = False, shmReadOnly = False,
       mxWalSize = 0, iCallback = 0, syncHeader = False,
       padToSectorBoundary = False, truncateOnCommit = False\<rparr>
   in walDecodeFrame True w [1, 2, 3, 4, 5, 6, 7, 8] (fst (walEncodeFrame False w 6 1 [1, 2, 3, 4, 5, 6, 7, 8])) =
     (Some (6, 1), snd (walEncodeFrame False w 6 1 [1, 2, 3, 4, 5, 6, 7, 8]))"
  unfolding Let_def
  by (subst frame_accepted_iff[where writer = False]) (simp_all add: encode_frame Let_def)

end
