(* ===== verification/Wal_Index.thy ===== *)
theory Wal_Index
  imports Wal_Frame
begin

text \<open>
  The shared index of the write-ahead log (\<open>wal.c\<close>): for every block of frames the page
  number of each frame and an open-addressed hash table from page numbers to frames, the
  operations that extend it, cut it back and search it, and what they mean for the list of
  page numbers of the log. Frame numbers start at 1.
\<close>

subsection \<open>The index in memory\<close>

text \<open>
  A block holds the page numbers of its frames, from index 1, and the hash table, whose
  slots hold such indices and 0 when free. Arrays are functions of their indices.
\<close>

record wi_block =
  aPgno :: "nat \<Rightarrow> u32"
  aHash :: "nat \<Rightarrow> nat"

record WalCkptInfo =
  nBackfill :: nat
  aReadMark :: "nat list"
  nBackfillAttempted :: nat

text \<open>
  The shared memory: two copies of the header, the checkpoint information and the blocks.
  \<open>mapRc\<close> is the result of asking the VFS for a block.
\<close>

record wal_shm =
  aHdr0 :: WalIndexHdr
  aHdr1 :: WalIndexHdr
  ckptInfo :: WalCkptInfo
  blocks :: "nat \<Rightarrow> wi_block"
  mapRc :: "nat \<Rightarrow> int"

abbreviation (input) SQLITE_CORRUPT :: int where "SQLITE_CORRUPT \<equiv> 11"

definition HASHTABLE_NPAGE :: nat where "HASHTABLE_NPAGE = 4096"
definition HASHTABLE_HASH_1 :: u32 where "HASHTABLE_HASH_1 = 383"
definition HASHTABLE_NSLOT :: nat where "HASHTABLE_NSLOT = HASHTABLE_NPAGE * 2"

text \<open>Two headers of 48 bytes and 40 bytes of checkpoint information.\<close>

definition WALINDEX_HDR_SIZE :: nat where "WALINDEX_HDR_SIZE = 48 * 2 + 40"
definition HASHTABLE_NPAGE_ONE :: nat where
  "HASHTABLE_NPAGE_ONE = HASHTABLE_NPAGE - WALINDEX_HDR_SIZE div 4"

lemmas wal_consts = HASHTABLE_NPAGE_def HASHTABLE_NSLOT_def HASHTABLE_NPAGE_ONE_def WALINDEX_HDR_SIZE_def

subsection \<open>Operations\<close>

definition walHash :: "u32 \<Rightarrow> nat" where
  "walHash iPage = unat ((iPage * HASHTABLE_HASH_1) AND of_nat (HASHTABLE_NSLOT - 1))"

definition walNextHash :: "nat \<Rightarrow> nat" where
  "walNextHash iPriorHash = (iPriorHash + 1) AND (HASHTABLE_NSLOT - 1)"

text \<open>The frame before the first one of a block, and the number of frames it has room for.\<close>

definition hash_zero :: "nat \<Rightarrow> nat" where
  "hash_zero iHash = (if iHash = 0 then 0 else HASHTABLE_NPAGE_ONE + (iHash - 1) * HASHTABLE_NPAGE)"

definition hash_cap :: "nat \<Rightarrow> nat" where
  "hash_cap iHash = (if iHash = 0 then HASHTABLE_NPAGE_ONE else HASHTABLE_NPAGE)"

definition walHashGet :: "wal_shm \<Rightarrow> nat \<Rightarrow> int + (wi_block \<times> nat)" where
  "walHashGet shm iHash =
     (if mapRc shm iHash = SQLITE_OK then Inr (blocks shm iHash, hash_zero iHash) else Inl (mapRc shm iHash))"

definition walFramePage :: "nat \<Rightarrow> nat" where
  "walFramePage iFrame = (iFrame + HASHTABLE_NPAGE - HASHTABLE_NPAGE_ONE - 1) div HASHTABLE_NPAGE"

definition walFramePgno :: "wal_shm \<Rightarrow> nat \<Rightarrow> u32" where
  "walFramePgno shm iFrame =
     (let iHash = walFramePage iFrame in
      if iHash = 0 then aPgno (blocks shm 0) iFrame
      else aPgno (blocks shm iHash) ((iFrame - 1 - HASHTABLE_NPAGE_ONE) mod HASHTABLE_NPAGE + 1))"

definition walCleanupHash :: "nat \<Rightarrow> wal_shm \<Rightarrow> wal_shm" where
  "walCleanupHash mx shm =
     (if mx = 0 then shm
      else
        let iHash = walFramePage mx;
            b = blocks shm iHash;
            iLimit = mx - hash_zero iHash;
            hash = (\<lambda>i. if i < HASHTABLE_NSLOT \<and> iLimit < aHash b i then 0 else aHash b i);
            pgno = (\<lambda>i. if iLimit + 1 \<le> i \<and> i \<le> hash_cap iHash then 0 else aPgno b i)
        in shm\<lparr>blocks := (blocks shm)(iHash := \<lparr>aPgno = pgno, aHash = hash\<rparr>)\<rparr>)"

text \<open>The search for a free slot; \<open>None\<close> when \<open>nCollide\<close> collisions are exceeded.\<close>

fun append_probe :: "nat \<Rightarrow> (nat \<Rightarrow> nat) \<Rightarrow> nat \<Rightarrow> nat option" where
  "append_probe nCollide hash iKey =
     (if hash iKey = 0 then Some iKey
      else case nCollide of 0 \<Rightarrow> None | Suc n \<Rightarrow> append_probe n hash (walNextHash iKey))"

definition clear_block :: "nat \<Rightarrow> wi_block \<Rightarrow> wi_block" where
  "clear_block iHash b =
     \<lparr>aPgno = (\<lambda>i. if 1 \<le> i \<and> i \<le> hash_cap iHash then 0 else aPgno b i),
      aHash = (\<lambda>i. if i < HASHTABLE_NSLOT then 0 else aHash b i)\<rparr>"

definition walIndexAppend :: "nat \<Rightarrow> wal_shm \<Rightarrow> nat \<Rightarrow> u32 \<Rightarrow> int \<times> wal_shm" where
  "walIndexAppend mx shm iFrame iPage =
     (let iHash = walFramePage iFrame in
      case walHashGet shm iHash of
        Inl rc \<Rightarrow> (rc, shm)
      | Inr (b, iZero) \<Rightarrow>
          let idx = iFrame - iZero;
              shm = (if idx = 1 then shm\<lparr>blocks := (blocks shm)(iHash := clear_block iHash b)\<rparr> else shm);
              shm = (if aPgno (blocks shm iHash) idx \<noteq> 0 then walCleanupHash mx shm else shm);
              b = blocks shm iHash
          in case append_probe idx (aHash b) (walHash iPage) of
               None \<Rightarrow> (SQLITE_CORRUPT, shm)
             | Some iKey \<Rightarrow>
                 (SQLITE_OK, shm\<lparr>blocks := (blocks shm)(iHash :=
                    \<lparr>aPgno = (aPgno b)(idx := iPage), aHash = (aHash b)(iKey := idx mod 2 ^ 16)\<rparr>)\<rparr>))"

text \<open>The chain of one hash table; \<open>None\<close> when it exceeds the table.\<close>

fun find_probe :: "nat \<Rightarrow> wi_block \<Rightarrow> nat \<Rightarrow> nat \<Rightarrow> nat \<Rightarrow> u32 \<Rightarrow> nat \<Rightarrow> nat \<Rightarrow> nat option" where
  "find_probe nCollide b iZero iLast minF pgno iKey iRead =
     (if aHash b iKey = 0 then Some iRead
      else
        let iFrame = aHash b iKey + iZero;
            iRead = (if iFrame \<le> iLast \<and> minF \<le> iFrame \<and> aPgno b (aHash b iKey) = pgno
                     then iFrame else iRead)
        in case nCollide of 0 \<Rightarrow> None
           | Suc n \<Rightarrow> find_probe n b iZero iLast minF pgno (walNextHash iKey) iRead)"

text \<open>The tables from the last one down; \<open>n\<close> counts those left above \<open>iMinHash\<close>.\<close>

fun find_tables :: "wal_shm \<Rightarrow> nat \<Rightarrow> nat \<Rightarrow> u32 \<Rightarrow> nat \<Rightarrow> nat \<Rightarrow> int + nat" where
  "find_tables shm iLast minF pgno iMinHash 0 = Inr 0"
| "find_tables shm iLast minF pgno iMinHash (Suc n) =
     (case walHashGet shm (iMinHash + n) of
        Inl rc \<Rightarrow> Inl rc
      | Inr (b, iZero) \<Rightarrow>
          (case find_probe HASHTABLE_NSLOT b iZero iLast minF pgno (walHash pgno) 0 of
             None \<Rightarrow> Inl SQLITE_CORRUPT
           | Some iRead \<Rightarrow> if iRead = 0 then find_tables shm iLast minF pgno iMinHash n else Inr iRead))"

definition sqlite3WalFindFrame :: "wal \<Rightarrow> wal_shm \<Rightarrow> u32 \<Rightarrow> int + nat" where
  "sqlite3WalFindFrame w shm pgno =
     (let iLast = unat (mxFrame (hdr w)) in
      if iLast = 0 \<or> readLock w = 0 then Inr 0
      else
        let iMinHash = walFramePage (minFrame w)
        in find_tables shm iLast (minFrame w) pgno iMinHash (walFramePage iLast + 1 - iMinHash))"

text \<open>The linear search that the sources keep as an expensive assertion.\<close>

fun find_linear :: "wal_shm \<Rightarrow> nat \<Rightarrow> u32 \<Rightarrow> nat \<Rightarrow> nat" where
  "find_linear shm minF pgno 0 = 0"
| "find_linear shm minF pgno (Suc i) =
     (if Suc i < minF then 0
      else if walFramePgno shm (Suc i) = pgno then Suc i
      else find_linear shm minF pgno i)"

text \<open>The part of \<open>sqlite3WalFrames\<close> that enters the new frames into the index.\<close>

fun append_frames :: "nat \<Rightarrow> wal_shm \<Rightarrow> nat \<Rightarrow> u32 list \<Rightarrow> int \<times> wal_shm \<times> nat" where
  "append_frames mx shm iFrame [] = (SQLITE_OK, shm, iFrame)"
| "append_frames mx shm iFrame (pg # pgs) =
     (let iFrame = iFrame + 1; (rc, shm) = walIndexAppend mx shm iFrame pg in
      if rc \<noteq> SQLITE_OK then (rc, shm, iFrame) else append_frames mx shm iFrame pgs)"

subsection \<open>Geometry\<close>

declare append_probe.simps [simp del] find_probe.simps [simp del]

lemma nslot: "HASHTABLE_NSLOT = 8192" by (simp add: wal_consts)

lemma walNextHash_mod: "walNextHash h = (h + 1) mod HASHTABLE_NSLOT"
  using take_bit_eq_mask[of 13 "h + 1"] by (simp add: walNextHash_def nslot take_bit_eq_mod mask_eq_exp_minus_1)

lemma walHash_less [simp]: "walHash p < HASHTABLE_NSLOT"
proof -
  have "(p * HASHTABLE_HASH_1) AND 0x1FFF = take_bit 13 (p * HASHTABLE_HASH_1)"
    by (simp add: take_bit_eq_mask mask_eq_exp_minus_1)
  then have "walHash p = take_bit 13 (unat (p * HASHTABLE_HASH_1))"
    by (simp only: walHash_def nslot unsigned_take_bit_eq[symmetric]) simp
  then show ?thesis by (simp add: nslot take_bit_eq_mod)
qed

text \<open>A block holds the frames from its first to its capacity, and every frame has one block.\<close>

lemma walFramePage_iff:
  "0 < f \<Longrightarrow> walFramePage f = h \<longleftrightarrow> hash_zero h < f \<and> f \<le> hash_zero h + hash_cap h"
proof -
  assume f: "0 < f"
  have eq: "walFramePage f = (f + 33) div 4096" by (simp add: walFramePage_def wal_consts)
  have "(f + 33) div 4096 = h \<longleftrightarrow> h * 4096 \<le> f + 33 \<and> f + 33 < h * 4096 + 4096" by auto
  also have "\<dots> \<longleftrightarrow> hash_zero h < f \<and> f \<le> hash_zero h + hash_cap h"
    using f by (cases h) (auto simp: hash_zero_def hash_cap_def wal_consts)
  finally show ?thesis by (simp add: eq)
qed

lemma frame_in_page:
  assumes "0 < f" shows "hash_zero (walFramePage f) < f" "f \<le> hash_zero (walFramePage f) + hash_cap (walFramePage f)"
  using walFramePage_iff[OF assms] by auto

lemma hash_zero_Suc: "hash_zero (Suc h) = hash_zero h + hash_cap h"
  by (cases h) (auto simp: hash_zero_def hash_cap_def)

lemma hash_zero_mono: "h \<le> h' \<Longrightarrow> hash_zero h \<le> hash_zero h'"
  by (induction h' rule: nat_induct_at_least[of h, consumes 1, case_names base step]) (auto simp: hash_zero_Suc)

lemma hash_cap_bounds: "0 < hash_cap h" "hash_cap h < HASHTABLE_NSLOT" "hash_cap h < 2 ^ 16"
  by (auto simp: hash_cap_def wal_consts)

lemma walFramePage_mono: "f \<le> f' \<Longrightarrow> walFramePage f \<le> walFramePage f'"
  by (simp add: walFramePage_def div_le_mono)

subsection \<open>One hash table\<close>

text \<open>The slot reached from \<open>h\<close> after \<open>j\<close> steps.\<close>

definition slot :: "nat \<Rightarrow> nat \<Rightarrow> nat" where
  "slot h j = (h + j) mod HASHTABLE_NSLOT"

lemma slot_0: "h < HASHTABLE_NSLOT \<Longrightarrow> slot h 0 = h" by (simp add: slot_def)
lemma slot_less [simp]: "slot h j < HASHTABLE_NSLOT" by (simp add: slot_def nslot)
lemma slot_Suc: "slot h (Suc j) = slot (walNextHash h) j" by (simp add: slot_def walNextHash_mod mod_simps)
lemma walNextHash_less [simp]: "walNextHash h < HASHTABLE_NSLOT" by (simp add: walNextHash_mod nslot)

lemma slot_inj:
  assumes "slot h j = slot h j'" "j < HASHTABLE_NSLOT" "j' < HASHTABLE_NSLOT"
  shows "j = j'"
proof -
  have "slot h i = (if h mod HASHTABLE_NSLOT + i < HASHTABLE_NSLOT then h mod HASHTABLE_NSLOT + i
      else h mod HASHTABLE_NSLOT + i - HASHTABLE_NSLOT)" if "i < HASHTABLE_NSLOT" for i
  proof -
    have "slot h i = (h mod HASHTABLE_NSLOT + i) mod HASHTABLE_NSLOT" by (simp add: slot_def mod_simps)
    moreover have "h mod HASHTABLE_NSLOT < HASHTABLE_NSLOT" by (simp add: nslot)
    then have "(h mod HASHTABLE_NSLOT + i - HASHTABLE_NSLOT) mod HASHTABLE_NSLOT =
        h mod HASHTABLE_NSLOT + i - HASHTABLE_NSLOT" using that by (intro mod_less) linarith
    ultimately show ?thesis using that by (simp add: mod_if[of "h mod HASHTABLE_NSLOT + i"])
  qed
  moreover have "h mod HASHTABLE_NSLOT < HASHTABLE_NSLOT" by (simp add: nslot)
  ultimately show ?thesis using assms by (auto split: if_splits)
qed

text \<open>
  The table of the page numbers \<open>qs\<close>: every index sits on the probe path of its page, behind
  smaller indices only, in one slot.
\<close>

definition on_path :: "(nat \<Rightarrow> nat) \<Rightarrow> u32 \<Rightarrow> nat \<Rightarrow> bool" where
  "on_path hash p e \<longleftrightarrow> (\<exists>j < HASHTABLE_NSLOT. hash (slot (walHash p) j) = e \<and>
     (\<forall>j' < j. 0 < hash (slot (walHash p) j') \<and> hash (slot (walHash p) j') < e))"

definition wi_table_ok :: "(nat \<Rightarrow> nat) \<Rightarrow> u32 list \<Rightarrow> bool" where
  "wi_table_ok hash qs \<longleftrightarrow>
     (\<forall>k < HASHTABLE_NSLOT. hash k \<le> length qs) \<and>
     (\<forall>k < HASHTABLE_NSLOT. \<forall>k' < HASHTABLE_NSLOT. hash k = hash k' \<longrightarrow> hash k \<noteq> 0 \<longrightarrow> k = k') \<and>
     (\<forall>i < length qs. on_path hash (qs ! i) (Suc i))"

lemma table_run_short:
  assumes ok: "wi_table_ok hash qs" and D: "D \<le> HASHTABLE_NSLOT" "\<forall>j < D. hash (slot h j) \<noteq> 0"
  shows "D \<le> length qs"
proof -
  have "card {..< D} \<le> card {1 .. length qs}"
  proof (rule card_inj_on_le[where f = "\<lambda>j. hash (slot h j)"])
    show "inj_on (\<lambda>j. hash (slot h j)) {..<D}"
    proof (rule inj_onI)
      fix x y assume "x \<in> {..<D}" "y \<in> {..<D}" "hash (slot h x) = hash (slot h y)"
      moreover from this have "slot h x = slot h y" using ok D(2) by (auto simp: wi_table_ok_def)
      ultimately show "x = y" using slot_inj D(1) by auto
    qed
    show "(\<lambda>j. hash (slot h j)) ` {..<D} \<subseteq> {1 .. length qs}"
      using ok D(2) by (auto simp: wi_table_ok_def Suc_le_eq)
  qed simp
  then show ?thesis by simp
qed

text \<open>The probe path of a page ends at a free slot after at most as many steps as there are entries.\<close>

lemma path_end:
  assumes "wi_table_ok hash qs" "length qs < HASHTABLE_NSLOT"
  obtains D where "D \<le> length qs" "hash (slot h D) = 0" "\<forall>j < D. hash (slot h j) \<noteq> 0"
proof -
  have ex: "\<exists>D \<le> length qs. hash (slot h D) = 0"
  proof (rule ccontr)
    assume "\<not> ?thesis"
    then have "Suc (length qs) \<le> length qs"
      using assms by (intro table_run_short[of hash qs _ h]) (auto simp: less_Suc_eq_le)
    then show False by simp
  qed
  then obtain D0 where D0: "D0 \<le> length qs" "hash (slot h D0) = 0" by blast
  let ?D = "LEAST D. hash (slot h D) = 0"
  from D0(2) have "hash (slot h ?D) = 0" by (rule LeastI)
  moreover from D0(2) have "?D \<le> D0" by (rule Least_le)
  moreover have "\<forall>j < ?D. hash (slot h j) \<noteq> 0" by (blast dest: not_less_Least)
  ultimately show thesis using D0(1) that by (meson le_trans)
qed

lemma append_probe_slot:
  "hash (slot h D) = 0 \<Longrightarrow> \<forall>j < D. hash (slot h j) \<noteq> 0 \<Longrightarrow> D \<le> n \<Longrightarrow> h < HASHTABLE_NSLOT \<Longrightarrow>
   append_probe n hash h = Some (slot h D)"
proof (induction D arbitrary: n h)
  case 0
  then show ?case by (simp add: append_probe.simps[of n] slot_0)
next
  case (Suc D)
  then obtain m where n: "n = Suc m" by (cases n) auto
  have "hash h \<noteq> 0" using Suc.prems(2,4) slot_0[of h] by auto
  moreover have "append_probe m hash (walNextHash h) = Some (slot (walNextHash h) D)"
    using Suc.prems n by (intro Suc.IH) (auto simp: slot_Suc[symmetric])
  ultimately show ?case by (simp add: n append_probe.simps[of "Suc m"] slot_Suc)
qed

lemma on_path_entry:
  assumes "wi_table_ok hash qs" "i < length qs"
  obtains j where "j < HASHTABLE_NSLOT" "hash (slot (walHash (qs ! i)) j) = Suc i"
    "\<forall>j' < j. 0 < hash (slot (walHash (qs ! i)) j') \<and> hash (slot (walHash (qs ! i)) j') < Suc i"
  using assms unfolding wi_table_ok_def on_path_def by blast

lemma wi_table_ok_insert:
  assumes ok: "wi_table_ok hash qs" and len: "length qs < HASHTABLE_NSLOT"
    and D: "D \<le> length qs" "hash (slot (walHash p) D) = 0" "\<forall>j < D. hash (slot (walHash p) j) \<noteq> 0"
  shows "wi_table_ok (hash(slot (walHash p) D := Suc (length qs))) (qs @ [p])"
proof -
  let ?s = "slot (walHash p) D" and ?n = "Suc (length qs)"
  have le: "hash k \<le> length qs" if "k < HASHTABLE_NSLOT" for k using ok that by (auto simp: wi_table_ok_def)
  have path: "on_path (hash(?s := ?n)) ((qs @ [p]) ! i) (Suc i)" if "i < length (qs @ [p])" for i
  proof (cases "i = length qs")
    case True
    have "(hash(?s := ?n)) (slot (walHash p) j) = hash (slot (walHash p) j)" if "j < D" for j
      using that D(2,3) by (metis fun_upd_other)
    then have "0 < (hash(?s := ?n)) (slot (walHash p) j) \<and> (hash(?s := ?n)) (slot (walHash p) j) < ?n"
      if "j < D" for j using that D(3) le[of "slot (walHash p) j"] by (simp add: less_Suc_eq_le)
    then show ?thesis unfolding on_path_def True using D(1) len
      by (intro exI[of _ D]) simp
  next
    case False
    with that have i': "i < length qs" by simp
    from on_path_entry[OF ok i'] obtain j where j: "j < HASHTABLE_NSLOT"
      "hash (slot (walHash (qs ! i)) j) = Suc i"
      "\<forall>j' < j. 0 < hash (slot (walHash (qs ! i)) j') \<and> hash (slot (walHash (qs ! i)) j') < Suc i" .
    have "slot (walHash (qs ! i)) j' \<noteq> ?s" if "j' \<le> j" for j'
      using that j D(2) by (metis le_neq_implies_less less_numeral_extra(3) nat.distinct(1))
    then show ?thesis unfolding on_path_def using i' j
      by (intro exI[of _ j]) (simp add: nth_append)
  qed
  have bound: "(hash(?s := ?n)) k \<le> length (qs @ [p])" if "k < HASHTABLE_NSLOT" for k
    using le[OF that] by simp
  have inj: "k = k'" if "k < HASHTABLE_NSLOT" "k' < HASHTABLE_NSLOT"
    "(hash(?s := ?n)) k = (hash(?s := ?n)) k'" "(hash(?s := ?n)) k \<noteq> 0" for k k'
  proof -
    have "hash k = hash k' \<Longrightarrow> hash k \<noteq> 0 \<Longrightarrow> k = k'" using ok that(1,2) unfolding wi_table_ok_def by blast
    with that(3,4) le[OF that(1)] le[OF that(2)] show ?thesis by (simp split: if_splits)
  qed
  show ?thesis unfolding wi_table_ok_def using path bound inj by blast
qed

lemma wi_table_ok_cut:
  assumes ok: "wi_table_ok hash qs" and "n \<le> length qs"
  shows "wi_table_ok (\<lambda>k. if k < HASHTABLE_NSLOT \<and> n < hash k then 0 else hash k) (take n qs)" (is "wi_table_ok ?h _")
proof -
  have "on_path ?h (take n qs ! i) (Suc i)" if i: "i < n" for i
  proof -
    have i': "i < length qs" using i assms(2) by simp
    from on_path_entry[OF ok i'] obtain j where j: "j < HASHTABLE_NSLOT"
      "hash (slot (walHash (qs ! i)) j) = Suc i"
      "\<forall>j' < j. 0 < hash (slot (walHash (qs ! i)) j') \<and> hash (slot (walHash (qs ! i)) j') < Suc i" .
    have "0 < ?h (slot (walHash (qs ! i)) j') \<and> ?h (slot (walHash (qs ! i)) j') < Suc i" if "j' < j" for j'
      using j(3)[rule_format, OF that] i by simp
    moreover have "?h (slot (walHash (take n qs ! i)) j) = Suc i" using i j(2) by simp
    ultimately show ?thesis unfolding on_path_def nth_take[OF i] using j(1) by blast
  qed
  then show ?thesis using ok assms(2) by (auto simp: wi_table_ok_def)
qed

lemma wi_table_ok_Nil: "(\<forall>k < HASHTABLE_NSLOT. hash k = 0) \<Longrightarrow> wi_table_ok hash []"
  by (simp add: wi_table_ok_def)

text \<open>The entries of one page lie on its path in increasing order.\<close>

lemma path_increasing:
  assumes ok: "wi_table_ok hash qs" and i: "i < length qs" "i' < length qs" "qs ! i = p" "qs ! i' = p" "i' < i"
    and j: "j < HASHTABLE_NSLOT" "hash (slot (walHash p) j) = Suc i"
    and j': "j' < HASHTABLE_NSLOT" "hash (slot (walHash p) j') = Suc i'"
  shows "j' < j"
proof (rule ccontr)
  assume "\<not> ?thesis"
  moreover have "j \<noteq> j'" using i(5) j(2) j'(2) by (metis Suc_inject less_irrefl)
  ultimately have less: "j < j'" by simp
  from on_path_entry[OF ok i(2)] i obtain d where d: "d < HASHTABLE_NSLOT" "hash (slot (walHash p) d) = Suc i'"
    "\<forall>d' < d. 0 < hash (slot (walHash p) d') \<and> hash (slot (walHash p) d') < Suc i'" by auto
  have "slot (walHash p) d = slot (walHash p) j'" using ok d(2) j' by (auto simp: wi_table_ok_def)
  then have "d = j'" using slot_inj d(1) j'(1) by blast
  with less d(3) j(2) i(5) show False by auto
qed

text \<open>The largest number up to \<open>n\<close> with a property, or 0.\<close>

fun latest :: "(nat \<Rightarrow> bool) \<Rightarrow> nat \<Rightarrow> nat" where
  "latest P 0 = 0"
| "latest P (Suc n) = (if P (Suc n) then Suc n else latest P n)"

lemma latest_unique:
  "0 < m \<Longrightarrow> m \<le> n \<Longrightarrow> P m \<Longrightarrow> (\<And>k. m < k \<Longrightarrow> k \<le> n \<Longrightarrow> \<not> P k) \<Longrightarrow> latest P n = m"
  by (induction n) (auto simp: le_Suc_eq)

lemma latest_none: "(\<And>k. 0 < k \<Longrightarrow> k \<le> n \<Longrightarrow> \<not> P k) \<Longrightarrow> latest P n = 0"
  by (induction n) auto

lemma latest_cong: "(\<And>k. 0 < k \<Longrightarrow> k \<le> n \<Longrightarrow> P k = Q k) \<Longrightarrow> latest P n = latest Q n"
  by (induction n) auto

lemma latest_cases:
  "latest P n = 0 \<and> (\<forall>k. 0 < k \<longrightarrow> k \<le> n \<longrightarrow> \<not> P k) \<or>
   0 < latest P n \<and> latest P n \<le> n \<and> P (latest P n) \<and> (\<forall>k. latest P n < k \<longrightarrow> k \<le> n \<longrightarrow> \<not> P k)"
  by (induction n) (auto simp: le_Suc_eq)

lemma latest_extend: "m \<le> n \<Longrightarrow> (\<And>k. m < k \<Longrightarrow> k \<le> n \<Longrightarrow> \<not> P k) \<Longrightarrow> latest P n = latest P m"
  by (induction n) (auto simp: le_Suc_eq)

lemma fold_last_match:
  "fold (\<lambda>e r. if P e then f e else r) es r = (case filter P (rev es) of [] \<Rightarrow> r | e # _ \<Rightarrow> f e)"
  by (induction es rule: rev_induct) auto

definition matches :: "wi_block \<Rightarrow> nat \<Rightarrow> nat \<Rightarrow> nat \<Rightarrow> u32 \<Rightarrow> nat \<Rightarrow> bool" where
  "matches b iZero iLast minF pgno e \<longleftrightarrow> e + iZero \<le> iLast \<and> minF \<le> e + iZero \<and> aPgno b e = pgno"

lemma find_probe_fold:
  assumes "aHash b (slot h D) = 0" "\<forall>j < D. aHash b (slot h j) \<noteq> 0" "D \<le> n" "h < HASHTABLE_NSLOT"
  shows "find_probe n b z l m p h r =
    Some (fold (\<lambda>e r. if matches b z l m p e then e + z else r) (map (\<lambda>j. aHash b (slot h j)) [0 ..< D]) r)"
  using assms
proof (induction D arbitrary: n h r)
  case 0
  then show ?case by (simp add: find_probe.simps[of n] slot_0)
next
  case (Suc D)
  then obtain k where n: "n = Suc k" by (cases n) auto
  have h: "aHash b h \<noteq> 0" "slot h 0 = h" using Suc.prems(2,4) slot_0[of h] by auto
  have "[0 ..< Suc D] = 0 # map Suc [0 ..< D]" by (simp add: map_Suc_upt upt_conv_Cons)
  then have split: "map (\<lambda>j. aHash b (slot h j)) [0 ..< Suc D] =
      aHash b h # map (\<lambda>j. aHash b (slot (walNextHash h) j)) [0 ..< D]"
    by (simp add: h slot_Suc o_def del: upt_Suc)
  have "find_probe k b z l m p (walNextHash h) r' =
      Some (fold (\<lambda>e r. if matches b z l m p e then e + z else r)
        (map (\<lambda>j. aHash b (slot (walNextHash h) j)) [0 ..< D]) r')" for r'
    using Suc.prems n by (intro Suc.IH) (auto simp: slot_Suc[symmetric])
  then show ?case
    unfolding split by (simp add: n find_probe.simps[of "Suc k"] h matches_def Let_def)
qed

definition block_ok :: "nat \<Rightarrow> wi_block \<Rightarrow> u32 list \<Rightarrow> bool" where
  "block_ok h b qs \<longleftrightarrow> length qs \<le> hash_cap h \<and> 0 \<notin> set qs \<and>
     (\<forall>i < length qs. aPgno b (Suc i) = qs ! i) \<and>
     (\<forall>i. length qs < i \<longrightarrow> i \<le> hash_cap h \<longrightarrow> aPgno b i = 0) \<and>
     wi_table_ok (aHash b) qs"

lemma block_okD:
  assumes "block_ok h b qs"
  shows "length qs \<le> hash_cap h" "length qs < HASHTABLE_NSLOT" "0 \<notin> set qs"
    "i < length qs \<Longrightarrow> aPgno b (Suc i) = qs ! i" "wi_table_ok (aHash b) qs"
    "length qs < k \<Longrightarrow> k \<le> hash_cap h \<Longrightarrow> aPgno b k = 0"
  using assms hash_cap_bounds[of h] by (auto simp: block_ok_def)

text \<open>Searching one block: the last of its entries that matches.\<close>

lemma find_probe_block:
  assumes ok: "block_ok h b qs"
  shows "find_probe HASHTABLE_NSLOT b z l m p (walHash p) 0 =
    Some (let e = latest (matches b z l m p) (length qs) in if e = 0 then 0 else e + z)"
proof -
  let ?h = "walHash p" and ?M = "matches b z l m p"
  note t = block_okD[OF ok]
  obtain D where D: "D \<le> length qs" "aHash b (slot ?h D) = 0" "\<forall>j < D. aHash b (slot ?h j) \<noteq> 0"
    by (rule path_end[OF t(5,2)])
  let ?es = "map (\<lambda>j. aHash b (slot ?h j)) [0 ..< D]"
  have range: "0 < e \<and> e \<le> length qs" if "e \<in> set ?es" for e
    using that D(3) t(5) by (auto simp: wi_table_ok_def)
  have on: "\<exists>j < D. e = ?es ! j" if "0 < e" "e \<le> length qs" "?M e" for e
  proof -
    from that(1) obtain i where e: "e = Suc i" by (cases e) auto
    with that have i: "i < length qs" "qs ! i = p" using t(4)[of i] by (auto simp: matches_def)
    from on_path_entry[OF t(5) i(1)] obtain j where j: "j < HASHTABLE_NSLOT" "aHash b (slot ?h j) = e"
      "\<forall>j' < j. 0 < aHash b (slot ?h j')" unfolding i(2) e by metis
    have "j < D" using j(2,3) D(2) that(1) by (metis less_irrefl linorder_neqE_nat)
    with j show ?thesis by auto
  qed
  have run: "find_probe HASHTABLE_NSLOT b z l m p ?h 0 =
      Some (case filter ?M (rev ?es) of [] \<Rightarrow> 0 | e # _ \<Rightarrow> e + z)"
    using D t(2) by (subst find_probe_fold[OF D(2,3)]) (simp_all add: fold_last_match)
  show ?thesis
  proof (cases "filter ?M (rev ?es)")
    case Nil
    then have "\<not> ?M e" if "e \<in> set ?es" for e using that by (auto simp: filter_empty_conv)
    then have "latest ?M (length qs) = 0"
      using on by (intro latest_none) (metis D(1) length_map length_upt minus_nat.diff_0 nth_mem)
    with run Nil show ?thesis by simp
  next
    case (Cons e rest)
    then obtain us vs where uv: "?es = us @ e # vs" "?M e" "\<forall>x \<in> set vs. \<not> ?M x"
      by (auto simp: filter_eq_Cons_iff rev_eq_append_conv)
    have "\<not> ?M k" if k: "e < k" "k \<le> length qs" for k
    proof
      assume M: "?M k"
      from on[OF _ k(2) M] k(1) obtain j where j: "j < D" "k = ?es ! j" by auto
      have e: "0 < e" "e \<le> length qs" using range[of e] uv(1) by auto
      have je: "length us < D" "aHash b (slot ?h (length us)) = e"
        using arg_cong[OF uv(1), of length] arg_cong[OF uv(1), of "\<lambda>xs. xs ! length us"]
        by (auto simp del: upt_Suc)
      have "length us < j"
      proof (rule path_increasing[OF t(5), of "k - 1" "e - 1" p])
        show "qs ! (k - 1) = p" "qs ! (e - 1) = p"
          using M uv(2) e k t(4)[of "k - 1"] t(4)[of "e - 1"] by (auto simp: matches_def)
      qed (use e k j je D(1) t(2) in auto)
      moreover have "D = Suc (length us + length vs)" using arg_cong[OF uv(1), of length] by simp
      moreover have "k = vs ! (j - Suc (length us))"
        using j(2) \<open>length us < j\<close> unfolding uv(1) nth_append by simp
      ultimately have "k \<in> set vs" using j(1) by simp
      with uv(3) M show False by auto
    qed
    then have "latest ?M (length qs) = e"
      using range[of e] uv by (intro latest_unique) auto
    with run Cons range[of e] uv(1) show ?thesis by simp
  qed
qed

subsection \<open>The whole index\<close>

definition chunk :: "nat \<Rightarrow> u32 list \<Rightarrow> u32 list" where
  "chunk h log = take (hash_cap h) (drop (hash_zero h) log)"

text \<open>
  The index describes the log \<open>log\<close> when every block up to the last one in use holds its part
  of it, possibly followed by entries of frames that are not, or no longer, in the log.
\<close>

definition index_ok :: "wal_shm \<Rightarrow> u32 list \<Rightarrow> bool" where
  "index_ok shm log \<longleftrightarrow> log = [] \<or>
     (\<forall>h \<le> walFramePage (length log). \<exists>g. block_ok h (blocks shm h) (chunk h log @ g))"

lemma index_ok_Nil [simp]: "index_ok shm []"
  by (simp add: index_ok_def)

lemma chunk_nth:
  "i < length (chunk h log) \<Longrightarrow> chunk h log ! i = log ! (hash_zero h + i)"
  by (cases "hash_zero h \<le> length log") (auto simp: chunk_def)

lemma length_chunk: "length (chunk h log) = min (hash_cap h) (length log - hash_zero h)"
  by (simp add: chunk_def)

lemma chunk_take: "chunk h log = chunk h (take n log) @ drop (length (chunk h (take n log))) (chunk h log)"
proof -
  have "chunk h (take n log) = take (length (chunk h (take n log))) (chunk h log)"
    by (rule nth_equalityI) (auto simp: length_chunk chunk_nth)
  then show ?thesis by (metis append_take_drop_id)
qed

text \<open>An index of a log is an index of each of its prefixes: older snapshots stay readable.\<close>

lemma index_ok_take:
  assumes "index_ok shm log" shows "index_ok shm (take n log)"
proof (cases "take n log = []")
  case False
  then have log: "\<forall>h \<le> walFramePage (length log). \<exists>g. block_ok h (blocks shm h) (chunk h log @ g)"
    using assms by (auto simp: index_ok_def)
  have "\<exists>g. block_ok h (blocks shm h) (chunk h (take n log) @ g)"
    if h: "h \<le> walFramePage (length (take n log))" for h
  proof -
    have "h \<le> walFramePage (length log)"
      using h by (rule order_trans) (rule walFramePage_mono, simp)
    with log obtain g where "block_ok h (blocks shm h) (chunk h log @ g)" by blast
    then have "block_ok h (blocks shm h)
        ((chunk h (take n log) @ drop (length (chunk h (take n log))) (chunk h log)) @ g)"
      by (subst (asm) chunk_take[of h log n])
    then show ?thesis unfolding append.assoc by (rule exI)
  qed
  then show ?thesis by (simp add: index_ok_def)
qed (auto simp: index_ok_def)

text \<open>The frame that the log gives for a page: the last of those in view.\<close>

definition log_lookup :: "u32 list \<Rightarrow> nat \<Rightarrow> u32 \<Rightarrow> nat" where
  "log_lookup log minF p = latest (\<lambda>f. minF \<le> f \<and> log ! (f - 1) = p) (length log)"

text \<open>A search either answers or reports that a block could not be mapped.\<close>

definition answers :: "wal_shm \<Rightarrow> int + nat \<Rightarrow> nat \<Rightarrow> bool" where
  "answers shm r v \<longleftrightarrow> r = Inr v \<or> (\<exists>h. mapRc shm h \<noteq> SQLITE_OK \<and> r = Inl (mapRc shm h))"

lemma find_tables_latest:
  assumes ok: "index_ok shm log"
    and lo: "\<forall>f \<le> hash_zero lo. \<not> (0 < f \<and> minF \<le> f)"
    and hi: "lo + n \<le> walFramePage (length log) + 1" "log \<noteq> []"
  shows "answers shm (find_tables shm (length log) minF p lo n)
    (latest (\<lambda>f. minF \<le> f \<and> log ! (f - 1) = p) (min (length log) (hash_zero (lo + n))))"
  using hi(1)
proof (induction n)
  case 0
  have "latest (\<lambda>f. minF \<le> f \<and> log ! (f - 1) = p) (min (length log) (hash_zero lo)) = 0"
    using lo by (intro latest_none) auto
  then show ?case by (simp add: answers_def)
next
  case (Suc n)
  let ?h = "lo + n" and ?P = "\<lambda>f. minF \<le> f \<and> log ! (f - 1) = p"
  let ?b = "blocks shm ?h" and ?z = "hash_zero ?h"
  have "?h \<le> walFramePage (length log)" using Suc.prems by simp
  with ok hi(2) obtain g where b: "block_ok ?h ?b (chunk ?h log @ g)" by (auto simp: index_ok_def)
  let ?qs = "chunk ?h log @ g"
  let ?M = "matches ?b ?z (length log) minF p"
  have M: "?M e \<longleftrightarrow> ?P (e + ?z)" if e: "0 < e" "e + ?z \<le> length log" "e \<le> length ?qs" for e
  proof -
    have "e - 1 < length (chunk ?h log)" using e block_okD(1)[OF b] by (auto simp: length_chunk)
    then have "aPgno ?b e = log ! (e + ?z - 1)"
      using block_okD(4)[OF b, of "e - 1"] e(1) by (simp add: nth_append chunk_nth add.commute)
    with e show ?thesis by (simp add: matches_def)
  qed
  have len: "k - ?z \<le> length ?qs" if "k \<le> length log" "k \<le> hash_zero (Suc ?h)" for k
    using that by (auto simp: length_chunk hash_zero_Suc)
  note probe = find_probe_block[OF b, of ?z "length log" minF p]
  note IH = Suc.IH[OF Suc_leD[OF Suc.prems[unfolded add_Suc_right]]]
  let ?e = "latest ?M (length ?qs)"
  show ?case
  proof (cases "mapRc shm ?h = SQLITE_OK")
    case maps: True
    show ?thesis
    proof (cases "?e = 0")
      case True
      then have none: "\<not> ?M k" if "0 < k" "k \<le> length ?qs" for k
        using latest_cases[of ?M "length ?qs"] that by auto
      have "latest ?P (min (length log) (hash_zero (Suc ?h))) = latest ?P (min (length log) ?z)"
      proof (rule latest_extend)
        show "min (length log) ?z \<le> min (length log) (hash_zero (Suc ?h))"
          using hash_zero_mono[of ?h "Suc ?h"] by auto
        fix k assume k: "min (length log) ?z < k" "k \<le> min (length log) (hash_zero (Suc ?h))"
        then have "?z < k" "k \<le> length log" "k \<le> hash_zero (Suc ?h)" by auto
        with none[of "k - ?z"] M[of "k - ?z"] len[of k] show "\<not> ?P k" by auto
      qed
      with True IH show ?thesis by (simp add: walHashGet_def maps probe Let_def)
    next
      case False
      then have e: "0 < ?e" "?e \<le> length ?qs" "?M ?e" "\<And>k. ?e < k \<Longrightarrow> k \<le> length ?qs \<Longrightarrow> \<not> ?M k"
        using latest_cases[of ?M "length ?qs"] by auto
      have bound: "?e + ?z \<le> length log" using e(3) by (simp add: matches_def)
      have "latest ?P (min (length log) (hash_zero (Suc ?h))) = ?e + ?z"
      proof (rule latest_unique)
        show "?e + ?z \<le> min (length log) (hash_zero (Suc ?h))"
          using bound e(2) block_okD(1)[OF b] by (simp add: hash_zero_Suc)
        show "?P (?e + ?z)" using M e bound by blast
        fix k assume k: "?e + ?z < k" "k \<le> min (length log) (hash_zero (Suc ?h))"
        then show "\<not> ?P k" using e(4)[of "k - ?z"] M[of "k - ?z"] len[of k] by auto
      qed (use e in simp)
      with False show ?thesis by (simp add: walHashGet_def maps probe Let_def answers_def)
    qed
  next
    case False
    then show ?thesis by (auto simp: walHashGet_def answers_def)
  qed
qed

text \<open>No entries beyond the log in the block that takes its next frame.\<close>

definition index_tight :: "wal_shm \<Rightarrow> u32 list \<Rightarrow> bool" where
  "index_tight shm log \<longleftrightarrow> log = [] \<or>
     block_ok (walFramePage (length log)) (blocks shm (walFramePage (length log)))
       (chunk (walFramePage (length log)) log)"

lemma block_ok_cut:
  assumes ok: "block_ok h b (qs @ g)"
  shows "block_ok h \<lparr>aPgno = (\<lambda>i. if length qs + 1 \<le> i \<and> i \<le> hash_cap h then 0 else aPgno b i),
    aHash = (\<lambda>i. if i < HASHTABLE_NSLOT \<and> length qs < aHash b i then 0 else aHash b i)\<rparr> qs"
proof -
  note t = block_okD[OF ok]
  have "aPgno b (Suc i) = qs ! i" if "i < length qs" for i
    using t(4)[of i] that by (simp add: nth_append)
  moreover have "wi_table_ok (\<lambda>i. if i < HASHTABLE_NSLOT \<and> length qs < aHash b i then 0 else aHash b i) qs"
    using wi_table_ok_cut[OF t(5), of "length qs"] by simp
  ultimately show ?thesis using t(1,3) unfolding block_ok_def wi_block.simps by simp
qed

lemma cleanup_blocks:
  assumes "log \<noteq> []"
  defines "h \<equiv> walFramePage (length log)"
  assumes ok: "block_ok h (blocks shm h) (chunk h log @ g)"
  shows "block_ok h (blocks (walCleanupHash (length log) shm) h) (chunk h log)"
    "h' \<noteq> h \<Longrightarrow> blocks (walCleanupHash (length log) shm) h' = blocks shm h'"
    "mapRc (walCleanupHash (length log) shm) = mapRc shm"
proof -
  have "length log - hash_zero h = length (chunk h log)"
    using frame_in_page[of "length log"] assms(1) by (simp add: length_chunk h_def)
  then show "block_ok h (blocks (walCleanupHash (length log) shm) h) (chunk h log)"
    using block_ok_cut[OF ok] assms(1) by (simp add: walCleanupHash_def h_def[symmetric] Let_def)
qed (simp_all add: walCleanupHash_def h_def[symmetric] Let_def)

lemma cleanup_index:
  assumes "index_ok shm log"
  shows "index_ok (walCleanupHash (length log) shm) log" "index_tight (walCleanupHash (length log) shm) log"
proof -
  let ?h = "walFramePage (length log)"
  show tight: "index_tight (walCleanupHash (length log) shm) log"
    using assms cleanup_blocks(1)[of log shm] by (auto simp: index_ok_def index_tight_def)
  show "index_ok (walCleanupHash (length log) shm) log"
  proof (cases "log = []")
    case False
    have "\<exists>g. block_ok h (blocks (walCleanupHash (length log) shm) h) (chunk h log @ g)" if "h \<le> ?h" for h
    proof (cases "h = ?h")
      case True
      with tight False show ?thesis by (intro exI[of _ "[]"]) (simp add: index_tight_def)
    next
      case ne: False
      from assms False obtain g where "block_ok ?h (blocks shm ?h) (chunk ?h log @ g)" by (auto simp: index_ok_def)
      from cleanup_blocks(2)[OF False this ne] assms False that show ?thesis by (simp add: index_ok_def)
    qed
    then show ?thesis by (simp add: index_ok_def)
  qed simp
qed

lemma block_ok_insert:
  assumes ok: "block_ok h b qs" and room: "length qs < hash_cap h" and "p \<noteq> 0"
  obtains iKey where "append_probe (Suc (length qs)) (aHash b) (walHash p) = Some iKey"
    "block_ok h \<lparr>aPgno = (aPgno b)(Suc (length qs) := p), aHash = (aHash b)(iKey := Suc (length qs))\<rparr> (qs @ [p])"
proof -
  note t = block_okD[OF ok]
  obtain D where D: "D \<le> length qs" "aHash b (slot (walHash p) D) = 0" "\<forall>j < D. aHash b (slot (walHash p) j) \<noteq> 0"
    by (rule path_end[OF t(5,2)])
  have "append_probe (Suc (length qs)) (aHash b) (walHash p) = Some (slot (walHash p) D)"
    using D by (intro append_probe_slot) simp_all
  moreover have "wi_table_ok ((aHash b)(slot (walHash p) D := Suc (length qs))) (qs @ [p])"
    by (rule wi_table_ok_insert[OF t(5,2) D])
  moreover have "((aPgno b)(Suc (length qs) := p)) (Suc i) = (qs @ [p]) ! i" if "i < length (qs @ [p])" for i
    using that t(4)[of i] by (auto simp: nth_append less_Suc_eq)
  moreover have "((aPgno b)(Suc (length qs) := p)) i = 0" if "length (qs @ [p]) < i" "i \<le> hash_cap h" for i
    using that t(6)[of i] by simp
  ultimately show thesis using that[of "slot (walHash p) D"] t(3) room assms(3)
    unfolding block_ok_def wi_block.simps by simp
qed

lemma clear_block_ok: "block_ok h (clear_block h b) []"
  by (simp add: block_ok_def clear_block_def wi_table_ok_Nil)

lemma chunk_snoc_last:
  assumes "h = walFramePage (length log + 1)"
  shows "chunk h (log @ [p]) = chunk h log @ [p]" "length (chunk h log) = length log - hash_zero h"
    "length (chunk h log) < hash_cap h"
  using frame_in_page[of "length log + 1"] assms by (auto simp: chunk_def)

lemma chunk_snoc_before:
  assumes "h < walFramePage (length log + 1)" shows "chunk h (log @ [p]) = chunk h log"
    "log \<noteq> []" "h \<le> walFramePage (length log)"
proof -
  have "hash_zero (Suc h) \<le> hash_zero (walFramePage (length log + 1))"
    using assms by (intro hash_zero_mono) simp
  with frame_in_page(1)[of "length log + 1"] have le: "hash_zero h + hash_cap h \<le> length log"
    by (simp add: hash_zero_Suc)
  then show "chunk h (log @ [p]) = chunk h log" by (simp add: chunk_def)
  show ne: "log \<noteq> []" using le hash_cap_bounds(1)[of h] by auto
  have "walFramePage (hash_zero h + hash_cap h) = h"
    using hash_cap_bounds(1)[of h] by (subst walFramePage_iff) auto
  with le show "h \<le> walFramePage (length log)" by (metis walFramePage_mono)
qed

text \<open>What \<open>walIndexAppend\<close> does before it enters the frame: the block holds the log and no more.\<close>

definition append_prepare :: "nat \<Rightarrow> wal_shm \<Rightarrow> nat \<Rightarrow> nat \<Rightarrow> wal_shm" where
  "append_prepare mx shm iHash idx =
     (let shm = (if idx = 1 then shm\<lparr>blocks := (blocks shm)(iHash := clear_block iHash (blocks shm iHash))\<rparr> else shm)
      in if aPgno (blocks shm iHash) idx \<noteq> 0 then walCleanupHash mx shm else shm)"

lemma append_prepare_ok:
  assumes ok: "index_ok shm log" and now: "mx = length log \<or> index_tight shm log"
  defines "h \<equiv> walFramePage (length log + 1)"
  defines "shm' \<equiv> append_prepare mx shm h (length log + 1 - hash_zero h)"
  shows "block_ok h (blocks shm' h) (chunk h log)" "\<forall>h' \<noteq> h. blocks shm' h' = blocks shm h'" "mapRc shm' = mapRc shm"
proof -
  let ?idx = "length log + 1 - hash_zero h"
  note len = chunk_snoc_last[OF h_def[THEN meta_eq_to_obj_eq]]
  have "block_ok h (blocks shm' h) (chunk h log) \<and> (\<forall>h' \<noteq> h. blocks shm' h' = blocks shm h') \<and> mapRc shm' = mapRc shm"
  proof (cases "?idx = 1")
    case True
    then have "aPgno (clear_block h (blocks shm h)) ?idx = 0"
      using hash_cap_bounds(1)[of h] by (simp add: clear_block_def)
    moreover have "chunk h log = []" using True len(2) by simp
    ultimately show ?thesis using True clear_block_ok[of h "blocks shm h"]
      by (simp add: shm'_def append_prepare_def)
  next
    case False
    have pos: "hash_zero h < length log + 1" "length log + 1 \<le> hash_zero h + hash_cap h"
      using frame_in_page[of "length log + 1"] by (auto simp: h_def)
    with False have z: "hash_zero h < length log" by simp
    have "0 < length log" by (rule le_less_trans[OF le0 z])
    with z pos have log: "log \<noteq> []" "walFramePage (length log) = h" by (auto simp: walFramePage_iff)
    from ok log obtain g where g: "block_ok h (blocks shm h) (chunk h log @ g)" by (auto simp: index_ok_def)
    note cut = cleanup_blocks[OF log(1), unfolded log(2), OF g]
    have idx: "?idx = Suc (length (chunk h log))" using z len(2) by simp
    show ?thesis
    proof (cases "aPgno (blocks shm h) ?idx = 0")
      case True
      then have "g = []" using block_okD(3)[OF g] block_okD(4)[OF g, of "length (chunk h log)"] unfolding idx by (cases g) auto
      with g True False show ?thesis by (simp add: shm'_def append_prepare_def)
    next
      case full: False
      then have "\<not> index_tight shm log"
        using log idx len(3) block_okD(6)[of h "blocks shm h" "chunk h log" ?idx] by (auto simp: index_tight_def)
      with now have "mx = length log" by simp
      with full False cut show ?thesis by (simp add: shm'_def append_prepare_def)
    qed
  qed
  then show "block_ok h (blocks shm' h) (chunk h log)" "\<forall>h' \<noteq> h. blocks shm' h' = blocks shm h'"
    "mapRc shm' = mapRc shm" by auto
qed

lemma walIndexAppend_ok:
  assumes ok: "index_ok shm log" and now: "mx = length log \<or> index_tight shm log"
    and maps: "mapRc shm (walFramePage (length log + 1)) = SQLITE_OK" and p: "p \<noteq> 0"
  obtains shm' where "walIndexAppend mx shm (length log + 1) p = (SQLITE_OK, shm')"
    "index_ok shm' (log @ [p])" "index_tight shm' (log @ [p])" "mapRc shm' = mapRc shm"
    "aHdr0 shm' = aHdr0 shm" "aHdr1 shm' = aHdr1 shm" "ckptInfo shm' = ckptInfo shm"
proof -
  let ?h = "walFramePage (length log + 1)"
  let ?idx = "length log + 1 - hash_zero ?h"
  let ?s = "append_prepare mx shm ?h ?idx"
  let ?b = "blocks ?s ?h"
  note prep = append_prepare_ok[OF ok now]
  note len = chunk_snoc_last[OF refl, of log]
  have "hash_zero ?h < length log + 1" by (rule frame_in_page) simp
  then have idx: "?idx = Suc (length (chunk ?h log))" using len(2) by linarith
  obtain iKey where k: "append_probe ?idx (aHash ?b) (walHash p) = Some iKey"
    "block_ok ?h \<lparr>aPgno = (aPgno ?b)(?idx := p), aHash = (aHash ?b)(iKey := ?idx)\<rparr> (chunk ?h log @ [p])"
    using block_ok_insert[OF prep(1) len(3) p] unfolding idx by metis
  have small: "?idx mod 2 ^ 16 = ?idx" using len(3) hash_cap_bounds(3)[of ?h] idx by (intro mod_less) linarith
  let ?s' = "?s\<lparr>blocks := (blocks ?s)(?h := \<lparr>aPgno = (aPgno ?b)(?idx := p), aHash = (aHash ?b)(iKey := ?idx)\<rparr>)\<rparr>"
  have run: "walIndexAppend mx shm (length log + 1) p = (SQLITE_OK, ?s')"
    using k(1) small maps
    by (simp add: walIndexAppend_def walHashGet_def append_prepare_def Let_def split del: if_split)
  have "\<exists>g. block_ok h (blocks ?s' h) (chunk h (log @ [p]) @ g)" if "h \<le> ?h" for h
  proof (cases "h = ?h")
    case True
    with k(2) len(1) show ?thesis by (intro exI[of _ "[]"]) simp
  next
    case False
    with that have "h < ?h" by simp
    note before = chunk_snoc_before[OF this]
    with ok have "\<exists>g. block_ok h (blocks shm h) (chunk h log @ g)" by (simp add: index_ok_def)
    with False prep(2) before(1) show ?thesis by simp
  qed
  then have 1: "index_ok ?s' (log @ [p])" by (simp add: index_ok_def)
  have 2: "index_tight ?s' (log @ [p])" using k(2) len(1) by (simp add: index_tight_def)
  have 3: "aHdr0 ?s = aHdr0 shm" "aHdr1 ?s = aHdr1 shm" "ckptInfo ?s = ckptInfo shm"
    by (simp_all add: append_prepare_def walCleanupHash_def Let_def)
  from prep(3) 3 show thesis by (intro that[OF run 1 2]) simp_all
qed

lemma append_frames_ok:
  assumes "index_ok shm log" "mx = length log \<or> index_tight shm log" "0 \<notin> set ps"
    "append_frames mx shm (length log) ps = (rc, shm', n)"
  shows "mapRc shm' = mapRc shm \<and> aHdr0 shm' = aHdr0 shm \<and> aHdr1 shm' = aHdr1 shm \<and> ckptInfo shm' = ckptInfo shm \<and>
    (\<exists>k \<le> length ps. index_ok shm' (log @ take k ps) \<and>
      (rc = SQLITE_OK \<longrightarrow> k = length ps \<and> n = length log + length ps)) \<and>
    ((\<forall>h. mapRc shm h = SQLITE_OK) \<longrightarrow> rc = SQLITE_OK)"
  using assms
proof (induction ps arbitrary: shm log)
  case (Cons p ps)
  show ?case
  proof (cases "mapRc shm (walFramePage (length log + 1)) = SQLITE_OK")
    case True
    from Cons.prems(3) have "p \<noteq> 0" by auto
    then obtain s where s: "walIndexAppend mx shm (length log + 1) p = (SQLITE_OK, s)"
      "index_ok s (log @ [p])" "index_tight s (log @ [p])" "mapRc s = mapRc shm"
      "aHdr0 s = aHdr0 shm" "aHdr1 s = aHdr1 shm" "ckptInfo s = ckptInfo shm"
      by (rule walIndexAppend_ok[OF Cons.prems(1,2) True]) (auto intro: that)
    have "append_frames mx s (length (log @ [p])) ps = (rc, shm', n)"
      using Cons.prems(4) s(1) by (simp add: Let_def)
    from Cons.IH[OF s(2) _ _ this] s(3-) Cons.prems(3) obtain k where
      "k \<le> length ps" "index_ok shm' ((log @ [p]) @ take k ps)"
      "rc = SQLITE_OK \<longrightarrow> k = length ps \<and> n = length (log @ [p]) + length ps"
      "mapRc shm' = mapRc shm \<and> aHdr0 shm' = aHdr0 shm \<and> aHdr1 shm' = aHdr1 shm \<and> ckptInfo shm' = ckptInfo shm"
      "(\<forall>h. mapRc shm h = SQLITE_OK) \<longrightarrow> rc = SQLITE_OK" by auto
    then show ?thesis by (intro conjI exI[of _ "Suc k"]) auto
  next
    case False
    with Cons.prems(1,4) show ?thesis
      by (auto simp: walIndexAppend_def walHashGet_def Let_def intro!: exI[of _ 0])
  qed
qed auto

lemma walFramePgno_log:
  assumes ok: "index_ok shm log" and f: "0 < f" "f \<le> length log"
  shows "walFramePgno shm f = log ! (f - 1)"
proof -
  let ?h = "walFramePage f"
  have "?h \<le> walFramePage (length log)" using f(2) by (rule walFramePage_mono)
  with ok f obtain g where b: "block_ok ?h (blocks shm ?h) (chunk ?h log @ g)" by (auto simp: index_ok_def)
  define i where "i = f - hash_zero ?h - 1"
  have i: "i < length (chunk ?h log)" "f = hash_zero ?h + Suc i"
    using frame_in_page[OF f(1)] f by (auto simp: i_def length_chunk)
  have f1: "f - Suc 0 = hash_zero ?h + i" using i(2) by linarith
  have "aPgno (blocks shm ?h) (Suc i) = log ! (f - 1)"
    using block_okD(4)[OF b, of i] i(1) f1 by (simp add: nth_append chunk_nth)
  moreover have "(f - 1 - HASHTABLE_NPAGE_ONE) mod HASHTABLE_NPAGE + 1 = Suc i" if "?h \<noteq> 0"
  proof -
    from that i have "f - 1 - HASHTABLE_NPAGE_ONE = i + (?h - 1) * HASHTABLE_NPAGE"
      by (simp add: hash_zero_def)
    moreover have "i < HASHTABLE_NPAGE" using that i(1) by (simp add: length_chunk hash_cap_def)
    ultimately show ?thesis by simp
  qed
  ultimately show ?thesis using i(2) by (auto simp: walFramePgno_def Let_def hash_zero_def)
qed

lemma find_linear_log:
  assumes "index_ok shm log" "0 < minF"
  shows "find_linear shm minF p (length log) = log_lookup log minF p"
proof -
  have "find_linear shm minF p n = latest (\<lambda>f. minF \<le> f \<and> log ! (f - 1) = p) n" if "n \<le> length log" for n
    using that
  proof (induction n)
    case (Suc n)
    have "latest (\<lambda>f. minF \<le> f \<and> log ! (f - 1) = p) n = 0" if "n < minF"
      using that by (intro latest_none) simp
    with Suc walFramePgno_log[OF assms(1), of "Suc n"] show ?case by simp
  qed simp
  then show ?thesis by (simp add: log_lookup_def)
qed

lemma find_frame_log:
  assumes ok: "index_ok shm log"
    and w: "unat (mxFrame (hdr w)) = n" "n \<le> length log" "readLock w \<noteq> 0"
  shows "answers shm (sqlite3WalFindFrame w shm p) (log_lookup (take n log) (minFrame w) p)"
proof (cases "n = 0")
  case False
  let ?lo = "walFramePage (minFrame w)" and ?hi = "walFramePage n"
  let ?P = "\<lambda>f. minFrame w \<le> f \<and> take n log ! (f - 1) = p"
  have len: "length (take n log) = n" using w(2) by simp
  have lo: "\<not> (0 < f \<and> minFrame w \<le> f)" if "f \<le> hash_zero ?lo" for f
  proof (cases "minFrame w = 0")
    case True
    then have "?lo = 0" by (simp add: walFramePage_def wal_consts)
    with that show ?thesis by (simp add: hash_zero_def)
  next
    case False
    with frame_in_page(1)[of "minFrame w"] that show ?thesis by simp
  qed
  show ?thesis
  proof (cases "?lo \<le> ?hi")
    case True
    have "answers shm (find_tables shm (length (take n log)) (minFrame w) p ?lo (?hi + 1 - ?lo))
        (latest ?P (min (length (take n log)) (hash_zero (?lo + (?hi + 1 - ?lo)))))"
      using True False w(2) lo by (intro find_tables_latest[OF index_ok_take[OF ok]]) (auto simp: len)
    moreover have "n \<le> hash_zero (Suc ?hi)" using frame_in_page(2)[of n] False by (simp add: hash_zero_Suc)
    ultimately show ?thesis using True False w
      by (simp add: sqlite3WalFindFrame_def log_lookup_def len Let_def)
  next
    case below: False
    then have "n < minFrame w" using walFramePage_mono[of "minFrame w" n] by linarith
    then have "latest ?P n = 0" by (intro latest_none) simp
    with below False w show ?thesis by (simp add: sqlite3WalFindFrame_def log_lookup_def len answers_def)
  qed
qed (use w in \<open>simp add: sqlite3WalFindFrame_def log_lookup_def answers_def\<close>)

end
