(* ===== verification/Wal_File.thy ===== *)
theory Wal_File
  imports Wal_Index
begin

text \<open>
  What the log code uses of the operating system, as its documentation gives it: files that
  are read and written at an offset, locks and memory that may be refused. The outcome of
  every call is scripted, so that a property that holds for every script holds for every
  pattern of failures; a write that fails may have stored any prefix of its bytes.
\<close>

abbreviation (input) SQLITE_BUSY :: int where "SQLITE_BUSY \<equiv> 5"
abbreviation (input) SQLITE_CANTOPEN :: int where "SQLITE_CANTOPEN \<equiv> 14"
abbreviation (input) SQLITE_IOERR_SHORT_READ :: int where "SQLITE_IOERR_SHORT_READ \<equiv> 522"

text \<open>An outcome is a result code and, for a failing write, the number of bytes stored.\<close>

type_synonym os_script = "(int \<times> nat) list"

fun outcome :: "os_script \<Rightarrow> (int \<times> nat) \<times> os_script" where
  "outcome [] = ((SQLITE_OK, 0), [])"
| "outcome (r # rs) = (r, rs)"

definition os_call :: "os_script \<Rightarrow> int \<times> os_script" where
  "os_call sc = (case outcome sc of ((rc, k), sc) \<Rightarrow> (rc, sc))"

text \<open>A read beyond the end is short: the bytes that are missing are zero.\<close>

definition os_read :: "os_script \<Rightarrow> u8 list \<Rightarrow> nat \<Rightarrow> nat \<Rightarrow> int \<times> u8 list \<times> os_script" where
  "os_read sc file off n =
     (case os_call sc of (rc, sc) \<Rightarrow>
        if rc \<noteq> SQLITE_OK then (rc, [], sc)
        else if off + n \<le> length file then (SQLITE_OK, take n (drop off file), sc)
        else let data = take n (drop off file)
             in (SQLITE_IOERR_SHORT_READ, data @ replicate (n - length data) 0, sc))"

text \<open>A write beyond the end leaves zeros in the gap.\<close>

definition store_bytes :: "u8 list \<Rightarrow> nat \<Rightarrow> u8 list \<Rightarrow> u8 list" where
  "store_bytes file off data =
     (if data = [] then file
      else take off (file @ replicate (off - length file) 0) @ data @ drop (off + length data) file)"

definition os_write :: "os_script \<Rightarrow> u8 list \<Rightarrow> nat \<Rightarrow> u8 list \<Rightarrow> int \<times> u8 list \<times> os_script" where
  "os_write sc file off data =
     (case outcome sc of ((rc, k), sc) \<Rightarrow>
        (rc, store_bytes file off (if rc = SQLITE_OK then data else take k data), sc))"

text \<open>Truncating to more than the size extends the file with zeros.\<close>

definition os_truncate :: "os_script \<Rightarrow> u8 list \<Rightarrow> nat \<Rightarrow> int \<times> u8 list \<times> os_script" where
  "os_truncate sc file n =
     (case os_call sc of (rc, sc) \<Rightarrow> (rc, if rc = SQLITE_OK then take n file @ replicate (n - length file) 0 else file, sc))"

lemma store_at_end: "store_bytes file (length file) data = file @ data"
  by (simp add: store_bytes_def)

lemma store_inside:
  "off + length data \<le> length file \<Longrightarrow> store_bytes file off data = take off file @ data @ drop (off + length data) file"
  by (simp add: store_bytes_def)

lemma length_store_inside [simp]:
  "off + length data \<le> length file \<Longrightarrow> length (store_bytes file off data) = length file"
  by (simp add: store_inside)

end
