(* ===== verification/Wal_Recover.thy ===== *)
theory Wal_Recover
  imports Wal_File
begin

text \<open>
  Recovery (\<open>walIndexRecover\<close> in \<open>wal.c\<close>): the index is rebuilt from the log file alone, and
  the log is taken to end at its last commit. The theorems say what is recovered from a log
  that the writer's functions produced, whole or cut at any byte.
\<close>

subsection \<open>Writing the header of the index\<close>

definition store32 :: "bool \<Rightarrow> u32 \<Rightarrow> u8 list" where
  "store32 be v = (if be then sqlite3Put4byte v else rev (sqlite3Put4byte v))"

definition store16 :: "bool \<Rightarrow> u16 \<Rightarrow> u8 list" where
  "store16 be v = (if be then [ucast (drop_bit 8 v), ucast v] else [ucast v, ucast (drop_bit 8 v)])"

text \<open>The 40 bytes of the struct before its own checksum; the unused word is zero.\<close>

definition hdr_bytes :: "bool \<Rightarrow> WalIndexHdr \<Rightarrow> u8 list" where
  "hdr_bytes be h = store32 be (iVersion h) @ store32 be 0 @ store32 be (iChange h) @
     [of_bool (isInit h), of_bool (bigEndCksum h)] @ store16 be (hdrSzPage h) @
     store32 be (mxFrame h) @ store32 be (nPage h) @
     store32 be (fst (aFrameCksum h)) @ store32 be (snd (aFrameCksum h)) @ aSalt h"

definition walIndexWriteHdr :: "bool \<Rightarrow> wal \<Rightarrow> wal_shm \<Rightarrow> wal \<times> wal_shm" where
  "walIndexWriteHdr be w shm =
     (let h = (hdr w)\<lparr>isInit := True, iVersion := WALINDEX_MAX_VERSION\<rparr>;
          h = h\<lparr>aCksum := walChecksumBytes be True (hdr_bytes be h) 40 None\<rparr>
      in (w\<lparr>hdr := h\<rparr>, shm\<lparr>aHdr1 := h, aHdr0 := h\<rparr>))"

subsection \<open>Recovery\<close>

definition zero_hdr :: WalIndexHdr where
  "zero_hdr = \<lparr>iVersion = 0, iChange = 0, isInit = False, bigEndCksum = False, hdrSzPage = 0,
     mxFrame = 0, nPage = 0, aFrameCksum = (0, 0), aSalt = replicate 8 0, aCksum = (0, 0)\<rparr>"

text \<open>The 16-bit form of a page size, in which 1 stands for 65536.\<close>

definition page_size16 :: "nat \<Rightarrow> u16" where
  "page_size16 sz = (of_nat sz AND 0xff00) OR of_nat (sz div 2 ^ 16)"

text \<open>
  The loop over the frames. \<open>aFrameCksum\<close> is the local copy of the checksum at the last
  commit, \<open>sc\<close> the outcomes of the reads to come.
\<close>

function recover_frames ::
  "bool \<Rightarrow> u8 list \<Rightarrow> nat \<Rightarrow> nat \<Rightarrow> nat \<Rightarrow> os_script \<Rightarrow> wal \<Rightarrow> wal_shm \<Rightarrow> u32 \<times> u32 \<Rightarrow>
   int \<times> wal \<times> wal_shm \<times> (u32 \<times> u32)" where
  "recover_frames be log sz iFrame iOffset sc w shm aFrameCksum\<^sub>0 =
     (if iOffset + (sz + WAL_FRAME_HDRSIZE) \<le> length log then
        let iFrame = iFrame + 1;
            (rc, aFrame, sc) = os_read sc log iOffset (sz + WAL_FRAME_HDRSIZE)
        in if rc \<noteq> SQLITE_OK then (rc, w, shm, aFrameCksum\<^sub>0)
           else case walDecodeFrame be w (drop WAL_FRAME_HDRSIZE aFrame) (take WAL_FRAME_HDRSIZE aFrame) of
             (None, w) \<Rightarrow> (SQLITE_OK, w, shm, aFrameCksum\<^sub>0)
           | (Some (pgno, nTruncate), w) \<Rightarrow>
               (case walIndexAppend (unat (mxFrame (hdr w))) shm iFrame pgno of (rc, shm) \<Rightarrow>
                 if rc \<noteq> SQLITE_OK then (rc, w, shm, aFrameCksum\<^sub>0)
                 else if nTruncate \<noteq> 0 then
                   recover_frames be log sz iFrame (iOffset + (sz + WAL_FRAME_HDRSIZE)) sc
                     (w\<lparr>hdr := (hdr w)\<lparr>mxFrame := of_nat iFrame, nPage := nTruncate, hdrSzPage := page_size16 sz\<rparr>\<rparr>)
                     shm (aFrameCksum (hdr w))
                 else recover_frames be log sz iFrame (iOffset + (sz + WAL_FRAME_HDRSIZE)) sc w shm aFrameCksum\<^sub>0)
      else (SQLITE_OK, w, shm, aFrameCksum\<^sub>0))"
  by pat_completeness auto

termination
  by (relation "measure (\<lambda>(be, log, sz, iFrame, iOffset, sc, w, shm, s). length log - iOffset)") auto

declare recover_frames.simps [simp del]

text \<open>
  The header of the log: (result, state, whether the frames are to be read). The header is
  ignored when it is not one, and refused when its version is unknown.
\<close>

definition recover_header :: "bool \<Rightarrow> u8 list \<Rightarrow> wal \<Rightarrow> int \<times> wal \<times> bool" where
  "recover_header be aBuf w =
     (let magic = sqlite3Get4byte aBuf; sz = sqlite3Get4byte (drop 8 aBuf) in
      if magic AND 0xFFFFFFFE \<noteq> WAL_MAGIC \<or> sz AND (sz - 1) \<noteq> 0 \<or> 65536 < sint sz \<or> sint sz < 512
      then (SQLITE_OK, w, False)
      else
        let w = w\<lparr>hdr := (hdr w)\<lparr>bigEndCksum := (magic AND 1 \<noteq> 0), aSalt := take 8 (drop 16 aBuf)\<rparr>,
                  szPage := unat sz, nCkpt := sqlite3Get4byte (drop 12 aBuf)\<rparr>;
            s = walChecksumBytes be (bigEndCksum (hdr w) = be) aBuf (WAL_HDRSIZE - 2 * 4) None;
            w = w\<lparr>hdr := (hdr w)\<lparr>aFrameCksum := s\<rparr>\<rparr>
        in if fst s \<noteq> sqlite3Get4byte (drop 24 aBuf) \<or> snd s \<noteq> sqlite3Get4byte (drop 28 aBuf)
           then (SQLITE_OK, w, False)
           else if sqlite3Get4byte (drop 4 aBuf) \<noteq> WAL_MAX_VERSION then (SQLITE_CANTOPEN, w, False)
           else (SQLITE_OK, w, True))"

abbreviation (input) WAL_NREADER :: nat where "WAL_NREADER \<equiv> 5"
abbreviation (input) READMARK_NOT_USED :: nat where "READMARK_NOT_USED \<equiv> 0xffffffff"

definition initial_marks :: "nat \<Rightarrow> nat list" where
  "initial_marks mx =
     (let marks = 0 # replicate (WAL_NREADER - 1) READMARK_NOT_USED in if mx \<noteq> 0 then marks[1 := mx] else marks)"

text \<open>The label \<open>finished\<close>: the header and the checkpoint information of the index.\<close>

definition recover_finish :: "bool \<Rightarrow> wal \<Rightarrow> wal_shm \<Rightarrow> u32 \<times> u32 \<Rightarrow> wal \<times> wal_shm" where
  "recover_finish be w shm aFrameCksum\<^sub>0 =
     (case walIndexWriteHdr be (w\<lparr>hdr := (hdr w)\<lparr>aFrameCksum := aFrameCksum\<^sub>0\<rparr>\<rparr>) shm of (w, shm) \<Rightarrow>
        let mx = unat (mxFrame (hdr w))
        in (w, shm\<lparr>ckptInfo := \<lparr>nBackfill = 0, aReadMark = initial_marks mx, nBackfillAttempted = mx\<rparr>\<rparr>))"

text \<open>The body of the routine for a log that has more than a header.\<close>

definition recover_scan :: "bool \<Rightarrow> os_script \<Rightarrow> u8 list \<Rightarrow> wal \<Rightarrow> wal_shm \<Rightarrow> int \<times> wal \<times> wal_shm" where
  "recover_scan be sc log w shm =
     (let (rc, aBuf, sc) = os_read sc log 0 WAL_HDRSIZE in
      if rc \<noteq> SQLITE_OK then (rc, w, shm)
      else
        let (rc, w, frames) = recover_header be aBuf w in
        if \<not> frames then (if rc = SQLITE_OK then (rc, recover_finish be w shm (0, 0)) else (rc, w, shm))
        else
          let (rc, sc) = os_call sc \<comment> \<open>sqlite3_malloc64\<close> in
          if rc \<noteq> SQLITE_OK then (SQLITE_NOMEM, w, shm)
          else
            let (rc, w, shm, s) = recover_frames be log (szPage w) 0 WAL_HDRSIZE sc w shm (0, 0)
            in if rc = SQLITE_OK then (rc, recover_finish be w shm s) else (rc, w, shm))"

definition walIndexRecover :: "bool \<Rightarrow> os_script \<Rightarrow> u8 list \<Rightarrow> wal \<Rightarrow> wal_shm \<Rightarrow> int \<times> wal \<times> wal_shm" where
  "walIndexRecover be sc log w shm =
     (let (rc, sc) = os_call sc \<comment> \<open>walLockExclusive\<close> in
      if rc \<noteq> SQLITE_OK then (rc, w, shm)
      else
        let w = w\<lparr>hdr := zero_hdr\<rparr>; (rc, sc) = os_call sc \<comment> \<open>sqlite3OsFileSize\<close> in
        if rc \<noteq> SQLITE_OK then (rc, w, shm)
        else if length log > WAL_HDRSIZE then recover_scan be sc log w shm
        else (SQLITE_OK, recover_finish be w shm (0, 0)))"

subsection \<open>What is recovered\<close>

text \<open>The number of frames up to the last one that commits.\<close>

definition last_commit :: "frame list \<Rightarrow> nat" where
  "last_commit fs = latest (\<lambda>i. fst (snd (fs ! (i - 1))) \<noteq> 0) (length fs)"

lemma last_commit_Nil [simp]: "last_commit [] = 0"
  by (simp add: last_commit_def)

lemma last_commit_snoc:
  "last_commit (fs @ [f]) = (if fst (snd f) \<noteq> 0 then Suc (length fs) else last_commit fs)"
proof -
  have "latest (\<lambda>i. fst (snd ((fs @ [f]) ! (i - 1))) \<noteq> 0) (length fs) = last_commit fs"
    unfolding last_commit_def by (rule latest_cong) (auto simp: nth_append)
  then show ?thesis by (simp add: last_commit_def nth_append)
qed

lemma last_commit_le: "last_commit fs \<le> length fs"
  using latest_cases[of "\<lambda>i. fst (snd (fs ! (i - 1))) \<noteq> 0" "length fs"] by (auto simp: last_commit_def)

text \<open>
  The state after the frames \<open>fs\<close> of a log whose first checksum is \<open>s\<close>: the log ends at the last
  commit, and the index describes it.
\<close>

definition committed_state ::
  "nat \<Rightarrow> u32 \<times> u32 \<Rightarrow> frame list \<Rightarrow> WalIndexHdr \<Rightarrow> u32 \<times> u32 \<Rightarrow> bool" where
  "committed_state sz s fs h cksum \<longleftrightarrow>
     (let c = last_commit fs in
      mxFrame h = of_nat c \<and>
      nPage h = (if c = 0 then 0 else fst (snd (fs ! (c - 1)))) \<and>
      hdrSzPage h = (if c = 0 then 0 else page_size16 sz) \<and>
      cksum = (if c = 0 then (0, 0) else log_cksum (bigEndCksum h) sz s (take c fs)))"

text \<open>
  The bytes after the frames are not read as one: there are not enough, or they stem from
  an earlier use of the log, which had another salt.
\<close>

definition not_continued :: "nat \<Rightarrow> u8 list \<Rightarrow> u8 list \<Rightarrow> bool" where
  "not_continued sz salt tail \<longleftrightarrow> length tail < sz + WAL_FRAME_HDRSIZE \<or> take 8 (drop 8 tail) \<noteq> salt"

definition no_faults :: "os_script \<Rightarrow> wal_shm \<Rightarrow> bool" where
  "no_faults sc shm \<longleftrightarrow> (\<forall>r \<in> set sc. fst r = SQLITE_OK) \<and> (\<forall>h. mapRc shm h = SQLITE_OK)"

lemma os_call_faults:
  "os_call sc = (rc, sc') \<Longrightarrow> (no_faults sc shm \<longrightarrow> rc = SQLITE_OK) \<and> (no_faults sc shm \<longrightarrow> no_faults sc' shm)"
  by (cases sc) (auto simp: os_call_def no_faults_def)

lemma no_faults_cong: "mapRc shm' = mapRc shm \<Longrightarrow> no_faults sc shm' = no_faults sc shm"
  by (simp add: no_faults_def)

lemma os_read_inside:
  "os_read sc file off n = (rc, bs, sc') \<Longrightarrow> off + n \<le> length file \<Longrightarrow>
   (no_faults sc shm \<longrightarrow> rc = SQLITE_OK \<and> no_faults sc' shm) \<and> (rc = SQLITE_OK \<longrightarrow> bs = take n (drop off file))"
  using os_call_faults[of sc _ _ shm]
  by (auto simp: os_read_def Let_def split: prod.splits if_splits)

text \<open>One step of the loop on an encoded frame, and the step that ends it.\<close>

lemma decode_encoded:
  assumes "length salt = 8" "frame_ok sz (pg, n, data)" "aSalt (hdr w) = salt" "szPage w = sz"
  defines "s \<equiv> frame_cksum (bigEndCksum (hdr w)) sz (aFrameCksum (hdr w)) pg n data"
  shows "walDecodeFrame be w data (frame_header salt s pg n) =
    (Some (pg, n), w\<lparr>hdr := (hdr w)\<lparr>aFrameCksum := s\<rparr>\<rparr>)"
proof -
  have len: "length (frame_header salt s pg n) = 24" using assms by simp
  note fields = frame_fields[OF assms(1)]
  from assms(1-4) show ?thesis
    unfolding decode_frame[OF len] by (simp add: fields Let_def frame_ok_def s_def)
qed

lemma decode_other_salt:
  "take 8 (drop 8 f) \<noteq> aSalt (hdr w) \<Longrightarrow> walDecodeFrame be w data f = (None, w)"
  by (simp add: walDecodeFrame_def)

lemma recover_frames_stop:
  assumes log: "log = pre @ tail" "length pre = off" and tail: "not_continued sz (aSalt (hdr w)) tail"
    and run: "recover_frames be log sz i off sc w shm s\<^sub>0 = (rc, w', shm', s')"
  shows "w' = w \<and> shm' = shm \<and> s' = s\<^sub>0 \<and> (no_faults sc shm \<longrightarrow> rc = SQLITE_OK)"
proof (cases "sz + WAL_FRAME_HDRSIZE \<le> length tail")
  case True
  obtain r bs sc' where rd: "os_read sc log off (sz + WAL_FRAME_HDRSIZE) = (r, bs, sc')" by (rule prod_cases3)
  have inside: "off + (sz + WAL_FRAME_HDRSIZE) \<le> length log" using True log by simp
  note R = os_read_inside[OF rd inside, of shm]
  show ?thesis
  proof (cases "r = SQLITE_OK")
    case ok: True
    with R log have bs: "bs = take (sz + WAL_FRAME_HDRSIZE) tail" by simp
    have "take 8 (drop 8 (take WAL_FRAME_HDRSIZE bs)) \<noteq> aSalt (hdr w)"
      using True tail by (simp add: bs not_continued_def drop_take min_def)
    then have "walDecodeFrame be w (drop WAL_FRAME_HDRSIZE bs) (take WAL_FRAME_HDRSIZE bs) = (None, w)"
      by (rule decode_other_salt)
    with run inside rd ok show ?thesis by (auto simp: recover_frames.simps[of be log] Let_def)
  qed (use run inside rd R in \<open>auto simp: recover_frames.simps[of be log] Let_def\<close>)
next
  case False
  then have "\<not> off + (sz + WAL_FRAME_HDRSIZE) \<le> length log" using log by simp
  with run show ?thesis by (simp add: recover_frames.simps[of be log])
qed

definition recovering :: "bool \<Rightarrow> nat \<Rightarrow> u8 list \<Rightarrow> u32 \<times> u32 \<Rightarrow> (nat \<Rightarrow> int) \<Rightarrow> frame list \<Rightarrow> wal \<Rightarrow> wal_shm \<Rightarrow>
   u32 \<times> u32 \<Rightarrow> bool" where
  "recovering big sz salt s m fs w shm s\<^sub>0 \<longleftrightarrow>
     szPage w = sz \<and> aSalt (hdr w) = salt \<and> bigEndCksum (hdr w) = big \<and>
     aFrameCksum (hdr w) = log_cksum big sz s fs \<and> committed_state sz s fs (hdr w) s\<^sub>0 \<and>
     index_ok shm (map fst fs) \<and> index_tight shm (map fst fs) \<and> mapRc shm = m"

lemma committed_state_snoc:
  assumes "committed_state sz s fs h s\<^sub>0" "bigEndCksum h = big"
    and "s' = log_cksum big sz s (fs @ [(pg, n, data)])"
  shows "n \<noteq> 0 \<Longrightarrow> committed_state sz s (fs @ [(pg, n, data)])
      (h\<lparr>aFrameCksum := s', mxFrame := of_nat (length fs + 1), nPage := n, hdrSzPage := page_size16 sz\<rparr>) s'"
    "n = 0 \<Longrightarrow> committed_state sz s (fs @ [(pg, n, data)]) (h\<lparr>aFrameCksum := s'\<rparr>) s\<^sub>0"
  using assms last_commit_le[of fs]
  by (auto simp: committed_state_def last_commit_snoc nth_append Let_def)

lemma recover_frames_step:
  assumes inv: "recovering big sz salt s m fs w shm s\<^sub>0" and salt: "length salt = 8"
    and f: "frame_ok sz (pg, n, data)"
    and log: "log = pre @ frame_header salt s' pg n @ data @ rest" "length pre = off"
      "s' = log_cksum big sz s (fs @ [(pg, n, data)])"
    and run: "recover_frames be log sz (length fs) off sc w shm s\<^sub>0 = (rc, out)"
  shows "(rc \<noteq> SQLITE_OK \<and> \<not> no_faults sc shm) \<or>
    (\<exists>sc' w' shm' s\<^sub>1. recovering big sz salt s m (fs @ [(pg, n, data)]) w' shm' s\<^sub>1 \<and>
      (no_faults sc shm \<longrightarrow> no_faults sc' shm') \<and>
      recover_frames be log sz (length fs + 1) (off + (sz + WAL_FRAME_HDRSIZE)) sc' w' shm' s\<^sub>1 = (rc, out))"
proof -
  note I = inv[unfolded recovering_def]
  have com: "committed_state sz s fs (hdr w) s\<^sub>0" "bigEndCksum (hdr w) = big" using I by simp_all
  have s': "s' = frame_cksum (bigEndCksum (hdr w)) sz (aFrameCksum (hdr w)) pg n data"
    using I log(3) by (simp add: log_cksum_append)
  have len: "length data = sz" "pg \<noteq> 0" using f by (auto simp: frame_ok_def)
  obtain r bs sc' where rd: "os_read sc log off (sz + WAL_FRAME_HDRSIZE) = (r, bs, sc')" by (rule prod_cases3)
  have inside: "off + (sz + WAL_FRAME_HDRSIZE) \<le> length log" using log salt len by simp
  note R = os_read_inside[OF rd inside, of shm]
  show ?thesis
  proof (cases "r = SQLITE_OK")
    case True
    then have bs: "take WAL_FRAME_HDRSIZE bs = frame_header salt s' pg n" "drop WAL_FRAME_HDRSIZE bs = data"
      using R log salt len by auto
    let ?w = "w\<lparr>hdr := (hdr w)\<lparr>aFrameCksum := s'\<rparr>\<rparr>"
    have dec: "walDecodeFrame be w data (frame_header salt s' pg n) = (Some (pg, n), ?w)"
      unfolding s' by (rule decode_encoded[OF salt f]) (use I in simp_all)
    obtain ra shm' where app: "walIndexAppend (unat (mxFrame (hdr w))) shm (length fs + 1) pg = (ra, shm')"
      by (cases "walIndexAppend (unat (mxFrame (hdr w))) shm (length fs + 1) pg")
    show ?thesis
    proof (cases "mapRc shm (walFramePage (length fs + 1)) = SQLITE_OK")
      case maps: True
      then have "mapRc shm (walFramePage (length (map fst fs) + 1)) = SQLITE_OK" by simp
      from walIndexAppend_ok[OF _ _ this len(2), of "unat (mxFrame (hdr w))"] I app
      have idx: "ra = SQLITE_OK" "index_ok shm' (map fst fs @ [pg])" "index_tight shm' (map fst fs @ [pg])"
        "mapRc shm' = mapRc shm" by auto
      let ?w' = "if n \<noteq> 0 then ?w\<lparr>hdr := (hdr ?w)\<lparr>mxFrame := of_nat (length fs + 1), nPage := n,
          hdrSzPage := page_size16 sz\<rparr>\<rparr> else ?w"
      let ?s = "if n \<noteq> 0 then s' else s\<^sub>0"
      have "recover_frames be log sz (length fs + 1) (off + (sz + WAL_FRAME_HDRSIZE)) sc' ?w' shm' ?s = (rc, out)"
        using run inside rd True bs dec app idx(1)
        by (cases "n = 0") (simp_all add: recover_frames.simps[of be log sz "length fs"] Let_def)
      moreover have "recovering big sz salt s m (fs @ [(pg, n, data)]) ?w' shm' ?s"
        using I idx committed_state_snoc[OF com log(3)]
        by (cases "n = 0") (simp_all add: recovering_def log(3))
      moreover have "no_faults sc shm \<longrightarrow> no_faults sc' shm'"
        using R by (simp add: no_faults_cong[OF idx(4)])
      ultimately show ?thesis by blast
    next
      case False
      then have "ra \<noteq> SQLITE_OK" "\<not> no_faults sc shm"
        using app by (auto simp: walIndexAppend_def walHashGet_def no_faults_def)
      with run inside rd True bs dec app show ?thesis
        by (auto simp: recover_frames.simps[of be log sz "length fs"] Let_def)
    qed
  next
    case False
    with run inside rd R show ?thesis by (auto simp: recover_frames.simps[of be log sz "length fs"] Let_def)
  qed
qed

lemma recover_frames_log:
  assumes "recovering big sz salt s m fs w shm s\<^sub>0" "length salt = 8" "\<forall>f \<in> set gs. frame_ok sz f"
    and "log = pre @ log_bytes big sz salt (log_cksum big sz s fs) gs @ tail" "length pre = off"
    and "not_continued sz salt tail"
    and "recover_frames be log sz (length fs) off sc w shm s\<^sub>0 = (rc, w', shm', s')"
  shows "rc \<noteq> SQLITE_OK \<and> \<not> no_faults sc shm \<or>
    rc = SQLITE_OK \<and> recovering big sz salt s m (fs @ gs) w' shm' s'"
  using assms
proof (induction gs arbitrary: fs w shm s\<^sub>0 pre off sc)
  case Nil
  then have "aSalt (hdr w) = salt" by (simp add: recovering_def)
  with Nil recover_frames_stop[of log pre tail off sz w be "length fs" sc shm s\<^sub>0 rc w' shm' s']
  show ?case by auto
next
  case (Cons f gs)
  obtain pg n data where f: "f = (pg, n, data)" by (rule prod_cases3)
  let ?s = "log_cksum big sz s (fs @ [f])" and ?pre = "pre @ frame_header salt (log_cksum big sz s (fs @ [f])) pg n @ data"
  have fok: "frame_ok sz (pg, n, data)" using Cons.prems(3) f by simp
  have log: "log = pre @ frame_header salt ?s pg n @ data @ log_bytes big sz salt ?s gs @ tail"
    using Cons.prems(4) by (simp add: f log_cksum_append Let_def)
  then have log': "log = ?pre @ log_bytes big sz salt (log_cksum big sz s (fs @ [f])) gs @ tail" by simp
  have pre: "length ?pre = off + (sz + WAL_FRAME_HDRSIZE)"
    using Cons.prems(2,5) fok by (simp add: frame_ok_def)
  from recover_frames_step[OF Cons.prems(1,2) fok log Cons.prems(5) _ Cons.prems(7)]
  consider "rc \<noteq> SQLITE_OK" "\<not> no_faults sc shm"
    | (step) sc2 w2 shm2 s2 where "recovering big sz salt s m (fs @ [f]) w2 shm2 s2"
        "no_faults sc shm \<longrightarrow> no_faults sc2 shm2"
        "recover_frames be log sz (length fs + 1) (off + (sz + WAL_FRAME_HDRSIZE)) sc2 w2 shm2 s2 = (rc, w', shm', s')"
    unfolding f by blast
  then show ?case
  proof cases
    case step
    have run: "recover_frames be log sz (length (fs @ [f])) (off + (sz + WAL_FRAME_HDRSIZE)) sc2 w2 shm2 s2 = (rc, w', shm', s')"
      using step(3) by simp
    from Cons.IH[OF step(1) Cons.prems(2) _ log' pre Cons.prems(6) run] Cons.prems(3) step(2)
    show ?thesis by auto
  qed simp
qed

text \<open>The header that \<open>sqlite3WalFrames\<close> writes is accepted by recovery on any host.\<close>

definition page_size_ok :: "nat \<Rightarrow> bool" where
  "page_size_ok sz \<longleftrightarrow> sz \<in> {512, 1024, 2048, 4096, 8192, 16384, 32768, 65536}"

lemma page_size_checks:
  "page_size_ok sz \<Longrightarrow> 512 \<le> sz \<and> sz \<le> 65536 \<and> (of_nat sz AND (of_nat sz - 1) = (0 :: u32))"
  by (auto simp: page_size_ok_def)

lemma sint_page_size: "sz \<le> 65536 \<Longrightarrow> sint (of_nat sz :: u32) = int sz"
  by (simp add: signed_of_nat) (rule signed_take_bit_int_eq_self, simp_all)

lemma unat_page_size: "sz \<le> 65536 \<Longrightarrow> unat (of_nat sz :: u32) = sz"
  by (simp add: unat_of_nat)

lemma magic_flag:
  "(WAL_MAGIC OR of_bool big) AND 0xFFFFFFFE = WAL_MAGIC" "(WAL_MAGIC OR of_bool big) AND 1 \<noteq> 0 \<longleftrightarrow> big"
  by (cases big; simp add: WAL_MAGIC_def)+

lemma header_parts:
  assumes "length salt = 8"
    and "b = fst (wal_header big sz ckpt salt)" "s = header_cksum big sz ckpt salt"
  shows "length b = 32" "take 24 b = header_head big sz ckpt salt" "sqlite3Get4byte b = WAL_MAGIC OR of_bool big"
    "sqlite3Get4byte (drop 4 b) = WAL_MAX_VERSION" "sqlite3Get4byte (drop 8 b) = of_nat sz"
    "sqlite3Get4byte (drop 12 b) = ckpt" "take 8 (drop 16 b) = salt"
    "sqlite3Get4byte (drop 24 b) = fst s" "sqlite3Get4byte (drop 28 b) = snd s"
  using assms by (simp_all add: wal_header_eq Let_def header_head_def)

lemma recover_header_ok:
  assumes "length salt = 8" "page_size_ok sz"
  shows "recover_header be (fst (wal_header big sz ckpt salt)) (w\<lparr>hdr := zero_hdr\<rparr>) =
    (SQLITE_OK, w\<lparr>hdr := zero_hdr\<lparr>bigEndCksum := big, aSalt := salt, aFrameCksum := header_cksum big sz ckpt salt\<rparr>,
       szPage := sz, nCkpt := ckpt\<rparr>, True)"
proof -
  note parts = header_parts[OF assms(1) refl refl, of big sz ckpt]
  have "walChecksumBytes be (big = be) (fst (wal_header big sz ckpt salt)) 24 None = header_cksum big sz ckpt salt"
    by (simp add: walChecksumBytes_portable parts(2) header_cksum_def)
  then show ?thesis
    using page_size_checks[OF assms(2)]
    by (simp add: recover_header_def parts sint_page_size unat_page_size magic_flag Let_def zero_hdr_def)
qed

definition recovered :: "nat \<Rightarrow> u32 \<times> u32 \<Rightarrow> frame list \<Rightarrow> wal \<Rightarrow> wal_shm \<Rightarrow> bool" where
  "recovered sz s fs w shm \<longleftrightarrow>
     committed_state sz s fs (hdr w) (aFrameCksum (hdr w)) \<and>
     index_ok shm (map fst (take (last_commit fs) fs)) \<and> aHdr0 shm = hdr w \<and> aHdr1 shm = hdr w \<and>
     iVersion (hdr w) = WALINDEX_MAX_VERSION \<and> nBackfill (ckptInfo shm) = 0 \<and>
     aReadMark (ckptInfo shm) = initial_marks (unat (mxFrame (hdr w)))"

lemma finish_recovered:
  assumes "committed_state sz s fs (hdr w) s\<^sub>0" "index_ok shm (map fst (take (last_commit fs) fs))"
    and "recover_finish be w shm s\<^sub>0 = (w', shm')"
  shows "recovered sz s fs w' shm' \<and> mapRc shm' = mapRc shm"
  using assms
  by (auto simp: recover_finish_def walIndexWriteHdr_def recovered_def committed_state_def index_ok_def Let_def)

lemma recover_scan_log:
  assumes salt: "length salt = 8" and size: "page_size_ok sz" and fs: "\<forall>f \<in> set fs. frame_ok sz f"
    and tail: "not_continued sz salt tail"
    and log: "log = fst (wal_header big sz ckpt salt) @ log_bytes big sz salt (header_cksum big sz ckpt salt) fs @ tail"
    and run: "recover_scan be sc log (w\<lparr>hdr := zero_hdr\<rparr>) shm = (rc, w', shm')"
  shows "rc \<noteq> SQLITE_OK \<and> \<not> no_faults sc shm \<or>
    rc = SQLITE_OK \<and> recovered sz (header_cksum big sz ckpt salt) fs w' shm' \<and> mapRc shm' = mapRc shm"
proof -
  let ?s = "header_cksum big sz ckpt salt" and ?h = "fst (wal_header big sz ckpt salt)"
  let ?w = "w\<lparr>hdr := zero_hdr\<lparr>bigEndCksum := big, aSalt := salt, aFrameCksum := ?s\<rparr>, szPage := sz, nCkpt := ckpt\<rparr>"
  note head = header_parts(1)[OF salt refl refl, of big sz ckpt]
  obtain r1 buf sc1 where c1: "os_read sc log 0 WAL_HDRSIZE = (r1, buf, sc1)" by (rule prod_cases3)
  obtain r2 sc2 where c2: "os_call sc1 = (r2, sc2)" by (cases "os_call sc1")
  obtain r3 w3 shm3 s3 where loop: "recover_frames be log sz 0 WAL_HDRSIZE sc2 ?w shm (0, 0) = (r3, w3, shm3, s3)"
    by (rule prod_cases4)
  have R: "(no_faults sc shm \<longrightarrow> r1 = SQLITE_OK \<and> no_faults sc1 shm) \<and> (r1 = SQLITE_OK \<longrightarrow> buf = ?h)"
    using os_read_inside[OF c1, of shm] log head by auto
  note C = os_call_faults[OF c2, of shm]
  have "recovering big sz salt ?s (mapRc shm) [] ?w shm (0, 0)"
    by (simp add: recovering_def committed_state_def zero_hdr_def index_tight_def)
  from recover_frames_log[OF this salt fs _ _ tail, of log ?h WAL_HDRSIZE be sc2] log head loop
  have L: "r3 \<noteq> SQLITE_OK \<and> \<not> no_faults sc2 shm \<or> r3 = SQLITE_OK \<and> recovering big sz salt ?s (mapRc shm) fs w3 shm3 s3" by auto
  show ?thesis
  proof (cases "r1 = SQLITE_OK \<and> r2 = SQLITE_OK")
    case False
    with run c1 c2 R C recover_header_ok[OF salt size, of be big ckpt w] show ?thesis
      by (auto simp: recover_scan_def Let_def split: if_splits)
  next
    case True
    then have out: "(rc, w', shm') = (if r3 = SQLITE_OK then (r3, recover_finish be w3 shm3 s3) else (r3, w3, shm3))"
      using run c1 c2 R recover_header_ok[OF salt size, of be big ckpt w] loop by (simp add: recover_scan_def)
    show ?thesis
    proof (cases "r3 = SQLITE_OK")
      case True
      then have "committed_state sz ?s fs (hdr w3) s3" "index_ok shm3 (map fst (take (last_commit fs) fs))"
        "mapRc shm3 = mapRc shm"
        using L index_ok_take[of shm3 "map fst fs" "last_commit fs"] by (simp_all add: recovering_def take_map)
      with out True show ?thesis using finish_recovered[of sz ?s fs w3 s3 shm3 be w' shm'] by simp
    qed (use L out R C True in auto)
  qed
qed

lemma recover_log:
  assumes salt: "length salt = 8" and size: "page_size_ok sz" and fs: "\<forall>f \<in> set fs. frame_ok sz f"
    and tail: "not_continued sz salt tail"
    and log: "log = fst (wal_header big sz ckpt salt) @ log_bytes big sz salt (header_cksum big sz ckpt salt) fs @ tail"
    and run: "walIndexRecover be sc log w shm = (rc, w', shm')"
  shows "rc \<noteq> SQLITE_OK \<and> \<not> no_faults sc shm \<or>
    rc = SQLITE_OK \<and> recovered sz (header_cksum big sz ckpt salt) fs w' shm' \<and> mapRc shm' = mapRc shm"
proof -
  let ?s = "header_cksum big sz ckpt salt" and ?w = "w\<lparr>hdr := zero_hdr\<rparr>"
  obtain r1 sc1 where c1: "os_call sc = (r1, sc1)" by (cases "os_call sc")
  obtain r2 sc2 where c2: "os_call sc1 = (r2, sc2)" by (cases "os_call sc1")
  note faults = os_call_faults[OF c1, of shm] os_call_faults[OF c2, of shm]
  show ?thesis
  proof (cases "r1 = SQLITE_OK \<and> r2 = SQLITE_OK")
    case False
    with run c1 c2 faults show ?thesis by (auto simp: walIndexRecover_def Let_def split: if_splits)
  next
    case ok: True
    show ?thesis
    proof (cases "length log > WAL_HDRSIZE")
      case True
      then have "recover_scan be sc2 log ?w shm = (rc, w', shm')"
        using run c1 c2 ok by (simp add: walIndexRecover_def)
      from recover_scan_log[OF salt size fs tail log this] faults show ?thesis by auto
    next
      case False
      then have "fs = []"
        using log header_parts(1)[OF salt refl refl, of big sz ckpt] length_log_bytes[OF salt fs, of big ?s]
        by (cases fs) auto
      moreover have "committed_state sz ?s [] (hdr ?w) (0, 0)" by (simp add: committed_state_def zero_hdr_def)
      moreover have "rc = SQLITE_OK" "recover_finish be ?w shm (0, 0) = (w', shm')"
        using run c1 c2 ok False by (simp_all add: walIndexRecover_def)
      ultimately show ?thesis using finish_recovered[of sz ?s "[]" ?w "(0, 0)" shm be w' shm'] by simp
    qed
  qed
qed

end
