(* ===== verification/Wal_Index_Spec.thy ===== *)
theory Wal_Index_Spec
  imports Wal_Index
begin

text \<open>
  The contract between the shared index of the log and its clients (recovery, commit,
  rollback, readers): whatever the history of commits, rollbacks and writers that died, a
  search returns the last frame of the page that the reader's snapshot contains.
\<close>

subsection \<open>Histories\<close>

text \<open>
  A commit enters the pages of a transaction; a rollback takes the log back to \<open>k\<close> frames and
  cuts the index; a writer that dies after entering frames leaves them behind, and the next
  one starts from the \<open>k\<close> frames of the shared header with the index as it is.
\<close>

datatype index_event = Commit "u32 list" | Rollback nat | Abandon nat

fun index_step ::
  "('i \<Rightarrow> nat \<Rightarrow> u32 list \<Rightarrow> int \<times> 'i \<times> nat) \<Rightarrow> ('i \<Rightarrow> nat \<Rightarrow> 'i) \<Rightarrow> index_event \<Rightarrow> 'i \<times> nat \<Rightarrow> int \<times> 'i \<times> nat"
  where
  "index_step enter trim (Commit ps) (i, mx) =
     (let (rc, i, n) = enter i mx ps in (rc, i, if rc = SQLITE_OK then n else mx))"
| "index_step enter trim (Rollback k) (i, mx) = (SQLITE_OK, if k < mx then (trim i k, k) else (i, mx))"
| "index_step enter trim (Abandon k) (i, mx) = (SQLITE_OK, i, min k mx)"

fun index_run ::
  "('i \<Rightarrow> nat \<Rightarrow> u32 list \<Rightarrow> int \<times> 'i \<times> nat) \<Rightarrow> ('i \<Rightarrow> nat \<Rightarrow> 'i) \<Rightarrow> index_event list \<Rightarrow> 'i \<times> nat \<Rightarrow> int list \<times> 'i \<times> nat"
  where
  "index_run enter trim [] s = ([], s)"
| "index_run enter trim (e # es) s =
     (let (rc, s) = index_step enter trim e s; (rcs, s) = index_run enter trim es s in (rc # rcs, s))"

text \<open>The log of page numbers after the same history, given which commits went through.\<close>

fun log_replay :: "u32 list \<Rightarrow> index_event list \<Rightarrow> int list \<Rightarrow> u32 list" where
  "log_replay log (Commit ps # es) (rc # rcs) = log_replay (if rc = SQLITE_OK then log @ ps else log) es rcs"
| "log_replay log (Rollback k # es) (rc # rcs) = log_replay (take k log) es rcs"
| "log_replay log (Abandon k # es) (rc # rcs) = log_replay (take k log) es rcs"
| "log_replay log es rcs = log"

fun event_ok :: "index_event \<Rightarrow> bool" where
  "event_ok (Commit ps) = (0 \<notin> set ps)"
| "event_ok e = True"

subsection \<open>The contract\<close>

locale page_index =
  fixes holds :: "'i \<Rightarrow> u32 list \<Rightarrow> bool"
    and enter :: "'i \<Rightarrow> nat \<Rightarrow> u32 list \<Rightarrow> int \<times> 'i \<times> nat"
    and trim :: "'i \<Rightarrow> nat \<Rightarrow> 'i"
  assumes holds_empty: "holds i []"
    and holds_prefix: "holds i log \<Longrightarrow> holds i (take n log)"
    and holds_enter: "holds i log \<Longrightarrow> 0 \<notin> set ps \<Longrightarrow> enter i (length log) ps = (rc, i', n) \<Longrightarrow>
      holds i' log \<and> (rc = SQLITE_OK \<longrightarrow> holds i' (log @ ps) \<and> n = length log + length ps)"
    and holds_trim: "holds i log \<Longrightarrow> holds (trim i (length log)) log"
begin

lemma step_holds:
  assumes "holds i log" "event_ok e" "index_step enter trim e (i, length log) = (rc, i', mx)"
  shows "mx = length (log_replay log [e] [rc]) \<and> holds i' (log_replay log [e] [rc])"
proof (cases e)
  case (Commit ps)
  with assms show ?thesis using holds_enter[OF assms(1), of ps]
    by (auto split: prod.splits if_splits)
next
  case (Rollback k)
  have "holds (trim i k) (take k log)" if "k < length log"
    using holds_trim[OF holds_prefix[OF assms(1), of k]] that by simp
  with Rollback assms show ?thesis by (auto split: if_splits)
next
  case (Abandon k)
  with assms holds_prefix[OF assms(1), of k] show ?thesis by auto
qed

lemma replay_step: "log_replay log (e # es) (rc # rcs) = log_replay (log_replay log [e] [rc]) es rcs"
  by (cases e) simp_all

lemma run_holds:
  assumes "holds i log" "\<forall>e \<in> set es. event_ok e" "index_run enter trim es (i, length log) = (rcs, i', mx)"
  shows "mx = length (log_replay log es rcs) \<and> holds i' (log_replay log es rcs)"
  using assms
proof (induction es arbitrary: i log rcs)
  case (Cons e es)
  obtain rc j m where st: "index_step enter trim e (i, length log) = (rc, j, m)"
    by (cases "index_step enter trim e (i, length log)")
  with step_holds[OF Cons.prems(1) _ st] Cons.prems(2)
  have m: "m = length (log_replay log [e] [rc])" "holds j (log_replay log [e] [rc])" by auto
  from Cons.prems(3) st obtain rcs' where
    rest: "index_run enter trim es (j, m) = (rcs', i', mx)" and rcs: "rcs = rc # rcs'"
    by (auto split: prod.splits)
  from rest have "index_run enter trim es (j, length (log_replay log [e] [rc])) = (rcs', i', mx)"
    by (simp only: m(1))
  from Cons.IH[OF m(2) _ this] Cons.prems(2) show ?case
    unfolding rcs replay_step[of log e es rc rcs'] by simp
qed simp

end

text \<open>The model's index meets the contract.\<close>

definition wi_enter :: "wal_shm \<Rightarrow> nat \<Rightarrow> u32 list \<Rightarrow> int \<times> wal_shm \<times> nat" where
  "wi_enter shm mx ps = append_frames mx shm mx ps"

definition wi_cut :: "wal_shm \<Rightarrow> nat \<Rightarrow> wal_shm" where
  "wi_cut shm mx = walCleanupHash mx shm"

lemma wi_enter_ok:
  assumes "index_ok shm log" "0 \<notin> set ps" "wi_enter shm (length log) ps = (rc, shm', n)"
  shows "index_ok shm' log \<and> (rc = SQLITE_OK \<longrightarrow> index_ok shm' (log @ ps) \<and> n = length log + length ps)"
proof -
  from append_frames_ok[OF assms(1) disjI1[OF refl] assms(2) assms(3)[unfolded wi_enter_def]]
  obtain k where "index_ok shm' (log @ take k ps)"
    "rc = SQLITE_OK \<longrightarrow> k = length ps \<and> n = length log + length ps" by blast
  with index_ok_take[of shm' "log @ take k ps" "length log"] show ?thesis by auto
qed

interpretation wi: page_index index_ok wi_enter wi_cut
  by unfold_locales (auto simp: wi_cut_def intro: index_ok_take cleanup_index dest: wi_enter_ok)

subsection \<open>Properties\<close>

lemma index_after_history:
  assumes "\<forall>e \<in> set es. event_ok e" "index_run wi_enter wi_cut es (shm\<^sub>0, 0) = (rcs, shm, mx)"
  shows "mx = length (log_replay [] es rcs)" "index_ok shm (log_replay [] es rcs)"
  using wi.run_holds[OF wi.holds_empty, of es shm\<^sub>0 rcs shm mx] assms by simp_all

text \<open>
  The hash search returns what the linear scan kept in the sources as an assertion returns.
\<close>

lemma index_scan:
  assumes "\<forall>e \<in> set es. event_ok e" "index_run wi_enter wi_cut es (shm\<^sub>0, 0) = (rcs, shm, mx)"
    and "n \<le> mx" "unat (mxFrame (hdr w)) = n" "readLock w \<noteq> 0" "0 < minFrame w"
  shows "answers shm (sqlite3WalFindFrame w shm p) (find_linear shm (minFrame w) p n)"
proof -
  note idx = index_after_history[OF assms(1,2)]
  have "find_linear shm (minFrame w) p n = log_lookup (take n (log_replay [] es rcs)) (minFrame w) p"
    using find_linear_log[OF index_ok_take[OF idx(2), of n] assms(6), of p] assms(3) idx(1) by simp
  with find_frame_log[OF idx(2) assms(4) _ assms(5), of p] assms(3) idx(1) show ?thesis by simp
qed

text \<open>
  C5: after any history of commits, rollbacks and writers that died half way, starting from
  arbitrary memory, a reader whose snapshot has \<open>n\<close> frames finds for every page the last of
  those frames that holds the page, none when there is none, and never a later frame; or the
  search reports that a block of the index could not be mapped.
\<close>

theorem index_history:
  assumes "\<forall>e \<in> set es. event_ok e" "index_run wi_enter wi_cut es (shm\<^sub>0, 0) = (rcs, shm, mx)"
    and "n \<le> mx" "unat (mxFrame (hdr w)) = n" "readLock w \<noteq> 0"
  shows "answers shm (sqlite3WalFindFrame w shm p)
    (log_lookup (take n (log_replay [] es rcs)) (minFrame w) p)"
  using find_frame_log[OF index_after_history(2)[OF assms(1,2)] assms(4) _ assms(5), of p]
    index_after_history(1)[OF assms(1,2)] assms(3) by simp

definition hdr_example :: "u32 \<Rightarrow> WalIndexHdr" where
  "hdr_example n = \<lparr>iVersion = 3007000, iChange = 1, isInit = True, bigEndCksum = False, hdrSzPage = 512,
     mxFrame = n, nPage = 9, aFrameCksum = (0, 0), aSalt = replicate 8 1, aCksum = (0, 0)\<rparr>"

definition wal_example :: "u32 \<Rightarrow> wal" where
  "wal_example n = \<lparr>hdr = hdr_example n, szPage = 512, minFrame = 1, iReCksum = 0, nCkpt = 0, readLock = 1,
     writeLock = False, fileReadOnly = False, shmReadOnly = False,
     mxWalSize = -1, iCallback = 0, syncHeader = True, padToSectorBoundary = False, truncateOnCommit = False\<rparr>"

definition shm_example :: wal_shm where
  "shm_example = \<lparr>aHdr0 = hdr_example 0, aHdr1 = hdr_example 0,
     ckptInfo = \<lparr>nBackfill = 0, aReadMark = [], nBackfillAttempted = 0\<rparr>,
     blocks = (\<lambda>_. \<lparr>aPgno = (\<lambda>i. of_nat i), aHash = (\<lambda>_. 7)\<rparr>), mapRc = (\<lambda>_. 0)\<rparr>"

lemmas index_eval = walIndexAppend_def walHashGet_def shm_example_def walFramePage_def hash_zero_def
  wal_consts clear_block_def walHash_def HASHTABLE_HASH_1_def hash_cap_def append_probe.simps
  walCleanupHash_def wi_enter_def wi_cut_def walNextHash_def

theorem index_history_witness:
  "case index_run wi_enter wi_cut [Commit [5, 7, 5], Abandon 1, Commit [9, 5], Rollback 2] (shm_example, 0) of
     (rcs, shm, mx) \<Rightarrow> mx = 2 \<and>
       answers shm (sqlite3WalFindFrame (wal_example 1) shm 5)
         (log_lookup (take 1 (log_replay [] [Commit [5, 7, 5], Abandon 1, Commit [9, 5], Rollback 2] rcs)) 1 5)"
proof -
  let ?es = "[Commit [5, 7, 5], Abandon 1, Commit [9, 5], Rollback 2]"
  obtain rcs shm mx where run: "index_run wi_enter wi_cut ?es (shm_example, 0) = (rcs, shm, mx)"
    by (cases "index_run wi_enter wi_cut ?es (shm_example, 0)")
  moreover have "snd (snd (index_run wi_enter wi_cut ?es (shm_example, 0))) = 2" by (simp add: index_eval Let_def)
  ultimately have mx: "mx = 2" by simp
  have "answers shm (sqlite3WalFindFrame (wal_example 1) shm 5)
      (log_lookup (take 1 (log_replay [] ?es rcs)) (minFrame (wal_example 1)) 5)"
    by (rule index_history[OF _ run]) (simp_all add: mx wal_example_def hdr_example_def)
  with run mx show ?thesis by (simp add: wal_example_def)
qed

end
