(* ===== verification/Wal_Snapshot.thy ===== *)
theory Wal_Snapshot
  imports Wal_Recover Wal_Index_Spec
begin

text \<open>
  Reading pages through the log (\<open>sqlite3WalReadFrame\<close> in \<open>wal.c\<close>, \<open>readDbPage\<close> in
  \<open>pager.c\<close>), and what a reader sees after recovery: the last committed version of each page.
\<close>

subsection \<open>Reading\<close>

definition page_size32 :: "u16 \<Rightarrow> nat" where
  "page_size32 z = unat (z AND 0xfe00) + unat (z AND 1) * 2 ^ 16"

definition sqlite3WalReadFrame :: "os_script \<Rightarrow> wal \<Rightarrow> u8 list \<Rightarrow> nat \<Rightarrow> nat \<Rightarrow> int \<times> u8 list \<times> os_script" where
  "sqlite3WalReadFrame sc w log iRead nOut =
     (let sz = page_size32 (hdrSzPage (hdr w)); iOffset = walFrameOffset iRead sz + WAL_FRAME_HDRSIZE
      in os_read sc log iOffset (if nOut > sz then sz else nOut))"

definition sqlite3WalDbsize :: "wal \<Rightarrow> u32" where
  "sqlite3WalDbsize w = (if 0 \<le> readLock w then nPage (hdr w) else 0)"

text \<open>The bytes of a page as they are stored, before the codec of the database decrypts them.\<close>

definition readDbPage :: "os_script \<Rightarrow> wal \<Rightarrow> u8 list \<Rightarrow> u8 list \<Rightarrow> nat \<Rightarrow> u32 \<Rightarrow> nat \<Rightarrow> int \<times> u8 list" where
  "readDbPage sc w log db pgsz pgno iFrame =
     (if iFrame \<noteq> 0 then
        (case sqlite3WalReadFrame sc w log iFrame pgsz of (rc, data, sc) \<Rightarrow> (rc, data))
      else
        (case os_read sc db ((unat pgno - 1) * pgsz) pgsz of (rc, data, sc) \<Rightarrow>
           (if rc = SQLITE_IOERR_SHORT_READ then SQLITE_OK else rc, data)))"

text \<open>
  The lookup and the read, as \<open>getPageNormal\<close> makes them for a page of a database in WAL mode. A
  page that \<open>getPageNormal\<close> creates beyond the end of the database (\<open>pgno > dbSize\<close>) is filled
  with zeros and not read at all: that branch is the pager's and is not part of this definition.
\<close>

definition read_page :: "os_script \<Rightarrow> wal \<Rightarrow> wal_shm \<Rightarrow> u8 list \<Rightarrow> u8 list \<Rightarrow> nat \<Rightarrow> u32 \<Rightarrow> int \<times> u8 list" where
  "read_page sc w shm log db pgsz pgno =
     (case sqlite3WalFindFrame w shm pgno of
        Inl rc \<Rightarrow> (rc, [])
      | Inr iFrame \<Rightarrow> readDbPage sc w log db pgsz pgno iFrame)"

subsection \<open>The last version of a page\<close>

definition db_page :: "u8 list \<Rightarrow> nat \<Rightarrow> u32 \<Rightarrow> u8 list" where
  "db_page db sz p = (let data = take sz (drop ((unat p - 1) * sz) db) in data @ replicate (sz - length data) 0)"

definition page_content :: "frame list \<Rightarrow> u8 list \<Rightarrow> nat \<Rightarrow> u32 \<Rightarrow> u8 list" where
  "page_content fs db sz p =
     (case map_of (rev (map (\<lambda>(pg, n, data). (pg, data)) fs)) p of Some data \<Rightarrow> data | None \<Rightarrow> db_page db sz p)"

lemma log_lookup_snoc:
  "log_lookup (ps @ [p']) m p = (if m \<le> Suc (length ps) \<and> p' = p then Suc (length ps) else log_lookup ps m p)"
proof -
  have "latest (\<lambda>f. m \<le> f \<and> (ps @ [p']) ! (f - 1) = p) (length ps) = log_lookup ps m p"
    unfolding log_lookup_def by (rule latest_cong) (auto simp: nth_append)
  then show ?thesis by (simp add: log_lookup_def nth_append)
qed

lemma log_lookup_le: "log_lookup ps m p \<le> length ps"
  using latest_cases[of "\<lambda>f. m \<le> f \<and> ps ! (f - 1) = p" "length ps"] by (auto simp: log_lookup_def)

lemma log_lookup_content:
  "page_content fs db sz p = (let i = log_lookup (map fst fs) 1 p in
     if i = 0 then db_page db sz p else snd (snd (fs ! (i - 1))))"
proof (induction fs rule: rev_induct)
  case Nil
  then show ?case by (simp add: page_content_def log_lookup_def)
next
  case (snoc f fs)
  obtain pg n data where f: "f = (pg, n, data)" by (rule prod_cases3)
  have "log_lookup (map fst fs) 1 p - 1 < length fs" if "log_lookup (map fst fs) 1 p \<noteq> 0"
    using log_lookup_le[of "map fst fs" 1 p] that by simp
  with snoc show ?case
    by (auto simp: page_content_def f log_lookup_snoc nth_append Let_def split: if_splits)
qed

lemma page_size_roundtrip: "page_size_ok sz \<Longrightarrow> page_size32 (page_size16 sz) = sz"
  by (auto simp: page_size_ok_def page_size32_def page_size16_def)

text \<open>Where the content of a frame is.\<close>

lemma log_bytes_split:
  assumes "length salt = 8" "\<forall>f \<in> set fs. frame_ok sz f" "i < length fs"
  obtains pre hd post where "log_bytes big sz salt s fs = pre @ hd @ snd (snd (fs ! i)) @ post"
    "length pre = i * (sz + WAL_FRAME_HDRSIZE)" "length hd = WAL_FRAME_HDRSIZE" "length (snd (snd (fs ! i))) = sz"
proof -
  obtain pg n data where f: "fs ! i = (pg, n, data)" by (rule prod_cases3)
  let ?s = "log_cksum big sz s (take i fs)"
  let ?s' = "frame_cksum big sz ?s pg n data"
  have "fs = take i fs @ (pg, n, data) # drop (Suc i) fs"
    using assms(3) f by (metis id_take_nth_drop)
  then have "log_bytes big sz salt s fs = log_bytes big sz salt s (take i fs) @
      log_bytes big sz salt ?s ((pg, n, data) # drop (Suc i) fs)" by (metis log_bytes_append)
  then have "log_bytes big sz salt s fs = log_bytes big sz salt s (take i fs) @
      frame_header salt ?s' pg n @ snd (snd (fs ! i)) @ log_bytes big sz salt ?s' (drop (Suc i) fs)"
    by (simp add: f Let_def)
  moreover have "\<forall>f \<in> set (take i fs). frame_ok sz f" using assms(2) set_take_subset[of i fs] by blast
  then have "length (log_bytes big sz salt s (take i fs)) = i * (sz + WAL_FRAME_HDRSIZE)"
    using length_log_bytes[OF assms(1), of "take i fs" sz big s] assms(3) by simp
  moreover have "length (snd (snd (fs ! i))) = sz" using assms(2,3) by (simp add: frame_ok_def)
  ultimately show thesis using that length_frame_header[OF assms(1)] by blast
qed

lemma read_frame:
  assumes salt: "length salt = 8" and fs: "\<forall>f \<in> set fs. frame_ok sz f" and i: "0 < i" "i \<le> length fs"
    and log: "log = pre @ log_bytes big sz salt s fs @ tail" "length pre = WAL_HDRSIZE"
    and size: "page_size_ok sz" "hdrSzPage (hdr w) = page_size16 sz"
  shows "sqlite3WalReadFrame [] w log i sz = (SQLITE_OK, snd (snd (fs ! (i - 1))), [])"
proof -
  have "i - 1 < length fs" using i by simp
  from log_bytes_split[OF salt fs this, of big s] obtain a h c where
    b: "log_bytes big sz salt s fs = a @ h @ snd (snd (fs ! (i - 1))) @ c"
    "length a = (i - 1) * (sz + WAL_FRAME_HDRSIZE)" "length h = WAL_FRAME_HDRSIZE"
    "length (snd (snd (fs ! (i - 1)))) = sz" by metis
  have "walFrameOffset i sz + WAL_FRAME_HDRSIZE = length (pre @ a @ h)"
    using b log(2) by (simp add: walFrameOffset_def)
  moreover have "log = (pre @ a @ h) @ snd (snd (fs ! (i - 1))) @ c @ tail" using log(1) b(1) by simp
  ultimately show ?thesis
    using b(4) by (simp add: sqlite3WalReadFrame_def size page_size_roundtrip os_read_def os_call_def)
qed

text \<open>A log cut anywhere is a log of the frames that it has whole, and a remainder that is none.\<close>

lemma cut_log:
  assumes salt: "length salt = 8" and fs: "\<forall>f \<in> set fs. frame_ok sz f"
  defines "m \<equiv> \<lambda>k. k div (sz + WAL_FRAME_HDRSIZE)"
  obtains tail where "take k (log_bytes big sz salt s fs) = log_bytes big sz salt s (take (m k) fs) @ tail"
    "length tail < sz + WAL_FRAME_HDRSIZE"
proof -
  let ?n = "sz + WAL_FRAME_HDRSIZE" and ?fs = "take (m k) fs"
  let ?rest = "log_bytes big sz salt (log_cksum big sz s ?fs) (drop (m k) fs)"
  have split: "log_bytes big sz salt s fs = log_bytes big sz salt s ?fs @ ?rest"
    using log_bytes_append[of big sz salt s ?fs "drop (m k) fs"] by simp
  have "\<forall>f \<in> set ?fs. frame_ok sz f" using fs set_take_subset[of "m k" fs] by blast
  then have len: "length (log_bytes big sz salt s ?fs) = min (length fs) (m k) * ?n"
    using length_log_bytes[OF salt, of ?fs sz big s] by (simp add: min.commute)
  have k: "m k * ?n \<le> k" "k < (m k + 1) * ?n" by (simp_all add: m_def div_times_less_eq_dividend dividend_less_div_times)
  show thesis
  proof (cases "m k \<le> length fs")
    case True
    then have "take k (log_bytes big sz salt s fs) = log_bytes big sz salt s ?fs @ take (k - m k * ?n) ?rest"
      using k(1) len by (subst split) simp
    moreover have "length (take (k - m k * ?n) ?rest) < ?n" using k by (simp add: algebra_simps)
    ultimately show ?thesis by (rule that)
  next
    case False
    then have "length fs * ?n \<le> m k * ?n" by (intro mult_le_mono1) simp
    then have "length (log_bytes big sz salt s fs) \<le> k"
      unfolding length_log_bytes[OF salt fs, of big s] using k(1) by (rule order_trans)
    with False that[of "[]"] show ?thesis by simp
  qed
qed

subsection \<open>Reading after recovery\<close>

lemma recover_short:
  assumes "length log \<le> WAL_HDRSIZE" "walIndexRecover be sc log w shm = (rc, w', shm')" "no_faults sc shm"
  shows "rc = SQLITE_OK \<and> recovered sz s [] w' shm' \<and> mapRc shm' = mapRc shm"
proof -
  obtain r1 sc1 where c1: "os_call sc = (r1, sc1)" by (cases "os_call sc")
  obtain r2 sc2 where c2: "os_call sc1 = (r2, sc2)" by (cases "os_call sc1")
  have "r1 = SQLITE_OK" "r2 = SQLITE_OK"
    using os_call_faults[OF c1, of shm] os_call_faults[OF c2, of shm] assms(3) by auto
  then have out: "rc = SQLITE_OK" "recover_finish be (w\<lparr>hdr := zero_hdr\<rparr>) shm (0, 0) = (w', shm')"
    using assms(1,2) c1 c2 by (simp_all add: walIndexRecover_def)
  have "committed_state sz s [] (hdr (w\<lparr>hdr := zero_hdr\<rparr>)) (0, 0)" by (simp add: committed_state_def zero_hdr_def)
  from finish_recovered[OF this _ out(2)] out(1) show ?thesis by simp
qed

lemma recover_cut:
  assumes "length salt = 8" "page_size_ok sz" "\<forall>f \<in> set fs. frame_ok sz f"
    and "walIndexRecover be sc (take k (fst (wal_header big sz ckpt salt) @
        log_bytes big sz salt (snd (wal_header big sz ckpt salt)) fs)) w shm = (rc, w', shm')"
    and "no_faults sc shm"
  shows "rc = SQLITE_OK \<and> mapRc shm' = mapRc shm \<and>
    recovered sz (header_cksum big sz ckpt salt) (take ((k - WAL_HDRSIZE) div (sz + WAL_FRAME_HDRSIZE)) fs) w' shm'"
proof -
  let ?h = "fst (wal_header big sz ckpt salt)" and ?s = "header_cksum big sz ckpt salt"
  let ?m = "(k - WAL_HDRSIZE) div (sz + WAL_FRAME_HDRSIZE)"
  have s: "snd (wal_header big sz ckpt salt) = ?s" by (simp add: wal_header_eq[OF assms(1)] Let_def)
  have h: "length ?h = 32" by (rule header_parts(1)[OF assms(1) refl refl])
  show ?thesis
  proof (cases "WAL_HDRSIZE \<le> k")
    case True
    obtain tail where t: "take (k - WAL_HDRSIZE) (log_bytes big sz salt ?s fs) = log_bytes big sz salt ?s (take ?m fs) @ tail"
      "length tail < sz + WAL_FRAME_HDRSIZE" by (rule cut_log[OF assms(1,3)])
    have "take k (?h @ log_bytes big sz salt ?s fs) = ?h @ log_bytes big sz salt ?s (take ?m fs) @ tail"
      using True t(1) h by simp
    moreover have "\<forall>f \<in> set (take ?m fs). frame_ok sz f" using assms(3) set_take_subset[of ?m fs] by blast
    moreover have "not_continued sz salt tail" using t(2) by (simp add: not_continued_def)
    ultimately show ?thesis
      using recover_log[OF assms(1,2), of "take ?m fs" tail] assms(4,5) unfolding s by blast
  next
    case False
    then have "?m = 0" by simp
    moreover have "length (take k (?h @ log_bytes big sz salt ?s fs)) \<le> WAL_HDRSIZE" using False by simp
    ultimately show ?thesis using recover_short[OF _ assms(4)[unfolded s] assms(5)] by simp
  qed
qed

text \<open>
  A reader whose header ends the log after \<open>m\<close> frames finds the last frame of a page among them,
  from its first frame on, whatever follows them in the index and in the file.
\<close>

lemma read_within:
  assumes salt: "length salt = 8" and size: "page_size_ok sz" and gs: "\<forall>f \<in> set gs. frame_ok sz f"
    and idx: "index_ok shm (map fst gs)" and maps: "\<forall>h. mapRc shm h = SQLITE_OK"
    and r: "unat (mxFrame (hdr r)) = m" "m \<le> length gs" "m \<noteq> 0 \<longrightarrow> hdrSzPage (hdr r) = page_size16 sz" "readLock r \<noteq> 0"
    and log: "log = pre @ log_bytes big sz salt s gs @ tail" "gs \<noteq> [] \<longrightarrow> length pre = WAL_HDRSIZE"
  shows "read_page [] r shm log db sz p =
    (SQLITE_OK, let f = log_lookup (take m (map fst gs)) (minFrame r) p in
       if f = 0 then db_page db sz p else snd (snd (gs ! (f - 1))))"
proof -
  let ?f = "log_lookup (take m (map fst gs)) (minFrame r) p"
  from find_frame_log[OF idx r(1) _ r(4), of p] r(2) maps
  have find: "sqlite3WalFindFrame r shm p = Inr ?f" by (simp add: answers_def)
  show ?thesis
  proof (cases "?f = 0")
    case True
    with find show ?thesis
      by (auto simp: read_page_def readDbPage_def os_read_def os_call_def db_page_def Let_def)
  next
    case False
    have f: "?f \<le> m" "?f \<le> length gs" using log_lookup_le[of "take m (map fst gs)" "minFrame r" p] r(2) by simp_all
    with False have ne: "m \<noteq> 0" "gs \<noteq> []" by auto
    with read_frame[OF salt gs _ f(2) log(1) _ size] False log(2) r(3)
    have "sqlite3WalReadFrame [] r log ?f sz = (SQLITE_OK, snd (snd (gs ! (?f - 1))), [])" by simp
    with False find show ?thesis by (simp add: read_page_def readDbPage_def Let_def)
  qed
qed

lemma log_lookup_from: "log_lookup ps m p = (if m \<le> log_lookup ps 1 p then log_lookup ps 1 p else 0)"
proof (induction ps rule: rev_induct)
  case (snoc x ps)
  have "log_lookup ps 1 p \<le> length ps" by (rule log_lookup_le)
  with snoc show ?case by (auto simp: log_lookup_snoc)
qed (simp add: log_lookup_def)

lemma log_lookup_drop:
  "page_content (drop (m - 1) fs) db sz p = (let i = log_lookup (map fst fs) m p in
     if i = 0 then db_page db sz p else snd (snd (fs ! (i - 1))))"
proof (induction fs rule: rev_induct)
  case Nil
  then show ?case by (simp add: page_content_def log_lookup_def)
next
  case (snoc f fs)
  obtain pg n data where f: "f = (pg, n, data)" by (rule prod_cases3)
  have "log_lookup (map fst fs) m p - 1 < length fs" if "log_lookup (map fst fs) m p \<noteq> 0"
    using log_lookup_le[of "map fst fs" m p] that by simp
  moreover have "drop (m - 1) (fs @ [f]) = (if m \<le> Suc (length fs) then drop (m - 1) fs @ [f] else [])"
    "m > Suc (length fs) \<Longrightarrow> log_lookup (map fst fs) m p = 0"
    using log_lookup_le[of "map fst fs" 1 p] log_lookup_from[of "map fst fs" m p] by auto
  ultimately show ?case using snoc
    by (auto simp: page_content_def f log_lookup_snoc nth_append Let_def split: if_splits)
qed

lemma read_snapshot:
  assumes salt: "length salt = 8" and size: "page_size_ok sz" and gs: "\<forall>f \<in> set gs. frame_ok sz f"
    and idx: "index_ok shm (map fst gs)" and maps: "\<forall>h. mapRc shm h = SQLITE_OK"
    and r: "unat (mxFrame (hdr r)) = length gs" "gs \<noteq> [] \<longrightarrow> hdrSzPage (hdr r) = page_size16 sz"
      "readLock r \<noteq> 0" "minFrame r = 1"
    and log: "log = pre @ log_bytes big sz salt s gs @ tail" "gs \<noteq> [] \<longrightarrow> length pre = WAL_HDRSIZE"
  shows "read_page [] r shm log db sz p = (SQLITE_OK, page_content gs db sz p)"
  using read_within[OF salt size gs idx maps r(1) order.refl _ r(3) log, of db p] r(2,4)
  by (simp add: log_lookup_content)

text \<open>A reader that opens its snapshot on the recovered index.\<close>

lemma read_recovered:
  assumes salt: "length salt = 8" and size: "page_size_ok sz" and gs: "\<forall>f \<in> set gs. frame_ok sz f" "length gs < 2 ^ 32"
    and rec: "recovered sz s gs w shm" and maps: "\<forall>h. mapRc shm h = SQLITE_OK"
    and r: "hdr r = hdr w" "readLock r \<noteq> 0" "minFrame r = 1"
    and log: "log = pre @ log_bytes big sz salt s' gs @ tail" "gs \<noteq> [] \<longrightarrow> length pre = WAL_HDRSIZE"
  shows "read_page [] r shm log db sz p =
    (SQLITE_OK, page_content (take (last_commit gs) gs) db sz p)"
proof (rule read_snapshot[OF salt size _ _ maps _ _ r(2,3)])
  let ?c = "last_commit gs"
  have le: "?c \<le> length gs" by (rule last_commit_le)
  show "\<forall>f \<in> set (take ?c gs). frame_ok sz f" using gs(1) set_take_subset[of ?c gs] by blast
  show "index_ok shm (map fst (take ?c gs))"
    using index_ok_take[of shm "map fst gs" ?c] rec by (simp add: recovered_def take_map)
  show "unat (mxFrame (hdr r)) = length (take ?c gs)"
    using rec gs(2) le by (simp add: recovered_def committed_state_def r(1) Let_def unat_of_nat)
  show "take ?c gs \<noteq> [] \<longrightarrow> hdrSzPage (hdr r) = page_size16 sz"
    using rec by (auto simp: recovered_def committed_state_def r(1) Let_def)
  show "log = pre @ log_bytes big sz salt s' (take ?c gs) @ log_bytes big sz salt (log_cksum big sz s' (take ?c gs)) (drop ?c gs) @ tail"
    using log(1) log_bytes_append[of big sz salt s' "take ?c gs" "drop ?c gs"] by simp
  show "take ?c gs \<noteq> [] \<longrightarrow> length pre = WAL_HDRSIZE" using log(2) by auto
qed

text \<open>The log file that the writer produces for the frames \<open>fs\<close>.\<close>

definition wal_log :: "bool \<Rightarrow> nat \<Rightarrow> u32 \<Rightarrow> u8 list \<Rightarrow> frame list \<Rightarrow> u8 list" where
  "wal_log big sz ckpt salt fs =
     (case wal_header big sz ckpt salt of (bytes, s) \<Rightarrow> bytes @ log_bytes big sz salt s fs)"

text \<open>Its frames that lie wholly within the first \<open>k\<close> bytes, up to the last of them that commits.\<close>

definition committed_in :: "nat \<Rightarrow> nat \<Rightarrow> frame list \<Rightarrow> frame list" where
  "committed_in k sz fs =
     (let whole = take ((k - WAL_HDRSIZE) div (sz + WAL_FRAME_HDRSIZE)) fs in take (last_commit whole) whole)"

lemma recovered_pages:
  assumes "length salt = 8" "page_size_ok sz" "\<forall>f \<in> set fs. frame_ok sz f" "length fs < 2 ^ 32"
    and "walIndexRecover be sc (take k (wal_log big sz ckpt salt fs)) w shm = (rc, w', shm')" "no_faults sc shm"
    and "hdr r = hdr w'" "readLock r \<noteq> 0" "minFrame r = 1"
  shows "read_page [] r shm' (take k (wal_log big sz ckpt salt fs)) db sz p =
    (SQLITE_OK, page_content (committed_in k sz fs) db sz p)"
proof -
  let ?m = "(k - WAL_HDRSIZE) div (sz + WAL_FRAME_HDRSIZE)" and ?s = "header_cksum big sz ckpt salt"
  let ?h = "fst (wal_header big sz ckpt salt)"
  have log: "wal_log big sz ckpt salt fs = ?h @ log_bytes big sz salt (snd (wal_header big sz ckpt salt)) fs"
    by (simp add: wal_log_def split: prod.split)
  have s: "snd (wal_header big sz ckpt salt) = ?s" by (simp add: wal_header_eq[OF assms(1)] Let_def)
  have h: "length ?h = 32" by (rule header_parts(1)[OF assms(1) refl refl])
  note rec = recover_cut[OF assms(1-3) assms(5)[unfolded log] assms(6)]
  have maps: "\<forall>h. mapRc shm' h = SQLITE_OK" using rec assms(6) by (simp add: no_faults_def)
  have gs: "\<forall>f \<in> set (take ?m fs). frame_ok sz f" using assms(3) set_take_subset[of ?m fs] by blast
  obtain tail where t: "take (k - WAL_HDRSIZE) (log_bytes big sz salt ?s fs) = log_bytes big sz salt ?s (take ?m fs) @ tail"
    by (rule cut_log[OF assms(1,3)])
  have cut: "take k (wal_log big sz ckpt salt fs) = take k ?h @ log_bytes big sz salt ?s (take ?m fs) @ tail"
    using t h by (simp add: log s)
  have pre: "take ?m fs \<noteq> [] \<longrightarrow> length (take k ?h) = WAL_HDRSIZE"
    using h by (cases "WAL_HDRSIZE \<le> k") auto
  have "length (take ?m fs) < 2 ^ 32" using assms(4) by (rule le_less_trans[rotated]) simp
  from read_recovered[OF assms(1,2) gs this conjunct2[OF conjunct2[OF rec]] maps assms(7-9) cut pre]
  show ?thesis by (simp add: committed_in_def Let_def)
qed

end
