(* ===== verification/Wal_Begin.thy ===== *)
theory Wal_Begin
  imports Wal_Snapshot
begin

text \<open>
  Opening a snapshot of the log (\<open>walIndexTryHdr\<close>, \<open>walIndexReadHdr\<close>, \<open>walTryBeginRead\<close> and
  \<open>sqlite3WalBeginReadTransaction\<close> of \<open>wal.c\<close>): the header of the index is read without a
  lock, or rebuilt, and a read mark is taken that keeps checkpoints away from the frames the
  reader still needs. The outcome of every lock request is scripted.
\<close>

abbreviation (input) SQLITE_READONLY_RECOVERY :: int where "SQLITE_READONLY_RECOVERY \<equiv> 264"
abbreviation (input) SQLITE_READONLY_CANTLOCK :: int where "SQLITE_READONLY_CANTLOCK \<equiv> 520"
abbreviation (input) SQLITE_BUSY_RECOVERY :: int where "SQLITE_BUSY_RECOVERY \<equiv> 261"
abbreviation (input) SQLITE_PROTOCOL :: int where "SQLITE_PROTOCOL \<equiv> 15"
abbreviation (input) WAL_RETRY :: int where "WAL_RETRY \<equiv> -1"

subsection \<open>The header of the index\<close>

text \<open>True when no consistent header could be read; otherwise the connection has its copy.\<close>

definition walIndexTryHdr :: "bool \<Rightarrow> wal \<Rightarrow> wal_shm \<Rightarrow> bool \<times> wal" where
  "walIndexTryHdr be w shm =
     (let h1 = aHdr0 shm; h2 = aHdr1 shm in
      if h1 \<noteq> h2 then (True, w)
      else if \<not> isInit h1 then (True, w)
      else if walChecksumBytes be True (hdr_bytes be h1) 40 None \<noteq> aCksum h1 then (True, w)
      else if hdr w \<noteq> h1 then (False, w\<lparr>hdr := h1, szPage := page_size32 (hdrSzPage h1)\<rparr>)
      else (False, w))"

text \<open>\<open>rsc\<close> scripts the calls that recovery makes, should it run.\<close>

definition walIndexReadHdr ::
  "bool \<Rightarrow> os_script \<Rightarrow> os_script \<Rightarrow> u8 list \<Rightarrow> wal \<Rightarrow> wal_shm \<Rightarrow> int \<times> wal \<times> wal_shm \<times> os_script" where
  "walIndexReadHdr be sc rsc log w shm =
     (let version = (\<lambda>w. if iVersion (hdr w) \<noteq> WALINDEX_MAX_VERSION then SQLITE_CANTOPEN else SQLITE_OK) in
      if mapRc shm 0 \<noteq> SQLITE_OK then (mapRc shm 0, w, shm, sc)
      else
        let (badHdr, w) = walIndexTryHdr be w shm in
        if \<not> badHdr then (version w, w, shm, sc)
        else
          let (rc, sc) = os_call sc \<comment> \<open>the shared or the exclusive write lock\<close> in
          if rc \<noteq> SQLITE_OK then (rc, w, shm, sc)
          else if shmReadOnly w then (SQLITE_READONLY_RECOVERY, w, shm, sc)
          else
            let (badHdr, w) = walIndexTryHdr be w shm in
            if \<not> badHdr then (version w, w, shm, sc)
            else (case walIndexRecover be rsc log w shm of (rc, w, shm) \<Rightarrow> (rc, w, shm, sc)))"

subsection \<open>Taking a read mark\<close>

text \<open>The largest mark that does not exceed the snapshot, and its slot (0 when there is none).\<close>

fun best_mark :: "nat list \<Rightarrow> nat \<Rightarrow> nat \<Rightarrow> nat \<times> nat \<Rightarrow> nat \<times> nat" where
  "best_mark [] i mx best = best"
| "best_mark (thisMark # marks) i mx (mxReadMark, mxI) =
     best_mark marks (i + 1) mx
       (if mxReadMark \<le> thisMark \<and> thisMark \<le> mx then (thisMark, i) else (mxReadMark, mxI))"

text \<open>
  The first slot from \<open>i\<close> whose exclusive lock is granted gets the mark \<open>mx\<close>; \<open>n\<close> slots are
  left. Another error than \<open>SQLITE_BUSY\<close> ends the search.
\<close>

fun claim_mark :: "os_script \<Rightarrow> nat list \<Rightarrow> nat \<Rightarrow> nat \<Rightarrow> nat \<Rightarrow> nat \<times> nat \<Rightarrow> int \<Rightarrow> (int \<times> os_script) + (int \<times> nat list \<times> (nat \<times> nat) \<times> os_script)"
  where
  "claim_mark sc marks i 0 mx best rc = Inr (rc, marks, best, sc)"
| "claim_mark sc marks i (Suc n) mx best rc =
     (case os_call sc of (rc, sc) \<Rightarrow>
        if rc = SQLITE_OK then Inr (rc, marks[i := mx], (mx, i), sc)
        else if rc \<noteq> SQLITE_BUSY then Inl (rc, sc)
        else claim_mark sc marks (i + 1) n mx best rc)"

definition set_marks :: "wal_shm \<Rightarrow> nat list \<Rightarrow> wal_shm" where
  "set_marks shm marks = shm\<lparr>ckptInfo := (ckptInfo shm)\<lparr>aReadMark := marks\<rparr>\<rparr>"

text \<open>The part of \<open>walTryBeginRead\<close> that uses the log; \<open>rc\<^sub>0\<close> is the result code so far.\<close>

definition begin_in_log :: "int \<Rightarrow> os_script \<Rightarrow> wal \<Rightarrow> wal_shm \<Rightarrow> int \<times> wal \<times> wal_shm \<times> os_script" where
  "begin_in_log rc\<^sub>0 sc w shm =
     (let mx = unat (mxFrame (hdr w));
          marks = aReadMark (ckptInfo shm);
          best = best_mark (take (WAL_NREADER - 1) (drop 1 marks)) 1 mx (0, 0)
      in case (if \<not> shmReadOnly w \<and> (fst best < mx \<or> snd best = 0)
               then claim_mark sc marks 1 (WAL_NREADER - 1) mx best rc\<^sub>0
               else Inr (rc\<^sub>0, marks, best, sc)) of
           Inl (rc, sc) \<Rightarrow> (rc, w, shm, sc)
         | Inr (rc, marks, (mxReadMark, mxI), sc) \<Rightarrow>
             let shm = set_marks shm marks in
             if mxI = 0 then (if rc = SQLITE_BUSY then WAL_RETRY else SQLITE_READONLY_CANTLOCK, w, shm, sc)
             else
               let (rc, sc) = os_call sc \<comment> \<open>walLockShared\<close> in
               if rc \<noteq> SQLITE_OK then (if rc = SQLITE_BUSY then WAL_RETRY else rc, w, shm, sc)
               else
                 let w = w\<lparr>minFrame := nBackfill (ckptInfo shm) + 1\<rparr> in
                 if aReadMark (ckptInfo shm) ! mxI \<noteq> mxReadMark \<or> aHdr0 shm \<noteq> hdr w
                 then (WAL_RETRY, w, shm, sc)
                 else (rc, w\<lparr>readLock := int mxI\<rparr>, shm, sc))"

definition walTryBeginRead ::
  "bool \<Rightarrow> os_script \<Rightarrow> os_script \<Rightarrow> u8 list \<Rightarrow> wal \<Rightarrow> wal_shm \<Rightarrow> bool \<Rightarrow> nat \<Rightarrow> int \<times> wal \<times> wal_shm \<times> os_script" where
  "walTryBeginRead be sc rsc log w shm useWal cnt =
     (if cnt > 100 then (SQLITE_PROTOCOL, w, shm, sc)
      else
        let (rc, w, shm, sc) = (if useWal then (SQLITE_OK, w, shm, sc) else walIndexReadHdr be sc rsc log w shm) in
        if rc = SQLITE_BUSY then
          (if mapRc shm 0 \<noteq> SQLITE_OK then (WAL_RETRY, w, shm, sc)
           else let (rc, sc) = os_call sc \<comment> \<open>walLockShared on the recovery lock\<close>
                in (if rc = SQLITE_OK then WAL_RETRY else if rc = SQLITE_BUSY then SQLITE_BUSY_RECOVERY else rc, w, shm, sc))
        else if rc \<noteq> SQLITE_OK then (rc, w, shm, sc)
        else if \<not> useWal \<and> nBackfill (ckptInfo shm) = unat (mxFrame (hdr w)) then
          let (rc, sc) = os_call sc \<comment> \<open>walLockShared on slot 0\<close> in
          if rc = SQLITE_OK then
            (if aHdr0 shm \<noteq> hdr w then (WAL_RETRY, w, shm, sc) else (SQLITE_OK, w\<lparr>readLock := 0\<rparr>, shm, sc))
          else if rc \<noteq> SQLITE_BUSY then (rc, w, shm, sc)
          else begin_in_log rc sc w shm
        else begin_in_log rc sc w shm)"

text \<open>The attempts are bounded: the 101st reports a protocol error.\<close>

function begin_loop ::
  "bool \<Rightarrow> os_script \<Rightarrow> os_script \<Rightarrow> u8 list \<Rightarrow> wal \<Rightarrow> wal_shm \<Rightarrow> bool \<Rightarrow> nat \<Rightarrow> int \<times> wal \<times> wal_shm \<times> os_script" where
  "begin_loop be sc rsc log w shm useWal cnt =
     (let cnt = cnt + 1; (rc, w, shm, sc) = walTryBeginRead be sc rsc log w shm useWal cnt in
      if rc = WAL_RETRY \<and> cnt \<le> 100 then begin_loop be sc rsc log w shm useWal cnt else (rc, w, shm, sc))"
  by pat_completeness auto

termination
  by (relation "measure (\<lambda>(be, sc, rsc, log, w, shm, useWal, cnt). 101 - cnt)") auto

declare begin_loop.simps [simp del]

definition sqlite3WalBeginReadTransaction ::
  "bool \<Rightarrow> os_script \<Rightarrow> os_script \<Rightarrow> u8 list \<Rightarrow> wal \<Rightarrow> wal_shm \<Rightarrow> int \<times> wal \<times> wal_shm \<times> os_script" where
  "sqlite3WalBeginReadTransaction be sc rsc log w shm = begin_loop be sc rsc log w shm False 0"

definition sqlite3WalEndWriteTransaction :: "wal \<Rightarrow> wal" where
  "sqlite3WalEndWriteTransaction w =
     (if writeLock w then w\<lparr>writeLock := False, iReCksum := 0, truncateOnCommit := False\<rparr> else w)"

definition sqlite3WalEndReadTransaction :: "wal \<Rightarrow> wal" where
  "sqlite3WalEndReadTransaction w =
     (let w = sqlite3WalEndWriteTransaction w in if 0 \<le> readLock w then w\<lparr>readLock := -1\<rparr> else w)"

subsection \<open>Properties\<close>

text \<open>The bound on the attempts is the one of the code: its 101st attempt does not ask for a retry.\<close>

lemma begin_loop_code:
  "begin_loop be sc rsc log w shm useWal cnt =
    (let (rc, w', shm', sc') = walTryBeginRead be sc rsc log w shm useWal (cnt + 1) in
     if rc = WAL_RETRY then begin_loop be sc' rsc log w' shm' useWal (cnt + 1) else (rc, w', shm', sc'))"
  by (subst begin_loop.simps) (auto simp: walTryBeginRead_def Let_def split: prod.splits)

lemma recover_header_written:
  "walIndexTryHdr be w shm = (False, w') \<Longrightarrow> hdr w' = aHdr0 shm"
  by (auto simp: walIndexTryHdr_def Let_def split: if_splits)

lemma replicate4: "replicate (WAL_NREADER - 1) x = [x, x, x, x]"
  by (simp add: numeral_eq_Suc)

lemma take_drop_marks: "take 4 [a, b, c, d] = [a, b, c, d]"
  by (simp add: numeral_eq_Suc)

lemma begin_recovered:
  assumes bad: "\<not> isInit (aHdr0 shm)" and rw: "\<not> shmReadOnly w" and maps: "mapRc shm 0 = SQLITE_OK"
    and rec: "walIndexRecover be rsc log w shm = (SQLITE_OK, w1, shm1)" "recovered sz s fs w1 shm1"
    and size: "length fs < 2 ^ 32 - 1"
  shows "\<exists>r. sqlite3WalBeginReadTransaction be [] rsc log w shm = (SQLITE_OK, r, shm1, []) \<and>
    hdr r = hdr w1 \<and> (readLock r = 0 \<and> mxFrame (hdr r) = 0 \<or> readLock r \<noteq> 0 \<and> minFrame r = 1)"
proof -
  have bad2: "walIndexTryHdr be w shm = (True, w)" using bad by (auto simp: walIndexTryHdr_def Let_def)
  have "walIndexReadHdr be [] rsc log w shm = (SQLITE_OK, w1, shm1, [])"
    using rec(1) maps rw bad2 by (simp add: walIndexReadHdr_def os_call_def)
  then have one: "walTryBeginRead be [] rsc log w shm False 1 =
      (if mxFrame (hdr w1) = 0 then (SQLITE_OK, w1\<lparr>readLock := 0\<rparr>, shm1, []) else begin_in_log SQLITE_OK [] w1 shm1)"
    using rec(2) by (auto simp: walTryBeginRead_def recovered_def os_call_def unat_eq_0)
  show ?thesis
  proof (cases "mxFrame (hdr w1) = 0")
    case True
    with one show ?thesis
      by (subst sqlite3WalBeginReadTransaction_def, subst begin_loop_code) simp
  next
    case False
    let ?mx = "unat (mxFrame (hdr w1))"
    have "mxFrame (hdr w1) = of_nat (last_commit fs)" using rec(2) by (simp add: recovered_def committed_state_def Let_def)
    then have "?mx = last_commit fs" using last_commit_le[of fs] size by (simp add: unat_of_nat)
    then have mx: "?mx < READMARK_NOT_USED" "?mx \<noteq> 0"
      using last_commit_le[of fs] size False unat_eq_0[of "mxFrame (hdr w1)"] by simp_all
    have marks: "aReadMark (ckptInfo shm1) = [0, ?mx, READMARK_NOT_USED, READMARK_NOT_USED, READMARK_NOT_USED]"
      using rec(2) mx(2) unfolding recovered_def initial_marks_def Let_def replicate4 by simp
    have "best_mark (take (WAL_NREADER - 1) (drop 1 (aReadMark (ckptInfo shm1)))) 1 ?mx (0, 0) = (?mx, 1)"
      using mx by (simp add: marks take_drop_marks)
    moreover have "aReadMark (ckptInfo shm1) ! 1 = ?mx" by (simp add: marks)
    moreover have "set_marks shm1 (aReadMark (ckptInfo shm1)) = shm1" by (simp add: set_marks_def)
    moreover have "aHdr0 shm1 = hdr w1" "nBackfill (ckptInfo shm1) = 0" using rec(2) by (simp_all add: recovered_def)
    ultimately have "begin_in_log SQLITE_OK [] w1 shm1 = (SQLITE_OK, w1\<lparr>minFrame := 1, readLock := 1\<rparr>, shm1, [])"
      unfolding begin_in_log_def Let_def by (simp add: os_call_def)
    with one False show ?thesis
      by (subst sqlite3WalBeginReadTransaction_def, subst begin_loop_code) simp
  qed
qed

lemma read_empty_snapshot:
  "mxFrame (hdr r) = 0 \<Longrightarrow> read_page sc (r\<lparr>readLock := l, minFrame := m\<rparr>) shm log db sz p = read_page sc r shm log db sz p"
  by (simp add: read_page_def sqlite3WalFindFrame_def readDbPage_def sqlite3WalReadFrame_def)

lemma recovery_reads:
  assumes salt: "length salt = 8" and size: "page_size_ok sz" and fs: "\<forall>f \<in> set fs. frame_ok sz f"
    and len: "length fs < 2 ^ 32 - 1"
    and fresh: "\<not> isInit (aHdr0 shm)" "\<not> shmReadOnly w" "no_faults rsc shm"
    and log: "log = take k (wal_log big sz ckpt salt fs)"
  shows "\<exists>r shm'. sqlite3WalBeginReadTransaction be [] rsc log w shm = (SQLITE_OK, r, shm', []) \<and>
    (\<forall>db p. read_page [] r shm' log db sz p = (SQLITE_OK, page_content (committed_in k sz fs) db sz p))"
proof -
  let ?gs = "take ((k - WAL_HDRSIZE) div (sz + WAL_FRAME_HDRSIZE)) fs"
  have wl: "wal_log big sz ckpt salt fs =
      fst (wal_header big sz ckpt salt) @ log_bytes big sz salt (snd (wal_header big sz ckpt salt)) fs"
    by (simp add: wal_log_def split: prod.split)
  obtain rc w1 shm1 where run: "walIndexRecover be rsc log w shm = (rc, w1, shm1)" by (rule prod_cases3)
  from recover_cut[OF salt size fs run[unfolded log wl] fresh(3)]
  have rec: "rc = SQLITE_OK" "recovered sz (header_cksum big sz ckpt salt) ?gs w1 shm1" by simp_all
  have "mapRc shm 0 = SQLITE_OK" "length ?gs < 2 ^ 32 - 1"
    using fresh(3) len by (simp_all add: no_faults_def)
  from begin_recovered[OF fresh(1,2) this(1) run[unfolded rec(1)] rec(2) this(2)]
  obtain r where r: "sqlite3WalBeginReadTransaction be [] rsc log w shm = (SQLITE_OK, r, shm1, [])"
    "hdr r = hdr w1" "readLock r = 0 \<and> mxFrame (hdr r) = 0 \<or> readLock r \<noteq> 0 \<and> minFrame r = 1" by blast
  have page: "read_page [] r' shm1 log db sz p = (SQLITE_OK, page_content (committed_in k sz fs) db sz p)"
    if "hdr r' = hdr w1" "readLock r' \<noteq> 0" "minFrame r' = 1" for r' db p
    using recovered_pages[OF salt size fs _ run[unfolded log] fresh(3) that] len by (simp add: log)
  have "read_page [] r shm1 log db sz p = (SQLITE_OK, page_content (committed_in k sz fs) db sz p)" for db p
  proof (cases "mxFrame (hdr r) = 0")
    case True
    from page[of "r\<lparr>readLock := 1, minFrame := 1\<rparr>"] r(2) show ?thesis
      unfolding read_empty_snapshot[OF True] by simp
  next
    case False
    with r page show ?thesis by simp
  qed
  with r(1) show ?thesis by simp
qed

text \<open>
  C8: a log of any transactions, cut off after any number of bytes, found by a connection whose
  index memory is not initialised: opening a read transaction recovers the log, and every page
  then reads as the last transaction that the remaining bytes hold completely left it; a page
  that none of these transactions wrote reads from the database file. Nothing of an incomplete
  transaction is seen.
\<close>

theorem crash_recovery:
  assumes "length salt = 8" "page_size_ok sz" "\<forall>f \<in> set fs. frame_ok sz f" "length fs < 2 ^ 32 - 1"
    and "\<not> isInit (aHdr0 shm)" "\<not> shmReadOnly w" "no_faults rsc shm"
    and "log = take k (wal_log big sz ckpt salt fs)"
  shows "case sqlite3WalBeginReadTransaction be [] rsc log w shm of (rc, r, shm', sc') \<Rightarrow>
    rc = SQLITE_OK \<and> read_page [] r shm' log db sz p = (SQLITE_OK, page_content (committed_in k sz fs) db sz p)"
  using recovery_reads[OF assms, of be] by auto

theorem crash_recovery_witness:
  "let fs = [(2, 0, replicate 512 1), (2, 3, replicate 512 2), (2, 4, replicate 512 3)];
       log = take 1110 (wal_log False 512 7 [1, 2, 3, 4, 5, 6, 7, 8] fs);
       shm = shm_example\<lparr>aHdr0 := zero_hdr\<rparr>
   in case sqlite3WalBeginReadTransaction True [] [(0, 0)] log (wal_example 0) shm of (rc, r, shm', sc') \<Rightarrow>
        rc = SQLITE_OK \<and> read_page [] r shm' log [] 512 2 = (SQLITE_OK, replicate 512 2)"
proof -
  let ?fs = "[(2, 0, replicate 512 1), (2, 3, replicate 512 2), (2, 4, replicate 512 3)] :: frame list"
  let ?log = "take 1110 (wal_log False 512 7 [1, 2, 3, 4, 5, 6, 7, 8] ?fs)"
  let ?shm = "shm_example\<lparr>aHdr0 := zero_hdr\<rparr>"
  have "committed_in 1110 512 ?fs = take 2 ?fs" by (simp add: committed_in_def last_commit_def Let_def)
  then have "page_content (committed_in 1110 512 ?fs) [] 512 2 = replicate 512 2" by (simp add: page_content_def)
  moreover have "case sqlite3WalBeginReadTransaction True [] [(0, 0)] ?log (wal_example 0) ?shm of (rc, r, shm', sc') \<Rightarrow>
      rc = SQLITE_OK \<and> read_page [] r shm' ?log [] 512 2 = (SQLITE_OK, page_content (committed_in 1110 512 ?fs) [] 512 2)"
    by (rule crash_recovery[OF _ _ _ _ _ _ _ refl])
      (simp_all add: frame_ok_def page_size_ok_def no_faults_def shm_example_def zero_hdr_def wal_example_def)
  ultimately show ?thesis by simp
qed

end
