(* ===== verification/Wal_Write.thy ===== *)
theory Wal_Write
  imports Wal_Begin
begin

text \<open>
  Writing to the log (\<open>sqlite3WalFrames\<close> and the functions it uses in \<open>wal.c\<close>). The encryption
  of a page is the parameter \<open>codec\<close> (\<open>None\<close> when it runs out of memory), the random numbers are \<open>salt8\<close> and
  \<open>salt4\<close>, the size of a disk sector is \<open>sector\<close>.
\<close>

type_synonym page_codec = "u32 \<Rightarrow> u8 list \<Rightarrow> u8 list option"

subsection \<open>Restarting the log\<close>

definition walRestartHdr :: "bool \<Rightarrow> u8 list \<Rightarrow> wal \<Rightarrow> wal_shm \<Rightarrow> wal \<times> wal_shm" where
  "walRestartHdr be salt4 w shm =
     (let w = w\<lparr>nCkpt := nCkpt w + 1,
           hdr := (hdr w)\<lparr>mxFrame := 0, aSalt := sqlite3Put4byte (1 + sqlite3Get4byte (aSalt (hdr w))) @ salt4\<rparr>\<rparr>;
          (w, shm) = walIndexWriteHdr be w shm;
          marks = aReadMark (ckptInfo shm)
      in (w, shm\<lparr>ckptInfo := \<lparr>nBackfill = 0,
           aReadMark = take 1 marks @ [0] @ replicate (WAL_NREADER - 2) READMARK_NOT_USED, nBackfillAttempted = 0\<rparr>\<rparr>))"

definition walRestartLog ::
  "bool \<Rightarrow> u8 list \<Rightarrow> os_script \<Rightarrow> u8 list \<Rightarrow> wal \<Rightarrow> wal_shm \<Rightarrow> int \<times> wal \<times> wal_shm \<times> os_script" where
  "walRestartLog be salt4 sc log w shm =
     (if readLock w = 0 then
        let (rc, w, shm, sc) =
              (if nBackfill (ckptInfo shm) > 0 then
                 case os_call sc of (rc, sc) \<Rightarrow> \<comment> \<open>walLockExclusive\<close>
                   (if rc = SQLITE_OK then case walRestartHdr be salt4 w shm of (w, shm) \<Rightarrow> (rc, w, shm, sc)
                    else (rc, w, shm, sc))
               else (SQLITE_OK, w, shm, sc))
        in if rc \<noteq> SQLITE_OK \<and> rc \<noteq> SQLITE_BUSY then (rc, w, shm, sc)
           else begin_loop be sc [] log (w\<lparr>readLock := -1\<rparr>) shm True 0
      else (SQLITE_OK, w, shm, sc))"

subsection \<open>Writing frames\<close>

text \<open>A write that crosses the sync point is split there, with a sync in between.\<close>

definition walWriteToLog ::
  "nat \<Rightarrow> os_script \<Rightarrow> u8 list \<Rightarrow> u8 list \<Rightarrow> nat \<Rightarrow> int \<times> u8 list \<times> os_script" where
  "walWriteToLog syncPoint sc log content iOffset =
     (if iOffset < syncPoint \<and> syncPoint \<le> iOffset + length content then
        let n = syncPoint - iOffset; (rc, log, sc) = os_write sc log iOffset (take n content) in
        if rc \<noteq> SQLITE_OK then (rc, log, sc)
        else
          let (rc, sc) = os_call sc in
          if length content - n = 0 \<or> rc \<noteq> SQLITE_OK then (rc, log, sc)
          else os_write sc log (iOffset + n) (drop n content)
      else os_write sc log iOffset content)"

text \<open>
  The codec of the encryption is a function of the page number and the page. SQLCipher draws a new
  initialisation vector for every call, so each call of the real codec is one such function; it
  makes a difference only for the last page of a commit that is padded to the sector size, which
  is encrypted anew for each of its frames: here these frames are equal.
\<close>

definition walWriteOneFrame ::
  "bool \<Rightarrow> page_codec \<Rightarrow> nat \<Rightarrow> nat \<Rightarrow> wal \<Rightarrow> os_script \<Rightarrow> u8 list \<Rightarrow> u32 \<times> u8 list \<Rightarrow> u32 \<Rightarrow> nat \<Rightarrow>
   int \<times> wal \<times> u8 list \<times> os_script" where
  "walWriteOneFrame be codec sz syncPoint w sc log page nTruncate iOffset =
     (case codec (fst page) (snd page) of
        None \<Rightarrow> (SQLITE_NOMEM, w, log, sc)
      | Some pData \<Rightarrow>
          let (aFrame, w) = walEncodeFrame be w (fst page) nTruncate pData;
              (rc, log, sc) = walWriteToLog syncPoint sc log aFrame iOffset
          in if rc \<noteq> SQLITE_OK then (rc, w, log, sc)
             else case walWriteToLog syncPoint sc log (take sz pData) (iOffset + WAL_FRAME_HDRSIZE) of
               (rc, log, sc) \<Rightarrow> (rc, w, log, sc))"

text \<open>
  The loop over the pages. A page that the transaction has written before, in a frame from
  \<open>iFirst\<close> on, overwrites that frame (its checksum is left for later); the last page of a commit
  is always appended. The flags say which pages were appended.
\<close>

fun write_pages ::
  "bool \<Rightarrow> page_codec \<Rightarrow> nat \<Rightarrow> nat \<Rightarrow> bool \<Rightarrow> u32 \<Rightarrow> wal_shm \<Rightarrow> wal \<Rightarrow> os_script \<Rightarrow> u8 list \<Rightarrow> nat \<Rightarrow> (u32 \<times> u8 list) list \<Rightarrow>
   int \<times> wal \<times> u8 list \<times> os_script \<times> nat \<times> bool list" where
  "write_pages be codec sz iFirst isCommit nTruncate shm w sc log iFrame [] = (SQLITE_OK, w, log, sc, iFrame, [])"
| "write_pages be codec sz iFirst isCommit nTruncate shm w sc log iFrame (p # ps) =
     (let iWrite = (if iFirst \<noteq> 0 \<and> (ps \<noteq> [] \<or> \<not> isCommit)
                    then (case sqlite3WalFindFrame w shm (fst p) of Inl rc \<Rightarrow> 0 | Inr i \<Rightarrow> i) else 0) in
      if iFirst \<noteq> 0 \<and> (ps \<noteq> [] \<or> \<not> isCommit) \<and> iFirst \<le> iWrite then
        let w = (if iReCksum w = 0 \<or> iWrite < iReCksum w then w\<lparr>iReCksum := iWrite\<rparr> else w) in
        case codec (fst p) (snd p) of
          None \<Rightarrow> (SQLITE_NOMEM, w, log, sc, iFrame, [])
        | Some pData \<Rightarrow>
            let (rc, log, sc) = os_write sc log (walFrameOffset iWrite sz + WAL_FRAME_HDRSIZE) (take sz pData) in
            if rc \<noteq> SQLITE_OK then (rc, w, log, sc, iFrame, [])
            else (case write_pages be codec sz iFirst isCommit nTruncate shm w sc log iFrame ps of
                    (rc, w, log, sc, iFrame, fl) \<Rightarrow> (rc, w, log, sc, iFrame, False # fl))
      else
        let iFrame = iFrame + 1;
            nDbSize = (if isCommit \<and> ps = [] then nTruncate else 0);
            (rc, w, log, sc) = walWriteOneFrame be codec sz 0 w sc log p nDbSize (walFrameOffset iFrame sz)
        in if rc \<noteq> SQLITE_OK then (rc, w, log, sc, iFrame, [])
           else (case write_pages be codec sz iFirst isCommit nTruncate shm w sc log iFrame ps of
                   (rc, w, log, sc, iFrame, fl) \<Rightarrow> (rc, w, log, sc, iFrame, True # fl)))"

text \<open>The checksums of the frames from \<open>iRead\<close> to \<open>iLast\<close>, of which \<open>n\<close> are left.\<close>

fun rewrite_loop :: "bool \<Rightarrow> nat \<Rightarrow> wal \<Rightarrow> os_script \<Rightarrow> u8 list \<Rightarrow> nat \<Rightarrow> nat \<Rightarrow> int \<times> wal \<times> u8 list \<times> os_script" where
  "rewrite_loop be sz w sc log iRead 0 = (SQLITE_OK, w, log, sc)"
| "rewrite_loop be sz w sc log iRead (Suc n) =
     (let iOff = walFrameOffset iRead sz; (rc, aBuf, sc) = os_read sc log iOff (sz + WAL_FRAME_HDRSIZE) in
      if rc \<noteq> SQLITE_OK then (rc, w, log, sc)
      else
        let (aFrame, w) = walEncodeFrame be w (sqlite3Get4byte aBuf) (sqlite3Get4byte (drop 4 aBuf)) (drop WAL_FRAME_HDRSIZE aBuf);
            (rc, log, sc) = os_write sc log iOff aFrame
        in if rc \<noteq> SQLITE_OK then (rc, w, log, sc) else rewrite_loop be sz w sc log (iRead + 1) n)"

definition walRewriteChecksums :: "bool \<Rightarrow> wal \<Rightarrow> os_script \<Rightarrow> u8 list \<Rightarrow> nat \<Rightarrow> int \<times> wal \<times> u8 list \<times> os_script" where
  "walRewriteChecksums be w sc log iLast =
     (let sz = szPage w; (rc, sc) = os_call sc \<comment> \<open>sqlite3_malloc\<close> in
      if rc \<noteq> SQLITE_OK then (SQLITE_NOMEM, w, log, sc)
      else
        let off = (if iReCksum w = 1 then 24 else walFrameOffset (iReCksum w - 1) sz + 16);
            (rc, aBuf, sc) = os_read sc log off 8;
            iRead = iReCksum w;
            w = w\<lparr>hdr := (hdr w)\<lparr>aFrameCksum := (sqlite3Get4byte aBuf, sqlite3Get4byte (drop 4 aBuf))\<rparr>, iReCksum := 0\<rparr>
        in if rc \<noteq> SQLITE_OK then (rc, w, log, sc) else rewrite_loop be sz w sc log iRead (iLast + 1 - iRead))"

text \<open>
  Repeating the commit frame up to the next sector boundary. Every repetition advances the
  offset, so the distance to the boundary bounds their number.
\<close>

function pad_frames ::
  "bool \<Rightarrow> page_codec \<Rightarrow> nat \<Rightarrow> nat \<Rightarrow> wal \<Rightarrow> os_script \<Rightarrow> u8 list \<Rightarrow> u32 \<times> u8 list \<Rightarrow> u32 \<Rightarrow> nat \<Rightarrow> nat \<Rightarrow>
   int \<times> wal \<times> u8 list \<times> os_script \<times> nat" where
  "pad_frames be codec sz syncPoint w sc log page nTruncate iOffset nExtra =
     (if iOffset < syncPoint then
        let (rc, w, log, sc) = walWriteOneFrame be codec sz syncPoint w sc log page nTruncate iOffset in
        if rc \<noteq> SQLITE_OK then (rc, w, log, sc, nExtra)
        else pad_frames be codec sz syncPoint w sc log page nTruncate (iOffset + (sz + WAL_FRAME_HDRSIZE)) (nExtra + 1)
      else (SQLITE_OK, w, log, sc, nExtra))"
  by pat_completeness auto

termination
  by (relation "measure (\<lambda>(be, codec, sz, syncPoint, w, sc, log, page, nTruncate, iOffset, nExtra). syncPoint - iOffset)") auto

declare pad_frames.simps [simp del]

subsection \<open>A set of frames\<close>

text \<open>Restarting the log if possible, and the header of a log that has no frame yet.\<close>

definition frames_start ::
  "bool \<Rightarrow> u8 list \<Rightarrow> u8 list \<Rightarrow> nat \<Rightarrow> nat \<Rightarrow> wal \<Rightarrow> wal_shm \<Rightarrow> u8 list \<Rightarrow> os_script \<Rightarrow>
   int \<times> wal \<times> wal_shm \<times> u8 list \<times> os_script" where
  "frames_start be salt8 salt4 sz sync_flags w shm log sc =
     (let (rc, w, shm, sc) = walRestartLog be salt4 sc log w shm in
      if rc \<noteq> SQLITE_OK then (rc, w, shm, log, sc)
      else if mxFrame (hdr w) = 0 then
        let w = (if nCkpt w = 0 then w\<lparr>hdr := (hdr w)\<lparr>aSalt := salt8\<rparr>\<rparr> else w);
            (bytes, aCksum) = wal_header be sz (nCkpt w) (aSalt (hdr w));
            w = w\<lparr>szPage := sz, hdr := (hdr w)\<lparr>bigEndCksum := be, aFrameCksum := aCksum\<rparr>, truncateOnCommit := True\<rparr>;
            (rc, log, sc) = os_write sc log 0 bytes
        in if rc \<noteq> SQLITE_OK then (rc, w, shm, log, sc)
           else if syncHeader w \<and> sync_flags \<noteq> 0 then (case os_call sc of (rc, sc) \<Rightarrow> (rc, w, shm, log, sc))
           else (SQLITE_OK, w, shm, log, sc)
      else (SQLITE_OK, w, shm, log, sc))"

text \<open>
  Padding to a sector boundary, for a commit with \<open>synchronous=FULL\<close>. The flag says that the log
  is still to be synced, which a padded log is already.
\<close>

definition frames_pad ::
  "bool \<Rightarrow> page_codec \<Rightarrow> nat \<Rightarrow> nat \<Rightarrow> bool \<Rightarrow> nat \<Rightarrow> u32 \<times> u8 list \<Rightarrow> u32 \<Rightarrow> nat \<Rightarrow> wal \<Rightarrow> os_script \<Rightarrow> u8 list \<Rightarrow>
   int \<times> wal \<times> u8 list \<times> os_script \<times> nat \<times> bool" where
  "frames_pad be codec sector sz isCommit sync_flags page nTruncate iOffset w sc log =
     (if isCommit \<and> sync_flags AND 0x20 \<noteq> 0 then
        if padToSectorBoundary w then
          let syncPoint = ((iOffset + sector - 1) div sector) * sector
          in case pad_frames be codec sz syncPoint w sc log page nTruncate iOffset 0 of
               (rc, w, log, sc, nExtra) \<Rightarrow> (rc, w, log, sc, nExtra, syncPoint = iOffset)
        else (SQLITE_OK, w, log, sc, 0, True)
      else (SQLITE_OK, w, log, sc, 0, False))"

text \<open>Any error of \<open>walLimitSize\<close> is ignored.\<close>

definition walLimitSize :: "os_script \<Rightarrow> u8 list \<Rightarrow> nat \<Rightarrow> u8 list \<times> os_script" where
  "walLimitSize sc log nMax =
     (case os_call sc of (rc, sc) \<Rightarrow>
        if rc = SQLITE_OK \<and> nMax < length log
        then (case os_truncate sc log nMax of (rc, log, sc) \<Rightarrow> (log, sc)) else (log, sc))"

definition frames_limit :: "nat \<Rightarrow> bool \<Rightarrow> nat \<Rightarrow> wal \<Rightarrow> os_script \<Rightarrow> u8 list \<Rightarrow> wal \<times> u8 list \<times> os_script" where
  "frames_limit sz isCommit iFrame w sc log =
     (if isCommit \<and> truncateOnCommit w \<and> 0 \<le> mxWalSize w then
        let end = walFrameOffset (iFrame + 1) sz;
            n = (if mxWalSize w < int end then end else nat (mxWalSize w))
        in case walLimitSize sc log n of (log, sc) \<Rightarrow> (w\<lparr>truncateOnCommit := False\<rparr>, log, sc)
      else (w, log, sc))"

text \<open>Entering the appended frames into the index, and the headers.\<close>

definition frames_finish ::
  "bool \<Rightarrow> nat \<Rightarrow> bool \<Rightarrow> u32 \<Rightarrow> u32 list \<Rightarrow> wal \<Rightarrow> wal_shm \<Rightarrow> int \<times> wal \<times> wal_shm" where
  "frames_finish be sz isCommit nTruncate pgnos w shm =
     (let mx = unat (mxFrame (hdr w)); (rc, shm, iFrame) = append_frames mx shm mx pgnos in
      if rc \<noteq> SQLITE_OK then (rc, w, shm)
      else
        let w = w\<lparr>hdr := (hdr w)\<lparr>hdrSzPage := page_size16 sz, mxFrame := of_nat iFrame\<rparr>\<rparr> in
        if isCommit then
          let w = w\<lparr>hdr := (hdr w)\<lparr>iChange := iChange (hdr w) + 1, nPage := nTruncate\<rparr>\<rparr>;
              (w, shm) = walIndexWriteHdr be w shm
          in (SQLITE_OK, w\<lparr>iCallback := iFrame\<rparr>, shm)
        else (SQLITE_OK, w, shm))"

definition sqlite3WalFrames ::
  "bool \<Rightarrow> page_codec \<Rightarrow> u8 list \<Rightarrow> u8 list \<Rightarrow> nat \<Rightarrow> nat \<Rightarrow> (u32 \<times> u8 list) list \<Rightarrow> u32 \<Rightarrow> bool \<Rightarrow> nat \<Rightarrow>
   wal \<Rightarrow> wal_shm \<Rightarrow> u8 list \<Rightarrow> os_script \<Rightarrow> int \<times> wal \<times> wal_shm \<times> u8 list \<times> os_script" where
  "sqlite3WalFrames be codec salt8 salt4 sector sz pages nTruncate isCommit sync_flags w shm log sc =
     (let iFirst = (if hdr w \<noteq> aHdr0 shm then unat (mxFrame (aHdr0 shm)) + 1 else 0);
          (rc, w, shm, log, sc) = frames_start be salt8 salt4 sz sync_flags w shm log sc
      in if rc \<noteq> SQLITE_OK then (rc, w, shm, log, sc)
         else
           let (rc, w, log, sc, iFrame, flags) =
                 write_pages be codec sz iFirst isCommit nTruncate shm w sc log (unat (mxFrame (hdr w))) pages
           in if rc \<noteq> SQLITE_OK then (rc, w, shm, log, sc)
              else
                let (rc, w, log, sc) =
                      (if isCommit \<and> iReCksum w \<noteq> 0 then walRewriteChecksums be w sc log iFrame else (SQLITE_OK, w, log, sc))
                in if rc \<noteq> SQLITE_OK then (rc, w, shm, log, sc)
                   else
                     let (rc, w, log, sc, nExtra, bSync) =
                           frames_pad be codec sector sz isCommit sync_flags (last pages) nTruncate
                             (walFrameOffset (iFrame + 1) sz) w sc log
                     in if rc \<noteq> SQLITE_OK then (rc, w, shm, log, sc)
                        else
                          let (rc, sc) = (if bSync then os_call sc else (SQLITE_OK, sc));
                              (w, log, sc) = frames_limit sz isCommit (iFrame + nExtra) w sc log
                          in if rc \<noteq> SQLITE_OK then (rc, w, shm, log, sc)
                             else
                               let pgnos = map (\<lambda>(p, fl). fst p) (filter snd (zip pages flags)) @
                                     replicate nExtra (fst (last pages));
                                   (rc, w, shm) = frames_finish be sz isCommit nTruncate pgnos w shm
                               in (rc, w, shm, log, sc))"

end
