(* ===== verification/Wal_Commit.thy ===== *)
theory Wal_Commit
  imports Wal_Write
begin

text \<open>
  What \<open>sqlite3WalFrames\<close> leaves in the log file, whatever calls of the operating system fail.
\<close>

subsection \<open>Consecutive writes\<close>

lemma store_append:
  assumes "off \<le> length log"
  shows "store_bytes (store_bytes log off a) (off + length a) b = store_bytes log off (a @ b)"
  using assms by (auto simp: store_bytes_def min_def add_ac)

lemma length_store:
  "off \<le> length log \<Longrightarrow> length (store_bytes log off a) = max (length log) (off + length a)"
  by (auto simp: store_bytes_def)

lemma store_nothing [simp]: "store_bytes log off [] = log"
  by (simp add: store_bytes_def)

text \<open>A sequence of writes has stored \<open>bytes\<close> at \<open>off\<close>: all of them when it succeeds, the first few when it fails.\<close>

definition stored :: "u8 list \<Rightarrow> nat \<Rightarrow> u8 list \<Rightarrow> int \<Rightarrow> u8 list \<Rightarrow> bool" where
  "stored log off bytes rc log' \<longleftrightarrow>
     (\<exists>n. log' = store_bytes log off (take n bytes) \<and> (rc = SQLITE_OK \<longrightarrow> length bytes \<le> n))"

lemma stored_all: "stored log off bytes SQLITE_OK log' \<longleftrightarrow> log' = store_bytes log off bytes"
  by (auto simp: stored_def intro: exI[of _ "length bytes"])

lemma stored_nothing: "stored log off bytes rc log" if "rc \<noteq> SQLITE_OK \<or> bytes = []"
  using that by (auto simp: stored_def intro: exI[of _ 0])

lemma stored_append:
  assumes "off \<le> length log" "stored (store_bytes log off a) (off + length a) b rc log'"
  shows "stored log off (a @ b) rc log'"
proof -
  from assms(2) obtain n where n: "log' = store_bytes (store_bytes log off a) (off + length a) (take n b)"
    "rc = SQLITE_OK \<longrightarrow> length b \<le> n" by (auto simp: stored_def)
  then have "log' = store_bytes log off (take (length a + n) (a @ b))" by (simp add: store_append[OF assms(1)])
  with n(2) show ?thesis unfolding stored_def by (intro exI[of _ "length a + n"]) simp
qed

lemma stored_prefix:
  assumes "rc \<noteq> SQLITE_OK" "stored log off a rc log'"
  shows "stored log off (a @ b) rc log'"
proof -
  from assms(2) obtain n where "log' = store_bytes log off (take n a)" by (auto simp: stored_def)
  then have "log' = store_bytes log off (take (min n (length a)) (a @ b))" by (cases "n \<le> length a") simp_all
  with assms(1) show ?thesis unfolding stored_def by (intro exI[of _ "min n (length a)"]) simp
qed

lemma os_write_stored:
  assumes "os_write sc log off bytes = (rc, log', sc')" shows "stored log off bytes rc log'"
proof -
  obtain k where "log' = store_bytes log off (if rc = SQLITE_OK then bytes else take k bytes)"
    using assms by (auto simp: os_write_def split: prod.splits)
  then show ?thesis by (cases "rc = SQLITE_OK") (auto simp: stored_all, auto simp: stored_def)
qed

lemma write_to_log:
  assumes "off \<le> length log" "walWriteToLog sp sc log bytes off = (rc, log', sc')"
  shows "stored log off bytes rc log'"
proof (cases "off < sp \<and> sp \<le> off + length bytes")
  case True
  define a b where ab: "a = take (sp - off) bytes" "b = drop (sp - off) bytes"
  have bytes: "bytes = a @ b" "length a = sp - off" "length bytes - (sp - off) = length b" using True by (auto simp: ab)
  obtain r1 log1 sc1 where w1: "os_write sc log off a = (r1, log1, sc1)" by (rule prod_cases3)
  obtain r2 sc2 where s: "os_call sc1 = (r2, sc2)" by (cases "os_call sc1")
  note st1 = os_write_stored[OF w1]
  show ?thesis
  proof (cases "r1 = SQLITE_OK")
    case True1: True
    then have log1: "log1 = store_bytes log off a" using st1 by (simp add: stored_all)
    show ?thesis
    proof (cases "b = [] \<or> r2 \<noteq> SQLITE_OK")
      case True
      then have "rc = r2" "log' = log1"
        using assms(2) \<open>off < sp \<and> _\<close> w1 s True1 bytes(3) by (auto simp: walWriteToLog_def Let_def ab[symmetric])
      moreover have "stored (store_bytes log off a) (off + length a) b r2 log1"
        unfolding log1 using True by (auto intro: stored_nothing)
      ultimately show ?thesis using bytes(1) stored_append[OF assms(1)] by simp
    next
      case False
      then have "os_write sc2 log1 (off + (sp - off)) b = (rc, log', sc')"
        using assms(2) \<open>off < sp \<and> _\<close> w1 s True1 bytes(3) by (auto simp: walWriteToLog_def Let_def ab[symmetric])
      from os_write_stored[OF this] show ?thesis
        using bytes(1,2) log1 by (auto intro: stored_append[OF assms(1)])
    qed
  next
    case False
    then have "rc = r1" "log' = log1"
      using assms(2) True w1 by (auto simp: walWriteToLog_def Let_def ab[symmetric])
    with False st1 bytes(1) show ?thesis by (auto intro: stored_prefix)
  qed
next
  case False
  with assms(2) show ?thesis by (auto simp: walWriteToLog_def intro: os_write_stored)
qed

subsection \<open>Frames\<close>

text \<open>The state of a writer whose running checksum is \<open>s\<close>.\<close>

definition writing :: "bool \<Rightarrow> nat \<Rightarrow> u8 list \<Rightarrow> u32 \<times> u32 \<Rightarrow> wal \<Rightarrow> bool" where
  "writing big sz salt s w \<longleftrightarrow> szPage w = sz \<and> aSalt (hdr w) = salt \<and> bigEndCksum (hdr w) = big \<and>
     aFrameCksum (hdr w) = s \<and> iReCksum w = 0 \<and> length salt = 8"

definition with_cksum :: "u32 \<times> u32 \<Rightarrow> wal \<Rightarrow> wal" where
  "with_cksum s w = w\<lparr>hdr := (hdr w)\<lparr>aFrameCksum := s\<rparr>\<rparr>"

lemma writing_with_cksum: "writing big sz salt s w \<Longrightarrow> writing big sz salt s' (with_cksum s' w)"
  by (simp add: writing_def with_cksum_def)

lemma with_cksum_twice [simp]: "with_cksum s (with_cksum s' w) = with_cksum s w"
  by (simp add: with_cksum_def)

lemma with_cksum_same: "writing big sz salt s w \<Longrightarrow> with_cksum s w = w"
  by (simp add: with_cksum_def writing_def)

text \<open>
  The content of a page as it is stored, and the frames of a list of pages. A page that the
  codec cannot encode is never written; zeros stand for it.
\<close>

definition page_bytes :: "page_codec \<Rightarrow> nat \<Rightarrow> u32 \<times> u8 list \<Rightarrow> u8 list" where
  "page_bytes codec sz p = (case codec (fst p) (snd p) of Some e \<Rightarrow> take sz e | None \<Rightarrow> replicate sz 0)"

fun tx_frames :: "page_codec \<Rightarrow> nat \<Rightarrow> bool \<Rightarrow> u32 \<Rightarrow> (u32 \<times> u8 list) list \<Rightarrow> frame list" where
  "tx_frames codec sz isCommit nTruncate [] = []"
| "tx_frames codec sz isCommit nTruncate (p # ps) =
     (fst p, if isCommit \<and> ps = [] then nTruncate else 0, page_bytes codec sz p) # tx_frames codec sz isCommit nTruncate ps"

lemma length_tx_frames [simp]: "length (tx_frames codec sz c n ps) = length ps"
  by (induction ps) auto

definition codec_fits :: "page_codec \<Rightarrow> nat \<Rightarrow> bool" where
  "codec_fits codec sz \<longleftrightarrow> (\<forall>p d e. codec p d = Some e \<longrightarrow> sz \<le> length e)"

lemma length_page_bytes: "codec_fits codec sz \<Longrightarrow> length (page_bytes codec sz p) = sz"
  by (auto simp: page_bytes_def codec_fits_def split: option.splits)

lemma one_frame:
  assumes w: "writing big sz salt s w" and off: "off \<le> length log" and fits: "codec_fits codec sz"
    and run: "walWriteOneFrame be codec sz sp w sc log page n off = (rc, w', log', sc')"
    and fs: "fs = [(fst page, n, page_bytes codec sz page)]"
  shows "stored log off (log_bytes big sz salt s fs) rc log'"
    "rc = SQLITE_OK \<Longrightarrow> w' = with_cksum (log_cksum big sz s fs) w \<and> length (page_bytes codec sz page) = sz"
proof -
  have "stored log off (log_bytes big sz salt s fs) rc log' \<and>
    (rc = SQLITE_OK \<longrightarrow> w' = with_cksum (log_cksum big sz s fs) w \<and> length (page_bytes codec sz page) = sz)"
  proof (cases "codec (fst page) (snd page)")
    case None
    with run show ?thesis by (auto simp: walWriteOneFrame_def intro: stored_nothing)
  next
    case (Some e)
    let ?d = "take sz e" and ?s = "frame_cksum big sz s (fst page) n e"
    let ?h = "frame_header salt ?s (fst page) n"
    have s': "frame_cksum big sz s (fst page) n ?d = ?s" by (simp add: frame_cksum_def)
    have d: "page_bytes codec sz page = ?d" by (simp add: page_bytes_def Some)
    have len: "sz \<le> length e" using fits Some by (auto simp: codec_fits_def)
    have bytes: "log_bytes big sz salt s fs = ?h @ ?d" "log_cksum big sz s fs = ?s"
      by (simp_all add: fs d s' Let_def)
    have enc: "walEncodeFrame be w (fst page) n e = (?h, with_cksum ?s w)"
      using w by (simp add: writing_def encode_frame with_cksum_def Let_def)
    obtain r1 log1 sc1 where w1: "walWriteToLog sp sc log ?h off = (r1, log1, sc1)" by (rule prod_cases3)
    note st1 = write_to_log[OF off w1]
    have h: "length ?h = 24" using w by (simp add: writing_def)
    show ?thesis
    proof (cases "r1 = SQLITE_OK")
      case True
      then have log1: "log1 = store_bytes log off ?h" using st1 by (simp add: stored_all)
      obtain r2 log2 sc2 where w2: "walWriteToLog sp sc1 log1 ?d (off + WAL_FRAME_HDRSIZE) = (r2, log2, sc2)"
        by (rule prod_cases3)
      have "off + 24 \<le> length log1" using off h by (simp add: log1 length_store)
      from write_to_log[OF this w2] have "stored log off (?h @ ?d) r2 log2"
        using h by (intro stored_append[OF off]) (simp add: log1)
      with run Some enc w1 w2 True show ?thesis by (simp add: walWriteOneFrame_def bytes d len min_absorb2)
    next
      case False
      with run Some enc w1 st1 show ?thesis by (auto simp: walWriteOneFrame_def bytes intro: stored_prefix)
    qed
  qed
  then show "stored log off (log_bytes big sz salt s fs) rc log'"
    "rc = SQLITE_OK \<Longrightarrow> w' = with_cksum (log_cksum big sz s fs) w \<and> length (page_bytes codec sz page) = sz"
    by simp_all
qed

lemma one_frame_length:
  "length salt = 8 \<Longrightarrow> length d = sz \<Longrightarrow> length (log_bytes big sz salt s [(pg, n, d)]) = sz + WAL_FRAME_HDRSIZE"
  by (simp add: Let_def)

text \<open>
  No page of the list is in a frame that the transaction has written already, so that every page
  is appended.
\<close>

definition all_appended :: "nat \<Rightarrow> wal_shm \<Rightarrow> wal \<Rightarrow> (u32 \<times> u8 list) list \<Rightarrow> bool" where
  "all_appended iFirst shm w ps \<longleftrightarrow> iFirst = 0 \<or>
     (\<forall>p \<in> set ps. case sqlite3WalFindFrame w shm (fst p) of Inl rc \<Rightarrow> True | Inr i \<Rightarrow> i < iFirst)"

lemma find_with_cksum [simp]: "sqlite3WalFindFrame (with_cksum s w) shm p = sqlite3WalFindFrame w shm p"
  by (simp add: sqlite3WalFindFrame_def with_cksum_def Let_def)

lemma frame_offset_Suc: "walFrameOffset (Suc (Suc i)) sz = walFrameOffset (Suc i) sz + (sz + WAL_FRAME_HDRSIZE)"
  by (simp add: walFrameOffset_def)

lemma write_pages_append:
  assumes "all_appended iFirst shm w (p # ps)"
  shows "write_pages be codec sz iFirst isCommit n shm w sc log iFrame (p # ps) =
    (case walWriteOneFrame be codec sz 0 w sc log p (if isCommit \<and> ps = [] then n else 0) (walFrameOffset (Suc iFrame) sz) of
       (rc, w, log, sc) \<Rightarrow>
         if rc \<noteq> SQLITE_OK then (rc, w, log, sc, Suc iFrame, [])
         else (case write_pages be codec sz iFirst isCommit n shm w sc log (Suc iFrame) ps of
                 (rc, w, log, sc, iFrame, fl) \<Rightarrow> (rc, w, log, sc, iFrame, True # fl)))"
proof -
  define iWrite where "iWrite = (if iFirst \<noteq> 0 \<and> (ps \<noteq> [] \<or> \<not> isCommit)
    then (case sqlite3WalFindFrame w shm (fst p) of Inl rc \<Rightarrow> 0 | Inr i \<Rightarrow> i) else 0)"
  have "\<not> (iFirst \<noteq> 0 \<and> (ps \<noteq> [] \<or> \<not> isCommit) \<and> iFirst \<le> iWrite)"
    using assms by (auto simp: iWrite_def all_appended_def split: sum.splits)
  then show ?thesis by (simp only: write_pages.simps Let_def iWrite_def[symmetric] if_False Suc_eq_plus1 split: prod.split)
qed

lemma write_pages_stored:
  assumes "writing big sz salt s w" "walFrameOffset (Suc iFrame) sz \<le> length log" "codec_fits codec sz"
    and "all_appended iFirst shm w ps"
    and "write_pages be codec sz iFirst isCommit n shm w sc log iFrame ps = (rc, w', log', sc', iFrame', fl)"
  shows "stored log (walFrameOffset (Suc iFrame) sz) (log_bytes big sz salt s (tx_frames codec sz isCommit n ps)) rc log' \<and>
    (rc = SQLITE_OK \<longrightarrow> w' = with_cksum (log_cksum big sz s (tx_frames codec sz isCommit n ps)) w \<and>
       iFrame' = iFrame + length ps \<and> fl = replicate (length ps) True \<and>
       (\<forall>p \<in> set ps. length (page_bytes codec sz p) = sz))"
  using assms
proof (induction ps arbitrary: s w sc log iFrame fl)
  case Nil
  then show ?case by (auto intro: stored_nothing simp: with_cksum_same)
next
  case (Cons p ps)
  let ?n = "if isCommit \<and> ps = [] then n else 0" and ?off = "walFrameOffset (Suc iFrame) sz"
  let ?f = "[(fst p, ?n, page_bytes codec sz p)]" and ?gs = "tx_frames codec sz isCommit n ps"
  have fs: "tx_frames codec sz isCommit n (p # ps) = ?f @ ?gs" by simp
  have salt: "length salt = 8" using Cons.prems(1) by (simp add: writing_def)
  obtain r1 w1 log1 sc1 where one: "walWriteOneFrame be codec sz 0 w sc log p ?n ?off = (r1, w1, log1, sc1)"
    by (rule prod_cases4)
  note O = one_frame[OF Cons.prems(1,2,3) one refl]
  note app = Cons.prems(5)[unfolded write_pages_append[OF Cons.prems(4)]]
  show ?case
  proof (cases "r1 = SQLITE_OK")
    case True
    with O have w1: "w1 = with_cksum (log_cksum big sz s ?f) w" and len: "length (page_bytes codec sz p) = sz"
      and log1: "log1 = store_bytes log ?off (log_bytes big sz salt s ?f)" by (auto simp: stored_all)
    have size: "length (log_bytes big sz salt s ?f) = sz + WAL_FRAME_HDRSIZE" by (rule one_frame_length[OF salt len])
    from app one True obtain fl2 where
      rest: "write_pages be codec sz iFirst isCommit n shm w1 sc1 log1 (Suc iFrame) ps = (rc, w', log', sc', iFrame', fl2)"
      and fl: "fl = True # fl2" by (auto split: prod.splits)
    have off2: "walFrameOffset (Suc (Suc iFrame)) sz = ?off + length (log_bytes big sz salt s ?f)"
      by (simp only: frame_offset_Suc size)
    have "walFrameOffset (Suc (Suc iFrame)) sz \<le> length log1"
      unfolding log1 off2 length_store[OF Cons.prems(2)] by simp
    moreover have "all_appended iFirst shm w1 ps" using Cons.prems(4) by (auto simp: all_appended_def w1)
    note IH = Cons.IH[OF writing_with_cksum[OF Cons.prems(1)] _ Cons.prems(3) _ rest[unfolded w1], folded w1, OF calculation this]
    have "stored log ?off (log_bytes big sz salt s ?f @ log_bytes big sz salt (log_cksum big sz s ?f) ?gs) rc log'"
      using IH unfolding log1 off2 by (blast intro: stored_append[OF Cons.prems(2)])
    with IH len show ?thesis unfolding fl fs log_bytes_append log_cksum_append w1 by simp
  next
    case False
    then have "rc = r1" "log' = log1" using app one by auto
    moreover have "stored log ?off (log_bytes big sz salt s (tx_frames codec sz isCommit n (p # ps))) r1 log1"
      unfolding fs log_bytes_append by (rule stored_prefix[OF False O(1)])
    ultimately show ?thesis using False by simp
  qed
qed

lemma pad_frames_stored:
  assumes "writing big sz salt s w" "off \<le> length log" "codec_fits codec sz"
    and "pad_frames be codec sz sp w sc log page n off k = (rc, w', log', sc', k')"
  shows "\<exists>c \<le> sp - off. let fs = replicate c (fst page, n, page_bytes codec sz page) in
    stored log off (log_bytes big sz salt s fs) rc log' \<and>
    (rc = SQLITE_OK \<longrightarrow> w' = with_cksum (log_cksum big sz s fs) w \<and> k' = k + c \<and> (\<forall>f \<in> set fs. length (snd (snd f)) = sz))"
  using assms
proof (induction "sp - off" arbitrary: s w sc log off k rule: less_induct)
  case less
  let ?f = "(fst page, n, page_bytes codec sz page)"
  have salt: "length salt = 8" using less.prems(1) by (simp add: writing_def)
  show ?case
  proof (cases "off < sp")
    case False
    with less.prems have "rc = SQLITE_OK" "w' = w" "log' = log" "k' = k" by (simp_all add: pad_frames.simps[of be codec])
    with less.prems(1) show ?thesis by (intro exI[of _ 0]) (auto simp: with_cksum_same intro: stored_nothing)
  next
    case True
    obtain r1 w1 log1 sc1 where one: "walWriteOneFrame be codec sz sp w sc log page n off = (r1, w1, log1, sc1)"
      by (rule prod_cases4)
    note O = one_frame[OF less.prems(1,2,3) one refl]
    show ?thesis
    proof (cases "r1 = SQLITE_OK")
      case ok: True
      with O have w1: "w1 = with_cksum (log_cksum big sz s [?f]) w" and len: "length (page_bytes codec sz page) = sz"
        and log1: "log1 = store_bytes log off (log_bytes big sz salt s [?f])" by (auto simp: stored_all)
      have size: "length (log_bytes big sz salt s [?f]) = sz + WAL_FRAME_HDRSIZE" by (rule one_frame_length[OF salt len])
      let ?off = "off + length (log_bytes big sz salt s [?f])"
      have run: "pad_frames be codec sz sp w1 sc1 log1 page n ?off (k + 1) = (rc, w', log', sc', k')"
        using less.prems(4) one ok True by (simp add: pad_frames.simps[of be codec sz sp w] size del: log_bytes.simps)
      have "?off \<le> length log1" unfolding log1 length_store[OF less.prems(2)] by simp
      moreover have "sp - ?off < sp - off" using True size by simp
      ultimately obtain c where c: "c \<le> sp - ?off"
        "stored log1 ?off (log_bytes big sz salt (log_cksum big sz s [?f]) (replicate c ?f)) rc log'"
        "rc = SQLITE_OK \<longrightarrow> w' = with_cksum (log_cksum big sz (log_cksum big sz s [?f]) (replicate c ?f)) w1 \<and>
           k' = k + 1 + c \<and> (\<forall>f \<in> set (replicate c ?f). length (snd (snd f)) = sz)"
        using less.hyps[OF _ writing_with_cksum[OF less.prems(1)] _ less.prems(3) run[unfolded w1]] w1
        by (auto simp: Let_def)
      have fs: "replicate (Suc c) ?f = [?f] @ replicate c ?f" by simp
      have "stored log off (log_bytes big sz salt s (replicate (Suc c) ?f)) rc log'"
        unfolding fs log_bytes_append using c(2) unfolding log1 by (rule stored_append[OF less.prems(2)])
      moreover have "Suc c \<le> sp - off" using c(1) size True by simp
      ultimately show ?thesis using c(3) len
        by (intro exI[of _ "Suc c"]) (simp only: Let_def fs log_cksum_append w1 with_cksum_twice, auto)
    next
      case False
      then have "rc = r1" "log' = log1"
        using less.prems(4) one True by (simp_all add: pad_frames.simps[of be codec sz sp w])
      with False O(1) True show ?thesis by (intro exI[of _ 1]) (auto simp: Let_def)
    qed
  qed
qed

subsection \<open>The start and the end of a set of frames\<close>

text \<open>Waiting for a read mark changes nothing but the mark.\<close>

definition same_but_marks :: "wal \<Rightarrow> wal_shm \<Rightarrow> wal \<Rightarrow> wal_shm \<Rightarrow> bool" where
  "same_but_marks w shm w' shm' \<longleftrightarrow>
     w'\<lparr>readLock := 0, minFrame := 0\<rparr> = w\<lparr>readLock := 0, minFrame := 0\<rparr> \<and>
     aHdr0 shm' = aHdr0 shm \<and> aHdr1 shm' = aHdr1 shm \<and> blocks shm' = blocks shm \<and> mapRc shm' = mapRc shm"

lemma same_but_marks_refl [simp]: "same_but_marks w shm w shm"
  by (simp add: same_but_marks_def)

lemma same_but_marks_trans: "same_but_marks w shm w1 shm1 \<Longrightarrow> same_but_marks w1 shm1 w2 shm2 \<Longrightarrow> same_but_marks w shm w2 shm2"
  by (simp add: same_but_marks_def)

lemma same_but_marksD:
  assumes "same_but_marks w shm w' shm'"
  shows "hdr w' = hdr w" "szPage w' = szPage w" "iReCksum w' = iReCksum w" "nCkpt w' = nCkpt w" "mxWalSize w' = mxWalSize w"
proof -
  have e: "w'\<lparr>readLock := 0, minFrame := 0\<rparr> = w\<lparr>readLock := 0, minFrame := 0\<rparr>" using assms by (simp add: same_but_marks_def)
  from arg_cong[OF e, of hdr] arg_cong[OF e, of szPage] arg_cong[OF e, of iReCksum] arg_cong[OF e, of nCkpt]
    arg_cong[OF e, of mxWalSize]
  show "hdr w' = hdr w" "szPage w' = szPage w" "iReCksum w' = iReCksum w" "nCkpt w' = nCkpt w" "mxWalSize w' = mxWalSize w"
    by simp_all
qed

lemma begin_in_log_marks: "begin_in_log rc\<^sub>0 sc w shm = (rc, w', shm', sc') \<Longrightarrow> same_but_marks w shm w' shm'"
  by (auto simp: begin_in_log_def Let_def set_marks_def same_but_marks_def split: sum.splits prod.splits if_splits)

lemma begin_loop_marks:
  "begin_loop be sc rsc log w shm True cnt = (rc, w', shm', sc') \<Longrightarrow> same_but_marks w shm w' shm'"
proof (induction "101 - cnt" arbitrary: sc w shm cnt rule: less_induct)
  case less
  obtain r w1 shm1 sc1 where one: "walTryBeginRead be sc rsc log w shm True (cnt + 1) = (r, w1, shm1, sc1)" by (rule prod_cases4)
  then have m: "same_but_marks w shm w1 shm1"
    by (auto simp: walTryBeginRead_def Let_def split: if_splits dest: begin_in_log_marks)
  show ?case
  proof (cases "r = WAL_RETRY \<and> cnt + 1 \<le> 100")
    case True
    then have "begin_loop be sc1 rsc log w1 shm1 True (cnt + 1) = (rc, w', shm', sc')"
      using less.prems one by (simp add: begin_loop.simps[of be sc] Let_def)
    from less.hyps[OF _ this] True m show ?thesis by (auto intro: same_but_marks_trans)
  next
    case False
    with less.prems one have "w' = w1" "shm' = shm1" by (auto simp: begin_loop.simps[of be sc] Let_def)
    with m show ?thesis by simp
  qed
qed

text \<open>The log is not restarted when nothing has been copied to the database, or the writer reads from the log.\<close>

lemma restart_kept:
  assumes "readLock w \<noteq> 0 \<or> nBackfill (ckptInfo shm) = 0" "walRestartLog be salt4 sc log w shm = (rc, w', shm', sc')"
  shows "same_but_marks w shm w' shm'"
proof (cases "readLock w = 0")
  case True
  with assms have "begin_loop be sc [] log (w\<lparr>readLock := -1\<rparr>) shm True 0 = (rc, w', shm', sc')"
    by (simp add: walRestartLog_def Let_def)
  from begin_loop_marks[OF this] show ?thesis by (simp add: same_but_marks_def)
qed (use assms in \<open>simp add: walRestartLog_def\<close>)

text \<open>
  A writer that can continue the log \<open>fs\<close>: for an empty log it will choose salt and checkpoint
  number itself.
\<close>

definition log_open :: "bool \<Rightarrow> u8 list \<Rightarrow> bool \<Rightarrow> nat \<Rightarrow> u32 \<Rightarrow> u8 list \<Rightarrow> frame list \<Rightarrow> wal \<Rightarrow> bool" where
  "log_open be salt8 big sz ckpt salt fs w \<longleftrightarrow> length salt = 8 \<and> iReCksum w = 0 \<and> mxFrame (hdr w) = of_nat (length fs) \<and>
     length fs < 2 ^ 32 \<and>
     (if fs = [] then big = be \<and> ckpt = nCkpt w \<and> salt = (if nCkpt w = 0 then salt8 else aSalt (hdr w))
      else writing big sz salt (log_cksum big sz (header_cksum big sz ckpt salt) fs) w)"

definition log_file :: "bool \<Rightarrow> nat \<Rightarrow> u32 \<Rightarrow> u8 list \<Rightarrow> frame list \<Rightarrow> u8 list" where
  "log_file big sz ckpt salt fs = (if fs = [] then [] else wal_log big sz ckpt salt fs)"

lemma wal_log_eq:
  "length salt = 8 \<Longrightarrow> wal_log big sz ckpt salt fs = wal_log big sz ckpt salt [] @ log_bytes big sz salt (header_cksum big sz ckpt salt) fs"
  by (simp add: wal_log_def wal_header_eq Let_def)

lemma length_wal_log:
  assumes "length salt = 8" "\<forall>f \<in> set fs. frame_ok sz f"
  shows "length (wal_log big sz ckpt salt fs) = WAL_HDRSIZE + length fs * (sz + WAL_FRAME_HDRSIZE)"
  using assms by (simp add: wal_log_def wal_header_eq Let_def length_header_head length_log_bytes)

lemma frames_start_stored:
  assumes w: "log_open be salt8 big sz ckpt salt fs w" and log: "log = log_file big sz ckpt salt fs"
    and keep: "readLock w \<noteq> 0 \<or> nBackfill (ckptInfo shm) = 0"
    and run: "frames_start be salt8 salt4 sz flags w shm log sc = (rc, w', shm', log', sc')"
  shows "(\<exists>k \<ge> length log. log' = take k (wal_log big sz ckpt salt fs)) \<and>
    aHdr0 shm' = aHdr0 shm \<and> aHdr1 shm' = aHdr1 shm \<and> blocks shm' = blocks shm \<and> mapRc shm' = mapRc shm \<and>
    (rc = SQLITE_OK \<longrightarrow> log' = wal_log big sz ckpt salt fs \<and> mxFrame (hdr w') = of_nat (length fs) \<and>
       writing big sz salt (log_cksum big sz (header_cksum big sz ckpt salt) fs) w')"
proof -
  obtain r w1 shm1 sc1 where re: "walRestartLog be salt4 sc log w shm = (r, w1, shm1, sc1)" by (rule prod_cases4)
  note same = restart_kept[OF keep re]
  note eqs = same_but_marksD[OF same]
  have shm1: "aHdr0 shm1 = aHdr0 shm" "aHdr1 shm1 = aHdr1 shm" "blocks shm1 = blocks shm" "mapRc shm1 = mapRc shm"
    using same by (simp_all add: same_but_marks_def)
  show ?thesis
  proof (cases "r = SQLITE_OK \<and> fs = []")
    case False
    have "unat (mxFrame (hdr w1)) = length fs" using w eqs(1) by (simp add: log_open_def unat_of_nat)
    then have "mxFrame (hdr w1) \<noteq> 0" if "fs \<noteq> []" using that by auto
    with False run re have "log' = log" "w' = w1" "shm' = shm1" "rc = SQLITE_OK \<longrightarrow> fs \<noteq> []"
      by (auto simp: frames_start_def Let_def split: if_splits)
    then show ?thesis
      using w log shm1 eqs by (auto simp: log_file_def log_open_def writing_def intro: exI[of _ "length log"] exI[of _ 0])
  next
    case True
    then have fs: "fs = []" "log = []" and r: "r = SQLITE_OK" using log by (auto simp: log_file_def)
    have mx: "mxFrame (hdr w1) = 0" using w fs eqs(1) by (simp add: log_open_def)
    let ?s = "header_cksum big sz ckpt salt" and ?h = "wal_log big sz ckpt salt []"
    have salt: "length salt = 8" using w by (simp add: log_open_def)
    define w2 where "w2 = (if nCkpt w1 = 0 then w1\<lparr>hdr := (hdr w1)\<lparr>aSalt := salt8\<rparr>\<rparr> else w1)"
    have w2: "aSalt (hdr w2) = salt" "nCkpt w2 = ckpt" "be = big" "iReCksum w2 = 0" "mxFrame (hdr w2) = 0"
      using w fs eqs mx by (simp_all add: w2_def log_open_def)
    define w3 where "w3 = w2\<lparr>szPage := sz, hdr := (hdr w2)\<lparr>bigEndCksum := be, aFrameCksum := ?s\<rparr>, truncateOnCommit := True\<rparr>"
    have w3: "writing big sz salt ?s w3" "mxFrame (hdr w3) = 0" using w2 salt by (simp_all add: w3_def writing_def)
    have hd: "wal_header be sz (nCkpt w2) (aSalt (hdr w2)) = (?h, ?s)"
      using w2 salt by (simp add: wal_log_def wal_header_eq Let_def)
    obtain r2 log2 sc2 where wr: "os_write sc1 log 0 ?h = (r2, log2, sc2)" by (rule prod_cases3)
    have out: "log' = log2" "w' = w3" "shm' = shm1" "rc = SQLITE_OK \<Longrightarrow> r2 = SQLITE_OK"
      using run re r mx hd wr
      by (auto simp: frames_start_def Let_def w2_def[symmetric] w3_def[symmetric] split: if_splits prod.splits)
    from os_write_stored[OF wr] fs obtain n where "log2 = take n ?h" "r2 = SQLITE_OK \<longrightarrow> length ?h \<le> n"
      using store_at_end[of "[]"] by (auto simp: stored_def)
    with out shm1 w3 fs show ?thesis by auto
  qed
qed

lemma log_grown:
  assumes salt: "length salt = 8" and off: "off = length (wal_log big sz ckpt salt fs)"
    and st: "stored (wal_log big sz ckpt salt fs) off
      (log_bytes big sz salt (log_cksum big sz (header_cksum big sz ckpt salt) fs) gs) rc log'"
  shows "(\<exists>k \<ge> off. log' = take k (wal_log big sz ckpt salt (fs @ gs))) \<and>
    (rc = SQLITE_OK \<longrightarrow> log' = wal_log big sz ckpt salt (fs @ gs))"
proof -
  let ?b = "log_bytes big sz salt (log_cksum big sz (header_cksum big sz ckpt salt) fs) gs"
  have all: "wal_log big sz ckpt salt (fs @ gs) = wal_log big sz ckpt salt fs @ ?b"
    by (simp add: wal_log_def wal_header_eq[OF salt] log_bytes_append Let_def)
  from st obtain n where n: "log' = wal_log big sz ckpt salt fs @ take n ?b" "rc = SQLITE_OK \<longrightarrow> length ?b \<le> n"
    by (auto simp: stored_def off store_at_end)
  then have "log' = take (off + n) (wal_log big sz ckpt salt (fs @ gs))" by (simp add: all off)
  with n show ?thesis by (auto simp: all intro!: exI[of _ "off + n"])
qed

lemma log_prefix:
  assumes "length salt = 8" "m \<le> k" "m \<le> length (wal_log big sz ckpt salt fs)"
  shows "\<exists>k' \<ge> m. take k (wal_log big sz ckpt salt fs) = take k' (wal_log big sz ckpt salt (fs @ gs))"
proof -
  let ?n = "length (wal_log big sz ckpt salt fs)"
  have "wal_log big sz ckpt salt fs = take ?n (wal_log big sz ckpt salt (fs @ gs))"
    by (simp add: wal_log_def wal_header_eq[OF assms(1)] log_bytes_append Let_def)
  then have "take k (wal_log big sz ckpt salt fs) = take (min k ?n) (wal_log big sz ckpt salt (fs @ gs))"
    by (metis min.commute take_take)
  with assms(2,3) show ?thesis by (intro exI[of _ "min k ?n"]) simp
qed

lemma frames_limit_kept:
  assumes "length log \<le> walFrameOffset (Suc i) sz" "frames_limit sz isCommit i w sc log = (w', log', sc')"
  shows "log' = log \<and> (\<exists>t. w' = w\<lparr>truncateOnCommit := t\<rparr>)"
proof -
  have "\<exists>t. w = w\<lparr>truncateOnCommit := t\<rparr>" by (rule exI[of _ "truncateOnCommit w"]) simp
  moreover have "log' = log"
    using assms by (auto simp: frames_limit_def walLimitSize_def Let_def split: if_splits prod.splits)
  moreover have "w' = w \<or> w' = w\<lparr>truncateOnCommit := False\<rparr>"
    using assms(2) by (auto simp: frames_limit_def Let_def split: if_splits prod.splits)
  ultimately show ?thesis by blast
qed

lemma frames_pad_stored:
  assumes "writing big sz salt s w" "off \<le> length log" "codec_fits codec sz"
    and "frames_pad be codec sector sz isCommit flags page n off w sc log = (rc, w', log', sc', k', bSync)"
  shows "\<exists>c \<le> sector. let fs = replicate c (fst page, n, page_bytes codec sz page) in
    (isCommit \<or> c = 0) \<and> stored log off (log_bytes big sz salt s fs) rc log' \<and>
    (rc = SQLITE_OK \<longrightarrow> w' = with_cksum (log_cksum big sz s fs) w \<and> k' = c \<and> (\<forall>f \<in> set fs. length (snd (snd f)) = sz))"
proof (cases "isCommit \<and> flags AND 0x20 \<noteq> 0 \<and> padToSectorBoundary w")
  case True
  let ?sp = "(off + sector - 1) div sector * sector"
  obtain r1 w1 log1 sc1 k1 where p: "pad_frames be codec sz ?sp w sc log page n off 0 = (r1, w1, log1, sc1, k1)"
    by (rule prod_cases5)
  with assms(4) True have out: "rc = r1" "w' = w1" "log' = log1" "k' = k1" by (auto simp: frames_pad_def Let_def)
  have "?sp - off \<le> sector" using div_times_less_eq_dividend[of "off + sector - 1" sector] by linarith
  moreover from pad_frames_stored[OF assms(1-3) p] obtain c where "c \<le> ?sp - off" and
    c: "let fs = replicate c (fst page, n, page_bytes codec sz page) in
      stored log off (log_bytes big sz salt s fs) r1 log1 \<and>
      (r1 = SQLITE_OK \<longrightarrow> w1 = with_cksum (log_cksum big sz s fs) w \<and> k1 = 0 + c \<and> (\<forall>f \<in> set fs. length (snd (snd f)) = sz))"
    by blast
  ultimately have "c \<le> sector" by (meson order_trans)
  with c out True show ?thesis by (intro exI[of _ c]) (simp add: Let_def)
next
  case False
  with assms(4) have "rc = SQLITE_OK" "w' = w" "log' = log" "k' = 0" by (auto simp: frames_pad_def split: if_splits)
  with assms(1) show ?thesis by (intro exI[of _ 0]) (auto simp: with_cksum_same intro: stored_nothing)
qed

text \<open>The index and the published header after a commit.\<close>

lemma frames_finish_commit:
  assumes idx: "index_ok shm (map fst fs)" and mx: "mxFrame (hdr w) = of_nat (length fs)" "length fs < 2 ^ 32"
    and pg: "0 \<notin> set pgnos"
    and run: "frames_finish be sz True n pgnos w shm = (rc, w', shm')"
  shows "index_ok shm' (map fst fs) \<and> mapRc shm' = mapRc shm \<and>
    (rc = SQLITE_OK \<longrightarrow> index_ok shm' (map fst fs @ pgnos) \<and> mxFrame (hdr w') = of_nat (length fs + length pgnos) \<and>
       nPage (hdr w') = n \<and> hdrSzPage (hdr w') = page_size16 sz \<and> aHdr0 shm' = hdr w' \<and> aHdr1 shm' = hdr w' \<and>
       (writing big sz salt s w \<longrightarrow> writing big sz salt s w'))"
proof -
  have len: "unat (mxFrame (hdr w)) = length (map fst fs)" using mx by (simp add: unat_of_nat)
  obtain r shm1 i where ap: "append_frames (length (map fst fs)) shm (length (map fst fs)) pgnos = (r, shm1, i)"
    by (rule prod_cases3)
  from append_frames_ok[OF idx disjI1[OF refl] pg ap] obtain k where
    k: "index_ok shm1 (map fst fs @ take k pgnos)" "r = SQLITE_OK \<longrightarrow> k = length pgnos \<and> i = length fs + length pgnos"
      "mapRc shm1 = mapRc shm" by auto
  have before: "index_ok shm1 (map fst fs)" using index_ok_take[OF k(1), of "length fs"] by simp
  show ?thesis
  proof (cases "r = SQLITE_OK")
    case False
    with run ap have "rc = r" "shm' = shm1" by (auto simp: frames_finish_def len Let_def)
    with before False k(3) show ?thesis by simp
  next
    case True
    have hdr_only: "index_ok (shm1\<lparr>aHdr1 := h, aHdr0 := h\<rparr>) log = index_ok shm1 log" for h log by (simp add: index_ok_def)
    from run ap True show ?thesis using k True before
      by (auto simp: frames_finish_def len walIndexWriteHdr_def hdr_only writing_def Let_def)
  qed
qed

lemma appended_pages:
  "map (\<lambda>(p, fl). fst p) (filter snd (zip ps (replicate (length ps) True))) = map fst ps"
  by (induction ps) auto

lemma map_fst_tx: "map fst (tx_frames codec sz c n ps) = map fst ps"
  by (induction ps) auto

lemma tx_frames_ok:
  "\<forall>p \<in> set ps. length (page_bytes codec sz p) = sz \<and> fst p \<noteq> 0 \<Longrightarrow> \<forall>f \<in> set (tx_frames codec sz c n ps). frame_ok sz f"
  by (induction ps) (auto simp: frame_ok_def)

subsection \<open>A commit\<close>

text \<open>The frames of a commit that is padded with \<open>c\<close> copies of its last frame.\<close>

definition commit_frames :: "page_codec \<Rightarrow> nat \<Rightarrow> u32 \<Rightarrow> (u32 \<times> u8 list) list \<Rightarrow> nat \<Rightarrow> frame list" where
  "commit_frames codec sz n pages c =
     tx_frames codec sz True n pages @ replicate c (fst (last pages), n, page_bytes codec sz (last pages))"

lemma commit_frames_ok:
  assumes "pages \<noteq> []" "\<forall>p \<in> set pages. length (page_bytes codec sz p) = sz" "\<forall>p \<in> set pages. fst p \<noteq> 0"
  shows "\<forall>f \<in> set (commit_frames codec sz n pages c). frame_ok sz f"
  using tx_frames_ok[of pages codec sz True n] assms by (auto simp: commit_frames_def frame_ok_def)

lemma commit_pages: "map fst (commit_frames codec sz n pages c) = map fst pages @ replicate c (fst (last pages))"
  by (simp add: commit_frames_def map_fst_tx)

text \<open>The pages and the padding, from a log that has its header.\<close>

lemma commit_body:
  assumes w: "writing big sz salt (log_cksum big sz hc fs) w" and hc: "hc = header_cksum big sz ckpt salt"
    and ok: "\<forall>f \<in> set fs. frame_ok sz f" and fits: "codec_fits codec sz" and pages: "pages \<noteq> []" "\<forall>p \<in> set pages. fst p \<noteq> 0"
    and A: "A = wal_log big sz ckpt salt"
    and wp: "write_pages be codec sz 0 True n shm w sc (A fs) (length fs) pages = (r1, w1, log1, sc1, i1, fl)"
    and pad: "r1 = SQLITE_OK \<Longrightarrow> frames_pad be codec sector sz True flags (last pages) n (walFrameOffset (i1 + 1) sz) w1 sc1 log1 =
      (r2, w2, log2, sc2, nExtra, bSync)"
  shows "\<exists>c \<le> sector. let gs = commit_frames codec sz n pages c in
    (r1 \<noteq> SQLITE_OK \<longrightarrow> (\<exists>k \<ge> length (A fs). log1 = take k (A (fs @ gs)))) \<and>
    (r1 = SQLITE_OK \<longrightarrow> i1 = length fs + length pages \<and> fl = replicate (length pages) True \<and> iReCksum w1 = 0 \<and>
       (\<exists>k \<ge> length (A fs). log2 = take k (A (fs @ gs))) \<and>
       (r2 = SQLITE_OK \<longrightarrow> log2 = A (fs @ gs) \<and> nExtra = c \<and> w2 = with_cksum (log_cksum big sz hc (fs @ gs)) w \<and>
          (\<forall>p \<in> set pages. length (page_bytes codec sz p) = sz)))"
proof -
  have salt: "length salt = 8" using w by (simp add: writing_def)
  let ?new = "tx_frames codec sz True n pages"
  have off: "walFrameOffset (Suc (length fs)) sz = length (A fs)"
    by (simp add: A length_wal_log[OF salt ok] walFrameOffset_def)
  from write_pages_stored[OF w _ fits _ wp] off
  have W: "stored (A fs) (length (A fs)) (log_bytes big sz salt (log_cksum big sz hc fs) ?new) r1 log1"
    "r1 = SQLITE_OK \<Longrightarrow> w1 = with_cksum (log_cksum big sz (log_cksum big sz hc fs) ?new) w \<and> i1 = length fs + length pages \<and>
       fl = replicate (length pages) True \<and> (\<forall>p \<in> set pages. length (page_bytes codec sz p) = sz)"
    by (auto simp: all_appended_def)
  note G = log_grown[OF salt refl, of big sz ckpt, folded A hc, OF W(1)]
  show ?thesis
  proof (cases "r1 = SQLITE_OK")
    case False
    with G show ?thesis by (intro exI[of _ 0]) (simp add: commit_frames_def)
  next
    case True
    note W2 = W(2)[OF True]
    let ?fs = "fs @ ?new" and ?f = "(fst (last pages), n, page_bytes codec sz (last pages))"
    have w1: "writing big sz salt (log_cksum big sz hc ?fs) w1" "w1 = with_cksum (log_cksum big sz hc ?fs) w"
      using W2 writing_with_cksum[OF w] by (auto simp: log_cksum_append)
    have log1: "log1 = A ?fs" using G True by simp
    have "\<forall>f \<in> set ?fs. frame_ok sz f" using ok W2 pages(2) tx_frames_ok[of pages codec sz True n] by auto
    then have off2: "walFrameOffset (i1 + 1) sz = length (A ?fs)"
      using W2 by (simp add: A length_wal_log[OF salt] walFrameOffset_def)
    from frames_pad_stored[OF w1(1) _ fits pad[OF True, unfolded off2 log1]] obtain c where
      c: "c \<le> sector" "stored (A ?fs) (length (A ?fs)) (log_bytes big sz salt (log_cksum big sz hc ?fs) (replicate c ?f)) r2 log2"
      "r2 = SQLITE_OK \<longrightarrow> w2 = with_cksum (log_cksum big sz (log_cksum big sz hc ?fs) (replicate c ?f)) w1 \<and> nExtra = c"
      by (auto simp: Let_def)
    have gs: "fs @ commit_frames codec sz n pages c = ?fs @ replicate c ?f" by (simp add: commit_frames_def)
    have "length (A fs) \<le> length (A ?fs)" unfolding off2[symmetric] off[symmetric] using W2 by (simp add: walFrameOffset_def)
    with log_grown[OF salt refl, of big sz ckpt, folded A hc, OF c(2)]
    have "\<exists>k \<ge> length (A fs). log2 = take k (A (fs @ commit_frames codec sz n pages c))"
      "r2 = SQLITE_OK \<longrightarrow> log2 = A (fs @ commit_frames codec sz n pages c)" unfolding gs by (auto intro: order_trans)
    moreover have "r2 = SQLITE_OK \<longrightarrow> w2 = with_cksum (log_cksum big sz hc (fs @ commit_frames codec sz n pages c)) w"
      unfolding gs log_cksum_append[of big sz hc ?fs] using c(3) by (simp add: w1(2))
    moreover have "iReCksum w1 = 0" using w1(1) by (simp add: writing_def)
    ultimately show ?thesis using c(1,3) True W2 unfolding Let_def by blast
  qed
qed

lemma frames_steps:
  assumes "hdr w = aHdr0 shm"
    and "frames_start be salt8 salt4 sz flags w shm log sc = (SQLITE_OK, w0, shm0, log0, sc0)"
    and "write_pages be codec sz 0 True n shm0 w0 sc0 log0 (unat (mxFrame (hdr w0))) pages = (r1, w1, log1, sc1, i1, fl)"
    and "r1 = SQLITE_OK \<longrightarrow> iReCksum w1 = 0"
    and "frames_pad be codec sector sz True flags (last pages) n (walFrameOffset (i1 + 1) sz) w1 sc1 log1 =
      (r2, w2, log2, sc2, nExtra, bSync)"
    and "(if bSync then os_call sc2 else (SQLITE_OK, sc2)) = (r3, sc3)"
    and "frames_limit sz True (i1 + nExtra) w2 sc3 log2 = (w4, log4, sc4)"
    and "frames_finish be sz True n
      (map (\<lambda>(p, fl). fst p) (filter snd (zip pages fl)) @ replicate nExtra (fst (last pages))) w4 shm0 = (r5, w5, shm5)"
  shows "sqlite3WalFrames be codec salt8 salt4 sector sz pages n True flags w shm log sc =
    (if r1 \<noteq> SQLITE_OK then (r1, w1, shm0, log1, sc1) else if r2 \<noteq> SQLITE_OK then (r2, w2, shm0, log2, sc2)
     else if r3 \<noteq> SQLITE_OK then (r3, w4, shm0, log4, sc4) else (r5, w5, shm5, log4, sc4))"
  using assms unfolding sqlite3WalFrames_def Let_def by simp

text \<open>
  The whole routine, for a transaction that is written in one set of frames: whatever fails, the
  log grows by a prefix of the frames of the transaction; when the routine succeeds they are all
  there, the index describes them and the header that the readers see is the writer's.
\<close>

lemma commit_result:
  assumes w: "log_open be salt8 big sz ckpt salt fs w" and log: "log = log_file big sz ckpt salt fs"
    and ok: "\<forall>f \<in> set fs. frame_ok sz f" and fits: "codec_fits codec sz"
    and pages: "pages \<noteq> []" "\<forall>p \<in> set pages. fst p \<noteq> 0"
    and start: "hdr w = aHdr0 shm" "readLock w \<noteq> 0 \<or> nBackfill (ckptInfo shm) = 0"
    and idx: "index_ok shm (map fst fs)"
    and run: "sqlite3WalFrames be codec salt8 salt4 sector sz pages n True flags w shm log sc = (rc, w', shm', log', sc')"
  shows "\<exists>c \<le> sector. let gs = fs @ commit_frames codec sz n pages c in
    (\<exists>k \<ge> length log. log' = take k (wal_log big sz ckpt salt gs)) \<and> index_ok shm' (map fst fs) \<and> mapRc shm' = mapRc shm \<and>
    (rc = SQLITE_OK \<longrightarrow> log' = wal_log big sz ckpt salt gs \<and> (\<forall>f \<in> set gs. frame_ok sz f) \<and>
       writing big sz salt (log_cksum big sz (header_cksum big sz ckpt salt) gs) w' \<and>
       mxFrame (hdr w') = of_nat (length gs) \<and> nPage (hdr w') = n \<and> hdrSzPage (hdr w') = page_size16 sz \<and>
       aHdr0 shm' = hdr w' \<and> aHdr1 shm' = hdr w' \<and> index_ok shm' (map fst gs))"
proof -
  let ?A = "wal_log big sz ckpt salt" and ?hc = "header_cksum big sz ckpt salt"
  have salt: "length salt = 8" and lenfs: "length fs < 2 ^ 32" using w by (simp_all add: log_open_def)
  have len: "length log \<le> length (?A fs)" using log by (simp add: log_file_def)
  obtain r0 w0 shm0 log0 sc0 where st: "frames_start be salt8 salt4 sz flags w shm log sc = (r0, w0, shm0, log0, sc0)"
    by (rule prod_cases5)
  note S = frames_start_stored[OF w log start(2) st]
  show ?thesis
  proof (cases "r0 = SQLITE_OK")
    case False
    with run st have "rc = r0" "log' = log0" "shm' = shm0" by (auto simp: sqlite3WalFrames_def start(1) Let_def)
    moreover from S obtain k where "k \<ge> length log" "log0 = take k (?A fs)" by blast
    moreover have "index_ok shm0 (map fst fs)" "mapRc shm0 = mapRc shm" using S idx by (simp_all add: index_ok_def)
    ultimately show ?thesis using log_prefix[OF salt _ len, of k "commit_frames codec sz n pages 0"] False
      by (intro exI[of _ 0]) (simp add: Let_def)
  next
    case True
    then have log0: "log0 = ?A fs" and w0: "writing big sz salt (log_cksum big sz ?hc fs) w0"
      and mx: "mxFrame (hdr w0) = of_nat (length fs)" using S by auto
    have idx0: "index_ok shm0 (map fst fs)" "mapRc shm0 = mapRc shm" using S idx by (simp_all add: index_ok_def)
    obtain r1 w1 log1 sc1 i1 fl where wp: "write_pages be codec sz 0 True n shm0 w0 sc0 (?A fs) (length fs) pages = (r1, w1, log1, sc1, i1, fl)"
      by (rule prod_cases6)
    obtain r2 w2 log2 sc2 nExtra bSync where
      pad: "frames_pad be codec sector sz True flags (last pages) n (walFrameOffset (i1 + 1) sz) w1 sc1 log1 = (r2, w2, log2, sc2, nExtra, bSync)"
      by (rule prod_cases6)
    from commit_body[OF w0 refl ok fits pages refl wp pad] obtain c where "c \<le> sector" and
      B: "r1 \<noteq> SQLITE_OK \<Longrightarrow> \<exists>k \<ge> length (?A fs). log1 = take k (?A (fs @ commit_frames codec sz n pages c))"
        "r1 = SQLITE_OK \<Longrightarrow> i1 = length fs + length pages \<and> fl = replicate (length pages) True \<and> iReCksum w1 = 0 \<and>
          (\<exists>k \<ge> length (?A fs). log2 = take k (?A (fs @ commit_frames codec sz n pages c)))"
        "r1 = SQLITE_OK \<Longrightarrow> r2 = SQLITE_OK \<Longrightarrow> log2 = ?A (fs @ commit_frames codec sz n pages c) \<and> nExtra = c \<and>
          w2 = with_cksum (log_cksum big sz ?hc (fs @ commit_frames codec sz n pages c)) w0 \<and>
          (\<forall>p \<in> set pages. length (page_bytes codec sz p) = sz)" by (auto simp: Let_def)
    let ?gs = "fs @ commit_frames codec sz n pages c"
    obtain r3 sc3 where sync: "(if bSync then os_call sc2 else (SQLITE_OK, sc2)) = (r3, sc3)" by (cases "if bSync then os_call sc2 else (SQLITE_OK, sc2)")
    obtain w4 log4 sc4 where lim: "frames_limit sz True (i1 + nExtra) w2 sc3 log2 = (w4, log4, sc4)" by (rule prod_cases3)
    define pgnos where "pgnos = map (\<lambda>(p, fl). fst p) (filter snd (zip pages fl)) @ replicate nExtra (fst (last pages))"
    obtain r5 w5 shm5 where fin: "frames_finish be sz True n pgnos w4 shm0 = (r5, w5, shm5)" by (rule prod_cases3)
    have "unat (mxFrame (hdr w0)) = length fs" using mx lenfs by (simp add: unat_of_nat)
    with wp have wp': "write_pages be codec sz 0 True n shm0 w0 sc0 log0 (unat (mxFrame (hdr w0))) pages = (r1, w1, log1, sc1, i1, fl)"
      by (simp only: log0)
    have re: "r1 = SQLITE_OK \<longrightarrow> iReCksum w1 = 0" using B(2) by simp
    note out = run[unfolded frames_steps[OF start(1) st[unfolded True] wp' re pad sync lim fin[unfolded pgnos_def]]]
    show ?thesis
    proof (cases "r1 = SQLITE_OK \<and> r2 = SQLITE_OK")
      case False
      with out B(1,2) have "rc \<noteq> SQLITE_OK \<and> shm' = shm0 \<and> (\<exists>k \<ge> length (?A fs). log' = take k (?A ?gs))" by (cases "r1 = SQLITE_OK") auto
      with \<open>c \<le> sector\<close> len idx0 show ?thesis by (intro exI[of _ c]) (auto simp: Let_def intro: order_trans)
    next
      case both: True
      with B have log2: "log2 = ?A ?gs" and b: "i1 = length fs + length pages" "fl = replicate (length pages) True" "nExtra = c"
        "w2 = with_cksum (log_cksum big sz ?hc ?gs) w0" "\<forall>p \<in> set pages. length (page_bytes codec sz p) = sz" by auto
      have gs_ok: "\<forall>f \<in> set ?gs. frame_ok sz f" using ok commit_frames_ok[OF pages(1) b(5) pages(2)] by auto
      have "length log2 \<le> walFrameOffset (Suc (i1 + nExtra)) sz"
        unfolding log2 length_wal_log[OF salt gs_ok] by (simp add: walFrameOffset_def commit_frames_def b)
      from frames_limit_kept[OF this lim] obtain t where w4: "log4 = log2" "w4 = w2\<lparr>truncateOnCommit := t\<rparr>" by blast
      have w4': "writing big sz salt (log_cksum big sz ?hc ?gs) w4" "mxFrame (hdr w4) = of_nat (length fs)"
        using writing_with_cksum[OF w0] mx by (simp_all add: w4 b writing_def with_cksum_def)
      have pg: "pgnos = map fst (commit_frames codec sz n pages c)"
        by (simp add: pgnos_def b appended_pages commit_pages)
      then have "0 \<notin> set pgnos" using gs_ok by (force simp: frame_ok_def)
      note F = frames_finish_commit[OF idx0(1) w4'(2) lenfs this fin]
      then have fin_ok: "r5 = SQLITE_OK \<Longrightarrow>
          index_ok shm5 (map fst ?gs) \<and> mxFrame (hdr w5) = of_nat (length ?gs) \<and> nPage (hdr w5) = n \<and>
          hdrSzPage (hdr w5) = page_size16 sz \<and> aHdr0 shm5 = hdr w5 \<and> aHdr1 shm5 = hdr w5 \<and>
          writing big sz salt (log_cksum big sz ?hc ?gs) w5" using w4'(1) by (simp add: pg)
      from out both have out': "(if r3 \<noteq> SQLITE_OK then (r3, w4, shm0, log4, sc4) else (r5, w5, shm5, log4, sc4)) =
        (rc, w', shm', log', sc')" by simp
      then have shm': "shm' = shm0 \<or> shm' = shm5" by (cases "r3 = SQLITE_OK") simp_all
      from out' have log': "log' = ?A ?gs" unfolding w4(1) log2 by (cases "r3 = SQLITE_OK") simp_all
      from out' have all_ok: "rc = SQLITE_OK \<longrightarrow> r5 = SQLITE_OK \<and> w' = w5 \<and> shm' = shm5" by (cases "r3 = SQLITE_OK") auto
      have grown: "length log \<le> length (?A ?gs)"
        using len unfolding length_wal_log[OF salt ok] length_wal_log[OF salt gs_ok] by (simp add: add_mult_distrib)
      have "index_ok shm' (map fst fs) \<and> mapRc shm' = mapRc shm" using shm' F idx0 by auto
      then show ?thesis using \<open>c \<le> sector\<close> fin_ok gs_ok all_ok grown unfolding Let_def
        by (intro exI[of _ c] conjI exI[of _ "length (?A ?gs)"]) (simp_all add: log')
    qed
  qed
qed

end
