(* ===== verification/Wal_Atomic.thy ===== *)
theory Wal_Atomic
  imports Wal_Commit
begin

text \<open>
  What a commit through the log promises: it happens as a whole or not at all, also when the
  machine stops at any point of it, and readers that hold an older snapshot do not notice.
\<close>

subsection \<open>The committed part of a cut log\<close>

lemma last_commit_none:
  "\<forall>f \<in> set gs. fst (snd f) = 0 \<Longrightarrow> last_commit (fs @ gs) = last_commit fs"
proof (induction gs rule: rev_induct)
  case (snoc g gs)
  then show ?case using last_commit_snoc[of "fs @ gs" g] by simp
qed simp

lemma last_commit_here: "whole = fs @ [f] \<Longrightarrow> fst (snd f) \<noteq> 0 \<Longrightarrow> last_commit whole = length whole"
  by (simp add: last_commit_snoc)

lemma tx_uncommitted: "i < length ps \<Longrightarrow> \<forall>f \<in> set (take i (tx_frames codec sz c n ps)). fst (snd f) = 0"
proof (induction ps arbitrary: i)
  case (Cons p ps)
  then show ?case by (cases i) auto
qed simp

lemma tx_last: "ps \<noteq> [] \<Longrightarrow> tx_frames codec sz True n ps =
  tx_frames codec sz False n (butlast ps) @ [(fst (last ps), n, page_bytes codec sz (last ps))]"
  by (induction ps) auto

lemma page_content_repeated: "page_content (fs @ f # replicate c f) db sz p = page_content (fs @ [f]) db sz p"
  by (induction c) (auto simp: page_content_def map_add_def split: option.splits prod.splits)

lemma commit_cut_before:
  assumes "last_commit fs = length fs" "length fs \<le> j" "j < length fs + length pages"
    and whole_def: "whole = take j (fs @ commit_frames codec sz n pages c)"
  shows "take (last_commit whole) whole = fs"
proof -
  have "whole = fs @ take (j - length fs) (tx_frames codec sz True n pages)"
    using assms(2,3) by (simp add: whole_def commit_frames_def)
  moreover have "last_commit whole = length fs"
    using last_commit_none[OF tx_uncommitted, of "j - length fs" pages fs codec sz True n] assms(1-3) calculation by simp
  ultimately show ?thesis by simp
qed

lemma commit_split:
  "pages \<noteq> [] \<Longrightarrow> fs @ tx_frames codec sz True n pages @ replicate i (fst (last pages), n, page_bytes codec sz (last pages)) =
    (fs @ tx_frames codec sz False n (butlast pages)) @ (fst (last pages), n, page_bytes codec sz (last pages)) #
      replicate i (fst (last pages), n, page_bytes codec sz (last pages))"
  by (simp add: tx_last)

lemma page_content_commit:
  "pages \<noteq> [] \<Longrightarrow> page_content (fs @ commit_frames codec sz n pages c) db sz p =
    page_content (fs @ tx_frames codec sz True n pages) db sz p"
  unfolding commit_frames_def commit_split page_content_repeated by (simp add: tx_last)

lemma commit_cut_after:
  assumes n: "n \<noteq> 0" and pages: "pages \<noteq> []" and j: "length fs + length pages \<le> j"
    and whole_def: "whole = take j (fs @ commit_frames codec sz n pages c)"
  shows "page_content (take (last_commit whole) whole) db sz p = page_content (fs @ tx_frames codec sz True n pages) db sz p"
proof -
  let ?f = "(fst (last pages), n, page_bytes codec sz (last pages))"
  define i where "i = min c (j - length fs - length pages)"
  have whole: "whole = fs @ tx_frames codec sz True n pages @ replicate i ?f"
    using j by (simp add: whole_def commit_frames_def i_def)
  have "last_commit whole = length whole"
  proof (cases i)
    case 0
    then have "whole = (fs @ tx_frames codec sz False n (butlast pages)) @ [?f]" unfolding whole commit_split[OF pages] by simp
    then show ?thesis by (rule last_commit_here) (simp add: n)
  next
    case (Suc i')
    have "whole = (fs @ tx_frames codec sz True n pages @ replicate i' ?f) @ [?f]"
      unfolding whole Suc by (simp add: replicate_append_same)
    then show ?thesis by (rule last_commit_here) (simp add: n)
  qed
  then have "page_content (take (last_commit whole) whole) db sz p = page_content whole db sz p" by simp
  also have "\<dots> = page_content (fs @ commit_frames codec sz n pages i) db sz p" by (simp only: whole commit_frames_def)
  finally show ?thesis unfolding page_content_commit[OF pages] .
qed

subsection \<open>Properties\<close>

text \<open>The hypotheses under which a transaction is committed in one set of frames.\<close>

definition commit_starts ::
  "bool \<Rightarrow> page_codec \<Rightarrow> u8 list \<Rightarrow> nat \<Rightarrow> bool \<Rightarrow> nat \<Rightarrow> u32 \<Rightarrow> u8 list \<Rightarrow> frame list \<Rightarrow> (u32 \<times> u8 list) list \<Rightarrow>
   wal \<Rightarrow> wal_shm \<Rightarrow> u8 list \<Rightarrow> bool" where
  "commit_starts be codec salt8 sector big sz ckpt salt fs pages w shm log \<longleftrightarrow>
     log_open be salt8 big sz ckpt salt fs w \<and> log = log_file big sz ckpt salt fs \<and> page_size_ok sz \<and>
     (\<forall>f \<in> set fs. frame_ok sz f) \<and> codec_fits codec sz \<and> pages \<noteq> [] \<and> (\<forall>p \<in> set pages. fst p \<noteq> 0) \<and>
     hdr w = aHdr0 shm \<and> (readLock w \<noteq> 0 \<or> nBackfill (ckptInfo shm) = 0) \<and> index_ok shm (map fst fs) \<and>
     (fs \<noteq> [] \<longrightarrow> hdrSzPage (hdr w) = page_size16 sz) \<and> length fs + length pages + sector < 2 ^ 32 - 1"

lemma commit_outcome:
  assumes "commit_starts be codec salt8 sector big sz ckpt salt fs pages w shm log"
    and "sqlite3WalFrames be codec salt8 salt4 sector sz pages n True flags w shm log sc = (rc, w', shm', log', sc')"
  obtains c k where "c \<le> sector" "length log \<le> k"
    "log' = take k (wal_log big sz ckpt salt (fs @ commit_frames codec sz n pages c))"
    "index_ok shm' (map fst fs)" "mapRc shm' = mapRc shm"
    "rc = SQLITE_OK \<Longrightarrow> log' = wal_log big sz ckpt salt (fs @ commit_frames codec sz n pages c) \<and>
       (\<forall>f \<in> set (fs @ commit_frames codec sz n pages c). frame_ok sz f) \<and>
       mxFrame (hdr w') = of_nat (length (fs @ commit_frames codec sz n pages c)) \<and> hdrSzPage (hdr w') = page_size16 sz \<and>
       aHdr0 shm' = hdr w' \<and> index_ok shm' (map fst (fs @ commit_frames codec sz n pages c))"
proof -
  have h: "log_open be salt8 big sz ckpt salt fs w" "log = log_file big sz ckpt salt fs" "\<forall>f \<in> set fs. frame_ok sz f"
    "codec_fits codec sz" "pages \<noteq> []" "\<forall>p \<in> set pages. fst p \<noteq> 0" "hdr w = aHdr0 shm"
    "readLock w \<noteq> 0 \<or> nBackfill (ckptInfo shm) = 0" "index_ok shm (map fst fs)"
    using assms(1) by (simp_all add: commit_starts_def)
  from commit_result[OF h assms(2)] obtain c where "c \<le> sector" and
    C: "let gs = fs @ commit_frames codec sz n pages c in
      (\<exists>k \<ge> length log. log' = take k (wal_log big sz ckpt salt gs)) \<and> index_ok shm' (map fst fs) \<and> mapRc shm' = mapRc shm \<and>
      (rc = SQLITE_OK \<longrightarrow> log' = wal_log big sz ckpt salt gs \<and> (\<forall>f \<in> set gs. frame_ok sz f) \<and>
         writing big sz salt (log_cksum big sz (header_cksum big sz ckpt salt) gs) w' \<and>
         mxFrame (hdr w') = of_nat (length gs) \<and> nPage (hdr w') = n \<and> hdrSzPage (hdr w') = page_size16 sz \<and>
         aHdr0 shm' = hdr w' \<and> aHdr1 shm' = hdr w' \<and> index_ok shm' (map fst gs))" by blast
  from C[unfolded Let_def] obtain k where
    "k \<ge> length log" "log' = take k (wal_log big sz ckpt salt (fs @ commit_frames codec sz n pages c))" by blast
  from that[OF \<open>c \<le> sector\<close> this] C[unfolded Let_def] show thesis by blast
qed

text \<open>
  C1: a commit through the log is atomic and durable. Whichever calls of the operating system
  fail during it, and wherever the log file is cut off afterwards within what the commit has
  added, a connection that then recovers the log reads every page either as it was before the
  transaction or as the transaction left it, the same for all pages; and when the commit
  reported success and the log is whole, as the transaction left it.
\<close>

theorem commit_atomic:
  assumes start: "commit_starts be codec salt8 sector big sz ckpt salt fs pages w shm log"
    and complete: "last_commit fs = length fs" "n \<noteq> 0"
    and run: "sqlite3WalFrames be codec salt8 salt4 sector sz pages n True flags w shm log sc = (rc, w', shm', log', sc')"
    and cut: "length log \<le> j"
    and fresh: "\<not> isInit (aHdr0 shm2)" "\<not> shmReadOnly w2" "no_faults rsc shm2"
  shows "\<exists>gs r shm3. (gs = fs \<or> gs = fs @ tx_frames codec sz True n pages) \<and>
    (rc = SQLITE_OK \<and> length log' \<le> j \<longrightarrow> gs = fs @ tx_frames codec sz True n pages) \<and>
    sqlite3WalBeginReadTransaction be2 [] rsc (take j log') w2 shm2 = (SQLITE_OK, r, shm3, []) \<and>
    (\<forall>db p. read_page [] r shm3 (take j log') db sz p = (SQLITE_OK, page_content gs db sz p))"
proof -
  obtain c k where c: "c \<le> sector" "length log \<le> k"
    and log': "log' = take k (wal_log big sz ckpt salt (fs @ commit_frames codec sz n pages c))"
    and all: "rc = SQLITE_OK \<Longrightarrow> log' = wal_log big sz ckpt salt (fs @ commit_frames codec sz n pages c)"
    by (rule commit_outcome[OF start run]) blast
  define gs where "gs = fs @ commit_frames codec sz n pages c"
  let ?A = "wal_log big sz ckpt salt" and ?f = "sz + WAL_FRAME_HDRSIZE"
  have salt: "length salt = 8" and size: "page_size_ok sz" and pages: "pages \<noteq> []"
    and len: "length gs < 2 ^ 32 - 1" and ok: "\<forall>f \<in> set fs. frame_ok sz f" "\<forall>f \<in> set gs. frame_ok sz f"
    and log: "log = log_file big sz ckpt salt fs"
    using start c(1) commit_frames_ok[of pages codec sz n c] length_page_bytes[of codec sz]
    by (auto simp: commit_starts_def log_open_def gs_def commit_frames_def)
  define k' where "k' = (if rc = SQLITE_OK \<and> length log' \<le> j then length (?A gs) else min j k)"
  have cut': "take j log' = take k' (?A gs)" using log' all by (auto simp: k'_def gs_def)
  let ?m = "(k' - WAL_HDRSIZE) div ?f"
  have "length log \<le> length (?A gs)"
    using length_wal_log[OF salt ok(1), of big ckpt] length_wal_log[OF salt ok(2), of big ckpt]
    by (simp add: log log_file_def gs_def add_mult_distrib)
  then have "length log \<le> k'" using c(2) cut by (simp add: k'_def)
  then have m: "length fs \<le> ?m"
    using log length_wal_log[OF salt ok(1), of big ckpt]
    by (cases "fs = []") (auto simp: log_file_def less_eq_div_iff_mult_less_eq)
  have full: "rc = SQLITE_OK \<and> length log' \<le> j \<longrightarrow> length fs + length pages \<le> ?m"
    using length_wal_log[OF salt ok(2), of big ckpt] by (auto simp: k'_def gs_def commit_frames_def)
  obtain r shm3 where r: "sqlite3WalBeginReadTransaction be2 [] rsc (take j log') w2 shm2 = (SQLITE_OK, r, shm3, [])"
    "\<forall>db p. read_page [] r shm3 (take j log') db sz p = (SQLITE_OK, page_content (committed_in k' sz gs) db sz p)"
    using recovery_reads[OF salt size ok(2) len fresh cut'] by blast
  have W: "take ?m gs = take ?m (fs @ commit_frames codec sz n pages c)" by (simp only: gs_def)
  show ?thesis
  proof (cases "?m < length fs + length pages")
    case True
    have "committed_in k' sz gs = fs"
      unfolding committed_in_def Let_def by (rule commit_cut_before[OF complete(1) m True W])
    with r full True show ?thesis by (intro exI[of _ fs] exI[of _ r] exI[of _ shm3]) auto
  next
    case False
    then have "length fs + length pages \<le> ?m" by simp
    then have "page_content (committed_in k' sz gs) db sz p = page_content (fs @ tx_frames codec sz True n pages) db sz p" for db p
      unfolding committed_in_def Let_def by (rule commit_cut_after[OF complete(2) pages _ W])
    with r show ?thesis by (intro exI[of _ "fs @ tx_frames codec sz True n pages"] exI[of _ r] exI[of _ shm3]) simp
  qed
qed

definition xor_codec :: "nat \<Rightarrow> page_codec" where
  "xor_codec sz p d = Some (map (\<lambda>b. b XOR 0x55) (take sz (d @ replicate sz 0)))"

lemma xor_codec_fits: "codec_fits (xor_codec sz) sz"
  by (auto simp: codec_fits_def xor_codec_def)

lemma commit_example:
  "commit_starts True (xor_codec 512) [1, 2, 3, 4, 5, 6, 7, 8] 4096 True 512 0 [1, 2, 3, 4, 5, 6, 7, 8] []
     [(2, replicate 512 7)] (wal_example 0) shm_example []"
  by (simp add: commit_starts_def log_open_def log_file_def page_size_ok_def xor_codec_fits wal_example_def hdr_example_def
      shm_example_def)

theorem commit_atomic_witness:
  "let pages = [(2, replicate 512 7)] in
   case sqlite3WalFrames True (xor_codec 512) [1, 2, 3, 4, 5, 6, 7, 8] [] 4096 512 pages 2 True 0x22
       (wal_example 0) shm_example [] [(0, 0), (0, 0), (0, 0), (10, 300)] of (rc, w', shm', log', sc') \<Rightarrow>
     \<exists>gs r shm3. (gs = [] \<or> gs = tx_frames (xor_codec 512) 512 True 2 pages) \<and>
       sqlite3WalBeginReadTransaction False [] [] (take 800 log') (wal_example 0) (shm_example\<lparr>aHdr0 := zero_hdr\<rparr>) =
         (SQLITE_OK, r, shm3, []) \<and>
       read_page [] r shm3 (take 800 log') [] 512 2 = (SQLITE_OK, page_content gs [] 512 2)"
proof -
  obtain rc w' shm' log' sc' where run:
    "sqlite3WalFrames True (xor_codec 512) [1, 2, 3, 4, 5, 6, 7, 8] [] 4096 512 [(2, replicate 512 7)] 2 True 0x22
       (wal_example 0) shm_example [] [(0, 0), (0, 0), (0, 0), (10, 300)] = (rc, w', shm', log', sc')" by (rule prod_cases5)
  have fresh: "\<not> isInit (aHdr0 (shm_example\<lparr>aHdr0 := zero_hdr\<rparr>))" "\<not> shmReadOnly (wal_example 0)"
    "no_faults [] (shm_example\<lparr>aHdr0 := zero_hdr\<rparr>)"
    by (simp_all add: zero_hdr_def wal_example_def no_faults_def shm_example_def)
  note atomic = commit_atomic[OF commit_example _ _ run _ fresh, where j = 800 and ?be2.0 = False]
  obtain gs r shm3 where
    "gs = [] \<or> gs = [] @ tx_frames (xor_codec 512) 512 True 2 [(2, replicate 512 7)]"
    "sqlite3WalBeginReadTransaction False [] [] (take 800 log') (wal_example 0) (shm_example\<lparr>aHdr0 := zero_hdr\<rparr>) =
      (SQLITE_OK, r, shm3, [])"
    "\<forall>db p. read_page [] r shm3 (take 800 log') db 512 p = (SQLITE_OK, page_content gs db 512 p)"
    using atomic by auto
  then show ?thesis unfolding run Let_def prod.case append_Nil by blast
qed

text \<open>
  C9: readers are isolated from a commit. Whatever happened during it, a reader whose snapshot ends
  with any of the earlier frames of the log, not necessarily with the last commit, and begins at
  whatever frame, still reads every page from these frames and the database file, through the
  changed index and from the longer log. A reader whose snapshot is the header that a successful
  commit published, and that takes no frame of the transaction for copied into the database, reads
  every page as the transaction left it.
\<close>

theorem commit_isolated:
  assumes start: "commit_starts be codec salt8 sector big sz ckpt salt fs pages w shm log"
    and run: "sqlite3WalFrames be codec salt8 salt4 sector sz pages n True flags w shm log sc = (rc, w', shm', log', sc')"
    and maps: "\<forall>h. mapRc shm h = SQLITE_OK"
    and reader: "readLock r \<noteq> 0"
      "unat (mxFrame (hdr r)) \<le> length fs \<and> (mxFrame (hdr r) \<noteq> 0 \<longrightarrow> hdrSzPage (hdr r) = page_size16 sz) \<and>
         seen = take (unat (mxFrame (hdr r))) fs \<or>
       rc = SQLITE_OK \<and> hdr r = aHdr0 shm' \<and> minFrame r \<le> length fs + 1 \<and> seen = fs @ tx_frames codec sz True n pages"
  shows "read_page [] r shm' log' db sz p = (SQLITE_OK, page_content (drop (minFrame r - 1) seen) db sz p)"
proof -
  obtain c k where c: "c \<le> sector" "length log \<le> k"
    "log' = take k (wal_log big sz ckpt salt (fs @ commit_frames codec sz n pages c))"
    "index_ok shm' (map fst fs)" "mapRc shm' = mapRc shm"
    "rc = SQLITE_OK \<Longrightarrow> log' = wal_log big sz ckpt salt (fs @ commit_frames codec sz n pages c) \<and>
       (\<forall>f \<in> set (fs @ commit_frames codec sz n pages c). frame_ok sz f) \<and>
       mxFrame (hdr w') = of_nat (length (fs @ commit_frames codec sz n pages c)) \<and> hdrSzPage (hdr w') = page_size16 sz \<and>
       aHdr0 shm' = hdr w' \<and> index_ok shm' (map fst (fs @ commit_frames codec sz n pages c))"
    by (rule commit_outcome[OF start run]) blast
  define gs where "gs = fs @ commit_frames codec sz n pages c"
  let ?A = "wal_log big sz ckpt salt" and ?s = "header_cksum big sz ckpt salt"
  note c = c[folded gs_def]
  have h: "length salt = 8" "page_size_ok sz" "pages \<noteq> []" "\<forall>f \<in> set fs. frame_ok sz f" "log = log_file big sz ckpt salt fs"
    using start unfolding commit_starts_def log_open_def by - (elim conjE, assumption)+
  have len: "length gs < 2 ^ 32" using start c(1) by (simp add: commit_starts_def gs_def commit_frames_def)
  have maps': "\<forall>h. mapRc shm' h = SQLITE_OK" using maps by (simp add: c(5))
  have hd: "length (?A []) = WAL_HDRSIZE" by (simp add: length_wal_log[OF h(1)])
  have split: "?A gs = ?A [] @ log_bytes big sz salt ?s gs @ []" for gs by (simp add: wal_log_eq[OF h(1), of big sz ckpt gs])
  from reader(2) show ?thesis
  proof (elim disjE conjE)
    let ?m = "unat (mxFrame (hdr r))"
    assume old: "?m \<le> length fs" "mxFrame (hdr r) \<noteq> 0 \<longrightarrow> hdrSzPage (hdr r) = page_size16 sz" "seen = take ?m fs"
    obtain pre tail where "log' = pre @ log_bytes big sz salt ?s fs @ tail" "fs \<noteq> [] \<longrightarrow> length pre = WAL_HDRSIZE"
    proof (cases "fs = []")
      case False
      have "?A gs = ?A fs @ log_bytes big sz salt (log_cksum big sz ?s fs) (commit_frames codec sz n pages c)"
        using split[of gs] split[of fs] by (simp add: gs_def log_bytes_append)
      moreover have "length (?A fs) \<le> k" using c(2) False by (simp add: h(5) log_file_def)
      ultimately have "\<exists>tail. log' = ?A fs @ tail" by (simp add: c(3))
      then obtain tail where "log' = ?A [] @ log_bytes big sz salt ?s fs @ tail" using split[of fs] by auto
      then show thesis using hd that by blast
    qed (use that[of "[]" log'] in simp)
    from read_within[OF h(1,2,4) c(4) maps' refl old(1) _ reader(1) this, of db p] old(2,3)
    show ?thesis using log_lookup_le[of "map fst (take ?m fs)" "minFrame r" p]
      unfolding old(3) log_lookup_drop by (auto simp: take_map unat_eq_zero Let_def)
  next
    assume new: "rc = SQLITE_OK" "hdr r = aHdr0 shm'" "minFrame r \<le> length fs + 1" "seen = fs @ tx_frames codec sz True n pages"
    with c(6) have a: "log' = ?A gs" "\<forall>f \<in> set gs. frame_ok sz f" "unat (mxFrame (hdr r)) = length gs"
      "hdrSzPage (hdr r) = page_size16 sz" "index_ok shm' (map fst gs)" using len by (simp_all add: unat_of_nat)
    from read_within[OF h(1,2) a(2,5) maps' a(3) order.refl _ reader(1) trans[OF a(1) split], of db p] a(4) hd
    have "read_page [] r shm' log' db sz p = (SQLITE_OK, page_content (drop (minFrame r - 1) gs) db sz p)"
      unfolding log_lookup_drop by simp
    with new(3,4) show ?thesis by (simp add: gs_def page_content_commit[OF h(3)])
  qed
qed

theorem commit_isolated_witness:
  "let pages = [(2, replicate 512 7)] in
   case sqlite3WalFrames True (xor_codec 512) [1, 2, 3, 4, 5, 6, 7, 8] [] 4096 512 pages 2 True 0x22
       (wal_example 0) shm_example [] [(0, 0), (0, 0), (0, 0), (10, 300)] of (rc, w', shm', log', sc') \<Rightarrow>
     read_page [] (wal_example 0) shm' log' (replicate 1024 5) 512 2 = (SQLITE_OK, replicate 512 5)"
proof -
  obtain rc w' shm' log' sc' where run:
    "sqlite3WalFrames True (xor_codec 512) [1, 2, 3, 4, 5, 6, 7, 8] [] 4096 512 [(2, replicate 512 7)] 2 True 0x22
       (wal_example 0) shm_example [] [(0, 0), (0, 0), (0, 0), (10, 300)] = (rc, w', shm', log', sc')" by (rule prod_cases5)
  have "page_content [] (replicate 1024 5) 512 2 = replicate 512 5"
    by (simp add: page_content_def db_page_def)
  moreover have "read_page [] (wal_example 0) shm' log' (replicate 1024 5) 512 2 =
      (SQLITE_OK, page_content (drop (minFrame (wal_example 0) - 1) []) (replicate 1024 5) 512 2)"
    by (rule commit_isolated[OF commit_example run]) (simp_all add: shm_example_def wal_example_def hdr_example_def)
  ultimately show ?thesis unfolding run Let_def by simp
qed

end
