(* ===== verification/Wal_Header_Race.thy ===== *)
theory Wal_Header_Race
  imports Base
begin

text \<open>
  The header of the log's index is read without a lock while another process may be writing it.
  \<open>walIndexWriteHdr\<close> stores the second copy, passes a memory barrier and stores the first;
  \<open>walIndexTryHdr\<close> loads the first copy, passes a barrier and loads the second. Within a copy
  the words may be stored and loaded in any order, and the two processes interleave freely.
\<close>

subsection \<open>One write and one read, word by word\<close>

text \<open>\<open>sizeof(WalIndexHdr)\<close> in 32-bit words.\<close>

definition hdr_words :: nat where "hdr_words = 12"

text \<open>
  The two copies in shared memory, the words the writer has stored in each, and the words the
  reader has loaded from each.
\<close>

record race =
  copy0 :: "nat \<Rightarrow> u32"
  copy1 :: "nat \<Rightarrow> u32"
  stored0 :: "nat set"
  stored1 :: "nat set"
  loaded0 :: "nat \<Rightarrow> u32 option"
  loaded1 :: "nat \<Rightarrow> u32 option"

inductive race_step :: "(nat \<Rightarrow> u32) \<Rightarrow> race \<Rightarrow> race \<Rightarrow> bool" for new where
  store_second: "i < hdr_words \<Longrightarrow>
    race_step new s (s\<lparr>copy1 := (copy1 s)(i := new i), stored1 := insert i (stored1 s)\<rparr>)"
| store_first: "i < hdr_words \<Longrightarrow> stored1 s = {..< hdr_words} \<Longrightarrow>
    race_step new s (s\<lparr>copy0 := (copy0 s)(i := new i), stored0 := insert i (stored0 s)\<rparr>)"
| load_first: "i < hdr_words \<Longrightarrow> loaded0 s i = None \<Longrightarrow>
    race_step new s (s\<lparr>loaded0 := (loaded0 s)(i \<mapsto> copy0 s i)\<rparr>)"
| load_second: "i < hdr_words \<Longrightarrow> dom (loaded0 s) = {..< hdr_words} \<Longrightarrow> loaded1 s i = None \<Longrightarrow>
    race_step new s (s\<lparr>loaded1 := (loaded1 s)(i \<mapsto> copy1 s i)\<rparr>)"

inductive race_run :: "(nat \<Rightarrow> u32) \<Rightarrow> race \<Rightarrow> race \<Rightarrow> bool" for new where
  start: "race_run new s s"
| step: "race_run new s t \<Longrightarrow> race_step new t u \<Longrightarrow> race_run new s u"

definition race_init :: "(nat \<Rightarrow> u32) \<Rightarrow> race" where
  "race_init old = \<lparr>copy0 = old, copy1 = old, stored0 = {}, stored1 = {},
     loaded0 = (\<lambda>_. None), loaded1 = (\<lambda>_. None)\<rparr>"

text \<open>The reader has both copies and finds them equal.\<close>

definition race_accepts :: "race \<Rightarrow> bool" where
  "race_accepts s \<longleftrightarrow> dom (loaded0 s) = {..< hdr_words} \<and> loaded0 s = loaded1 s"

definition race_inv :: "(nat \<Rightarrow> u32) \<Rightarrow> (nat \<Rightarrow> u32) \<Rightarrow> race \<Rightarrow> bool" where
  "race_inv old new s \<longleftrightarrow>
     stored1 s \<subseteq> {..< hdr_words} \<and> stored0 s \<subseteq> {..< hdr_words} \<and>
     (stored0 s \<noteq> {} \<longrightarrow> stored1 s = {..< hdr_words}) \<and>
     (\<forall>i. copy0 s i = (if i \<in> stored0 s then new i else old i)) \<and>
     (\<forall>i. copy1 s i = (if i \<in> stored1 s then new i else old i)) \<and>
     dom (loaded0 s) \<subseteq> {..< hdr_words} \<and>
     (loaded1 s \<noteq> (\<lambda>_. None) \<longrightarrow> dom (loaded0 s) = {..< hdr_words}) \<and>
     ((\<forall>i v. loaded0 s i = Some v \<longrightarrow> v = old i) \<or>
      stored1 s = {..< hdr_words} \<and> (\<forall>i v. loaded0 s i = Some v \<longrightarrow> v = old i \<or> v = new i) \<and>
      (\<forall>i v. loaded1 s i = Some v \<longrightarrow> v = new i))"

lemma race_inv_init: "race_inv old new (race_init old)"
  by (simp add: race_inv_def race_init_def)

lemma race_inv_step:
  assumes "race_inv old new s" "race_step new s t"
  shows "race_inv old new t"
  using assms(2)
proof cases
  case (store_second i)
  with assms(1) show ?thesis by (auto simp: race_inv_def)
next
  case (store_first i)
  with assms(1) show ?thesis by (auto simp: race_inv_def)
next
  case (load_first i)
  have none: "loaded1 s = (\<lambda>_. None)"
  proof (rule ccontr)
    assume "\<not> ?thesis"
    with assms(1) have "dom (loaded0 s) = {..< hdr_words}" by (simp add: race_inv_def)
    with load_first show False by (metis domIff lessThan_iff)
  qed
  show ?thesis
  proof (cases "i \<in> stored0 s")
    case True
    with load_first assms(1) none show ?thesis by (auto simp: race_inv_def)
  next
    case False
    with load_first assms(1) none show ?thesis by (auto simp: race_inv_def)
  qed
next
  case (load_second i)
  with assms(1) show ?thesis by (auto simp: race_inv_def)
qed

lemma race_inv_run: "race_run new s t \<Longrightarrow> race_inv old new s \<Longrightarrow> race_inv old new t"
  by (induction rule: race_run.induct) (auto intro: race_inv_step)

text \<open>
  C18: a reader that runs while a header is being replaced, in any interleaving, and finds its two
  copies equal has read either the whole old header or the whole new one.
\<close>

theorem header_never_torn:
  assumes "race_run new (race_init old) s" "race_accepts s"
  shows "(\<forall>i < hdr_words. loaded0 s i = Some (old i)) \<or> (\<forall>i < hdr_words. loaded0 s i = Some (new i))"
proof -
  have inv: "race_inv old new s" by (rule race_inv_run[OF assms(1) race_inv_init])
  have all: "\<exists>v. loaded0 s i = Some v" if "i < hdr_words" for i
  proof -
    from assms(2) have "dom (loaded0 s) = {..< hdr_words}" unfolding race_accepts_def by blast
    with that have "i \<in> dom (loaded0 s)" by blast
    then show ?thesis by (rule domD)
  qed
  from inv consider "\<forall>i v. loaded0 s i = Some v \<longrightarrow> v = old i" | "\<forall>i v. loaded1 s i = Some v \<longrightarrow> v = new i"
    unfolding race_inv_def by blast
  then show ?thesis
  proof cases
    case 1
    with all show ?thesis by metis
  next
    case 2
    with all assms(2) show ?thesis unfolding race_accepts_def by metis
  qed
qed

text \<open>A reader that is not disturbed.\<close>

lemma loads_first:
  assumes "loaded0 s = (\<lambda>_. None)" "n \<le> hdr_words"
  shows "race_run new s (s\<lparr>loaded0 := (\<lambda>i. if i < n then Some (copy0 s i) else None)\<rparr>)"
  using assms(2)
proof (induction n)
  case 0
  have "s\<lparr>loaded0 := (\<lambda>i. if i < 0 then Some (copy0 s i) else None)\<rparr> = s" using assms(1) by simp
  then show ?case by (simp add: race_run.start)
next
  case (Suc n)
  let ?t = "s\<lparr>loaded0 := (\<lambda>i. if i < n then Some (copy0 s i) else None)\<rparr>"
  have "race_step new ?t (?t\<lparr>loaded0 := (loaded0 ?t)(n \<mapsto> copy0 ?t n)\<rparr>)"
    using Suc.prems by (intro race_step.load_first) simp_all
  moreover have "(loaded0 ?t)(n \<mapsto> copy0 ?t n) = (\<lambda>i. if i < Suc n then Some (copy0 s i) else None)"
    by (rule ext) auto
  ultimately show ?case using Suc by (auto intro: race_run.step)
qed

lemma loads_second:
  assumes "dom (loaded0 s) = {..< hdr_words}" "loaded1 s = (\<lambda>_. None)" "n \<le> hdr_words" "race_run new r s"
  shows "race_run new r (s\<lparr>loaded1 := (\<lambda>i. if i < n then Some (copy1 s i) else None)\<rparr>)"
  using assms(3)
proof (induction n)
  case 0
  have "s\<lparr>loaded1 := (\<lambda>i. if i < 0 then Some (copy1 s i) else None)\<rparr> = s" using assms(2) by simp
  then show ?case using assms(4) by simp
next
  case (Suc n)
  let ?t = "s\<lparr>loaded1 := (\<lambda>i. if i < n then Some (copy1 s i) else None)\<rparr>"
  have "race_step new ?t (?t\<lparr>loaded1 := (loaded1 ?t)(n \<mapsto> copy1 ?t n)\<rparr>)"
    using Suc.prems assms(1) by (intro race_step.load_second) simp_all
  moreover have "(loaded1 ?t)(n \<mapsto> copy1 ?t n) = (\<lambda>i. if i < Suc n then Some (copy1 s i) else None)"
    by (rule ext) auto
  ultimately show ?case using Suc by (auto intro: race_run.step)
qed

theorem header_never_torn_witness:
  "\<exists>s. race_run (\<lambda>_. 5) (race_init (\<lambda>_. 3)) s \<and> race_accepts s \<and>
    ((\<forall>i < hdr_words. loaded0 s i = Some 3) \<or> (\<forall>i < hdr_words. loaded0 s i = Some 5))"
proof -
  let ?r = "race_init (\<lambda>_. 3)"
  let ?s = "?r\<lparr>loaded0 := (\<lambda>i. if i < hdr_words then Some (copy0 ?r i) else None)\<rparr>"
  let ?t = "?s\<lparr>loaded1 := (\<lambda>i. if i < hdr_words then Some (copy1 ?s i) else None)\<rparr>"
  have "race_run (\<lambda>_. 5) ?r ?s" by (rule loads_first) (simp_all add: race_init_def)
  then have run: "race_run (\<lambda>_. 5) ?r ?t"
    by (intro loads_second) (auto simp: race_init_def dom_def)
  have acc: "race_accepts ?t" by (auto simp: race_accepts_def race_init_def dom_def)
  from header_never_torn[OF run acc] run acc show ?thesis by blast
qed

end
