(* ===== verification/Wal_Sort.thy ===== *)
theory Wal_Sort
  imports Wal_Snapshot
begin

text \<open>
  The merge sort of the checkpointer (\<open>walMerge\<close> and \<open>walMergesort\<close> in \<open>wal.c\<close>): it sorts indices
  of the array \<open>c\<close> by their content and keeps, of equal contents, the largest index. The sublists
  lie side by side in one buffer, so that a merge overwrites nothing that is still used; they are
  lists here.
\<close>

subsection \<open>The code\<close>

function walMerge :: "(nat \<Rightarrow> u32) \<Rightarrow> nat list \<Rightarrow> nat list \<Rightarrow> nat list" where
  "walMerge c aLeft aRight =
     (if aLeft = [] \<and> aRight = [] then []
      else
        let (logpage, aLeft, aRight) =
              (if aLeft \<noteq> [] \<and> (aRight = [] \<or> c (hd aLeft) < c (hd aRight))
               then (hd aLeft, tl aLeft, aRight) else (hd aRight, aLeft, tl aRight));
            dbpage = c logpage;
            aLeft = (if aLeft \<noteq> [] \<and> c (hd aLeft) = dbpage then tl aLeft else aLeft)
        in logpage # walMerge c aLeft aRight)"
  by pat_completeness auto

termination
  by (relation "measure (\<lambda>(c, aLeft, aRight). length aLeft + length aRight)") (auto split: if_splits simp: neq_Nil_conv)

declare walMerge.simps [simp del]

lemma bit_bound: "bit n k \<Longrightarrow> 2 ^ k \<le> n" for n :: nat
  by (metis bit_iff_odd div_less even_zero not_less)

text \<open>The inner loop merges the new element with the sublists whose bits are set.\<close>

function merge_carry :: "(nat \<Rightarrow> u32) \<Rightarrow> nat list list \<Rightarrow> nat \<Rightarrow> nat \<Rightarrow> nat list \<Rightarrow> nat \<times> nat list" where
  "merge_carry c aSub iList iSub aMerge =
     (if bit iList iSub then merge_carry c aSub iList (iSub + 1) (walMerge c (aSub ! iSub) aMerge) else (iSub, aMerge))"
  by pat_completeness auto

termination
proof (relation "measure (\<lambda>(c, aSub, iList, iSub, aMerge). iList - iSub)", goal_cases)
  case (2 c aSub iList iSub aMerge)
  have "iSub < 2 ^ iSub" by (rule less_exp)
  also have "\<dots> \<le> iList" by (rule bit_bound[OF 2])
  finally show ?case by simp
qed simp

declare merge_carry.simps [simp del]

fun sort_loop :: "(nat \<Rightarrow> u32) \<Rightarrow> nat list \<Rightarrow> nat \<Rightarrow> nat list list \<Rightarrow> nat \<Rightarrow> nat list \<Rightarrow> nat list list \<times> nat \<times> nat list" where
  "sort_loop c [] iList aSub iSub aMerge = (aSub, iSub, aMerge)"
| "sort_loop c (x # xs) iList aSub iSub aMerge =
     (case merge_carry c aSub iList 0 [x] of
        (iSub, aMerge) \<Rightarrow> sort_loop c xs (iList + 1) (aSub[iSub := aMerge]) iSub aMerge)"

definition walMergesort :: "(nat \<Rightarrow> u32) \<Rightarrow> nat list \<Rightarrow> nat list" where
  "walMergesort c aList =
     (let (aSub, iSub, aMerge) = sort_loop c aList 0 (replicate 13 []) 0 []
      in fold (\<lambda>i aMerge. if bit (length aList) i then walMerge c (aSub ! i) aMerge else aMerge) [iSub + 1 ..< 13] aMerge)"

subsection \<open>Merging\<close>

lemma walMerge_simps:
  "walMerge c [] [] = []"
  "walMerge c [] (r # rs) = r # walMerge c [] rs"
  "walMerge c (l # ls) [] = l # walMerge c (if ls \<noteq> [] \<and> c (hd ls) = c l then tl ls else ls) []"
  "walMerge c (l # ls) (r # rs) =
    (if c l < c r then l # walMerge c (if ls \<noteq> [] \<and> c (hd ls) = c l then tl ls else ls) (r # rs)
     else r # walMerge c (if c l = c r then ls else l # ls) rs)"
  by (simp_all add: walMerge.simps[of c] Let_def)

abbreviation (input) ascending :: "(nat \<Rightarrow> u32) \<Rightarrow> nat list \<Rightarrow> bool" where
  "ascending c xs \<equiv> sorted_wrt (\<lambda>i j. c i < c j) xs"

lemma ascending_next: "ascending c (l # ls) \<Longrightarrow> (if ls \<noteq> [] \<and> c (hd ls) = c l then tl ls else ls) = ls"
  by (cases ls) auto

lemma walMerge_spec:
  assumes "ascending c L" "ascending c R"
  shows "ascending c (walMerge c L R) \<and> set (walMerge c L R) = set R \<union> {i \<in> set L. c i \<notin> c ` set R}"
  using assms
proof (induction "length L + length R" arbitrary: L R rule: less_induct)
  case less
  show ?case
  proof (cases L)
    case Nil
    then show ?thesis
    proof (cases R)
      case (Cons r rs)
      with Nil less.hyps[of "[]" rs] less.prems show ?thesis by (auto simp: walMerge_simps)
    qed (simp add: walMerge_simps)
  next
    case L: (Cons l ls)
    note skip = ascending_next[OF less.prems(1)[unfolded L]]
    show ?thesis
    proof (cases R)
      case Nil
      with L less.hyps[of ls "[]"] less.prems show ?thesis by (auto simp: walMerge_simps skip)
    next
      case R: (Cons r rs)
      show ?thesis
      proof (cases "c l < c r")
        case True
        with L R less.hyps[of ls R] less.prems show ?thesis by (auto simp: walMerge_simps skip)
      next
        case False
        let ?L = "if c l = c r then ls else L"
        have "ascending c (walMerge c ?L rs) \<and> set (walMerge c ?L rs) = set rs \<union> {i \<in> set ?L. c i \<notin> c ` set rs}"
          using less.prems L R by (intro less.hyps) auto
        moreover have gt: "c r < c x" if "x \<in> set ?L" for x
          using that less.prems(1) False L by (auto simp: not_less le_less split: if_splits intro: less_trans)
        moreover have "{i \<in> set L. c i \<notin> c ` set R} = {i \<in> set ?L. c i \<notin> c ` set rs}"
          using gt less.prems(1) L R by (auto split: if_splits) fastforce+
        ultimately show ?thesis using False L R less.prems(2) by (auto simp: walMerge_simps)
      qed
    qed
  qed
qed

subsection \<open>Sorting\<close>

text \<open>The indices of a range whose content does not occur again later in the range.\<close>

definition newest :: "(nat \<Rightarrow> u32) \<Rightarrow> nat \<Rightarrow> nat \<Rightarrow> nat set" where
  "newest c lo hi = {i. lo \<le> i \<and> i < hi \<and> (\<forall>j. i < j \<longrightarrow> j < hi \<longrightarrow> c j \<noteq> c i)}"

definition sorted_newest :: "(nat \<Rightarrow> u32) \<Rightarrow> nat \<Rightarrow> nat \<Rightarrow> nat list \<Rightarrow> bool" where
  "sorted_newest c lo hi xs \<longleftrightarrow> ascending c xs \<and> set xs = newest c lo hi"

lemma newest_key:
  fixes k :: nat
  assumes "lo \<le> k" "k < hi"
  shows "\<exists>i \<in> newest c lo hi. c i = c k"
  using assms
proof (induction "hi - k" arbitrary: k rule: less_induct)
  case less
  show ?case
  proof (cases "\<exists>j. k < j \<and> j < hi \<and> c j = c k")
    case True
    then obtain j where j: "k < j" "j < hi" "c j = c k" by blast
    with less.hyps[of j] less.prems show ?thesis by simp
  next
    case False
    with less.prems have "k \<in> newest c lo hi" by (auto simp: newest_def)
    then show ?thesis by blast
  qed
qed

lemma newest_keys: "c i \<in> c ` newest c lo hi \<longleftrightarrow> (\<exists>j. lo \<le> j \<and> j < hi \<and> c j = c i)"
proof
  show "\<exists>j. lo \<le> j \<and> j < hi \<and> c j = c i" if "c i \<in> c ` newest c lo hi"
    using that by (force simp: newest_def)
  show "c i \<in> c ` newest c lo hi" if "\<exists>j. lo \<le> j \<and> j < hi \<and> c j = c i"
    using that newest_key[of lo _ hi c] by (metis imageI)
qed

lemma newest_join:
  assumes "lo \<le> mid" "mid \<le> hi"
  shows "newest c lo hi = newest c mid hi \<union> {i \<in> newest c lo mid. c i \<notin> c ` newest c mid hi}"
proof (rule set_eqI)
  fix i
  show "i \<in> newest c lo hi \<longleftrightarrow> i \<in> newest c mid hi \<union> {i \<in> newest c lo mid. c i \<notin> c ` newest c mid hi}"
  proof (cases "i < mid")
    case True
    then have "i \<notin> newest c mid hi" by (simp add: newest_def)
    moreover have "i \<in> newest c lo hi \<longleftrightarrow> i \<in> newest c lo mid \<and> \<not> (\<exists>j. mid \<le> j \<and> j < hi \<and> c j = c i)"
      using True assms by (auto simp: newest_def)
    ultimately show ?thesis by (simp add: newest_keys)
  next
    case False
    then have "i \<notin> newest c lo mid" by (simp add: newest_def)
    with False assms show ?thesis by (auto simp: newest_def)
  qed
qed

lemma walMerge_newest:
  assumes "sorted_newest c lo mid L" "sorted_newest c mid hi R" "lo \<le> mid" "mid \<le> hi"
  shows "sorted_newest c lo hi (walMerge c L R)"
  using walMerge_spec[of c L R] assms newest_join[OF assms(3,4), of c] by (auto simp: sorted_newest_def)

lemma newest_single: "sorted_newest c i (Suc i) [i]"
  by (auto simp: sorted_newest_def newest_def)

text \<open>
  After \<open>i\<close> elements, each bit of \<open>i\<close> that is set stands for a sublist: bit \<open>b\<close> for the \<open>2 ^ b\<close>
  elements that follow the multiple of \<open>2 ^ (b + 1)\<close> at or below \<open>i\<close>.
\<close>

definition low :: "nat \<Rightarrow> nat \<Rightarrow> nat" where
  "low b i = i div 2 ^ Suc b * 2 ^ Suc b"

definition sublists_ok :: "(nat \<Rightarrow> u32) \<Rightarrow> nat \<Rightarrow> nat list list \<Rightarrow> bool" where
  "sublists_ok c i aSub \<longleftrightarrow> length aSub = 13 \<and>
     (\<forall>b < 13. bit i b \<longrightarrow> sorted_newest c (low b i) (low b i + 2 ^ b) (aSub ! b))"

lemma low_bit: "bit i b \<Longrightarrow> i div 2 ^ b * 2 ^ b = low b i + 2 ^ b"
proof -
  assume "bit i b"
  then have "odd (i div 2 ^ b)" by (simp add: bit_iff_odd)
  then have "i div 2 ^ b = 2 * (i div 2 ^ b div 2) + 1" by simp
  also have "i div 2 ^ b div 2 = i div 2 ^ Suc b" by (simp add: div_mult2_eq[symmetric] mult.commute)
  finally have "i div 2 ^ b * 2 ^ b = (2 * (i div 2 ^ Suc b) + 1) * 2 ^ b" by simp
  then show ?thesis by (simp add: low_def algebra_simps)
qed

lemma low_no_bit: "\<not> bit i b \<Longrightarrow> i div 2 ^ b * 2 ^ b = low b i"
proof -
  assume "\<not> bit i b"
  then have "even (i div 2 ^ b)" by (simp add: bit_iff_odd)
  then have "i div 2 ^ b = 2 * (i div 2 ^ b div 2)" by simp
  also have "i div 2 ^ b div 2 = i div 2 ^ Suc b" by (simp add: div_mult2_eq[symmetric] mult.commute)
  finally have "i div 2 ^ b * 2 ^ b = (2 * (i div 2 ^ Suc b)) * 2 ^ b" by simp
  then show ?thesis by (simp add: low_def algebra_simps)
qed

lemma all_ones_step:
  assumes "i mod 2 ^ s = 2 ^ s - 1" "bit i s"
  shows "low s i + 2 ^ s = i + 1 - 2 ^ s" "low s i = i + 1 - 2 ^ Suc s" "i mod 2 ^ Suc s = 2 ^ Suc s - (1::nat)"
proof -
  have p: "0 < (2::nat) ^ s" by simp
  have d: "i div 2 ^ s * 2 ^ s + i mod 2 ^ s = i" "low s i + i mod 2 ^ Suc s = i" unfolding low_def by (rule div_mult_mod_eq)+
  show 1: "low s i + 2 ^ s = i + 1 - 2 ^ s" using d(1) low_bit[OF assms(2)] assms(1) p by linarith
  then show "low s i = i + 1 - 2 ^ Suc s" by simp
  then show "i mod 2 ^ Suc s = 2 ^ Suc s - 1" using 1 d(2) p bit_bound[OF assms(2)] by simp
qed

lemma counter_step:
  assumes "i mod 2 ^ s = 2 ^ s - 1" "\<not> bit i s"
  shows "(i + 1) div 2 ^ Suc s = i div 2 ^ Suc s" "b < s \<Longrightarrow> \<not> bit (i + 1) b" "bit (i + 1) s" "low s (i + 1) = i + 1 - 2 ^ s"
proof -
  define q where "q = i div 2 ^ Suc s"
  have p: "0 < (2::nat) ^ s" by simp
  have "i div 2 ^ s * 2 ^ s + i mod 2 ^ s = i" by (rule div_mult_mod_eq)
  then have i: "i + 1 = q * 2 ^ Suc s + 2 ^ s" using assms(1) low_no_bit[OF assms(2)] p unfolding low_def q_def by linarith
  then show d: "(i + 1) div 2 ^ Suc s = i div 2 ^ Suc s" unfolding q_def[symmetric] i by simp
  show "low s (i + 1) = i + 1 - 2 ^ s" unfolding low_def d q_def[symmetric] using i by simp
  have i2: "i + 1 = 2 ^ s * (2 * q + 1)" using i by (simp add: algebra_simps)
  show "bit (i + 1) s" unfolding i2 bit_iff_odd by simp
  show "\<not> bit (i + 1) b" if "b < s"
  proof -
    from that obtain k where "s = Suc (b + k)" by (metis less_iff_Suc_add)
    then have "i + 1 = 2 ^ b * (2 * (2 ^ k * (2 * q + 1)))" unfolding i2 by (simp add: power_add algebra_simps)
    then show ?thesis unfolding bit_iff_odd by (metis dvd_triv_left nonzero_mult_div_cancel_left power_not_zero zero_neq_numeral)
  qed
qed

lemma same_above:
  fixes i j :: nat
  assumes "j div 2 ^ Suc s = i div 2 ^ Suc s" "s < b"
  shows "j div 2 ^ b = i div 2 ^ b"
proof -
  from assms(2) obtain k where "b = Suc (s + k)" by (metis less_iff_Suc_add)
  then have "n div 2 ^ b = n div 2 ^ Suc s div 2 ^ k" for n :: nat
    unfolding div_mult2_eq[symmetric] by (simp add: power_add mult.assoc)
  with assms(1) show ?thesis by simp
qed

lemma merge_carry_ok:
  assumes "sublists_ok c i aSub" "i < 2 ^ 12" "i mod 2 ^ s = 2 ^ s - 1" "sorted_newest c (i + 1 - 2 ^ s) (i + 1) M"
    and "merge_carry c aSub i s M = (s', M')"
  shows "\<not> bit i s' \<and> i mod 2 ^ s' = 2 ^ s' - 1 \<and> sorted_newest c (i + 1 - 2 ^ s') (i + 1) M'"
  using assms
proof (induction c aSub i s M rule: merge_carry.induct)
  case (1 c aSub i s M)
  show ?case
  proof (cases "bit i s")
    case True
    have "(2::nat) ^ s < 2 ^ 12" using bit_bound[OF True] 1(3) by simp
    then have "s < 12" by (rule power_less_imp_less_exp[rotated]) simp
    then have "s < 13" by simp
    then have "sorted_newest c (low s i) (low s i + 2 ^ s) (aSub ! s)" using 1(2) True by (simp add: sublists_ok_def)
    note a = all_ones_step[OF 1(4) True]
    have "sorted_newest c (low s i) (i + 1) (walMerge c (aSub ! s) M)"
      using \<open>sorted_newest c (low s i) _ _\<close> 1(5) unfolding a(1)[symmetric]
      by (rule walMerge_newest) (use a in linarith)+
    from 1(1)[OF True 1(2,3), unfolded Suc_eq_plus1[symmetric], OF a(3) this[unfolded a(2) Suc_eq_plus1[symmetric]]] 1(6) True show ?thesis
      by (simp add: merge_carry.simps[of c aSub i s M])
  next
    case False
    with 1 show ?thesis by (simp add: merge_carry.simps[of c aSub i s M])
  qed
qed

lemma sublists_ok_Suc:
  assumes ok: "sublists_ok c i aSub" and ones: "i mod 2 ^ s = 2 ^ s - 1" "\<not> bit i s" and M: "sorted_newest c (i + 1 - 2 ^ s) (i + 1) M"
  shows "sublists_ok c (i + 1) (aSub[s := M])"
proof -
  note C = counter_step[OF ones]
  have "sorted_newest c (low b (i + 1)) (low b (i + 1) + 2 ^ b) (aSub[s := M] ! b)" if b: "b < 13" "bit (i + 1) b" for b
  proof (cases b s rule: linorder_cases)
    case less
    with C(2) b(2) show ?thesis by blast
  next
    case equal
    have "2 ^ s \<le> i + 1" using bit_bound[OF C(3)] .
    with equal b(1) M C(4) ok show ?thesis by (simp add: sublists_ok_def)
  next
    case greater
    note d = same_above[OF C(1)]
    have "low b (i + 1) = low b i" using d[of "Suc b"] greater by (simp add: low_def)
    moreover have "bit i b" using b(2) d[OF greater] by (simp add: bit_iff_odd)
    ultimately show ?thesis using ok b(1) greater by (simp add: sublists_ok_def)
  qed
  with ok show ?thesis by (simp add: sublists_ok_def)
qed

lemma sort_loop_ok:
  assumes "sublists_ok c i aSub" "i + k \<le> 2 ^ 12"
    and "0 < i \<longrightarrow> (i - 1) mod 2 ^ s = 2 ^ s - 1 \<and> \<not> bit (i - 1) s \<and> sorted_newest c (i - 2 ^ s) i M" "0 < i + k"
    and "sort_loop c [i ..< i + k] i aSub s M = (aSub', s', M')"
  shows "sublists_ok c (i + k) aSub' \<and> (i + k - 1) mod 2 ^ s' = 2 ^ s' - 1 \<and> \<not> bit (i + k - 1) s' \<and>
    sorted_newest c (i + k - 2 ^ s') (i + k) M'"
  using assms
proof (induction k arbitrary: i aSub s M)
  case (Suc k)
  obtain s1 M1 where m: "merge_carry c aSub i 0 [i] = (s1, M1)" by (cases "merge_carry c aSub i 0 [i]")
  have i: "i < 2 ^ 12" using Suc.prems(2) by simp
  have "sorted_newest c (i + 1 - 2 ^ 0) (i + 1) [i]" using newest_single[of c i] by simp
  from merge_carry_ok[OF Suc.prems(1) i _ this m]
  have r: "\<not> bit i s1" "i mod 2 ^ s1 = 2 ^ s1 - 1" "sorted_newest c (i + 1 - 2 ^ s1) (i + 1) M1" by simp_all
  have "[i ..< i + Suc k] = i # [Suc i ..< Suc i + k]" using upt_conv_Cons[of i "i + Suc k"] by simp
  with Suc.prems(5) m have "sort_loop c [Suc i ..< Suc i + k] (Suc i) (aSub[s1 := M1]) s1 M1 = (aSub', s', M')" by simp
  from Suc.IH[OF _ _ _ _ this] sublists_ok_Suc[OF Suc.prems(1) r(2,1,3)] Suc.prems(2) r show ?case by simp
qed simp

lemma sort_rest_ok:
  assumes ok: "sublists_ok c n aSub" and M: "sorted_newest c (n div 2 ^ s * 2 ^ s) n M" and s: "s + k = 13"
  shows "sorted_newest c (n div 2 ^ 13 * 2 ^ 13) n
    (fold (\<lambda>i aMerge. if bit n i then walMerge c (aSub ! i) aMerge else aMerge) [s ..< 13] M)"
  using M s
proof (induction k arbitrary: s M)
  case (Suc k)
  let ?M = "if bit n s then walMerge c (aSub ! s) M else M"
  have "sorted_newest c (low s n) n ?M"
  proof (cases "bit n s")
    case True
    from Suc.prems have L: "sorted_newest c (low s n) (low s n + 2 ^ s) (aSub ! s)" using ok True by (simp add: sublists_ok_def)
    have "low s n + 2 ^ s \<le> n" unfolding low_bit[OF True, symmetric] by simp
    with walMerge_newest[OF L Suc.prems(1)[unfolded low_bit[OF True]]] True show ?thesis by simp
  next
    case False
    with Suc.prems(1)[unfolded low_no_bit[OF False]] show ?thesis by simp
  qed
  then have "sorted_newest c (n div 2 ^ Suc s * 2 ^ Suc s) n ?M" by (simp only: low_def)
  from Suc.IH[OF this] Suc.prems(2) show ?case using upt_conv_Cons[of s 13] by simp
qed simp

text \<open>The sort keeps the last index of every content, in the order of the contents.\<close>

lemma walMergesort_sorts:
  assumes "0 < n" "n \<le> HASHTABLE_NPAGE"
  shows "sorted_newest c 0 n (walMergesort c [0 ..< n])"
proof -
  obtain aSub s M where l: "sort_loop c [0 ..< n] 0 (replicate 13 []) 0 [] = (aSub, s, M)" by (rule prod_cases3)
  have n: "n \<le> 2 ^ 12" using assms(2) by (simp add: wal_consts)
  have "sublists_ok c 0 (replicate 13 [])" by (simp add: sublists_ok_def)
  from sort_loop_ok[OF this, of n 0 "[]" aSub s M] l n assms(1)
  have r: "sublists_ok c n aSub" "(n - 1) mod 2 ^ s = 2 ^ s - 1" "\<not> bit (n - 1) s" "sorted_newest c (n - 2 ^ s) n M" by simp_all
  note C = counter_step[OF r(2,3)]
  have n1: "n - 1 + 1 = n" using assms(1) by simp
  have "2 ^ s \<le> n" using bit_bound[OF C(3)] n1 by simp
  then have "(2::nat) ^ s \<le> 2 ^ 12" using n by simp
  then have "s \<le> 12" by (rule power_le_imp_le_exp[rotated]) simp
  then have s: "Suc s + (12 - s) = 13" by simp
  have "low s n = n - 2 ^ s" using C(4) by (simp only: n1)
  with r(4) have "sorted_newest c (n div 2 ^ Suc s * 2 ^ Suc s) n M" by (simp only: low_def)
  from sort_rest_ok[OF r(1) this s] n show ?thesis by (simp add: walMergesort_def l)
qed

end
