(* ===== verification/Wal_Iterator.thy ===== *)
theory Wal_Iterator
  imports Wal_Sort
begin

text \<open>
  The iterator of the checkpointer (\<open>walIteratorInit\<close>, \<open>walIteratorNext\<close> in \<open>wal.c\<close>): it visits the
  pages of the log in ascending order, each with the last frame that holds it.
\<close>

subsection \<open>The code\<close>

record WalSegment =
  iNext :: nat
  aIndex :: "nat list"
  segPgno :: "nat \<Rightarrow> u32"
  segZero :: nat

record WalIterator =
  iPrior :: u32
  aSegment :: "WalSegment list"

function seg_skip :: "u32 \<Rightarrow> WalSegment \<Rightarrow> WalSegment" where
  "seg_skip iMin s =
     (if iNext s < length (aIndex s) \<and> segPgno s (aIndex s ! iNext s) \<le> iMin
      then seg_skip iMin (s\<lparr>iNext := iNext s + 1\<rparr>) else s)"
  by pat_completeness auto

termination
  by (relation "measure (\<lambda>(iMin, s). length (aIndex s) - iNext s)") auto

declare seg_skip.simps [simp del]

text \<open>The segments from the last to the first; the smallest page so far and its frame.\<close>

fun iter_scan :: "u32 \<Rightarrow> WalSegment list \<Rightarrow> u32 \<Rightarrow> nat \<Rightarrow> WalSegment list \<times> u32 \<times> nat" where
  "iter_scan iMin [] iRet iFrame = ([], iRet, iFrame)"
| "iter_scan iMin (s # ss) iRet iFrame =
     (let s = seg_skip iMin s;
          iPg = segPgno s (aIndex s ! iNext s);
          (iRet, iFrame) = (if iNext s < length (aIndex s) \<and> iPg < iRet
                            then (iPg, segZero s + aIndex s ! iNext s) else (iRet, iFrame));
          (ss, iRet, iFrame) = iter_scan iMin ss iRet iFrame
      in (s # ss, iRet, iFrame))"

text \<open>Whether there is no further page, the page, its frame and the iterator.\<close>

definition walIteratorNext :: "WalIterator \<Rightarrow> nat \<Rightarrow> bool \<times> u32 \<times> nat \<times> WalIterator" where
  "walIteratorNext p piFrame =
     (let (ss, iRet, piFrame) = iter_scan (iPrior p) (rev (aSegment p)) 0xFFFFFFFF piFrame
      in (iRet = 0xFFFFFFFF, iRet, piFrame, p\<lparr>iPrior := iRet, aSegment := rev ss\<rparr>))"

definition init_segment :: "nat \<Rightarrow> nat \<Rightarrow> nat \<Rightarrow> wi_block \<times> nat \<Rightarrow> WalSegment" where
  "init_segment iLast nSegment i r =
     (case r of (b, iZero) \<Rightarrow>
        let c = (\<lambda>j. aPgno b (Suc j));
            nEntry = (if i + 1 = nSegment then iLast - iZero else hash_cap i)
        in \<lparr>iNext = 0, aIndex = walMergesort c [0 ..< nEntry], segPgno = c, segZero = iZero + 1\<rparr>)"

text \<open>The segments from \<open>i\<close> on, \<open>n\<close> of them.\<close>

fun init_segments :: "wal_shm \<Rightarrow> nat \<Rightarrow> nat \<Rightarrow> nat \<Rightarrow> nat \<Rightarrow> int + WalSegment list" where
  "init_segments shm iLast nSegment i 0 = Inr []"
| "init_segments shm iLast nSegment i (Suc n) =
     (case walHashGet shm i of
        Inl rc \<Rightarrow> Inl rc
      | Inr r \<Rightarrow>
          (case init_segments shm iLast nSegment (i + 1) n of
             Inl rc \<Rightarrow> Inl rc
           | Inr ss \<Rightarrow> Inr (init_segment iLast nSegment i r # ss)))"

definition walIteratorInit :: "os_script \<Rightarrow> wal \<Rightarrow> wal_shm \<Rightarrow> (int + WalIterator) \<times> os_script" where
  "walIteratorInit sc w shm =
     (let iLast = unat (mxFrame (hdr w));
          nSegment = walFramePage iLast + 1;
          (rc, sc) = os_call sc \<comment> \<open>the iterator\<close>
      in if rc \<noteq> SQLITE_OK then (Inl SQLITE_NOMEM, sc)
         else
           let (rc, sc) = os_call sc \<comment> \<open>the buffer\<close>
           in if rc \<noteq> SQLITE_OK then (Inl SQLITE_NOMEM, sc)
              else (case init_segments shm iLast nSegment 0 nSegment of
                      Inl rc \<Rightarrow> (Inl rc, sc)
                    | Inr ss \<Rightarrow> (Inr \<lparr>iPrior = 0, aSegment = ss\<rparr>, sc)))"

subsection \<open>What the iterator stands for\<close>

text \<open>
  A segment for a block whose part of the log is \<open>qs\<close>: the entries before \<open>iNext\<close> have been
  passed, all with pages up to \<open>q\<close>.
\<close>

definition seg_ok :: "u32 list \<Rightarrow> nat \<Rightarrow> u32 \<Rightarrow> WalSegment \<Rightarrow> bool" where
  "seg_ok qs z q s \<longleftrightarrow> segZero s = z + 1 \<and> (\<forall>j < length qs. segPgno s j = qs ! j) \<and>
     sorted_newest (segPgno s) 0 (length qs) (aIndex s) \<and>
     (\<forall>k < iNext s. k < length (aIndex s) \<longrightarrow> segPgno s (aIndex s ! k) \<le> q)"

lemma seg_skip_ok:
  assumes "seg_ok qs z q s" "q \<le> m"
  shows "seg_ok qs z m (seg_skip m s) \<and>
    (iNext (seg_skip m s) < length (aIndex (seg_skip m s)) \<longrightarrow>
       m < segPgno (seg_skip m s) (aIndex (seg_skip m s) ! iNext (seg_skip m s)))"
proof -
  from assms have "seg_ok qs z m s" by (auto simp: seg_ok_def intro: order_trans)
  then show ?thesis
  proof (induction m s rule: seg_skip.induct)
    case (1 m s)
    show ?case
    proof (cases "iNext s < length (aIndex s) \<and> segPgno s (aIndex s ! iNext s) \<le> m")
      case True
      have "seg_ok qs z m (s\<lparr>iNext := iNext s + 1\<rparr>)" using 1(2) True by (auto simp: seg_ok_def less_Suc_eq)
      from 1(1)[OF True this] True show ?thesis by (simp add: seg_skip.simps[of m s])
    next
      case False
      with 1(2) show ?thesis by (auto simp: seg_skip.simps[of m s])
    qed
  qed
qed

text \<open>The entry at which a segment stands: its next page, in the last frame that has it.\<close>

lemma seg_entry:
  assumes ok: "seg_ok qs z q s" and stop: "iNext s < length (aIndex s) \<longrightarrow> q < segPgno s (aIndex s ! iNext s)"
  shows "iNext s < length (aIndex s) \<Longrightarrow> let i = aIndex s ! iNext s in
      i < length qs \<and> segPgno s i = qs ! i \<and> q < qs ! i \<and> (\<forall>j < length qs. q < qs ! j \<longrightarrow> qs ! i \<le> qs ! j) \<and>
      (\<forall>j. i < j \<longrightarrow> j < length qs \<longrightarrow> qs ! j \<noteq> qs ! i)"
    "\<not> iNext s < length (aIndex s) \<Longrightarrow> j < length qs \<Longrightarrow> qs ! j \<le> q"
proof -
  let ?c = "segPgno s" and ?xs = "aIndex s"
  have c: "\<And>j. j < length qs \<Longrightarrow> ?c j = qs ! j" and asc: "sorted_wrt (\<lambda>i j. ?c i < ?c j) ?xs"
    and set: "set ?xs = newest ?c 0 (length qs)"
    and passed: "\<And>k. k < iNext s \<Longrightarrow> k < length ?xs \<Longrightarrow> ?c (?xs ! k) \<le> q"
    using ok by (auto simp: seg_ok_def sorted_newest_def)
  have entry: "\<exists>k < length ?xs. ?c (?xs ! k) = qs ! j" if "j < length qs" for j
    using newest_key[of 0 j "length qs" ?c] that c[OF that] unfolding set[symmetric] by (metis in_set_conv_nth le0)
  show "qs ! j \<le> q" if "\<not> iNext s < length ?xs" "j < length qs"
    using entry[OF that(2)] passed that(1) by (metis not_less order_less_le_trans)
  assume next_ok: "iNext s < length ?xs"
  define i where "i = ?xs ! iNext s"
  have "i \<in> newest ?c 0 (length qs)" unfolding set[symmetric] i_def using next_ok by simp
  then have i: "i < length qs" "\<And>j. i < j \<Longrightarrow> j < length qs \<Longrightarrow> qs ! j \<noteq> qs ! i" by (auto simp: newest_def c)
  have "qs ! i \<le> qs ! j" if j: "j < length qs" "q < qs ! j" for j
  proof -
    from entry[OF j(1)] obtain k where k: "k < length ?xs" "?c (?xs ! k) = qs ! j" by blast
    have "iNext s \<le> k" using passed[of k] k j(2) by (metis leI not_less)
    then have "?c i \<le> ?c (?xs ! k)"
      using sorted_wrt_nth_less[OF asc, of "iNext s" k] k(1) by (cases "iNext s = k") (auto simp: i_def)
    with k(2) c[OF i(1)] show ?thesis by simp
  qed
  then show "let i = aIndex s ! iNext s in
      i < length qs \<and> segPgno s i = qs ! i \<and> q < qs ! i \<and> (\<forall>j < length qs. q < qs ! j \<longrightarrow> qs ! i \<le> qs ! j) \<and>
      (\<forall>j. i < j \<longrightarrow> j < length qs \<longrightarrow> qs ! j \<noteq> qs ! i)"
    using i stop next_ok c[OF i(1)] unfolding i_def[symmetric] Let_def by auto
qed

text \<open>
  The result of the scan of the part of the log from \<open>z\<close> on: the smallest page above \<open>q\<close> and its
  last frame.
\<close>

definition next_page :: "u32 \<Rightarrow> u32 list \<Rightarrow> nat \<Rightarrow> u32 \<Rightarrow> nat \<Rightarrow> bool" where
  "next_page q log z r f \<longleftrightarrow> (\<forall>i. z \<le> i \<longrightarrow> i < length log \<longrightarrow> q < log ! i \<longrightarrow> r \<le> log ! i) \<and>
     (r = 0xFFFFFFFF \<or> q < r \<and> r < 0xFFFFFFFF \<and> z < f \<and> f \<le> length log \<and> log ! (f - 1) = r \<and>
        (\<forall>i. f \<le> i \<longrightarrow> i < length log \<longrightarrow> log ! i \<noteq> r))"

lemma below_max: "x \<noteq> 0xFFFFFFFF \<Longrightarrow> x < (0xFFFFFFFF :: u32)"
  using unat_lt2p_aux[of x] by (auto simp: word_less_nat_alt word_unat_eq_iff)

lemma next_page_step:
  assumes nx: "next_page q log (hash_zero (Suc h)) r f" and top: "0xFFFFFFFF \<notin> set log"
    and ok: "seg_ok (chunk h log) (hash_zero h) q s" and stop: "iNext s < length (aIndex s) \<longrightarrow> q < segPgno s (aIndex s ! iNext s)"
    and r': "(r', f') = (if iNext s < length (aIndex s) \<and> segPgno s (aIndex s ! iNext s) < r
      then (segPgno s (aIndex s ! iNext s), segZero s + aIndex s ! iNext s) else (r, f))"
  shows "next_page q log (hash_zero h) r' f'"
proof -
  let ?z = "hash_zero h" and ?qs = "chunk h log"
  have split: "j < length ?qs \<and> i = ?z + j \<and> log ! i = ?qs ! j" if "?z \<le> i" "i < length log" "i < hash_zero (Suc h)" "j = i - ?z" for i j
  proof -
    from that have j: "j < length ?qs" by (auto simp: length_chunk hash_zero_Suc)
    from chunk_nth[OF j] that j show ?thesis by simp
  qed
  have inside: "?z + j < length log" "log ! (?z + j) = ?qs ! j" if "j < length ?qs" for j
    using that chunk_nth[OF that] by (auto simp: length_chunk)
  show ?thesis
  proof (cases "iNext s < length (aIndex s)")
    case False
    have "\<not> q < log ! i" if "?z \<le> i" "i < length log" "i < hash_zero (Suc h)" for i
      using seg_entry(2)[OF ok stop False, of "i - ?z"] split[OF that refl] by auto
    with False r' nx show ?thesis unfolding next_page_def by (auto simp: hash_zero_Suc) (metis leI)+
  next
    case True
    define i where "i = aIndex s ! iNext s"
    from seg_entry(1)[OF ok stop True] have e: "i < length ?qs" "segPgno s i = ?qs ! i" "q < ?qs ! i"
      "\<And>j. j < length ?qs \<Longrightarrow> q < ?qs ! j \<Longrightarrow> ?qs ! i \<le> ?qs ! j" "\<And>j. i < j \<Longrightarrow> j < length ?qs \<Longrightarrow> ?qs ! j \<noteq> ?qs ! i"
      by (auto simp: i_def Let_def)
    have z: "segZero s = ?z + 1" using ok by (simp add: seg_ok_def)
    have min: "min r (?qs ! i) \<le> log ! k" if k: "?z \<le> k" "k < length log" "q < log ! k" for k
    proof (cases "k < hash_zero (Suc h)")
      case True
      with split[OF k(1,2) True refl] e(4)[of "k - ?z"] k(3) show ?thesis by (auto simp: min_le_iff_disj)
    next
      case False
      with nx k show ?thesis by (auto simp: next_page_def min_le_iff_disj)
    qed
    show ?thesis
    proof (cases "?qs ! i < r")
      case less: True
      then have r: "r' = ?qs ! i" "f' = ?z + 1 + i" using r' True by (simp_all add: i_def[symmetric] e(2) z)
      have "log ! k \<noteq> ?qs ! i" if k: "f' \<le> k" "k < length log" for k
      proof (cases "k < hash_zero (Suc h)")
        case True
        with split[OF _ k(2) True refl] e(5)[of "k - ?z"] k(1) r(2) show ?thesis by auto
      next
        case False
        with nx k(2) less e(3) show ?thesis unfolding next_page_def by (metis leD leI)
      qed
      moreover have "?qs ! i < 0xFFFFFFFF"
        using inside[OF e(1)] top by (metis below_max nth_mem)
      moreover have "?qs ! i \<le> log ! k" if "?z \<le> k" "k < length log" "q < log ! k" for k
        using min[OF that] unfolding min_absorb2[OF less_imp_le[OF less]] .
      ultimately show ?thesis using e(3) inside[OF e(1)] r unfolding next_page_def by auto
    next
      case False
      then have r: "r' = r" "f' = f" using r' by (simp_all add: i_def[symmetric] e(2))
      have "r \<le> log ! k" if "?z \<le> k" "k < length log" "q < log ! k" for k
        using min[OF that] False by (simp add: min_absorb1 not_less)
      with nx r show ?thesis unfolding next_page_def by (auto simp: hash_zero_Suc)
    qed
  qed
qed

lemma iter_scan_ok:
  assumes top: "0xFFFFFFFF \<notin> set log" and segs: "\<forall>h < length ss. seg_ok (chunk h log) (hash_zero h) q (ss ! h)"
    and nx: "next_page q log (hash_zero (length ss)) r f"
    and run: "iter_scan q (rev ss) r f = (ss', r', f')"
  shows "length ss' = length ss \<and> (\<forall>h < length ss. seg_ok (chunk h log) (hash_zero h) q (rev ss' ! h)) \<and> next_page q log 0 r' f'"
  using segs nx run
proof (induction ss arbitrary: r f ss' rule: rev_induct)
  case Nil
  then show ?case by (simp add: hash_zero_def)
next
  case (snoc s ss)
  define s1 where "s1 = seg_skip q s"
  define r1f1 where "r1f1 = (if iNext s1 < length (aIndex s1) \<and> segPgno s1 (aIndex s1 ! iNext s1) < r
    then (segPgno s1 (aIndex s1 ! iNext s1), segZero s1 + aIndex s1 ! iNext s1) else (r, f))"
  obtain r1 f1 where r1: "r1f1 = (r1, f1)" by (cases r1f1)
  have "seg_ok (chunk (length ss) log) (hash_zero (length ss)) q s" using snoc.prems(1) by (metis length_append_singleton lessI nth_append_length)
  from seg_skip_ok[OF this order.refl]
  have s1: "seg_ok (chunk (length ss) log) (hash_zero (length ss)) q s1"
    "iNext s1 < length (aIndex s1) \<longrightarrow> q < segPgno s1 (aIndex s1 ! iNext s1)" by (simp_all add: s1_def)
  have "next_page q log (hash_zero (Suc (length ss))) r f" using snoc.prems(2) by simp
  note nx1 = next_page_step[OF this top s1 r1[symmetric, unfolded r1f1_def]]
  obtain ss2 r2 f2 where rest: "iter_scan q (rev ss) r1 f1 = (ss2, r2, f2)" by (rule prod_cases3)
  have out: "ss' = s1 # ss2" "r' = r2" "f' = f2"
    using snoc.prems(3) rest r1 unfolding r1f1_def by (auto simp: s1_def[symmetric] Let_def split: if_splits)
  have "\<forall>h < length ss. seg_ok (chunk h log) (hash_zero h) q (ss ! h)"
    using snoc.prems(1) by (metis length_append_singleton less_SucI nth_append)
  from snoc.IH[OF this nx1] rest have IH: "length ss2 = length ss" "\<forall>h < length ss. seg_ok (chunk h log) (hash_zero h) q (rev ss2 ! h)"
    "next_page q log 0 r' f'" by (simp_all add: out)
  then show ?case using s1(1) by (auto simp: out nth_append less_Suc_eq)
qed

subsection \<open>The iterator and the log\<close>

text \<open>An iterator over the log: all segments stand at pages above the last one returned.\<close>

definition iter_ok :: "u32 list \<Rightarrow> WalIterator \<Rightarrow> bool" where
  "iter_ok log it \<longleftrightarrow> length (aSegment it) = walFramePage (length log) + 1 \<and>
     (\<forall>h < length (aSegment it). seg_ok (chunk h log) (hash_zero h) (iPrior it) (aSegment it ! h))"

lemma seg_ok_mono: "seg_ok qs z q s \<Longrightarrow> q \<le> q' \<Longrightarrow> seg_ok qs z q' s"
  by (auto simp: seg_ok_def intro: order_trans)

lemma log_end: "log \<noteq> [] \<Longrightarrow> length log \<le> hash_zero (walFramePage (length log) + 1)"
  using frame_in_page(2)[of "length log"] by (simp add: hash_zero_Suc)

lemma walIteratorNext_ok:
  assumes ok: "iter_ok log it" and top: "0xFFFFFFFF \<notin> set log" and log: "log \<noteq> []"
    and run: "walIteratorNext it f\<^sub>0 = (eof, p, f, it')"
  shows "iter_ok log it' \<and> iPrior it' = p \<and>
    (if eof then \<forall>x \<in> set log. x \<le> iPrior it
     else iPrior it < p \<and> p < 0xFFFFFFFF \<and> 0 < f \<and> f \<le> length log \<and> f = log_lookup log 1 p \<and>
       (\<forall>x \<in> set log. iPrior it < x \<longrightarrow> p \<le> x))"
proof -
  let ?q = "iPrior it" and ?n = "walFramePage (length log) + 1"
  have len: "length (aSegment it) = ?n" and segs: "\<forall>h < length (aSegment it). seg_ok (chunk h log) (hash_zero h) ?q (aSegment it ! h)"
    using ok by (simp_all add: iter_ok_def)
  obtain ss where sc: "iter_scan ?q (rev (aSegment it)) 0xFFFFFFFF f\<^sub>0 = (ss, p, f)"
    and out: "eof \<longleftrightarrow> p = 0xFFFFFFFF" "it' = it\<lparr>iPrior := p, aSegment := rev ss\<rparr>"
    using run by (auto simp: walIteratorNext_def Let_def split: prod.splits)
  have "next_page ?q log (hash_zero (length (aSegment it))) 0xFFFFFFFF f\<^sub>0"
    using log_end[OF log] by (auto simp: next_page_def len)
  from iter_scan_ok[OF top segs this sc] have r: "length ss = ?n"
    "\<forall>h < ?n. seg_ok (chunk h log) (hash_zero h) ?q (rev ss ! h)" "next_page ?q log 0 p f" by (simp_all add: len)
  have least: "p \<le> x" if "x \<in> set log" "?q < x" for x
    using r(3) that by (auto simp: next_page_def in_set_conv_nth)
  have "?q \<le> p"
  proof (cases "p = 0xFFFFFFFF")
    case True
    have "x \<le> 0xFFFFFFFF" for x :: u32 using below_max[of x] by (cases "x = 0xFFFFFFFF") auto
    with True show ?thesis by simp
  next
    case False
    with r(3) show ?thesis by (auto simp: next_page_def)
  qed
  then have it': "iter_ok log it'" using r(1,2) by (auto simp: out iter_ok_def intro: seg_ok_mono)
  show ?thesis
  proof (cases eof)
    case True
    then have p: "p = 0xFFFFFFFF" using out(1) by simp
    have "\<not> ?q < x" if "x \<in> set log" for x
      using least[OF that] top that below_max[of x] by (metis leD p)
    with True it' show ?thesis by (auto simp: out not_less)
  next
    case False
    then have f: "?q < p" "p < 0xFFFFFFFF" "0 < f" "f \<le> length log" "log ! (f - 1) = p" "\<forall>i. f \<le> i \<longrightarrow> i < length log \<longrightarrow> log ! i \<noteq> p"
      using r(3) out(1) by (auto simp: next_page_def)
    have "log_lookup log 1 p = f"
      unfolding log_lookup_def using f by (intro latest_unique) auto
    with False f it' least show ?thesis by (simp add: out)
  qed
qed

lemma block_entries:
  assumes "log \<noteq> []" "h \<le> walFramePage (length log)"
  shows "(if h + 1 = walFramePage (length log) + 1 then length log - hash_zero h else hash_cap h) = length (chunk h log)"
    "0 < length (chunk h log)" "length (chunk h log) \<le> HASHTABLE_NPAGE"
proof -
  let ?n = "walFramePage (length log)"
  have last: "hash_zero ?n < length log" "length log \<le> hash_zero ?n + hash_cap ?n" using frame_in_page[of "length log"] assms(1) by auto
  have before: "hash_zero (Suc h) \<le> length log" if "h < ?n"
    using hash_zero_mono[of "Suc h" ?n] that last(1) by simp
  show "(if h + 1 = ?n + 1 then length log - hash_zero h else hash_cap h) = length (chunk h log)"
    using assms(2) before last by (auto simp: length_chunk hash_zero_Suc)
  show "0 < length (chunk h log)"
    using assms(2) before last hash_cap_bounds(1)[of h] by (cases "h = ?n") (auto simp: length_chunk hash_zero_Suc)
  show "length (chunk h log) \<le> HASHTABLE_NPAGE" by (auto simp: length_chunk hash_cap_def wal_consts)
qed

lemma init_segment_ok:
  assumes idx: "index_ok shm log" and log: "log \<noteq> []" and h: "h \<le> walFramePage (length log)"
  shows "seg_ok (chunk h log) (hash_zero h) q
    (init_segment (length log) (walFramePage (length log) + 1) h (blocks shm h, hash_zero h))"
proof -
  obtain g where "block_ok h (blocks shm h) (chunk h log @ g)" using idx log h by (auto simp: index_ok_def)
  then have "aPgno (blocks shm h) (Suc j) = chunk h log ! j" if "j < length (chunk h log)" for j
    using block_okD(4)[of h "blocks shm h" "chunk h log @ g" j] that by (simp add: nth_append)
  moreover note e = block_entries[OF log h]
  moreover note walMergesort_sorts[OF e(2,3), of "\<lambda>j. aPgno (blocks shm h) (Suc j)"]
  ultimately show ?thesis unfolding init_segment_def prod.case Let_def e(1) by (simp add: seg_ok_def)
qed

lemma init_segments_ok:
  assumes idx: "index_ok shm log" and log: "log \<noteq> []" and n: "i + n \<le> walFramePage (length log) + 1"
    and run: "init_segments shm (length log) (walFramePage (length log) + 1) i n = Inr ss"
  shows "length ss = n \<and> (\<forall>k < n. seg_ok (chunk (i + k) log) (hash_zero (i + k)) q (ss ! k))"
  using n run
proof (induction n arbitrary: i ss)
  case (Suc n)
  let ?s = "init_segment (length log) (walFramePage (length log) + 1) i (blocks shm i, hash_zero i)"
  from Suc.prems(2) obtain ss1 where rest: "init_segments shm (length log) (walFramePage (length log) + 1) (Suc i) n = Inr ss1"
    and ss: "ss = ?s # ss1" by (auto simp: walHashGet_def split: sum.splits if_splits)
  from Suc.IH[OF _ rest] Suc.prems(1) have IH: "length ss1 = n"
    "\<forall>k < n. seg_ok (chunk (Suc i + k) log) (hash_zero (Suc i + k)) q (ss1 ! k)" by simp_all
  have "seg_ok (chunk i log) (hash_zero i) q ?s" using Suc.prems(1) by (intro init_segment_ok[OF idx log]) simp
  with IH show ?case by (auto simp: ss nth_Cons split: nat.split)
qed simp

lemma init_segments_total:
  "\<forall>h. mapRc shm h = SQLITE_OK \<Longrightarrow> \<exists>ss. init_segments shm iLast k i n = Inr ss"
  by (induction n arbitrary: i) (simp_all add: walHashGet_def, metis sum.simps(6))

lemma walIteratorInit_ok:
  assumes idx: "index_ok shm log" and log: "log \<noteq> []" and mx: "unat (mxFrame (hdr w)) = length log"
    and run: "walIteratorInit sc w shm = (Inr it, sc')"
  shows "iter_ok log it" "iPrior it = 0"
proof -
  from run obtain ss where ss: "init_segments shm (length log) (walFramePage (length log) + 1) 0 (walFramePage (length log) + 1) = Inr ss"
    "it = \<lparr>iPrior = 0, aSegment = ss\<rparr>"
    by (auto simp: walIteratorInit_def mx Let_def split: prod.splits if_splits sum.splits)
  from init_segments_ok[OF idx log _ ss(1), of 0] show "iter_ok log it" "iPrior it = 0" by (simp_all add: ss(2) iter_ok_def)
qed

end
