(* ===== verification/Wal_Checkpoint.thy ===== *)
theory Wal_Checkpoint
  imports Wal_Iterator Wal_Atomic
begin

text \<open>
  Checkpoints (\<open>walCheckpoint\<close>, \<open>sqlite3WalCheckpoint\<close> in \<open>wal.c\<close>): the pages of the log are
  copied into the database file, as far as no reader may still need the old ones. The busy
  handler is the list of its answers (no handler at all is \<open>None\<close>); it answers no after them.
\<close>

abbreviation (input) SQLITE_READONLY :: int where "SQLITE_READONLY \<equiv> 8"
abbreviation (input) SQLITE_CHECKPOINT_PASSIVE :: nat where "SQLITE_CHECKPOINT_PASSIVE \<equiv> 0"
abbreviation (input) SQLITE_CHECKPOINT_FULL :: nat where "SQLITE_CHECKPOINT_FULL \<equiv> 1"
abbreviation (input) SQLITE_CHECKPOINT_RESTART :: nat where "SQLITE_CHECKPOINT_RESTART \<equiv> 2"
abbreviation (input) SQLITE_CHECKPOINT_TRUNCATE :: nat where "SQLITE_CHECKPOINT_TRUNCATE \<equiv> 3"

type_synonym busy = "bool list option"

fun walBusyLock :: "os_script \<Rightarrow> busy \<Rightarrow> int \<times> os_script \<times> busy" where
  "walBusyLock sc (Some (again # xBusy)) =
     (case os_call sc of (rc, sc) \<Rightarrow>
        if rc = SQLITE_BUSY then (if again then walBusyLock sc (Some xBusy) else (rc, sc, Some xBusy))
        else (rc, sc, Some (again # xBusy)))"
| "walBusyLock sc xBusy = (case os_call sc of (rc, sc) \<Rightarrow> (rc, sc, xBusy))"

subsection \<open>The last frame that may be copied\<close>

text \<open>
  The read marks from \<open>i\<close> on, \<open>n\<close> of them. A mark below the frame is withdrawn when its lock is
  granted; a reader that holds it lowers the frame.
\<close>

fun safe_frame :: "os_script \<Rightarrow> busy \<Rightarrow> nat list \<Rightarrow> nat \<Rightarrow> nat \<Rightarrow> nat \<Rightarrow> int \<Rightarrow> int \<times> nat list \<times> nat \<times> os_script \<times> busy" where
  "safe_frame sc xBusy marks i 0 mxSafeFrame rc = (rc, marks, mxSafeFrame, sc, xBusy)"
| "safe_frame sc xBusy marks i (Suc n) mxSafeFrame rc =
     (let y = marks ! i in
      if mxSafeFrame > y then
        let (rc, sc, xBusy) = walBusyLock sc xBusy in
        if rc = SQLITE_OK then
          safe_frame sc xBusy (marks[i := (if i = 1 then mxSafeFrame else READMARK_NOT_USED)]) (i + 1) n mxSafeFrame rc
        else if rc = SQLITE_BUSY then safe_frame sc None marks (i + 1) n y rc
        else (rc, marks, mxSafeFrame, sc, xBusy)
      else safe_frame sc xBusy marks (i + 1) n mxSafeFrame rc)"

subsection \<open>Copying\<close>

lemma seg_skip_above:
  "iNext (seg_skip q s) < length (aIndex (seg_skip q s)) \<Longrightarrow>
   q < segPgno (seg_skip q s) (aIndex (seg_skip q s) ! iNext (seg_skip q s))"
proof (induction q s rule: seg_skip.induct)
  case (1 q s)
  show ?case
  proof (cases "iNext s < length (aIndex s) \<and> segPgno s (aIndex s ! iNext s) \<le> q")
    case True
    with 1 show ?thesis by (simp add: seg_skip.simps[of q s])
  next
    case False
    with 1(2) show ?thesis by (auto simp: seg_skip.simps[of q s])
  qed
qed

lemma iter_scan_above: "iter_scan q ss r f = (ss', r', f') \<Longrightarrow> r' = r \<or> q < r'"
proof (induction ss arbitrary: r f ss')
  case (Cons s ss)
  then show ?case using seg_skip_above[of q s] by (auto simp: Let_def split: if_splits prod.splits)
qed simp

lemma next_above: "walIteratorNext it f = (False, p, f', it') \<Longrightarrow> iPrior it < p \<and> iPrior it' = p"
  using iter_scan_above[of "iPrior it" "rev (aSegment it)" "0xFFFFFFFF" f]
  by (auto simp: walIteratorNext_def Let_def split: prod.splits)

lemma prior_decreases:
  assumes "(False, p, f', it') = walIteratorNext it f"
  shows "2 ^ 32 - unat (iPrior it') < 2 ^ 32 - unat (iPrior it)"
proof -
  have "unat (iPrior it) < unat p" "iPrior it' = p"
    using next_above[OF assms[symmetric]] by (simp_all add: word_less_nat_alt)
  moreover have "unat p < 2 ^ 32" using unat_lt2p_aux[of p] by simp
  ultimately show ?thesis by (metis diff_less_mono2 less_trans)
qed

text \<open>
  The loop over the pages of the log. Frames that are in the database already, that a reader
  protects, or that lie beyond the end of the database are left out.
\<close>

function copy_loop ::
  "os_script \<Rightarrow> WalIterator \<Rightarrow> nat \<Rightarrow> nat \<Rightarrow> nat \<Rightarrow> u32 \<Rightarrow> nat \<Rightarrow> u8 list \<Rightarrow> u8 list \<Rightarrow> int \<times> u8 list \<times> os_script" where
  "copy_loop sc it iFrame nBf mxSafeFrame mxPage sz log db =
     (case walIteratorNext it iFrame of (eof, iDbpage, iFrame, it') \<Rightarrow>
        if eof then (SQLITE_OK, db, sc)
        else if iFrame \<le> nBf \<or> mxSafeFrame < iFrame \<or> mxPage < iDbpage
        then copy_loop sc it' iFrame nBf mxSafeFrame mxPage sz log db
        else
          let (rc, zBuf, sc) = os_read sc log (walFrameOffset iFrame sz + WAL_FRAME_HDRSIZE) sz in
          if rc \<noteq> SQLITE_OK then (rc, db, sc)
          else
            let (rc, db, sc) = os_write sc db ((unat iDbpage - 1) * sz) zBuf in
            if rc \<noteq> SQLITE_OK then (rc, db, sc) else copy_loop sc it' iFrame nBf mxSafeFrame mxPage sz log db)"
  by pat_completeness auto

termination
  by (relation "measure (\<lambda>(sc, it, rest). 2 ^ 32 - unat (iPrior it))") (auto dest: prior_decreases)

declare copy_loop.simps [simp del]

text \<open>
  With the lock on the database taken: the copy, and when all of the log is copied, the size of
  the database. Hints about the size to come have no effect on the content of the file.
\<close>

definition ckpt_backfill ::
  "os_script \<Rightarrow> WalIterator \<Rightarrow> nat \<Rightarrow> nat \<Rightarrow> nat \<Rightarrow> wal \<Rightarrow> wal_shm \<Rightarrow> u8 list \<Rightarrow> u8 list \<Rightarrow>
   int \<times> wal_shm \<times> u8 list \<times> os_script" where
  "ckpt_backfill sc it mxSafeFrame sync_flags sz w shm log db =
     (let nBf = nBackfill (ckptInfo shm);
          shm = shm\<lparr>ckptInfo := (ckptInfo shm)\<lparr>nBackfillAttempted := mxSafeFrame\<rparr>\<rparr>;
          (rc, sc) = (if sync_flags \<noteq> 0 then os_call sc else (SQLITE_OK, sc));
          (rc, sc) = (if rc = SQLITE_OK then os_call sc else (rc, sc)); \<comment> \<open>sqlite3OsFileSize\<close>
          (rc, db, sc) = (if rc = SQLITE_OK then copy_loop sc it 0 nBf mxSafeFrame (nPage (hdr w)) sz log db else (rc, db, sc))
      in if rc \<noteq> SQLITE_OK then (rc, shm, db, sc)
         else
           let (rc, db, sc) =
                 (if mxSafeFrame = unat (mxFrame (aHdr0 shm)) then
                    let (rc, db, sc) = os_truncate sc db (unat (nPage (hdr w)) * sz) in
                    if rc = SQLITE_OK \<and> sync_flags \<noteq> 0 then (case os_call sc of (rc, sc) \<Rightarrow> (rc, db, sc)) else (rc, db, sc)
                  else (SQLITE_OK, db, sc))
           in (rc, if rc = SQLITE_OK then shm\<lparr>ckptInfo := (ckptInfo shm)\<lparr>nBackfill := mxSafeFrame\<rparr>\<rparr> else shm, db, sc))"

text \<open>The part of \<open>walCheckpoint\<close> for a log with frames to copy; the flag is the jump to the exit.\<close>

definition ckpt_copy ::
  "os_script \<Rightarrow> busy \<Rightarrow> nat \<Rightarrow> wal \<Rightarrow> wal_shm \<Rightarrow> u8 list \<Rightarrow> u8 list \<Rightarrow>
   bool \<times> int \<times> wal_shm \<times> u8 list \<times> os_script \<times> busy" where
  "ckpt_copy sc xBusy sync_flags w shm log db =
     (let sz = page_size32 (hdrSzPage (hdr w)) in
      case walIteratorInit sc w shm of
        (Inl rc, sc) \<Rightarrow> (True, rc, shm, db, sc, xBusy)
      | (Inr it, sc) \<Rightarrow>
          let (rc, marks, mxSafeFrame, sc, xBusy) =
                safe_frame sc xBusy (aReadMark (ckptInfo shm)) 1 (WAL_NREADER - 1) (unat (mxFrame (hdr w))) SQLITE_OK;
              shm = set_marks shm marks
          in if rc \<noteq> SQLITE_OK \<and> rc \<noteq> SQLITE_BUSY then (True, rc, shm, db, sc, xBusy)
             else
               let (rc, shm, db, sc, xBusy) =
                     (if nBackfill (ckptInfo shm) < mxSafeFrame then
                        let (rc, sc, xBusy) = walBusyLock sc xBusy in
                        if rc = SQLITE_OK
                        then (case ckpt_backfill sc it mxSafeFrame sync_flags sz w shm log db of
                                (rc, shm, db, sc) \<Rightarrow> (rc, shm, db, sc, xBusy))
                        else (rc, shm, db, sc, xBusy)
                      else (rc, shm, db, sc, xBusy))
               in (False, if rc = SQLITE_BUSY then SQLITE_OK else rc, shm, db, sc, xBusy))"

definition walCheckpoint ::
  "bool \<Rightarrow> u8 list \<Rightarrow> os_script \<Rightarrow> nat \<Rightarrow> busy \<Rightarrow> nat \<Rightarrow> wal \<Rightarrow> wal_shm \<Rightarrow> u8 list \<Rightarrow> u8 list \<Rightarrow>
   int \<times> wal \<times> wal_shm \<times> u8 list \<times> u8 list \<times> os_script" where
  "walCheckpoint be salt4 sc eMode xBusy sync_flags w shm log db =
     (let (out, rc, shm, db, sc, xBusy) =
            (if nBackfill (ckptInfo shm) < unat (mxFrame (hdr w)) then ckpt_copy sc xBusy sync_flags w shm log db
             else (False, SQLITE_OK, shm, db, sc, xBusy))
      in if out \<or> rc \<noteq> SQLITE_OK \<or> eMode = SQLITE_CHECKPOINT_PASSIVE then (rc, w, shm, log, db, sc)
         else if nBackfill (ckptInfo shm) < unat (mxFrame (hdr w)) then (SQLITE_BUSY, w, shm, log, db, sc)
         else if eMode \<ge> SQLITE_CHECKPOINT_RESTART then
           let (rc, sc, xBusy) = walBusyLock sc xBusy in
           if rc = SQLITE_OK \<and> eMode = SQLITE_CHECKPOINT_TRUNCATE then
             (case walRestartHdr be salt4 w shm of (w, shm) \<Rightarrow>
                case os_truncate sc log 0 of (rc, log, sc) \<Rightarrow> (rc, w, shm, log, db, sc))
           else (rc, w, shm, log, db, sc)
         else (rc, w, shm, log, db, sc))"

subsection \<open>The whole operation\<close>

text \<open>Whether \<open>walIndexReadHdr\<close> has set its flag: the header is a new one, or recovery ran.\<close>

definition header_changed :: "bool \<Rightarrow> os_script \<Rightarrow> wal \<Rightarrow> wal_shm \<Rightarrow> wal \<Rightarrow> bool" where
  "header_changed be sc w shm w' \<longleftrightarrow> hdr w' \<noteq> hdr w \<or>
     mapRc shm 0 = SQLITE_OK \<and> fst (walIndexTryHdr be w shm) \<and> fst (os_call sc) = SQLITE_OK \<and> \<not> shmReadOnly w"

text \<open>With the checkpoint lock taken: the lock on the log, the header, the checkpoint.\<close>

definition ckpt_locked ::
  "bool \<Rightarrow> u8 list \<Rightarrow> os_script \<Rightarrow> os_script \<Rightarrow> nat \<Rightarrow> busy \<Rightarrow> nat \<Rightarrow> nat \<Rightarrow> wal \<Rightarrow> wal_shm \<Rightarrow> u8 list \<Rightarrow> u8 list \<Rightarrow>
   nat \<times> (int \<times> wal \<times> wal_shm \<times> u8 list \<times> u8 list \<times> os_script)" where
  "ckpt_locked be salt4 sc rsc eMode xBusy sync_flags nBuf w shm log db =
     (let (rc, w, eMode2, xBusy2, sc) =
            (if eMode = SQLITE_CHECKPOINT_PASSIVE then (SQLITE_OK, w, eMode, xBusy, sc)
             else let (rc, sc, xBusy) = walBusyLock sc xBusy in
                  if rc = SQLITE_OK then (rc, w\<lparr>writeLock := True\<rparr>, eMode, xBusy, sc)
                  else if rc = SQLITE_BUSY then (SQLITE_OK, w, SQLITE_CHECKPOINT_PASSIVE, None, sc)
                  else (rc, w, eMode, xBusy, sc))
      in if rc \<noteq> SQLITE_OK then (eMode2, rc, sqlite3WalEndWriteTransaction w, shm, log, db, sc)
         else
           let (rc, w1, shm1, sc1) = walIndexReadHdr be sc rsc log w shm;
               isChanged = header_changed be sc w shm w1;
               (rc, w2, shm2, log, db, sc) =
                 (if rc \<noteq> SQLITE_OK then (rc, w1, shm1, log, db, sc1)
                  else if mxFrame (hdr w1) \<noteq> 0 \<and> page_size32 (hdrSzPage (hdr w1)) \<noteq> nBuf
                  then (SQLITE_CORRUPT, w1, shm1, log, db, sc1)
                  else walCheckpoint be salt4 sc1 eMode2 xBusy2 sync_flags w1 shm1 log db);
               w2 = (if isChanged then w2\<lparr>hdr := zero_hdr\<rparr> else w2)
           in (eMode2, rc, sqlite3WalEndWriteTransaction w2, shm2, log, db, sc))"

text \<open>The handler of the database that can veto a checkpoint is asked with -1 before it.\<close>

definition sqlite3WalCheckpoint ::
  "bool \<Rightarrow> u8 list \<Rightarrow> (int \<Rightarrow> int) option \<Rightarrow> os_script \<Rightarrow> os_script \<Rightarrow> nat \<Rightarrow> busy \<Rightarrow> nat \<Rightarrow> nat \<Rightarrow> wal \<Rightarrow> wal_shm \<Rightarrow>
   u8 list \<Rightarrow> u8 list \<Rightarrow> int \<times> wal \<times> wal_shm \<times> u8 list \<times> u8 list \<times> os_script" where
  "sqlite3WalCheckpoint be salt4 handler sc rsc eMode xBusy sync_flags nBuf w shm log db =
     (if fileReadOnly w \<or> shmReadOnly w then (SQLITE_READONLY, w, shm, log, db, sc)
      else
        let rc = (case handler of None \<Rightarrow> SQLITE_OK | Some xFunc \<Rightarrow> xFunc (-1)) in
        if rc \<noteq> SQLITE_OK then (rc, w, shm, log, db, sc)
        else
          let (rc, sc) = os_call sc in
          if rc \<noteq> SQLITE_OK then (rc, w, shm, log, db, sc)
          else
            let (eMode2, rc, rest) = ckpt_locked be salt4 sc rsc eMode xBusy sync_flags nBuf w shm log db
            in (if rc = SQLITE_OK \<and> eMode \<noteq> eMode2 then SQLITE_BUSY else rc, rest))"

subsection \<open>Pages of the database file\<close>

text \<open>The bytes of a file, with zeros beyond its end.\<close>

definition byte_at :: "u8 list \<Rightarrow> nat \<Rightarrow> u8" where
  "byte_at file i = (if i < length file then file ! i else 0)"

lemma byte_at_store:
  "byte_at (store_bytes file off d) i = (if off \<le> i \<and> i < off + length d then d ! (i - off) else byte_at file i)"
  by (cases "off \<le> length file") (auto simp: byte_at_def store_bytes_def nth_append min_def)

lemma byte_at_truncate: "byte_at (take n file @ replicate (n - length file) 0) i = (if i < n then byte_at file i else 0)"
  by (auto simp: byte_at_def nth_append min_def)

lemma db_page_bytes: "db_page db sz p = map (\<lambda>i. byte_at db ((unat p - 1) * sz + i)) [0 ..< sz]"
  by (rule nth_equalityI) (auto simp: db_page_def byte_at_def nth_append min_def Let_def)

lemma db_page_cong:
  "(\<And>i. i < sz \<Longrightarrow> byte_at db' ((unat p - 1) * sz + i) = byte_at db ((unat p - 1) * sz + i)) \<Longrightarrow> db_page db' sz p = db_page db sz p"
  by (simp add: db_page_bytes)

lemma pages_apart:
  assumes "p \<noteq> 0" "q \<noteq> 0" "p \<noteq> (q :: u32)" "i < sz" "length d \<le> (sz :: nat)"
  shows "\<not> ((unat q - 1) * sz \<le> (unat p - 1) * sz + i \<and> (unat p - 1) * sz + i < (unat q - 1) * sz + length d)"
proof -
  have "unat p \<noteq> unat q" using assms(3) by (simp add: word_unat_eq_iff)
  moreover have "0 < unat p" "0 < unat q" using assms(1,2) by (simp_all add: unat_gt_0)
  ultimately consider "unat p - 1 + 1 \<le> unat q - 1" | "unat q - 1 + 1 \<le> unat p - 1" by linarith
  then show ?thesis
  proof cases
    case 1
    then have "(unat p - 1 + 1) * sz \<le> (unat q - 1) * sz" by (rule mult_le_mono1)
    with assms(4) show ?thesis by simp
  next
    case 2
    then have "(unat q - 1 + 1) * sz \<le> (unat p - 1) * sz" by (rule mult_le_mono1)
    with assms(5) show ?thesis by simp
  qed
qed

lemma write_other_page:
  assumes "p \<noteq> 0" "q \<noteq> 0" "p \<noteq> q" "length d \<le> sz" "os_write sc db ((unat q - 1) * sz) d = (rc, db', sc')"
  shows "db_page db' sz p = db_page db sz p"
proof (rule db_page_cong)
  fix i assume i: "i < sz"
  from os_write_stored[OF assms(5)] obtain n where n: "db' = store_bytes db ((unat q - 1) * sz) (take n d)" by (auto simp: stored_def)
  have "length (take n d) \<le> sz" using assms(4) by simp
  from pages_apart[OF assms(1-3) i this] show "byte_at db' ((unat p - 1) * sz + i) = byte_at db ((unat p - 1) * sz + i)"
    unfolding n byte_at_store by (simp only: if_False)
qed

lemma write_page:
  assumes "length d = sz" "os_write sc db ((unat p - 1) * sz) d = (SQLITE_OK, db', sc')"
  shows "db_page db' sz p = d"
proof -
  have "db' = store_bytes db ((unat p - 1) * sz) d" using os_write_stored[OF assms(2)] by (simp add: stored_all)
  then show ?thesis using assms(1) by (auto simp: db_page_bytes byte_at_store intro: nth_equalityI)
qed

lemma truncate_page:
  assumes "p \<noteq> 0" "p \<le> n" "os_truncate sc db (unat n * sz) = (rc, db', sc')"
  shows "db_page db' sz p = db_page db sz p"
proof (rule db_page_cong)
  fix i assume "i < sz"
  have "unat p - 1 + 1 \<le> unat n" using assms(1,2) by (simp add: word_le_nat_alt unat_gt_0 Suc_le_eq)
  then have "(unat p - 1 + 1) * sz \<le> unat n * sz" by (rule mult_le_mono1)
  with \<open>i < sz\<close> have "(unat p - 1) * sz + i < unat n * sz" by simp
  then show "byte_at db' ((unat p - 1) * sz + i) = byte_at db ((unat p - 1) * sz + i)"
    using assms(3) by (auto simp: os_truncate_def byte_at_truncate split: prod.splits if_splits)
qed

subsection \<open>What is copied\<close>

text \<open>The log file holds the frames \<open>gs\<close>.\<close>

definition log_holds :: "nat \<Rightarrow> frame list \<Rightarrow> u8 list \<Rightarrow> bool" where
  "log_holds sz gs log \<longleftrightarrow> (\<forall>f \<in> set gs. frame_ok sz f) \<and>
     (\<exists>pre big salt s tail. length salt = 8 \<and> (gs \<noteq> [] \<longrightarrow> length pre = WAL_HDRSIZE) \<and>
        log = pre @ log_bytes big sz salt s gs @ tail)"

abbreviation (input) frame_data :: "frame list \<Rightarrow> nat \<Rightarrow> u8 list" where
  "frame_data gs f \<equiv> snd (snd (gs ! (f - 1)))"

lemma read_held:
  assumes "log_holds sz gs log" "0 < f" "f \<le> length gs"
    and "os_read sc log (walFrameOffset f sz + WAL_FRAME_HDRSIZE) sz = (rc, bs, sc')" "rc = SQLITE_OK"
  shows "bs = frame_data gs f" "length (frame_data gs f) = sz"
proof -
  from assms(1) obtain pre big salt s tail where l: "length salt = 8" "gs \<noteq> [] \<longrightarrow> length pre = WAL_HDRSIZE"
    "log = pre @ log_bytes big sz salt s gs @ tail" "\<forall>f \<in> set gs. frame_ok sz f" unfolding log_holds_def by blast
  have "f - 1 < length gs" using assms(2,3) by simp
  from log_bytes_split[OF l(1,4) this, of big s] obtain a h c where
    b: "log_bytes big sz salt s gs = a @ h @ frame_data gs f @ c"
    "length a = (f - 1) * (sz + WAL_FRAME_HDRSIZE)" "length h = WAL_FRAME_HDRSIZE" "length (frame_data gs f) = sz" by metis
  then show "length (frame_data gs f) = sz" by simp
  have "gs \<noteq> []" using assms(2,3) by auto
  with l b have "log = (pre @ a @ h) @ frame_data gs f @ c @ tail" "walFrameOffset f sz + WAL_FRAME_HDRSIZE = length (pre @ a @ h)"
    by (simp_all add: walFrameOffset_def)
  then have "take sz (drop (walFrameOffset f sz + WAL_FRAME_HDRSIZE) log) = frame_data gs f"
    "walFrameOffset f sz + WAL_FRAME_HDRSIZE + sz \<le> length log" using b(4) by simp_all
  with assms(4,5) show "bs = frame_data gs f" by (auto simp: os_read_def split: prod.splits if_splits)
qed

text \<open>The pages that a checkpoint copies, of those still ahead of the iterator.\<close>

definition copied :: "u32 list \<Rightarrow> nat \<Rightarrow> nat \<Rightarrow> u32 \<Rightarrow> u32 \<Rightarrow> u32 \<Rightarrow> bool" where
  "copied ps b mx mxPage q p \<longleftrightarrow> p \<in> set ps \<and> q < p \<and> p \<le> mxPage \<and> b < log_lookup ps 1 p \<and> log_lookup ps 1 p \<le> mx"

lemma log_lookup_at:
  assumes "0 < log_lookup ps m p"
  shows "ps ! (log_lookup ps m p - 1) = p" "m \<le> log_lookup ps m p" "p \<in> set ps"
proof -
  let ?f = "log_lookup ps m p"
  from latest_cases[of "\<lambda>f. m \<le> f \<and> ps ! (f - 1) = p" "length ps"] assms
  have f: "?f \<le> length ps" "m \<le> ?f" "ps ! (?f - 1) = p" by (auto simp: log_lookup_def)
  then show "ps ! (?f - 1) = p" "m \<le> ?f" by simp_all
  have "?f - 1 < length ps" using f(1) assms by simp
  then have "ps ! (?f - 1) \<in> set ps" by (rule nth_mem)
  then show "p \<in> set ps" by (simp only: f(3))
qed

lemma copied_next:
  assumes "q < p" "\<forall>x \<in> set ps. q < x \<longrightarrow> p \<le> x"
  shows "copied ps b mx mxPage q x \<longleftrightarrow> copied ps b mx mxPage p x \<or> x = p \<and> copied ps b mx mxPage q p"
proof (cases "x = p")
  case False
  have "x \<in> set ps \<and> q < x \<longleftrightarrow> x \<in> set ps \<and> p < x"
  proof
    assume "x \<in> set ps \<and> q < x"
    with assms(2) False show "x \<in> set ps \<and> p < x" by (auto intro: order_le_neq_trans)
  next
    assume "x \<in> set ps \<and> p < x"
    with assms(1) show "x \<in> set ps \<and> q < x" by (auto intro: less_trans)
  qed
  with False show ?thesis by (auto simp: copied_def)
qed (auto simp: copied_def)

lemma copy_loop_ok:
  assumes it: "iter_ok (map fst gs) it" and gs: "gs \<noteq> []" "0xFFFFFFFF \<notin> set (map fst gs)" "0 \<notin> set (map fst gs)"
    and log: "log_holds sz gs log"
    and run: "copy_loop sc it f\<^sub>0 b mx mxPage sz log db = (rc, db', sc')"
  shows "(\<forall>p. p \<noteq> 0 \<longrightarrow> \<not> copied (map fst gs) b mx mxPage (iPrior it) p \<longrightarrow> db_page db' sz p = db_page db sz p) \<and>
    (rc = SQLITE_OK \<longrightarrow> (\<forall>p. copied (map fst gs) b mx mxPage (iPrior it) p \<longrightarrow>
       db_page db' sz p = frame_data gs (log_lookup (map fst gs) 1 p)))"
  using it log run
proof (induction sc it f\<^sub>0 b mx mxPage sz log db rule: copy_loop.induct)
  case (1 sc it f\<^sub>0 b mx mxPage sz log db)
  let ?ps = "map fst gs"
  obtain eof p f it' where n: "walIteratorNext it f\<^sub>0 = (eof, p, f, it')" by (rule prod_cases4)
  have log_ne: "?ps \<noteq> []" using gs(1) by simp
  note N = walIteratorNext_ok[OF 1(3) gs(2) log_ne n]
  note step = 1(5)[unfolded copy_loop.simps[of sc it] n prod.case]
  show ?case
  proof (cases eof)
    case True
    then have "\<not> copied ?ps b mx mxPage (iPrior it) x" for x using N by (auto simp: copied_def not_less[symmetric])
    with True step show ?thesis by simp
  next
    case False
    then have p: "iPrior it < p" "0 < f" "f \<le> length gs" "f = log_lookup ?ps 1 p" "\<forall>x \<in> set ?ps. iPrior it < x \<longrightarrow> p \<le> x"
      and it': "iter_ok ?ps it'" "iPrior it' = p" using N by auto
    note next_copied = copied_next[OF p(1,5), of b mx mxPage]
    have p0: "p \<noteq> 0" using p(1) by auto
    show ?thesis
    proof (cases "f \<le> b \<or> mx < f \<or> mxPage < p")
      case skip: True
      have "copy_loop sc it' f b mx mxPage sz log db = (rc, db', sc')" using step False skip by simp
      note IH = 1(1)[OF n[symmetric] refl refl False skip it'(1) 1(4) this]
      have "\<not> copied ?ps b mx mxPage (iPrior it) p" using skip unfolding copied_def p(4)[symmetric] by auto
      then have "copied ?ps b mx mxPage (iPrior it) x = copied ?ps b mx mxPage p x" for x using next_copied[of x] by blast
      then show ?thesis using IH by (simp only: it'(2))
    next
      case copy: False
      obtain r1 zBuf sc1 where rd: "os_read sc log (walFrameOffset f sz + WAL_FRAME_HDRSIZE) sz = (r1, zBuf, sc1)" by (rule prod_cases3)
      show ?thesis
      proof (cases "r1 = SQLITE_OK")
        case r1: True
        note D = read_held[OF 1(4) p(2,3) rd r1]
        obtain r2 db2 sc2 where wr: "os_write sc1 db ((unat p - 1) * sz) zBuf = (r2, db2, sc2)" by (rule prod_cases3)
        have other: "db_page db2 sz x = db_page db sz x" if "x \<noteq> 0" "x \<noteq> p" for x
          using write_other_page[OF that(1) p0 that(2) _ wr] D by simp
        have pc: "copied ?ps b mx mxPage (iPrior it) p"
          using copy p log_lookup_at(3)[of ?ps 1 p] by (auto simp: copied_def not_less)
        show ?thesis
        proof (cases "r2 = SQLITE_OK")
          case r2: True
          have "copy_loop sc2 it' f b mx mxPage sz log db2 = (rc, db', sc')" using step False copy rd r1 wr r2 by simp
          from 1(2)[OF n[symmetric] refl refl False copy rd[symmetric] refl refl _ wr[symmetric] refl refl _ it'(1) 1(4) this]
          have IH: "\<And>x. x \<noteq> 0 \<Longrightarrow> \<not> copied ?ps b mx mxPage p x \<Longrightarrow> db_page db' sz x = db_page db2 sz x"
            "\<And>x. rc = SQLITE_OK \<Longrightarrow> copied ?ps b mx mxPage p x \<Longrightarrow> db_page db' sz x = frame_data gs (log_lookup ?ps 1 x)"
            using r1 r2 by (auto simp: it'(2))
          have "\<not> copied ?ps b mx mxPage p p" by (simp add: copied_def)
          then have "db_page db' sz p = frame_data gs f" using IH(1)[OF p0] write_page[OF _ wr[unfolded r2]] D by simp
          then have "db_page db' sz x = frame_data gs (log_lookup ?ps 1 x)"
            if "rc = SQLITE_OK" "copied ?ps b mx mxPage (iPrior it) x" for x
            using IH(2)[OF that(1)] that(2) next_copied[of x] p(4) by auto
          moreover have "db_page db' sz x = db_page db sz x" if x: "x \<noteq> 0" "\<not> copied ?ps b mx mxPage (iPrior it) x" for x
          proof -
            have "x \<noteq> p" using pc x(2) by blast
            with IH(1)[OF x(1)] other[OF x(1)] next_copied[of x] x(2) show ?thesis by auto
          qed
          ultimately show ?thesis by blast
        next
          case False
          with step \<open>\<not> eof\<close> copy rd r1 wr have "rc = r2" "db' = db2" by simp_all
          with False other pc show ?thesis by (auto dest: other)
        qed
      next
        case False
        with step \<open>\<not> eof\<close> copy rd show ?thesis by simp
      qed
    qed
  qed
qed

end
