(* ===== verification/Wal_Checkpoint_Spec.thy ===== *)
theory Wal_Checkpoint_Spec
  imports Wal_Checkpoint
begin

text \<open>
  What a checkpoint promises: the database file and the log together hold the same pages before
  and after it, for readers that come later and for readers that were there before, whatever
  fails on the way; and a blocking checkpoint that reports success has copied everything.
\<close>

subsection \<open>One copy\<close>

text \<open>The last frames up to \<open>b\<close> are in the database.\<close>

definition backfilled :: "frame list \<Rightarrow> nat \<Rightarrow> u32 \<Rightarrow> nat \<Rightarrow> u8 list \<Rightarrow> bool" where
  "backfilled gs sz n b db \<longleftrightarrow>
     (\<forall>p. p \<noteq> 0 \<longrightarrow> p \<le> n \<longrightarrow> 0 < log_lookup (map fst gs) 1 p \<longrightarrow> log_lookup (map fst gs) 1 p \<le> b \<longrightarrow>
        db_page db sz p = frame_data gs (log_lookup (map fst gs) 1 p))"

text \<open>
  The effect on the database of an attempt to copy the frames after \<open>b\<close> up to \<open>mx\<close>, with the count
  \<open>b'\<close> of frames recorded as copied.
\<close>

definition ckpt_result :: "frame list \<Rightarrow> nat \<Rightarrow> nat \<Rightarrow> nat \<Rightarrow> u32 \<Rightarrow> u8 list \<Rightarrow> nat \<Rightarrow> u8 list \<Rightarrow> bool" where
  "ckpt_result gs sz b mx n db b' db' \<longleftrightarrow>
     (b' = b \<or> b' = mx) \<and>
     (\<forall>p. p \<noteq> 0 \<longrightarrow> (mx = length gs \<longrightarrow> p \<le> n) \<longrightarrow> \<not> copied (map fst gs) b mx n 0 p \<longrightarrow> db_page db' sz p = db_page db sz p) \<and>
     (b' \<noteq> b \<longrightarrow> (\<forall>p. copied (map fst gs) b mx n 0 p \<longrightarrow> db_page db' sz p = frame_data gs (log_lookup (map fst gs) 1 p)))"

lemma ckpt_result_none: "ckpt_result gs sz b mx n db b db"
  by (simp add: ckpt_result_def)

definition same_index :: "wal_shm \<Rightarrow> wal_shm \<Rightarrow> bool" where
  "same_index shm shm' \<longleftrightarrow>
     aHdr0 shm' = aHdr0 shm \<and> aHdr1 shm' = aHdr1 shm \<and> blocks shm' = blocks shm \<and> mapRc shm' = mapRc shm"

text \<open>A mark that stays as it was protects its frames: a mark whose lock was granted has changed.\<close>

lemma safe_frame_ok:
  assumes "safe_frame sc xb marks i n mx rc = (rc', marks', mx', sc', xb')" "mx \<le> READMARK_NOT_USED"
  shows "mx' \<le> mx \<and> length marks' = length marks \<and> (\<forall>j < i. marks' ! j = marks ! j) \<and>
    (\<forall>j. marks' ! j = marks ! j \<or> marks ! j < mx) \<and>
    (rc' = SQLITE_OK \<or> rc' = SQLITE_BUSY \<longrightarrow>
       (\<forall>j. i \<le> j \<longrightarrow> j < i + n \<longrightarrow> j < length marks \<longrightarrow> marks' ! j = marks ! j \<longrightarrow> mx' \<le> marks ! j))"
  using assms
proof (induction sc xb marks i n mx rc rule: safe_frame.induct)
  case (2 sc xBusy marks i n mx rc)
  obtain r1 sc1 xb1 where lock: "walBusyLock sc xBusy = (r1, sc1, xb1)" by (rule prod_cases3)
  have upto: "j = i \<or> Suc i \<le> j" if "i \<le> j" for j using that by linarith
  show ?case
  proof (cases "marks ! i < mx")
    case above: True
    let ?v = "if i = 1 then mx else READMARK_NOT_USED"
    consider (ok) "r1 = SQLITE_OK" | (busy) "r1 = SQLITE_BUSY" | (other) "r1 \<noteq> SQLITE_OK" "r1 \<noteq> SQLITE_BUSY" by blast
    then show ?thesis
    proof cases
      case ok
      have "safe_frame sc1 xb1 (marks[i := ?v]) (i + 1) n mx r1 = (rc', marks', mx', sc', xb')"
        using 2(4) above lock ok by (simp add: Let_def)
      from 2(1)[OF refl above lock[symmetric] refl refl ok this 2(5)]
      have IH: "mx' \<le> mx" "length marks' = length marks" "\<forall>j < Suc i. marks' ! j = marks[i := ?v] ! j"
        "\<forall>j. marks' ! j = marks[i := ?v] ! j \<or> marks[i := ?v] ! j < mx"
        "rc' = SQLITE_OK \<or> rc' = SQLITE_BUSY \<Longrightarrow> \<forall>j. Suc i \<le> j \<longrightarrow> j < Suc i + n \<longrightarrow> j < length marks \<longrightarrow>
          marks' ! j = marks[i := ?v] ! j \<longrightarrow> mx' \<le> marks[i := ?v] ! j" by simp_all
      moreover have "?v \<noteq> marks ! i" using above 2(5) by auto
      moreover have "marks' ! j = marks ! j \<or> marks ! j < mx" for j
        using IH(4) above by (cases "j = i") (auto dest: spec[of _ j])
      ultimately show ?thesis by (auto dest!: upto)
    next
      case busy
      have "safe_frame sc1 None marks (i + 1) n (marks ! i) r1 = (rc', marks', mx', sc', xb')"
        using 2(4) above lock busy by (simp add: Let_def)
      from 2(2)[OF refl above lock[symmetric] refl refl _ busy this] busy above 2(5)
      show ?thesis by (auto dest!: upto intro: less_trans)
    next
      case other
      with 2(4) above lock show ?thesis by (simp add: Let_def)
    qed
  next
    case False
    then have "safe_frame sc xBusy marks (i + 1) n mx rc = (rc', marks', mx', sc', xb')" using 2(4) by (simp add: Let_def)
    from 2(3)[OF refl False this 2(5)] False show ?thesis by (auto dest!: upto)
  qed
qed auto

lemma backfill_result:
  assumes it: "iter_ok (map fst gs) it" "iPrior it = 0" and gs: "gs \<noteq> []" "0xFFFFFFFF \<notin> set (map fst gs)" "0 \<notin> set (map fst gs)"
    and log: "log_holds sz gs log" and mx: "unat (mxFrame (aHdr0 shm)) = length gs"
    and run: "ckpt_backfill sc it mx sync_flags sz w shm log db = (rc, shm', db', sc')"
  shows "ckpt_result gs sz (nBackfill (ckptInfo shm)) mx (nPage (hdr w)) db (nBackfill (ckptInfo shm')) db'"
    "same_index shm shm'" "aReadMark (ckptInfo shm') = aReadMark (ckptInfo shm)"
proof -
  let ?b = "nBackfill (ckptInfo shm)" and ?n = "nPage (hdr w)" and ?ps = "map fst gs"
  let ?ok = "\<lambda>rc db'. (\<forall>p. p \<noteq> 0 \<longrightarrow> \<not> copied ?ps ?b mx ?n 0 p \<longrightarrow> db_page db' sz p = db_page db sz p) \<and>
    (rc = SQLITE_OK \<longrightarrow> (\<forall>p. copied ?ps ?b mx ?n 0 p \<longrightarrow> db_page db' sz p = frame_data gs (log_lookup ?ps 1 p)))"
  show "same_index shm shm'" "aReadMark (ckptInfo shm') = aReadMark (ckptInfo shm)"
    using run by (auto simp: ckpt_backfill_def same_index_def Let_def split: prod.splits if_splits)
  have copy: "?ok r1 db1" if "copy_loop sc1 it 0 ?b mx ?n sz log db = (r1, db1, sc2)" for sc1 r1 db1 sc2
    using copy_loop_ok[OF it(1) gs log that] by (simp only: it(2))
  obtain r0 sc0 where c0: "(if sync_flags \<noteq> 0 then os_call sc else (SQLITE_OK, sc)) = (r0, sc0)" by (rule prod.exhaust)
  obtain r2 sc2 where c2: "(if r0 = SQLITE_OK then os_call sc0 else (r0, sc0)) = (r2, sc2)" by (rule prod.exhaust)
  obtain r1 db1 sc1 where c1:
    "(if r2 = SQLITE_OK then copy_loop sc2 it 0 ?b mx ?n sz log db else (r2, db, sc2)) = (r1, db1, sc1)" by (rule prod_cases3)
  note step = run[unfolded ckpt_backfill_def Let_def c0 c2 c1 prod.case]
  have one: "?ok r1 db1"
  proof (cases "r2 = SQLITE_OK")
    case True
    with c1 copy show ?thesis by simp
  next
    case False
    with c1 show ?thesis by auto
  qed
  have kept: "(nBackfill (ckptInfo shm') = ?b \<or> r1 = SQLITE_OK \<and> nBackfill (ckptInfo shm') = mx) \<and>
    (db' = db1 \<or> mx = length gs \<and> (\<exists>sc3 r3 sc4. os_truncate sc3 db1 (unat ?n * sz) = (r3, db', sc4)))"
    using step mx by (auto split: prod.splits if_splits)
  have page: "db_page db' sz p = db_page db1 sz p" if "p \<noteq> 0" "mx = length gs \<longrightarrow> p \<le> ?n" for p
    using kept that truncate_page[OF that(1)] by blast
  have above: "p \<noteq> 0" "p \<le> ?n" if "copied ?ps ?b mx ?n 0 p" for p using that by (auto simp: copied_def)
  show "ckpt_result gs sz ?b mx ?n db (nBackfill (ckptInfo shm')) db'"
    unfolding ckpt_result_def using kept one page above by metis
qed

subsection \<open>The state before\<close>

text \<open>
  A log of the frames \<open>gs\<close>, all of them committed and indexed, the last page of the database being
  that of the header, with as many frames copied before as the index says.
\<close>

definition ckpt_ready :: "frame list \<Rightarrow> nat \<Rightarrow> wal_shm \<Rightarrow> u8 list \<Rightarrow> u8 list \<Rightarrow> bool" where
  "ckpt_ready gs sz shm log db \<longleftrightarrow>
     index_ok shm (map fst gs) \<and> unat (mxFrame (aHdr0 shm)) = length gs \<and> page_size_ok sz \<and>
     (gs \<noteq> [] \<longrightarrow> hdrSzPage (aHdr0 shm) = page_size16 sz) \<and> log_holds sz gs log \<and>
     0 \<notin> set (map fst gs) \<and> 0xFFFFFFFF \<notin> set (map fst gs) \<and> (\<forall>h. mapRc shm h = SQLITE_OK) \<and>
     nBackfill (ckptInfo shm) \<le> length gs \<and> backfilled gs sz (nPage (aHdr0 shm)) (nBackfill (ckptInfo shm)) db"

text \<open>The marks that are as they were, of the slots whose readers use the log.\<close>

definition mark_kept :: "wal_shm \<Rightarrow> wal_shm \<Rightarrow> nat \<Rightarrow> bool" where
  "mark_kept shm shm' j \<longleftrightarrow> 0 < j \<and> j < WAL_NREADER \<and> j < length (aReadMark (ckptInfo shm)) \<and>
     aReadMark (ckptInfo shm') ! j = aReadMark (ckptInfo shm) ! j"

text \<open>What the database and the index may be after it, when the log is not restarted.\<close>

definition ckpt_done :: "frame list \<Rightarrow> nat \<Rightarrow> wal_shm \<Rightarrow> u8 list \<Rightarrow> wal_shm \<Rightarrow> u8 list \<Rightarrow> bool" where
  "ckpt_done gs sz shm db shm' db' \<longleftrightarrow> same_index shm shm' \<and>
     length (aReadMark (ckptInfo shm')) = length (aReadMark (ckptInfo shm)) \<and>
     (\<forall>j. aReadMark (ckptInfo shm') ! j = aReadMark (ckptInfo shm) ! j \<or> aReadMark (ckptInfo shm) ! j < length gs) \<and>
     (\<exists>mx \<le> length gs.
        ckpt_result gs sz (nBackfill (ckptInfo shm)) mx (nPage (aHdr0 shm)) db (nBackfill (ckptInfo shm')) db' \<and>
        (\<forall>j. mark_kept shm shm' j \<longrightarrow> mx \<le> aReadMark (ckptInfo shm) ! j))"

lemma ckpt_done_none:
  "same_index shm shm' \<Longrightarrow> nBackfill (ckptInfo shm') = nBackfill (ckptInfo shm) \<Longrightarrow>
    length (aReadMark (ckptInfo shm')) = length (aReadMark (ckptInfo shm)) \<Longrightarrow>
    (\<And>j. aReadMark (ckptInfo shm') ! j = aReadMark (ckptInfo shm) ! j \<or> aReadMark (ckptInfo shm) ! j < length gs) \<Longrightarrow>
    ckpt_done gs sz shm db shm' db"
  by (auto simp: ckpt_done_def ckpt_result_none intro: exI[of _ 0])

lemma same_index_marks: "same_index shm (set_marks shm marks)" "nBackfill (ckptInfo (set_marks shm marks)) = nBackfill (ckptInfo shm)"
  "aReadMark (ckptInfo (set_marks shm marks)) = marks" "aHdr0 (set_marks shm marks) = aHdr0 shm"
  by (simp_all add: same_index_def set_marks_def)

lemma ckpt_copy_done:
  assumes ready: "ckpt_ready gs sz shm log db" and w: "hdr w = aHdr0 shm" and todo: "nBackfill (ckptInfo shm) < length gs"
    and run: "ckpt_copy sc xb sync_flags w shm log db = (out, rc, shm', db', sc', xb')"
  shows "ckpt_done gs sz shm db shm' db'"
proof -
  have gs: "gs \<noteq> []" using todo by auto
  have h: "index_ok shm (map fst gs)" "unat (mxFrame (hdr w)) = length gs" "log_holds sz gs log"
    "0 \<notin> set (map fst gs)" "0xFFFFFFFF \<notin> set (map fst gs)" "page_size32 (hdrSzPage (hdr w)) = sz"
    using ready gs by (simp_all add: ckpt_ready_def w page_size_roundtrip)
  note copy = run[unfolded ckpt_copy_def Let_def h(6)]
  obtain ini sc1 where ini: "walIteratorInit sc w shm = (ini, sc1)" by (rule prod.exhaust)
  show ?thesis
  proof (cases ini)
    case (Inl e)
    with copy ini have "shm' = shm" "db' = db" by simp_all
    then show ?thesis by (auto intro: ckpt_done_none simp: same_index_def)
  next
    case (Inr it)
    have "map fst gs \<noteq> []" "unat (mxFrame (hdr w)) = length (map fst gs)" using gs h(2) by simp_all
    note it = walIteratorInit_ok[OF h(1) this ini[unfolded Inr]]
    obtain r1 marks mx sc2 xb2 where sf:
      "safe_frame sc1 xb (aReadMark (ckptInfo shm)) 1 (WAL_NREADER - 1) (unat (mxFrame (hdr w))) SQLITE_OK = (r1, marks, mx, sc2, xb2)"
      by (rule prod_cases5)
    have "unat (mxFrame (hdr w)) \<le> READMARK_NOT_USED" using unat_lt2p_aux[of "mxFrame (hdr w)"] by simp
    note safe = safe_frame_ok[OF sf this, unfolded h(2)]
    let ?shm = "set_marks shm marks"
    show ?thesis
    proof (cases "(r1 = SQLITE_OK \<or> r1 = SQLITE_BUSY) \<and> nBackfill (ckptInfo shm) < mx \<and> fst (walBusyLock sc2 xb2) = SQLITE_OK")
      case True
      then obtain sc3 xb3 where lock: "walBusyLock sc2 xb2 = (SQLITE_OK, sc3, xb3)" by (metis prod.exhaust_sel)
      obtain r4 shm4 db4 sc4 where bf: "ckpt_backfill sc3 it mx sync_flags sz w ?shm log db = (r4, shm4, db4, sc4)"
        by (rule prod_cases4)
      have out: "shm' = shm4" "db' = db4" using copy ini Inr sf True lock bf by (auto simp: same_index_marks)
      have "unat (mxFrame (aHdr0 ?shm)) = length gs" using h(2) by (simp add: w same_index_marks)
      note B = backfill_result[OF it gs h(5,4,3) this bf, unfolded same_index_marks w]
      have "\<forall>j. mark_kept shm shm' j \<longrightarrow> mx \<le> aReadMark (ckptInfo shm) ! j"
        using safe True B(3) by (auto simp: mark_kept_def out)
      moreover have "same_index shm shm'" using B(2) same_index_marks(1)[of shm marks] by (simp add: same_index_def out)
      moreover have "length (aReadMark (ckptInfo shm')) = length (aReadMark (ckptInfo shm))"
        "\<forall>j. aReadMark (ckptInfo shm') ! j = aReadMark (ckptInfo shm) ! j \<or> aReadMark (ckptInfo shm) ! j < length gs"
        using safe by (simp_all add: out B(3))
      ultimately show ?thesis using B(1) safe unfolding ckpt_done_def out by blast
    next
      case False
      then have d: "shm' = ?shm" "db' = db" using copy ini Inr sf
        by (auto simp: same_index_marks split: prod.splits if_splits)
      show ?thesis unfolding d by (rule ckpt_done_none) (use safe in \<open>auto simp: same_index_marks\<close>)
    qed
  qed
qed

lemma init_segments_error: "init_segments shm iLast k i n = Inl rc \<Longrightarrow> rc \<noteq> SQLITE_OK"
  by (induction n arbitrary: i) (auto simp: walHashGet_def split: sum.splits if_splits)

lemma ckpt_copy_exit: "ckpt_copy sc xb sync_flags w shm log db = (True, rc, shm', db', sc', xb') \<Longrightarrow> rc \<noteq> SQLITE_OK"
  by (auto simp: ckpt_copy_def walIteratorInit_def Let_def simp del: init_segments.simps
      dest: init_segments_error split: sum.splits prod.splits if_splits)

lemma walCheckpoint_done:
  assumes ready: "ckpt_ready gs sz shm log db" and w: "hdr w = aHdr0 shm"
    and run: "walCheckpoint be salt4 sc eMode xb sync_flags w shm log db = (rc, w', shm', log', db', sc')"
  shows "\<exists>shm1. ckpt_done gs sz shm db shm1 db' \<and>
    (w' = w \<and> shm' = shm1 \<and> log' = log \<and>
       (rc = SQLITE_OK \<longrightarrow> eMode \<noteq> SQLITE_CHECKPOINT_PASSIVE \<longrightarrow> length gs \<le> nBackfill (ckptInfo shm1)) \<or>
     length gs \<le> nBackfill (ckptInfo shm1) \<and> eMode = SQLITE_CHECKPOINT_TRUNCATE \<and> (w', shm') = walRestartHdr be salt4 w shm1)"
proof -
  have mx: "unat (mxFrame (hdr w)) = length gs" using ready by (simp add: ckpt_ready_def w)
  obtain out r1 shm1 db1 sc1 xb1 where one: "(if nBackfill (ckptInfo shm) < length gs then ckpt_copy sc xb sync_flags w shm log db
      else (False, SQLITE_OK, shm, db, sc, xb)) = (out, r1, shm1, db1, sc1, xb1)" by (rule prod_cases6)
  have c: "ckpt_done gs sz shm db shm1 db1"
  proof (cases "nBackfill (ckptInfo shm) < length gs")
    case True
    with one have "ckpt_copy sc xb sync_flags w shm log db = (out, r1, shm1, db1, sc1, xb1)" by simp
    from ckpt_copy_done[OF ready w True this] show ?thesis .
  next
    case False
    with one show ?thesis by (auto intro: ckpt_done_none simp: same_index_def)
  qed
  note rest = run[unfolded walCheckpoint_def mx one Let_def prod.case]
  have exit: "out \<Longrightarrow> r1 \<noteq> SQLITE_OK" using one by (auto split: if_splits dest: ckpt_copy_exit)
  have "db' = db1" using rest by (auto split: if_splits prod.splits)
  moreover have "w' = w \<and> shm' = shm1 \<and> log' = log \<and>
       (rc = SQLITE_OK \<longrightarrow> eMode \<noteq> SQLITE_CHECKPOINT_PASSIVE \<longrightarrow> length gs \<le> nBackfill (ckptInfo shm1)) \<or>
     length gs \<le> nBackfill (ckptInfo shm1) \<and> eMode = SQLITE_CHECKPOINT_TRUNCATE \<and> (w', shm') = walRestartHdr be salt4 w shm1"
    using rest exit by (auto split: if_splits prod.splits)
  ultimately show ?thesis using c by blast
qed

subsection \<open>What a page is afterwards\<close>

lemma page_kept:
  assumes ready: "ckpt_ready gs sz shm log db" and after: "ckpt_done gs sz shm db shm1 db'"
    and p: "p \<noteq> 0" "p \<le> nPage (aHdr0 shm)" and l: "log_lookup (map fst gs) 1 p \<le> nBackfill (ckptInfo shm1)"
  shows "db_page db' sz p = page_content gs db sz p"
proof -
  let ?l = "log_lookup (map fst gs) 1 p" and ?b = "nBackfill (ckptInfo shm)" and ?n = "nPage (aHdr0 shm)"
  from after obtain mx where r: "ckpt_result gs sz ?b mx ?n db (nBackfill (ckptInfo shm1)) db'" by (auto simp: ckpt_done_def)
  show ?thesis
  proof (cases "?l \<le> ?b")
    case True
    then have "\<not> copied (map fst gs) ?b mx ?n 0 p" by (simp add: copied_def)
    then have "db_page db' sz p = db_page db sz p" using r p by (simp add: ckpt_result_def)
    moreover have "db_page db sz p = frame_data gs ?l" if "0 < ?l"
      using ready p that True by (simp add: ckpt_ready_def backfilled_def)
    ultimately show ?thesis by (auto simp: log_lookup_content Let_def)
  next
    case False
    then have b: "nBackfill (ckptInfo shm1) \<noteq> ?b" "nBackfill (ckptInfo shm1) = mx" using l r by (auto simp: ckpt_result_def)
    have "p \<in> set (map fst gs)" using False by (intro log_lookup_at(3)[of _ 1]) simp
    then have "copied (map fst gs) ?b mx ?n 0 p" using False l p b(2) by (simp add: copied_def word_gt_0)
    then show ?thesis using r b(1) False by (simp add: ckpt_result_def log_lookup_content)
  qed
qed

text \<open>A reader's search within the first \<open>m\<close> frames, and the page it reads.\<close>

lemma read_lookup:
  assumes ready: "ckpt_ready gs sz shm log db" and idx: "same_index shm shm2"
    and r: "unat (mxFrame (hdr r)) = m" "m \<le> length gs" "hdrSzPage (hdr r) = hdrSzPage (aHdr0 shm)" "readLock r \<noteq> 0"
  shows "read_page [] r shm2 log db' sz p =
    (SQLITE_OK, let f = log_lookup (take m (map fst gs)) (minFrame r) p in if f = 0 then db_page db' sz p else frame_data gs f)"
proof -
  have h: "index_ok shm2 (map fst gs)" "\<forall>h. mapRc shm2 h = SQLITE_OK" "log_holds sz gs log" "page_size_ok sz"
    using ready idx by (simp_all add: ckpt_ready_def same_index_def index_ok_def)
  from h(3) obtain pre big salt s tail where l: "\<forall>f \<in> set gs. frame_ok sz f" "length salt = 8"
    "gs \<noteq> [] \<longrightarrow> length pre = WAL_HDRSIZE" "log = pre @ log_bytes big sz salt s gs @ tail" unfolding log_holds_def by blast
  have "m \<noteq> 0 \<longrightarrow> hdrSzPage (hdr r) = page_size16 sz" using ready r(2,3) by (auto simp: ckpt_ready_def)
  from read_within[OF l(2) h(4) l(1) h(1,2) r(1,2) this r(4) l(4,3)] show ?thesis by simp
qed

subsection \<open>Readers that come later\<close>

definition hdr_valid :: "bool \<Rightarrow> wal_shm \<Rightarrow> bool" where
  "hdr_valid be shm \<longleftrightarrow> aHdr0 shm = aHdr1 shm \<and> isInit (aHdr0 shm) \<and>
     walChecksumBytes be True (hdr_bytes be (aHdr0 shm)) 40 None = aCksum (aHdr0 shm)"

lemma valid_header_read:
  assumes "hdr_valid be shm" "walIndexReadHdr be sc rsc log w shm = (rc, w', shm', sc')"
  shows "shm' = shm" "rc = SQLITE_OK \<Longrightarrow> hdr w' = aHdr0 shm" "readLock w' = readLock w"
  using assms by (auto simp: hdr_valid_def walIndexReadHdr_def walIndexTryHdr_def Let_def split: if_splits)

lemma written_header_valid: "walIndexWriteHdr be w shm = (w', shm') \<Longrightarrow> hdr_valid be shm' \<and> aHdr0 shm' = hdr w'"
  by (auto simp: walIndexWriteHdr_def hdr_valid_def Let_def hdr_bytes_def)

lemma restart_header:
  assumes "walRestartHdr be salt4 w shm = (w', shm')"
  shows "hdr_valid be shm'" "mxFrame (aHdr0 shm') = 0"
  using assms by (auto simp: walRestartHdr_def walIndexWriteHdr_def hdr_valid_def Let_def hdr_bytes_def)

text \<open>What a read transaction has been given when it opens.\<close>

definition reader_of :: "wal_shm \<Rightarrow> wal \<Rightarrow> bool" where
  "reader_of shm r \<longleftrightarrow> hdr r = aHdr0 shm \<and>
     (readLock r = 0 \<and> nBackfill (ckptInfo shm) = unat (mxFrame (aHdr0 shm)) \<or>
      readLock r \<noteq> 0 \<and> minFrame r = nBackfill (ckptInfo shm) + 1)"

definition only_marks :: "wal_shm \<Rightarrow> wal_shm \<Rightarrow> bool" where
  "only_marks shm shm' \<longleftrightarrow> same_index shm shm' \<and> nBackfill (ckptInfo shm') = nBackfill (ckptInfo shm)"

lemma claim_mark_error: "claim_mark sc marks i n mx best rc\<^sub>0 = Inl (rc, sc') \<Longrightarrow> rc \<noteq> SQLITE_OK"
  by (induction sc marks i n mx best rc\<^sub>0 rule: claim_mark.induct) (auto split: prod.splits if_splits)

lemma begin_in_log_reader:
  assumes "begin_in_log rc\<^sub>0 sc w shm = (rc, r, shm', sc')" "hdr w = aHdr0 shm"
  shows "only_marks shm shm' \<and> (rc = SQLITE_OK \<longrightarrow> reader_of shm' r)"
  using assms unfolding begin_in_log_def Let_def
  by (auto simp: only_marks_def same_index_marks reader_of_def set_marks_def same_index_def dest: claim_mark_error
      split: sum.splits prod.splits if_splits)

lemma try_begin_reader:
  assumes valid: "hdr_valid be shm" and run: "walTryBeginRead be sc rsc log w shm False cnt = (rc, r, shm', sc')"
  shows "only_marks shm shm' \<and> (rc = SQLITE_OK \<longrightarrow> reader_of shm' r)"
proof -
  obtain r1 w1 shm1 sc1 where h: "walIndexReadHdr be sc rsc log w shm = (r1, w1, shm1, sc1)" by (rule prod_cases4)
  note V = valid_header_read[OF valid h]
  have same: "only_marks shm shm" by (simp add: only_marks_def same_index_def)
  show ?thesis
  proof (cases "cnt \<le> 100 \<and> r1 = SQLITE_OK \<and>
      \<not> (nBackfill (ckptInfo shm) = unat (mxFrame (hdr w1)) \<and> fst (os_call sc1) \<noteq> SQLITE_BUSY)")
    case True
    then obtain rc\<^sub>0 sc2 where "begin_in_log rc\<^sub>0 sc2 w1 shm = (rc, r, shm', sc')"
      using run h V(1) by (auto simp: walTryBeginRead_def Let_def split: prod.splits if_splits)
    from begin_in_log_reader[OF this] True V(2) show ?thesis by simp
  next
    case False
    then show ?thesis using run h V same
      by (auto simp: walTryBeginRead_def Let_def reader_of_def split: prod.splits if_splits)
  qed
qed

lemma only_marks_trans: "only_marks shm shm1 \<Longrightarrow> only_marks shm1 shm2 \<Longrightarrow> only_marks shm shm2"
  by (simp add: only_marks_def same_index_def)

lemma only_marks_valid: "only_marks shm shm' \<Longrightarrow> hdr_valid be shm \<Longrightarrow> hdr_valid be shm'"
  unfolding only_marks_def same_index_def hdr_valid_def by metis

lemma begin_reader:
  assumes "hdr_valid be shm" "sqlite3WalBeginReadTransaction be sc rsc log w shm = (SQLITE_OK, r, shm', sc')"
  shows "only_marks shm shm'" "reader_of shm' r"
proof -
  have "only_marks shm shm' \<and> reader_of shm' r"
    if "hdr_valid be shm" "begin_loop be sc rsc log w shm False cnt = (SQLITE_OK, r, shm', sc')" for sc w shm cnt
    using that
  proof (induction "101 - cnt" arbitrary: sc w shm cnt rule: less_induct)
    case less
    obtain r1 w1 shm1 sc1 where one: "walTryBeginRead be sc rsc log w shm False (cnt + 1) = (r1, w1, shm1, sc1)" by (rule prod_cases4)
    note T = try_begin_reader[OF less.prems(1) one]
    show ?case
    proof (cases "r1 = WAL_RETRY \<and> cnt + 1 \<le> 100")
      case True
      then have "begin_loop be sc1 rsc log w1 shm1 False (cnt + 1) = (SQLITE_OK, r, shm', sc')"
        using less.prems(2) one by (simp add: begin_loop.simps[of be sc] Let_def)
      from less.hyps[OF _ only_marks_valid[OF conjunct1[OF T] less.prems(1)] this] True T
      show ?thesis by (auto intro: only_marks_trans)
    next
      case False
      with less.prems(2) one T show ?thesis by (auto simp: begin_loop.simps[of be sc] Let_def)
    qed
  qed
  from this[OF assms(1) assms(2)[unfolded sqlite3WalBeginReadTransaction_def]]
  show "only_marks shm shm'" "reader_of shm' r" by simp_all
qed

text \<open>Such a reader, opened on what the checkpoint leaves, reads the pages of before.\<close>

lemma later_reader:
  assumes ready: "ckpt_ready gs sz shm log db" and after: "ckpt_done gs sz shm db shm1 db'"
    and marks: "only_marks shm1 shm2" and r: "reader_of shm2 r" and p: "p \<noteq> 0" "p \<le> nPage (aHdr0 shm)"
  shows "read_page [] r shm2 log db' sz p = (SQLITE_OK, page_content gs db sz p)"
proof -
  let ?l = "log_lookup (map fst gs) 1 p" and ?b = "nBackfill (ckptInfo shm1)"
  have idx: "same_index shm shm2" "nBackfill (ckptInfo shm2) = ?b" "aHdr0 shm2 = aHdr0 shm"
    using after marks by (simp_all add: ckpt_done_def only_marks_def same_index_def)
  have mx: "unat (mxFrame (aHdr0 shm)) = length gs" using ready by (simp add: ckpt_ready_def)
  have le: "?l \<le> length gs" using log_lookup_le[of "map fst gs" 1 p] by simp
  have hd: "hdr r = aHdr0 shm" using r by (simp add: reader_of_def idx(3))
  show ?thesis
  proof (cases "readLock r = 0")
    case True
    then have "?b = length gs" using r mx by (simp add: reader_of_def idx)
    with page_kept[OF ready after p] le have "db_page db' sz p = page_content gs db sz p" by simp
    moreover have "sqlite3WalFindFrame r shm2 p = Inr 0" using True by (simp add: sqlite3WalFindFrame_def)
    ultimately show ?thesis
      by (auto simp: read_page_def readDbPage_def os_read_def os_call_def db_page_def Let_def)
  next
    case False
    then have min: "minFrame r = ?b + 1" using r by (simp add: reader_of_def idx)
    have "unat (mxFrame (hdr r)) = length gs" using mx by (simp add: hd)
    from read_lookup[OF ready idx(1) this order.refl _ False, of db' p]
    have "read_page [] r shm2 log db' sz p =
        (SQLITE_OK, if ?b + 1 \<le> ?l then frame_data gs ?l else db_page db' sz p)"
      using log_lookup_from[of "map fst gs" "minFrame r" p] by (simp add: hd min Let_def)
    with page_kept[OF ready after p] show ?thesis by (auto simp: log_lookup_content Let_def)
  qed
qed

text \<open>Without contention a reader opens at the first attempt.\<close>

lemma best_mark_entry:
  "best_mark ms i mx best = (m, k) \<Longrightarrow> (m, k) = best \<or> i \<le> k \<and> k < i + length ms \<and> m = ms ! (k - i)"
proof (induction ms i mx best rule: best_mark.induct)
  case (2 this ms i mx m0 k0)
  then have "(m, k) = (if m0 \<le> this \<and> this \<le> mx then (this, i) else (m0, k0)) \<or>
      i + 1 \<le> k \<and> k < i + 1 + length ms \<and> m = ms ! (k - (i + 1))" by simp
  then show ?case by (auto simp: nth_Cons' split: if_splits)
qed simp

lemma begin_opens:
  assumes valid: "hdr_valid be shm" and version: "iVersion (aHdr0 shm) = WALINDEX_MAX_VERSION"
    and maps: "mapRc shm 0 = SQLITE_OK" and rw: "\<not> shmReadOnly w" and marks: "length (aReadMark (ckptInfo shm)) = WAL_NREADER"
  shows "\<exists>r shm'. sqlite3WalBeginReadTransaction be [] rsc log w shm = (SQLITE_OK, r, shm', [])"
proof -
  obtain b w1 where t: "walIndexTryHdr be w shm = (b, w1)" by (rule prod.exhaust)
  with valid have t: "walIndexTryHdr be w shm = (False, w1)" "hdr w1 = aHdr0 shm" "\<not> shmReadOnly w1"
    using rw by (auto simp: walIndexTryHdr_def hdr_valid_def Let_def split: if_splits)
  then have h: "walIndexReadHdr be [] rsc log w shm = (SQLITE_OK, w1, shm, [])"
    using version maps by (simp add: walIndexReadHdr_def Let_def)
  let ?mx = "unat (mxFrame (aHdr0 shm))" and ?ms = "aReadMark (ckptInfo shm)"
  obtain m k where best: "best_mark (take (WAL_NREADER - 1) (drop 1 ?ms)) 1 ?mx (0, 0) = (m, k)" by (rule prod.exhaust)
  have entry: "?ms ! k = m" if "k \<noteq> 0"
    using best_mark_entry[OF best] that marks by auto
  have claim: "claim_mark [] ms 1 (WAL_NREADER - 1) mx b r = Inr (SQLITE_OK, ms[1 := mx], (mx, 1), [])" for ms mx b r
    by (simp add: numeral_eq_Suc os_call_def)
  have "\<exists>r shm'. begin_in_log SQLITE_OK [] w1 shm = (SQLITE_OK, r, shm', [])"
  proof (cases "m < ?mx \<or> k = 0")
    case True
    then have "\<not> shmReadOnly w1 \<and> (fst (m, k) < ?mx \<or> snd (m, k) = 0)" using t(3) by simp
    then show ?thesis unfolding begin_in_log_def Let_def t(2) best claim
      using marks by (simp add: os_call_def set_marks_def t(2))
  next
    case False
    then have "(\<not> shmReadOnly w1 \<and> (fst (m, k) < ?mx \<or> snd (m, k) = 0)) = False" by simp
    then show ?thesis unfolding begin_in_log_def Let_def t(2) best
      using entry False by (simp add: os_call_def set_marks_def t(2))
  qed
  then have "\<exists>r shm'. walTryBeginRead be [] rsc log w shm False 1 = (SQLITE_OK, r, shm', [])"
    using h t(2) by (auto simp: walTryBeginRead_def os_call_def)
  then show ?thesis unfolding sqlite3WalBeginReadTransaction_def by (subst begin_loop_code) auto
qed

subsection \<open>The outcome\<close>

lemma locked_mode:
  "ckpt_locked be salt4 sc rsc eMode xb sync_flags nBuf w shm log db = (eMode2, rest) \<Longrightarrow>
    eMode2 = eMode \<or> eMode2 = SQLITE_CHECKPOINT_PASSIVE"
  by (auto simp: ckpt_locked_def Let_def split: prod.splits if_splits)

lemma locked_outcome:
  assumes ready: "ckpt_ready gs sz shm log db" and valid: "hdr_valid be shm"
    and run: "ckpt_locked be salt4 sc rsc eMode xb sync_flags nBuf w shm log db = (eMode2, rc, w', shm', log', db', sc')"
  shows "\<exists>shm1. ckpt_done gs sz shm db shm1 db' \<and>
    (shm' = shm1 \<and> log' = log \<and> (rc = SQLITE_OK \<longrightarrow> eMode2 \<noteq> SQLITE_CHECKPOINT_PASSIVE \<longrightarrow> length gs \<le> nBackfill (ckptInfo shm1)) \<or>
     length gs \<le> nBackfill (ckptInfo shm1) \<and> eMode2 = SQLITE_CHECKPOINT_TRUNCATE \<and>
       (\<exists>w1 w2. walRestartHdr be salt4 w1 shm1 = (w2, shm')))"
proof -
  obtain r0 w0 m0 xb0 sc0 where lock: "(if eMode = SQLITE_CHECKPOINT_PASSIVE then (SQLITE_OK, w, eMode, xb, sc)
      else let (rc, sc, xb) = walBusyLock sc xb in
        if rc = SQLITE_OK then (rc, w\<lparr>writeLock := True\<rparr>, eMode, xb, sc)
        else if rc = SQLITE_BUSY then (SQLITE_OK, w, SQLITE_CHECKPOINT_PASSIVE, None, sc)
        else (rc, w, eMode, xb, sc)) = (r0, w0, m0, xb0, sc0)"
    by (rule prod_cases5)
  obtain r1 w1 shm1 sc1 where rd: "walIndexReadHdr be sc0 rsc log w0 shm = (r1, w1, shm1, sc1)" by (rule prod_cases4)
  note V = valid_header_read[OF valid rd]
  have step: "(if r0 \<noteq> SQLITE_OK then (m0, r0, sqlite3WalEndWriteTransaction w0, shm, log, db, sc0)
     else case (if r1 \<noteq> SQLITE_OK then (r1, w1, shm, log, db, sc1)
           else if mxFrame (hdr w1) \<noteq> 0 \<and> page_size32 (hdrSzPage (hdr w1)) \<noteq> nBuf then (SQLITE_CORRUPT, w1, shm, log, db, sc1)
           else walCheckpoint be salt4 sc1 m0 xb0 sync_flags w1 shm log db) of
       (rc, w2, shm2, log, db, sc) \<Rightarrow> (m0, rc, sqlite3WalEndWriteTransaction
          (if header_changed be sc0 w0 shm w1 then w2\<lparr>hdr := zero_hdr\<rparr> else w2), shm2, log, db, sc)) =
     (eMode2, rc, w', shm', log', db', sc')"
    using run unfolding ckpt_locked_def lock by (simp only: rd V(1) Let_def prod.case)
  have none: "ckpt_done gs sz shm db shm db" by (rule ckpt_done_none) (simp_all add: same_index_def)
  show ?thesis
  proof (cases "r0 = SQLITE_OK \<and> r1 = SQLITE_OK \<and> \<not> (mxFrame (hdr w1) \<noteq> 0 \<and> page_size32 (hdrSzPage (hdr w1)) \<noteq> nBuf)")
    case True
    obtain w2 sc2 where "walCheckpoint be salt4 sc1 m0 xb0 sync_flags w1 shm log db = (rc, w2, shm', log', db', sc2)" "m0 = eMode2"
      using step True by (auto split: prod.splits)
    from walCheckpoint_done[OF ready V(2) this(1)] True this(2) show ?thesis by metis
  next
    case False
    then have "shm' = shm" "log' = log" "db' = db" "rc \<noteq> SQLITE_OK"
      using step by (auto split: if_splits)
    with none show ?thesis by blast
  qed
qed

lemma checkpoint_outcome:
  assumes ready: "ckpt_ready gs sz shm log db" and valid: "hdr_valid be shm"
    and run: "sqlite3WalCheckpoint be salt4 handler sc rsc eMode xb sync_flags nBuf w shm log db = (rc, w', shm', log', db', sc')"
  shows "\<exists>shm1. ckpt_done gs sz shm db shm1 db' \<and>
    (shm' = shm1 \<and> log' = log \<and> (rc = SQLITE_OK \<longrightarrow> eMode \<noteq> SQLITE_CHECKPOINT_PASSIVE \<longrightarrow> length gs \<le> nBackfill (ckptInfo shm1)) \<or>
     length gs \<le> nBackfill (ckptInfo shm1) \<and> eMode = SQLITE_CHECKPOINT_TRUNCATE \<and>
       (\<exists>w1 w2. walRestartHdr be salt4 w1 shm1 = (w2, shm')))"
proof (cases "\<exists>eMode2 r1 sc1. ckpt_locked be salt4 sc1 rsc eMode xb sync_flags nBuf w shm log db = (eMode2, r1, w', shm', log', db', sc') \<and>
    (rc = SQLITE_OK \<longrightarrow> r1 = SQLITE_OK \<and> eMode2 = eMode)")
  case True
  then obtain eMode2 r1 sc1 where
    l: "ckpt_locked be salt4 sc1 rsc eMode xb sync_flags nBuf w shm log db = (eMode2, r1, w', shm', log', db', sc')"
    "rc = SQLITE_OK \<longrightarrow> r1 = SQLITE_OK \<and> eMode2 = eMode" by blast
  from locked_mode[OF l(1)] locked_outcome[OF ready valid l(1)] l(2) show ?thesis by auto
next
  case False
  obtain eMode2 r1 rest where
    l: "ckpt_locked be salt4 (snd (os_call sc)) rsc eMode xb sync_flags nBuf w shm log db = (eMode2, r1, rest)" by (rule prod_cases3)
  have none: "ckpt_done gs sz shm db shm db" by (rule ckpt_done_none) (simp_all add: same_index_def)
  have "shm' = shm" "log' = log" "db' = db" "rc \<noteq> SQLITE_OK" using run False l
    by (auto simp: sqlite3WalCheckpoint_def Let_def split: option.splits prod.splits if_splits)
  with none show ?thesis by blast
qed

subsection \<open>Without faults and other users\<close>

lemma read_held_total:
  assumes "log_holds sz gs log" "0 < f" "f \<le> length gs"
  shows "\<exists>bs. os_read [] log (walFrameOffset f sz + WAL_FRAME_HDRSIZE) sz = (SQLITE_OK, bs, [])"
proof -
  have "gs \<noteq> []" using assms(2,3) by auto
  with assms(1) obtain pre big salt s tail where l: "length salt = 8" "length pre = WAL_HDRSIZE"
    "log = pre @ log_bytes big sz salt s gs @ tail" "\<forall>f \<in> set gs. frame_ok sz f" unfolding log_holds_def by blast
  have "(f - 1 + 1) * (sz + WAL_FRAME_HDRSIZE) \<le> length gs * (sz + WAL_FRAME_HDRSIZE)"
    using assms(2,3) by (intro mult_le_mono1) simp
  then have "walFrameOffset f sz + WAL_FRAME_HDRSIZE + sz \<le> length log"
    using l length_log_bytes[OF l(1,4), of big s] by (simp add: walFrameOffset_def)
  then show ?thesis by (simp add: os_read_def os_call_def)
qed

lemma copy_loop_total:
  assumes "iter_ok (map fst gs) it" "gs \<noteq> []" "0xFFFFFFFF \<notin> set (map fst gs)" "log_holds sz gs log" "sc = []"
  shows "\<exists>db'. copy_loop sc it f b mx mxPage sz log db = (SQLITE_OK, db', [])"
  using assms(1,4,5)
proof (induction sc it f b mx mxPage sz log db rule: copy_loop.induct)
  case (1 sc it f\<^sub>0 b mx mxPage sz log db)
  obtain eof p f it' where n: "walIteratorNext it f\<^sub>0 = (eof, p, f, it')" by (rule prod_cases4)
  have "map fst gs \<noteq> []" using assms(2) by simp
  note N = walIteratorNext_ok[OF 1(3) assms(3) this n]
  show ?case
  proof (cases "eof")
    case False
    then have f: "0 < f" "f \<le> length gs" "iter_ok (map fst gs) it'" using N by simp_all
    from read_held_total[OF 1(4) f(1,2)] obtain bs where rd:
      "os_read sc log (walFrameOffset f sz + WAL_FRAME_HDRSIZE) sz = (SQLITE_OK, bs, [])" by (auto simp: 1(5))
    obtain db2 where wr: "os_write [] db ((unat p - 1) * sz) bs = (SQLITE_OK, db2, [])" by (simp add: os_write_def)
    show ?thesis
    proof (cases "f \<le> b \<or> mx < f \<or> mxPage < p")
      case True
      from 1(1)[OF n[symmetric] refl refl False True f(3) 1(4,5)] show ?thesis
        using n False True by (simp add: copy_loop.simps[of sc it])
    next
      case copy: False
      from 1(2)[OF n[symmetric] refl refl False copy rd[symmetric] refl refl _ wr[symmetric] refl refl _ f(3) 1(4) refl]
      show ?thesis using n False copy rd wr by (simp add: copy_loop.simps[of sc it])
    qed
  next
    case True
    with n 1(5) show ?thesis by (simp add: copy_loop.simps[of "[]" it])
  qed
qed

lemma busy_lock_free: "walBusyLock [] xb = (SQLITE_OK, [], xb)"
  by (cases "([] :: os_script, xb)" rule: walBusyLock.cases) (auto simp: os_call_def)

lemma safe_frame_free: "\<exists>marks'. safe_frame [] xb marks i n mx SQLITE_OK = (SQLITE_OK, marks', mx, [], xb)"
  by (induction n arbitrary: marks i) (simp_all add: busy_lock_free Let_def)

lemma valid_header_opens:
  assumes "hdr_valid be shm" "iVersion (aHdr0 shm) = WALINDEX_MAX_VERSION" "mapRc shm 0 = SQLITE_OK"
  shows "\<exists>w1. walIndexReadHdr be sc rsc log w shm = (SQLITE_OK, w1, shm, sc) \<and> hdr w1 = aHdr0 shm \<and> shmReadOnly w1 = shmReadOnly w"
  using assms by (auto simp: hdr_valid_def walIndexReadHdr_def walIndexTryHdr_def Let_def)

lemma ckpt_copy_free:
  assumes ready: "ckpt_ready gs sz shm log db" and w: "hdr w = aHdr0 shm" and todo: "nBackfill (ckptInfo shm) < length gs"
  shows "\<exists>shm' db' xb'. ckpt_copy [] xb sync_flags w shm log db = (False, SQLITE_OK, shm', db', [], xb') \<and>
    nBackfill (ckptInfo shm') = length gs"
proof -
  have gs: "gs \<noteq> []" using todo by auto
  have h: "index_ok shm (map fst gs)" "unat (mxFrame (hdr w)) = length gs" "log_holds sz gs log" "\<forall>h. mapRc shm h = SQLITE_OK"
    "0xFFFFFFFF \<notin> set (map fst gs)" "page_size32 (hdrSzPage (hdr w)) = sz" "unat (mxFrame (aHdr0 shm)) = length gs"
    using ready gs by (simp_all add: ckpt_ready_def w page_size_roundtrip)
  obtain it where ini: "walIteratorInit [] w shm = (Inr it, [])"
    using init_segments_total[OF h(4)] by (auto simp: walIteratorInit_def os_call_def Let_def simp del: init_segments.simps) (metis sum.simps(6))
  have "map fst gs \<noteq> []" "unat (mxFrame (hdr w)) = length (map fst gs)" using gs h(2) by simp_all
  note it = walIteratorInit_ok[OF h(1) this ini]
  from safe_frame_free obtain marks where
    sf: "safe_frame [] xb (aReadMark (ckptInfo shm)) 1 (WAL_NREADER - 1) (length gs) SQLITE_OK = (SQLITE_OK, marks, length gs, [], xb)" by metis
  from copy_loop_total[OF it(1) gs h(5,3) refl] obtain db1 where
    cl: "copy_loop [] it 0 (nBackfill (ckptInfo shm)) (length gs) (nPage (hdr w)) sz log db = (SQLITE_OK, db1, [])" by metis
  have ok: "(if c then os_call [] else (SQLITE_OK, [])) = (SQLITE_OK, [])" for c by (simp add: os_call_def)
  have "\<exists>shm' db'. ckpt_backfill [] it (length gs) sync_flags sz w (set_marks shm marks) log db = (SQLITE_OK, shm', db', []) \<and>
      nBackfill (ckptInfo shm') = length gs"
    unfolding ckpt_backfill_def Let_def same_index_marks ok prod.case if_P[OF refl]
    by (simp add: ok os_call_def cl os_truncate_def same_index_marks h(7))
  then show ?thesis using todo
    unfolding ckpt_copy_def Let_def h(2,6) ini sf prod.case sum.case
    by (auto simp: same_index_marks busy_lock_free)
qed

lemma walCheckpoint_free:
  assumes ready: "ckpt_ready gs sz shm log db" and w: "hdr w = aHdr0 shm"
  shows "\<exists>w' shm' log' db'. walCheckpoint be salt4 [] eMode xb sync_flags w shm log db = (SQLITE_OK, w', shm', log', db', [])"
proof -
  have mx: "unat (mxFrame (hdr w)) = length gs" using ready by (simp add: ckpt_ready_def w)
  have "\<exists>shm1 db1 xb1. (if nBackfill (ckptInfo shm) < length gs then ckpt_copy [] xb sync_flags w shm log db
      else (False, SQLITE_OK, shm, db, [], xb)) = (False, SQLITE_OK, shm1, db1, [], xb1) \<and> length gs \<le> nBackfill (ckptInfo shm1)"
    using ckpt_copy_free[OF ready w, of xb sync_flags] by (auto simp: not_less)
  then obtain shm1 db1 xb1 where one: "(if nBackfill (ckptInfo shm) < length gs then ckpt_copy [] xb sync_flags w shm log db
      else (False, SQLITE_OK, shm, db, [], xb)) = (False, SQLITE_OK, shm1, db1, [], xb1)" "length gs \<le> nBackfill (ckptInfo shm1)" by blast
  obtain w2 shm2 where rs: "walRestartHdr be salt4 w shm1 = (w2, shm2)" by (rule prod.exhaust)
  show ?thesis unfolding walCheckpoint_def mx one(1) Let_def prod.case
    using one(2) by (simp add: busy_lock_free rs os_truncate_def os_call_def)
qed

lemma checkpoint_free:
  assumes ready: "ckpt_ready gs sz shm log db" and valid: "hdr_valid be shm"
    and free: "iVersion (aHdr0 shm) = WALINDEX_MAX_VERSION" "\<not> fileReadOnly w" "\<not> shmReadOnly w"
      "case handler of None \<Rightarrow> True | Some h \<Rightarrow> h (-1) = SQLITE_OK"
  shows "\<exists>w' shm' log' db'. sqlite3WalCheckpoint be salt4 handler [] rsc eMode xb sync_flags sz w shm log db =
    (SQLITE_OK, w', shm', log', db', [])"
proof -
  have maps: "mapRc shm 0 = SQLITE_OK" using ready by (simp add: ckpt_ready_def)
  have "\<exists>w0. (if eMode = SQLITE_CHECKPOINT_PASSIVE then (SQLITE_OK, w, eMode, xb, [])
      else let (rc, sc, xb) = walBusyLock [] xb in
        if rc = SQLITE_OK then (rc, w\<lparr>writeLock := True\<rparr>, eMode, xb, sc)
        else if rc = SQLITE_BUSY then (SQLITE_OK, w, SQLITE_CHECKPOINT_PASSIVE, None, sc)
        else (rc, w, eMode, xb, sc)) = (SQLITE_OK, w0, eMode, xb, [])"
    by (cases "eMode = SQLITE_CHECKPOINT_PASSIVE") (simp_all add: busy_lock_free)
  then obtain w0 where lock: "(if eMode = SQLITE_CHECKPOINT_PASSIVE then (SQLITE_OK, w, eMode, xb, [])
      else let (rc, sc, xb) = walBusyLock [] xb in
        if rc = SQLITE_OK then (rc, w\<lparr>writeLock := True\<rparr>, eMode, xb, sc)
        else if rc = SQLITE_BUSY then (SQLITE_OK, w, SQLITE_CHECKPOINT_PASSIVE, None, sc)
        else (rc, w, eMode, xb, sc)) = (SQLITE_OK, w0, eMode, xb, [])" by blast
  from valid_header_opens[OF valid free(1) maps, of "[]" rsc log w0] obtain w1 where
    rd: "walIndexReadHdr be [] rsc log w0 shm = (SQLITE_OK, w1, shm, [])" "hdr w1 = aHdr0 shm" by auto
  from walCheckpoint_free[OF ready rd(2)] obtain w2 shm2 log2 db2 where
    ck: "walCheckpoint be salt4 [] eMode xb sync_flags w1 shm log db = (SQLITE_OK, w2, shm2, log2, db2, [])" by metis
  have nbuf: "\<not> (mxFrame (hdr w1) \<noteq> 0 \<and> page_size32 (hdrSzPage (hdr w1)) \<noteq> sz)"
    using ready by (cases "gs = []") (auto simp: rd(2) ckpt_ready_def page_size_roundtrip unat_eq_0)
  have "\<exists>w3. ckpt_locked be salt4 [] rsc eMode xb sync_flags sz w shm log db = (eMode, SQLITE_OK, w3, shm2, log2, db2, [])"
    unfolding ckpt_locked_def lock by (simp only: rd(1) Let_def prod.case if_not_P[OF nbuf] ck simp_thms if_False) simp
  then show ?thesis using free(2-4) by (auto simp: sqlite3WalCheckpoint_def os_call_def split: option.splits)
qed

subsection \<open>Properties\<close>

text \<open>
  C2: a checkpoint never changes what the database contains. In whichever mode, whoever else
  holds locks, and whatever fails during it, a connection that opens a read transaction after it
  reads every page of the database as the log and the database file gave it before.
\<close>

theorem checkpoint_keeps_content:
  assumes "ckpt_ready gs sz shm log db" "hdr_valid be shm"
    and "sqlite3WalCheckpoint be salt4 handler sc rsc eMode xb sync_flags nBuf w shm log db = (rc, w', shm', log', db', sc')"
    and "sqlite3WalBeginReadTransaction be lsc rsc2 log' r0 shm' = (SQLITE_OK, r, shm2, lsc')"
    and "p \<noteq> 0" "p \<le> nPage (aHdr0 shm)"
  shows "read_page [] r shm2 log' db' sz p = (SQLITE_OK, page_content gs db sz p)"
proof -
  from checkpoint_outcome[OF assms(1-3)] obtain shm1 where c: "ckpt_done gs sz shm db shm1 db'"
    "shm' = shm1 \<and> log' = log \<or> length gs \<le> nBackfill (ckptInfo shm1) \<and> (\<exists>w1 w2. walRestartHdr be salt4 w1 shm1 = (w2, shm'))"
    by blast
  from c(2) show ?thesis
  proof
    assume same: "shm' = shm1 \<and> log' = log"
    have "hdr_valid be shm1" using c(1) assms(2) unfolding ckpt_done_def same_index_def hdr_valid_def by metis
    with begin_reader[of be shm1 lsc rsc2 log r0 r shm2 lsc'] assms(4) same have "only_marks shm1 shm2" "reader_of shm2 r" by simp_all
    from later_reader[OF assms(1) c(1) this assms(5,6)] same show ?thesis by simp
  next
    assume re: "length gs \<le> nBackfill (ckptInfo shm1) \<and> (\<exists>w1 w2. walRestartHdr be salt4 w1 shm1 = (w2, shm'))"
    then obtain w1 w2 where rs: "walRestartHdr be salt4 w1 shm1 = (w2, shm')" by blast
    from begin_reader[OF restart_header(1)[OF rs] assms(4)] restart_header(2)[OF rs]
    have "mxFrame (hdr r) = 0" by (auto simp: reader_of_def only_marks_def same_index_def)
    then have "sqlite3WalFindFrame r shm2 p = Inr 0" by (simp add: sqlite3WalFindFrame_def)
    moreover have "db_page db' sz p = page_content gs db sz p"
      using page_kept[OF assms(1) c(1) assms(5,6)] re log_lookup_le[of "map fst gs" 1 p] by simp
    ultimately show ?thesis
      by (auto simp: read_page_def readDbPage_def os_read_def os_call_def db_page_def Let_def)
  qed
qed

text \<open>When a blocking checkpoint reports success, the database file alone holds every page.\<close>

lemma complete_pages:
  assumes "ckpt_ready gs sz shm log db" "hdr_valid be shm"
    and "sqlite3WalCheckpoint be salt4 handler sc rsc eMode xb sync_flags nBuf w shm log db = (SQLITE_OK, w', shm', log', db', sc')"
    and "eMode \<noteq> SQLITE_CHECKPOINT_PASSIVE" "p \<noteq> 0" "p \<le> nPage (aHdr0 shm)"
  shows "db_page db' sz p = page_content gs db sz p"
proof -
  from checkpoint_outcome[OF assms(1-3)] assms(4) obtain shm1 where
    "ckpt_done gs sz shm db shm1 db'" "length gs \<le> nBackfill (ckptInfo shm1)" by auto
  with page_kept[OF assms(1) this(1) assms(5,6)] log_lookup_le[of "map fst gs" 1 p] show ?thesis by simp
qed

lemma log_lookup_take: "log_lookup ps k p \<le> m \<Longrightarrow> log_lookup (take m ps) k p = log_lookup ps k p"
proof (induction ps rule: rev_induct)
  case (snoc x ps)
  then show ?case by (cases "m \<le> length ps") (auto simp: log_lookup_snoc split: if_splits)
qed simp

text \<open>
  C10: a checkpoint never changes what an open reader sees. A reader whose read mark is still as it
  was reads every page of its snapshot, which may be older than the last commit, as before: the
  checkpoint copies no frame beyond the mark, and no page that the reader takes from the file.
\<close>

theorem checkpoint_keeps_snapshots:
  assumes "ckpt_ready gs sz shm log db" "hdr_valid be shm"
    and "sqlite3WalCheckpoint be salt4 handler sc rsc eMode xb sync_flags nBuf w shm log db = (rc, w', shm', log', db', sc')"
    and mark: "readLock r = int j" "mark_kept shm shm' j" "aReadMark (ckptInfo shm) ! j \<le> m" "aHdr0 shm' = aHdr0 shm"
    and r: "unat (mxFrame (hdr r)) = m" "m \<le> length gs" "hdrSzPage (hdr r) = hdrSzPage (aHdr0 shm)"
      "minFrame r \<le> nBackfill (ckptInfo shm) + 1"
    and p: "p \<noteq> 0" "m = length gs \<longrightarrow> p \<le> nPage (aHdr0 shm)"
  shows "read_page [] r shm' log' db' sz p = read_page [] r shm log db sz p"
proof -
  let ?ps = "map fst gs" and ?b = "nBackfill (ckptInfo shm)"
  let ?f = "log_lookup (take m ?ps) (minFrame r) p"
  from checkpoint_outcome[OF assms(1-3)] obtain shm1 where c: "ckpt_done gs sz shm db shm1 db'"
    "shm' = shm1 \<and> log' = log \<or> (\<exists>w1 w2. walRestartHdr be salt4 w1 shm1 = (w2, shm'))" by blast
  have j: "readLock r \<noteq> 0" using mark(1,2) by (simp add: mark_kept_def)
  from c obtain mx where mx: "mx \<le> length gs" "ckpt_result gs sz ?b mx (nPage (aHdr0 shm)) db (nBackfill (ckptInfo shm1)) db'"
    "mark_kept shm shm1 j \<Longrightarrow> mx \<le> aReadMark (ckptInfo shm) ! j" by (auto simp: ckpt_done_def)
  have old: "read_page [] r shm log db sz p = (SQLITE_OK, if ?f = 0 then db_page db sz p else frame_data gs ?f)"
    using read_lookup[OF assms(1) _ r(1-3) j, of shm db p] by (simp add: same_index_def Let_def)
  have empty: "gs = []" if "walRestartHdr be salt4 w1 shm1 = (w2, shm')" for w1 w2
    using restart_header(2)[OF that] assms(1) mark(4) by (simp add: ckpt_ready_def)
  have le: "mx \<le> m"
  proof (cases "shm' = shm1")
    case True
    with mx(3) mark(2,3) show ?thesis by simp
  next
    case False
    with c(2) empty mx(1) show ?thesis by auto
  qed
  have page: "db_page db' sz p = db_page db sz p" if "?f = 0"
  proof -
    have "\<not> copied ?ps ?b mx (nPage (aHdr0 shm)) 0 p"
    proof
      assume cp: "copied ?ps ?b mx (nPage (aHdr0 shm)) 0 p"
      then have "log_lookup (take m ?ps) 1 p = log_lookup ?ps 1 p" using le by (intro log_lookup_take) (simp add: copied_def)
      with that log_lookup_from[of "take m ?ps" "minFrame r" p] r(4) cp show False by (auto simp: copied_def split: if_splits)
    qed
    with mx(1,2) le p r(2) show ?thesis by (auto simp: ckpt_result_def)
  qed
  have "read_page [] r shm' log' db' sz p = (SQLITE_OK, if ?f = 0 then db_page db' sz p else frame_data gs ?f)"
  proof (cases "shm' = shm1 \<and> log' = log")
    case True
    with read_lookup[OF assms(1) _ r(1-3) j, of shm1 db' p] c(1) show ?thesis by (simp add: ckpt_done_def Let_def)
  next
    case False
    then have "gs = []" using c(2) empty by blast
    with r(1,2) have "sqlite3WalFindFrame r shm' p = Inr 0" "?f = 0"
      by (simp_all add: sqlite3WalFindFrame_def unat_eq_0 log_lookup_def)
    then show ?thesis by (auto simp: read_page_def readDbPage_def os_read_def os_call_def db_page_def Let_def)
  qed
  with old page show ?thesis by simp
qed

subsection \<open>An example\<close>

text \<open>A log of one commit that wrote page 2, none of it copied.\<close>

definition ckpt_example_shm :: wal_shm where
  "ckpt_example_shm =
     set_marks (snd (walIndexWriteHdr True (wal_example 1) (fst (snd (wi_enter shm_example 0 [2]))))) [0, 1, READMARK_NOT_USED, READMARK_NOT_USED, READMARK_NOT_USED]"

definition ckpt_example_frames :: "frame list" where
  "ckpt_example_frames = [(2, 9, replicate 512 7)]"

definition ckpt_example_log :: "u8 list" where
  "ckpt_example_log = replicate 32 0 @ log_bytes True 512 (replicate 8 1) (0, 0) ckpt_example_frames"

lemma ckpt_example: "ckpt_ready ckpt_example_frames 512 ckpt_example_shm ckpt_example_log db" "hdr_valid True ckpt_example_shm"
proof -
  let ?shm = "fst (snd (wi_enter shm_example 0 [2]))"
  have e: "fst (wi_enter shm_example 0 [2]) = SQLITE_OK" "mapRc ?shm = (\<lambda>_. 0)" "nBackfill (ckptInfo ?shm) = 0"
    by (simp_all add: index_eval Let_def)
  have "index_ok ?shm [2]"
    using wi_enter_ok[of shm_example "[]" "[2]" "fst (wi_enter shm_example 0 [2])" ?shm] e(1) by (auto simp: prod_eq_iff)
  then have idx: "index_ok ckpt_example_shm [2]" "mapRc ckpt_example_shm = (\<lambda>_. 0)" "nBackfill (ckptInfo ckpt_example_shm) = 0"
    using e(2,3) by (simp_all add: ckpt_example_shm_def walIndexWriteHdr_def set_marks_def index_ok_def Let_def)
  have hd: "mxFrame (aHdr0 ckpt_example_shm) = 1" "hdrSzPage (aHdr0 ckpt_example_shm) = 512" "nPage (aHdr0 ckpt_example_shm) = 9"
    by (simp_all add: ckpt_example_shm_def walIndexWriteHdr_def set_marks_def wal_example_def hdr_example_def Let_def)
  have log: "log_holds 512 ckpt_example_frames ckpt_example_log"
    unfolding log_holds_def ckpt_example_log_def
    by (intro conjI exI[of _ "replicate 32 0"] exI[of _ "[]"] exI[of _ True] exI[of _ "(0, 0)"] exI[of _ "replicate 8 1"])
      (simp_all add: ckpt_example_frames_def frame_ok_def)
  show "ckpt_ready ckpt_example_frames 512 ckpt_example_shm ckpt_example_log db"
    unfolding ckpt_ready_def idx hd using idx(1) log
    by (simp add: ckpt_example_frames_def page_size_ok_def page_size16_def backfilled_def)
  show "hdr_valid True ckpt_example_shm"
    by (simp add: ckpt_example_shm_def hdr_valid_def walIndexWriteHdr_def set_marks_def hdr_bytes_def Let_def)
qed

lemma ckpt_example_content: "page_content ckpt_example_frames db 512 2 = replicate 512 7" "nPage (aHdr0 ckpt_example_shm) = 9"
  by (simp_all add: page_content_def ckpt_example_frames_def ckpt_example_shm_def walIndexWriteHdr_def set_marks_def
      wal_example_def hdr_example_def Let_def)

lemma wal_example_rw: "\<not> shmReadOnly (wal_example n)"
  by (simp add: wal_example_def)

lemma ckpt_example_hdr: "hdrSzPage (aHdr0 ckpt_example_shm) = 512" "iVersion (aHdr0 ckpt_example_shm) = WALINDEX_MAX_VERSION"
  by (simp_all add: ckpt_example_shm_def walIndexWriteHdr_def set_marks_def wal_example_def hdr_example_def Let_def)

lemma ckpt_example_marks:
  "aReadMark (ckptInfo ckpt_example_shm) = [0, 1, READMARK_NOT_USED, READMARK_NOT_USED, READMARK_NOT_USED]"
  by (simp add: ckpt_example_shm_def set_marks_def)

lemma ckpt_example_after:
  assumes "sqlite3WalCheckpoint True salt4 handler sc rsc SQLITE_CHECKPOINT_PASSIVE xb sync_flags nBuf w
    ckpt_example_shm ckpt_example_log db = (rc, w', shm', log', db', sc')"
  shows "hdr_valid True shm'" "iVersion (aHdr0 shm') = WALINDEX_MAX_VERSION" "mapRc shm' 0 = SQLITE_OK"
    "length (aReadMark (ckptInfo shm')) = WAL_NREADER" "aHdr0 shm' = aHdr0 ckpt_example_shm" "mark_kept ckpt_example_shm shm' 1"
proof -
  have c: "ckpt_done ckpt_example_frames 512 ckpt_example_shm db shm' db'"
    using checkpoint_outcome[OF ckpt_example assms] by auto
  then have same: "same_index ckpt_example_shm shm'" by (simp add: ckpt_done_def)
  then show "hdr_valid True shm'" using ckpt_example(2) unfolding same_index_def hdr_valid_def by metis
  show "aHdr0 shm' = aHdr0 ckpt_example_shm" "iVersion (aHdr0 shm') = WALINDEX_MAX_VERSION"
    using same ckpt_example_hdr(2) by (simp_all add: same_index_def)
  have "mapRc ckpt_example_shm 0 = SQLITE_OK" using ckpt_example(1) by (simp add: ckpt_ready_def)
  with same show "mapRc shm' 0 = SQLITE_OK" by (simp add: same_index_def)
  show "length (aReadMark (ckptInfo shm')) = WAL_NREADER" "mark_kept ckpt_example_shm shm' 1"
    using c by (auto simp: ckpt_done_def mark_kept_def ckpt_example_marks ckpt_example_frames_def dest: spec[of _ 1])
qed

theorem checkpoint_keeps_content_witness:
  "case sqlite3WalCheckpoint True [9, 9, 9, 9] None [(0, 0), (0, 0), (0, 0), (0, 0), (0, 0), (0, 0), (0, 0), (10, 300)] []
       SQLITE_CHECKPOINT_PASSIVE None 2 512 (wal_example 0) ckpt_example_shm ckpt_example_log (replicate 1024 5) of
     (rc, w', shm', log', db', sc') \<Rightarrow>
       \<exists>r shm2. sqlite3WalBeginReadTransaction True [] [] log' (wal_example 0) shm' = (SQLITE_OK, r, shm2, []) \<and>
         read_page [] r shm2 log' db' 512 2 = (SQLITE_OK, replicate 512 7)"
proof -
  obtain rc w' shm' log' db' sc' where run: "sqlite3WalCheckpoint True [9, 9, 9, 9] None
      [(0, 0), (0, 0), (0, 0), (0, 0), (0, 0), (0, 0), (0, 0), (10, 300)] [] SQLITE_CHECKPOINT_PASSIVE None 2 512 (wal_example 0)
      ckpt_example_shm ckpt_example_log (replicate 1024 5) = (rc, w', shm', log', db', sc')" by (rule prod_cases6)
  note after = ckpt_example_after[OF run]
  obtain r shm2 where open_ok: "sqlite3WalBeginReadTransaction True [] [] log' (wal_example 0) shm' = (SQLITE_OK, r, shm2, [])"
    using begin_opens[OF after(1-3) _ after(4)] by (metis wal_example_rw)
  from checkpoint_keeps_content[OF ckpt_example run this, of 2]
  have "read_page [] r shm2 log' db' 512 2 = (SQLITE_OK, replicate 512 7)" by (simp add: ckpt_example_content)
  with open_ok show ?thesis unfolding run by blast
qed

theorem checkpoint_keeps_snapshots_witness:
  "case sqlite3WalCheckpoint True [9, 9, 9, 9] None [(0, 0), (0, 0), (0, 0), (0, 0), (0, 0), (0, 0), (0, 0), (10, 300)] []
       SQLITE_CHECKPOINT_PASSIVE None 2 512 (wal_example 0) ckpt_example_shm ckpt_example_log (replicate 1024 5) of
     (rc, w', shm', log', db', sc') \<Rightarrow>
       read_page [] (wal_example 1) shm' log' db' 512 2 = read_page [] (wal_example 1) ckpt_example_shm ckpt_example_log (replicate 1024 5) 512 2"
proof -
  obtain rc w' shm' log' db' sc' where run: "sqlite3WalCheckpoint True [9, 9, 9, 9] None
      [(0, 0), (0, 0), (0, 0), (0, 0), (0, 0), (0, 0), (0, 0), (10, 300)] [] SQLITE_CHECKPOINT_PASSIVE None 2 512 (wal_example 0)
      ckpt_example_shm ckpt_example_log (replicate 1024 5) = (rc, w', shm', log', db', sc')" by (rule prod_cases6)
  have "read_page [] (wal_example 1) shm' log' db' 512 2 =
      read_page [] (wal_example 1) ckpt_example_shm ckpt_example_log (replicate 1024 5) 512 2"
    by (rule checkpoint_keeps_snapshots[OF ckpt_example run, where j = 1 and m = 1])
      (use ckpt_example_after[OF run] in \<open>simp_all add: ckpt_example_frames_def ckpt_example_content ckpt_example_hdr
        wal_example_def hdr_example_def ckpt_example_marks\<close>)
  then show ?thesis unfolding run by simp
qed

text \<open>
  C12: without faults and other users every blocking checkpoint of a connection that may write
  succeeds, and the database file then holds every page of the last committed state.
\<close>

theorem checkpoint_succeeds:
  assumes "ckpt_ready gs sz shm log db" "hdr_valid be shm" "iVersion (aHdr0 shm) = WALINDEX_MAX_VERSION"
    and "\<not> fileReadOnly w" "\<not> shmReadOnly w" "case handler of None \<Rightarrow> True | Some h \<Rightarrow> h (-1) = SQLITE_OK"
    and "eMode \<noteq> SQLITE_CHECKPOINT_PASSIVE"
  shows "\<exists>w' shm' log' db'.
    sqlite3WalCheckpoint be salt4 handler [] rsc eMode xb sync_flags sz w shm log db = (SQLITE_OK, w', shm', log', db', []) \<and>
    (\<forall>p. p \<noteq> 0 \<longrightarrow> p \<le> nPage (aHdr0 shm) \<longrightarrow> db_page db' sz p = page_content gs db sz p)"
  using checkpoint_free[OF assms(1-6)] complete_pages[OF assms(1,2) _ assms(7)] by metis

theorem checkpoint_succeeds_witness:
  "\<exists>w' shm' log' db'. sqlite3WalCheckpoint True [9, 9, 9, 9] (Some (\<lambda>_. 0)) [] [] SQLITE_CHECKPOINT_FULL None 2 512 (wal_example 0)
      ckpt_example_shm ckpt_example_log [] = (SQLITE_OK, w', shm', log', db', []) \<and> db_page db' 512 2 = replicate 512 7"
proof -
  have "iVersion (aHdr0 ckpt_example_shm) = WALINDEX_MAX_VERSION"
    by (simp add: ckpt_example_shm_def walIndexWriteHdr_def set_marks_def Let_def)
  from checkpoint_succeeds[OF ckpt_example this, of "wal_example 0" "Some (\<lambda>_. 0)" SQLITE_CHECKPOINT_FULL "[9, 9, 9, 9]" "[]" None 2 "[]"]
  show ?thesis by (auto simp: wal_example_def ckpt_example_content dest!: spec[of _ 2])
qed

end
