(* ===== verification/Wal_Rollback.thy ===== *)
theory Wal_Rollback
  imports Wal_Checkpoint_Spec
begin

text \<open>
  Write transactions and taking their frames back (\<open>sqlite3WalBeginWriteTransaction\<close>,
  \<open>sqlite3WalUndo\<close>, \<open>sqlite3WalSavepoint\<close>, \<open>sqlite3WalSavepointUndo\<close> in \<open>wal.c\<close>). The pages that the
  cache is told to drop are recorded in order.
\<close>

abbreviation (input) SQLITE_BUSY_SNAPSHOT :: int where "SQLITE_BUSY_SNAPSHOT \<equiv> 517"

definition sqlite3WalBeginWriteTransaction :: "os_script \<Rightarrow> wal \<Rightarrow> wal_shm \<Rightarrow> int \<times> wal \<times> os_script" where
  "sqlite3WalBeginWriteTransaction sc w shm =
     (if fileReadOnly w \<or> shmReadOnly w then (SQLITE_READONLY, w, sc)
      else case os_call sc of (rc, sc) \<Rightarrow>
        if rc \<noteq> SQLITE_OK then (rc, w, sc)
        else if hdr w \<noteq> aHdr0 shm then (SQLITE_BUSY_SNAPSHOT, w\<lparr>writeLock := False\<rparr>, sc)
        else (SQLITE_OK, w\<lparr>writeLock := True\<rparr>, sc))"

text \<open>The frames after \<open>iFrame\<close>, \<open>n\<close> of them; the callback ends the loop with an error.\<close>

fun undo_loop :: "(u32 \<Rightarrow> int) \<Rightarrow> wal_shm \<Rightarrow> nat \<Rightarrow> nat \<Rightarrow> int \<times> u32 list" where
  "undo_loop xUndo shm iFrame 0 = (SQLITE_OK, [])"
| "undo_loop xUndo shm iFrame (Suc n) =
     (let p = walFramePgno shm (iFrame + 1); rc = xUndo p in
      if rc \<noteq> SQLITE_OK then (rc, [p])
      else case undo_loop xUndo shm (iFrame + 1) n of (rc, ps) \<Rightarrow> (rc, p # ps))"

definition sqlite3WalUndo :: "(u32 \<Rightarrow> int) \<Rightarrow> wal \<Rightarrow> wal_shm \<Rightarrow> int \<times> wal \<times> wal_shm \<times> u32 list" where
  "sqlite3WalUndo xUndo w shm =
     (if writeLock w then
        let iMax = unat (mxFrame (hdr w));
            w = w\<lparr>hdr := aHdr0 shm\<rparr>;
            mx = unat (mxFrame (hdr w));
            (rc, ps) = undo_loop xUndo shm mx (iMax - mx)
        in (rc, w, if iMax \<noteq> mx then walCleanupHash mx shm else shm, ps)
      else (SQLITE_OK, w, shm, []))"

text \<open>The four words of a savepoint.\<close>

definition sqlite3WalSavepoint :: "wal \<Rightarrow> u32 \<times> u32 \<times> u32 \<times> u32" where
  "sqlite3WalSavepoint w = (mxFrame (hdr w), fst (aFrameCksum (hdr w)), snd (aFrameCksum (hdr w)), nCkpt w)"

definition sqlite3WalSavepointUndo ::
  "wal \<Rightarrow> wal_shm \<Rightarrow> u32 \<times> u32 \<times> u32 \<times> u32 \<Rightarrow> int \<times> wal \<times> wal_shm \<times> (u32 \<times> u32 \<times> u32 \<times> u32)" where
  "sqlite3WalSavepointUndo w shm aWalData =
     (let (d0, d1, d2, d3) = aWalData;
          (d0, d3) = (if d3 \<noteq> nCkpt w then (0, nCkpt w) else (d0, d3))
      in if d0 < mxFrame (hdr w)
         then (SQLITE_OK, w\<lparr>hdr := (hdr w)\<lparr>mxFrame := d0, aFrameCksum := (d1, d2)\<rparr>\<rparr>, walCleanupHash (unat d0) shm, (d0, d1, d2, d3))
         else (SQLITE_OK, w, shm, (d0, d1, d2, d3)))"

definition sqlite3WalCallback :: "wal \<Rightarrow> nat \<times> wal" where
  "sqlite3WalCallback w = (iCallback w, w\<lparr>iCallback := 0\<rparr>)"

definition sqlite3WalLimit :: "wal \<Rightarrow> int \<Rightarrow> wal" where
  "sqlite3WalLimit w iLimit = w\<lparr>mxWalSize := iLimit\<rparr>"

subsection \<open>Rollback\<close>

lemma undo_loop_log:
  assumes "index_ok shm (ps @ qs @ rest)" "\<forall>p. xUndo p = SQLITE_OK"
  shows "undo_loop xUndo shm (length ps) (length qs) = (SQLITE_OK, qs)"
  using assms(1)
proof (induction qs arbitrary: ps)
  case (Cons q qs)
  have "walFramePgno shm (length ps + 1) = q" using walFramePgno_log[OF Cons.prems, of "length ps + 1"] by (simp add: nth_append)
  moreover have "undo_loop xUndo shm (length ps + 1) (length qs) = (SQLITE_OK, qs)"
    using Cons.IH[of "ps @ [q]"] Cons.prems by simp
  ultimately show ?case using spec[OF assms(2), of q] by (simp add: Let_def)
qed simp

text \<open>
  C13: rolling back a transaction that has written frames. The connection is back at the header
  that the readers see; the cache drops exactly the pages written since, in their order; and the
  index holds the committed pages, nothing of the transaction, so that the next writer can go on.
\<close>

theorem rollback_undoes:
  assumes "index_ok shm (ps @ qs)" "writeLock w" "unat (mxFrame (hdr w)) = length (ps @ qs)"
    and "unat (mxFrame (aHdr0 shm)) = length ps" "\<forall>p. xUndo p = SQLITE_OK"
    and "sqlite3WalUndo xUndo w shm = (rc, w', shm', dropped)"
  shows "rc = SQLITE_OK \<and> w' = w\<lparr>hdr := aHdr0 shm\<rparr> \<and> dropped = qs \<and>
    index_ok shm' ps \<and> (qs \<noteq> [] \<longrightarrow> index_tight shm' ps) \<and> aHdr0 shm' = aHdr0 shm \<and> mapRc shm' = mapRc shm"
proof -
  have idx: "index_ok shm ps" using index_ok_take[OF assms(1), of "length ps"] by simp
  have "undo_loop xUndo shm (length ps) (length qs) = (SQLITE_OK, qs)"
    using undo_loop_log[of shm ps qs "[]" xUndo] assms(1,5) by simp
  then have "rc = SQLITE_OK" "w' = w\<lparr>hdr := aHdr0 shm\<rparr>" "dropped = qs"
    "shm' = (if qs \<noteq> [] then walCleanupHash (length ps) shm else shm)"
    using assms(2-4,6) by (auto simp: sqlite3WalUndo_def Let_def)
  with idx cleanup_index[OF idx] show ?thesis by (simp add: walCleanupHash_def Let_def)
qed

text \<open>
  A savepoint: whatever has been appended since, going back to it restores the end of the log
  and the running checksum of the connection, and the index holds the pages of then.
\<close>

lemma savepoint_restores:
  assumes "index_ok shm (ps @ qs)" "unat (mxFrame (hdr w\<^sub>0)) = length ps" "nCkpt w = nCkpt w\<^sub>0"
    and "unat (mxFrame (hdr w)) = length (ps @ qs)" "qs = [] \<longrightarrow> aFrameCksum (hdr w) = aFrameCksum (hdr w\<^sub>0)"
    and "sqlite3WalSavepointUndo w shm (sqlite3WalSavepoint w\<^sub>0) = (rc, w', shm', d)"
  shows "rc = SQLITE_OK \<and> d = sqlite3WalSavepoint w\<^sub>0 \<and> sqlite3WalSavepoint w' = sqlite3WalSavepoint w\<^sub>0 \<and> index_ok shm' ps"
proof -
  have idx: "index_ok shm ps" using index_ok_take[OF assms(1), of "length ps"] by simp
  have less: "mxFrame (hdr w\<^sub>0) < mxFrame (hdr w) \<longleftrightarrow> qs \<noteq> []" using assms(2,4) by (simp add: word_less_nat_alt)
  have same: "mxFrame (hdr w) = mxFrame (hdr w\<^sub>0)" if "qs = []" using assms(2,4) that by (simp add: word_unat_eq_iff)
  show ?thesis
    using assms(2,3,5,6) less same idx cleanup_index(1)[OF idx]
    by (cases "qs = []") (auto simp: sqlite3WalSavepointUndo_def sqlite3WalSavepoint_def prod_eq_iff Let_def)
qed

text \<open>A write transaction starts only on the newest snapshot.\<close>

lemma begin_write_newest:
  "sqlite3WalBeginWriteTransaction sc w shm = (SQLITE_OK, w', sc') \<Longrightarrow>
    hdr w' = aHdr0 shm \<and> w' = w\<lparr>writeLock := True\<rparr> \<and> \<not> fileReadOnly w \<and> \<not> shmReadOnly w"
  by (auto simp: sqlite3WalBeginWriteTransaction_def split: prod.splits if_splits)

subsection \<open>An example\<close>

lemma entered_example:
  assumes "wi_enter ckpt_example_shm 1 [3, 2] = (rc, shm, n)"
  shows "index_ok shm [2, 3, 2]" "mxFrame (aHdr0 shm) = 1"
proof -
  have h: "index_ok ckpt_example_shm [2]" "\<forall>h. mapRc ckpt_example_shm h = SQLITE_OK" "mxFrame (aHdr0 ckpt_example_shm) = 1"
    using ckpt_example(1)[of "[]"] by (auto simp: ckpt_ready_def ckpt_example_frames_def word_unat_eq_iff)
  have "append_frames 1 ckpt_example_shm (length [2 :: u32]) [3, 2] = (rc, shm, n)" using assms by (simp add: wi_enter_def)
  from append_frames_ok[OF h(1) _ _ this] h(2,3) show "index_ok shm [2, 3, 2]" "mxFrame (aHdr0 shm) = 1" by auto
qed

theorem rollback_undoes_witness:
  "case wi_enter ckpt_example_shm 1 [3, 2] of (r, shm, n) \<Rightarrow>
     case sqlite3WalUndo (\<lambda>_. 0) ((wal_example 3)\<lparr>writeLock := True\<rparr>) shm of
       (rc, w', shm', dropped) \<Rightarrow> rc = SQLITE_OK \<and> dropped = [3, 2] \<and> index_ok shm' [2]"
proof -
  obtain r shm n where e: "wi_enter ckpt_example_shm 1 [3, 2] = (r, shm, n)" by (rule prod_cases3)
  let ?w = "(wal_example 3)\<lparr>writeLock := True\<rparr>"
  obtain rc w' shm' dropped where u: "sqlite3WalUndo (\<lambda>_. 0) ?w shm = (rc, w', shm', dropped)" by (rule prod_cases4)
  from rollback_undoes[of shm "[2]" "[3, 2]" ?w, OF _ _ _ _ _ u] entered_example[OF e]
  have "rc = SQLITE_OK \<and> dropped = [3, 2] \<and> index_ok shm' [2]" by (simp add: wal_example_def hdr_example_def)
  then show ?thesis unfolding e u prod.case .
qed

lemma savepoint_example:
  "case wi_enter ckpt_example_shm 1 [3, 2] of (r, shm, n) \<Rightarrow>
     case sqlite3WalSavepointUndo (wal_example 3) shm (sqlite3WalSavepoint (wal_example 1)) of
       (rc, w', shm', d) \<Rightarrow> rc = SQLITE_OK \<and> mxFrame (hdr w') = 1 \<and> index_ok shm' [2]"
proof -
  obtain r shm n where e: "wi_enter ckpt_example_shm 1 [3, 2] = (r, shm, n)" by (rule prod_cases3)
  obtain rc w' shm' d where u: "sqlite3WalSavepointUndo (wal_example 3) shm (sqlite3WalSavepoint (wal_example 1)) = (rc, w', shm', d)"
    by (rule prod_cases4)
  from savepoint_restores[of shm "[2]" "[3, 2]" "wal_example 1" "wal_example 3", OF _ _ _ _ _ u] entered_example[OF e]
  have "rc = SQLITE_OK \<and> mxFrame (hdr w') = 1 \<and> index_ok shm' [2]"
    by (simp add: wal_example_def hdr_example_def sqlite3WalSavepoint_def)
  then show ?thesis unfolding e u prod.case .
qed

end
