(* ===== verification/Wal_Close.thy ===== *)
theory Wal_Close
  imports Wal_Rollback
begin

text \<open>
  Closing a log (\<open>sqlite3WalClose\<close> in \<open>wal.c\<close>): the last connection checkpoints the log and then
  deletes or empties it.
\<close>

text \<open>
  Closing the last connection: the result code, the log file (\<open>None\<close> when it has been deleted) and
  the database file. \<open>bPersist\<close> is what the VFS answers for a persistent log.
\<close>

definition sqlite3WalClose ::
  "bool \<Rightarrow> u8 list \<Rightarrow> (int \<Rightarrow> int) option \<Rightarrow> os_script \<Rightarrow> os_script \<Rightarrow> bool \<Rightarrow> nat \<Rightarrow> nat \<Rightarrow> wal \<Rightarrow> wal_shm \<Rightarrow> u8 list \<Rightarrow> u8 list \<Rightarrow>
   int \<times> u8 list option \<times> u8 list \<times> os_script" where
  "sqlite3WalClose be salt4 handler sc rsc bPersist sync_flags nBuf w shm log db =
     (case os_call sc of (rc, sc) \<Rightarrow> \<comment> \<open>the exclusive lock on the database\<close>
        if rc \<noteq> SQLITE_OK then (rc, Some log, db, sc)
        else case sqlite3WalCheckpoint be salt4 handler sc rsc SQLITE_CHECKPOINT_PASSIVE None sync_flags nBuf w shm log db of
          (rc, w, shm, log, db, sc) \<Rightarrow>
            if rc \<noteq> SQLITE_OK then (rc, Some log, db, sc)
            else if \<not> bPersist then
              (case os_call sc of (rx, sc) \<Rightarrow> (rc, if rx = SQLITE_OK then None else Some log, db, sc))
            else if 0 \<le> mxWalSize w then (case walLimitSize sc log 0 of (log, sc) \<Rightarrow> (rc, Some log, db, sc))
            else (rc, Some log, db, sc))"

text \<open>
  What the exclusive lock on the database ensures. The connection that has it is alone: in
  \<open>WAL_EXCLUSIVE_MODE\<close> the requests for the locks of the log return \<open>SQLITE_OK\<close> without asking
  anybody, and no operation on a file answers that somebody else is busy. The lock requests are
  calls of the script here, so they may even fail with another code. As long as the lock is not
  granted nothing is assumed: any call may answer anything.
\<close>

definition never_busy :: "os_script \<Rightarrow> bool" where
  "never_busy sc \<longleftrightarrow> (\<forall>r \<in> set sc. fst r \<noteq> SQLITE_BUSY)"

definition alone_when_locked :: "os_script \<Rightarrow> bool" where
  "alone_when_locked sc \<longleftrightarrow> (case os_call sc of (rc, sc') \<Rightarrow> rc = SQLITE_OK \<longrightarrow> never_busy sc')"

lemma never_busy_outcome: "outcome sc = ((rc, k), sc') \<Longrightarrow> never_busy sc \<Longrightarrow> rc \<noteq> SQLITE_BUSY \<and> never_busy sc'"
  by (cases sc) (auto simp: never_busy_def)

lemma never_busy_calls:
  assumes "never_busy sc"
  shows "os_call sc = (rc, sc') \<Longrightarrow> rc \<noteq> SQLITE_BUSY \<and> never_busy sc'"
    "os_read sc file off n = (rc, bs, sc') \<Longrightarrow> rc \<noteq> SQLITE_BUSY \<and> never_busy sc'"
    "os_write sc file off bs = (rc, file', sc') \<Longrightarrow> rc \<noteq> SQLITE_BUSY \<and> never_busy sc'"
    "os_truncate sc file n = (rc, file', sc') \<Longrightarrow> rc \<noteq> SQLITE_BUSY \<and> never_busy sc'"
    "walBusyLock sc None = (rc, sc', xb) \<Longrightarrow> rc \<noteq> SQLITE_BUSY \<and> never_busy sc' \<and> xb = None"
  using assms never_busy_outcome[of sc]
  by (auto simp: os_call_def os_read_def os_write_def os_truncate_def Let_def split: prod.splits if_splits)

lemma never_busy_copy:
  "copy_loop sc it f b mx mxPage sz log db = (rc, db', sc') \<Longrightarrow> never_busy sc \<Longrightarrow> rc \<noteq> SQLITE_BUSY \<and> never_busy sc'"
proof (induction sc it f b mx mxPage sz log db rule: copy_loop.induct)
  case (1 sc it f\<^sub>0 b mx mxPage sz log db)
  obtain eof p f it' where n: "walIteratorNext it f\<^sub>0 = (eof, p, f, it')" by (rule prod_cases4)
  note step = 1(3)[unfolded copy_loop.simps[of sc it] n prod.case]
  show ?case
  proof (cases "eof \<or> f \<le> b \<or> mx < f \<or> mxPage < p")
    case True
    then show ?thesis using step 1(1)[OF n[symmetric] refl refl] 1(4) by (auto split: if_splits)
  next
    case False
    obtain r1 bs sc1 where rd: "os_read sc log (walFrameOffset f sz + WAL_FRAME_HDRSIZE) sz = (r1, bs, sc1)" by (rule prod_cases3)
    obtain r2 db2 sc2 where wr: "os_write sc1 db ((unat p - 1) * sz) bs = (r2, db2, sc2)" by (rule prod_cases3)
    note nb1 = never_busy_calls(2)[OF 1(4) rd]
    note nb2 = never_busy_calls(3)[OF conjunct2[OF nb1] wr]
    show ?thesis
    proof (cases "r1 = SQLITE_OK \<and> r2 = SQLITE_OK")
      case True
      with step False rd wr have "copy_loop sc2 it' f b mx mxPage sz log db2 = (rc, db', sc')" by simp
      with 1(2)[OF n[symmetric] refl refl _ _ rd[symmetric] refl refl _ wr[symmetric] refl refl] True False nb2 show ?thesis by simp
    next
      case other: False
      with step False rd wr nb1 nb2 show ?thesis by (auto split: if_splits)
    qed
  qed
qed

lemma never_busy_safe:
  assumes "safe_frame sc None marks i n mx rc = (rc', marks', mx', sc', xb)" "never_busy sc" "rc \<noteq> SQLITE_BUSY"
  shows "rc' \<noteq> SQLITE_BUSY \<and> never_busy sc' \<and> xb = None \<and> mx' = mx"
  using assms
proof (induction n arbitrary: sc marks i rc)
  case (Suc n)
  obtain r1 sc1 xb1 where lock: "walBusyLock sc None = (r1, sc1, xb1)" by (rule prod_cases3)
  note nb = never_busy_calls(5)[OF Suc.prems(2) lock]
  show ?case
  proof (cases "marks ! i < mx")
    case True
    show ?thesis
    proof (cases "r1 = SQLITE_OK")
      case ok: True
      with True Suc.prems(1) lock nb Suc.IH[of sc1 _ "i + 1" SQLITE_OK] show ?thesis by (simp add: Let_def)
    next
      case False
      with True Suc.prems(1) lock nb show ?thesis by (simp add: Let_def)
    qed
  next
    case False
    with Suc.prems Suc.IH[of sc marks "i + 1" rc] show ?thesis by (simp add: Let_def)
  qed
qed simp

lemma backfill_all:
  assumes "ckpt_backfill sc it mx sync_flags sz w shm log db = (rc, shm', db', sc')" "never_busy sc"
  shows "rc \<noteq> SQLITE_BUSY" "rc = SQLITE_OK \<Longrightarrow> nBackfill (ckptInfo shm') = mx"
proof -
  obtain r0 sc0 where c0: "(if sync_flags \<noteq> 0 then os_call sc else (SQLITE_OK, sc)) = (r0, sc0)" by (rule prod.exhaust)
  obtain r2 sc2 where c2: "(if r0 = SQLITE_OK then os_call sc0 else (r0, sc0)) = (r2, sc2)" by (rule prod.exhaust)
  obtain r1 db1 sc1 where c1: "(if r2 = SQLITE_OK then copy_loop sc2 it 0 (nBackfill (ckptInfo shm)) mx (nPage (hdr w)) sz log db
      else (r2, db, sc2)) = (r1, db1, sc1)" by (rule prod_cases3)
  have n0: "r0 \<noteq> SQLITE_BUSY \<and> never_busy sc0" using c0 assms(2) never_busy_calls(1)[of sc] by (auto split: if_splits)
  then have n2: "r2 \<noteq> SQLITE_BUSY \<and> never_busy sc2" using c2 never_busy_calls(1)[of sc0] by (auto split: if_splits)
  then have n1: "r1 \<noteq> SQLITE_BUSY \<and> never_busy sc1" using c1 never_busy_copy by (auto split: if_splits)
  note step = assms(1)[unfolded ckpt_backfill_def Let_def c0 c2 c1 prod.case]
  obtain r3 db3 sc3 where tr: "os_truncate sc1 db1 (unat (nPage (hdr w)) * sz) = (r3, db3, sc3)" by (rule prod_cases3)
  note n3 = never_busy_calls(4)[OF conjunct2[OF n1] tr]
  obtain r4 sc4 where fs: "os_call sc3 = (r4, sc4)" by (rule prod.exhaust)
  note n4 = never_busy_calls(1)[OF conjunct2[OF n3] fs]
  show "rc \<noteq> SQLITE_BUSY" "rc = SQLITE_OK \<Longrightarrow> nBackfill (ckptInfo shm') = mx"
    using step tr fs n1 n3 n4 by (auto split: if_splits)
qed

lemma never_busy_init: "walIteratorInit sc w shm = (ini, sc') \<Longrightarrow> never_busy sc \<Longrightarrow> never_busy sc'"
  unfolding walIteratorInit_def Let_def
  by (auto simp del: init_segments.simps dest!: never_busy_calls(1)[rotated] split: prod.splits if_splits sum.splits)

lemma init_error: "walIteratorInit sc w shm = (Inl rc, sc') \<Longrightarrow> rc \<noteq> SQLITE_OK"
  by (auto simp: walIteratorInit_def Let_def simp del: init_segments.simps dest: init_segments_error split: sum.splits prod.splits if_splits)

lemma copy_all:
  assumes "ckpt_copy sc None sync_flags w shm log db = (out, SQLITE_OK, shm', db', sc', xb)" "never_busy sc"
  shows "nBackfill (ckptInfo shm') = unat (mxFrame (hdr w)) \<or> unat (mxFrame (hdr w)) \<le> nBackfill (ckptInfo shm) \<and> nBackfill (ckptInfo shm') = nBackfill (ckptInfo shm)"
proof -
  let ?mx = "unat (mxFrame (hdr w))"
  obtain ini sc1 where ini: "walIteratorInit sc w shm = (ini, sc1)" by (rule prod.exhaust)
  have n1: "never_busy sc1" by (rule never_busy_init[OF ini assms(2)])
  obtain it where it: "ini = Inr it"
  proof (cases ini)
    case (Inl e)
    with assms(1) ini have "e = SQLITE_OK" by (simp add: ckpt_copy_def)
    with ini Inl show ?thesis using init_error by blast
  qed
  obtain r2 marks mx2 sc2 xb2 where
    sf: "safe_frame sc1 None (aReadMark (ckptInfo shm)) 1 (WAL_NREADER - 1) ?mx SQLITE_OK = (r2, marks, mx2, sc2, xb2)" by (rule prod_cases5)
  from never_busy_safe[OF sf n1] have n2: "r2 \<noteq> SQLITE_BUSY" "never_busy sc2" "xb2 = None" "mx2 = ?mx" by simp_all
  obtain r3 sc3 xb3 where lock: "walBusyLock sc2 None = (r3, sc3, xb3)" by (rule prod_cases3)
  note n3 = never_busy_calls(5)[OF n2(2) lock]
  obtain r4 shm4 db4 sc4 where
    bf: "ckpt_backfill sc3 it ?mx sync_flags (page_size32 (hdrSzPage (hdr w))) w (set_marks shm marks) log db = (r4, shm4, db4, sc4)"
    by (rule prod_cases4)
  note n4 = backfill_all[OF bf conjunct1[OF conjunct2[OF n3]]]
  note step = assms(1)[unfolded ckpt_copy_def Let_def ini it sf prod.case sum.case n2(3,4) lock bf same_index_marks]
  show ?thesis
  proof (cases "r2 = SQLITE_OK \<and> nBackfill (ckptInfo shm) < ?mx")
    case True
    with step n3 n4 show ?thesis by (cases "r3 = SQLITE_OK") auto
  next
    case False
    with step n2(1) show ?thesis by (auto simp: same_index_marks split: if_splits)
  qed
qed

lemma valid_header_calls:
  "hdr_valid be shm \<Longrightarrow> walIndexReadHdr be sc rsc log w shm = (rc, w', shm', sc') \<Longrightarrow> sc' = sc"
  by (auto simp: hdr_valid_def walIndexReadHdr_def walIndexTryHdr_def Let_def split: if_splits)

lemma passive_all:
  assumes ready: "ckpt_ready gs sz shm log db" and w: "hdr w = aHdr0 shm" and nb: "never_busy sc"
    and run: "walCheckpoint be salt4 sc SQLITE_CHECKPOINT_PASSIVE None sync_flags w shm log db = (SQLITE_OK, w', shm', log', db', sc')"
  shows "length gs \<le> nBackfill (ckptInfo shm')"
proof -
  have mx: "unat (mxFrame (hdr w)) = length gs" using ready by (simp add: ckpt_ready_def w)
  show ?thesis
  proof (cases "nBackfill (ckptInfo shm) < length gs")
    case True
    obtain out r1 shm1 db1 sc1 xb1 where cp: "ckpt_copy sc None sync_flags w shm log db = (out, r1, shm1, db1, sc1, xb1)" by (rule prod_cases6)
    have "r1 = SQLITE_OK" "shm' = shm1" using run True by (auto simp: walCheckpoint_def mx cp Let_def)
    with copy_all[OF cp[unfolded this(1)] nb] True show ?thesis by (auto simp: mx)
  next
    case False
    with run show ?thesis by (auto simp: walCheckpoint_def mx Let_def)
  qed
qed

lemma passive_complete:
  assumes ready: "ckpt_ready gs sz shm log db" and valid: "hdr_valid be shm" and nb: "never_busy sc"
    and run: "sqlite3WalCheckpoint be salt4 handler sc rsc SQLITE_CHECKPOINT_PASSIVE None sync_flags nBuf w shm log db =
      (SQLITE_OK, w', shm', log', db', sc')"
  shows "length gs \<le> nBackfill (ckptInfo shm')"
proof -
  obtain r0 sc0 where c0: "os_call sc = (r0, sc0)" by (rule prod.exhaust)
  have nb0: "never_busy sc0" using never_busy_calls(1)[OF nb c0] by simp
  obtain r1 w1 shm1 sc1 where rh: "walIndexReadHdr be sc0 rsc log w shm = (r1, w1, shm1, sc1)" by (rule prod_cases4)
  note V = valid_header_read[OF valid rh] valid_header_calls[OF valid rh]
  obtain r2 w2 shm2 log2 db2 sc2 where
    ck: "walCheckpoint be salt4 sc0 SQLITE_CHECKPOINT_PASSIVE None sync_flags w1 shm log db = (r2, w2, shm2, log2, db2, sc2)" by (rule prod_cases6)
  have out: "r1 = SQLITE_OK" "r2 = SQLITE_OK" "shm' = shm2" "log' = log2"
    using run c0 rh ck V(1,4) by (auto simp: sqlite3WalCheckpoint_def ckpt_locked_def Let_def split: if_splits option.splits)
  from passive_all[OF ready V(2)[OF out(1)] nb0 ck[unfolded out(2)]] show ?thesis by (simp add: out)
qed

text \<open>
  C11: closing a log keeps the database. A connection that does not get the exclusive lock changes
  neither file and returns the code of the lock. One that gets it is alone; whatever other calls
  then fail, a log that is still there afterwards is as it was and gives, together with the
  database file, the pages of before; and a log that has been deleted or emptied is no longer
  needed, because the checkpoint has succeeded and the file alone holds all the pages.
\<close>

theorem close_keeps_content:
  assumes "ckpt_ready gs sz shm log db" "hdr_valid be shm" "alone_when_locked sc"
    and "sqlite3WalClose be salt4 handler sc rsc bPersist sync_flags nBuf w shm log db = (rc, log', db', sc')"
    and "p \<noteq> 0" "p \<le> nPage (aHdr0 shm)"
  shows "(fst (os_call sc) \<noteq> SQLITE_OK \<longrightarrow> rc = fst (os_call sc) \<and> log' = Some log \<and> db' = db) \<and>
    page_content gs db' sz p = page_content gs db sz p \<and>
    (log' \<noteq> Some log \<longrightarrow> rc = SQLITE_OK \<and> db_page db' sz p = page_content gs db sz p)"
proof (cases "fst (os_call sc) = SQLITE_OK")
  case True
  then obtain sc0 where c0: "os_call sc = (SQLITE_OK, sc0)" by (metis prod.exhaust_sel)
  have nb: "never_busy sc0" using assms(3) by (simp add: alone_when_locked_def c0)
  obtain r1 w1 shm1 log1 db1 sc1 where ck: "sqlite3WalCheckpoint be salt4 handler sc0 rsc SQLITE_CHECKPOINT_PASSIVE None
      sync_flags nBuf w shm log db = (r1, w1, shm1, log1, db1, sc1)" by (rule prod_cases6)
  note O = checkpoint_outcome[OF assms(1,2) ck]
  have log1: "log1 = log" and c: "ckpt_done gs sz shm db shm1 db1" using O by auto
  have same: "page_content gs db1 sz p = page_content gs db sz p"
    using page_kept[OF assms(1) c assms(5,6)] by (auto simp: log_lookup_content Let_def)
  have out: "db' = db1 \<and> (log' \<noteq> Some log \<longrightarrow> rc = SQLITE_OK \<and> r1 = SQLITE_OK)"
    using assms(4) c0 ck log1 by (auto simp: sqlite3WalClose_def split: if_splits prod.splits)
  have "db_page db1 sz p = page_content gs db sz p" if "r1 = SQLITE_OK"
    using passive_complete[OF assms(1,2) nb ck[unfolded that]] page_kept[OF assms(1) c assms(5,6)]
      log_lookup_le[of "map fst gs" 1 p] by simp
  with True out same show ?thesis by auto
next
  case False
  then show ?thesis using assms(4) by (auto simp: sqlite3WalClose_def split: prod.splits)
qed

theorem close_keeps_content_witness:
  "(case sqlite3WalClose True [9, 9, 9, 9] None [(0, 0), (0, 0), (0, 0), (0, 0), (0, 0), (0, 0), (0, 0), (10, 300)] [] False 2 512
       (wal_example 0) ckpt_example_shm ckpt_example_log (replicate 1024 5) of
     (rc, log', db', sc') \<Rightarrow> page_content ckpt_example_frames db' 512 1 = replicate 512 5 \<and>
       (log' = Some ckpt_example_log \<or> db_page db' 512 2 = replicate 512 7)) \<and>
   (case sqlite3WalClose True [9, 9, 9, 9] None [(5, 0), (0, 0), (0, 0), (5, 0)] [] False 2 512
       (wal_example 0) ckpt_example_shm ckpt_example_log (replicate 1024 5) of
     (rc, log', db', sc') \<Rightarrow> rc = SQLITE_BUSY \<and> log' = Some ckpt_example_log \<and> db' = replicate 1024 5)"
proof -
  let ?sc = "[(0, 0), (0, 0), (0, 0), (0, 0), (0, 0), (0, 0), (0, 0), (10, 300)]" and ?busy = "[(5, 0), (0, 0), (0, 0), (5, 0)]"
  obtain rc log' db' sc' where run: "sqlite3WalClose True [9, 9, 9, 9] None ?sc [] False 2 512 (wal_example 0)
      ckpt_example_shm ckpt_example_log (replicate 1024 5) = (rc, log', db', sc')" by (rule prod_cases4)
  obtain rd logd dbd scd where refused: "sqlite3WalClose True [9, 9, 9, 9] None ?busy [] False 2 512 (wal_example 0)
      ckpt_example_shm ckpt_example_log (replicate 1024 5) = (rd, logd, dbd, scd)" by (rule prod_cases4)
  have al: "alone_when_locked ?sc" "alone_when_locked ?busy" "fst (os_call ?busy) = SQLITE_BUSY"
    by (simp_all add: alone_when_locked_def never_busy_def os_call_def)
  have "page_content ckpt_example_frames (replicate 1024 5) 512 1 = replicate 512 5"
    by (simp add: page_content_def ckpt_example_frames_def db_page_def)
  with close_keeps_content[OF ckpt_example al(1) run, of 1] close_keeps_content[OF ckpt_example al(1) run, of 2]
    close_keeps_content[OF ckpt_example al(2) refused, of 1] al(3)
  show ?thesis unfolding run refused by (auto simp: ckpt_example_content)
qed

end
