(* ===== verification/Spec2Isabelle.thy ===== *)
theory Spec2Isabelle
  imports Bitvec_Selftest Varint Rowset Complete Hash Int_Text Parser_Feed Utf Pb_Message Unwind_Walk
    Wal_Atomic Wal_Header_Race Wal_Close
begin

text \<open>
  A verification library for the C code of the password manager: the parts of its encrypted
  SQLite storage engine that carry data of their own, the protocol buffer codec of its reporting
  libraries, and the stack unwinder of its crash reporter. The application itself is written in
  Objective-C; all C code is below \<open>src/password_package/Pods\<close>.

  \<^bold>\<open>The program\<close>

  \<^item> \<open>WCDBOptimizedSQLCipher\<close> is SQLite with encryption. A statement arrives as text, is found complete
    (\<open>complete.c\<close>), cut into tokens (\<open>tokenize.c\<close>, \<open>keywordhash.h\<close>) that are pushed into the generated
    parser, compiled and run. Names are kept in hash tables (\<open>hash.c\<close>), integers and text are parsed
    and converted by \<open>util.c\<close> and \<open>utf.c\<close>. The virtual machine collects row ids in \<open>rowset.c\<close>. The
    pager keeps sets of page numbers in \<open>bitvec.c\<close>, and in WAL mode writes and reads pages through the
    write-ahead log \<open>wal.c\<close>.
  \<^item> \<open>nanopb\<close> encodes and decodes the protocol buffer messages that the reporting libraries send.
  \<^item> \<open>FirebaseCrashlytics\<close> walks the stack of a crashed thread with the compact and DWARF unwind tables of
    the loaded images.

  \<^bold>\<open>The theories\<close>

  Base holds the types of machine integers, the result codes, the scripted allocator and shared
  lemmas on lists and words; Probing is linear probing in general, for the hash tables of \<open>bitvec.c\<close>.

  The write-ahead log (\<open>wal.c\<close>) is the largest part:
  \<^item> Wal_Frame: the struct \<open>WalIndexHdr\<close>, the fields of \<open>Wal\<close>, \<open>walChecksumBytes\<close>, \<open>walEncodeFrame\<close>,
    \<open>walDecodeFrame\<close> and the log header; a frame is accepted exactly when it continues the chain of
    checksums.
  \<^item> Wal_Index, Wal_Index_Spec: the shared index with its hash tables (\<open>walIndexAppend\<close>,
    \<open>walCleanupHash\<close>, \<open>sqlite3WalFindFrame\<close>) and the contract \<open>page_index\<close>: after any history a search
    gives the last frame of a page in the snapshot. \<open>index_ok shm ps\<close> says that the index holds the page
    numbers \<open>ps\<close>, whatever entries of dead writers follow.
  \<^item> Wal_File: files, locks and their failures. Every call takes its outcome from a script, so a
    theorem for every script covers every pattern of faults; a failing write stores any prefix.
  \<^item> Wal_Recover, Wal_Snapshot, Wal_Begin: \<open>walIndexRecover\<close>, page reads and the opening of read
    transactions (\<open>walTryBeginRead\<close>): a log cut after any byte is recovered to its last whole commit.
  \<^item> Wal_Header_Race: the unlocked read of the index header against a concurrent write, as a step
    relation on single words: an accepted header is never torn.
  \<^item> Wal_Write, Wal_Commit, Wal_Atomic: \<open>sqlite3WalFrames\<close>; a commit is atomic under faults and power
    loss, and isolated from readers.
  \<^item> Wal_Sort, Wal_Iterator, Wal_Checkpoint, Wal_Checkpoint_Spec: \<open>walMergesort\<close>, \<open>walIteratorNext\<close>,
    \<open>walCheckpoint\<close> and \<open>sqlite3WalCheckpoint\<close>; a checkpoint changes neither what later readers see nor
    what readers with an older snapshot see, and succeeds when nothing stands in its way.
  \<^item> Wal_Rollback, Wal_Close: \<open>sqlite3WalUndo\<close>, savepoints and \<open>sqlite3WalClose\<close>.

  The rest of the storage engine:
  \<^item> Page_Set, Bitvec, Bitvec_Selftest: the contract \<open>page_set\<close>, \<open>bitvec.c\<close> with its three
    representations, and its built-in self-test.
  \<^item> Rowset: \<open>rowset.c\<close>, its merge sort, its forest of balanced trees and the contract \<open>batch_set\<close>.
  \<^item> Hash: \<open>hash.c\<close> over an explicit element list, and the contract \<open>dictionary\<close>.
  \<^item> Varint: the record-format integers of \<open>util.c\<close>; Arith: checked arithmetic and logarithmic estimates;
    Int_Text: the integer parsers; Ctype, Cstring: character tables, comparison and quoting.
  \<^item> Complete: the statement detector and the grammar that it recognises. Keyword_Tables, Keyword,
    Tokenize, Parser_Feed: keyword tables entry by entry, \<open>sqlite3GetToken\<close>, and the loop of
    \<open>sqlite3RunParser\<close> for every parser.
  \<^item> Utf: characters and texts in UTF-8 and both forms of UTF-16, with the contract \<open>char_codec\<close>.

  The other libraries:
  \<^item> Pb_Stream, Pb_Encode, Pb_Decode, Pb_Roundtrip, Pb_Fields, Pb_Message: \<open>pb_encode.c\<close> and
    \<open>pb_decode.c\<close>: single fields, packed arrays, messages of required and optional fields, and messages
    inside messages; the contract \<open>encoder\<close>; decoders stay inside their input on all bytes; decoding
    undoes encoding.
  \<^item> Dwarf_Data, Dwarf_Registers, Dwarf_Expression, Dwarf_Expression_Spec, Dwarf_Records,
    Dwarf_Record_Bytes, Dwarf_Cfi, Dwarf_Cfi_Spec, Dwarf_Unwind: the DWARF reader of
    \<open>FIRCLSDwarfUnwind.c\<close> and its helpers on arm64, each against a datatype of what the bytes mean.
    Where the code departs from the meaning DWARF gives an instruction (\<open>DW_CFA_advance_loc\<close>, a rule
    for the frame address after an expression), the theorems are for programs without that case
    (\<open>cfis_regular\<close>). Memory is a partial function; an unmapped read is a fault, \<open>None\<close>.
  \<^item> Compact_Unwind, Unwind_Walk: \<open>FIRCLSCompactUnwind.c\<close> and the walk of \<open>FIRCLSUnwind.c\<close>.

  \<^bold>\<open>Conventions\<close>

  A C function has a definition of its name; its loops have definitions beside it. State is passed
  and returned; result codes are integers, \<open>None\<close> is behaviour that C leaves undefined, or a loop
  that does not end. Unsigned integers are words of their width; counters that the code bounds far
  below their width are natural numbers. A random value, the byte order of the host and everything
  that belongs to other libraries is an argument: the codec of the encryption, scripts of the
  allocator and of the system, the busy handler as the list of its answers, the generated parser,
  the layout of compact unwind sections (a system header), the image lookup of the dynamic linker.

  Loops are recursive functions with a termination proof. Bounds of the code itself are part of the
  model: 101 attempts to open a read transaction, 100 stack entries of a DWARF expression, 8192
  probes of an index table, the frame limit of the stack walk.

  A contract between components is a locale, interpreted on the definitions of the provider in the
  provider's theory; its lemmas are proved once for all providers. Every property stands at the top
  level of its theory under its number, most have a witness beside them that applies them to a
  concrete input.

  \<^bold>\<open>Not modelled\<close>

  The pager beyond reading a page, the B-tree, the SQL compiler and the virtual machine: they share
  one mutable page image through raw pointers, and their correctness needs a semantics of SQL.
  Generated code, extensions and the encryption library. Of \<open>wal.c\<close>: the set-up of files and shared
  memory (\<open>sqlite3WalOpen\<close>, \<open>walIndexPage\<close>, \<open>walIndexClose\<close>), \<open>sqlite3WalExclusiveMode\<close>, and the branches for
  \<open>SQLITE_ENABLE_SNAPSHOT\<close>, which the build leaves out. The theorems on commits (C1, C9) have a
  narrow precondition, \<open>commit_starts\<close>: the transaction is written by one call of
  \<open>sqlite3WalFrames\<close>, the log is not being restarted, and the log file consists of its header and
  exactly the frames committed so far, or is empty: nothing at all stands behind its last frame, as
  it would after a restart, a rollback or a crash. The cut of C1 is not before the end of that old
  log. Of nanopb: repeated fields
  and oneofs inside a message, callbacks and extensions. Of the crash reporter: signal handlers and the x86 encodings.
\<close>

end
